(* ===== verification/Prelude.thy ===== *)
theory Prelude
  imports Main "HOL-Library.Word"
begin

text \<open>
  What every theory of the development shares: byte strings and machine words, the error
  monad as a sum type with the error on the left, folds that stop at the first error,
  big-endian words on the wire, 64-bit signed durations with Go's wrap-around, and the
  lemma collections the component theories extend.
\<close>

unbundle bit_operations_syntax

named_theorems model_defs \<open>definitions that unfold to the code's branches\<close>
named_theorems wire_simps \<open>reading back what was just written\<close>

section \<open>Bytes, words and results\<close>

type_synonym byte = "8 word"
type_synonym bytes = "byte list"
type_synonym u16 = "16 word"
type_synonym u32 = "32 word"
type_synonym u64 = "64 word"

text \<open>
  A Go function that returns \<open>(T, error)\<close> returns \<open>'e + 'a\<close>: \<open>Inl\<close> carries the error.
  \<open>bind_res\<close> is the early return \<open>if err != nil { return err }\<close>.
\<close>

definition bind_res :: "'e + 'a \<Rightarrow> ('a \<Rightarrow> 'e + 'b) \<Rightarrow> 'e + 'b" where
  "bind_res r f = (case r of Inl e \<Rightarrow> Inl e | Inr x \<Rightarrow> f x)"

lemma bind_res_simps [simp]:
  "bind_res (Inl e) f = Inl e"
  "bind_res (Inr x) f = f x"
  by (simp_all add: bind_res_def)

lemma bind_res_eq_Inr [simp]:
  "bind_res r f = Inr y \<longleftrightarrow> (\<exists>x. r = Inr x \<and> f x = Inr y)"
  by (cases r) simp_all

lemma bind_res_eq_Inl:
  "bind_res r f = Inl e \<longleftrightarrow> r = Inl e \<or> (\<exists>x. r = Inr x \<and> f x = Inl e)"
  by (cases r) auto

text \<open>An error that is wrapped on its way out.\<close>

lemma wrap_error_Inr:
  "(case r of Inl e \<Rightarrow> Inl (h e) | Inr x \<Rightarrow> g x) = Inr y \<longleftrightarrow> (\<exists>x. r = Inr x \<and> g x = Inr y)"
  by (cases r) auto

lemma guard_Inr: "(if b then Inl e else r) = Inr y \<longleftrightarrow> \<not> b \<and> r = Inr y"
  by simp

lemma found_Inr:
  "(case r of None \<Rightarrow> Inl e | Some x \<Rightarrow> g x) = Inr y \<longleftrightarrow> (\<exists>x. r = Some x \<and> g x = Inr y)"
  by (cases r) auto

lemmas ok_simps = wrap_error_Inr guard_Inr found_Inr

lemma bind_res_cong [fundef_cong]:
  "r = r' \<Longrightarrow> (\<And>x. r' = Inr x \<Longrightarrow> f x = g x) \<Longrightarrow> bind_res r f = bind_res r' g"
  by (cases r') auto

lemma bind_res_assoc:
  "bind_res (bind_res r f) g = bind_res r (\<lambda>x. bind_res (f x) g)"
  by (cases r) simp_all

definition is_ok :: "'e + 'a \<Rightarrow> bool" where
  "is_ok r = (case r of Inl _ \<Rightarrow> False | Inr _ \<Rightarrow> True)"

lemma is_ok_simps [simp]: "is_ok (Inr x)" "\<not> is_ok (Inl e)"
  by (simp_all add: is_ok_def)

lemma is_ok_iff: "is_ok r \<longleftrightarrow> (\<exists>x. r = Inr x)"
  by (cases r) simp_all

lemma is_ok_iff_not: "is_ok r \<longleftrightarrow> \<not> (\<exists>e. r = Inl e)"
  by (cases r) simp_all

lemma bind_res_done: "bind_res r (\<lambda>_. Inr ()) = Inr () \<longleftrightarrow> is_ok r"
  by (cases r) simp_all

text \<open>A loop whose body may return early with an error, threading the state it updates.\<close>

fun fold_res :: "('a \<Rightarrow> 's \<Rightarrow> 'e + 's) \<Rightarrow> 'a list \<Rightarrow> 's \<Rightarrow> 'e + 's" where
  "fold_res f [] s = Inr s"
| "fold_res f (x # xs) s = bind_res (f x s) (fold_res f xs)"

lemma fold_res_append:
  "fold_res f (xs @ ys) s = bind_res (fold_res f xs s) (fold_res f ys)"
  by (induction xs arbitrary: s) (simp_all add: bind_res_assoc cong: bind_res_cong)

text \<open>A loop that builds its result element by element and stops at the first error.\<close>

fun map_res :: "('a \<Rightarrow> 'e + 'b) \<Rightarrow> 'a list \<Rightarrow> 'e + 'b list" where
  "map_res f [] = Inr []"
| "map_res f (x # xs) = bind_res (f x) (\<lambda>y. bind_res (map_res f xs) (\<lambda>ys. Inr (y # ys)))"

lemma map_res_Inr:
  "map_res f xs = Inr ys \<longleftrightarrow> list_all2 (\<lambda>x y. f x = Inr y) xs ys"
  by (induction xs arbitrary: ys) (auto simp: list_all2_Cons1)

lemma map_res_all_ok:
  "(\<And>x. x \<in> set xs \<Longrightarrow> f x = Inr (g x)) \<Longrightarrow> map_res f xs = Inr (map g xs)"
  by (induction xs) auto

lemma map_res_Inl_elem:
  "map_res f xs = Inl e \<Longrightarrow> \<exists>x \<in> set xs. f x = Inl e"
  by (induction xs) (auto simp: bind_res_eq_Inl)

lemma map_res_Inr_elem:
  "map_res f xs = Inr ys \<Longrightarrow> y \<in> set ys \<Longrightarrow> \<exists>x \<in> set xs. f x = Inr y"
  by (induction xs arbitrary: ys) auto

lemma map_res_map: "map_res f (map g xs) = map_res (\<lambda>x. f (g x)) xs"
  by (induction xs) simp_all

lemma map_res_length: "map_res f xs = Inr ys \<Longrightarrow> length ys = length xs"
  by (simp add: map_res_Inr list_all2_lengthD)

text \<open>Looking an element up by a key that no two share.\<close>

lemma find_key_iff:
  "distinct (map f xs) \<Longrightarrow> find (\<lambda>x. f x = k) xs = Some x \<longleftrightarrow> x \<in> set xs \<and> f x = k"
  by (induction xs) auto

lemma find_rev_key_iff:
  "distinct (map f xs) \<Longrightarrow> find (\<lambda>x. f x = k) (rev xs) = Some x \<longleftrightarrow> x \<in> set xs \<and> f x = k"
  using find_key_iff [of f "rev xs" k x] by (simp flip: rev_map)

lemma find_SomeD: "find P xs = Some x \<Longrightarrow> x \<in> set xs \<and> P x"
  by (induction xs) (auto split: if_splits)

lemma map_res_guard:
  "map_res (\<lambda>x. if P x then Inl (e x) else Inr (g x)) xs = Inr ys \<longleftrightarrow> list_all (\<lambda>x. \<not> P x) xs \<and> ys = map g xs"
  by (induction xs arbitrary: ys) auto

section \<open>Big-endian words (encoding/binary)\<close>

definition put_u16 :: "u16 \<Rightarrow> bytes" where
  "put_u16 w = [ucast (drop_bit 8 w), ucast w]"

definition put_u32 :: "u32 \<Rightarrow> bytes" where
  "put_u32 w = [ucast (drop_bit 24 w), ucast (drop_bit 16 w), ucast (drop_bit 8 w), ucast w]"

definition put_u64 :: "u64 \<Rightarrow> bytes" where
  "put_u64 w = put_u32 (ucast (drop_bit 32 w)) @ put_u32 (ucast w)"

text \<open>The readers are only applied to slices of sufficient length, as their callers check.\<close>

fun get_u16 :: "bytes \<Rightarrow> u16" where
  "get_u16 (a # b # _) = push_bit 8 (ucast a) OR ucast b"
| "get_u16 _ = 0"

fun get_u32 :: "bytes \<Rightarrow> u32" where
  "get_u32 (a # b # c # d # _) =
     push_bit 24 (ucast a) OR push_bit 16 (ucast b) OR push_bit 8 (ucast c) OR ucast d"
| "get_u32 _ = 0"

lemma length_put [simp]:
  "length (put_u16 w) = 2" "length (put_u32 v) = 4" "length (put_u64 u) = 8"
  by (simp_all add: put_u16_def put_u32_def put_u64_def)

lemma get_put_u16 [simp, wire_simps]: "get_u16 (put_u16 w @ xs) = w"
  by (rule bit_word_eqI) (auto simp: put_u16_def bit_simps)

lemma get_put_u16_only [simp, wire_simps]: "get_u16 (put_u16 w) = w"
  using get_put_u16 [of w "[]"] by simp

lemma get_put_u32 [simp, wire_simps]: "get_u32 (put_u32 w @ xs) = w"
proof (rule bit_word_eqI)
  fix n assume "n < LENGTH(32)"
  then consider "n < 8" | "8 \<le> n" "n < 16" | "16 \<le> n" "n < 24" | "24 \<le> n" "n < 32"
    by fastforce
  then show "bit (get_u32 (put_u32 w @ xs)) n = bit w n"
    by cases (auto simp: put_u32_def bit_simps)
qed

lemma get_put_u32_only [simp, wire_simps]: "get_u32 (put_u32 w) = w"
  using get_put_u32 [of w "[]"] by simp

lemma of_nat_unat_self [simp]: "of_nat (unat (w :: 'a::len word)) = w"
  by (simp add: of_nat_unat ucast_id)

lemma unat_of_nat_small:
  "n < 2 ^ LENGTH('a) \<Longrightarrow> unat (of_nat n :: 'a::len word) = n"
  by (simp add: unsigned_of_nat take_bit_nat_eq_self)

lemma of_nat_eq_wordI: "unat w = n \<Longrightarrow> of_nat n = (w :: 'a::len word)"
  by auto

lemma not_bit_byte [simp]: "8 \<le> n \<Longrightarrow> \<not> bit (b :: byte) n"
  by (auto dest: bit_imp_le_length)

lemma byte_and_255 [simp]: "(b :: byte) AND 255 = b"
proof -
  have "(255 :: byte) = - 1" by simp
  then show ?thesis by (simp only: and.right_neutral)
qed

lemma put_get_u16: "put_u16 (get_u16 (a # b # xs)) = [a, b]"
  by (auto simp: put_u16_def bit_simps intro!: bit_word_eqI)

lemma put_get_u32: "put_u32 (get_u32 (a # b # c # d # xs)) = [a, b, c, d]"
  by (auto simp: put_u32_def bit_simps intro!: bit_word_eqI)

lemma take_drop_put_u16 [simp]:
  "take 2 (put_u16 w @ xs) = put_u16 w" "drop 2 (put_u16 w @ xs) = xs"
  by (simp_all add: put_u16_def numeral_2_eq_2)

section \<open>Signed 64-bit integers\<close>

text \<open>
  Durations are \<open>int64\<close> nanoseconds. They are modelled as \<open>int\<close> with Go's two's complement
  wrap-around written out wherever the code adds or multiplies.
\<close>

definition wrap64 :: "int \<Rightarrow> int" where
  "wrap64 x = (x + 2 ^ 63) mod 2 ^ 64 - 2 ^ 63"

definition is_int64 :: "int \<Rightarrow> bool" where
  "is_int64 x \<longleftrightarrow> - (2 ^ 63) \<le> x \<and> x < 2 ^ 63"

lemma wrap64_id [simp]: "is_int64 x \<Longrightarrow> wrap64 x = x"
  by (simp add: wrap64_def is_int64_def)

lemma is_int64_wrap64 [simp]: "is_int64 (wrap64 x)"
  by (simp add: wrap64_def is_int64_def)

text \<open>\<open>Time.Sub\<close>: the difference of two instants saturates at the ends of the range.\<close>

definition time_Sub :: "int \<Rightarrow> int \<Rightarrow> int" where
  "time_Sub t u = max (- (2 ^ 63)) (min (2 ^ 63 - 1) (t - u))"

end
