(* ===== verification/Wire.thy ===== *)
theory Wire
  imports Prelude
begin

text \<open>
  The interface of a wire format whose items carry their own length: a step reads one item
  off the front of a byte string. The locale \<open>item_codec\<close> states the one law a provider
  owes (a step undoes an encoding, whatever follows it) and proves once what the clients
  use: back-to-back items come back as the same items. LLRP parameters, LLRP messages and
  the components of an identity key are its instances.
\<close>

section \<open>Items until the input is empty\<close>

inductive parses :: "('b list \<Rightarrow> 'e + 'a \<times> 'b list) \<Rightarrow> 'b list \<Rightarrow> 'a list \<Rightarrow> bool"
  for step :: "'b list \<Rightarrow> 'e + 'a \<times> 'b list" where
  parses_Nil: "parses step [] []"
| parses_Cons: "data \<noteq> [] \<Longrightarrow> step data = Inr (x, rest) \<Longrightarrow> parses step rest xs
    \<Longrightarrow> parses step data (x # xs)"

inductive_cases parses_NilE: "parses step [] xs"
inductive_cases parses_ConsE: "parses step (b # bs) xs"

lemma parses_Nil_iff [simp]: "parses step [] xs \<longleftrightarrow> xs = []"
  by (auto intro: parses_Nil elim: parses_NilE)

lemma parses_deterministic: "parses step data xs \<Longrightarrow> parses step data ys \<Longrightarrow> xs = ys"
proof (induction arbitrary: ys rule: parses.induct)
  case parses_Nil
  then show ?case by simp
next
  case (parses_Cons data x rest xs)
  from parses_Cons.prems parses_Cons.hyps obtain zs
    where "ys = x # zs" "parses step rest zs"
    by (auto elim: parses.cases)
  with parses_Cons.IH show ?case by simp
qed

section \<open>A fixed number of items\<close>

fun read_items :: "('b list \<Rightarrow> 'e + 'a \<times> 'b list) \<Rightarrow> nat \<Rightarrow> 'b list \<Rightarrow> 'e + 'a list \<times> 'b list" where
  "read_items step 0 data = Inr ([], data)"
| "read_items step (Suc n) data = bind_res (step data) (\<lambda>(x, rest).
     bind_res (read_items step n rest) (\<lambda>(xs, rest'). Inr (x # xs, rest')))"

section \<open>The contract\<close>

locale item_codec =
  fixes enc :: "'a \<Rightarrow> 'b list"
    and step :: "'b list \<Rightarrow> 'e + 'a \<times> 'b list"
    and ok :: "'a \<Rightarrow> bool"
  assumes enc_nonempty: "ok x \<Longrightarrow> enc x \<noteq> []"
    and step_enc: "ok x \<Longrightarrow> step (enc x @ rest) = Inr (x, rest)"
begin

lemma parses_enc:
  assumes "\<forall>x \<in> set xs. ok x"
  shows "parses step (concat (map enc xs)) xs"
  using assms
proof (induction xs)
  case Nil
  then show ?case by simp
next
  case (Cons x xs)
  then have "step (enc x @ concat (map enc xs)) = Inr (x, concat (map enc xs))"
    and "enc x @ concat (map enc xs) \<noteq> []"
    by (simp_all add: step_enc enc_nonempty)
  with Cons show ?case by (auto intro: parses_Cons)
qed

lemma read_items_enc:
  "\<forall>x \<in> set xs. ok x \<Longrightarrow>
   read_items step (length xs) (concat (map enc xs) @ rest) = Inr (xs, rest)"
proof (induction xs)
  case Nil
  show ?case by simp
next
  case (Cons x xs)
  then have "step (enc x @ (concat (map enc xs) @ rest)) = Inr (x, concat (map enc xs) @ rest)"
    by (intro step_enc) simp
  with Cons show ?case by (simp only: length_Cons read_items.simps list.map concat.simps
      append_assoc bind_res_simps prod.case list.set_intros ball_simps insert_iff list.simps) simp
qed

lemma enc_inj_list:
  assumes "\<forall>x \<in> set xs. ok x" "\<forall>y \<in> set ys. ok y" "concat (map enc xs) = concat (map enc ys)"
  shows "xs = ys"
  using parses_enc [OF assms(1)] parses_enc [OF assms(2)] assms(3)
  by (metis parses_deterministic)

lemma enc_prefix_free:
  assumes "ok x" "ok y" "enc x @ xs = enc y @ ys"
  shows "x = y \<and> xs = ys"
proof -
  have "Inr (x, xs) = step (enc x @ xs)" using assms(1) by (rule step_enc [symmetric])
  also have "\<dots> = step (enc y @ ys)" by (simp only: assms(3))
  also have "\<dots> = Inr (y, ys)" using assms(2) by (rule step_enc)
  finally show ?thesis by simp
qed

end

end
