(* ===== verification/Strconv.thy ===== *)
theory Strconv
  imports Prelude "HOL-Library.Char_ord"
begin

text \<open>
  Decimal text as the program reads and writes it. A Go string is a list of bytes, kept as a
  list of characters; \<open>itoa\<close> is \<^verbatim>\<open>strconv.Itoa\<close> and \<^verbatim>\<open>strconv.FormatUint\<close> in base ten for a
  number that is not negative, \<open>ParseUint64\<close> is \<^verbatim>\<open>strconv.ParseUint(s, 10, 64)\<close>.
\<close>

section \<open>Decimal digits\<close>

definition is_digit :: "char \<Rightarrow> bool" where
  "is_digit c \<longleftrightarrow> CHR ''0'' \<le> c \<and> c \<le> CHR ''9''"

definition digit_value :: "char \<Rightarrow> nat" where
  "digit_value c = of_char c - 48"

definition digit_char :: "nat \<Rightarrow> char" where
  "digit_char n = char_of (48 + n)"

fun itoa :: "nat \<Rightarrow> string" where
  "itoa n = (if n < 10 then [digit_char n] else itoa (n div 10) @ [digit_char (n mod 10)])"

declare itoa.simps [simp del]

definition decimal :: "string \<Rightarrow> nat" where
  "decimal s = foldl (\<lambda>v c. v * 10 + digit_value c) 0 s"

definition ParseUint64 :: "string \<Rightarrow> u64 option" where
  "ParseUint64 s =
     (if s = [] \<or> \<not> list_all is_digit s then None
      else if decimal s < 2 ^ 64 then Some (of_nat (decimal s)) else None)"

section \<open>Facts\<close>

lemma is_digit_iff: "is_digit c \<longleftrightarrow> 48 \<le> (of_char c :: nat) \<and> (of_char c :: nat) \<le> 57"
  by (simp add: is_digit_def less_eq_char_def)

lemma of_digit_char [simp]: "n < 10 \<Longrightarrow> (of_char (digit_char n) :: nat) = 48 + n"
  by (simp add: digit_char_def)

lemma is_digit_digit_char [simp]: "n < 10 \<Longrightarrow> is_digit (digit_char n)"
  by (simp add: is_digit_iff)

lemma digit_value_digit_char [simp]: "n < 10 \<Longrightarrow> digit_value (digit_char n) = n"
  by (simp add: digit_value_def)

lemma digit_value_less: "is_digit c \<Longrightarrow> digit_value c < 10"
  by (auto simp: is_digit_iff digit_value_def)

lemma digit_char_digit_value [simp]: "is_digit c \<Longrightarrow> digit_char (digit_value c) = c"
  by (auto simp: is_digit_iff digit_value_def digit_char_def)

lemma decimal_simps [simp]:
  "decimal [] = 0" "decimal (s @ [c]) = decimal s * 10 + digit_value c"
  by (simp_all add: decimal_def)

lemma decimal_append: "decimal (s @ t) = decimal s * 10 ^ length t + decimal t"
proof (induction t rule: rev_induct)
  case (snoc c t)
  have "decimal (s @ t @ [c]) = decimal (s @ t) * 10 + digit_value c"
    by (metis append_assoc decimal_simps(2))
  with snoc show ?case by (simp add: algebra_simps)
qed simp

lemma decimal_singleton [simp]: "decimal [c] = digit_value c"
  by (simp add: decimal_def)

lemma decimal_Cons: "decimal (c # s) = digit_value c * 10 ^ length s + decimal s"
  using decimal_append [of "[c]" s] by simp

lemma decimal_less: "list_all is_digit s \<Longrightarrow> decimal s < 10 ^ length s"
proof (induction s rule: rev_induct)
  case (snoc c s)
  then have "decimal s < 10 ^ length s" "digit_value c < 10" by (simp_all add: digit_value_less)
  then have "decimal s * 10 + digit_value c < (decimal s + 1) * 10" by simp
  also have "\<dots> \<le> 10 ^ length s * 10" using \<open>decimal s < 10 ^ length s\<close> by (intro mult_le_mono1) simp
  finally show ?case by simp
qed simp

lemma decimal_itoa [simp]: "decimal (itoa n) = n"
proof (induction n rule: itoa.induct)
  case (1 n)
  then show ?case by (cases "n < 10") (simp_all add: itoa.simps [of n])
qed

lemma itoa_digits: "list_all is_digit (itoa n)"
proof (induction n rule: itoa.induct)
  case (1 n)
  then show ?case by (cases "n < 10") (simp_all add: itoa.simps [of n])
qed

lemma itoa_nonempty [simp]: "itoa n \<noteq> []"
  by (simp add: itoa.simps [of n])

lemma itoa_inject [simp]: "itoa m = itoa n \<longleftrightarrow> m = n"
  by (metis decimal_itoa)

lemma ParseUint64_itoa: "n < 2 ^ 64 \<Longrightarrow> ParseUint64 (itoa n) = Some (of_nat n)"
  by (simp add: ParseUint64_def itoa_digits)

lemma ParseUint64_Some:
  "ParseUint64 s = Some w \<longleftrightarrow> s \<noteq> [] \<and> list_all is_digit s \<and> decimal s < 2 ^ 64 \<and> w = of_nat (decimal s)"
  by (auto simp: ParseUint64_def)

lemma unat_ParseUint64: "ParseUint64 s = Some w \<Longrightarrow> unat w = decimal s"
  by (auto simp: ParseUint64_Some unat_of_nat_small)

section \<open>Text (package strings)\<close>

text \<open>The program only cuts and splits at a single character.\<close>

definition HasPrefix :: "string \<Rightarrow> string \<Rightarrow> bool" where
  "HasPrefix s p \<longleftrightarrow> take (length p) s = p"

definition HasSuffix :: "string \<Rightarrow> string \<Rightarrow> bool" where
  "HasSuffix s p \<longleftrightarrow> length p \<le> length s \<and> drop (length s - length p) s = p"

definition CutPrefix :: "string \<Rightarrow> string \<Rightarrow> string option" where
  "CutPrefix s p = (if HasPrefix s p then Some (drop (length p) s) else None)"

definition TrimPrefix :: "string \<Rightarrow> string \<Rightarrow> string" where
  "TrimPrefix s p = (if HasPrefix s p then drop (length p) s else s)"

definition TrimSuffix :: "string \<Rightarrow> string \<Rightarrow> string" where
  "TrimSuffix s p = (if HasSuffix s p then take (length s - length p) s else s)"

definition Trim :: "string \<Rightarrow> string \<Rightarrow> string" where
  "Trim s cutset = rev (dropWhile (\<lambda>c. c \<in> set cutset) (rev (dropWhile (\<lambda>c. c \<in> set cutset) s)))"

definition Cut :: "string \<Rightarrow> char \<Rightarrow> (string \<times> string) option" where
  "Cut s sep = (if sep \<in> set s then Some (takeWhile (\<lambda>c. c \<noteq> sep) s, tl (dropWhile (\<lambda>c. c \<noteq> sep) s)) else None)"

fun Split :: "string \<Rightarrow> char \<Rightarrow> string list" where
  "Split [] sep = [[]]"
| "Split (c # s) sep =
     (if c = sep then [] # Split s sep
      else case Split s sep of [] \<Rightarrow> [[c]] | p # ps \<Rightarrow> (c # p) # ps)"

fun Join :: "string list \<Rightarrow> char \<Rightarrow> string" where
  "Join [] sep = []"
| "Join [p] sep = p"
| "Join (p # ps) sep = p @ sep # Join ps sep"

lemma HasPrefix_append [simp]: "HasPrefix (p @ s) p"
  by (simp add: HasPrefix_def)

lemma HasPrefix_iff: "HasPrefix s p \<longleftrightarrow> (\<exists>t. s = p @ t)"
  by (metis HasPrefix_append HasPrefix_def append_take_drop_id)

lemma CutPrefix_append [simp]: "CutPrefix (p @ s) p = Some s"
  by (simp add: CutPrefix_def)

lemma CutPrefix_Some: "CutPrefix s p = Some t \<longleftrightarrow> s = p @ t"
  by (auto simp: CutPrefix_def HasPrefix_iff)

lemma Cut_append [simp]: "sep \<notin> set k \<Longrightarrow> Cut (k @ sep # b) sep = Some (k, b)"
  by (auto simp: Cut_def takeWhile_append dropWhile_append)

lemma Cut_Some: "Cut s sep = Some (k, b) \<longleftrightarrow> s = k @ sep # b \<and> sep \<notin> set k"
proof
  assume cut: "Cut s sep = Some (k, b)"
  then have "sep \<in> set s" "k = takeWhile (\<lambda>c. c \<noteq> sep) s" "b = tl (dropWhile (\<lambda>c. c \<noteq> sep) s)"
    by (auto simp: Cut_def split: if_splits)
  moreover obtain d ds where "dropWhile (\<lambda>c. c \<noteq> sep) s = d # ds" "d = sep"
    using \<open>sep \<in> set s\<close> by (metis (mono_tags, lifting) dropWhile_eq_Nil_conv hd_dropWhile list.exhaust_sel)
  ultimately show "s = k @ sep # b \<and> sep \<notin> set k"
    using takeWhile_dropWhile_id [of "\<lambda>c. c \<noteq> sep" s] by (auto dest: set_takeWhileD)
qed auto

lemma Split_nonempty [simp]: "Split s sep \<noteq> []"
  by (induction s) (auto split: list.split)

lemma Split_pieces: "p \<in> set (Split s sep) \<Longrightarrow> sep \<notin> set p"
  by (induction s arbitrary: p) (auto split: if_splits list.splits)

lemma Join_Split: "Join (Split s sep) sep = s"
proof (induction s)
  case (Cons c s)
  then show ?case
    by (cases "Split s sep"; cases "tl (Split s sep)") auto
qed simp

lemma Split_append: "sep \<notin> set p \<Longrightarrow> Split (p @ sep # s) sep = p # Split s sep"
  by (induction p) auto

lemma Split_single: "sep \<notin> set p \<Longrightarrow> Split p sep = [p]"
  by (induction p) auto

lemma Split_Join: "ps \<noteq> [] \<Longrightarrow> \<forall>p \<in> set ps. sep \<notin> set p \<Longrightarrow> Split (Join ps sep) sep = ps"
  by (induction ps sep rule: Join.induct) (auto simp: Split_single Split_append)

section \<open>Facts: canonical decimals\<close>

lemma decimal_inject:
  "length s = length t \<Longrightarrow> list_all is_digit s \<Longrightarrow> list_all is_digit t \<Longrightarrow> decimal s = decimal t \<Longrightarrow> s = t"
proof (induction s arbitrary: t rule: rev_induct)
  case (snoc c s)
  then obtain t' d where t: "t = t' @ [d]" "length s = length t'" by (cases t rule: rev_cases) auto
  with snoc.prems have dig: "digit_value c < 10" "digit_value d < 10" "is_digit c" "is_digit d"
    by (auto simp: digit_value_less)
  have "decimal s * 10 + digit_value c = decimal t' * 10 + digit_value d" using snoc.prems t by simp
  with dig have "decimal s = decimal t'" "digit_value c = digit_value d" by presburger+
  moreover from this dig have "c = d" by (metis digit_char_digit_value)
  ultimately show ?case using snoc t by simp
qed simp

lemma decimal_replicate_0 [simp]: "decimal (replicate k CHR ''0'' @ s) = decimal s"
proof -
  have "decimal (replicate k CHR ''0'') = 0"
    by (induction k) (simp_all add: decimal_Cons digit_value_def)
  then show ?thesis by (simp add: decimal_append)
qed

lemma is_digit_0 [simp]: "is_digit CHR ''0''"
  by (simp add: is_digit_iff)

lemma length_itoa_le: "n < 10 ^ k \<Longrightarrow> 0 < k \<Longrightarrow> length (itoa n) \<le> k"
proof (induction n arbitrary: k rule: itoa.induct)
  case (1 n)
  show ?case
  proof (cases "n < 10")
    case True
    with 1 show ?thesis by (simp add: itoa.simps [of n])
  next
    case False
    then obtain j where k: "k = Suc j" "0 < j" using "1.prems" by (cases k; cases "k - 1") auto
    then have "n div 10 < 10 ^ j" using "1.prems"(1) by (simp add: less_mult_imp_div_less mult.commute)
    with "1.IH" [OF False _ k(2)] False k show ?thesis by (simp add: itoa.simps [of n])
  qed
qed

lemma decimal_pos: "s \<noteq> [] \<Longrightarrow> is_digit (hd s) \<Longrightarrow> hd s \<noteq> CHR ''0'' \<Longrightarrow> 0 < decimal s"
proof -
  assume s: "s \<noteq> []" "is_digit (hd s)" "hd s \<noteq> CHR ''0''"
  have "digit_char 0 = CHR ''0''"
    using digit_char_digit_value [OF is_digit_0] by (simp add: digit_value_def)
  with s have "digit_value (hd s) \<noteq> 0" by (metis digit_char_digit_value)
  then show ?thesis using s(1) by (cases s) (simp_all add: decimal_Cons)
qed

lemma itoa_decimal:
  "list_all is_digit s \<Longrightarrow> s \<noteq> [] \<Longrightarrow> length s = 1 \<or> hd s \<noteq> CHR ''0'' \<Longrightarrow> itoa (decimal s) = s"
proof (induction s rule: rev_induct)
  case (snoc c s)
  then have c: "is_digit c" "digit_value c < 10" by (auto simp: digit_value_less)
  show ?case
  proof (cases "s = []")
    case True
    with c show ?thesis by (simp add: itoa.simps [of "digit_value c"])
  next
    case False
    with snoc.prems have s: "list_all is_digit s" "hd s \<noteq> CHR ''0''" by auto
    with False have "is_digit (hd s)" by (cases s) auto
    with False s have "0 < decimal s" by (intro decimal_pos) auto
    with snoc.IH False s c show ?thesis by (simp add: itoa.simps [of "decimal s * 10 + digit_value c"])
  qed
qed simp

end
