(* ===== verification/Identity.thy ===== *)
theory Identity
  imports Wire Strconv "HOL-Library.Signed_Division"
begin

text \<open>
  Canonical identities and compiled patterns, from \<^verbatim>\<open>src/internal/identity\<close>: identity values,
  their map key and equality (\<^verbatim>\<open>identity.go\<close>), patterns, their fixed-position bit tests and
  the reference rule that matches them (\<^verbatim>\<open>pattern.go\<close>). The Go enumerations are datatypes of
  their declared constants, with the zero value first.
\<close>

section \<open>Names\<close>

datatype Authority = AuthorityUnknown | AuthorityGS1 | AuthorityISO6346 | AuthorityISO15459

definition Authority_String :: "Authority \<Rightarrow> string" where
  "Authority_String a =
     (case a of
        AuthorityGS1 \<Rightarrow> ''gs1''
      | AuthorityISO6346 \<Rightarrow> ''iso6346''
      | AuthorityISO15459 \<Rightarrow> ''iso15459''
      | AuthorityUnknown \<Rightarrow> ''unknown'')"

datatype KeyType =
    KeyTypeUnknown | KeyTypeSGTIN | KeyTypeSSCC | KeyTypeGRAI | KeyTypeGIAI
  | KeyTypeFreightContainer | KeyTypeTransportUnit

definition KeyType_String :: "KeyType \<Rightarrow> string" where
  "KeyType_String k =
     (case k of
        KeyTypeSGTIN \<Rightarrow> ''sgtin''
      | KeyTypeSSCC \<Rightarrow> ''sscc''
      | KeyTypeGRAI \<Rightarrow> ''grai''
      | KeyTypeGIAI \<Rightarrow> ''giai''
      | KeyTypeFreightContainer \<Rightarrow> ''freight-container''
      | KeyTypeTransportUnit \<Rightarrow> ''transport-unit''
      | KeyTypeUnknown \<Rightarrow> ''unknown'')"

datatype ComponentName =
    ComponentUnknown
  | GS1CompanyPrefix | ItemReference | SerialReference | Serial | AssetType | IndividualAssetReference
  | DataIdentifier | OwnerCode | EquipmentCategory | ContainerSerial | CheckDigit | ISOIdentifier
  | FilterValue | Partition

definition ComponentName_String :: "ComponentName \<Rightarrow> string" where
  "ComponentName_String c =
     (case c of
        GS1CompanyPrefix \<Rightarrow> ''gs1companyprefix''
      | ItemReference \<Rightarrow> ''itemref''
      | SerialReference \<Rightarrow> ''serialref''
      | Serial \<Rightarrow> ''serial''
      | AssetType \<Rightarrow> ''assettype''
      | IndividualAssetReference \<Rightarrow> ''indassetref''
      | DataIdentifier \<Rightarrow> ''di''
      | OwnerCode \<Rightarrow> ''ownercode''
      | EquipmentCategory \<Rightarrow> ''equipmentcategory''
      | ContainerSerial \<Rightarrow> ''containerserial''
      | CheckDigit \<Rightarrow> ''checkdigit''
      | ISOIdentifier \<Rightarrow> ''identifier''
      | FilterValue \<Rightarrow> ''filter''
      | Partition \<Rightarrow> ''partition''
      | ComponentUnknown \<Rightarrow> ''unknown'')"

text \<open>The byte of a component name: its position in the constant block.\<close>

definition ComponentName_byte :: "ComponentName \<Rightarrow> char" where
  "ComponentName_byte c = char_of
     (case c of
        ComponentUnknown \<Rightarrow> 0 | GS1CompanyPrefix \<Rightarrow> 1 | ItemReference \<Rightarrow> 2 | SerialReference \<Rightarrow> 3
      | Serial \<Rightarrow> 4 | AssetType \<Rightarrow> 5 | IndividualAssetReference \<Rightarrow> 6 | DataIdentifier \<Rightarrow> 7
      | OwnerCode \<Rightarrow> 8 | EquipmentCategory \<Rightarrow> 9 | ContainerSerial \<Rightarrow> 10 | CheckDigit \<Rightarrow> 11
      | ISOIdentifier \<Rightarrow> 12 | FilterValue \<Rightarrow> 13 | Partition \<Rightarrow> (14 :: nat))"

section \<open>Values\<close>

record component =
  c_name :: ComponentName
  c_value :: string

datatype identity_error = ErrUnknownKeyType | ErrComponentLayout

definition componentOrder :: "KeyType \<Rightarrow> ComponentName list option" where
  "componentOrder k =
     (case k of
        KeyTypeSGTIN \<Rightarrow> Some [GS1CompanyPrefix, ItemReference, Serial]
      | KeyTypeSSCC \<Rightarrow> Some [GS1CompanyPrefix, SerialReference]
      | KeyTypeGRAI \<Rightarrow> Some [GS1CompanyPrefix, AssetType, Serial]
      | KeyTypeGIAI \<Rightarrow> Some [GS1CompanyPrefix, IndividualAssetReference]
      | KeyTypeFreightContainer \<Rightarrow> Some [OwnerCode, EquipmentCategory, ContainerSerial, CheckDigit]
      | KeyTypeTransportUnit \<Rightarrow> Some [DataIdentifier, ISOIdentifier]
      | KeyTypeUnknown \<Rightarrow> None)"

definition ComponentOrder :: "KeyType \<Rightarrow> ComponentName list" where
  "ComponentOrder k = (case componentOrder k of None \<Rightarrow> [] | Some order \<Rightarrow> order)"

record ivalue =
  v_authority :: Authority
  v_keyType :: KeyType
  v_components :: "component list"

definition New :: "Authority \<Rightarrow> KeyType \<Rightarrow> component list \<Rightarrow> identity_error + ivalue" where
  "New authority keyType components =
     (case componentOrder keyType of
        None \<Rightarrow> Inl ErrUnknownKeyType
      | Some order \<Rightarrow>
          if length components \<noteq> length order then Inl ErrComponentLayout
          else if \<not> list_all2 (\<lambda>c name. c_name c = name) components order then Inl ErrComponentLayout
          else Inr \<lparr>v_authority = authority, v_keyType = keyType, v_components = components\<rparr>)"

definition v_Component :: "ivalue \<Rightarrow> ComponentName \<Rightarrow> component option" where
  "v_Component v name = find (\<lambda>c. c_name c = name) (v_components v)"

definition v_IsZero :: "ivalue \<Rightarrow> bool" where
  "v_IsZero v \<longleftrightarrow> v_keyType v = KeyTypeUnknown \<and> length (v_components v) = 0"

definition v_Equal :: "ivalue \<Rightarrow> ivalue \<Rightarrow> bool" where
  "v_Equal v other =
     (if v_authority v \<noteq> v_authority other \<or> v_keyType v \<noteq> v_keyType other \<or>
         length (v_components v) \<noteq> length (v_components other) then False
      else list_all (\<lambda>i. v_components v ! i = v_components other ! i) [0..<length (v_components v)])"

record key =
  k_authority :: Authority
  k_keyType :: KeyType
  k_fields :: string

definition key_field :: "component \<Rightarrow> string" where
  "key_field c = [ComponentName_byte (c_name c)] @ itoa (length (c_value c)) @ '':'' @ c_value c"

definition v_Key :: "ivalue \<Rightarrow> key" where
  "v_Key v = \<lparr>k_authority = v_authority v, k_keyType = v_keyType v,
     k_fields = concat (map key_field (v_components v))\<rparr>"

text \<open>A separator before every element but the first.\<close>

fun spaced :: "('a \<Rightarrow> string) \<Rightarrow> 'a list \<Rightarrow> string" where
  "spaced f [] = ''''"
| "spaced f [x] = f x"
| "spaced f (x # xs) = f x @ '' '' @ spaced f xs"

definition v_Describe :: "ivalue \<Rightarrow> string" where
  "v_Describe v = KeyType_String (v_keyType v) @ ''['' @
     spaced (\<lambda>c. ComponentName_String (c_name c) @ ''='' @ c_value c) (v_components v) @ '']''"

section \<open>Patterns\<close>

type_synonym SchemeID = string

datatype PatternLevel = LevelUnset | LevelIdentity | LevelEncoding

datatype FieldKind = KindUnset | FieldExact | FieldAny | FieldRange

record field_pattern =
  f_name :: ComponentName
  f_kind :: FieldKind
  f_text :: string
  f_lo :: u64
  f_hi :: u64

datatype pattern_error = ErrPatternLevel | ErrPatternFields | ErrPatternStar

record bit_pattern =
  bp_value :: bytes
  bp_mask :: bytes
  bp_bitLen :: int

text \<open>The sum wraps around and the division truncates, as they do on Go's \<open>int\<close>.\<close>

definition NewBitPattern :: "bytes \<Rightarrow> bytes \<Rightarrow> int \<Rightarrow> pattern_error + bit_pattern" where
  "NewBitPattern value masks bitLen =
     (if length value \<noteq> length masks \<or> bitLen < 0 \<or> wrap64 (bitLen + 7) sdiv 8 > int (length value)
      then Inl ErrPatternFields
      else Inr \<lparr>bp_value = value, bp_mask = masks, bp_bitLen = bitLen\<rparr>)"

definition bp_Match :: "bit_pattern \<Rightarrow> bytes \<Rightarrow> int \<Rightarrow> bool" where
  "bp_Match b bits bitLen =
     (if bitLen < bp_bitLen b \<or> length bits < length (bp_mask b) then False
      else list_all (\<lambda>i. let m = bp_mask b ! i in
             m = 0 \<or> bits ! i AND m = bp_value b ! i AND m) [0..<length (bp_mask b)])"

record pattern =
  p_level :: PatternLevel
  p_authority :: Authority
  p_keyType :: KeyType
  p_scheme :: SchemeID
  p_fields :: "field_pattern list"
  p_bits :: "bit_pattern option"
  p_text :: string

definition check_fields :: "field_pattern list \<Rightarrow> pattern_error + bool" where
  "check_fields fs =
     fold_res (\<lambda>f seenAny.
       case f_kind f of
         FieldAny \<Rightarrow> Inr True
       | FieldExact \<Rightarrow> if seenAny then Inl ErrPatternStar else Inr seenAny
       | FieldRange \<Rightarrow>
           if seenAny then Inl ErrPatternStar
           else if f_lo f > f_hi f then Inl ErrPatternFields
           else Inr seenAny
       | KindUnset \<Rightarrow> Inl ErrPatternFields) fs False"

definition NewPattern ::
  "PatternLevel \<Rightarrow> Authority \<Rightarrow> KeyType \<Rightarrow> SchemeID \<Rightarrow> field_pattern list \<Rightarrow> bit_pattern option \<Rightarrow>
     string \<Rightarrow> pattern_error + pattern" where
  "NewPattern level authority keyType scheme fs bits text =
     bind_res
       (case level of
          LevelIdentity \<Rightarrow>
            if scheme \<noteq> [] then Inl ErrPatternLevel
            else if bits \<noteq> None then Inl ErrPatternLevel else Inr ()
        | LevelEncoding \<Rightarrow> if scheme = [] then Inl ErrPatternLevel else Inr ()
        | LevelUnset \<Rightarrow> Inl ErrPatternLevel) (\<lambda>_.
     if fs = [] then Inl ErrPatternFields
     else bind_res (check_fields fs) (\<lambda>_.
       if level = LevelIdentity \<and>
          (length (ComponentOrder keyType) \<noteq> length fs \<or>
           \<not> list_all2 (\<lambda>f name. f_name f = name) fs (ComponentOrder keyType))
       then Inl ErrPatternFields
       else Inr \<lparr>p_level = level, p_authority = authority, p_keyType = keyType, p_scheme = scheme,
                 p_fields = fs, p_bits = bits, p_text = text\<rparr>))"

definition p_IsZero :: "pattern \<Rightarrow> bool" where
  "p_IsZero p \<longleftrightarrow> p_level p = LevelUnset"

definition PatternLevel_String :: "PatternLevel \<Rightarrow> string" where
  "PatternLevel_String l =
     (case l of
        LevelIdentity \<Rightarrow> ''identity''
      | LevelEncoding \<Rightarrow> ''encoding''
      | LevelUnset \<Rightarrow> ''unknown'')"

definition p_Describe :: "pattern \<Rightarrow> string" where
  "p_Describe p =
     PatternLevel_String (p_level p) @ '':'' @
     (if p_scheme p \<noteq> [] then p_scheme p else KeyType_String (p_keyType p)) @ ''['' @
     spaced (\<lambda>f. ComponentName_String (f_name f) @ ''='' @
       (case f_kind f of
          FieldAny \<Rightarrow> ''*''
        | FieldRange \<Rightarrow> ''['' @ itoa (unat (f_lo f)) @ ''-'' @ itoa (unat (f_hi f)) @ '']''
        | _ \<Rightarrow> f_text f)) (p_fields p) @ '']''"

definition p_String :: "pattern \<Rightarrow> string" where
  "p_String p = (if p_text p \<noteq> [] then p_text p else p_Describe p)"

definition match_field :: "field_pattern \<Rightarrow> component \<Rightarrow> bool" where
  "match_field f c =
     (if c_name c \<noteq> f_name f then False
      else case f_kind f of
             FieldAny \<Rightarrow> True
           | FieldExact \<Rightarrow> c_value c = f_text f
           | FieldRange \<Rightarrow>
               (case ParseUint64 (c_value c) of
                  None \<Rightarrow> False
                | Some n \<Rightarrow> \<not> (n < f_lo f \<or> n > f_hi f))
           | KindUnset \<Rightarrow> False)"

definition matchComponents :: "pattern \<Rightarrow> component list \<Rightarrow> bool" where
  "matchComponents p components =
     (if length components \<noteq> length (p_fields p) then False
      else list_all2 match_field (p_fields p) components)"

definition MatchValue :: "pattern \<Rightarrow> ivalue \<Rightarrow> bool" where
  "MatchValue p v =
     (if p_level p \<noteq> LevelIdentity \<or> p_authority p \<noteq> v_authority v \<or> p_keyType p \<noteq> v_keyType v
      then False
      else matchComponents p (v_components v))"

section \<open>Facts: keys\<close>

lemma ComponentName_byte_inject [simp]: "ComponentName_byte a = ComponentName_byte b \<longleftrightarrow> a = b"
  by (cases a; cases b) (simp_all add: ComponentName_byte_def)

lemma not_digit_colon: "\<not> is_digit CHR '':''"
  by (simp add: is_digit_iff)

definition names :: "ComponentName list" where
  "names = [ComponentUnknown, GS1CompanyPrefix, ItemReference, SerialReference, Serial, AssetType,
     IndividualAssetReference, DataIdentifier, OwnerCode, EquipmentCategory, ContainerSerial, CheckDigit,
     ISOIdentifier, FilterValue, Partition]"

lemma in_names: "n \<in> set names"
  by (cases n) (simp_all add: names_def)

text \<open>A key can be read back: the length prefix says where each value ends.\<close>

definition key_step :: "string \<Rightarrow> unit + component \<times> string" where
  "key_step s =
     (let rest = tl s; len = takeWhile is_digit rest; body = drop (Suc (length len)) rest
      in Inr (\<lparr>c_name = hd (filter (\<lambda>n. ComponentName_byte n = hd s) names),
               c_value = take (decimal len) body\<rparr>, drop (decimal len) body))"

interpretation key_codec: item_codec key_field key_step "\<lambda>_. True"
proof unfold_locales
  fix c rest
  show "key_field c \<noteq> []" by (simp add: key_field_def)
  have name: "hd (filter (\<lambda>n. ComponentName_byte n = ComponentName_byte (c_name c)) names) = c_name c"
    using in_names [of "c_name c"] by (simp add: names_def) (cases "c_name c"; simp)
  have "takeWhile is_digit (itoa (length (c_value c)) @ '':'' @ c_value c @ rest) = itoa (length (c_value c))"
    using itoa_digits by (subst takeWhile_append2) (auto simp: list_all_iff not_digit_colon)
  then show "key_step (key_field c @ rest) = Inr (c, rest)"
    using name by (simp add: key_step_def key_field_def Let_def)
qed

lemma v_Equal_iff: "v_Equal v w \<longleftrightarrow> v = w"
  by (cases v; cases w) (auto simp: v_Equal_def list_all_iff intro: nth_equalityI)

section \<open>Facts: patterns\<close>

definition stars_last :: "field_pattern list \<Rightarrow> bool" where
  "stars_last fs \<longleftrightarrow> (\<exists>n \<le> length fs. list_all (\<lambda>f. f_kind f = FieldExact \<or> f_kind f = FieldRange) (take n fs) \<and>
     list_all (\<lambda>f. f_kind f = FieldAny) (drop n fs))"

lemma fold_check_any:
  "is_ok (fold_res (\<lambda>f seenAny.
       case f_kind f of
         FieldAny \<Rightarrow> Inr True
       | FieldExact \<Rightarrow> if seenAny then Inl ErrPatternStar else Inr seenAny
       | FieldRange \<Rightarrow>
           if seenAny then Inl ErrPatternStar
           else if f_lo f > f_hi f then Inl ErrPatternFields
           else Inr seenAny
       | KindUnset \<Rightarrow> Inl ErrPatternFields) fs True) \<longleftrightarrow> list_all (\<lambda>f. f_kind f = FieldAny) fs"
  by (induction fs) (auto split: FieldKind.split)

fun stars_last' :: "field_pattern list \<Rightarrow> bool" where
  "stars_last' [] = True"
| "stars_last' (f # fs) =
     (if f_kind f = FieldAny then list_all (\<lambda>f. f_kind f = FieldAny) fs
      else (f_kind f = FieldExact \<or> f_kind f = FieldRange \<and> f_lo f \<le> f_hi f) \<and> stars_last' fs)"

lemma check_fields_ok: "is_ok (check_fields fs) \<longleftrightarrow> stars_last' fs"
  unfolding check_fields_def
  by (induction fs) (auto simp: fold_check_any not_less split: FieldKind.split)

lemma stars_last'_iff:
  "stars_last' fs \<longleftrightarrow> stars_last fs \<and> list_all (\<lambda>f. f_kind f = FieldRange \<longrightarrow> f_lo f \<le> f_hi f) fs"
proof (induction fs)
  case Nil
  then show ?case by (simp add: stars_last_def)
next
  case (Cons f fs)
  have any: "list_all (\<lambda>f. f_kind f = FieldAny) gs \<Longrightarrow>
      stars_last gs \<and> list_all (\<lambda>f. f_kind f = FieldRange \<longrightarrow> f_lo f \<le> f_hi f) gs" for gs
    by (auto simp: stars_last_def list_all_iff intro!: exI [of _ 0])
  have step: "stars_last (f # fs) \<longleftrightarrow> list_all (\<lambda>f. f_kind f = FieldAny) (f # fs) \<or>
      ((f_kind f = FieldExact \<or> f_kind f = FieldRange) \<and> stars_last fs)"
  proof
    assume "stars_last (f # fs)"
    then obtain n where n: "n \<le> Suc (length fs)"
      "list_all (\<lambda>f. f_kind f = FieldExact \<or> f_kind f = FieldRange) (take n (f # fs))"
      "list_all (\<lambda>f. f_kind f = FieldAny) (drop n (f # fs))" by (auto simp: stars_last_def)
    then show "list_all (\<lambda>f. f_kind f = FieldAny) (f # fs) \<or>
      ((f_kind f = FieldExact \<or> f_kind f = FieldRange) \<and> stars_last fs)"
      by (cases n) (auto simp: stars_last_def)
  next
    assume "list_all (\<lambda>f. f_kind f = FieldAny) (f # fs) \<or>
      ((f_kind f = FieldExact \<or> f_kind f = FieldRange) \<and> stars_last fs)"
    then show "stars_last (f # fs)"
    proof
      assume "list_all (\<lambda>f. f_kind f = FieldAny) (f # fs)"
      then show ?thesis using any by blast
    next
      assume r: "(f_kind f = FieldExact \<or> f_kind f = FieldRange) \<and> stars_last fs"
      then obtain n where "n \<le> length fs"
        "list_all (\<lambda>f. f_kind f = FieldExact \<or> f_kind f = FieldRange) (take n fs)"
        "list_all (\<lambda>f. f_kind f = FieldAny) (drop n fs)" by (auto simp: stars_last_def)
      with r show ?thesis unfolding stars_last_def by (intro exI [of _ "Suc n"]) auto
    qed
  qed
  show ?case
    using Cons any [of fs] by (auto simp: step)
qed

definition pattern_ok :: "pattern \<Rightarrow> bool" where
  "pattern_ok p \<longleftrightarrow>
     p_fields p \<noteq> [] \<and> stars_last' (p_fields p) \<and>
     (case p_level p of
        LevelIdentity \<Rightarrow> p_scheme p = [] \<and> p_bits p = None \<and>
          map f_name (p_fields p) = ComponentOrder (p_keyType p)
      | LevelEncoding \<Rightarrow> p_scheme p \<noteq> []
      | LevelUnset \<Rightarrow> False)"

lemma list_all2_map_eq: "list_all2 (\<lambda>x y. f x = y) xs ys \<longleftrightarrow> map f xs = ys"
  by (induction xs arbitrary: ys) (auto simp: list_all2_Cons1)

lemma NewPattern_iff:
  "NewPattern level authority keyType scheme fs bits text = Inr p \<longleftrightarrow>
     p = \<lparr>p_level = level, p_authority = authority, p_keyType = keyType, p_scheme = scheme,
          p_fields = fs, p_bits = bits, p_text = text\<rparr> \<and> pattern_ok p"
proof -
  have "is_ok (check_fields fs) \<longleftrightarrow> (\<exists>b. check_fields fs = Inr b)" by (rule is_ok_iff)
  then show ?thesis
    by (cases level) (auto simp: NewPattern_def pattern_ok_def check_fields_ok list_all2_map_eq
        split: if_splits dest: arg_cong [of _ _ length])
qed

lemma matchComponents_iff: "matchComponents p cs \<longleftrightarrow> list_all2 match_field (p_fields p) cs"
  by (auto simp: matchComponents_def list_all2_lengthD)

lemma New_Inr:
  "New a k cs = Inr v \<longleftrightarrow> componentOrder k = Some (map c_name cs) \<and>
     v = \<lparr>v_authority = a, v_keyType = k, v_components = cs\<rparr>"
  by (auto simp: New_def list_all2_map_eq split: option.splits)

section \<open>Properties\<close>

text \<open>
  Two identities have the same map key exactly when \<open>Equal\<close> says they are equal, which is
  exactly when they are the same authority, key type and component list: the length-prefixed
  key confuses no two values, whatever bytes their components hold.
\<close>

theorem Key_agrees_with_Equal:
  "(v_Key v = v_Key w \<longleftrightarrow> v_Equal v w) \<and> (v_Equal v w \<longleftrightarrow> v = w)"
proof -
  have "v = w" if "v_Key v = v_Key w"
    using that key_codec.enc_inj_list [of "v_components v" "v_components w"]
    by (simp add: v_Key_def)
  then show ?thesis by (auto simp: v_Equal_iff)
qed

text \<open>
  \<open>NewPattern\<close> accepts exactly the well-formed patterns: a level that agrees with the
  scheme and the bit test, at least one field, exact and range fields first and stars after
  them, no empty range, and at identity level the canonical component order; and it returns
  the parts it was given.
\<close>

theorem NewPattern_accepts:
  "NewPattern level authority keyType scheme fs bits text = Inr p \<longleftrightarrow>
     p = \<lparr>p_level = level, p_authority = authority, p_keyType = keyType, p_scheme = scheme,
          p_fields = fs, p_bits = bits, p_text = text\<rparr> \<and>
     fs \<noteq> [] \<and> stars_last fs \<and> list_all (\<lambda>f. if f_kind f = FieldRange then f_lo f \<le> f_hi f else True) fs \<and>
     (case level of
        LevelIdentity \<Rightarrow> scheme = [] \<and> bits = None \<and> map f_name fs = ComponentOrder keyType
      | LevelEncoding \<Rightarrow> scheme \<noteq> []
      | LevelUnset \<Rightarrow> False)"
  by (auto simp: NewPattern_iff pattern_ok_def stars_last'_iff list_all_iff split: PatternLevel.splits)

text \<open>The fields that fix the first \<open>n\<close> components and star the rest.\<close>

definition prefix_fields :: "nat \<Rightarrow> component list \<Rightarrow> field_pattern list" where
  "prefix_fields n cs =
     map (\<lambda>c. \<lparr>f_name = c_name c, f_kind = FieldExact, f_text = c_value c, f_lo = 0, f_hi = 0\<rparr>) (take n cs) @
     map (\<lambda>c. \<lparr>f_name = c_name c, f_kind = FieldAny, f_text = [], f_lo = 0, f_hi = 0\<rparr>) (drop n cs)"

lemma match_prefix_fields:
  "list_all2 match_field (prefix_fields n cs) ds \<longleftrightarrow>
     map c_name ds = map c_name cs \<and> take n ds = take n cs"
proof (induction cs arbitrary: n ds)
  case (Cons c cs)
  show ?case
  proof (cases ds)
    case (Cons d ds')
    then show ?thesis
      using Cons.IH [of "n - 1" ds'] Cons.IH [of 0 ds']
      by (cases n) (auto simp: prefix_fields_def match_field_def)
  qed (cases n; simp add: prefix_fields_def)
qed (auto simp: prefix_fields_def)

text \<open>
  An identity pattern that fixes the first \<open>n\<close> components of a value and stars the rest
  matches exactly the identities of the same authority and key type that share those \<open>n\<close>
  components; with no star it matches that identity and no other.
\<close>

theorem prefix_pattern_matches:
  assumes "New a k cs = Inr v"
    and "NewPattern LevelIdentity a k [] (prefix_fields n cs) None text = Inr p"
    and "New b j ds = Inr w"
  shows "MatchValue p w \<longleftrightarrow> b = a \<and> j = k \<and> take n ds = take n cs"
  using assms
  by (auto simp: New_Inr NewPattern_iff MatchValue_def matchComponents_iff match_prefix_fields)

lemma prefix_pattern_matches_witness:
  "let sgtin = (\<lambda>p i s. [\<lparr>c_name = GS1CompanyPrefix, c_value = p\<rparr>, \<lparr>c_name = ItemReference, c_value = i\<rparr>,
         \<lparr>c_name = Serial, c_value = s\<rparr>]);
       p = \<lparr>p_level = LevelIdentity, p_authority = AuthorityGS1, p_keyType = KeyTypeSGTIN, p_scheme = [],
            p_fields = prefix_fields 1 (sgtin ''0614141'' ''812345'' ''6789''), p_bits = None, p_text = []\<rparr>;
       w = \<lparr>v_authority = AuthorityGS1, v_keyType = KeyTypeSGTIN, v_components = sgtin ''0614141'' ''1'' ''2''\<rparr>
   in MatchValue p w"
proof -
  let ?sgtin = "\<lambda>p i s. [\<lparr>c_name = GS1CompanyPrefix, c_value = p\<rparr>, \<lparr>c_name = ItemReference, c_value = i\<rparr>,
         \<lparr>c_name = Serial, c_value = s\<rparr>]"
  have new: "New AuthorityGS1 KeyTypeSGTIN (?sgtin p i s) =
      Inr \<lparr>v_authority = AuthorityGS1, v_keyType = KeyTypeSGTIN, v_components = ?sgtin p i s\<rparr>" for p i s
    by (simp add: New_Inr componentOrder_def)
  show ?thesis
    unfolding Let_def
    by (rule prefix_pattern_matches [OF new [of "''0614141''" "''812345''" "''6789''"] _
          new [of "''0614141''" "''1''" "''2''"], of 1 "[]", THEN iffD2])
      (simp_all add: NewPattern_iff pattern_ok_def prefix_fields_def ComponentOrder_def componentOrder_def)
qed

end
