(* ===== verification/Tdtcore.thy ===== *)
theory Tdtcore
  imports Identity
begin

text \<open>
  What the translation packages share, from \<^verbatim>\<open>src/internal/tdt/tdtcore\<close>: encoding-control
  fields, encodings and translations with the reference match rule (\<^verbatim>\<open>encoding.go\<close>) and the
  error taxonomy (\<^verbatim>\<open>errors.go\<close>). A wrapped error is its class; a field error keeps its parts.
\<close>

section \<open>Errors\<close>

datatype tdt_error =
    ErrUnknownHeader | ErrUnsupportedScheme | ErrUnrecognisedNonGS1 | ErrAmbiguousEncoding
  | ErrUnresolvedSemantics | ErrXPCPresent
  | ErrTruncated | ErrReservedBits | ErrUnknownPartition | ErrTdtLengthMismatch
  | ErrMalformedURI | ErrMalformedPattern
  | ErrFieldValue | ErrCheckDigit | ErrCannotEncode
  | FieldError (fe_scheme: string) (fe_field: string) (fe_rule: string) (fe_value: string)
      (fe_spec: string) (fe_err: "tdt_error option")
  | FromIdentity identity_error
  | FromPattern pattern_error

definition Field :: "string \<Rightarrow> string \<Rightarrow> string \<Rightarrow> string \<Rightarrow> string \<Rightarrow> tdt_error" where
  "Field scheme field rule value spec = FieldError scheme field rule value spec None"

definition Unwrap :: "tdt_error \<Rightarrow> tdt_error option" where
  "Unwrap e =
     (case e of
        FieldError _ _ _ _ _ err \<Rightarrow> Some (case err of Some x \<Rightarrow> x | None \<Rightarrow> ErrFieldValue)
      | _ \<Rightarrow> None)"

text \<open>\<^verbatim>\<open>errors.Is\<close>: the error itself or anything it unwraps to.\<close>

fun errors_Is :: "tdt_error \<Rightarrow> tdt_error \<Rightarrow> bool" where
  "errors_Is (FieldError s f r v c None) target \<longleftrightarrow>
     FieldError s f r v c None = target \<or> ErrFieldValue = target"
| "errors_Is (FieldError s f r v c (Some e)) target \<longleftrightarrow>
     FieldError s f r v c (Some e) = target \<or> errors_Is e target"
| "errors_Is e target \<longleftrightarrow> e = target"

lemma errors_Is_Field [simp]: "errors_Is (Field s f r v c) ErrFieldValue"
  by (simp add: Field_def)

section \<open>Encodings and translations\<close>

record control =
  FilterValue' :: byte
  HasFilter :: bool
  Partition' :: byte
  HasPartition :: bool
  ctl_GCPLength :: int
  DataIdentifier' :: string
  ResidueBits :: int
  Toggle :: bool
  AFI :: byte
  HasAFI :: bool

definition no_control :: control where
  "no_control = \<lparr>FilterValue' = 0, HasFilter = False, Partition' = 0, HasPartition = False,
     ctl_GCPLength = 0, DataIdentifier' = [], ResidueBits = 0, Toggle = False, AFI = 0, HasAFI = False\<rparr>"

record encoding =
  enc_Scheme :: SchemeID
  enc_TagLength :: int
  enc_BitLen :: int
  enc_Control :: control
  enc_bits :: bytes
  enc_fields :: "component list"

definition NewEncoding ::
  "SchemeID \<Rightarrow> int \<Rightarrow> int \<Rightarrow> control \<Rightarrow> bytes \<Rightarrow> component list \<Rightarrow> encoding" where
  "NewEncoding scheme tagLength bitLen control bits fs =
     \<lparr>enc_Scheme = scheme, enc_TagLength = tagLength, enc_BitLen = bitLen, enc_Control = control,
      enc_bits = bits, enc_fields = fs\<rparr>"

definition enc_IsZero :: "encoding \<Rightarrow> bool" where
  "enc_IsZero e \<longleftrightarrow> enc_Scheme e = [] \<and> enc_BitLen e = 0"

record translation =
  t_Identity :: ivalue
  t_Encoding :: encoding

definition t_Match :: "translation \<Rightarrow> pattern \<Rightarrow> bool" where
  "t_Match t p =
     (case p_level p of
        LevelIdentity \<Rightarrow> MatchValue p (t_Identity t)
      | LevelEncoding \<Rightarrow>
          if p_scheme p \<noteq> enc_Scheme (t_Encoding t) then False
          else matchComponents p (enc_fields (t_Encoding t))
      | LevelUnset \<Rightarrow> False)"

end
