(* ===== verification/Tdtdef.thy ===== *)
theory Tdtdef
  imports Tdtcore
begin

text \<open>
  The GS1 scheme metadata of \<^verbatim>\<open>src/internal/tdt/tdtdef\<close>: its types (\<^verbatim>\<open>tdtdef.go\<close>) and the four
  scheme tables, entry by entry, of \<^verbatim>\<open>schemes_gen.go\<close>, one definition per company prefix
  length. Offsets and lengths are natural numbers, field values 64-bit words.
\<close>

section \<open>Types\<close>

datatype PadDir = PadNone | PadLeft | PadRight

record binary_field =
  bf_Name :: string
  bf_BitOffset :: nat
  bf_BitLength :: nat
  bf_DecimalMax :: u64

record binary_literal =
  bl_BitOffset :: nat
  bl_BitLength :: nat
  bl_Value :: u64

text \<open>A zero pad character means that none is given.\<close>

record uri_field =
  uf_Name :: string
  uf_Length :: nat
  uf_Fixed :: bool
  uf_PadChar :: char
  uf_PadDir :: PadDir
  uf_CharacterSet :: string
  uf_DecimalMax :: u64

record gs1_option =
  GCPLength :: nat
  o_Partition :: nat
  BinaryFields :: "binary_field list"
  BinaryLiterals :: "binary_literal list"
  TagFields :: "uri_field list"
  PureFields :: "uri_field list"

record scheme_def =
  sd_Name :: string
  sd_TagLength :: nat
  sd_Header :: u64
  sd_HeaderBits :: nat
  sd_TagURIPrefix :: string
  sd_PureURIPrefix :: string
  sd_Options :: "gs1_option list"

definition sd_Option :: "scheme_def \<Rightarrow> nat \<Rightarrow> gs1_option option" where
  "sd_Option s gcpLength = find (\<lambda>opt. GCPLength opt = gcpLength) (sd_Options s)"

definition OptionByPartition :: "scheme_def \<Rightarrow> nat \<Rightarrow> gs1_option option" where
  "OptionByPartition s part = find (\<lambda>opt. o_Partition opt = part) (sd_Options s)"

section \<open>The generated tables\<close>

text \<open>Abbreviations for the table rows, in the order of the Go literals.\<close>

definition bfield :: "string \<Rightarrow> nat \<Rightarrow> nat \<Rightarrow> u64 \<Rightarrow> binary_field" where
  "bfield name offset len mx = \<lparr>bf_Name = name, bf_BitOffset = offset, bf_BitLength = len, bf_DecimalMax = mx\<rparr>"

definition blit :: "nat \<Rightarrow> nat \<Rightarrow> u64 \<Rightarrow> binary_literal" where
  "blit offset len v = \<lparr>bl_BitOffset = offset, bl_BitLength = len, bl_Value = v\<rparr>"

text \<open>A padded field has the pad character 0 on the left; an unpadded one has none.\<close>

definition ufixed :: "string \<Rightarrow> nat \<Rightarrow> string \<Rightarrow> u64 \<Rightarrow> uri_field" where
  "ufixed name len cs mx = \<lparr>uf_Name = name, uf_Length = len, uf_Fixed = True, uf_PadChar = CHR ''0'',
     uf_PadDir = PadLeft, uf_CharacterSet = cs, uf_DecimalMax = mx\<rparr>"

definition uplain :: "string \<Rightarrow> string \<Rightarrow> u64 \<Rightarrow> uri_field" where
  "uplain name cs mx = \<lparr>uf_Name = name, uf_Length = 0, uf_Fixed = False, uf_PadChar = CHR 0x00,
     uf_PadDir = PadNone, uf_CharacterSet = cs, uf_DecimalMax = mx\<rparr>"

lemmas row_defs = bfield_def blit_def ufixed_def uplain_def

definition sgtin_96_gcp6 :: gs1_option where
  "sgtin_96_gcp6 = \<lparr>GCPLength = 6, o_Partition = 6,
     BinaryFields = [bfield ''filter'' 8 3 7,
       bfield ''gs1companyprefix'' 14 20 999999,
       bfield ''itemref'' 34 24 9999999,
       bfield ''serial'' 58 38 274877906943],
     BinaryLiterals = [blit 0 8 48, blit 11 3 6],
     TagFields = [ufixed ''filter'' 1 ''[0-7]*'' 7,
       ufixed ''gs1companyprefix'' 6 ''[0-9]*'' 999999,
       ufixed ''itemref'' 7 ''[0-9]*'' 9999999,
       uplain ''serial'' ''[0-9]*'' 274877906943],
     PureFields = [ufixed ''gs1companyprefix'' 6 ''[0-9]*'' 999999,
       ufixed ''itemref'' 7 ''[0-9]*'' 9999999,
       uplain ''serial'' ''[0-9]*'' 274877906943]\<rparr>"

definition sgtin_96_gcp7 :: gs1_option where
  "sgtin_96_gcp7 = \<lparr>GCPLength = 7, o_Partition = 5,
     BinaryFields = [bfield ''filter'' 8 3 7,
       bfield ''gs1companyprefix'' 14 24 9999999,
       bfield ''itemref'' 38 20 999999,
       bfield ''serial'' 58 38 274877906943],
     BinaryLiterals = [blit 0 8 48, blit 11 3 5],
     TagFields = [ufixed ''filter'' 1 ''[0-7]*'' 7,
       ufixed ''gs1companyprefix'' 7 ''[0-9]*'' 9999999,
       ufixed ''itemref'' 6 ''[0-9]*'' 999999,
       uplain ''serial'' ''[0-9]*'' 274877906943],
     PureFields = [ufixed ''gs1companyprefix'' 7 ''[0-9]*'' 9999999,
       ufixed ''itemref'' 6 ''[0-9]*'' 999999,
       uplain ''serial'' ''[0-9]*'' 274877906943]\<rparr>"

definition sgtin_96_gcp8 :: gs1_option where
  "sgtin_96_gcp8 = \<lparr>GCPLength = 8, o_Partition = 4,
     BinaryFields = [bfield ''filter'' 8 3 7,
       bfield ''gs1companyprefix'' 14 27 99999999,
       bfield ''itemref'' 41 17 99999,
       bfield ''serial'' 58 38 274877906943],
     BinaryLiterals = [blit 0 8 48, blit 11 3 4],
     TagFields = [ufixed ''filter'' 1 ''[0-7]*'' 7,
       ufixed ''gs1companyprefix'' 8 ''[0-9]*'' 99999999,
       ufixed ''itemref'' 5 ''[0-9]*'' 99999,
       uplain ''serial'' ''[0-9]*'' 274877906943],
     PureFields = [ufixed ''gs1companyprefix'' 8 ''[0-9]*'' 99999999,
       ufixed ''itemref'' 5 ''[0-9]*'' 99999,
       uplain ''serial'' ''[0-9]*'' 274877906943]\<rparr>"

definition sgtin_96_gcp9 :: gs1_option where
  "sgtin_96_gcp9 = \<lparr>GCPLength = 9, o_Partition = 3,
     BinaryFields = [bfield ''filter'' 8 3 7,
       bfield ''gs1companyprefix'' 14 30 999999999,
       bfield ''itemref'' 44 14 9999,
       bfield ''serial'' 58 38 274877906943],
     BinaryLiterals = [blit 0 8 48, blit 11 3 3],
     TagFields = [ufixed ''filter'' 1 ''[0-7]*'' 7,
       ufixed ''gs1companyprefix'' 9 ''[0-9]*'' 999999999,
       ufixed ''itemref'' 4 ''[0-9]*'' 9999,
       uplain ''serial'' ''[0-9]*'' 274877906943],
     PureFields = [ufixed ''gs1companyprefix'' 9 ''[0-9]*'' 999999999,
       ufixed ''itemref'' 4 ''[0-9]*'' 9999,
       uplain ''serial'' ''[0-9]*'' 274877906943]\<rparr>"

definition sgtin_96_gcp10 :: gs1_option where
  "sgtin_96_gcp10 = \<lparr>GCPLength = 10, o_Partition = 2,
     BinaryFields = [bfield ''filter'' 8 3 7,
       bfield ''gs1companyprefix'' 14 34 9999999999,
       bfield ''itemref'' 48 10 999,
       bfield ''serial'' 58 38 274877906943],
     BinaryLiterals = [blit 0 8 48, blit 11 3 2],
     TagFields = [ufixed ''filter'' 1 ''[0-7]*'' 7,
       ufixed ''gs1companyprefix'' 10 ''[0-9]*'' 9999999999,
       ufixed ''itemref'' 3 ''[0-9]*'' 999,
       uplain ''serial'' ''[0-9]*'' 274877906943],
     PureFields = [ufixed ''gs1companyprefix'' 10 ''[0-9]*'' 9999999999,
       ufixed ''itemref'' 3 ''[0-9]*'' 999,
       uplain ''serial'' ''[0-9]*'' 274877906943]\<rparr>"

definition sgtin_96_gcp11 :: gs1_option where
  "sgtin_96_gcp11 = \<lparr>GCPLength = 11, o_Partition = 1,
     BinaryFields = [bfield ''filter'' 8 3 7,
       bfield ''gs1companyprefix'' 14 37 99999999999,
       bfield ''itemref'' 51 7 99,
       bfield ''serial'' 58 38 274877906943],
     BinaryLiterals = [blit 0 8 48, blit 11 3 1],
     TagFields = [ufixed ''filter'' 1 ''[0-7]*'' 7,
       ufixed ''gs1companyprefix'' 11 ''[0-9]*'' 99999999999,
       ufixed ''itemref'' 2 ''[0-9]*'' 99,
       uplain ''serial'' ''[0-9]*'' 274877906943],
     PureFields = [ufixed ''gs1companyprefix'' 11 ''[0-9]*'' 99999999999,
       ufixed ''itemref'' 2 ''[0-9]*'' 99,
       uplain ''serial'' ''[0-9]*'' 274877906943]\<rparr>"

definition sgtin_96_gcp12 :: gs1_option where
  "sgtin_96_gcp12 = \<lparr>GCPLength = 12, o_Partition = 0,
     BinaryFields = [bfield ''filter'' 8 3 7,
       bfield ''gs1companyprefix'' 14 40 999999999999,
       bfield ''itemref'' 54 4 9,
       bfield ''serial'' 58 38 274877906943],
     BinaryLiterals = [blit 0 8 48, blit 11 3 0],
     TagFields = [ufixed ''filter'' 1 ''[0-7]*'' 7,
       ufixed ''gs1companyprefix'' 12 ''[0-9]*'' 999999999999,
       ufixed ''itemref'' 1 ''[0-9]*'' 9,
       uplain ''serial'' ''[0-9]*'' 274877906943],
     PureFields = [ufixed ''gs1companyprefix'' 12 ''[0-9]*'' 999999999999,
       ufixed ''itemref'' 1 ''[0-9]*'' 9,
       uplain ''serial'' ''[0-9]*'' 274877906943]\<rparr>"

definition sgtin_96 :: scheme_def where
  "sgtin_96 = \<lparr>sd_Name = ''SGTIN-96'', sd_TagLength = 96, sd_Header = 48, sd_HeaderBits = 8,
     sd_TagURIPrefix = ''urn:epc:tag:sgtin-96:'', sd_PureURIPrefix = ''urn:epc:id:sgtin:'',
     sd_Options = [sgtin_96_gcp6, sgtin_96_gcp7, sgtin_96_gcp8, sgtin_96_gcp9, sgtin_96_gcp10, sgtin_96_gcp11, sgtin_96_gcp12]\<rparr>"

definition sscc_96_gcp6 :: gs1_option where
  "sscc_96_gcp6 = \<lparr>GCPLength = 6, o_Partition = 6,
     BinaryFields = [bfield ''filter'' 8 3 7,
       bfield ''gs1companyprefix'' 14 20 999999,
       bfield ''serialref'' 34 38 99999999999],
     BinaryLiterals = [blit 0 8 49, blit 11 3 6, blit 72 24 0],
     TagFields = [ufixed ''filter'' 1 ''[0-7]*'' 7,
       ufixed ''gs1companyprefix'' 6 ''[0-9]*'' 999999,
       ufixed ''serialref'' 11 ''[0-9]*'' 99999999999],
     PureFields = [ufixed ''gs1companyprefix'' 6 ''[0-9]*'' 999999,
       ufixed ''serialref'' 11 ''[0-9]*'' 99999999999]\<rparr>"

definition sscc_96_gcp7 :: gs1_option where
  "sscc_96_gcp7 = \<lparr>GCPLength = 7, o_Partition = 5,
     BinaryFields = [bfield ''filter'' 8 3 7,
       bfield ''gs1companyprefix'' 14 24 9999999,
       bfield ''serialref'' 38 34 9999999999],
     BinaryLiterals = [blit 0 8 49, blit 11 3 5, blit 72 24 0],
     TagFields = [ufixed ''filter'' 1 ''[0-7]*'' 7,
       ufixed ''gs1companyprefix'' 7 ''[0-9]*'' 9999999,
       ufixed ''serialref'' 10 ''[0-9]*'' 9999999999],
     PureFields = [ufixed ''gs1companyprefix'' 7 ''[0-9]*'' 9999999,
       ufixed ''serialref'' 10 ''[0-9]*'' 9999999999]\<rparr>"

definition sscc_96_gcp8 :: gs1_option where
  "sscc_96_gcp8 = \<lparr>GCPLength = 8, o_Partition = 4,
     BinaryFields = [bfield ''filter'' 8 3 7,
       bfield ''gs1companyprefix'' 14 27 99999999,
       bfield ''serialref'' 41 31 999999999],
     BinaryLiterals = [blit 0 8 49, blit 11 3 4, blit 72 24 0],
     TagFields = [ufixed ''filter'' 1 ''[0-7]*'' 7,
       ufixed ''gs1companyprefix'' 8 ''[0-9]*'' 99999999,
       ufixed ''serialref'' 9 ''[0-9]*'' 999999999],
     PureFields = [ufixed ''gs1companyprefix'' 8 ''[0-9]*'' 99999999,
       ufixed ''serialref'' 9 ''[0-9]*'' 999999999]\<rparr>"

definition sscc_96_gcp9 :: gs1_option where
  "sscc_96_gcp9 = \<lparr>GCPLength = 9, o_Partition = 3,
     BinaryFields = [bfield ''filter'' 8 3 7,
       bfield ''gs1companyprefix'' 14 30 999999999,
       bfield ''serialref'' 44 28 99999999],
     BinaryLiterals = [blit 0 8 49, blit 11 3 3, blit 72 24 0],
     TagFields = [ufixed ''filter'' 1 ''[0-7]*'' 7,
       ufixed ''gs1companyprefix'' 9 ''[0-9]*'' 999999999,
       ufixed ''serialref'' 8 ''[0-9]*'' 99999999],
     PureFields = [ufixed ''gs1companyprefix'' 9 ''[0-9]*'' 999999999,
       ufixed ''serialref'' 8 ''[0-9]*'' 99999999]\<rparr>"

definition sscc_96_gcp10 :: gs1_option where
  "sscc_96_gcp10 = \<lparr>GCPLength = 10, o_Partition = 2,
     BinaryFields = [bfield ''filter'' 8 3 7,
       bfield ''gs1companyprefix'' 14 34 9999999999,
       bfield ''serialref'' 48 24 9999999],
     BinaryLiterals = [blit 0 8 49, blit 11 3 2, blit 72 24 0],
     TagFields = [ufixed ''filter'' 1 ''[0-7]*'' 7,
       ufixed ''gs1companyprefix'' 10 ''[0-9]*'' 9999999999,
       ufixed ''serialref'' 7 ''[0-9]*'' 9999999],
     PureFields = [ufixed ''gs1companyprefix'' 10 ''[0-9]*'' 9999999999,
       ufixed ''serialref'' 7 ''[0-9]*'' 9999999]\<rparr>"

definition sscc_96_gcp11 :: gs1_option where
  "sscc_96_gcp11 = \<lparr>GCPLength = 11, o_Partition = 1,
     BinaryFields = [bfield ''filter'' 8 3 7,
       bfield ''gs1companyprefix'' 14 37 99999999999,
       bfield ''serialref'' 51 21 999999],
     BinaryLiterals = [blit 0 8 49, blit 11 3 1, blit 72 24 0],
     TagFields = [ufixed ''filter'' 1 ''[0-7]*'' 7,
       ufixed ''gs1companyprefix'' 11 ''[0-9]*'' 99999999999,
       ufixed ''serialref'' 6 ''[0-9]*'' 999999],
     PureFields = [ufixed ''gs1companyprefix'' 11 ''[0-9]*'' 99999999999,
       ufixed ''serialref'' 6 ''[0-9]*'' 999999]\<rparr>"

definition sscc_96_gcp12 :: gs1_option where
  "sscc_96_gcp12 = \<lparr>GCPLength = 12, o_Partition = 0,
     BinaryFields = [bfield ''filter'' 8 3 7,
       bfield ''gs1companyprefix'' 14 40 999999999999,
       bfield ''serialref'' 54 18 99999],
     BinaryLiterals = [blit 0 8 49, blit 11 3 0, blit 72 24 0],
     TagFields = [ufixed ''filter'' 1 ''[0-7]*'' 7,
       ufixed ''gs1companyprefix'' 12 ''[0-9]*'' 999999999999,
       ufixed ''serialref'' 5 ''[0-9]*'' 99999],
     PureFields = [ufixed ''gs1companyprefix'' 12 ''[0-9]*'' 999999999999,
       ufixed ''serialref'' 5 ''[0-9]*'' 99999]\<rparr>"

definition sscc_96 :: scheme_def where
  "sscc_96 = \<lparr>sd_Name = ''SSCC-96'', sd_TagLength = 96, sd_Header = 49, sd_HeaderBits = 8,
     sd_TagURIPrefix = ''urn:epc:tag:sscc-96:'', sd_PureURIPrefix = ''urn:epc:id:sscc:'',
     sd_Options = [sscc_96_gcp6, sscc_96_gcp7, sscc_96_gcp8, sscc_96_gcp9, sscc_96_gcp10, sscc_96_gcp11, sscc_96_gcp12]\<rparr>"

definition giai_96_gcp6 :: gs1_option where
  "giai_96_gcp6 = \<lparr>GCPLength = 6, o_Partition = 6,
     BinaryFields = [bfield ''filter'' 8 3 7,
       bfield ''gs1companyprefix'' 14 20 999999,
       bfield ''indassetref'' 34 62 4611686018427387903],
     BinaryLiterals = [blit 0 8 52, blit 11 3 6],
     TagFields = [ufixed ''filter'' 1 ''[0-7]*'' 7,
       ufixed ''gs1companyprefix'' 6 ''[0-9]*'' 999999,
       uplain ''indassetref'' ''[0-9]*'' 4611686018427387903],
     PureFields = [ufixed ''gs1companyprefix'' 6 ''[0-9]*'' 999999,
       uplain ''indassetref'' ''[0-9]*'' 9999999999999999999]\<rparr>"

definition giai_96_gcp7 :: gs1_option where
  "giai_96_gcp7 = \<lparr>GCPLength = 7, o_Partition = 5,
     BinaryFields = [bfield ''filter'' 8 3 7,
       bfield ''gs1companyprefix'' 14 24 9999999,
       bfield ''indassetref'' 38 58 288230376151711743],
     BinaryLiterals = [blit 0 8 52, blit 11 3 5],
     TagFields = [ufixed ''filter'' 1 ''[0-7]*'' 7,
       ufixed ''gs1companyprefix'' 7 ''[0-9]*'' 9999999,
       uplain ''indassetref'' ''[0-9]*'' 288230376151711743],
     PureFields = [ufixed ''gs1companyprefix'' 7 ''[0-9]*'' 9999999,
       uplain ''indassetref'' ''[0-9]*'' 999999999999999999]\<rparr>"

definition giai_96_gcp8 :: gs1_option where
  "giai_96_gcp8 = \<lparr>GCPLength = 8, o_Partition = 4,
     BinaryFields = [bfield ''filter'' 8 3 7,
       bfield ''gs1companyprefix'' 14 27 99999999,
       bfield ''indassetref'' 41 55 36028797018963967],
     BinaryLiterals = [blit 0 8 52, blit 11 3 4],
     TagFields = [ufixed ''filter'' 1 ''[0-7]*'' 7,
       ufixed ''gs1companyprefix'' 8 ''[0-9]*'' 99999999,
       uplain ''indassetref'' ''[0-9]*'' 36028797018963967],
     PureFields = [ufixed ''gs1companyprefix'' 8 ''[0-9]*'' 99999999,
       uplain ''indassetref'' ''[0-9]*'' 99999999999999999]\<rparr>"

definition giai_96_gcp9 :: gs1_option where
  "giai_96_gcp9 = \<lparr>GCPLength = 9, o_Partition = 3,
     BinaryFields = [bfield ''filter'' 8 3 7,
       bfield ''gs1companyprefix'' 14 30 999999999,
       bfield ''indassetref'' 44 52 4503599627370495],
     BinaryLiterals = [blit 0 8 52, blit 11 3 3],
     TagFields = [ufixed ''filter'' 1 ''[0-7]*'' 7,
       ufixed ''gs1companyprefix'' 9 ''[0-9]*'' 999999999,
       uplain ''indassetref'' ''[0-9]*'' 4503599627370495],
     PureFields = [ufixed ''gs1companyprefix'' 9 ''[0-9]*'' 999999999,
       uplain ''indassetref'' ''[0-9]*'' 9999999999999999]\<rparr>"

definition giai_96_gcp10 :: gs1_option where
  "giai_96_gcp10 = \<lparr>GCPLength = 10, o_Partition = 2,
     BinaryFields = [bfield ''filter'' 8 3 7,
       bfield ''gs1companyprefix'' 14 34 9999999999,
       bfield ''indassetref'' 48 48 281474976710655],
     BinaryLiterals = [blit 0 8 52, blit 11 3 2],
     TagFields = [ufixed ''filter'' 1 ''[0-7]*'' 7,
       ufixed ''gs1companyprefix'' 10 ''[0-9]*'' 9999999999,
       uplain ''indassetref'' ''[0-9]*'' 281474976710655],
     PureFields = [ufixed ''gs1companyprefix'' 10 ''[0-9]*'' 9999999999,
       uplain ''indassetref'' ''[0-9]*'' 999999999999999]\<rparr>"

definition giai_96_gcp11 :: gs1_option where
  "giai_96_gcp11 = \<lparr>GCPLength = 11, o_Partition = 1,
     BinaryFields = [bfield ''filter'' 8 3 7,
       bfield ''gs1companyprefix'' 14 37 99999999999,
       bfield ''indassetref'' 51 45 35184372088831],
     BinaryLiterals = [blit 0 8 52, blit 11 3 1],
     TagFields = [ufixed ''filter'' 1 ''[0-7]*'' 7,
       ufixed ''gs1companyprefix'' 11 ''[0-9]*'' 99999999999,
       uplain ''indassetref'' ''[0-9]*'' 35184372088831],
     PureFields = [ufixed ''gs1companyprefix'' 11 ''[0-9]*'' 99999999999,
       uplain ''indassetref'' ''[0-9]*'' 99999999999999]\<rparr>"

definition giai_96_gcp12 :: gs1_option where
  "giai_96_gcp12 = \<lparr>GCPLength = 12, o_Partition = 0,
     BinaryFields = [bfield ''filter'' 8 3 7,
       bfield ''gs1companyprefix'' 14 40 999999999999,
       bfield ''indassetref'' 54 42 4398046511103],
     BinaryLiterals = [blit 0 8 52, blit 11 3 0],
     TagFields = [ufixed ''filter'' 1 ''[0-7]*'' 7,
       ufixed ''gs1companyprefix'' 12 ''[0-9]*'' 999999999999,
       uplain ''indassetref'' ''[0-9]*'' 4398046511103],
     PureFields = [ufixed ''gs1companyprefix'' 12 ''[0-9]*'' 999999999999,
       uplain ''indassetref'' ''[0-9]*'' 9999999999999]\<rparr>"

definition giai_96 :: scheme_def where
  "giai_96 = \<lparr>sd_Name = ''GIAI-96'', sd_TagLength = 96, sd_Header = 52, sd_HeaderBits = 8,
     sd_TagURIPrefix = ''urn:epc:tag:giai-96:'', sd_PureURIPrefix = ''urn:epc:id:giai:'',
     sd_Options = [giai_96_gcp6, giai_96_gcp7, giai_96_gcp8, giai_96_gcp9, giai_96_gcp10, giai_96_gcp11, giai_96_gcp12]\<rparr>"

definition grai_96_gcp6 :: gs1_option where
  "grai_96_gcp6 = \<lparr>GCPLength = 6, o_Partition = 6,
     BinaryFields = [bfield ''filter'' 8 3 7,
       bfield ''gs1companyprefix'' 14 20 999999,
       bfield ''assettype'' 34 24 999999,
       bfield ''serial'' 58 38 274877906943],
     BinaryLiterals = [blit 0 8 51, blit 11 3 6],
     TagFields = [ufixed ''filter'' 1 ''[0-7]*'' 7,
       ufixed ''gs1companyprefix'' 6 ''[0-9]*'' 999999,
       ufixed ''assettype'' 6 ''[0-9]*'' 999999,
       uplain ''serial'' ''[0-9]*'' 274877906943],
     PureFields = [ufixed ''gs1companyprefix'' 6 ''[0-9]*'' 999999,
       ufixed ''assettype'' 6 ''[0-9]*'' 999999,
       uplain ''serial'' ''[0-9]*'' 274877906943]\<rparr>"

definition grai_96_gcp7 :: gs1_option where
  "grai_96_gcp7 = \<lparr>GCPLength = 7, o_Partition = 5,
     BinaryFields = [bfield ''filter'' 8 3 7,
       bfield ''gs1companyprefix'' 14 24 9999999,
       bfield ''assettype'' 38 20 99999,
       bfield ''serial'' 58 38 274877906943],
     BinaryLiterals = [blit 0 8 51, blit 11 3 5],
     TagFields = [ufixed ''filter'' 1 ''[0-7]*'' 7,
       ufixed ''gs1companyprefix'' 7 ''[0-9]*'' 9999999,
       ufixed ''assettype'' 5 ''[0-9]*'' 99999,
       uplain ''serial'' ''[0-9]*'' 274877906943],
     PureFields = [ufixed ''gs1companyprefix'' 7 ''[0-9]*'' 9999999,
       ufixed ''assettype'' 5 ''[0-9]*'' 99999,
       uplain ''serial'' ''[0-9]*'' 274877906943]\<rparr>"

definition grai_96_gcp8 :: gs1_option where
  "grai_96_gcp8 = \<lparr>GCPLength = 8, o_Partition = 4,
     BinaryFields = [bfield ''filter'' 8 3 7,
       bfield ''gs1companyprefix'' 14 27 99999999,
       bfield ''assettype'' 41 17 9999,
       bfield ''serial'' 58 38 274877906943],
     BinaryLiterals = [blit 0 8 51, blit 11 3 4],
     TagFields = [ufixed ''filter'' 1 ''[0-7]*'' 7,
       ufixed ''gs1companyprefix'' 8 ''[0-9]*'' 99999999,
       ufixed ''assettype'' 4 ''[0-9]*'' 9999,
       uplain ''serial'' ''[0-9]*'' 274877906943],
     PureFields = [ufixed ''gs1companyprefix'' 8 ''[0-9]*'' 99999999,
       ufixed ''assettype'' 4 ''[0-9]*'' 9999,
       uplain ''serial'' ''[0-9]*'' 274877906943]\<rparr>"

definition grai_96_gcp9 :: gs1_option where
  "grai_96_gcp9 = \<lparr>GCPLength = 9, o_Partition = 3,
     BinaryFields = [bfield ''filter'' 8 3 7,
       bfield ''gs1companyprefix'' 14 30 999999999,
       bfield ''assettype'' 44 14 999,
       bfield ''serial'' 58 38 274877906943],
     BinaryLiterals = [blit 0 8 51, blit 11 3 3],
     TagFields = [ufixed ''filter'' 1 ''[0-7]*'' 7,
       ufixed ''gs1companyprefix'' 9 ''[0-9]*'' 999999999,
       ufixed ''assettype'' 3 ''[0-9]*'' 999,
       uplain ''serial'' ''[0-9]*'' 274877906943],
     PureFields = [ufixed ''gs1companyprefix'' 9 ''[0-9]*'' 999999999,
       ufixed ''assettype'' 3 ''[0-9]*'' 999,
       uplain ''serial'' ''[0-9]*'' 274877906943]\<rparr>"

definition grai_96_gcp10 :: gs1_option where
  "grai_96_gcp10 = \<lparr>GCPLength = 10, o_Partition = 2,
     BinaryFields = [bfield ''filter'' 8 3 7,
       bfield ''gs1companyprefix'' 14 34 9999999999,
       bfield ''assettype'' 48 10 99,
       bfield ''serial'' 58 38 274877906943],
     BinaryLiterals = [blit 0 8 51, blit 11 3 2],
     TagFields = [ufixed ''filter'' 1 ''[0-7]*'' 7,
       ufixed ''gs1companyprefix'' 10 ''[0-9]*'' 9999999999,
       ufixed ''assettype'' 2 ''[0-9]*'' 99,
       uplain ''serial'' ''[0-9]*'' 274877906943],
     PureFields = [ufixed ''gs1companyprefix'' 10 ''[0-9]*'' 9999999999,
       ufixed ''assettype'' 2 ''[0-9]*'' 99,
       uplain ''serial'' ''[0-9]*'' 274877906943]\<rparr>"

definition grai_96_gcp11 :: gs1_option where
  "grai_96_gcp11 = \<lparr>GCPLength = 11, o_Partition = 1,
     BinaryFields = [bfield ''filter'' 8 3 7,
       bfield ''gs1companyprefix'' 14 37 99999999999,
       bfield ''assettype'' 51 7 9,
       bfield ''serial'' 58 38 274877906943],
     BinaryLiterals = [blit 0 8 51, blit 11 3 1],
     TagFields = [ufixed ''filter'' 1 ''[0-7]*'' 7,
       ufixed ''gs1companyprefix'' 11 ''[0-9]*'' 99999999999,
       ufixed ''assettype'' 1 ''[0-9]*'' 9,
       uplain ''serial'' ''[0-9]*'' 274877906943],
     PureFields = [ufixed ''gs1companyprefix'' 11 ''[0-9]*'' 99999999999,
       ufixed ''assettype'' 1 ''[0-9]*'' 9,
       uplain ''serial'' ''[0-9]*'' 274877906943]\<rparr>"

definition grai_96_gcp12 :: gs1_option where
  "grai_96_gcp12 = \<lparr>GCPLength = 12, o_Partition = 0,
     BinaryFields = [bfield ''filter'' 8 3 7,
       bfield ''gs1companyprefix'' 14 40 999999999999,
       bfield ''assettype'' 54 4 0,
       bfield ''serial'' 58 38 274877906943],
     BinaryLiterals = [blit 0 8 51, blit 11 3 0],
     TagFields = [ufixed ''filter'' 1 ''[0-7]*'' 7,
       ufixed ''gs1companyprefix'' 12 ''[0-9]*'' 999999999999,
       ufixed ''assettype'' 0 ''[0-9]*'' 0,
       uplain ''serial'' ''[0-9]*'' 274877906943],
     PureFields = [ufixed ''gs1companyprefix'' 12 ''[0-9]*'' 999999999999,
       ufixed ''assettype'' 0 ''[0-9]*'' 0,
       uplain ''serial'' ''[0-9]*'' 274877906943]\<rparr>"

definition grai_96 :: scheme_def where
  "grai_96 = \<lparr>sd_Name = ''GRAI-96'', sd_TagLength = 96, sd_Header = 51, sd_HeaderBits = 8,
     sd_TagURIPrefix = ''urn:epc:tag:grai-96:'', sd_PureURIPrefix = ''urn:epc:id:grai:'',
     sd_Options = [grai_96_gcp6, grai_96_gcp7, grai_96_gcp8, grai_96_gcp9, grai_96_gcp10, grai_96_gcp11, grai_96_gcp12]\<rparr>"

definition Schemes :: "scheme_def list" where
  "Schemes = [sgtin_96, sscc_96, giai_96, grai_96]"

lemmas option_defs = sgtin_96_gcp6_def
  sgtin_96_gcp7_def
  sgtin_96_gcp8_def
  sgtin_96_gcp9_def
  sgtin_96_gcp10_def
  sgtin_96_gcp11_def
  sgtin_96_gcp12_def
  sscc_96_gcp6_def
  sscc_96_gcp7_def
  sscc_96_gcp8_def
  sscc_96_gcp9_def
  sscc_96_gcp10_def
  sscc_96_gcp11_def
  sscc_96_gcp12_def
  giai_96_gcp6_def
  giai_96_gcp7_def
  giai_96_gcp8_def
  giai_96_gcp9_def
  giai_96_gcp10_def
  giai_96_gcp11_def
  giai_96_gcp12_def
  grai_96_gcp6_def
  grai_96_gcp7_def
  grai_96_gcp8_def
  grai_96_gcp9_def
  grai_96_gcp10_def
  grai_96_gcp11_def
  grai_96_gcp12_def

lemmas scheme_defs = Schemes_def sgtin_96_def sscc_96_def giai_96_def grai_96_def

end
