(* ===== verification/Tag_Bits.thy ===== *)
theory Tag_Bits
  imports Prelude
begin

text \<open>
  Reading and writing bit fields of tag memory, most significant bit first:
  \<open>bitsAt\<close> and \<open>setBits\<close> of \<^verbatim>\<open>src/internal/tdt/gs1epc/scheme.go\<close>, with the facts about fields
  that tile a tag.
\<close>

section \<open>Bit fields\<close>

text \<open>Indices are in range: callers check the length of the data against the scheme's.\<close>

definition bitsAt :: "bytes \<Rightarrow> nat \<Rightarrow> nat \<Rightarrow> u64" where
  "bitsAt data offset n = foldl (\<lambda>v i.
     let bt = offset + i;
         b = drop_bit (7 - bt mod 8) (data ! (bt div 8)) AND 1
     in push_bit 1 v OR ucast b) 0 [0..<n]"

definition setBits :: "bytes \<Rightarrow> nat \<Rightarrow> nat \<Rightarrow> u64 \<Rightarrow> bytes" where
  "setBits data offset n v = foldl (\<lambda>data i.
     let bt = offset + i in
     if drop_bit (n - 1 - i) v AND 1 = 1
     then data[bt div 8 := data ! (bt div 8) OR push_bit (7 - bt mod 8) 1]
     else data) data [0..<n]"

section \<open>Facts: single bits\<close>

definition tag_bit :: "bytes \<Rightarrow> nat \<Rightarrow> bool" where
  "tag_bit data i = bit (data ! (i div 8)) (7 - i mod 8)"

lemma bitsAt_0 [simp]: "bitsAt data offset 0 = 0"
  by (simp add: bitsAt_def)

lemma bitsAt_Suc:
  "bitsAt data offset (Suc n) = push_bit 1 (bitsAt data offset n) OR
     ucast (drop_bit (7 - (offset + n) mod 8) (data ! ((offset + n) div 8)) AND 1)"
  by (simp add: bitsAt_def Let_def)

lemma bit_push_bit_1: "bit (push_bit 1 (w :: u64)) j \<longleftrightarrow> 1 \<le> j \<and> j < 64 \<and> bit w (j - 1)"
  by (simp only: bit_push_bit_iff) auto

lemma bit_bitsAt:
  "n \<le> 64 \<Longrightarrow> bit (bitsAt data offset n) j \<longleftrightarrow> j < n \<and> tag_bit data (offset + (n - 1 - j))"
proof (induction n arbitrary: j)
  case (Suc n)
  show ?case
  proof (cases j)
    case 0
    then show ?thesis by (simp only: bitsAt_Suc bit_or_iff bit_push_bit_1) (simp add: tag_bit_def bit_simps)
  next
    case (Suc i)
    have "bit (bitsAt data offset (Suc n)) j \<longleftrightarrow> i < 63 \<and> bit (bitsAt data offset n) i"
      using Suc by (simp only: bitsAt_Suc bit_or_iff bit_push_bit_1) (auto simp: bit_simps)
    also have "\<dots> \<longleftrightarrow> i < n \<and> tag_bit data (offset + (n - 1 - i))"
      using Suc.IH [of i] Suc.prems by auto
    finally show ?thesis using Suc by simp
  qed
qed simp

lemma bitsAt_less: "n \<le> 64 \<Longrightarrow> n \<le> j \<Longrightarrow> \<not> bit (bitsAt data offset n) j"
  by (simp add: bit_bitsAt)

lemma bitsAt_cong:
  "n \<le> 64 \<Longrightarrow> (\<And>i. offset \<le> i \<Longrightarrow> i < offset + n \<Longrightarrow> tag_bit d i = tag_bit d' i) \<Longrightarrow>
   bitsAt d offset n = bitsAt d' offset n"
  by (rule bit_word_eqI) (auto simp: bit_bitsAt)

definition or_bit :: "bytes \<Rightarrow> nat \<Rightarrow> bytes" where
  "or_bit data bt = data[bt div 8 := data ! (bt div 8) OR push_bit (7 - bt mod 8) 1]"

lemma length_or_bit [simp]: "length (or_bit data bt) = length data"
  by (simp add: or_bit_def)

lemma tag_bit_or_bit:
  assumes "bt < 8 * length data" "i < 8 * length data"
  shows "tag_bit (or_bit data bt) i \<longleftrightarrow> tag_bit data i \<or> i = bt"
proof (cases "i div 8 = bt div 8")
  case True
  have "7 - i mod 8 = 7 - bt mod 8 \<longleftrightarrow> i mod 8 = bt mod 8"
    using mod_less_divisor [of 8 i] mod_less_divisor [of 8 bt] by linarith
  also have "\<dots> \<longleftrightarrow> i = bt" using True by (metis div_mult_mod_eq)
  finally show ?thesis
    using assms True by (auto simp: tag_bit_def or_bit_def bit_simps less_mult_imp_div_less mult.commute)
next
  case False
  then show ?thesis by (auto simp: tag_bit_def or_bit_def)
qed

section \<open>Facts: writing a field\<close>

definition covers :: "nat \<Rightarrow> nat \<times> nat \<Rightarrow> bool" where
  "covers i site \<longleftrightarrow> fst site \<le> i \<and> i < fst site + snd site"

definition field_bit :: "nat \<Rightarrow> nat \<Rightarrow> u64 \<Rightarrow> nat \<Rightarrow> bool" where
  "field_bit offset n v i \<longleftrightarrow> bit v (n - 1 - (i - offset))"

lemma setBits_step:
  "drop_bit k v AND 1 = 1 \<longleftrightarrow> bit (v :: u64) k"
  by (metis bit_iff_odd_drop_bit odd_iff_mod_2_eq_one and_one_eq even_iff_mod_2_eq_zero)

lemma setBits_or_bit:
  "setBits data offset n v = foldl (\<lambda>data i. if bit v (n - 1 - i) then or_bit data (offset + i) else data) data [0..<n]"
  by (simp add: setBits_def Let_def or_bit_def setBits_step cong: if_cong)

lemma length_setBits [simp]: "length (setBits data offset n v) = length data"
proof -
  have "length (foldl (\<lambda>data i. if bit v (n - 1 - i) then or_bit data (offset + i) else data) data xs) = length data" for xs
    by (induction xs rule: rev_induct) auto
  then show ?thesis by (simp add: setBits_or_bit)
qed

lemma tag_bit_setBits:
  assumes "offset + n \<le> 8 * length data" "i < 8 * length data"
  shows "tag_bit (setBits data offset n v) i \<longleftrightarrow> tag_bit data i \<or> covers i (offset, n) \<and> field_bit offset n v i"
proof -
  let ?f = "\<lambda>data i. if bit v (n - 1 - i) then or_bit data (offset + i) else data"
  have "length (foldl ?f data [0..<k]) = length data \<and>
    (tag_bit (foldl ?f data [0..<k]) i \<longleftrightarrow> tag_bit data i \<or> offset \<le> i \<and> i < offset + k \<and> field_bit offset n v i)"
    if "k \<le> n" for k
    using that
  proof (induction k)
    case (Suc k)
    then have IH: "length (foldl ?f data [0..<k]) = length data"
      "tag_bit (foldl ?f data [0..<k]) i \<longleftrightarrow> tag_bit data i \<or> offset \<le> i \<and> i < offset + k \<and> field_bit offset n v i"
      by auto
    have "tag_bit (or_bit (foldl ?f data [0..<k]) (offset + k)) i \<longleftrightarrow> tag_bit (foldl ?f data [0..<k]) i \<or> i = offset + k"
      using assms Suc.prems IH(1) by (intro tag_bit_or_bit) auto
    with IH show ?case by (auto simp: field_bit_def less_Suc_eq)
  qed auto
  from this [of n] show ?thesis by (simp add: setBits_or_bit covers_def)
qed

lemma bytes_eqI:
  assumes "length d = length d'" "\<And>i. i < 8 * length d \<Longrightarrow> tag_bit d i = tag_bit d' i"
  shows "d = d'"
proof (rule nth_equalityI [OF assms(1)])
  fix k assume k: "k < length d"
  show "d ! k = d' ! k"
  proof (rule bit_word_eqI)
    fix j assume "j < LENGTH(8)"
    then obtain m where m: "m < 8" "j = 7 - m" by (intro that [of "7 - j"]) simp_all
    then have "(8 * k + m) div 8 = k" "(8 * k + m) mod 8 = m" by simp_all
    with assms(2) [of "8 * k + m"] k m show "bit (d ! k) j = bit (d' ! k) j"
      by (simp add: tag_bit_def)
  qed
qed

section \<open>Facts: fields that tile a tag\<close>

type_synonym site = "nat \<times> nat \<times> u64"

definition place :: "site \<Rightarrow> nat \<times> nat" where
  "place w = (fst w, fst (snd w))"

definition writeFields :: "site list \<Rightarrow> bytes \<Rightarrow> bytes" where
  "writeFields ws data = foldl (\<lambda>data (offset, n, v). setBits data offset n v) data ws"

definition tiling :: "(nat \<times> nat) list \<Rightarrow> nat \<Rightarrow> bool" where
  "tiling sites len \<longleftrightarrow> list_all (\<lambda>s. snd s \<le> 64 \<and> fst s + snd s \<le> len) sites \<and>
     list_all (\<lambda>i. length (filter (covers i) sites) = 1) [0..<len]"

text \<open>A tiling is recognised by walking the sites in the order of their offsets.\<close>

fun contiguous :: "nat \<Rightarrow> (nat \<times> nat) list \<Rightarrow> nat \<Rightarrow> bool" where
  "contiguous a [] len \<longleftrightarrow> a = len"
| "contiguous a ((offset, n) # sites) len \<longleftrightarrow> offset = a \<and> contiguous (a + n) sites len"

lemma contiguous_bounds:
  "contiguous a sites len \<Longrightarrow> a \<le> len \<and> list_all (\<lambda>s. a \<le> fst s \<and> fst s + snd s \<le> len) sites"
  by (induction a sites len rule: contiguous.induct) (auto simp: list_all_iff)

lemma contiguous_covers:
  "contiguous a sites len \<Longrightarrow> length (filter (covers i) sites) = (if a \<le> i \<and> i < len then 1 else 0)"
proof (induction a sites len rule: contiguous.induct)
  case (2 a offset n sites len)
  then have "a + n \<le> len" using contiguous_bounds by auto
  with 2 show ?case by (auto simp: covers_def)
qed simp

lemma contiguous_tiling:
  assumes "list_all (\<lambda>site. snd site \<le> 64) sites" "contiguous 0 (sort_key fst sites) len"
  shows "tiling sites len"
proof -
  have "length (filter (covers i) sites) = length (filter (covers i) (sort_key fst sites))" for i
    by (simp add: filter_sort)
  then have "list_all (\<lambda>i. length (filter (covers i) sites) = 1) [0..<len]"
    using contiguous_covers [OF assms(2)] by (simp add: list_all_iff)
  then show ?thesis
    using contiguous_bounds [OF assms(2)] assms(1) by (simp add: tiling_def list_all_iff)
qed

lemma length_writeFields [simp]: "length (writeFields ws data) = length data"
proof -
  have "length (foldl (\<lambda>data (offset, n, v). setBits data offset n v) data ws) = length data"
    by (induction ws arbitrary: data) auto
  then show ?thesis by (simp add: writeFields_def)
qed

lemma tag_bit_writeFields:
  assumes "\<forall>w \<in> set ws. fst (place w) + snd (place w) \<le> 8 * length data" "i < 8 * length data"
  shows "tag_bit (writeFields ws data) i \<longleftrightarrow> tag_bit data i \<or>
    (\<exists>(offset, n, v) \<in> set ws. covers i (offset, n) \<and> field_bit offset n v i)"
  using assms
proof (induction ws arbitrary: data)
  case (Cons w ws)
  obtain offset n v where w: "w = (offset, n, v)" by (cases w)
  have "tag_bit (writeFields (w # ws) data) i \<longleftrightarrow> tag_bit (setBits data offset n v) i \<or>
      (\<exists>(offset, n, v) \<in> set ws. covers i (offset, n) \<and> field_bit offset n v i)"
    using Cons.IH [of "setBits data offset n v"] Cons.prems by (simp add: writeFields_def w)
  then show ?case using Cons.prems by (auto simp: tag_bit_setBits w place_def)
qed (simp add: writeFields_def)

lemma tag_bit_zeros [simp]: "i < 8 * k \<Longrightarrow> \<not> tag_bit (replicate k 0) i"
  by (simp add: tag_bit_def less_mult_imp_div_less mult.commute)

lemma tiling_covers:
  assumes "tiling (map place ws) len" "i < len"
  shows "\<exists>w. filter (\<lambda>w. covers i (place w)) ws = [w]"
proof -
  have "length (filter (covers i) (map place ws)) = 1" using assms by (simp add: tiling_def list_all_iff)
  then have "length (filter (\<lambda>w. covers i (place w)) ws) = 1" by (simp add: filter_map comp_def)
  then show ?thesis by (cases "filter (\<lambda>w. covers i (place w)) ws") auto
qed

lemma tiling_unique:
  assumes "tiling (map place ws) len" "i < len" "w \<in> set ws" "w' \<in> set ws" "covers i (place w)" "covers i (place w')"
  shows "w = w'"
proof -
  from tiling_covers [OF assms(1,2)] obtain u where u: "filter (\<lambda>w. covers i (place w)) ws = [u]" ..
  have "w \<in> set (filter (\<lambda>w. covers i (place w)) ws)" "w' \<in> set (filter (\<lambda>w. covers i (place w)) ws)"
    using assms(3-6) by auto
  with u show ?thesis by simp
qed

lemma tiling_sites: "tiling (map place ws) len \<Longrightarrow> (offset, n, v) \<in> set ws \<Longrightarrow> n \<le> 64 \<and> offset + n \<le> len"
  by (force simp: tiling_def list_all_iff place_def)

lemma tag_bit_tiled:
  assumes "tiling (map place ws) (8 * k)" "i < 8 * k" "(offset, n, v) \<in> set ws" "covers i (offset, n)"
  shows "tag_bit (writeFields ws (replicate k 0)) i \<longleftrightarrow> field_bit offset n v i"
proof -
  have sites: "\<forall>w \<in> set ws. fst (place w) + snd (place w) \<le> 8 * length (replicate k (0 :: byte))"
    using assms(1) by (auto simp: tiling_def list_all_iff)
  have one: "(offset', n', v') = (offset, n, v)" if "(offset', n', v') \<in> set ws" "covers i (offset', n')" for offset' n' v'
    using that assms(3,4) by (intro tiling_unique [OF assms(1,2)]) (simp_all add: place_def)
  have "tag_bit (writeFields ws (replicate k 0)) i \<longleftrightarrow>
      (\<exists>(offset, n, v) \<in> set ws. covers i (offset, n) \<and> field_bit offset n v i)"
    using tag_bit_writeFields [OF sites, of i] assms(2) by simp
  also have "\<dots> \<longleftrightarrow> field_bit offset n v i"
  proof
    assume "\<exists>(offset, n, v) \<in> set ws. covers i (offset, n) \<and> field_bit offset n v i"
    then obtain offset' n' v' where "(offset', n', v') \<in> set ws" "covers i (offset', n')" "field_bit offset' n' v' i"
      by blast
    with one [of offset' n' v'] show "field_bit offset n v i" by simp
  next
    assume "field_bit offset n v i"
    with assms(3,4) show "\<exists>(offset, n, v) \<in> set ws. covers i (offset, n) \<and> field_bit offset n v i" by blast
  qed
  finally show ?thesis .
qed

text \<open>Every field reads back what was written.\<close>

lemma bitsAt_writeFields:
  assumes "tiling (map place ws) (8 * k)" "(offset, n, v) \<in> set ws" "\<And>j. n \<le> j \<Longrightarrow> \<not> bit v j"
  shows "bitsAt (writeFields ws (replicate k 0)) offset n = v"
proof (rule bit_word_eqI)
  fix j assume "j < LENGTH(64)"
  note site = tiling_sites [OF assms(1,2)]
  show "bit (bitsAt (writeFields ws (replicate k 0)) offset n) j = bit v j"
  proof (cases "j < n")
    case True
    let ?i = "offset + (n - 1 - j)"
    have cov: "covers ?i (place (offset, n, v))" using True by (simp add: covers_def place_def)
    have i: "?i < 8 * k" using site True by linarith
    have "tag_bit (writeFields ws (replicate k 0)) ?i \<longleftrightarrow> field_bit offset n v ?i"
      using cov by (intro tag_bit_tiled [OF assms(1) i assms(2)]) (simp add: place_def)
    also have "\<dots> \<longleftrightarrow> bit v j" using True by (simp add: field_bit_def)
    finally show ?thesis using True site by (simp add: bit_bitsAt)
  next
    case False
    with assms(3) site show ?thesis by (simp add: bit_bitsAt)
  qed
qed

text \<open>Writing what was read gives back the tag.\<close>

lemma writeFields_bitsAt:
  assumes "tiling (map place ws) (8 * k)" "k \<le> length bits"
    "\<forall>(offset, n, v) \<in> set ws. bitsAt bits offset n = v"
  shows "writeFields ws (replicate k 0) = take k bits"
proof (rule bytes_eqI)
  show "length (writeFields ws (replicate k 0)) = length (take k bits)" using assms(2) by simp
  fix i assume "i < 8 * length (writeFields ws (replicate k 0))"
  then have i: "i < 8 * k" by simp
  from tiling_covers [OF assms(1) i] obtain w where w: "filter (\<lambda>w. covers i (place w)) ws = [w]" ..
  then have "w \<in> set (filter (\<lambda>w. covers i (place w)) ws)" by simp
  then have "w \<in> set ws" "covers i (place w)" by simp_all
  moreover obtain offset n v where "w = (offset, n, v)" by (cases w)
  ultimately have o: "(offset, n, v) \<in> set ws" and cov: "covers i (offset, n)" by (simp_all add: place_def)
  note site = tiling_sites [OF assms(1) o]
  have "tag_bit (writeFields ws (replicate k 0)) i \<longleftrightarrow> field_bit offset n v i"
    by (rule tag_bit_tiled [OF assms(1) i o cov])
  also have "\<dots> \<longleftrightarrow> tag_bit bits i"
  proof -
    have "bitsAt bits offset n = v" using assms(3) o by auto
    then have "bit v (n - 1 - (i - offset)) \<longleftrightarrow> bit (bitsAt bits offset n) (n - 1 - (i - offset))" by simp
    also have "\<dots> \<longleftrightarrow> tag_bit bits (offset + (n - 1 - (n - 1 - (i - offset))))"
      using site cov by (auto simp: bit_bitsAt covers_def)
    also have "offset + (n - 1 - (n - 1 - (i - offset))) = i" using cov by (simp add: covers_def)
    finally show ?thesis by (simp add: field_bit_def)
  qed
  also have "\<dots> \<longleftrightarrow> tag_bit (take k bits) i"
    using i by (simp add: tag_bit_def less_mult_imp_div_less mult.commute)
  finally show "tag_bit (writeFields ws (replicate k 0)) i = tag_bit (take k bits) i" .
qed

end
