(* ===== verification/Gs1_Scheme.thy ===== *)
theory Gs1_Scheme
  imports Tdtdef Tag_Bits
begin

text \<open>
  The supported GS1 schemes, from \<^verbatim>\<open>src/internal/tdt/gs1epc\<close>: the registry built from the
  generated tables (\<^verbatim>\<open>scheme.go\<close>), and the text of one
  field (\<^verbatim>\<open>field.go\<close>). A field error carries the same scheme, field, rule, value and clause as
  the code's.
\<close>

section \<open>Fields\<close>

definition numericCharset :: "string \<Rightarrow> bool" where
  "numericCharset set' \<longleftrightarrow> set' = ''[0-9]*'' \<or> set' = ''[0-7]*''"

definition componentNames :: "(string \<times> ComponentName) list" where
  "componentNames =
     [(''gs1companyprefix'', GS1CompanyPrefix), (''itemref'', ItemReference), (''serialref'', SerialReference),
      (''serial'', Serial), (''assettype'', AssetType), (''indassetref'', IndividualAssetReference),
      (''filter'', FilterValue)]"

text \<open>A missing key of a Go map is the zero value.\<close>

definition componentName :: "string \<Rightarrow> ComponentName" where
  "componentName name = (case map_of componentNames name of None \<Rightarrow> ComponentUnknown | Some c \<Rightarrow> c)"

definition render :: "uri_field \<Rightarrow> u64 \<Rightarrow> string" where
  "render f v =
     (if uf_Fixed f \<and> uf_Length f = 0 then []
      else let s = itoa (unat v) in
        if uf_Length f = 0 \<or> length s \<ge> uf_Length f then s
        else let pad = (if uf_PadChar f = CHR 0x00 then CHR ''0'' else uf_PadChar f);
                 padding = replicate (uf_Length f - length s) pad
             in if uf_PadDir f = PadRight then s @ padding else padding @ s)"

definition parseField :: "string \<Rightarrow> uri_field \<Rightarrow> string \<Rightarrow> tdt_error + u64" where
  "parseField scheme f text =
     (if uf_Fixed f \<and> uf_Length f = 0 then
        (if text \<noteq> [] then Inl (Field scheme (uf_Name f) ''length'' text ''TDS 2.2 zero-length field'') else Inr 0)
      else if text = [] then Inl (Field scheme (uf_Name f) ''empty'' text [])
      else if list_ex (\<lambda>c. c < CHR ''0'' \<or> c > CHR ''9'') text
      then Inl (Field scheme (uf_Name f) ''charset'' text (''TDS 2.2 '' @ uf_CharacterSet f))
      else if uf_Fixed f \<and> length text \<noteq> uf_Length f
      then Inl (Field scheme (uf_Name f) ''length'' text ''TDS 2.2 padded field'')
      else if \<not> uf_Fixed f \<and> length text > 1 \<and> hd text = CHR ''0''
      then Inl (Field scheme (uf_Name f) ''leading-zero'' text ''TDS 2.2 unpadded field'')
      else case ParseUint64 text of
             None \<Rightarrow> Inl (Field scheme (uf_Name f) ''range'' text [])
           | Some v \<Rightarrow>
               if v > uf_DecimalMax f
               then Inl (Field scheme (uf_Name f) ''range'' text (''TDS 2.2 maximum '' @ itoa (unat (uf_DecimalMax f))))
               else Inr v)"

text \<open>The code indexes \<open>values\<close> by the position of the field; callers pass one value per field.\<close>

definition components :: "uri_field list \<Rightarrow> u64 list \<Rightarrow> component list" where
  "components fs values =
     map2 (\<lambda>f v. \<lparr>c_name = componentName (uf_Name f), c_value = render f v\<rparr>) fs values"

section \<open>The registry\<close>

record gs1_scheme =
  sch_def :: scheme_def
  sch_id :: SchemeID
  sch_key :: string
  sch_keyType :: KeyType
  partitionOffset :: nat
  partitionBits :: nat

definition supported :: "(string \<times> KeyType) list" where
  "supported = [(''SGTIN-96'', KeyTypeSGTIN), (''SSCC-96'', KeyTypeSSCC), (''GIAI-96'', KeyTypeGIAI),
     (''GRAI-96'', KeyTypeGRAI)]"

definition partitionSite :: "gs1_option \<Rightarrow> (unit + nat \<times> nat)" where
  "partitionSite opt =
     (case find (\<lambda>f. bf_Name f = ''gs1companyprefix'') (rev (BinaryFields opt)) of
        None \<Rightarrow> Inl ()
      | Some gcp \<Rightarrow>
          if bf_BitLength gcp = 0 then Inl ()
          else case find (\<lambda>l. bl_BitOffset l + bl_BitLength l = bf_BitOffset gcp) (BinaryLiterals opt) of
                 None \<Rightarrow> Inl ()
               | Some l \<Rightarrow> Inr (bl_BitOffset l, bl_BitLength l))"

definition componentOrderOf :: "KeyType \<Rightarrow> gs1_option \<Rightarrow> ComponentName list option" where
  "componentOrderOf k opt =
     (let order = ComponentOrder k in
      if length order \<noteq> length (PureFields opt) then None
      else if \<not> list_all2 (\<lambda>f name. componentName (uf_Name f) = name) (PureFields opt) order then None
      else Some order)"

definition sameRendering :: "uri_field \<Rightarrow> uri_field \<Rightarrow> bool" where
  "sameRendering a b \<longleftrightarrow> uf_Name a = uf_Name b \<and> uf_Length a = uf_Length b \<and> uf_Fixed a = uf_Fixed b \<and>
     uf_PadChar a = uf_PadChar b \<and> uf_PadDir a = uf_PadDir b"

definition newScheme :: "scheme_def \<Rightarrow> KeyType \<Rightarrow> unit + gs1_scheme" where
  "newScheme def keyType =
     (if sd_HeaderBits def \<noteq> 8 then Inl ()
      else case CutPrefix (sd_TagURIPrefix def) ''urn:epc:tag:'' of
        None \<Rightarrow> Inl ()
      | Some i \<Rightarrow>
          case CutPrefix (sd_PureURIPrefix def) ''urn:epc:id:'' of
            None \<Rightarrow> Inl ()
          | Some key \<Rightarrow>
              bind_res (fold_res (\<lambda>opt site. bind_res (partitionSite opt) (\<lambda>here.
                  case site of
                    None \<Rightarrow> Inr (Some here)
                  | Some first \<Rightarrow> if here \<noteq> first then Inl () else Inr site)) (sd_Options def) None) (\<lambda>site.
              if list_ex (\<lambda>opt. list_ex (\<lambda>f. \<not> numericCharset (uf_CharacterSet f)) (TagFields opt @ PureFields opt))
                   (sd_Options def) then Inl ()
              else if componentOrderOf keyType (sd_Options def ! 0) = None then Inl ()
              else if list_ex (\<lambda>opt. length (TagFields opt) \<noteq> length (PureFields opt) + 1 \<or>
                        uf_Name (TagFields opt ! 0) \<noteq> ''filter'' \<or>
                        list_ex (\<lambda>i. \<not> sameRendering (TagFields opt ! (i + 1)) (PureFields opt ! i))
                          [0..<length (PureFields opt)]) (sd_Options def) then Inl ()
              else Inr \<lparr>sch_def = def, sch_id = TrimSuffix i '':'', sch_key = TrimSuffix key '':'',
                        sch_keyType = keyType,
                        partitionOffset = (case site of None \<Rightarrow> 0 | Some (offset, _) \<Rightarrow> offset),
                        partitionBits = (case site of None \<Rightarrow> 0 | Some (_, bits) \<Rightarrow> bits)\<rparr>))"

text \<open>
  The package's \<open>init\<close>: it panics where this is an error, so a program that runs has the
  schemes below.
\<close>

definition registry :: "unit + gs1_scheme list" where
  "registry =
     bind_res (fold_res (\<lambda>def acc.
       case map_of supported (sd_Name def) of
         None \<Rightarrow> Inr acc
       | Some keyType \<Rightarrow> bind_res (newScheme def keyType) (\<lambda>s. Inr (acc @ [s]))) Schemes []) (\<lambda>ss.
     if length ss \<noteq> length supported then Inl () else Inr ss)"

definition schemes :: "gs1_scheme list" where
  "schemes = (case registry of Inl _ \<Rightarrow> [] | Inr ss \<Rightarrow> ss)"

text \<open>The maps \<open>byID\<close>, \<open>byKey\<close> and \<open>byHeader\<close>: a later scheme replaces an earlier one.\<close>

definition byID :: "SchemeID \<Rightarrow> gs1_scheme option" where
  "byID i = find (\<lambda>s. sch_id s = i) (rev schemes)"

definition byKey :: "string \<Rightarrow> gs1_scheme option" where
  "byKey key = find (\<lambda>s. sch_key s = key) (rev schemes)"

definition byHeader :: "byte \<Rightarrow> gs1_scheme option" where
  "byHeader h = find (\<lambda>s. ucast (sd_Header (sch_def s)) = h) (rev schemes)"

definition Lookup :: "SchemeID \<Rightarrow> tdt_error + gs1_scheme" where
  "Lookup i = (case byID i of None \<Rightarrow> Inl ErrUnsupportedScheme | Some s \<Rightarrow> Inr s)"

definition LookupKey :: "string \<Rightarrow> tdt_error + gs1_scheme" where
  "LookupKey key = (case byKey key of None \<Rightarrow> Inl ErrUnsupportedScheme | Some s \<Rightarrow> Inr s)"

record field_spec =
  fs_Name :: ComponentName
  fs_Length :: nat
  fs_Fixed :: bool
  fs_Max :: u64

definition FieldSpecs :: "gs1_scheme \<Rightarrow> nat \<Rightarrow> tdt_error + field_spec list" where
  "FieldSpecs s gcpLength =
     (case sd_Option (sch_def s) gcpLength of
        None \<Rightarrow> Inl (Field (sch_id s) ''gs1companyprefix'' ''length'' (itoa gcpLength)
                 ''TDS 2.2 company prefix lengths 6-12'')
      | Some opt \<Rightarrow> Inr (map (\<lambda>i.
          let f = PureFields opt ! i; mx = bf_DecimalMax (BinaryFields opt ! (i + 1));
              mx = (if uf_DecimalMax f < mx then uf_DecimalMax f else mx)
          in \<lparr>fs_Name = componentName (uf_Name f), fs_Length = uf_Length f, fs_Fixed = uf_Fixed f, fs_Max = mx\<rparr>)
          [0..<length (PureFields opt)]))"

section \<open>Facts: the registry\<close>

text \<open>What the four calls of \<open>newScheme\<close> build.\<close>

definition sgtin_scheme :: gs1_scheme where
  "sgtin_scheme = \<lparr>sch_def = sgtin_96, sch_id = ''sgtin-96'', sch_key = ''sgtin'', sch_keyType = KeyTypeSGTIN,
     partitionOffset = 11, partitionBits = 3\<rparr>"

definition sscc_scheme :: gs1_scheme where
  "sscc_scheme = \<lparr>sch_def = sscc_96, sch_id = ''sscc-96'', sch_key = ''sscc'', sch_keyType = KeyTypeSSCC,
     partitionOffset = 11, partitionBits = 3\<rparr>"

definition giai_scheme :: gs1_scheme where
  "giai_scheme = \<lparr>sch_def = giai_96, sch_id = ''giai-96'', sch_key = ''giai'', sch_keyType = KeyTypeGIAI,
     partitionOffset = 11, partitionBits = 3\<rparr>"

definition grai_scheme :: gs1_scheme where
  "grai_scheme = \<lparr>sch_def = grai_96, sch_id = ''grai-96'', sch_key = ''grai'', sch_keyType = KeyTypeGRAI,
     partitionOffset = 11, partitionBits = 3\<rparr>"

lemmas gs1_scheme_defs = sgtin_scheme_def sscc_scheme_def giai_scheme_def grai_scheme_def

lemmas newScheme_simps = newScheme_def partitionSite_def componentOrderOf_def ComponentOrder_def componentOrder_def
  componentName_def componentNames_def sameRendering_def numericCharset_def CutPrefix_def HasPrefix_def
  TrimSuffix_def HasSuffix_def upt_rec option_defs row_defs scheme_defs gs1_scheme_defs

lemma newScheme_sgtin: "newScheme sgtin_96 KeyTypeSGTIN = Inr sgtin_scheme"
  by (simp add: newScheme_simps)

lemma newScheme_sscc: "newScheme sscc_96 KeyTypeSSCC = Inr sscc_scheme"
  by (simp add: newScheme_simps)

lemma newScheme_giai: "newScheme giai_96 KeyTypeGIAI = Inr giai_scheme"
  by (simp add: newScheme_simps)

lemma newScheme_grai: "newScheme grai_96 KeyTypeGRAI = Inr grai_scheme"
  by (simp add: newScheme_simps)

lemma registry_eq: "registry = Inr [sgtin_scheme, sscc_scheme, giai_scheme, grai_scheme]"
proof -
  have "sd_Name sgtin_96 = ''SGTIN-96''" "sd_Name sscc_96 = ''SSCC-96''" "sd_Name giai_96 = ''GIAI-96''"
    "sd_Name grai_96 = ''GRAI-96''"
    by (simp_all add: scheme_defs)
  then show ?thesis
    by (simp add: registry_def Schemes_def supported_def newScheme_sgtin newScheme_sscc newScheme_giai newScheme_grai)
qed

lemma schemes_eq: "schemes = [sgtin_scheme, sscc_scheme, giai_scheme, grai_scheme]"
  by (simp add: schemes_def registry_eq)

section \<open>Facts: one field's text\<close>

text \<open>What the tables guarantee of every URI field.\<close>

definition field_ok :: "uri_field \<Rightarrow> bool" where
  "field_ok f \<longleftrightarrow>
     (if uf_Fixed f
      then unat (uf_DecimalMax f) < 10 ^ uf_Length f \<and> uf_PadChar f = CHR ''0'' \<and> uf_PadDir f = PadLeft
      else uf_Length f = 0)"

lemma charset_iff: "list_ex (\<lambda>c. c < CHR ''0'' \<or> c > CHR ''9'') text \<longleftrightarrow> \<not> list_all is_digit text"
  by (auto simp: list_ex_iff list_all_iff is_digit_def not_le)

lemma render_fixed:
  assumes "field_ok f" "v \<le> uf_DecimalMax f" "uf_Fixed f"
  shows "length (render f v) = uf_Length f" "list_all is_digit (render f v)" "decimal (render f v) = unat v"
proof -
  have v: "unat v < 10 ^ uf_Length f"
    using assms by (simp add: field_ok_def word_le_nat_alt)
  have "length (itoa (unat v)) \<le> uf_Length f" if "0 < uf_Length f"
    using length_itoa_le [OF v that] .
  then show "length (render f v) = uf_Length f" using assms(3) by (auto simp: render_def Let_def)
  show "list_all is_digit (render f v)"
    using assms itoa_digits [of "unat v"] by (auto simp: render_def Let_def field_ok_def list_all_iff)
  show "decimal (render f v) = unat v"
    using assms v by (auto simp: render_def Let_def field_ok_def)
qed

lemma parse_render:
  assumes "field_ok f" "v \<le> uf_DecimalMax f"
  shows "parseField scheme f (render f v) = Inr v"
proof (cases "uf_Fixed f")
  case True
  show ?thesis
  proof (cases "uf_Length f = 0")
    case zero: True
    with True assms have "unat v = 0" by (simp add: field_ok_def word_le_nat_alt)
    with True zero show ?thesis by (simp add: parseField_def render_def unat_eq_zero)
  next
    case False
    note R = render_fixed [OF assms True]
    from R(1) False have "render f v \<noteq> []" by auto
    moreover have "ParseUint64 (render f v) = Some v"
      using R calculation unsigned_less [of v, where ?'a = nat] by (simp add: ParseUint64_Some)
    ultimately show ?thesis
      using True False R assms(2) by (simp add: parseField_def charset_iff not_less)
  qed
next
  case False
  with assms(1) have ren: "render f v = itoa (unat v)" by (simp add: render_def field_ok_def)
  have "ParseUint64 (itoa (unat v)) = Some v"
    using ParseUint64_itoa [of "unat v"] unsigned_less [of v, where ?'a = nat] by simp
  moreover have "\<not> (length (itoa (unat v)) > 1 \<and> hd (itoa (unat v)) = CHR ''0'')"
  proof
    assume lead: "length (itoa (unat v)) > 1 \<and> hd (itoa (unat v)) = CHR ''0''"
    then obtain ds where ds: "itoa (unat v) = CHR ''0'' # ds" "ds \<noteq> []" by (cases "itoa (unat v)") auto
    then have "decimal ds = unat v"
      using decimal_itoa [of "unat v"] by (simp add: decimal_Cons digit_value_def)
    moreover have "list_all is_digit ds" using itoa_digits [of "unat v"] ds by simp
    ultimately have "unat v < 10 ^ length ds" using decimal_less by metis
    then have "length (itoa (unat v)) \<le> length ds" using ds(2) by (intro length_itoa_le) auto
    with ds show False by simp
  qed
  ultimately show ?thesis
    using False assms(2) ren itoa_digits [of "unat v"] by (auto simp: parseField_def charset_iff not_less)
qed

lemma parseField_Inr:
  "parseField scheme f s = Inr v \<longleftrightarrow>
     (if uf_Fixed f \<and> uf_Length f = 0 then s = [] \<and> v = 0
      else s \<noteq> [] \<and> list_all is_digit s \<and>
        (if uf_Fixed f then length s = uf_Length f else \<not> (1 < length s \<and> hd s = CHR ''0'')) \<and>
        ParseUint64 s = Some v \<and> v \<le> uf_DecimalMax f)"
  unfolding parseField_def charset_iff
  by (cases "ParseUint64 s") (simp_all add: not_less, auto)

lemma render_parse:
  assumes "field_ok f" "parseField scheme f s = Inr v"
  shows "render f v = s" "v \<le> uf_DecimalMax f"
proof -
  note p = assms(2) [unfolded parseField_Inr]
  from p show le: "v \<le> uf_DecimalMax f" by (auto split: if_splits)
  show "render f v = s"
  proof (cases "uf_Fixed f \<and> uf_Length f = 0")
    case True
    with p show ?thesis by (simp add: render_def)
  next
    case False
    with p have v: "unat v = decimal s" using unat_ParseUint64 by auto
    show ?thesis
    proof (cases "uf_Fixed f")
      case True
      from False p True have len: "length s = uf_Length f" "list_all is_digit s" by auto
      from render_fixed [OF assms(1) le True] len v show ?thesis
        by (intro decimal_inject) simp_all
    next
      case unfixed: False
      with p False have "itoa (decimal s) = s"
        by (intro itoa_decimal) (auto simp: not_less le_Suc_eq)
      with unfixed assms(1) v show ?thesis by (simp add: render_def field_ok_def)
    qed
  qed
qed

end
