(* ===== verification/Gs1_Codec.thy ===== *)
theory Gs1_Codec
  imports Gs1_Scheme
begin

text \<open>
  Decoding EPC tag bits into an identity and its encoding and writing an identity back, from
  \<^verbatim>\<open>decode.go\<close> and \<^verbatim>\<open>encode.go\<close> of \<^verbatim>\<open>src/internal/tdt/gs1epc\<close>. Bit lengths are Go's \<open>int\<close>;
  the products of a slice length and eight stay far below its bound.
\<close>

section \<open>Decoding\<close>

definition scheme_Decode :: "gs1_scheme \<Rightarrow> bytes \<Rightarrow> int \<Rightarrow> tdt_error + translation" where
  "scheme_Decode s bits bitLen =
     (let def = sch_def s in
      if bitLen < int (sd_TagLength def) \<or> length bits * 8 < sd_TagLength def then Inl ErrTruncated
      else let part = unat (bitsAt bits (partitionOffset s) (partitionBits s)) in
      case OptionByPartition def part of
        None \<Rightarrow> Inl ErrUnknownPartition
      | Some opt \<Rightarrow>
          if list_ex (\<lambda>l. bitsAt bits (bl_BitOffset l) (bl_BitLength l) \<noteq> bl_Value l) (BinaryLiterals opt)
          then Inl ErrReservedBits
          else bind_res (map_res (\<lambda>f.
                 let v = bitsAt bits (bf_BitOffset f) (bf_BitLength f) in
                 if v > bf_DecimalMax f
                 then Inl (Field (sch_id s) (bf_Name f) ''range'' (itoa (unat v)) ''TDS 2.2 binary field maximum'')
                 else Inr v) (BinaryFields opt)) (\<lambda>values.
               let filter' = foldl (\<lambda>acc (f, v). if bf_Name f = ''filter'' then v else acc) 0
                               (zip (BinaryFields opt) values);
                   tagFields = components (TagFields opt) values
               in case New AuthorityGS1 (sch_keyType s) (drop 1 tagFields) of
                    Inl e \<Rightarrow> Inl (FromIdentity e)
                  | Inr v \<Rightarrow>
                      let control = no_control\<lparr>FilterValue' := ucast filter', HasFilter := True,
                            Partition' := of_nat part, HasPartition := True,
                            ctl_GCPLength := int (GCPLength opt)\<rparr>;
                          encoded = take ((sd_TagLength def + 7) div 8) bits
                      in Inr \<lparr>t_Identity = v,
                              t_Encoding = NewEncoding (sch_id s) (int (sd_TagLength def)) (int (sd_TagLength def))
                                control encoded tagFields\<rparr>))"

definition gs1_Decode :: "bytes \<Rightarrow> int \<Rightarrow> tdt_error + translation" where
  "gs1_Decode bits bitLen =
     (if bitLen < 8 \<or> int (length bits * 8) < bitLen then Inl ErrTruncated
      else case byHeader (bits ! 0) of
             None \<Rightarrow> Inl ErrUnknownHeader
           | Some s \<Rightarrow> scheme_Decode s bits bitLen)"

definition optionForValue :: "gs1_scheme \<Rightarrow> ivalue \<Rightarrow> tdt_error + gs1_option" where
  "optionForValue s v =
     (case v_Component v GS1CompanyPrefix of
        None \<Rightarrow> Inl (Field (sch_id s) ''gs1companyprefix'' ''missing'' [] [])
      | Some gcp \<Rightarrow>
          (case sd_Option (sch_def s) (length (c_value gcp)) of
             None \<Rightarrow> Inl (Field (sch_id s) ''gs1companyprefix'' ''length'' (c_value gcp)
                      ''TDS 2.2 company prefix lengths 6-12'')
           | Some opt \<Rightarrow> Inr opt))"

section \<open>Encoding\<close>

record encode_params =
  ep_Scheme :: SchemeID
  ep_FilterValue :: byte

definition encode_field :: "gs1_scheme \<Rightarrow> uri_field \<Rightarrow> component \<Rightarrow> tdt_error + u64" where
  "encode_field s f c =
     (if c_name c \<noteq> componentName (uf_Name f) then Inl ErrCannotEncode
      else bind_res (parseField (sch_id s) f (c_value c)) (\<lambda>n.
        if render f n \<noteq> c_value c
        then Inl (Field (sch_id s) (uf_Name f) ''not-canonical'' (c_value c) ''TDS 2.2 field padding'')
        else Inr n))"

definition gs1_Encode :: "ivalue \<Rightarrow> encode_params \<Rightarrow> tdt_error + translation" where
  "gs1_Encode v params =
     bind_res (Lookup (ep_Scheme params)) (\<lambda>s.
     if v_authority v \<noteq> AuthorityGS1 \<or> v_keyType v \<noteq> sch_keyType s then Inl ErrCannotEncode
     else bind_res (optionForValue s v) (\<lambda>opt.
     if length (v_components v) \<noteq> length (PureFields opt) then Inl ErrCannotEncode
     else if ucast (ep_FilterValue params) > uf_DecimalMax (TagFields opt ! 0)
     then Inl (Field (sch_id s) ''filter'' ''range'' (itoa (unat (ep_FilterValue params)))
            ''TDS 2.2 filter value maximum'')
     else bind_res (map_res (\<lambda>(f, c). encode_field s f c) (zip (PureFields opt) (v_components v))) (\<lambda>ns.
     let values = ucast (ep_FilterValue params) # ns;
         bits = foldl (\<lambda>bits l. setBits bits (bl_BitOffset l) (bl_BitLength l) (bl_Value l))
           (replicate ((sd_TagLength (sch_def s) + 7) div 8) 0) (BinaryLiterals opt)
     in bind_res (fold_res (\<lambda>(f, n) bits.
            if n > bf_DecimalMax f
            then Inl (Field (sch_id s) (bf_Name f) ''range'' (itoa (unat n)) ''TDS 2.2 binary field maximum'')
            else Inr (setBits bits (bf_BitOffset f) (bf_BitLength f) n)) (zip (BinaryFields opt) values) bits) (\<lambda>bits.
        let control = no_control\<lparr>FilterValue' := ep_FilterValue params, HasFilter := True,
              Partition' := of_nat (o_Partition opt), HasPartition := True,
              ctl_GCPLength := int (GCPLength opt)\<rparr>
        in Inr \<lparr>t_Identity = v,
                t_Encoding = NewEncoding (sch_id s) (int (sd_TagLength (sch_def s)))
                  (int (sd_TagLength (sch_def s))) control bits (components (TagFields opt) values)\<rparr>))))"

section \<open>Facts: what the tables guarantee\<close>

definition sites_of :: "gs1_option \<Rightarrow> (nat \<times> nat) list" where
  "sites_of opt = map (\<lambda>l. (bl_BitOffset l, bl_BitLength l)) (BinaryLiterals opt) @
     map (\<lambda>f. (bf_BitOffset f, bf_BitLength f)) (BinaryFields opt)"

definition option_ok :: "gs1_scheme \<Rightarrow> gs1_option \<Rightarrow> bool" where
  "option_ok s opt \<longleftrightarrow>
     list_all (\<lambda>site. snd site \<le> 64) (sites_of opt) \<and> contiguous 0 (sort_key fst (sites_of opt)) 96 \<and>
     (0, 8, sd_Header (sch_def s)) \<in> set (map (\<lambda>l. (bl_BitOffset l, bl_BitLength l, bl_Value l)) (BinaryLiterals opt)) \<and>
     (11, 3, of_nat (o_Partition opt)) \<in> set (map (\<lambda>l. (bl_BitOffset l, bl_BitLength l, bl_Value l)) (BinaryLiterals opt)) \<and>
     o_Partition opt < 8 \<and>
     list_all (\<lambda>l. unat (bl_Value l) < 2 ^ bl_BitLength l) (BinaryLiterals opt) \<and>
     list_all (\<lambda>f. 0 < bf_BitLength f \<and> unat (bf_DecimalMax f) < 2 ^ bf_BitLength f) (BinaryFields opt) \<and>
     map bf_Name (BinaryFields opt) = map uf_Name (TagFields opt) \<and>
     map bf_DecimalMax (BinaryFields opt) = map uf_DecimalMax (TagFields opt) \<and>
     list_all field_ok (TagFields opt) \<and> list_all field_ok (PureFields opt) \<and>
     length (TagFields opt) = Suc (length (PureFields opt)) \<and>
     list_all2 sameRendering (tl (TagFields opt)) (PureFields opt) \<and>
     list_all2 (\<lambda>t p. uf_DecimalMax t \<le> uf_DecimalMax p) (tl (TagFields opt)) (PureFields opt) \<and>
     map (\<lambda>f. componentName (uf_Name f)) (PureFields opt) = ComponentOrder (sch_keyType s) \<and>
     (case TagFields opt of f # g # _ \<Rightarrow>
        uf_Name f = ''filter'' \<and> uf_DecimalMax f = 7 \<and> uf_Name g = ''gs1companyprefix'' \<and>
        uf_Fixed g \<and> uf_Length g = GCPLength opt \<and> 0 < GCPLength opt \<and>
        list_all (\<lambda>h. uf_Name h \<noteq> ''filter'') (PureFields opt)
      | _ \<Rightarrow> False)"

definition scheme_ok :: "gs1_scheme \<Rightarrow> bool" where
  "scheme_ok s \<longleftrightarrow>
     sd_TagLength (sch_def s) = 96 \<and> sd_HeaderBits (sch_def s) = 8 \<and> unat (sd_Header (sch_def s)) < 256 \<and>
     partitionOffset s = 11 \<and> partitionBits s = 3 \<and> sch_id s \<noteq> [] \<and>
     sd_TagURIPrefix (sch_def s) = ''urn:epc:tag:'' @ sch_id s @ '':'' \<and>
     sd_PureURIPrefix (sch_def s) = ''urn:epc:id:'' @ sch_key s @ '':'' \<and>
     CHR '':'' \<notin> set (sch_id s) \<and> CHR '':'' \<notin> set (sch_key s) \<and>
     componentOrder (sch_keyType s) \<noteq> None \<and>
     distinct (map o_Partition (sd_Options (sch_def s))) \<and> distinct (map GCPLength (sd_Options (sch_def s))) \<and>
     sd_Options (sch_def s) \<noteq> [] \<and>
     list_all (option_ok s) (sd_Options (sch_def s))"

lemmas option_ok_simps = option_ok_def option_defs row_defs sites_of_def field_ok_def sameRendering_def
  componentName_def componentNames_def ComponentOrder_def componentOrder_def word_le_nat_alt

lemma sgtin_ok: "scheme_ok sgtin_scheme"
  by (simp add: scheme_ok_def scheme_defs gs1_scheme_defs option_ok_simps)

lemma sscc_ok: "scheme_ok sscc_scheme"
  by (simp add: scheme_ok_def scheme_defs gs1_scheme_defs option_ok_simps)

lemma giai_ok: "scheme_ok giai_scheme"
  by (simp add: scheme_ok_def scheme_defs gs1_scheme_defs option_ok_simps)

lemma grai_ok: "scheme_ok grai_scheme"
  by (simp add: scheme_ok_def scheme_defs gs1_scheme_defs option_ok_simps)

lemma schemes_ok: "s \<in> set schemes \<Longrightarrow> scheme_ok s"
  by (auto simp: schemes_eq sgtin_ok sscc_ok giai_ok grai_ok)

lemma byHeader_iff: "byHeader h = Some s \<longleftrightarrow> s \<in> set schemes \<and> ucast (sd_Header (sch_def s)) = h"
  unfolding byHeader_def
  by (rule find_rev_key_iff) (simp add: schemes_eq gs1_scheme_defs scheme_defs)

lemma byID_iff: "byID i = Some s \<longleftrightarrow> s \<in> set schemes \<and> sch_id s = i"
  unfolding byID_def by (rule find_rev_key_iff) (simp add: schemes_eq gs1_scheme_defs)

lemma byKey_iff: "byKey k = Some s \<longleftrightarrow> s \<in> set schemes \<and> sch_key s = k"
  unfolding byKey_def by (rule find_rev_key_iff) (simp add: schemes_eq gs1_scheme_defs)

lemma Lookup_iff: "Lookup i = Inr s \<longleftrightarrow> s \<in> set schemes \<and> sch_id s = i"
  by (auto simp: Lookup_def byID_iff [symmetric] split: option.splits)

lemma option_okD:
  assumes "scheme_ok s" "opt \<in> set (sd_Options (sch_def s))"
  shows "option_ok s opt"
  using assms by (simp add: scheme_ok_def list_all_iff)

lemma OptionByPartition_iff:
  "scheme_ok s \<Longrightarrow> OptionByPartition (sch_def s) part = Some opt \<longleftrightarrow>
     opt \<in> set (sd_Options (sch_def s)) \<and> o_Partition opt = part"
  unfolding OptionByPartition_def by (rule find_key_iff) (simp add: scheme_ok_def)

lemma sd_Option_iff:
  "scheme_ok s \<Longrightarrow> sd_Option (sch_def s) n = Some opt \<longleftrightarrow> opt \<in> set (sd_Options (sch_def s)) \<and> GCPLength opt = n"
  unfolding sd_Option_def by (rule find_key_iff) (simp add: scheme_ok_def)

section \<open>Facts: the canonical translation of a vector of values\<close>

definition lit_sites :: "gs1_option \<Rightarrow> site list" where
  "lit_sites opt = map (\<lambda>l. (bl_BitOffset l, bl_BitLength l, bl_Value l)) (BinaryLiterals opt)"

definition field_sites :: "gs1_option \<Rightarrow> u64 list \<Rightarrow> site list" where
  "field_sites opt vs = map2 (\<lambda>f v. (bf_BitOffset f, bf_BitLength f, v)) (BinaryFields opt) vs"

definition values_ok :: "gs1_option \<Rightarrow> u64 list \<Rightarrow> bool" where
  "values_ok opt vs \<longleftrightarrow> list_all2 (\<lambda>f v. v \<le> bf_DecimalMax f) (BinaryFields opt) vs"

definition gs1_bits :: "gs1_option \<Rightarrow> u64 list \<Rightarrow> bytes" where
  "gs1_bits opt vs = writeFields (lit_sites opt @ field_sites opt vs) (replicate 12 0)"

definition gs1_identity :: "gs1_scheme \<Rightarrow> gs1_option \<Rightarrow> u64 list \<Rightarrow> ivalue" where
  "gs1_identity s opt vs = \<lparr>v_authority = AuthorityGS1, v_keyType = sch_keyType s,
     v_components = components (PureFields opt) (tl vs)\<rparr>"

definition gs1_translation :: "gs1_scheme \<Rightarrow> gs1_option \<Rightarrow> u64 list \<Rightarrow> translation" where
  "gs1_translation s opt vs = \<lparr>t_Identity = gs1_identity s opt vs,
     t_Encoding = NewEncoding (sch_id s) 96 96
       (no_control\<lparr>FilterValue' := ucast (hd vs), HasFilter := True, Partition' := of_nat (o_Partition opt),
          HasPartition := True, ctl_GCPLength := int (GCPLength opt)\<rparr>)
       (gs1_bits opt vs) (components (TagFields opt) vs)\<rparr>"

lemma render_cong: "sameRendering a b \<Longrightarrow> render a v = render b v"
  by (simp add: sameRendering_def render_def Let_def)

lemma components_cong:
  "list_all2 sameRendering fs gs \<Longrightarrow> components fs vs = components gs vs"
proof (induction fs gs arbitrary: vs rule: list_all2_induct)
  case (Cons f fs g gs)
  have "uf_Name f = uf_Name g" using Cons.hyps by (simp add: sameRendering_def)
  with Cons show ?case by (cases vs) (simp_all add: components_def render_cong [OF Cons.hyps(1)])
qed (simp add: components_def)

end
