(* ===== verification/Gs1_Roundtrip.thy ===== *)
theory Gs1_Roundtrip
  imports Gs1_Codec "HOL-Library.Code_Target_Nat"
begin

text \<open>
  The codec of \<open>Gs1_Codec\<close> characterised: a decode and an encode succeed with exactly the
  canonical translations of the vectors of values an option allows, so the two are inverse.
\<close>

section \<open>Facts: options\<close>

lemma option_tiling:
  assumes "option_ok s opt" "values_ok opt vs"
  shows "tiling (map place (lit_sites opt @ field_sites opt vs)) (8 * 12)"
proof -
  have "tiling (sites_of opt) 96"
    using assms(1) by (intro contiguous_tiling) (simp_all add: option_ok_def)
  moreover have "map place (field_sites opt vs) = map (\<lambda>f. (bf_BitOffset f, bf_BitLength f)) (BinaryFields opt)"
    using assms(2) by (simp add: values_ok_def field_sites_def list_eq_iff_nth_eq place_def list_all2_lengthD)
  then have "map place (lit_sites opt @ field_sites opt vs) = sites_of opt"
    by (simp add: lit_sites_def sites_of_def place_def comp_def)
  ultimately show ?thesis by simp
qed

lemma tag_fields_tail:
  assumes "option_ok s opt"
  shows "drop 1 (components (TagFields opt) vs) = components (PureFields opt) (tl vs)"
proof -
  have "drop 1 (components (TagFields opt) vs) = components (tl (TagFields opt)) (tl vs)"
    by (cases "TagFields opt"; cases vs) (simp_all add: components_def)
  also have "\<dots> = components (PureFields opt) (tl vs)"
    using assms by (intro components_cong) (simp add: option_ok_def)
  finally show ?thesis .
qed

lemma component_names:
  "length vs = length fs \<Longrightarrow> map c_name (components fs vs) = map (\<lambda>f. componentName (uf_Name f)) fs"
  by (simp add: components_def list_eq_iff_nth_eq)

lemma field_names:
  assumes "option_ok s opt" 
  obtains f fs where "BinaryFields opt = f # fs" "bf_Name f = ''filter''" "bf_DecimalMax f = 7"
    "list_all (\<lambda>g. bf_Name g \<noteq> ''filter'') fs" "length fs = length (PureFields opt)"
proof -
  have names: "map bf_Name (BinaryFields opt) = map uf_Name (TagFields opt)"
    "map bf_DecimalMax (BinaryFields opt) = map uf_DecimalMax (TagFields opt)"
    "list_all2 sameRendering (tl (TagFields opt)) (PureFields opt)"
    "list_all (\<lambda>h. uf_Name h \<noteq> ''filter'') (PureFields opt)"
    using assms by (auto simp: option_ok_def split: list.splits)
  obtain t ts where t: "TagFields opt = t # ts" "uf_Name t = ''filter''" "uf_DecimalMax t = 7"
    using assms by (auto simp: option_ok_def split: list.splits)
  then obtain f fs where f: "BinaryFields opt = f # fs" "bf_Name f = ''filter''" "bf_DecimalMax f = 7"
    "map bf_Name fs = map uf_Name ts"
    using names(1,2) by (cases "BinaryFields opt") auto
  have "map uf_Name ts = map uf_Name (PureFields opt)"
    using names(3) t(1) by (auto simp: sameRendering_def list_eq_iff_nth_eq list_all2_conv_all_nth)
  with f(4) have "map bf_Name fs = map uf_Name (PureFields opt)" by simp
  then have "list_all (\<lambda>g. bf_Name g \<noteq> ''filter'') fs" "length fs = length (PureFields opt)"
    using names(4) by (auto simp: list_all_length dest: map_eq_imp_length_eq)
      (metis length_map nth_map)
  with f that show thesis by blast
qed

lemma bitsAt_take:
  assumes "offset + n \<le> 8 * k" "n \<le> 64" "k \<le> length bits"
  shows "bitsAt (take k bits) offset n = bitsAt bits offset n"
  using assms by (intro bitsAt_cong) (simp_all add: tag_bit_def less_mult_imp_div_less mult.commute)

lemma value_fits:
  assumes "option_ok s opt" "values_ok opt vs" "(offset, n, v) \<in> set (lit_sites opt @ field_sites opt vs)" "n \<le> j"
  shows "\<not> bit v j"
proof -
  have "unat v < 2 ^ n"
  proof (cases "(offset, n, v) \<in> set (lit_sites opt)")
    case True
    with assms(1) show ?thesis by (auto simp: lit_sites_def option_ok_def list_all_iff)
  next
    case False
    with assms(3) obtain f where f: "(f, v) \<in> set (zip (BinaryFields opt) vs)" "n = bf_BitLength f"
      by (auto simp: field_sites_def)
    then have "f \<in> set (BinaryFields opt)" by (auto dest: set_zip_leftD)
    then have "unat (bf_DecimalMax f) < 2 ^ n" using assms(1) f(2) by (simp add: option_ok_def list_all_iff)
    moreover have "v \<le> bf_DecimalMax f" using assms(2) f(1) by (auto simp: values_ok_def list_all2_iff)
    ultimately show ?thesis by (simp add: word_le_nat_alt)
  qed
  then have "unat v < 2 ^ j" using assms(4) by (meson order_less_le_trans one_le_numeral power_increasing)
  then have "drop_bit j v = 0"
    by (metis div_less drop_bit_eq_div unat_drop_bit_eq unsigned_0 word_unat_eq_iff)
  then show ?thesis by (simp add: bit_iff_odd_drop_bit)
qed

lemma field_reads_back:
  assumes "option_ok s opt" "values_ok opt vs" "(offset, n, v) \<in> set (lit_sites opt @ field_sites opt vs)"
    "take 12 bits = gs1_bits opt vs" "12 \<le> length bits"
  shows "bitsAt bits offset n = v"
proof -
  note til = option_tiling [OF assms(1,2)]
  have "bitsAt (take 12 bits) offset n = v"
    unfolding assms(4) gs1_bits_def
    by (rule bitsAt_writeFields [OF til assms(3)]) (use value_fits [OF assms(1-3)] in blast)
  with tiling_sites [OF til assms(3)] assms(5) show ?thesis by (simp add: bitsAt_take)
qed

definition field_values :: "gs1_option \<Rightarrow> bytes \<Rightarrow> u64 list" where
  "field_values opt bits = map (\<lambda>f. bitsAt bits (bf_BitOffset f) (bf_BitLength f)) (BinaryFields opt)"

definition lits_match :: "gs1_option \<Rightarrow> bytes \<Rightarrow> bool" where
  "lits_match opt bits \<longleftrightarrow> list_all (\<lambda>l. bitsAt bits (bl_BitOffset l) (bl_BitLength l) = bl_Value l) (BinaryLiterals opt)"

lemma tag_matches_iff:
  assumes "option_ok s opt" "12 \<le> length bits"
  shows "lits_match opt bits \<and> values_ok opt vs \<and> vs = field_values opt bits \<longleftrightarrow>
    values_ok opt vs \<and> take 12 bits = gs1_bits opt vs"
proof (intro iffI conjI)
  assume *: "lits_match opt bits \<and> values_ok opt vs \<and> vs = field_values opt bits"
  then have vals: "values_ok opt vs" by blast
  from * have "\<forall>(offset, n, v) \<in> set (lit_sites opt @ field_sites opt vs). bitsAt bits offset n = v"
    by (auto simp: lit_sites_def field_sites_def lits_match_def field_values_def list_all_iff zip_map2 zip_same_conv_map)
  with * show "take 12 bits = gs1_bits opt vs"
    using writeFields_bitsAt [OF option_tiling [OF assms(1) vals], of bits] assms(2)
    by (simp add: gs1_bits_def)
next
  assume *: "values_ok opt vs \<and> take 12 bits = gs1_bits opt vs"
  note reads = field_reads_back [OF assms(1) _ _ _ assms(2), of vs]
  show "lits_match opt bits"
    using * by (auto simp: lits_match_def list_all_iff lit_sites_def intro: reads)
  have "bitsAt bits (bf_BitOffset f) (bf_BitLength f) = v" if "(f, v) \<in> set (zip (BinaryFields opt) vs)" for f v
    using * that by (auto simp: field_sites_def intro!: reads)
  moreover have "length (BinaryFields opt) = length vs" using * by (auto simp: values_ok_def dest: list_all2_lengthD)
  ultimately show "vs = field_values opt bits"
    by (force simp: field_values_def set_zip intro: nth_equalityI)
qed auto

lemma filter_value:
  assumes "option_ok s opt" "values_ok opt vs"
  shows "foldl (\<lambda>acc (f, v). if bf_Name f = ''filter'' then v else acc) 0 (zip (BinaryFields opt) vs) = hd vs"
proof -
  obtain f fs where f: "BinaryFields opt = f # fs" "bf_Name f = ''filter''"
    "list_all (\<lambda>g. bf_Name g \<noteq> ''filter'') fs"
    using field_names [OF assms(1)] by metis
  obtain v ws where v: "vs = v # ws" using assms(2) f(1) by (auto simp: values_ok_def list_all2_Cons1)
  have "foldl (\<lambda>acc (f, v). if bf_Name f = ''filter'' then v else acc) v (zip fs ws) = v"
    using f(3) by (induction fs arbitrary: ws) (auto simp: zip_Cons1 split: list.splits)
  then show ?thesis by (simp add: f v)
qed

section \<open>Facts: decoding\<close>

lemma values_ok_nat:
  "values_ok opt vs \<Longrightarrow> length vs = length (BinaryFields opt)"
  by (auto simp: values_ok_def dest: list_all2_lengthD)

lemma read_fields:
  "map_res (\<lambda>f. if bf_DecimalMax f < bitsAt bits (bf_BitOffset f) (bf_BitLength f) then Inl (e f)
      else Inr (bitsAt bits (bf_BitOffset f) (bf_BitLength f))) (BinaryFields opt) = Inr vs \<longleftrightarrow>
   values_ok opt vs \<and> vs = field_values opt bits"
proof -
  have "map_res (\<lambda>f. if bf_DecimalMax f < bitsAt bits (bf_BitOffset f) (bf_BitLength f) then Inl (e f)
      else Inr (bitsAt bits (bf_BitOffset f) (bf_BitLength f))) (BinaryFields opt) = Inr vs \<longleftrightarrow>
    list_all (\<lambda>f. \<not> bf_DecimalMax f < bitsAt bits (bf_BitOffset f) (bf_BitLength f)) (BinaryFields opt) \<and>
    vs = field_values opt bits"
    unfolding field_values_def by (rule map_res_guard)
  also have "\<dots> \<longleftrightarrow> values_ok opt vs \<and> vs = field_values opt bits"
    by (auto simp: values_ok_def field_values_def list_all2_conv_all_nth list_all_length not_less)
  finally show ?thesis .
qed

lemma identity_New:
  assumes "scheme_ok s" "opt \<in> set (sd_Options (sch_def s))" "values_ok opt vs"
  shows "New AuthorityGS1 (sch_keyType s) (drop (Suc 0) (components (TagFields opt) vs)) = Inr (gs1_identity s opt vs)"
proof -
  have ok: "option_ok s opt" using assms by (intro option_okD)
  obtain f fs where "BinaryFields opt = f # fs" "length fs = length (PureFields opt)"
    using field_names [OF ok] by metis
  then have "length (tl vs) = length (PureFields opt)" using values_ok_nat [OF assms(3)] by simp
  then have "map c_name (components (PureFields opt) (tl vs)) = ComponentOrder (sch_keyType s)"
    using ok by (simp add: component_names option_ok_def)
  moreover have "componentOrder (sch_keyType s) = Some (ComponentOrder (sch_keyType s))"
    using assms(1) by (auto simp: scheme_ok_def ComponentOrder_def)
  ultimately show ?thesis using tag_fields_tail [OF ok, of vs] by (simp add: New_Inr gs1_identity_def)
qed

lemma partition_reads:
  assumes "scheme_ok s" "option_ok s opt" "lits_match opt bits"
  shows "unat (bitsAt bits (partitionOffset s) (partitionBits s)) = o_Partition opt"
proof -
  have "(11, 3, of_nat (o_Partition opt)) \<in> set (map (\<lambda>l. (bl_BitOffset l, bl_BitLength l, bl_Value l)) (BinaryLiterals opt))"
    "o_Partition opt < 8" using assms(2) by (simp_all add: option_ok_def)
  then have "bitsAt bits 11 3 = of_nat (o_Partition opt)"
    using assms(3) by (force simp: lits_match_def list_all_iff)
  with \<open>o_Partition opt < 8\<close> assms(1) show ?thesis by (simp add: scheme_ok_def unat_of_nat_small)
qed

lemma scheme_Decode_iff:
  assumes "scheme_ok s"
  shows "scheme_Decode s bits n = Inr t \<longleftrightarrow> 96 \<le> n \<and> 12 \<le> length bits \<and>
    (\<exists>opt \<in> set (sd_Options (sch_def s)). \<exists>vs. values_ok opt vs \<and> take 12 bits = gs1_bits opt vs \<and>
       t = gs1_translation s opt vs)"
proof -
  have len: "sd_TagLength (sch_def s) = 96" using assms by (simp add: scheme_ok_def)
  let ?part = "unat (bitsAt bits (partitionOffset s) (partitionBits s))"
  have body: "scheme_Decode s bits n = Inr t \<longleftrightarrow> 96 \<le> n \<and> 12 \<le> length bits \<and>
     (\<exists>opt \<in> set (sd_Options (sch_def s)). o_Partition opt = ?part \<and> lits_match opt bits \<and>
       (\<exists>vs. values_ok opt vs \<and> vs = field_values opt bits \<and>
          t = (gs1_translation s opt vs)\<lparr>t_Encoding := (t_Encoding (gs1_translation s opt vs))\<lparr>enc_bits := take 12 bits\<rparr>\<rparr>))"
    (is "_ \<longleftrightarrow> ?rhs")
  proof (cases "96 \<le> n \<and> 12 \<le> length bits")
    case True
    show ?thesis
    proof (cases "OptionByPartition (sch_def s) ?part")
      case None
      then have "\<forall>opt \<in> set (sd_Options (sch_def s)). o_Partition opt \<noteq> ?part"
        using OptionByPartition_iff [OF assms, of ?part] by force
      with None True show ?thesis by (auto simp: scheme_Decode_def Let_def len)
    next
      case (Some opt)
      then have opt: "opt \<in> set (sd_Options (sch_def s))" "o_Partition opt = ?part"
        using OptionByPartition_iff [OF assms] by auto
      have uniq: "opt' = opt" if "opt' \<in> set (sd_Options (sch_def s))" "o_Partition opt' = ?part" for opt'
        using OptionByPartition_iff [OF assms, of ?part opt'] that Some by simp
      have "scheme_Decode s bits n = Inr t \<longleftrightarrow> lits_match opt bits \<and>
        (\<exists>vs. values_ok opt vs \<and> vs = field_values opt bits \<and>
          t = (gs1_translation s opt vs)\<lparr>t_Encoding := (t_Encoding (gs1_translation s opt vs))\<lparr>enc_bits := take 12 bits\<rparr>\<rparr>)"
        using True Some
        by (simp add: scheme_Decode_def len lits_match_def list_all_iff list_ex_iff read_fields Let_def
            identity_New [OF assms opt(1)] filter_value [OF option_okD [OF assms opt(1)]]
            gs1_translation_def NewEncoding_def opt(2) cong: conj_cong) auto
      then show ?thesis using True opt uniq by blast
    qed
  next
    case False
    then show ?thesis by (auto simp: scheme_Decode_def len)
  qed
  show ?thesis
  proof (cases "12 \<le> length bits")
    case True
    have "o_Partition opt = ?part \<and> lits_match opt bits \<and>
       (\<exists>vs. values_ok opt vs \<and> vs = field_values opt bits \<and>
          t = (gs1_translation s opt vs)\<lparr>t_Encoding := (t_Encoding (gs1_translation s opt vs))\<lparr>enc_bits := take 12 bits\<rparr>\<rparr>)
       \<longleftrightarrow> (\<exists>vs. values_ok opt vs \<and> take 12 bits = gs1_bits opt vs \<and> t = gs1_translation s opt vs)"
      if "opt \<in> set (sd_Options (sch_def s))" for opt
    proof -
      note ok = option_okD [OF assms that]
      have same: "(gs1_translation s opt vs)\<lparr>t_Encoding := (t_Encoding (gs1_translation s opt vs))\<lparr>enc_bits := gs1_bits opt vs\<rparr>\<rparr>
        = gs1_translation s opt vs" for vs
        by (simp add: gs1_translation_def NewEncoding_def)
      show ?thesis
        using tag_matches_iff [OF ok True] partition_reads [OF assms ok, of bits] same by metis
    qed
    with body show ?thesis by auto
  qed (use body in auto)
qed

lemma length_gs1_bits [simp]: "length (gs1_bits opt vs) = 12"
  by (simp add: gs1_bits_def)

section \<open>Facts: encoding\<close>

lemma write_fields:
  "fold_res (\<lambda>(f, n) bits. if n > bf_DecimalMax f then Inl (e f n)
      else Inr (setBits bits (bf_BitOffset f) (bf_BitLength f) n)) (zip fs vs) bits = Inr b \<longleftrightarrow>
   list_all (\<lambda>(f, v). v \<le> bf_DecimalMax f) (zip fs vs) \<and>
   b = writeFields (map2 (\<lambda>f v. (bf_BitOffset f, bf_BitLength f, v)) fs vs) bits"
proof (induction fs arbitrary: vs bits)
  case (Cons f fs)
  show ?case by (cases vs) (auto simp: Cons.IH writeFields_def not_less)
qed (auto simp: writeFields_def)

lemma write_literals:
  "foldl (\<lambda>bits l. setBits bits (bl_BitOffset l) (bl_BitLength l) (bl_Value l)) bits ls =
   writeFields (map (\<lambda>l. (bl_BitOffset l, bl_BitLength l, bl_Value l)) ls) bits"
  by (induction ls arbitrary: bits) (simp_all add: writeFields_def)

lemma encode_fields:
  assumes "list_all field_ok fs" "length cs = length fs"
  shows "map_res (\<lambda>(f, c). encode_field s f c) (zip fs cs) = Inr ns \<longleftrightarrow>
    list_all2 (\<lambda>f n. n \<le> uf_DecimalMax f) fs ns \<and> cs = components fs ns"
  using assms(2,1)
proof (induction cs fs arbitrary: ns rule: list_induct2)
  case (Cons c cs f fs)
  have one: "encode_field s f c = Inr n \<longleftrightarrow>
      n \<le> uf_DecimalMax f \<and> c = \<lparr>c_name = componentName (uf_Name f), c_value = render f n\<rparr>" for n
    using Cons.prems render_parse [of f "sch_id s" "c_value c" n] parse_render [of f n "sch_id s"]
    by (cases c) (auto simp: encode_field_def)
  show ?case using Cons.IH Cons.prems
    by (cases ns) (auto simp: one components_def)
qed (auto simp: components_def)

lemma company_prefix:
  assumes "option_ok s opt" "values_ok opt vs"
  obtains c where "v_Component (gs1_identity s opt vs) GS1CompanyPrefix = Some c" "length (c_value c) = GCPLength opt"
proof -
  obtain f g fs where tag: "TagFields opt = f # g # fs" "uf_Name g = ''gs1companyprefix''" "uf_Fixed g"
    "uf_Length g = GCPLength opt" "field_ok g"
    using assms(1) by (auto simp: option_ok_def split: list.splits)
  have maxes: "map bf_DecimalMax (BinaryFields opt) = map uf_DecimalMax (TagFields opt)"
    "list_all2 sameRendering (tl (TagFields opt)) (PureFields opt)"
    using assms(1) by (simp_all add: option_ok_def)
  then obtain p ps where p: "PureFields opt = p # ps" "sameRendering g p"
    using tag(1) by (auto simp: list_all2_Cons1)
  obtain b b' bs where b: "BinaryFields opt = b # b' # bs" "bf_DecimalMax b' = uf_DecimalMax g"
    using maxes(1) tag(1) by auto
  then obtain v v' ws where v: "vs = v # v' # ws" "v' \<le> uf_DecimalMax g"
    using assms(2) by (auto simp: values_ok_def list_all2_Cons1)
  have "render p v' = render g v'" using render_cong [OF p(2)] by simp
  moreover have "length (render g v') = GCPLength opt"
    using render_fixed(1) [OF tag(5) v(2) tag(3)] tag(4) by simp
  moreover have "componentName (uf_Name p) = GS1CompanyPrefix"
    using p(2) tag(2) by (simp add: sameRendering_def componentName_def componentNames_def)
  ultimately show thesis
    by (intro that [of "\<lparr>c_name = GS1CompanyPrefix, c_value = render p v'\<rparr>"])
      (simp_all add: v_Component_def gs1_identity_def components_def p(1) v(1))
qed

lemma optionForValue_iff:
  assumes "scheme_ok s" "opt \<in> set (sd_Options (sch_def s))" "values_ok opt vs"
  shows "optionForValue s (gs1_identity s opt vs) = Inr opt"
proof -
  obtain c where "v_Component (gs1_identity s opt vs) GS1CompanyPrefix = Some c" "length (c_value c) = GCPLength opt"
    using company_prefix [OF option_okD [OF assms(1,2)] assms(3)] by blast
  moreover have "sd_Option (sch_def s) (GCPLength opt) = Some opt"
    using assms by (simp add: sd_Option_iff)
  ultimately show ?thesis by (simp add: optionForValue_def)
qed

lemma optionForValue_Inr:
  "scheme_ok s \<Longrightarrow> optionForValue s v = Inr opt \<Longrightarrow> opt \<in> set (sd_Options (sch_def s))"
  by (auto simp: optionForValue_def sd_Option_iff split: option.splits)

lemma pure_values:
  assumes "option_ok s opt" "values_ok opt vs"
  shows "list_all2 (\<lambda>f n. n \<le> uf_DecimalMax f) (PureFields opt) (tl vs)"
proof -
  have opt: "map bf_DecimalMax (BinaryFields opt) = map uf_DecimalMax (TagFields opt)"
    "list_all2 (\<lambda>t p. uf_DecimalMax t \<le> uf_DecimalMax p) (tl (TagFields opt)) (PureFields opt)"
    using assms(1) by (simp_all add: option_ok_def)
  have "list_all2 (\<lambda>x v. v \<le> x) (map bf_DecimalMax (BinaryFields opt)) vs"
    using assms(2) by (simp add: values_ok_def list.rel_map)
  then have "list_all2 (\<lambda>t v. v \<le> uf_DecimalMax t) (TagFields opt) vs"
    by (simp add: opt(1) list.rel_map)
  then have "list_all2 (\<lambda>t v. v \<le> uf_DecimalMax t) (tl (TagFields opt)) (tl vs)"
    by (cases "TagFields opt"; cases vs) auto
  with opt(2) show ?thesis by (fastforce simp: list_all2_conv_all_nth intro: order_trans)
qed

lemma write_tag:
  "fold_res (\<lambda>(f, n) bits. if n > bf_DecimalMax f then Inl (e f n)
      else Inr (setBits bits (bf_BitOffset f) (bf_BitLength f) n)) (zip (BinaryFields opt) vs)
     (writeFields (lit_sites opt) (replicate 12 0)) = Inr b \<and> length vs = length (BinaryFields opt) \<longleftrightarrow>
   values_ok opt vs \<and> b = gs1_bits opt vs"
proof -
  have "writeFields (map2 (\<lambda>f v. (bf_BitOffset f, bf_BitLength f, v)) (BinaryFields opt) vs)
      (writeFields (lit_sites opt) (replicate 12 0)) = gs1_bits opt vs"
    by (simp add: gs1_bits_def writeFields_def field_sites_def)
  then show ?thesis
    by (auto simp: write_fields values_ok_def list_all2_iff list_all_iff)
qed

lemma filter_byte: "ucast (ucast (b :: byte) :: u64) = b"
  by (simp add: ucast_up_ucast_id is_up)

lemma filter_maximum:
  assumes "option_ok s opt"
  shows "uf_DecimalMax (TagFields opt ! 0) = 7"
  using assms by (auto simp: option_ok_def split: list.splits)

lemma binary_count:
  assumes "option_ok s opt"
  shows "length (BinaryFields opt) = Suc (length (PureFields opt))"
  using field_names [OF assms] by (metis length_Cons)

lemma gs1_Encode_body:
  assumes "scheme_ok s" "opt \<in> set (sd_Options (sch_def s))" "optionForValue s v = Inr opt" "Lookup (ep_Scheme p) = Inr s"
  shows "gs1_Encode v p = Inr t \<longleftrightarrow>
    (\<exists>ns. values_ok opt (ucast (ep_FilterValue p) # ns) \<and> v = gs1_identity s opt (ucast (ep_FilterValue p) # ns) \<and>
      t = gs1_translation s opt (ucast (ep_FilterValue p) # ns))"
    (is "_ \<longleftrightarrow> (\<exists>ns. ?ok ns)")
proof -
  note ok = option_okD [OF assms(1,2)]
  have len: "sd_TagLength (sch_def s) = 96" and fields: "list_all field_ok (PureFields opt)"
    using assms(1) ok by (simp_all add: scheme_ok_def option_ok_def)
  let ?fv = "ucast (ep_FilterValue p) :: u64"
  have "gs1_Encode v p = Inr t \<longleftrightarrow> v_authority v = AuthorityGS1 \<and> v_keyType v = sch_keyType s \<and>
      length (v_components v) = length (PureFields opt) \<and> ?fv \<le> 7 \<and>
      (\<exists>ns. map_res (\<lambda>(f, c). encode_field s f c) (zip (PureFields opt) (v_components v)) = Inr ns \<and>
        (\<exists>b. fold_res (\<lambda>(f, n) bits. if n > bf_DecimalMax f
               then Inl (Field (sch_id s) (bf_Name f) ''range'' (itoa (unat n)) ''TDS 2.2 binary field maximum'')
               else Inr (setBits bits (bf_BitOffset f) (bf_BitLength f) n)) (zip (BinaryFields opt) (?fv # ns))
             (writeFields (lit_sites opt) (replicate 12 0)) = Inr b \<and>
          t = (gs1_translation s opt (?fv # ns))\<lparr>t_Identity := v,
               t_Encoding := (t_Encoding (gs1_translation s opt (?fv # ns)))\<lparr>enc_bits := b\<rparr>\<rparr>))"
    (is "_ \<longleftrightarrow> ?mid")
    using assms by (auto simp: gs1_Encode_def filter_maximum [OF ok] len Let_def write_literals lit_sites_def
        gs1_translation_def NewEncoding_def not_less filter_byte)
  also have "\<dots> \<longleftrightarrow> (\<exists>ns. ?ok ns)"
  proof
    assume "\<exists>ns. ?ok ns"
    then obtain ns where ns: "values_ok opt (?fv # ns)" "v = gs1_identity s opt (?fv # ns)"
      "t = gs1_translation s opt (?fv # ns)" by blast
    have pure: "list_all2 (\<lambda>f n. n \<le> uf_DecimalMax f) (PureFields opt) ns"
      using pure_values [OF ok ns(1)] by simp
    then have n: "length ns = length (PureFields opt)" by (auto dest: list_all2_lengthD)
    then have cs: "length (v_components v) = length (PureFields opt)"
      using ns(2) by (simp add: gs1_identity_def components_def)
    obtain f fs where "BinaryFields opt = f # fs" "bf_DecimalMax f = 7" using field_names [OF ok] by metis
    then have "?fv \<le> 7" using ns(1) by (simp add: values_ok_def)
    moreover have "map_res (\<lambda>(f, c). encode_field s f c) (zip (PureFields opt) (v_components v)) = Inr ns"
      using pure ns(2) encode_fields [OF fields cs] by (simp add: gs1_identity_def)
    moreover note written = write_tag [THEN iffD2, OF conjI [OF ns(1) refl], THEN conjunct1]
    moreover have t': "gs1_translation s opt (?fv # ns) = (gs1_translation s opt (?fv # ns))\<lparr>t_Identity := v,
        t_Encoding := (t_Encoding (gs1_translation s opt (?fv # ns)))\<lparr>enc_bits := gs1_bits opt (?fv # ns)\<rparr>\<rparr>"
      using ns(2) by (simp add: gs1_translation_def NewEncoding_def)
    ultimately show ?mid
      using cs ns(2,3) t' by (auto simp: gs1_identity_def written intro!: exI [of _ ns] exI [of _ "gs1_bits opt (?fv # ns)"])
  next
    assume ?mid
    then obtain ns b where v: "v_authority v = AuthorityGS1" "v_keyType v = sch_keyType s"
        "length (v_components v) = length (PureFields opt)"
      and enc: "map_res (\<lambda>(f, c). encode_field s f c) (zip (PureFields opt) (v_components v)) = Inr ns"
      and wr: "fold_res (\<lambda>(f, n) bits. if n > bf_DecimalMax f
               then Inl (Field (sch_id s) (bf_Name f) ''range'' (itoa (unat n)) ''TDS 2.2 binary field maximum'')
               else Inr (setBits bits (bf_BitOffset f) (bf_BitLength f) n)) (zip (BinaryFields opt) (?fv # ns))
             (writeFields (lit_sites opt) (replicate 12 0)) = Inr b"
      and t: "t = (gs1_translation s opt (?fv # ns))\<lparr>t_Identity := v,
               t_Encoding := (t_Encoding (gs1_translation s opt (?fv # ns)))\<lparr>enc_bits := b\<rparr>\<rparr>"
      by blast
    have cs: "list_all2 (\<lambda>f n. n \<le> uf_DecimalMax f) (PureFields opt) ns" "v_components v = components (PureFields opt) ns"
      using enc encode_fields [OF fields v(3)] by simp_all
    then have "length (?fv # ns) = length (BinaryFields opt)"
      using binary_count [OF ok] by (auto dest: list_all2_lengthD)
    from write_tag [THEN iffD1, OF conjI [OF wr this]]
    have w: "values_ok opt (?fv # ns)" "b = gs1_bits opt (?fv # ns)" by simp_all
    have "v = gs1_identity s opt (?fv # ns)" using v(1,2) cs(2) by (simp add: gs1_identity_def)
    with w t show "\<exists>ns. ?ok ns" by (auto simp: gs1_translation_def NewEncoding_def)
  qed
  finally show ?thesis .
qed

lemma gs1_Encode_iff:
  "gs1_Encode v p = Inr t \<longleftrightarrow> (\<exists>s \<in> set schemes. \<exists>opt \<in> set (sd_Options (sch_def s)). \<exists>ns.
     sch_id s = ep_Scheme p \<and> values_ok opt (ucast (ep_FilterValue p) # ns) \<and>
     v = gs1_identity s opt (ucast (ep_FilterValue p) # ns) \<and> t = gs1_translation s opt (ucast (ep_FilterValue p) # ns))"
    (is "_ \<longleftrightarrow> ?rhs")
proof
  assume enc: "gs1_Encode v p = Inr t"
  then obtain s opt where s: "Lookup (ep_Scheme p) = Inr s" and opt: "optionForValue s v = Inr opt"
    by (auto simp: gs1_Encode_def split: if_splits)
  have sid: "s \<in> set schemes" "sch_id s = ep_Scheme p" using s by (simp_all add: Lookup_iff)
  have mem: "opt \<in> set (sd_Options (sch_def s))" by (rule optionForValue_Inr [OF schemes_ok [OF sid(1)] opt])
  from enc gs1_Encode_body [OF schemes_ok [OF sid(1)] mem opt s] sid mem show ?rhs by blast
next
  assume ?rhs
  then obtain s opt ns where s: "s \<in> set schemes" "sch_id s = ep_Scheme p" and opt: "opt \<in> set (sd_Options (sch_def s))"
    and ns: "values_ok opt (ucast (ep_FilterValue p) # ns)" "v = gs1_identity s opt (ucast (ep_FilterValue p) # ns)"
      "t = gs1_translation s opt (ucast (ep_FilterValue p) # ns)"
    by blast
  have "optionForValue s v = Inr opt" unfolding ns(2) by (rule optionForValue_iff [OF schemes_ok [OF s(1)] opt ns(1)])
  moreover have "Lookup (ep_Scheme p) = Inr s" using s by (simp add: Lookup_iff)
  ultimately show "gs1_Encode v p = Inr t"
    using gs1_Encode_body [OF schemes_ok [OF s(1)] opt] ns by blast
qed

lemma header_reads:
  assumes "s \<in> set schemes" "opt \<in> set (sd_Options (sch_def s))" "values_ok opt vs" "12 \<le> length bits"
    "take 12 bits = gs1_bits opt vs"
  shows "bits ! 0 = ucast (sd_Header (sch_def s))"
proof -
  note ok = schemes_ok [OF assms(1)] and opt = option_okD [OF schemes_ok [OF assms(1)] assms(2)]
  have "(0, 8, sd_Header (sch_def s)) \<in> set (lit_sites opt)" using opt by (simp add: option_ok_def lit_sites_def)
  then have head: "bitsAt bits 0 8 = sd_Header (sch_def s)"
    using opt assms(3-5) by (intro field_reads_back [of s opt vs]) auto
  show ?thesis
  proof (rule bit_word_eqI)
    fix j assume "j < LENGTH(8)"
    then have j: "j < 8" by simp
    have "bit (ucast (sd_Header (sch_def s)) :: byte) j \<longleftrightarrow> bit (bitsAt bits 0 8) j"
      using j by (simp add: head bit_simps)
    also have "\<dots> \<longleftrightarrow> bit (bits ! 0) j" using j by (simp add: bit_bitsAt tag_bit_def)
    finally show "bit (bits ! 0) j = bit (ucast (sd_Header (sch_def s)) :: byte) j" by simp
  qed
qed

lemma gs1_Decode_iff:
  "gs1_Decode bits n = Inr t \<longleftrightarrow> 96 \<le> n \<and> n \<le> 8 * int (length bits) \<and>
    (\<exists>s \<in> set schemes. \<exists>opt \<in> set (sd_Options (sch_def s)). \<exists>vs. values_ok opt vs \<and>
       take 12 bits = gs1_bits opt vs \<and> t = gs1_translation s opt vs)"
    (is "_ \<longleftrightarrow> ?rhs")
proof
  assume dec: "gs1_Decode bits n = Inr t"
  then obtain s where s: "byHeader (bits ! 0) = Some s" "scheme_Decode s bits n = Inr t" "n \<le> 8 * int (length bits)"
    by (auto simp: gs1_Decode_def split: if_splits option.splits)
  then have "s \<in> set schemes" by (simp add: byHeader_iff)
  with s scheme_Decode_iff [OF schemes_ok, of s bits n t] show ?rhs by blast
next
  assume ?rhs
  then obtain s opt vs where len: "96 \<le> n" "n \<le> 8 * int (length bits)" and s: "s \<in> set schemes"
    and opt: "opt \<in> set (sd_Options (sch_def s))" "values_ok opt vs" "take 12 bits = gs1_bits opt vs"
      "t = gs1_translation s opt vs" by blast
  then have twelve: "12 \<le> length bits" by linarith
  have "byHeader (bits ! 0) = Some s"
    using header_reads [OF s opt(1,2) twelve opt(3)] s by (simp add: byHeader_iff)
  moreover have "scheme_Decode s bits n = Inr t"
    using scheme_Decode_iff [OF schemes_ok [OF s], of bits n t] len(1) twelve opt by blast
  ultimately show "gs1_Decode bits n = Inr t" using len by (simp add: gs1_Decode_def)
qed

lemma encoded_tag:
  assumes "gs1_Encode v p = Inr t"
  shows "\<exists>s \<in> set schemes. \<exists>opt vs. sch_id s = ep_Scheme p \<and> vs \<noteq> [] \<and> hd vs = ucast (ep_FilterValue p) \<and>
    v = gs1_identity s opt vs \<and> t = gs1_translation s opt vs \<and> gs1_Decode (gs1_bits opt vs) 96 = Inr t"
proof -
  obtain s opt ns where s: "s \<in> set schemes" "sch_id s = ep_Scheme p" and opt: "opt \<in> set (sd_Options (sch_def s))"
    "values_ok opt (ucast (ep_FilterValue p) # ns)" "v = gs1_identity s opt (ucast (ep_FilterValue p) # ns)"
    "t = gs1_translation s opt (ucast (ep_FilterValue p) # ns)"
    using assms unfolding gs1_Encode_iff by blast
  have "gs1_Decode (gs1_bits opt (ucast (ep_FilterValue p) # ns)) 96 = Inr t"
    using s opt by (subst gs1_Decode_iff) auto
  with s opt show ?thesis
    by (intro bexI [of _ s] exI [of _ opt] exI [of _ "ucast (ep_FilterValue p) # ns"]) simp_all
qed

section \<open>Properties\<close>

text \<open>
  C16. Decoding loses nothing: the identity read from a tag, written back in the same scheme with
  the filter value that was read, gives exactly the translation read, so in particular the same
  bits, and a second decode of those bits gives it again. Padding bits past the tag length
  are not part of it.
\<close>

theorem decode_encode:
  assumes "gs1_Decode bits n = Inr t"
  shows "gs1_Encode (t_Identity t) \<lparr>ep_Scheme = enc_Scheme (t_Encoding t),
      ep_FilterValue = FilterValue' (enc_Control (t_Encoding t))\<rparr> = Inr t \<and>
    enc_bits (t_Encoding t) = take 12 bits \<and> gs1_Decode (enc_bits (t_Encoding t)) 96 = Inr t"
proof -
  obtain s opt vs where n: "96 \<le> n" "n \<le> 8 * int (length bits)" and s: "s \<in> set schemes"
    and opt: "opt \<in> set (sd_Options (sch_def s))" "values_ok opt vs" "take 12 bits = gs1_bits opt vs"
      "t = gs1_translation s opt vs"
    using assms unfolding gs1_Decode_iff by blast
  obtain f fs where f: "BinaryFields opt = f # fs" "bf_DecimalMax f = 7"
    using field_names [OF option_okD [OF schemes_ok [OF s] opt(1)]] by metis
  then obtain v vs' where v: "vs = v # vs'" "v \<le> 7" using opt(2) by (auto simp: values_ok_def list_all2_Cons1)
  then have "unat v < 2 ^ 8" by (simp add: word_le_nat_alt)
  then have byte: "ucast (ucast v :: byte) = v"
    by (simp add: word_unat_eq_iff unsigned_ucast_eq unsigned_take_bit_eq take_bit_nat_eq_self)
  have bits: "enc_bits (t_Encoding t) = take 12 bits"
    using opt by (simp add: gs1_translation_def NewEncoding_def)
  have "gs1_Encode (t_Identity t) \<lparr>ep_Scheme = sch_id s, ep_FilterValue = ucast v\<rparr> = Inr t"
    using s opt v by (auto simp: gs1_Encode_iff byte gs1_translation_def intro!: bexI [of _ s] bexI [of _ opt])
  moreover have "gs1_Decode (take 12 bits) 96 = Inr t"
  proof (rule gs1_Decode_iff [THEN iffD2])
    have "12 \<le> length bits" using n by linarith
    then have "(96 :: int) \<le> 96 \<and> 96 \<le> 8 * int (length (take 12 bits))" "take 12 (take 12 bits) = gs1_bits opt vs"
      by (simp_all add: opt(3) min_def)
    with s opt(1,2,4) show "(96 :: int) \<le> 96 \<and> 96 \<le> 8 * int (length (take 12 bits)) \<and>
      (\<exists>s \<in> set schemes. \<exists>opt \<in> set (sd_Options (sch_def s)). \<exists>vs. values_ok opt vs \<and>
        take 12 (take 12 bits) = gs1_bits opt vs \<and> t = gs1_translation s opt vs)" by blast
  qed
  ultimately show ?thesis
    using opt v by (simp add: bits) (simp add: gs1_translation_def NewEncoding_def)
qed

lemma sscc_example:
  "gs1_Decode [0x31, 0x74, 0x25, 0x7B, 0xF4, 0x49, 0x96, 0x02, 0xD2, 0, 0, 0] 96 =
     Inr (gs1_translation sscc_scheme sscc_96_gcp7 [3, 614141, 1234567890])"
proof -
  let ?bits = "[0x31, 0x74, 0x25, 0x7B, 0xF4, 0x49, 0x96, 0x02, 0xD2, 0, 0, 0] :: bytes"
  have mem: "sscc_scheme \<in> set schemes" "sscc_96_gcp7 \<in> set (sd_Options (sch_def sscc_scheme))"
    by (simp_all add: schemes_eq sscc_scheme_def sscc_96_def)
  have "values_ok sscc_96_gcp7 [3, 614141, 1234567890]"
    by (simp add: values_ok_def sscc_96_gcp7_def row_defs)
  moreover have "field_values sscc_96_gcp7 ?bits = [3, 614141, 1234567890]" by code_simp
  moreover have "lits_match sscc_96_gcp7 ?bits" by code_simp
  ultimately have "take 12 ?bits = gs1_bits sscc_96_gcp7 [3, 614141, 1234567890]"
    using tag_matches_iff [OF option_okD [OF sscc_ok mem(2)], of ?bits "[3, 614141, 1234567890]"] by simp
  with mem \<open>values_ok sscc_96_gcp7 [3, 614141, 1234567890]\<close> show ?thesis
    by (intro gs1_Decode_iff [THEN iffD2]) fastforce
qed

theorem decode_encode_witness:
  "gs1_Encode (gs1_identity sscc_scheme sscc_96_gcp7 [3, 614141, 1234567890])
     \<lparr>ep_Scheme = ''sscc-96'', ep_FilterValue = 3\<rparr> =
   Inr (gs1_translation sscc_scheme sscc_96_gcp7 [3, 614141, 1234567890])"
  using decode_encode [OF sscc_example]
  by (simp add: gs1_translation_def NewEncoding_def) (simp add: sscc_scheme_def)

text \<open>
  C21. Encoding loses nothing: a translation written from an identity carries that identity,
  is a tag of the requested scheme with the requested filter, has the length the scheme
  declares, and its bits decode to exactly the same translation.
\<close>

theorem encode_decode:
  assumes "gs1_Encode v p = Inr t"
  shows "t_Identity t = v \<and> enc_Scheme (t_Encoding t) = ep_Scheme p \<and>
    FilterValue' (enc_Control (t_Encoding t)) = ep_FilterValue p \<and> enc_BitLen (t_Encoding t) = 96 \<and>
    length (enc_bits (t_Encoding t)) = 12 \<and> gs1_Decode (enc_bits (t_Encoding t)) 96 = Inr t"
proof -
  obtain s opt vs where "sch_id s = ep_Scheme p" "hd vs = ucast (ep_FilterValue p)" "vs \<noteq> []"
    "v = gs1_identity s opt vs" "t = gs1_translation s opt vs" "gs1_Decode (gs1_bits opt vs) 96 = Inr t"
    using encoded_tag [OF assms] by blast
  then show ?thesis by (simp add: gs1_translation_def NewEncoding_def filter_byte hd_conv_nth [symmetric])
qed

theorem encode_decode_witness:
  "gs1_Decode [0x31, 0x74, 0x25, 0x7B, 0xF4, 0x49, 0x96, 0x02, 0xD2, 0, 0, 0] 96 = 
   gs1_Encode (gs1_identity sscc_scheme sscc_96_gcp7 [3, 614141, 1234567890])
     \<lparr>ep_Scheme = ''sscc-96'', ep_FilterValue = 3\<rparr>"
  using encode_decode [OF decode_encode_witness] sscc_example
  by (simp add: decode_encode_witness)

end
