(* ===== verification/Gs1_URI.thy ===== *)
theory Gs1_URI
  imports Gs1_Roundtrip
begin

text \<open>
  EPC Pure Identity and Tag URIs, from \<^verbatim>\<open>src/internal/tdt/gs1epc/uri.go\<close>: rendering an identity
  or an encoding, and parsing both back.
\<close>

section \<open>Rendering\<close>

definition schemeForKeyType :: "KeyType \<Rightarrow> tdt_error + gs1_scheme" where
  "schemeForKeyType k =
     (case find (\<lambda>s. sch_keyType s = k) schemes of None \<Rightarrow> Inl ErrUnsupportedScheme | Some s \<Rightarrow> Inr s)"

definition uri_part :: "gs1_scheme \<Rightarrow> uri_field \<Rightarrow> component \<Rightarrow> tdt_error + string" where
  "uri_part s f c =
     bind_res (parseField (sch_id s) f (c_value c)) (\<lambda>n.
       if render f n \<noteq> c_value c
       then Inl (Field (sch_id s) (uf_Name f) ''not-canonical'' (c_value c) ''TDS 2.2 field padding'')
       else Inr (c_value c))"

definition PureIdentityURI :: "ivalue \<Rightarrow> tdt_error + string" where
  "PureIdentityURI v =
     bind_res (schemeForKeyType (v_keyType v)) (\<lambda>s.
     bind_res (optionForValue s v) (\<lambda>opt.
     if length (v_components v) \<noteq> length (PureFields opt) then Inl ErrCannotEncode
     else bind_res (map_res (\<lambda>(f, c). uri_part s f c) (zip (PureFields opt) (v_components v))) (\<lambda>parts.
       Inr (sd_PureURIPrefix (sch_def s) @ Join parts CHR ''.''))))"

definition TagURI :: "encoding \<Rightarrow> tdt_error + string" where
  "TagURI e =
     bind_res (Lookup (enc_Scheme e)) (\<lambda>s.
     if length (enc_fields e) = 0 then Inl ErrCannotEncode
     else Inr (sd_TagURIPrefix (sch_def s) @ Join (map c_value (enc_fields e)) CHR ''.''))"

section \<open>Parsing\<close>

definition parse_component :: "gs1_scheme \<Rightarrow> uri_field \<Rightarrow> string \<Rightarrow> tdt_error + component" where
  "parse_component s f part =
     bind_res (parseField (sch_id s) f part) (\<lambda>_.
       Inr \<lparr>c_name = componentName (uf_Name f), c_value = part\<rparr>)"

definition ParsePureIdentityURI :: "string \<Rightarrow> tdt_error + ivalue" where
  "ParsePureIdentityURI uri =
     (case CutPrefix uri ''urn:epc:id:'' of
        None \<Rightarrow> Inl ErrMalformedURI
      | Some rest \<Rightarrow>
          case Cut rest CHR '':'' of
            None \<Rightarrow> Inl ErrMalformedURI
          | Some (key, body) \<Rightarrow>
              bind_res (LookupKey key) (\<lambda>s.
              let parts = Split body CHR ''.'' in
              case sd_Option (sch_def s) (length (parts ! 0)) of
                None \<Rightarrow> Inl (Field (sch_id s) ''gs1companyprefix'' ''length'' (parts ! 0)
                          ''TDS 2.2 company prefix lengths 6-12'')
              | Some opt \<Rightarrow>
                  if length parts \<noteq> length (PureFields opt) then Inl ErrMalformedURI
                  else bind_res (map_res (\<lambda>(f, part). parse_component s f part) (zip (PureFields opt) parts)) (\<lambda>comps.
                    case New AuthorityGS1 (sch_keyType s) comps of
                      Inl e \<Rightarrow> Inl (FromIdentity e)
                    | Inr v \<Rightarrow> Inr v)))"

definition ParseTagURI :: "string \<Rightarrow> tdt_error + translation" where
  "ParseTagURI uri =
     (case CutPrefix uri ''urn:epc:tag:'' of
        None \<Rightarrow> Inl ErrMalformedURI
      | Some rest \<Rightarrow>
          case Cut rest CHR '':'' of
            None \<Rightarrow> Inl ErrMalformedURI
          | Some (i, body) \<Rightarrow>
              bind_res (Lookup i) (\<lambda>s.
              let parts = Split body CHR ''.'' in
              if length parts < 2 then Inl ErrMalformedURI
              else case sd_Option (sch_def s) (length (parts ! 1)) of
                None \<Rightarrow> Inl (Field (sch_id s) ''gs1companyprefix'' ''length'' (parts ! 1)
                          ''TDS 2.2 company prefix lengths 6-12'')
              | Some opt \<Rightarrow>
                  if length parts \<noteq> length (TagFields opt) then Inl ErrMalformedURI
                  else bind_res (parseField (sch_id s) (TagFields opt ! 0) (parts ! 0)) (\<lambda>filter'.
                    bind_res (map_res (\<lambda>(f, part). parse_component s f part) (zip (PureFields opt) (drop 1 parts))) (\<lambda>comps.
                    case New AuthorityGS1 (sch_keyType s) comps of
                      Inl e \<Rightarrow> Inl (FromIdentity e)
                    | Inr v \<Rightarrow> gs1_Encode v \<lparr>ep_Scheme = sch_id s, ep_FilterValue = ucast filter'\<rparr>))))"

section \<open>Facts: field texts\<close>

definition pure_ok :: "gs1_option \<Rightarrow> u64 list \<Rightarrow> bool" where
  "pure_ok opt ns \<longleftrightarrow> list_all2 (\<lambda>f n. n \<le> uf_DecimalMax f) (PureFields opt) ns"

definition pure_identity :: "gs1_scheme \<Rightarrow> gs1_option \<Rightarrow> u64 list \<Rightarrow> ivalue" where
  "pure_identity s opt ns = \<lparr>v_authority = AuthorityGS1, v_keyType = sch_keyType s,
     v_components = components (PureFields opt) ns\<rparr>"

definition pure_uri :: "gs1_scheme \<Rightarrow> gs1_option \<Rightarrow> u64 list \<Rightarrow> string" where
  "pure_uri s opt ns = sd_PureURIPrefix (sch_def s) @ Join (map2 render (PureFields opt) ns) CHR ''.''"

lemma render_digits: "field_ok f \<Longrightarrow> list_all is_digit (render f n)"
  using itoa_digits [of "unat n"] by (auto simp: render_def Let_def field_ok_def list_all_iff split: if_splits)

lemma texts_dotless:
  "list_all field_ok fs \<Longrightarrow> p \<in> set (map2 render fs ns) \<Longrightarrow> CHR ''.'' \<notin> set p"
proof
  assume "list_all field_ok fs" "p \<in> set (map2 render fs ns)" "CHR ''.'' \<in> set p"
  then have "is_digit CHR ''.''"
    by (auto simp: list_all_iff dest!: set_zip_leftD) (metis list_all_iff render_digits)
  then show False by (simp add: is_digit_def)
qed

lemma components_values: "map c_value (components fs ns) = map2 render fs ns"
  by (simp add: components_def comp_def split_def)

lemma parse_components:
  assumes "list_all field_ok fs" "length parts = length fs"
  shows "map_res (\<lambda>(f, part). parse_component s f part) (zip fs parts) = Inr cs \<longleftrightarrow>
    (\<exists>ns. list_all2 (\<lambda>f n. n \<le> uf_DecimalMax f) fs ns \<and> parts = map2 render fs ns \<and> cs = components fs ns)"
  using assms(2,1)
proof (induction parts fs arbitrary: cs rule: list_induct2)
  case (Cons part parts f fs)
  have one: "(\<exists>n. parseField (sch_id s) f part = Inr n) \<longleftrightarrow> (\<exists>n. n \<le> uf_DecimalMax f \<and> part = render f n)"
    using Cons.prems render_parse [of f "sch_id s" part] parse_render [of f _ "sch_id s"] by auto
  have IH: "map_res (\<lambda>(f, part). parse_component s f part) (zip fs parts) = Inr ds \<longleftrightarrow>
    (\<exists>ns. list_all2 (\<lambda>f n. n \<le> uf_DecimalMax f) fs ns \<and> parts = map2 render fs ns \<and> ds = components fs ns)" for ds
    using Cons by simp
  show ?case
  proof
    assume "map_res (\<lambda>(f, part). parse_component s f part) (zip (f # fs) (part # parts)) = Inr cs"
    then obtain ds where ds: "cs = \<lparr>c_name = componentName (uf_Name f), c_value = part\<rparr> # ds"
      "map_res (\<lambda>(f, part). parse_component s f part) (zip fs parts) = Inr ds"
      "\<exists>n. parseField (sch_id s) f part = Inr n"
      by (auto simp: parse_component_def)
    then obtain n ns where "n \<le> uf_DecimalMax f" "part = render f n" "list_all2 (\<lambda>f n. n \<le> uf_DecimalMax f) fs ns"
      "parts = map2 render fs ns" "ds = components fs ns"
      using IH one by metis
    with ds(1) show "\<exists>ns. list_all2 (\<lambda>f n. n \<le> uf_DecimalMax f) (f # fs) ns \<and> part # parts = map2 render (f # fs) ns \<and>
      cs = components (f # fs) ns"
      by (intro exI [of _ "n # ns"]) (simp add: components_def)
  next
    assume "\<exists>ns. list_all2 (\<lambda>f n. n \<le> uf_DecimalMax f) (f # fs) ns \<and> part # parts = map2 render (f # fs) ns \<and>
      cs = components (f # fs) ns"
    then obtain n ns where ns: "n \<le> uf_DecimalMax f" "list_all2 (\<lambda>f n. n \<le> uf_DecimalMax f) fs ns" "part = render f n"
      "parts = map2 render fs ns" "cs = \<lparr>c_name = componentName (uf_Name f), c_value = part\<rparr> # components fs ns"
      by (auto simp: list_all2_Cons1 components_def)
    then obtain m where "parseField (sch_id s) f part = Inr m" using one by blast
    moreover have "map_res (\<lambda>(f, part). parse_component s f part) (zip fs parts) = Inr (components fs ns)"
      using IH ns(2,4) by blast
    ultimately show "map_res (\<lambda>(f, part). parse_component s f part) (zip (f # fs) (part # parts)) = Inr cs"
      using ns(5) by (simp add: parse_component_def)
  qed
qed (auto simp: components_def)

lemma components_eqI:
  fixes cs ds :: "component list"
  shows "map c_name cs = map c_name ds \<Longrightarrow> map c_value cs = map c_value ds \<Longrightarrow> cs = ds"
  by (induction cs arbitrary: ds) (auto simp: map_eq_Cons_conv)

section \<open>Facts: pure identity URIs\<close>

lemma pure_prefix:
  assumes "option_ok s opt"
  obtains p ps where "PureFields opt = p # ps" "uf_Fixed p" "uf_Length p = GCPLength opt" "field_ok p" "0 < GCPLength opt"
    "componentName (uf_Name p) = GS1CompanyPrefix"
proof -
  obtain f g fs where tag: "TagFields opt = f # g # fs" "uf_Name g = ''gs1companyprefix''" "uf_Fixed g"
    "uf_Length g = GCPLength opt" "0 < GCPLength opt"
    using assms by (auto simp: option_ok_def split: list.splits)
  have "list_all2 sameRendering (tl (TagFields opt)) (PureFields opt)" "list_all field_ok (PureFields opt)"
    using assms by (simp_all add: option_ok_def)
  then obtain p ps where "PureFields opt = p # ps" "sameRendering g p" "field_ok p"
    using tag(1) by (auto simp: list_all2_Cons1)
  with tag that show thesis by (simp add: sameRendering_def componentName_def componentNames_def)
qed

lemma pure_option:
  assumes "scheme_ok s" "opt \<in> set (sd_Options (sch_def s))" "pure_ok opt ns"
  shows "optionForValue s (pure_identity s opt ns) = Inr opt"
    "length (hd (map2 render (PureFields opt) ns)) = GCPLength opt"
proof -
  obtain p ps where p: "PureFields opt = p # ps" "uf_Fixed p" "uf_Length p = GCPLength opt" "field_ok p"
    "componentName (uf_Name p) = GS1CompanyPrefix"
    using pure_prefix [OF option_okD [OF assms(1,2)]] by metis
  then obtain n ns' where n: "ns = n # ns'" "n \<le> uf_DecimalMax p"
    using assms(3) by (auto simp: pure_ok_def list_all2_Cons1)
  have len: "length (render p n) = GCPLength opt" using render_fixed(1) [OF p(4) n(2) p(2)] p(3) by simp
  with p n show "length (hd (map2 render (PureFields opt) ns)) = GCPLength opt" by simp
  have "sd_Option (sch_def s) (GCPLength opt) = Some opt" using assms by (simp add: sd_Option_iff)
  with p n len show "optionForValue s (pure_identity s opt ns) = Inr opt"
    by (simp add: optionForValue_def v_Component_def pure_identity_def components_def)
qed

lemma pure_New:
  assumes "scheme_ok s" "opt \<in> set (sd_Options (sch_def s))" "pure_ok opt ns"
  shows "New AuthorityGS1 (sch_keyType s) (components (PureFields opt) ns) = Inr (pure_identity s opt ns)"
proof -
  have "length ns = length (PureFields opt)" using assms(3) by (auto simp: pure_ok_def dest: list_all2_lengthD)
  then have "map c_name (components (PureFields opt) ns) = ComponentOrder (sch_keyType s)"
    using option_okD [OF assms(1,2)] by (simp add: component_names option_ok_def)
  moreover have "componentOrder (sch_keyType s) = Some (ComponentOrder (sch_keyType s))"
    using assms(1) by (auto simp: scheme_ok_def ComponentOrder_def)
  ultimately show ?thesis by (simp add: New_Inr pure_identity_def)
qed

lemma split_texts:
  assumes "list_all field_ok fs" "fs \<noteq> []" "length ns = length fs"
  shows "Split (Join (map2 render fs ns) CHR ''.'') CHR ''.'' = map2 render fs ns"
  using assms by (intro Split_Join) (auto dest: texts_dotless simp: texts_dotless simp del: set_map)

lemma ParsePureIdentityURI_iff:
  "ParsePureIdentityURI u = Inr v \<longleftrightarrow> (\<exists>s \<in> set schemes. \<exists>opt \<in> set (sd_Options (sch_def s)). \<exists>ns.
     pure_ok opt ns \<and> u = pure_uri s opt ns \<and> v = pure_identity s opt ns)"
    (is "_ \<longleftrightarrow> ?rhs")
proof
  assume "ParsePureIdentityURI u = Inr v"
  then obtain rest key body s opt comps where u: "CutPrefix u ''urn:epc:id:'' = Some rest" "Cut rest CHR '':'' = Some (key, body)"
    and s: "byKey key = Some s" and opt: "sd_Option (sch_def s) (length (Split body CHR ''.'' ! 0)) = Some opt"
    and len: "length (Split body CHR ''.'') = length (PureFields opt)"
    and comps: "map_res (\<lambda>(f, part). parse_component s f part) (zip (PureFields opt) (Split body CHR ''.'')) = Inr comps"
    and v: "New AuthorityGS1 (sch_keyType s) comps = Inr v"
    by (auto simp: ParsePureIdentityURI_def LookupKey_def Let_def wrap_error_Inr split: option.splits if_splits)
  have mem: "s \<in> set schemes" "sch_key s = key" using s by (simp_all add: byKey_iff)
  note ok = schemes_ok [OF mem(1)]
  have o: "opt \<in> set (sd_Options (sch_def s))" using opt ok by (simp add: sd_Option_iff)
  have fields: "list_all field_ok (PureFields opt)" using option_okD [OF ok o] by (simp add: option_ok_def)
  obtain ns where ns: "pure_ok opt ns" "Split body CHR ''.'' = map2 render (PureFields opt) ns"
    "comps = components (PureFields opt) ns"
    using comps parse_components [OF fields len] by (auto simp: pure_ok_def)
  have "u = ''urn:epc:id:'' @ key @ CHR '':'' # body" using u by (auto simp: CutPrefix_Some Cut_Some)
  also have "\<dots> = sd_PureURIPrefix (sch_def s) @ body" using ok mem by (simp add: scheme_ok_def)
  also have "body = Join (map2 render (PureFields opt) ns) CHR ''.''" using Join_Split [of body "CHR ''.''"] ns(2) by simp
  finally have "u = pure_uri s opt ns" by (simp add: pure_uri_def)
  moreover have "v = pure_identity s opt ns" using v pure_New [OF ok o ns(1)] ns(3) by simp
  ultimately show ?rhs using mem(1) o ns(1) by blast
next
  assume ?rhs
  then obtain s opt ns where s: "s \<in> set schemes" and o: "opt \<in> set (sd_Options (sch_def s))" and ns: "pure_ok opt ns"
    "u = pure_uri s opt ns" "v = pure_identity s opt ns" by blast
  note ok = schemes_ok [OF s]
  have fields: "list_all field_ok (PureFields opt)" using option_okD [OF ok o] by (simp add: option_ok_def)
  obtain p ps where p: "PureFields opt = p # ps" using pure_prefix [OF option_okD [OF ok o]] by metis
  have n: "length ns = length (PureFields opt)" using ns(1) by (auto simp: pure_ok_def dest: list_all2_lengthD)
  let ?parts = "map2 render (PureFields opt) ns"
  have parts: "Split (Join ?parts CHR ''.'') CHR ''.'' = ?parts" using p n by (intro split_texts [OF fields]) auto
  have "?parts ! 0 = hd ?parts" using p n by (cases ns) auto
  then have "sd_Option (sch_def s) (length (?parts ! 0)) = Some opt"
    using pure_option(2) [OF ok o ns(1)] o ok by (simp add: sd_Option_iff)
  moreover have "u = ''urn:epc:id:'' @ sch_key s @ CHR '':'' # Join ?parts CHR ''.''"
    using ok ns(2) by (simp add: pure_uri_def scheme_ok_def)
  moreover have "CHR '':'' \<notin> set (sch_key s)" "byKey (sch_key s) = Some s"
    using ok s by (simp_all add: scheme_ok_def byKey_iff)
  moreover have "map_res (\<lambda>(f, part). parse_component s f part) (zip (PureFields opt) ?parts) = Inr (components (PureFields opt) ns)"
    using parse_components [OF fields, of ?parts s] ns(1) n by (auto simp: pure_ok_def)
  ultimately show "ParsePureIdentityURI u = Inr v"
    using parts n pure_New [OF ok o ns(1)] ns(3)
    by (simp add: ParsePureIdentityURI_def LookupKey_def CutPrefix_append [of "''urn:epc:id:''", simplified])
qed

lemma schemeForKeyType_iff: "schemeForKeyType k = Inr s \<longleftrightarrow> s \<in> set schemes \<and> sch_keyType s = k"
proof -
  have "find (\<lambda>s. sch_keyType s = k) schemes = Some s \<longleftrightarrow> s \<in> set schemes \<and> sch_keyType s = k" for s
    by (rule find_key_iff) (simp add: schemes_eq gs1_scheme_defs)
  moreover have "schemeForKeyType k = Inr s \<longleftrightarrow> find (\<lambda>s. sch_keyType s = k) schemes = Some s"
    by (simp add: schemeForKeyType_def split: option.split)
  ultimately show ?thesis by simp
qed

lemma uri_parts:
  assumes "list_all field_ok fs" "length cs = length fs"
  shows "map_res (\<lambda>(f, c). uri_part s f c) (zip fs cs) = Inr parts \<longleftrightarrow>
    (\<exists>ns. list_all2 (\<lambda>f n. n \<le> uf_DecimalMax f) fs ns \<and> map c_value cs = map2 render fs ns \<and> parts = map2 render fs ns)"
  using assms(2,1)
proof (induction cs fs arbitrary: parts rule: list_induct2)
  case (Cons c cs f fs)
  have one: "uri_part s f c = Inr p \<longleftrightarrow> (\<exists>n. n \<le> uf_DecimalMax f \<and> c_value c = render f n \<and> p = render f n)" for p
  proof
    assume "uri_part s f c = Inr p"
    then obtain n where "parseField (sch_id s) f (c_value c) = Inr n"
        "(if render f n \<noteq> c_value c
          then Inl (Field (sch_id s) (uf_Name f) ''not-canonical'' (c_value c) ''TDS 2.2 field padding'')
          else Inr (c_value c)) = Inr p"
      unfolding uri_part_def bind_res_eq_Inr by blast
    then have n: "parseField (sch_id s) f (c_value c) = Inr n" "render f n = c_value c" "p = c_value c"
      by (simp_all split: if_splits)
    then have "n \<le> uf_DecimalMax f" using Cons.prems render_parse(2) by simp
    with n show "\<exists>n. n \<le> uf_DecimalMax f \<and> c_value c = render f n \<and> p = render f n"
      by (intro exI [of _ n] conjI) simp_all
  next
    assume "\<exists>n. n \<le> uf_DecimalMax f \<and> c_value c = render f n \<and> p = render f n"
    then obtain n where n: "n \<le> uf_DecimalMax f" "c_value c = render f n" "p = render f n" by blast
    then have "parseField (sch_id s) f (c_value c) = Inr n" using Cons.prems by (simp add: parse_render)
    with n show "uri_part s f c = Inr p" by (simp add: uri_part_def)
  qed
  have IH: "map_res (\<lambda>(f, c). uri_part s f c) (zip fs cs) = Inr ps \<longleftrightarrow>
    (\<exists>ns. list_all2 (\<lambda>f n. n \<le> uf_DecimalMax f) fs ns \<and> map c_value cs = map2 render fs ns \<and> ps = map2 render fs ns)" for ps
    using Cons by simp
  let ?R = "\<lambda>ns. list_all2 (\<lambda>f n. n \<le> uf_DecimalMax f) (f # fs) ns \<and>
      map c_value (c # cs) = map2 render (f # fs) ns \<and> parts = map2 render (f # fs) ns"
  show ?case
  proof
    assume "map_res (\<lambda>(f, c). uri_part s f c) (zip (f # fs) (c # cs)) = Inr parts"
    then obtain p ps where p: "parts = p # ps" "uri_part s f c = Inr p"
      "map_res (\<lambda>(f, c). uri_part s f c) (zip fs cs) = Inr ps"
      by auto
    obtain n where n: "n \<le> uf_DecimalMax f" "c_value c = render f n" "p = render f n" using one p(2) by blast
    obtain ns where "list_all2 (\<lambda>f n. n \<le> uf_DecimalMax f) fs ns" "map c_value cs = map2 render fs ns" "ps = map2 render fs ns"
      using IH p(3) by blast
    with n p(1) have "?R (n # ns)" by simp
    then show "\<exists>ns. ?R ns" ..
  next
    assume "\<exists>ns. ?R ns"
    then obtain ms where R: "?R ms" by blast
    then obtain n ns where ms: "ms = n # ns" by (cases ms) simp_all
    have ns: "n \<le> uf_DecimalMax f" "c_value c = render f n" "parts = render f n # map2 render fs ns"
      "list_all2 (\<lambda>f n. n \<le> uf_DecimalMax f) fs ns" "map c_value cs = map2 render fs ns"
      using R by (simp_all add: ms)
    then have "uri_part s f c = Inr (render f n)" using one by blast
    moreover have "map_res (\<lambda>(f, c). uri_part s f c) (zip fs cs) = Inr (map2 render fs ns)" using IH ns(4,5) by blast
    ultimately show "map_res (\<lambda>(f, c). uri_part s f c) (zip (f # fs) (c # cs)) = Inr parts" using ns(3) by simp
  qed
qed auto

lemma PureIdentityURI_iff:
  "PureIdentityURI v = Inr u \<longleftrightarrow> (\<exists>s \<in> set schemes. \<exists>opt \<in> set (sd_Options (sch_def s)). \<exists>ns.
     pure_ok opt ns \<and> u = pure_uri s opt ns \<and> v_keyType v = sch_keyType s \<and> optionForValue s v = Inr opt \<and>
     map c_value (v_components v) = map2 render (PureFields opt) ns)"
    (is "_ \<longleftrightarrow> ?rhs")
proof
  assume "PureIdentityURI v = Inr u"
  then obtain s opt parts where s: "s \<in> set schemes" "sch_keyType s = v_keyType v" and opt: "optionForValue s v = Inr opt"
    and len: "length (v_components v) = length (PureFields opt)"
    and parts: "map_res (\<lambda>(f, c). uri_part s f c) (zip (PureFields opt) (v_components v)) = Inr parts"
      "u = sd_PureURIPrefix (sch_def s) @ Join parts CHR ''.''"
    by (auto simp: PureIdentityURI_def schemeForKeyType_iff split: if_splits)
  note o = optionForValue_Inr [OF schemes_ok [OF s(1)] opt]
  have "list_all field_ok (PureFields opt)" using option_okD [OF schemes_ok [OF s(1)] o] by (simp add: option_ok_def)
  from uri_parts [OF this len] parts obtain ns where "pure_ok opt ns" "map c_value (v_components v) = map2 render (PureFields opt) ns"
    "u = pure_uri s opt ns"
    by (auto simp: pure_ok_def pure_uri_def)
  with s opt o show ?rhs by metis
next
  assume ?rhs
  then obtain s opt ns where s: "s \<in> set schemes" "v_keyType v = sch_keyType s" and o: "opt \<in> set (sd_Options (sch_def s))"
    and opt: "optionForValue s v = Inr opt" and ns: "pure_ok opt ns" "u = pure_uri s opt ns"
      "map c_value (v_components v) = map2 render (PureFields opt) ns" by blast
  have fields: "list_all field_ok (PureFields opt)" using option_okD [OF schemes_ok [OF s(1)] o] by (simp add: option_ok_def)
  have "length ns = length (PureFields opt)" using ns(1) by (auto simp: pure_ok_def dest: list_all2_lengthD)
  with arg_cong [OF ns(3), of length] have len: "length (v_components v) = length (PureFields opt)" by simp
  have "map_res (\<lambda>(f, c). uri_part s f c) (zip (PureFields opt) (v_components v)) = Inr (map2 render (PureFields opt) ns)"
    using uri_parts [OF fields len] ns by (auto simp: pure_ok_def)
  moreover have "schemeForKeyType (v_keyType v) = Inr s" using s by (simp add: schemeForKeyType_iff)
  ultimately show "PureIdentityURI v = Inr u"
    using opt len ns(2) by (simp add: PureIdentityURI_def pure_uri_def)
qed

section \<open>Facts: tag URIs\<close>

definition tag_uri :: "gs1_scheme \<Rightarrow> gs1_option \<Rightarrow> u64 list \<Rightarrow> string" where
  "tag_uri s opt vs = sd_TagURIPrefix (sch_def s) @ Join (map2 render (TagFields opt) vs) CHR ''.''"

lemma tag_values:
  assumes "option_ok s opt"
  shows "values_ok opt vs \<longleftrightarrow> list_all2 (\<lambda>f v. v \<le> uf_DecimalMax f) (TagFields opt) vs"
proof -
  have "map bf_DecimalMax (BinaryFields opt) = map uf_DecimalMax (TagFields opt)"
    using assms by (simp add: option_ok_def)
  then have "list_all2 (\<lambda>x v. v \<le> x) (map bf_DecimalMax (BinaryFields opt)) vs \<longleftrightarrow>
    list_all2 (\<lambda>x v. v \<le> x) (map uf_DecimalMax (TagFields opt)) vs" by simp
  then show ?thesis by (simp add: values_ok_def list.rel_map)
qed

lemma TagURI_translation:
  assumes "s \<in> set schemes" "opt \<in> set (sd_Options (sch_def s))" "values_ok opt vs"
  shows "TagURI (t_Encoding (gs1_translation s opt vs)) = Inr (tag_uri s opt vs)"
proof -
  obtain f fs where "BinaryFields opt = f # fs"
    using field_names [OF option_okD [OF schemes_ok [OF assms(1)] assms(2)]] by metis
  moreover have "length (BinaryFields opt) = length (TagFields opt)"
    using option_okD [OF schemes_ok [OF assms(1)] assms(2)] by (auto simp: option_ok_def dest: map_eq_imp_length_eq)
  ultimately have "components (TagFields opt) vs \<noteq> []"
    using values_ok_nat [OF assms(3)] by (cases "TagFields opt"; cases vs) (auto simp: components_def)
  moreover have "Lookup (sch_id s) = Inr s" using assms(1) by (simp add: Lookup_iff)
  ultimately show ?thesis
    by (simp add: TagURI_def gs1_translation_def NewEncoding_def tag_uri_def components_values)
qed

lemma two_parts:
  assumes "s \<in> set schemes" "opt \<in> set (sd_Options (sch_def s))" "values_ok opt vs"
  obtains v w ws f g fs where "vs = v # w # ws" "TagFields opt = f # g # fs" "v \<le> 7" "uf_DecimalMax f = 7"
    "uf_Fixed g" "uf_Length g = GCPLength opt" "w \<le> uf_DecimalMax g" "field_ok f" "field_ok g"
proof -
  note ok = option_okD [OF schemes_ok [OF assms(1)] assms(2)]
  obtain f g fs where f: "TagFields opt = f # g # fs" "uf_DecimalMax f = 7" "uf_Fixed g" "uf_Length g = GCPLength opt"
    "field_ok f" "field_ok g"
    using ok by (auto simp: option_ok_def split: list.splits)
  then obtain v w ws where "vs = v # w # ws" "v \<le> 7" "w \<le> uf_DecimalMax g"
    using assms(3) by (auto simp: tag_values [OF ok] list_all2_Cons1)
  with f that show thesis by blast
qed

lemma filter_u64: "v \<le> (7 :: u64) \<Longrightarrow> ucast (ucast v :: byte) = v"
proof -
  assume "v \<le> 7"
  then have "unat v < 2 ^ 8" by (simp add: word_le_nat_alt)
  then show ?thesis
    by (simp add: word_unat_eq_iff unsigned_ucast_eq unsigned_take_bit_eq take_bit_nat_eq_self)
qed

lemma pure_texts:
  assumes "option_ok s opt"
  shows "map2 render (PureFields opt) ns = map2 render (tl (TagFields opt)) ns"
proof -
  have "list_all2 sameRendering (tl (TagFields opt)) (PureFields opt)" using assms by (simp add: option_ok_def)
  from components_cong [OF this, of ns, THEN arg_cong [of _ _ "map c_value"]] show ?thesis
    by (simp add: components_values)
qed

lemma gs1_Encode_values:
  assumes "s \<in> set schemes" "opt \<in> set (sd_Options (sch_def s))" "values_ok opt (v # ns)"
  shows "gs1_Encode (pure_identity s opt ns) \<lparr>ep_Scheme = sch_id s, ep_FilterValue = ucast v\<rparr> =
    Inr (gs1_translation s opt (v # ns))"
proof -
  obtain w ws where "v # ns = w # ws" "w \<le> 7" using two_parts [OF assms] by metis
  then have "ucast (ucast v :: byte) = v" by (simp add: filter_u64)
  then show ?thesis
    using assms by (auto simp: gs1_Encode_iff pure_identity_def gs1_identity_def intro!: bexI [of _ s] bexI [of _ opt] exI [of _ ns])
qed

lemma ParseTagURI_complete:
  assumes "s \<in> set schemes" "opt \<in> set (sd_Options (sch_def s))" "values_ok opt vs"
  shows "ParseTagURI (tag_uri s opt vs) = Inr (gs1_translation s opt vs)"
proof -
  note sok = schemes_ok [OF assms(1)] and ok = option_okD [OF schemes_ok [OF assms(1)] assms(2)]
  obtain v w ws f g fs where v: "vs = v # w # ws" "TagFields opt = f # g # fs" "v \<le> 7" "uf_DecimalMax f = 7"
    "uf_Fixed g" "uf_Length g = GCPLength opt" "w \<le> uf_DecimalMax g" "field_ok f" "field_ok g"
    using two_parts [OF assms] by metis
  have fields: "list_all field_ok (TagFields opt)" "list_all field_ok (PureFields opt)" using ok by (simp_all add: option_ok_def)
  have count: "length (PureFields opt) = length (g # fs)" using ok v(2) by (simp add: option_ok_def)
  have n: "length vs = length (TagFields opt)"
    using assms(3) tag_values [OF ok] by (auto dest: list_all2_lengthD)
  let ?parts = "map2 render (TagFields opt) vs"
  have parts: "Split (Join ?parts CHR ''.'') CHR ''.'' = ?parts" using v n by (intro split_texts [OF fields(1)]) auto
  have gcp: "sd_Option (sch_def s) (length (render g w)) = Some opt"
    using render_fixed(1) [OF v(9,7,5)] v(6) assms(2) sok by (simp add: sd_Option_iff)
  have pure: "pure_ok opt (w # ws)" using pure_values [OF ok assms(3)] v(1) by (simp add: pure_ok_def)
  have comps: "map_res (\<lambda>(f, part). parse_component s f part) (zip (PureFields opt) (drop 1 ?parts)) =
      Inr (components (PureFields opt) (w # ws))"
    using parse_components [OF fields(2), of "drop 1 ?parts" s] pure count v(1,2) n pure_texts [OF ok, of "w # ws"]
    by (auto simp: pure_ok_def)
  have "tag_uri s opt vs = ''urn:epc:tag:'' @ sch_id s @ CHR '':'' # Join ?parts CHR ''.''"
    using sok by (simp add: tag_uri_def scheme_ok_def)
  moreover have "CHR '':'' \<notin> set (sch_id s)" "Lookup (sch_id s) = Inr s"
    using sok assms(1) by (simp_all add: scheme_ok_def Lookup_iff)
  moreover have "parseField (sch_id s) f (render f v) = Inr v" using v by (simp add: parse_render)
  ultimately show ?thesis
    using parts n gcp comps v(1,2) pure_New [OF sok assms(2) pure] gs1_Encode_values [OF assms(1,2), of v "w # ws"] assms(3)
    by (simp add: ParseTagURI_def CutPrefix_append [of "''urn:epc:tag:''", simplified])
qed

lemma ParseTagURI_sound:
  assumes "ParseTagURI u = Inr t"
  shows "\<exists>s \<in> set schemes. \<exists>opt \<in> set (sd_Options (sch_def s)). \<exists>vs.
    values_ok opt vs \<and> u = tag_uri s opt vs \<and> t = gs1_translation s opt vs"
proof -
  obtain rest i body s opt v comps w where u: "CutPrefix u ''urn:epc:tag:'' = Some rest" "Cut rest CHR '':'' = Some (i, body)"
    and s: "Lookup i = Inr s" and opt: "sd_Option (sch_def s) (length (Split body CHR ''.'' ! 1)) = Some opt"
    and len: "length (Split body CHR ''.'') = length (TagFields opt)"
    and filt: "parseField (sch_id s) (TagFields opt ! 0) (Split body CHR ''.'' ! 0) = Inr v"
    and comps: "map_res (\<lambda>(f, part). parse_component s f part) (zip (PureFields opt) (drop 1 (Split body CHR ''.''))) = Inr comps"
    and w: "New AuthorityGS1 (sch_keyType s) comps = Inr w"
    and enc: "gs1_Encode w \<lparr>ep_Scheme = sch_id s, ep_FilterValue = ucast v\<rparr> = Inr t"
    using assms by (auto simp: ParseTagURI_def Let_def ok_simps)
  have mem: "s \<in> set schemes" "sch_id s = i" using s by (simp_all add: Lookup_iff)
  note sok = schemes_ok [OF mem(1)]
  have o: "opt \<in> set (sd_Options (sch_def s))" using opt sok by (simp add: sd_Option_iff)
  note ok = option_okD [OF sok o]
  obtain f fs where f: "TagFields opt = f # fs" "uf_DecimalMax f = 7" "field_ok f" "length fs = length (PureFields opt)"
    using ok by (auto simp: option_ok_def split: list.splits)
  have v: "render f v = Split body CHR ''.'' ! 0" "v \<le> 7" using render_parse [OF f(3)] filt f(1,2) by auto
  have fields: "list_all field_ok (PureFields opt)" using ok by (simp add: option_ok_def)
  have "length (drop 1 (Split body CHR ''.'')) = length (PureFields opt)" using len f(1,4) by simp
  from parse_components [OF fields this, of s comps] comps
  obtain ns where ns: "pure_ok opt ns" "drop 1 (Split body CHR ''.'') = map2 render (PureFields opt) ns"
    "comps = components (PureFields opt) ns"
    by (auto simp: pure_ok_def)
  have id: "w = pure_identity s opt ns" using w ns(3) pure_New [OF sok o ns(1)] by simp
  obtain s' opt' ns' where e: "s' \<in> set schemes" "opt' \<in> set (sd_Options (sch_def s'))" "sch_id s' = sch_id s"
    "values_ok opt' (v # ns')" "w = gs1_identity s' opt' (v # ns')" "t = gs1_translation s' opt' (v # ns')"
    using enc v(2) by (auto simp: gs1_Encode_iff filter_u64)
  have same: "s' = s" using e(1,3) mem by (metis Lookup_iff sum.inject(2))
  have "opt' = opt"
    using optionForValue_iff [OF schemes_ok [OF e(1)] e(2,4)] pure_option(1) [OF sok o ns(1)] e(5) id same by simp
  note e = e [unfolded same this]
  have "components (PureFields opt) ns = components (PureFields opt) ns'"
    using e(5) id by (simp add: gs1_identity_def pure_identity_def)
  then have "map2 render (PureFields opt) ns = map2 render (PureFields opt) ns'"
    by (metis components_values)
  then have "drop 1 (Split body CHR ''.'') = map2 render fs ns'"
    using ns(2) pure_texts [OF ok, of ns'] f(1) by simp
  moreover have "Split body CHR ''.'' = (Split body CHR ''.'' ! 0) # drop 1 (Split body CHR ''.'')"
    by (cases "Split body CHR ''.''") simp_all
  ultimately have "Split body CHR ''.'' = map2 render (TagFields opt) (v # ns')" using v(1) f(1) by simp
  then have "body = Join (map2 render (TagFields opt) (v # ns')) CHR ''.''" by (metis Join_Split)
  moreover have "u = ''urn:epc:tag:'' @ i @ CHR '':'' # body" using u by (auto simp: CutPrefix_Some Cut_Some)
  ultimately have "u = tag_uri s opt (v # ns')" using sok mem(2) by (simp add: tag_uri_def scheme_ok_def)
  with mem(1) o e(4,6) show ?thesis by blast
qed

section \<open>Properties\<close>

text \<open>
  C27. A Pure Identity URI and a GS1 identity name each other: a text parses to an identity
  exactly when the identity, which is then GS1's with the components of its key type in
  canonical order, renders to that text. So parsing accepts no second spelling of an
  identity and rendering loses nothing.
\<close>

theorem pure_identity_uri_roundtrip:
  "ParsePureIdentityURI u = Inr v \<longleftrightarrow>
     PureIdentityURI v = Inr u \<and> v_authority v = AuthorityGS1 \<and>
     map c_name (v_components v) = ComponentOrder (v_keyType v)"
proof
  assume "ParsePureIdentityURI u = Inr v"
  then obtain s opt ns where s: "s \<in> set schemes" and o: "opt \<in> set (sd_Options (sch_def s))" and ns: "pure_ok opt ns"
    "u = pure_uri s opt ns" "v = pure_identity s opt ns"
    unfolding ParsePureIdentityURI_iff by blast
  note sok = schemes_ok [OF s]
  have "PureIdentityURI v = Inr u"
    using s o ns pure_option(1) [OF sok o ns(1)]
    by (auto simp: PureIdentityURI_iff pure_identity_def components_values intro!: bexI [of _ s] bexI [of _ opt] exI [of _ ns])
  with pure_New [OF sok o ns(1)] ns(3) show "PureIdentityURI v = Inr u \<and> v_authority v = AuthorityGS1 \<and>
     map c_name (v_components v) = ComponentOrder (v_keyType v)"
    by (auto simp: New_Inr pure_identity_def ComponentOrder_def)
next
  assume v: "PureIdentityURI v = Inr u \<and> v_authority v = AuthorityGS1 \<and>
     map c_name (v_components v) = ComponentOrder (v_keyType v)"
  then obtain s opt ns where s: "s \<in> set schemes" "v_keyType v = sch_keyType s" and o: "opt \<in> set (sd_Options (sch_def s))"
    and ns: "pure_ok opt ns" "u = pure_uri s opt ns" "map c_value (v_components v) = map2 render (PureFields opt) ns"
    unfolding PureIdentityURI_iff by blast
  note sok = schemes_ok [OF s(1)]
  have "length ns = length (PureFields opt)" using ns(1) by (auto simp: pure_ok_def dest: list_all2_lengthD)
  then have "map c_name (components (PureFields opt) ns) = map c_name (v_components v)"
    using v s(2) option_okD [OF sok o] by (simp add: component_names option_ok_def)
  moreover have "map c_value (components (PureFields opt) ns) = map c_value (v_components v)"
    using ns(3) by (simp add: components_values)
  ultimately have "components (PureFields opt) ns = v_components v" by (rule components_eqI)
  then have "v = pure_identity s opt ns" using v s(2) by (simp add: pure_identity_def)
  with s(1) o ns show "ParsePureIdentityURI u = Inr v" unfolding ParsePureIdentityURI_iff by blast
qed

text \<open>
  C28. A Tag URI and a tag name each other: a text parses to a translation exactly when the
  translation is what its own bits decode to and its encoding renders to that text.
\<close>

theorem tag_uri_roundtrip:
  "ParseTagURI u = Inr t \<longleftrightarrow>
     TagURI (t_Encoding t) = Inr u \<and> gs1_Decode (enc_bits (t_Encoding t)) 96 = Inr t"
proof
  assume "ParseTagURI u = Inr t"
  from ParseTagURI_sound [OF this] obtain s opt vs where s: "s \<in> set schemes" "opt \<in> set (sd_Options (sch_def s))"
    "values_ok opt vs" "u = tag_uri s opt vs" "t = gs1_translation s opt vs" by blast
  have "enc_bits (t_Encoding t) = gs1_bits opt vs" using s(5) by (simp add: gs1_translation_def NewEncoding_def)
  moreover have "gs1_Decode (gs1_bits opt vs) 96 = Inr t" using s by (subst gs1_Decode_iff) auto
  ultimately show "TagURI (t_Encoding t) = Inr u \<and> gs1_Decode (enc_bits (t_Encoding t)) 96 = Inr t"
    using TagURI_translation [OF s(1-3)] s(4,5) by simp
next
  assume t: "TagURI (t_Encoding t) = Inr u \<and> gs1_Decode (enc_bits (t_Encoding t)) 96 = Inr t"
  then obtain s opt vs where s: "s \<in> set schemes" "opt \<in> set (sd_Options (sch_def s))" "values_ok opt vs"
    "t = gs1_translation s opt vs"
    unfolding gs1_Decode_iff by blast
  with t TagURI_translation [OF s(1-3)] have "u = tag_uri s opt vs" by simp
  with ParseTagURI_complete [OF s(1-3)] s(4) show "ParseTagURI u = Inr t" by simp
qed

end
