(* ===== verification/Llrp.thy ===== *)
theory Llrp
  imports Wire
begin

text \<open>
  The bounded LLRP codec of \<^verbatim>\<open>src/llrp/codec.go\<close>: limits, messages and their header,
  reading from and writing to a transport, and TLV and TV parameters. A transport that is
  read is the byte string it will deliver before end of file; a transport that is written
  is any function from a state and the bytes offered to what it accepted.
\<close>

section \<open>Limits and errors\<close>

datatype llrp_error =
    ErrFrameTooSmall | ErrFrameTooLarge | ErrMalformedHeader | ErrLengthMismatch
  | ErrParameterTruncated | ErrParameterTooLarge | ErrParameterLimit | ErrUnsupportedParameter
  | ErrMalformedTagReport | ErrMissingEPC | ErrEPCTooLong
  | EOF | UnexpectedEOF

definition MessageHeaderSize :: nat where "MessageHeaderSize = 10"

definition defaultMaxFrameSize :: u32 where "defaultMaxFrameSize = 1048576"
definition defaultMaxParameterSize :: u16 where "defaultMaxParameterSize = 32768"
definition defaultMaxParameters :: int where "defaultMaxParameters = 4096"

record limits =
  maxFrameSize :: u32
  maxParameterSize :: u16
  maxParameters :: int

definition normalized :: "limits \<Rightarrow> limits" where
  "normalized l =
     (let l = (if maxFrameSize l = 0 then l\<lparr>maxFrameSize := defaultMaxFrameSize\<rparr> else l);
          l = (if maxParameterSize l = 0 then l\<lparr>maxParameterSize := defaultMaxParameterSize\<rparr> else l);
          l = (if maxParameters l = 0 then l\<lparr>maxParameters := defaultMaxParameters\<rparr> else l)
      in l)"

definition DefaultLimits :: limits where
  "DefaultLimits = normalized \<lparr>maxFrameSize = 0, maxParameterSize = 0, maxParameters = 0\<rparr>"

lemma normalized_fields:
  "maxFrameSize (normalized l) = (if maxFrameSize l = 0 then defaultMaxFrameSize else maxFrameSize l)"
  "maxParameterSize (normalized l) =
     (if maxParameterSize l = 0 then defaultMaxParameterSize else maxParameterSize l)"
  "maxParameters (normalized l) = (if maxParameters l = 0 then defaultMaxParameters else maxParameters l)"
  by (simp_all add: normalized_def Let_def)

lemma normalized_idem [simp]: "normalized (normalized l) = normalized l"
  by (rule limits.equality)
    (simp_all add: normalized_fields defaultMaxFrameSize_def defaultMaxParameterSize_def
      defaultMaxParameters_def)

lemma DefaultLimits_fields [simp]:
  "maxFrameSize DefaultLimits = 1048576" "maxParameterSize DefaultLimits = 32768"
  "maxParameters DefaultLimits = 4096"
  by (simp_all add: DefaultLimits_def normalized_fields defaultMaxFrameSize_def
      defaultMaxParameterSize_def defaultMaxParameters_def)

lemma normalized_DefaultLimits [simp]: "normalized DefaultLimits = DefaultLimits"
  by (simp add: DefaultLimits_def)

section \<open>Messages\<close>

record header =
  h_type :: u16
  h_length :: u32
  h_id :: u32

record message =
  m_header :: header
  m_payload :: bytes

definition EncodeMessage :: "message \<Rightarrow> limits \<Rightarrow> llrp_error + bytes" where
  "EncodeMessage m limits0 =
     (let limits = normalized limits0;
          len = MessageHeaderSize + length (m_payload m)
      in if len > unat (maxFrameSize limits) then Inl ErrFrameTooLarge
         else if len > 2 ^ 32 - 1 then Inl ErrFrameTooLarge
         else if h_length (m_header m) \<noteq> 0 \<and> h_length (m_header m) \<noteq> of_nat len
         then Inl ErrLengthMismatch
         else Inr (put_u16 (h_type (m_header m)) @ put_u32 (of_nat len)
                   @ put_u32 (h_id (m_header m)) @ m_payload m))"

definition MarshalBinary :: "message \<Rightarrow> llrp_error + bytes" where
  "MarshalBinary m = EncodeMessage m DefaultLimits"

definition DecodeMessage :: "bytes \<Rightarrow> limits \<Rightarrow> llrp_error + message" where
  "DecodeMessage frame limits0 =
     (let limits = normalized limits0 in
      if length frame < MessageHeaderSize then Inl ErrFrameTooSmall
      else if length frame > unat (maxFrameSize limits) then Inl ErrFrameTooLarge
      else let header = \<lparr>h_type = get_u16 (take 2 frame),
                         h_length = get_u32 (take 4 (drop 2 frame)),
                         h_id = get_u32 (take 4 (drop 6 frame))\<rparr>
      in if unat (h_length header) < MessageHeaderSize then Inl ErrMalformedHeader
         else if h_length header > maxFrameSize limits then Inl ErrFrameTooLarge
         else if unat (h_length header) \<noteq> length frame then Inl ErrLengthMismatch
         else Inr \<lparr>m_header = header, m_payload = drop MessageHeaderSize frame\<rparr>)"

text \<open>
  \<^verbatim>\<open>io.ReadFull\<close> on a transport that delivers the given bytes and then end of file: what was
  read, and what the transport still holds.
\<close>

definition ReadFull :: "nat \<Rightarrow> bytes \<Rightarrow> (llrp_error + bytes) \<times> bytes" where
  "ReadFull n r =
     (if n \<le> length r then (Inr (take n r), drop n r)
      else (Inl (if r = [] then EOF else UnexpectedEOF), []))"

definition ReadMessage :: "bytes \<Rightarrow> limits \<Rightarrow> (llrp_error + message) \<times> bytes" where
  "ReadMessage r limits0 =
     (let limits = normalized limits0 in
      case ReadFull MessageHeaderSize r of
        (Inl e, r1) \<Rightarrow> (Inl e, r1)
      | (Inr headerBytes, r1) \<Rightarrow>
          (let len = get_u32 (take 4 (drop 2 headerBytes)) in
           if unat len < MessageHeaderSize then (Inl ErrMalformedHeader, r1)
           else if len > maxFrameSize limits then (Inl ErrFrameTooLarge, r1)
           else case ReadFull (unat len - MessageHeaderSize) r1 of
                  (Inl e, r2) \<Rightarrow> (Inl e, r2)
                | (Inr body, r2) \<Rightarrow> (DecodeMessage (headerBytes @ body) limits, r2)))"

text \<open>
  The writer is the caller's: from its state and the bytes offered it returns how many it
  took, an error if any, and its next state.
\<close>

datatype 'x write_error = EncodeError llrp_error | ShortWrite | WriterError 'x

function write_loop ::
  "('w \<Rightarrow> bytes \<Rightarrow> int \<times> 'x option \<times> 'w) \<Rightarrow> 'w \<Rightarrow> bytes \<Rightarrow> 'x write_error option \<times> 'w" where
  "write_loop wr w frame =
     (if frame = [] then (None, w)
      else case wr w frame of (n, writeErr, w') \<Rightarrow>
        if n < 0 \<or> n > int (length frame) then (Some ShortWrite, w')
        else case writeErr of
               Some x \<Rightarrow> (Some (WriterError x), w')
             | None \<Rightarrow> if n = 0 then (Some ShortWrite, w')
                       else write_loop wr w' (drop (nat n) frame))"
  by pat_completeness auto
termination
  by (relation "measure (\<lambda>(_, _, frame). length frame)") auto

declare write_loop.simps [simp del]

definition WriteMessage ::
  "('w \<Rightarrow> bytes \<Rightarrow> int \<times> 'x option \<times> 'w) \<Rightarrow> 'w \<Rightarrow> message \<Rightarrow> limits \<Rightarrow> 'x write_error option \<times> 'w" where
  "WriteMessage wr w m limits =
     (case EncodeMessage m limits of
        Inl e \<Rightarrow> (Some (EncodeError e), w)
      | Inr frame \<Rightarrow> write_loop wr w frame)"

section \<open>Parameters\<close>

record parameter =
  p_type :: u16
  p_tv :: bool
  p_data :: bytes

definition tvParameterSizes :: "(u16 \<times> nat) list" where
  "tvParameterSizes = [(4, 9), (6, 2), (7, 3), (8, 3), (12, 3), (13, 13)]"

definition tvParameterSize :: "u16 \<Rightarrow> nat option" where
  "tvParameterSize typeID = map_of tvParameterSizes typeID"

definition EncodeParameter :: "parameter \<Rightarrow> llrp_error + bytes" where
  "EncodeParameter p =
     (if p_tv p then
        if p_type p > 0x7f then Inl ErrMalformedHeader
        else case tvParameterSize (p_type p) of
               None \<Rightarrow> Inl ErrUnsupportedParameter
             | Some sz \<Rightarrow>
                 if sz \<noteq> 1 + length (p_data p) then Inl ErrLengthMismatch
                 else Inr (ucast (0x80 OR p_type p) # p_data p)
      else if p_type p > 0x03ff then Inl ErrMalformedHeader
      else let len = 4 + length (p_data p) in
        if len > 65535 then Inl ErrParameterTooLarge
        else Inr (put_u16 (p_type p) @ put_u16 (of_nat len) @ p_data p))"

definition EncodeParameters :: "parameter list \<Rightarrow> limits \<Rightarrow> llrp_error + bytes" where
  "EncodeParameters parameters limits0 =
     (let limits = normalized limits0 in
      if int (length parameters) > maxParameters limits then Inl ErrParameterLimit
      else fold_res (\<lambda>parameter encoded.
             bind_res (EncodeParameter parameter) (\<lambda>value.
               if length value > unat (maxParameterSize limits) then Inl ErrParameterTooLarge
               else Inr (encoded @ value))) parameters [])"

text \<open>
  One round of the loop of \<open>walkParameters\<close>: everything it checks before it calls the
  visitor, with the parameter it hands over and the bytes that follow it.
\<close>

definition next_parameter :: "limits \<Rightarrow> bytes \<Rightarrow> llrp_error + parameter \<times> bytes" where
  "next_parameter limits data =
     (if hd data AND 0x80 \<noteq> 0 then
        let typeID = ucast (hd data AND 0x7f) in
        case tvParameterSize typeID of
          None \<Rightarrow> Inl ErrUnsupportedParameter
        | Some sz \<Rightarrow>
            if sz > length data then Inl ErrParameterTruncated
            else if sz > unat (maxParameterSize limits) then Inl ErrParameterTooLarge
            else Inr (\<lparr>p_type = typeID, p_tv = True, p_data = drop 1 (take sz data)\<rparr>, drop sz data)
      else if length data < 4 then Inl ErrParameterTruncated
      else let typeID = get_u16 (take 2 data) AND 0x03ff;
               len = unat (get_u16 (take 2 (drop 2 data)))
      in if len < 4 then Inl ErrParameterTruncated
         else if len > unat (maxParameterSize limits) then Inl ErrParameterTooLarge
         else if len > length data then Inl ErrParameterTruncated
         else Inr (\<lparr>p_type = typeID, p_tv = False, p_data = drop 4 (take len data)\<rparr>, drop len data))"

lemma tvParameterSize_Some:
  "tvParameterSize t = Some n \<longleftrightarrow>
     (t = 4 \<and> n = 9) \<or> (t = 6 \<and> n = 2) \<or> (t = 7 \<and> n = 3) \<or> (t = 8 \<and> n = 3) \<or>
     (t = 12 \<and> n = 3) \<or> (t = 13 \<and> n = 13)"
  by (auto simp: tvParameterSize_def tvParameterSizes_def split: if_splits)

lemma next_parameter_shrinks:
  assumes "next_parameter limits data = Inr (p, rest)" "data \<noteq> []"
  shows "length rest < length data"
  using assms
  by (auto simp: next_parameter_def Let_def tvParameterSize_Some length_greater_0_conv [symmetric]
      simp del: length_greater_0_conv split: if_splits option.splits)

function walk_loop ::
  "limits \<Rightarrow> (parameter \<Rightarrow> 's \<Rightarrow> llrp_error + 's) \<Rightarrow> int \<Rightarrow> bytes \<Rightarrow> 's \<Rightarrow> llrp_error + 's" where
  "walk_loop limits visit count data s =
     (if data = [] then Inr s
      else if count \<ge> maxParameters limits then Inl ErrParameterLimit
      else case next_parameter limits data of
             Inl e \<Rightarrow> Inl e
           | Inr (p, rest) \<Rightarrow>
               (case visit p s of
                  Inl e \<Rightarrow> Inl e
                | Inr s' \<Rightarrow> walk_loop limits visit (count + 1) rest s'))"
  by pat_completeness auto
termination
  by (relation "measure (\<lambda>(_, _, _, data, _). length data)") (auto simp: next_parameter_shrinks)

declare walk_loop.simps [simp del]

definition walkParameters ::
  "bytes \<Rightarrow> limits \<Rightarrow> (parameter \<Rightarrow> 's \<Rightarrow> llrp_error + 's) \<Rightarrow> 's \<Rightarrow> llrp_error + 's" where
  "walkParameters data limits visit s = walk_loop (normalized limits) visit 0 data s"

definition DecodeParameters :: "bytes \<Rightarrow> limits \<Rightarrow> llrp_error + parameter list" where
  "DecodeParameters data limits = walkParameters data limits (\<lambda>p ps. Inr (ps @ [p])) []"

section \<open>Facts: messages\<close>

definition wire_form :: "message \<Rightarrow> message" where
  "wire_form m = m\<lparr>m_header := (m_header m)\<lparr>h_length := of_nat (MessageHeaderSize + length (m_payload m))\<rparr>\<rparr>"

definition frame_of :: "message \<Rightarrow> bytes" where
  "frame_of m = put_u16 (h_type (m_header m))
     @ put_u32 (of_nat (MessageHeaderSize + length (m_payload m)))
     @ put_u32 (h_id (m_header m)) @ m_payload m"

definition sendable :: "limits \<Rightarrow> message \<Rightarrow> bool" where
  "sendable l m \<longleftrightarrow>
     MessageHeaderSize + length (m_payload m) \<le> unat (maxFrameSize (normalized l)) \<and>
     (h_length (m_header m) = 0 \<or>
      h_length (m_header m) = of_nat (MessageHeaderSize + length (m_payload m)))"

lemma EncodeMessage_Inr:
  "EncodeMessage m l = Inr frame \<longleftrightarrow> sendable l m \<and> frame = frame_of m"
proof -
  have "unat (maxFrameSize (normalized l)) < 2 ^ 32"
    using unsigned_less [of "maxFrameSize (normalized l)", where ?'a = nat] by simp
  then show ?thesis
    by (auto simp: EncodeMessage_def sendable_def frame_of_def Let_def)
qed

lemma length_frame_of [simp]: "length (frame_of m) = MessageHeaderSize + length (m_payload m)"
  by (simp add: frame_of_def MessageHeaderSize_def)

lemma sendable_length_fits:
  assumes "sendable l m"
  shows "unat (of_nat (MessageHeaderSize + length (m_payload m)) :: u32)
     = MessageHeaderSize + length (m_payload m)"
proof -
  have "MessageHeaderSize + length (m_payload m) < 2 ^ 32"
    using assms unsigned_less [of "maxFrameSize (normalized l)", where ?'a = nat] by (simp add: sendable_def)
  then show ?thesis by (simp add: unat_of_nat_small del: of_nat_add)
qed

lemma frame_of_slices [simp, wire_simps]:
  "take 2 (frame_of m @ rest) = put_u16 (h_type (m_header m))"
  "take 4 (drop 2 (frame_of m @ rest)) = put_u32 (of_nat (MessageHeaderSize + length (m_payload m)))"
  "take 4 (drop 6 (frame_of m @ rest)) = put_u32 (h_id (m_header m))"
  "drop 10 (frame_of m @ rest) = m_payload m @ rest"
  by (simp_all add: frame_of_def put_u16_def put_u32_def numeral_eq_Suc)

lemma DecodeMessage_frame_of:
  assumes "sendable l m"
  shows "DecodeMessage (frame_of m) l = Inr (wire_form m)"
proof -
  have le: "(of_nat (MessageHeaderSize + length (m_payload m)) :: u32) \<le> maxFrameSize (normalized l)"
    using assms sendable_length_fits [OF assms] by (simp add: word_le_nat_alt sendable_def del: of_nat_add)
  obtain t n i b where m: "m = \<lparr>m_header = \<lparr>h_type = t, h_length = n, h_id = i\<rparr>, m_payload = b\<rparr>"
    by (metis header.cases message.cases)
  show ?thesis
    using assms le sendable_length_fits [OF assms]
      frame_of_slices(1-4) [of m "[]", unfolded append_Nil2]
    by (simp add: DecodeMessage_def Let_def wire_form_def sendable_def MessageHeaderSize_def
        not_less m del: of_nat_add)
qed

lemma drop_take_split4:
  "4 \<le> length xs \<Longrightarrow> \<exists>a b c d ys. xs = a # b # c # d # ys"
  by (auto simp: numeral_eq_Suc Suc_le_length_iff)

lemma put_get_slices:
  assumes "10 \<le> length frame"
  shows "put_u16 (get_u16 (take 2 frame)) @ put_u32 (get_u32 (take 4 (drop 2 frame)))
     @ put_u32 (get_u32 (take 4 (drop 6 frame))) @ drop 10 frame = frame"
  using assms
  by (auto simp: numeral_eq_Suc Suc_le_length_iff put_get_u16 put_get_u32 simp del: get_u16.simps get_u32.simps)

lemma DecodeMessage_Inr:
  assumes "DecodeMessage frame l = Inr m"
  shows "sendable l m" "frame = frame_of m" "h_length (m_header m) = of_nat (length frame)"
proof -
  from assms have ok: "10 \<le> length frame" "length frame \<le> unat (maxFrameSize (normalized l))"
      "unat (get_u32 (take 4 (drop 2 frame))) = length frame"
    and m: "m = \<lparr>m_header = \<lparr>h_type = get_u16 (take 2 frame),
         h_length = get_u32 (take 4 (drop 2 frame)), h_id = get_u32 (take 4 (drop 6 frame))\<rparr>,
         m_payload = drop 10 frame\<rparr>"
    by (auto simp: DecodeMessage_def Let_def MessageHeaderSize_def split: if_splits)
  have len: "of_nat (length frame) = get_u32 (take 4 (drop 2 frame))"
    using ok(3) by (rule of_nat_eq_wordI)
  show "h_length (m_header m) = of_nat (length frame)" using m len by simp
  show "sendable l m" using m ok len by (simp add: sendable_def MessageHeaderSize_def)
  have "length (m_payload m) + 10 = length frame" using m ok(1) by simp
  then have "frame_of m = put_u16 (get_u16 (take 2 frame)) @ put_u32 (get_u32 (take 4 (drop 2 frame)))
     @ put_u32 (get_u32 (take 4 (drop 6 frame))) @ drop 10 frame"
    using m len by (simp add: frame_of_def MessageHeaderSize_def add.commute del: of_nat_add)
  then show "frame = frame_of m" using put_get_slices [OF ok(1)] by simp
qed

lemma wire_form_of_decoded:
  "DecodeMessage frame l = Inr m \<Longrightarrow> wire_form m = m"
  using DecodeMessage_Inr [of frame l m] by (simp add: wire_form_def)

section \<open>Facts: transports\<close>

lemma ReadFull_Inr:
  "ReadFull n r = (Inr bs, rest) \<longleftrightarrow> n \<le> length r \<and> bs = take n r \<and> rest = drop n r"
  by (auto simp: ReadFull_def)

lemma ReadMessage_frame_of:
  assumes "sendable l m"
  shows "ReadMessage (frame_of m @ rest) l = (Inr (wire_form m), rest)"
proof -
  let ?n = "MessageHeaderSize + length (m_payload m)"
  have hdr: "take 10 (frame_of m @ rest) @ m_payload m = frame_of m"
    by (simp add: frame_of_def put_u16_def put_u32_def numeral_eq_Suc)
  have hl: "get_u32 (take 4 (drop 2 (take 10 (frame_of m @ rest)))) = of_nat ?n"
    by (simp add: drop_take del: of_nat_add take_append drop_append)
  have body: "take (length (m_payload m)) (m_payload m @ rest) = m_payload m"
    "drop (length (m_payload m)) (m_payload m @ rest) = rest"
    by simp_all
  have split: "drop 10 (frame_of m @ rest) = m_payload m @ rest"
    by (rule frame_of_slices)
  have le: "(of_nat ?n :: u32) \<le> maxFrameSize (normalized l)"
    using assms sendable_length_fits [OF assms] by (simp add: word_le_nat_alt sendable_def del: of_nat_add)
  have dec: "DecodeMessage (frame_of m) (normalized l) = Inr (wire_form m)"
    using DecodeMessage_frame_of [of "normalized l" m] assms by (simp add: sendable_def)
  show ?thesis
    using le dec hl split sendable_length_fits [OF assms]
    by (simp add: ReadMessage_def ReadFull_def Let_def MessageHeaderSize_def not_less hdr body
        del: of_nat_add take_append drop_append)
qed

lemma ReadMessage_Inr:
  assumes "ReadMessage r l = (Inr m, rest)"
  shows "sendable l m" "r = frame_of m @ rest" "wire_form m = m"
proof -
  from assms obtain n where n: "n = unat (get_u32 (take 4 (drop 2 (take 10 r))))"
    and len: "10 \<le> length r" "n - 10 \<le> length (drop 10 r)"
    and dec: "DecodeMessage (take 10 r @ take (n - 10) (drop 10 r)) (normalized l) = Inr m"
    and rest: "rest = drop (n - 10) (drop 10 r)"
    by (auto simp: ReadMessage_def ReadFull_def Let_def MessageHeaderSize_def split: if_splits)
  note D = DecodeMessage_Inr [OF dec] wire_form_of_decoded [OF dec]
  from D(1) show "sendable l m" by (simp add: sendable_def)
  from D(4) show "wire_form m = m" .
  have "r = take 10 r @ take (n - 10) (drop 10 r) @ drop (n - 10) (drop 10 r)"
    by (metis append_take_drop_id)
  with D(2) rest show "r = frame_of m @ rest" by (metis append_assoc)
qed

lemma snd_ReadFull [simp]: "snd (ReadFull n r) = drop n r"
  by (simp add: ReadFull_def)

lemma ReadMessage_consumes:
  assumes "ReadMessage r l = (res, rest)"
  shows "\<exists>n \<le> max MessageHeaderSize (unat (maxFrameSize (normalized l))). rest = drop n r"
proof -
  let ?N = "unat (get_u32 (take 4 (drop 2 (take 10 r))))"
  have "rest = drop 10 r \<or>
     10 \<le> ?N \<and> ?N \<le> unat (maxFrameSize (normalized l)) \<and> rest = drop (?N - 10) (drop 10 r)"
    using assms
    by (auto simp: ReadMessage_def ReadFull_def Let_def MessageHeaderSize_def not_less word_le_nat_alt
        split: if_splits)
  then show ?thesis
  proof
    assume "rest = drop 10 r"
    then show ?thesis by (auto simp: MessageHeaderSize_def intro!: exI [of _ 10])
  next
    assume "10 \<le> ?N \<and> ?N \<le> unat (maxFrameSize (normalized l)) \<and> rest = drop (?N - 10) (drop 10 r)"
    then show ?thesis by (auto intro!: exI [of _ ?N])
  qed
qed

text \<open>A transport read one message at a time.\<close>

definition next_message :: "limits \<Rightarrow> bytes \<Rightarrow> llrp_error + message \<times> bytes" where
  "next_message l r = (case ReadMessage r l of (Inl e, _) \<Rightarrow> Inl e | (Inr m, rest) \<Rightarrow> Inr (m, rest))"

interpretation msg_codec: item_codec frame_of "next_message l"
  "\<lambda>m. sendable l m \<and> wire_form m = m" for l :: limits
  by unfold_locales
    (auto simp: next_message_def ReadMessage_frame_of MessageHeaderSize_def length_greater_0_conv [symmetric]
      simp del: length_greater_0_conv)

lemma frame_of_wire_form [simp]: "frame_of (wire_form m) = frame_of m"
  by (simp add: frame_of_def wire_form_def)

lemma wire_form_idem [simp]: "wire_form (wire_form m) = wire_form m"
  by (simp add: wire_form_def)

lemma sendable_wire_form: "sendable l m \<Longrightarrow> sendable l (wire_form m)"
  by (simp add: sendable_def wire_form_def)

text \<open>Messages sent back to back are read back one by one.\<close>

lemma read_messages:
  assumes "\<forall>m \<in> set ms. sendable l m"
  shows "read_items (next_message l) (length ms) (concat (map frame_of ms) @ rest) = Inr (map wire_form ms, rest)"
proof -
  have "concat (map frame_of (map wire_form ms)) = concat (map frame_of ms)" by (simp add: comp_def)
  with msg_codec.read_items_enc [of "map wire_form ms" l rest] assms show ?thesis
    by (auto simp: sendable_wire_form simp del: map_map)
qed

text \<open>
  The contract of \<^verbatim>\<open>io.Writer\<close>: the count is within the offered bytes and the transport
  has then taken exactly that many of them.
\<close>

definition writer_ok ::
  "('w \<Rightarrow> bytes) \<Rightarrow> ('w \<Rightarrow> bytes \<Rightarrow> int \<times> 'x option \<times> 'w) \<Rightarrow> bool" where
  "writer_ok sent wr \<longleftrightarrow> (\<forall>w b n e w'. wr w b = (n, e, w') \<longrightarrow>
     0 \<le> n \<and> n \<le> int (length b) \<and> sent w' = sent w @ take (nat n) b)"

lemma write_loop_sent:
  assumes ok: "writer_ok sent wr" and run: "write_loop wr w frame = (r, w')"
  shows "\<exists>k \<le> length frame. sent w' = sent w @ take k frame \<and> (r = None \<longrightarrow> k = length frame)"
  using run
proof (induction frame arbitrary: w rule: length_induct)
  case (1 frame)
  obtain n e w1 where st: "wr w frame = (n, e, w1)" by (cases "wr w frame")
  with ok have n: "0 \<le> n" "n \<le> int (length frame)" "sent w1 = sent w @ take (nat n) frame"
    by (auto simp: writer_ok_def)
  show ?case
  proof (cases "frame = [] \<or> e \<noteq> None \<or> n = 0")
    case True
    then show ?thesis
      using "1.prems" n st by (auto simp: write_loop.simps [of wr w frame] intro!: exI [of _ "nat n"]
        split: if_splits option.splits)
  next
    case False
    with "1.prems" n st have rec: "write_loop wr w1 (drop (nat n) frame) = (r, w')"
      by (auto simp: write_loop.simps [of wr w frame])
    have "length (drop (nat n) frame) < length frame" using False n by auto
    with "1.IH" rec obtain k where k: "k \<le> length (drop (nat n) frame)"
      "sent w' = sent w1 @ take k (drop (nat n) frame)" "r = None \<longrightarrow> k = length (drop (nat n) frame)"
      by blast
    have "sent w' = sent w @ take (nat n + k) frame" using k(2) n(3) by (simp add: take_add)
    with k n show ?thesis by (intro exI [of _ "nat n + k"]) auto
  qed
qed

section \<open>Facts: parameters\<close>

definition enc_param :: "parameter \<Rightarrow> bytes" where
  "enc_param p = (case EncodeParameter p of Inl _ \<Rightarrow> [] | Inr bs \<Rightarrow> bs)"

definition param_ok :: "limits \<Rightarrow> parameter \<Rightarrow> bool" where
  "param_ok l p \<longleftrightarrow> (\<exists>bs. EncodeParameter p = Inr bs \<and> length bs \<le> unat (maxParameterSize l))"

lemma EncodeParameter_Inr:
  "EncodeParameter p = Inr bs \<longleftrightarrow>
     (if p_tv p
      then tvParameterSize (p_type p) = Some (1 + length (p_data p)) \<and>
           bs = ucast (0x80 OR p_type p) # p_data p
      else p_type p \<le> 0x03ff \<and> 4 + length (p_data p) \<le> 65535 \<and>
           bs = put_u16 (p_type p) @ put_u16 (of_nat (4 + length (p_data p))) @ p_data p)"
proof (cases "p_tv p")
  case True
  have "p_type p \<le> 0x7f" if "tvParameterSize (p_type p) = Some n" for n
    using that by (auto simp: tvParameterSize_Some)
  with True show ?thesis
    by (auto simp: EncodeParameter_def not_less split: option.splits)
next
  case False
  then show ?thesis
    by (auto simp: EncodeParameter_def Let_def not_less)
qed

lemma tv_first_byte:
  assumes "tvParameterSize t = Some n"
  shows "(ucast (0x80 OR t) :: byte) AND 0x80 \<noteq> 0"
    "(ucast ((ucast (0x80 OR t) :: byte) AND 0x7f) :: u16) = t"
  using assms by (auto simp: tvParameterSize_Some)

lemma tlv_first_byte:
  assumes "t \<le> 0x03ff"
  shows "hd (put_u16 t @ xs) AND 0x80 = 0" "t AND 0x03ff = t"
proof -
  have small: "\<not> bit t n" if "10 \<le> n" for n
  proof -
    have "take_bit 10 (unat t) = unat t"
      using assms by (simp add: word_le_nat_alt take_bit_nat_eq_self_iff)
    then have "take_bit 10 t = t"
      by (metis unsigned_take_bit_eq word_unat_eq_iff)
    then show ?thesis using that by (metis bit_take_bit_iff not_le)
  qed
  show "hd (put_u16 t @ xs) AND 0x80 = 0"
  proof (rule bit_word_eqI)
    fix n assume "n < LENGTH(8)"
    have "bit (0x80 :: byte) n \<longleftrightarrow> n = 7"
    proof -
      have "(0x80 :: byte) = push_bit 7 1" by simp
      then show ?thesis using \<open>n < LENGTH(8)\<close> by (simp only: bit_simps) auto
    qed
    then show "bit (hd (put_u16 t @ xs) AND 0x80) n = bit (0 :: byte) n"
      using small [of 15] by (auto simp: put_u16_def bit_simps)
  qed
  show "t AND 0x03ff = t"
  proof -
    have "(0x03ff :: u16) = mask 10" by (simp add: mask_eq_exp_minus_1)
    then have "t AND 0x03ff = take_bit 10 t" by (simp only: take_bit_eq_mask [symmetric])
    also have "\<dots> = t" using small by (auto intro!: bit_word_eqI simp: bit_take_bit_iff) (meson not_le)
    finally show ?thesis .
  qed
qed

lemma next_parameter_enc:
  assumes "EncodeParameter p = Inr bs" "length bs \<le> unat (maxParameterSize l)"
  shows "next_parameter l (bs @ rest) = Inr (p, rest)"
proof (cases "p_tv p")
  case True
  with assms(1) have tv: "tvParameterSize (p_type p) = Some (1 + length (p_data p))"
    and bs: "bs = ucast (0x80 OR p_type p) # p_data p"
    by (simp_all add: EncodeParameter_Inr)
  have p: "p = \<lparr>p_type = p_type p, p_tv = True, p_data = p_data p\<rparr>" using True by simp
  show ?thesis
    using tv tv_first_byte [OF tv] assms(2) True
    by (subst p) (simp add: next_parameter_def bs Let_def not_less)
next
  case False
  with assms(1) have t: "p_type p \<le> 0x03ff" and len: "4 + length (p_data p) \<le> 65535"
    and bs: "bs = put_u16 (p_type p) @ put_u16 (of_nat (4 + length (p_data p))) @ p_data p"
    by (simp_all add: EncodeParameter_Inr)
  let ?n = "4 + length (p_data p)"
  have n: "unat (of_nat ?n :: u16) = ?n" using len by (intro unat_of_nat_small) simp
  have p: "p = \<lparr>p_type = p_type p, p_tv = False, p_data = p_data p\<rparr>" using False by simp
  have slices: "take 2 (bs @ rest) = put_u16 (p_type p)"
    "take 2 (drop 2 (bs @ rest)) = put_u16 (of_nat ?n)"
    "drop 4 (take ?n (bs @ rest)) = p_data p" "drop ?n (bs @ rest) = rest"
    "length (bs @ rest) = ?n + length rest"
    by (simp_all add: bs put_u16_def numeral_eq_Suc)
  have hd: "hd (bs @ rest) AND 0x80 = 0"
    using tlv_first_byte(1) [OF t] by (simp add: bs)
  show ?thesis
    using assms(2) slices hd tlv_first_byte(2) [OF t] n
    by (subst p) (simp add: next_parameter_def Let_def not_less bs del: append_assoc of_nat_add
        take_append drop_append)
qed

interpretation param_codec: item_codec enc_param "next_parameter l" "param_ok l" for l :: limits
proof unfold_locales
  fix p rest assume "param_ok l p"
  then obtain bs where bs: "EncodeParameter p = Inr bs" "length bs \<le> unat (maxParameterSize l)"
    by (auto simp: param_ok_def)
  then show "enc_param p \<noteq> []"
    using bs(1) by (simp add: enc_param_def) (auto simp: EncodeParameter_Inr put_u16_def split: if_splits)
  show "next_parameter l (enc_param p @ rest) = Inr (p, rest)"
    using bs by (simp add: enc_param_def next_parameter_enc)
qed

text \<open>The walk is a fold over the parameters the bytes parse to, whatever the visitor does.\<close>

lemma walk_loop_parses:
  "parses (next_parameter l) data ps \<Longrightarrow> count + int (length ps) \<le> maxParameters l \<Longrightarrow>
   walk_loop l visit count data s = fold_res visit ps s"
proof (induction arbitrary: count s rule: parses.induct)
  case parses_Nil
  then show ?case by (simp add: walk_loop.simps)
next
  case (parses_Cons data p rest ps)
  then show ?case
    by (subst walk_loop.simps) (auto simp: bind_res_def split: sum.splits)
qed

lemma walk_loop_Inr_parses:
  assumes "walk_loop l visit count data s = Inr s'" "0 \<le> count"
  shows "\<exists>ps. parses (next_parameter l) data ps \<and>
    (ps \<noteq> [] \<longrightarrow> count + int (length ps) \<le> maxParameters l)"
  using assms
proof (induction l visit count data s rule: walk_loop.induct)
  case (1 l visit count data s)
  show ?case
  proof (cases "data = []")
    case True
    then show ?thesis by auto
  next
    case False
    with "1.prems" obtain p rest s1 where st: "next_parameter l data = Inr (p, rest)"
      "visit p s = Inr s1" "walk_loop l visit (count + 1) rest s1 = Inr s'" "count < maxParameters l"
      by (auto simp: walk_loop.simps [of l visit count data s] split: if_splits sum.splits)
    with "1.IH" [OF False _ st(1) refl st(2)] "1.prems" obtain ps where
      "parses (next_parameter l) rest ps" "ps \<noteq> [] \<longrightarrow> count + 1 + int (length ps) \<le> maxParameters l"
      by auto
    with st False show ?thesis
      by (intro exI [of _ "p # ps"]) (auto intro: parses_Cons)
  qed
qed

lemma fold_res_snoc: "fold_res (\<lambda>p ps. Inr (ps @ [p])) xs s = Inr (s @ xs)"
  by (induction xs arbitrary: s) simp_all

lemma DecodeParameters_iff:
  "DecodeParameters data l = Inr ps \<longleftrightarrow>
     parses (next_parameter (normalized l)) data ps \<and>
     (ps \<noteq> [] \<longrightarrow> int (length ps) \<le> maxParameters (normalized l))"
proof
  assume dec: "DecodeParameters data l = Inr ps"
  then obtain qs where qs: "parses (next_parameter (normalized l)) data qs"
    "qs \<noteq> [] \<longrightarrow> int (length qs) \<le> maxParameters (normalized l)"
    using walk_loop_Inr_parses [of "normalized l" _ 0 data "[]" ps]
    by (auto simp: DecodeParameters_def walkParameters_def)
  have "qs = ps"
  proof (cases "qs = []")
    case True
    with qs dec show ?thesis
      by (auto simp: DecodeParameters_def walkParameters_def walk_loop.simps elim: parses.cases)
  next
    case False
    with qs dec walk_loop_parses [OF qs(1), of 0 "\<lambda>p ps. Inr (ps @ [p])" "[]"] show ?thesis
      by (simp add: DecodeParameters_def walkParameters_def fold_res_snoc)
  qed
  with qs show "parses (next_parameter (normalized l)) data ps \<and>
     (ps \<noteq> [] \<longrightarrow> int (length ps) \<le> maxParameters (normalized l))" by simp
next
  assume ps: "parses (next_parameter (normalized l)) data ps \<and>
     (ps \<noteq> [] \<longrightarrow> int (length ps) \<le> maxParameters (normalized l))"
  show "DecodeParameters data l = Inr ps"
  proof (cases "ps = []")
    case True
    with ps have "data = []" by (auto elim: parses.cases)
    with True show ?thesis
      by (simp add: DecodeParameters_def walkParameters_def walk_loop.simps)
  next
    case False
    with ps walk_loop_parses [of "normalized l" data ps 0 "\<lambda>p ps. Inr (ps @ [p])" "[]"] show ?thesis
      by (simp add: DecodeParameters_def walkParameters_def fold_res_snoc)
  qed
qed

text \<open>Any walk over a list that decodes is a fold over the decoded parameters.\<close>

lemma walkParameters_decoded:
  assumes "DecodeParameters data l = Inr ps"
  shows "walkParameters data l visit s = fold_res visit ps s"
proof (cases "ps = []")
  case True
  with assms have "data = []" by (auto simp: DecodeParameters_iff elim: parses.cases)
  with True show ?thesis by (simp add: walkParameters_def walk_loop.simps)
next
  case False
  with assms walk_loop_parses [of "normalized l" data ps 0 visit s] show ?thesis
    by (simp add: DecodeParameters_iff walkParameters_def)
qed

text \<open>Visitors that never fail agree on which structural error a walk reports.\<close>

lemma walk_loop_structural_error:
  assumes "\<And>p s. is_ok (v1 p s)" "\<And>p s. is_ok (v2 p s)"
    "walk_loop l v1 count data s1 = Inl e"
  shows "walk_loop l v2 count data s2 = Inl e"
  using assms(3)
proof (induction data arbitrary: count s1 s2 rule: length_induct)
  case (1 data)
  show ?case
  proof (cases "data = [] \<or> maxParameters l \<le> count \<or> (\<exists>e. next_parameter l data = Inl e)")
    case True
    with "1.prems" show ?thesis by (auto simp: walk_loop.simps [of l _ count data])
  next
    case False
    then obtain p rest where st: "next_parameter l data = Inr (p, rest)"
      by (cases "next_parameter l data") auto
    obtain t1 t2 where v: "v1 p s1 = Inr t1" "v2 p s2 = Inr t2"
      using assms(1,2) by (meson is_ok_iff)
    from False st have "length rest < length data" by (simp add: next_parameter_shrinks)
    with "1.IH" "1.prems" False st v show ?thesis
      by (auto simp: walk_loop.simps [of l _ count data])
  qed
qed

lemma walkParameters_structural_error:
  assumes "DecodeParameters data l = Inl e" "\<And>p s. is_ok (visit p s)"
  shows "walkParameters data l visit s = Inl e"
  using walk_loop_structural_error [of "\<lambda>p ps. Inr (ps @ [p])" visit] assms
  by (simp add: DecodeParameters_def walkParameters_def)

lemma EncodeParameters_Inr:
  assumes "EncodeParameters ps l = Inr bs"
  shows "bs = concat (map enc_param ps)" "\<forall>p \<in> set ps. param_ok (normalized l) p"
    "int (length ps) \<le> maxParameters (normalized l)"
proof -
  let ?f = "\<lambda>parameter encoded. bind_res (EncodeParameter parameter) (\<lambda>value.
    if length value > unat (maxParameterSize (normalized l)) then Inl ErrParameterTooLarge
    else Inr (encoded @ value))"
  from assms have n: "int (length ps) \<le> maxParameters (normalized l)"
    and f: "fold_res ?f ps [] = Inr bs"
    by (auto simp: EncodeParameters_def Let_def split: if_splits)
  have "out = acc @ concat (map enc_param qs) \<and> (\<forall>p \<in> set qs. param_ok (normalized l) p)"
    if "fold_res ?f qs acc = Inr out" for qs acc out
    using that
    by (induction qs arbitrary: acc)
      (fastforce simp: enc_param_def param_ok_def not_less split: if_splits)+
  from this [OF f] n show "bs = concat (map enc_param ps)"
    "\<forall>p \<in> set ps. param_ok (normalized l) p" "int (length ps) \<le> maxParameters (normalized l)"
    by auto
qed

section \<open>Properties\<close>

text \<open>
  Encoding and decoding are inverse, through a buffer and through a transport: a message
  that \<open>EncodeMessage\<close> accepts comes back with its type, identifier and payload unchanged and
  its length field filled in, both from \<open>DecodeMessage\<close> and from \<open>ReadMessage\<close>, which leaves
  whatever follows the frame unread.
\<close>

theorem message_roundtrip:
  assumes "EncodeMessage m l = Inr frame"
  shows "DecodeMessage frame l = Inr (wire_form m) \<and>
    ReadMessage (frame @ rest) l = (Inr (wire_form m), rest)"
  using assms by (auto simp: EncodeMessage_Inr DecodeMessage_frame_of ReadMessage_frame_of)

lemma message_roundtrip_witness:
  "ReadMessage ([4, 62, 0, 0, 0, 11, 0, 0, 0, 7, 99] @ [1, 2]) DefaultLimits =
     (Inr \<lparr>m_header = \<lparr>h_type = 1086, h_length = 11, h_id = 7\<rparr>, m_payload = [99]\<rparr>, [1, 2])"
  using message_roundtrip [of "\<lparr>m_header = \<lparr>h_type = 1086, h_length = 0, h_id = 7\<rparr>, m_payload = [99]\<rparr>"
      DefaultLimits "[4, 62, 0, 0, 0, 11, 0, 0, 0, 7, 99]" "[1, 2]"]
  by (simp add: EncodeMessage_def Let_def wire_form_def MessageHeaderSize_def put_u16_def put_u32_def)

text \<open>
  C24. The decoder is canonical: every frame it accepts is byte for byte the frame
  \<open>EncodeMessage\<close> produces for the decoded message under the same limits, so no two frames
  decode to the same message.
\<close>

theorem decode_canonical:
  assumes "DecodeMessage frame l = Inr m"
  shows "EncodeMessage m l = Inr frame"
  using DecodeMessage_Inr [OF assms] by (simp add: EncodeMessage_Inr)

lemma decode_canonical_witness:
  "EncodeMessage \<lparr>m_header = \<lparr>h_type = 1096, h_length = 10, h_id = 258\<rparr>, m_payload = []\<rparr> DefaultLimits =
     Inr [4, 72, 0, 0, 0, 10, 0, 0, 1, 2]"
  by (rule decode_canonical) (simp add: DecodeMessage_def Let_def MessageHeaderSize_def)

text \<open>
  Reading from an untrusted transport is bounded: whatever the bytes, \<open>ReadMessage\<close> takes
  at most \<open>MaxFrameSize\<close> bytes (or one header, if that is more), and when it succeeds it has
  taken exactly the frame \<open>EncodeMessage\<close> produces for the message it returns.
\<close>

theorem ReadMessage_bounded:
  "(case ReadMessage r l of
      (Inr m, rest) \<Rightarrow> \<exists>frame. EncodeMessage m l = Inr frame \<and> r = frame @ rest
    | (Inl e, rest) \<Rightarrow> True) \<and>
   length r - length (snd (ReadMessage r l)) \<le> max MessageHeaderSize (unat (maxFrameSize (normalized l)))"
proof -
  obtain res rest where run: "ReadMessage r l = (res, rest)" by (cases "ReadMessage r l")
  have "length r - length rest \<le> max MessageHeaderSize (unat (maxFrameSize (normalized l)))"
    using ReadMessage_consumes [OF run] by auto
  then show ?thesis
    using run ReadMessage_Inr [of r l] by (cases res) (auto simp: EncodeMessage_Inr)
qed

text \<open>
  Under the contract of \<^verbatim>\<open>io.Writer\<close>, \<open>WriteMessage\<close> puts a prefix of the encoded frame
  on the transport and nothing else; if it reports success, the transport got the whole
  frame, however many partial writes that took; a message that does not encode leaves the
  transport untouched.
\<close>

theorem WriteMessage_sends:
  assumes "writer_ok sent wr" "WriteMessage wr w m l = (r, w')"
  shows "case EncodeMessage m l of
      Inl e \<Rightarrow> r = Some (EncodeError e) \<and> w' = w
    | Inr frame \<Rightarrow> \<exists>k \<le> length frame. sent w' = sent w @ take k frame \<and> (r = None \<longrightarrow> k = length frame)"
  using assms(2) write_loop_sent [OF assms(1)] by (auto simp: WriteMessage_def split: sum.splits)

text \<open>A transport that takes at most four bytes at a time.\<close>

definition slow_writer :: "bytes \<Rightarrow> bytes \<Rightarrow> int \<times> unit option \<times> bytes" where
  "slow_writer w b = (int (min 4 (length b)), None, w @ take 4 b)"

lemma WriteMessage_sends_witness:
  "snd (WriteMessage slow_writer [] \<lparr>m_header = \<lparr>h_type = 1096, h_length = 0, h_id = 1\<rparr>, m_payload = []\<rparr>
     DefaultLimits) = [4, 72, 0, 0, 0, 10, 0, 0, 0, 1]"
proof -
  let ?m = "\<lparr>m_header = \<lparr>h_type = 1096, h_length = 0, h_id = 1\<rparr>, m_payload = []\<rparr>"
  have ok: "writer_ok (\<lambda>w. w) slow_writer"
    by (auto simp: writer_ok_def slow_writer_def min_def)
  have enc: "EncodeMessage ?m DefaultLimits = Inr [4, 72, 0, 0, 0, 10, 0, 0, 0, 1]"
    by (simp add: EncodeMessage_def Let_def MessageHeaderSize_def put_u16_def put_u32_def)
  have run: "fst (WriteMessage slow_writer [] ?m DefaultLimits) = None"
    by (simp add: WriteMessage_def enc) (simp add: write_loop.simps slow_writer_def)
  obtain r w' where rw: "WriteMessage slow_writer [] ?m DefaultLimits = (r, w')"
    by (cases "WriteMessage slow_writer [] ?m DefaultLimits")
  from WriteMessage_sends [OF ok rw] run rw enc show ?thesis by auto
qed

text \<open>
  Parameter lists round trip: what \<open>EncodeParameters\<close> accepts, TLV and TV parameters in
  any mix, \<open>DecodeParameters\<close> reads back under the same limits as the same list.
\<close>

theorem parameters_roundtrip:
  assumes "EncodeParameters ps l = Inr bs"
  shows "DecodeParameters bs l = Inr ps"
  using param_codec.parses_enc [OF EncodeParameters_Inr(2) [OF assms]] EncodeParameters_Inr [OF assms]
  by (simp add: DecodeParameters_iff)

lemma parameters_roundtrip_witness:
  "DecodeParameters [140, 48, 0, 1, 31, 0, 8, 0, 0, 0, 0] DefaultLimits =
     Inr [\<lparr>p_type = 12, p_tv = True, p_data = [48, 0]\<rparr>, \<lparr>p_type = 287, p_tv = False, p_data = [0, 0, 0, 0]\<rparr>]"
  by (rule parameters_roundtrip)
    (simp add: EncodeParameters_def EncodeParameter_def Let_def tvParameterSize_def tvParameterSizes_def
      put_u16_def)

end
