(* ===== verification/Llrp_Report.thy ===== *)
theory Llrp_Report
  imports Llrp
begin

text \<open>
  The LLRP payloads the two programs exchange: the parameter builders of
  \<^verbatim>\<open>src/llrp/parameter.go\<close>, the tag report of \<^verbatim>\<open>tag_report_data.go\<close>, the typed messages
  of \<^verbatim>\<open>typed_messages.go\<close>, and the decoder of \<^verbatim>\<open>ro_access_report_codec.go\<close> that reads tag
  reports back. \<^verbatim>\<open>pack\<close> writes each value big-endian, one after the other.
\<close>

section \<open>Message types\<close>

definition GetReaderConfigHeader :: u16 where "GetReaderConfigHeader = 1026"
definition SetReaderConfigHeader :: u16 where "SetReaderConfigHeader = 1027"
definition SetReaderConfigResponseHeader :: u16 where "SetReaderConfigResponseHeader = 1037"
definition ROAccessReportHeader :: u16 where "ROAccessReportHeader = 1085"
definition KeepaliveHeader :: u16 where "KeepaliveHeader = 1086"
definition ReaderEventNotificationHeader :: u16 where "ReaderEventNotificationHeader = 1087"
definition KeepaliveAckHeader :: u16 where "KeepaliveAckHeader = 1096"

lemmas header_defs = SetReaderConfigHeader_def SetReaderConfigResponseHeader_def
  ROAccessReportHeader_def KeepaliveHeader_def ReaderEventNotificationHeader_def
  KeepaliveAckHeader_def

section \<open>Parameter builders\<close>

definition c1G2PC :: "u16 \<Rightarrow> bytes" where
  "c1G2PC pc = [140] @ put_u16 pc"

definition connectionAttemptEvent :: bytes where
  "connectionAttemptEvent = put_u16 256 @ put_u16 6 @ put_u16 0"

definition EPCData :: "u16 \<Rightarrow> u16 \<Rightarrow> bytes \<Rightarrow> bytes" where
  "EPCData len epcLengthBits epc =
     (if epcLengthBits = 96 then [141] @ epc
      else put_u16 241 @ put_u16 len @ put_u16 epcLengthBits @ epc)"

definition keepaliveSpec :: bytes where
  "keepaliveSpec = put_u16 220 @ put_u16 9 @ [1] @ put_u32 10000"

definition status :: bytes where
  "status = put_u16 287 @ put_u16 8 @ put_u16 0 @ put_u16 0"

definition uTCTimeStamp :: "u64 \<Rightarrow> bytes" where
  "uTCTimeStamp currentTime = put_u16 128 @ put_u16 12 @ put_u64 currentTime"

definition readerEventNotificationData :: "u64 \<Rightarrow> bytes" where
  "readerEventNotificationData currentTime =
     (let utcTimeStamp = uTCTimeStamp currentTime;
          dataLength = length utcTimeStamp + length connectionAttemptEvent + 4
      in put_u16 246 @ put_u16 (of_nat dataLength) @ utcTimeStamp @ connectionAttemptEvent)"

definition NewTagReportDataParam :: "bytes \<Rightarrow> u16 \<Rightarrow> llrp_error + bytes" where
  "NewTagReportDataParam epc pcBits =
     (if length epc > 8191 then Inl ErrEPCTooLong
      else let epcLengthBits = length epc * 8;
               len = 4 + 2 + length epc;
               epcd = EPCData (of_nat len) (of_nat epcLengthBits) epc;
               aptd = c1G2PC pcBits;
               tagReportDataLength = length epcd + length aptd + 4
      in Inr (put_u16 240 @ put_u16 (of_nat tagReportDataLength) @ epcd @ aptd))"

section \<open>Typed messages\<close>

definition typed_message :: "u16 \<Rightarrow> u32 \<Rightarrow> bytes \<Rightarrow> message" where
  "typed_message t messageID payload =
     \<lparr>m_header = \<lparr>h_type = t, h_length = 0, h_id = messageID\<rparr>, m_payload = payload\<rparr>"

definition KeepaliveMessage :: "u32 \<Rightarrow> message" where
  "KeepaliveMessage messageID = typed_message KeepaliveHeader messageID []"

definition KeepaliveAckMessage :: "u32 \<Rightarrow> message" where
  "KeepaliveAckMessage messageID = typed_message KeepaliveAckHeader messageID []"

definition ReaderEventNotificationMessage :: "u32 \<Rightarrow> u64 \<Rightarrow> message" where
  "ReaderEventNotificationMessage messageID currentTime =
     typed_message ReaderEventNotificationHeader messageID (readerEventNotificationData currentTime)"

definition SetReaderConfigMessage :: "u32 \<Rightarrow> message" where
  "SetReaderConfigMessage messageID =
     typed_message SetReaderConfigHeader messageID ([0] @ keepaliveSpec)"

definition SetReaderConfigResponseMessage :: "u32 \<Rightarrow> message" where
  "SetReaderConfigResponseMessage messageID =
     typed_message SetReaderConfigResponseHeader messageID status"

definition ROAccessReportMessage :: "bytes \<Rightarrow> u32 \<Rightarrow> message" where
  "ROAccessReportMessage tagReportData messageID =
     typed_message ROAccessReportHeader messageID tagReportData"

lemmas typed_message_defs = KeepaliveMessage_def KeepaliveAckMessage_def
  ReaderEventNotificationMessage_def SetReaderConfigMessage_def
  SetReaderConfigResponseMessage_def ROAccessReportMessage_def typed_message_def

section \<open>Decoding tag reports\<close>

text \<open>\<open>None\<close> is Go's nil slice: the report carried no protocol-control word.\<close>

record read_event =
  ev_id :: bytes
  ev_pc :: "bytes option"

definition tag_report_visit :: "parameter \<Rightarrow> read_event \<Rightarrow> llrp_error + read_event" where
  "tag_report_visit parameter v =
     (if p_type parameter = 12 then
        (if \<not> p_tv parameter \<or> length (p_data parameter) \<noteq> 2 then Inl ErrMalformedTagReport
         else Inr (v\<lparr>ev_pc := Some (p_data parameter)\<rparr>))
      else if p_type parameter = 13 then
        (if \<not> p_tv parameter \<or> length (p_data parameter) \<noteq> 12 then Inl ErrMalformedTagReport
         else Inr (v\<lparr>ev_id := p_data parameter\<rparr>))
      else if p_type parameter = 241 then
        (if p_tv parameter \<or> length (p_data parameter) < 2 then Inl ErrMalformedTagReport
         else let bits = unat (get_u16 (take 2 (p_data parameter)));
                  bytesNeeded = (bits + 7) div 8
         in if bits = 0 \<or> bytesNeeded > length (p_data parameter) - 2 then Inl ErrMalformedTagReport
            else Inr (v\<lparr>ev_id := take bytesNeeded (drop 2 (p_data parameter))\<rparr>))
      else Inr v)"

definition decodeTagReportData :: "bytes \<Rightarrow> limits \<Rightarrow> llrp_error + read_event" where
  "decodeTagReportData data limits =
     bind_res (walkParameters data limits (\<lambda>_ u. Inr u) ()) (\<lambda>_.
     bind_res (walkParameters data limits tag_report_visit \<lparr>ev_id = [], ev_pc = None\<rparr>) (\<lambda>v.
       if ev_id v = [] then Inl ErrMissingEPC else Inr v))"

definition read_events_visit :: "limits \<Rightarrow> parameter \<Rightarrow> read_event list \<Rightarrow> llrp_error + read_event list" where
  "read_events_visit limits report views =
     (if p_tv report \<or> p_type report \<noteq> 240 then Inr views
      else case decodeTagReportData (p_data report) limits of
             Inl ErrMissingEPC \<Rightarrow> Inr views
           | Inl e \<Rightarrow> Inl e
           | Inr view \<Rightarrow> Inr (views @ [view]))"

text \<open>
  The two passes of the code: the first validates the whole list (and counts the reports to
  size a buffer), the second decodes. The shared backing array the code copies EPC and PC
  bytes into is invisible in the result.
\<close>

definition DecodeReadEvents :: "bytes \<Rightarrow> limits \<Rightarrow> llrp_error + read_event list" where
  "DecodeReadEvents body limits =
     bind_res (walkParameters body limits
         (\<lambda>p reports. Inr (if \<not> p_tv p \<and> p_type p = 240 then reports + 1 else reports)) (0 :: nat)) (\<lambda>_.
     walkParameters body limits (read_events_visit limits) [])"

section \<open>Facts\<close>

definition epc_param :: "bytes \<Rightarrow> parameter" where
  "epc_param epc =
     (if length epc = 12 then \<lparr>p_type = 13, p_tv = True, p_data = epc\<rparr>
      else \<lparr>p_type = 241, p_tv = False, p_data = put_u16 (of_nat (length epc * 8)) @ epc\<rparr>)"

definition pc_param :: "u16 \<Rightarrow> parameter" where
  "pc_param pc = \<lparr>p_type = 12, p_tv = True, p_data = put_u16 pc\<rparr>"

definition report_param :: "bytes \<times> u16 \<Rightarrow> parameter" where
  "report_param t = \<lparr>p_type = 240, p_tv = False,
     p_data = enc_param (epc_param (fst t)) @ enc_param (pc_param (snd t))\<rparr>"

lemma bits_96_iff: "length epc \<le> 8191 \<Longrightarrow> (of_nat (length epc * 8) :: u16) = 96 \<longleftrightarrow> length epc = 12"
proof
  assume len: "length epc \<le> 8191" and eq: "(of_nat (length epc * 8) :: u16) = 96"
  have "unat (of_nat (length epc * 8) :: u16) = length epc * 8"
    using len by (intro unat_of_nat_small) simp
  with eq show "length epc = 12" by (simp del: of_nat_mult)
qed simp

lemma EncodeParameter_epc:
  "length epc \<le> 8191 \<Longrightarrow>
   EncodeParameter (epc_param epc) =
     Inr (EPCData (of_nat (4 + 2 + length epc)) (of_nat (length epc * 8)) epc)"
  by (simp add: EncodeParameter_Inr epc_param_def EPCData_def bits_96_iff tvParameterSize_Some
      del: of_nat_mult)

lemma EncodeParameter_pc: "EncodeParameter (pc_param pc) = Inr (c1G2PC pc)"
  by (simp add: EncodeParameter_Inr pc_param_def c1G2PC_def tvParameterSize_Some)

lemma length_EPCData: "length (EPCData n b epc) \<le> 6 + length epc"
  by (simp add: EPCData_def)

lemma EncodeParameter_report:
  assumes "length epc \<le> 8191"
  shows "NewTagReportDataParam epc pc = EncodeParameter (report_param (epc, pc))"
proof -
  have enc: "enc_param (epc_param epc) = EPCData (of_nat (4 + 2 + length epc)) (of_nat (length epc * 8)) epc"
    "enc_param (pc_param pc) = c1G2PC pc"
    using assms by (simp_all add: enc_param_def EncodeParameter_epc EncodeParameter_pc)
  have "length (EPCData (of_nat (4 + 2 + length epc)) (of_nat (length epc * 8)) epc) \<le> 6 + 8191"
    using length_EPCData assms by (meson add_left_mono le_trans)
  then have "EncodeParameter (report_param (epc, pc)) = Inr (put_u16 240 @
      put_u16 (of_nat (4 + length (enc_param (epc_param epc) @ enc_param (pc_param pc)))) @
      enc_param (epc_param epc) @ enc_param (pc_param pc))"
    unfolding EncodeParameter_Inr by (simp add: report_param_def enc c1G2PC_def)
  then show ?thesis
    using assms by (simp add: NewTagReportDataParam_def Let_def enc add.commute del: of_nat_add)
qed

definition tag_report :: "bytes \<times> u16 \<Rightarrow> bytes" where
  "tag_report t = enc_param (report_param t)"

definition tag_fits :: "limits \<Rightarrow> bytes \<times> u16 \<Rightarrow> bool" where
  "tag_fits l t \<longleftrightarrow> fst t \<noteq> [] \<and> length (fst t) \<le> 8191 \<and>
     length (tag_report t) \<le> unat (maxParameterSize (normalized l)) \<and>
     2 \<le> maxParameters (normalized l)"

definition event_of :: "bytes \<times> u16 \<Rightarrow> read_event" where
  "event_of t = \<lparr>ev_id = fst t, ev_pc = Some (put_u16 (snd t))\<rparr>"

lemma NewTagReportDataParam_tag_report:
  "length epc \<le> 8191 \<Longrightarrow> NewTagReportDataParam epc pc = Inr (tag_report (epc, pc))"
proof -
  assume len: "length epc \<le> 8191"
  then obtain bs where "NewTagReportDataParam epc pc = Inr bs"
    by (simp add: NewTagReportDataParam_def Let_def)
  moreover from this EncodeParameter_report [OF len, of pc]
  have "EncodeParameter (report_param (epc, pc)) = Inr bs" by simp
  ultimately show ?thesis by (simp add: tag_report_def enc_param_def)
qed

lemma report_param_ok:
  assumes "tag_fits l t"
  shows "param_ok (normalized l) (report_param t)"
    "param_ok (normalized l) (epc_param (fst t))" "param_ok (normalized l) (pc_param (snd t))"
proof -
  obtain epc pc where t: "t = (epc, pc)" by (cases t)
  have len: "length epc \<le> 8191" using assms by (simp add: tag_fits_def t)
  note enc = NewTagReportDataParam_tag_report [OF len, of pc, unfolded EncodeParameter_report [OF len]]
  show rep: "param_ok (normalized l) (report_param t)"
    using assms enc by (auto simp: param_ok_def tag_fits_def t)
  have split: "tag_report t = put_u16 240 @
      put_u16 (of_nat (4 + length (p_data (report_param t)))) @
      enc_param (epc_param epc) @ enc_param (pc_param pc)"
    using enc unfolding EncodeParameter_Inr by (simp add: t report_param_def del: of_nat_add)
  have "length (enc_param (epc_param epc)) \<le> length (tag_report t)"
    "length (enc_param (pc_param pc)) \<le> length (tag_report t)"
    by (simp_all add: split)
  with assms show "param_ok (normalized l) (epc_param (fst t))" "param_ok (normalized l) (pc_param (snd t))"
    using EncodeParameter_epc [OF len] EncodeParameter_pc [of pc]
    by (auto simp: param_ok_def tag_fits_def t enc_param_def)
qed

lemma tag_report_contents:
  assumes "tag_fits l t"
  shows "DecodeParameters (p_data (report_param t)) l = Inr [epc_param (fst t), pc_param (snd t)]"
  using report_param_ok [OF assms] param_codec.parses_enc [of "[epc_param (fst t), pc_param (snd t)]" "normalized l"] assms
  by (auto simp: DecodeParameters_iff report_param_def tag_fits_def)

lemma tag_report_visit_epc:
  assumes "epc \<noteq> []" "length epc \<le> 8191"
  shows "tag_report_visit (epc_param epc) v = Inr (v\<lparr>ev_id := epc\<rparr>)"
proof -
  have u: "unat (of_nat (length epc * 8) :: u16) = length epc * 8"
    using assms(2) by (intro unat_of_nat_small) simp
  have b: "(length epc * 8 + 7) div 8 = length epc" by simp
  show ?thesis
    using assms u b by (simp add: tag_report_visit_def epc_param_def Let_def del: of_nat_mult)
qed

lemma tag_report_visit_pc: "tag_report_visit (pc_param pc) v = Inr (v\<lparr>ev_pc := Some (put_u16 pc)\<rparr>)"
  by (simp add: tag_report_visit_def pc_param_def)

lemma decodeTagReportData_report:
  assumes "tag_fits l t"
  shows "decodeTagReportData (p_data (report_param t)) l = Inr (event_of t)"
  using assms
  by (simp add: decodeTagReportData_def walkParameters_decoded [OF tag_report_contents [OF assms]]
      tag_report_visit_epc tag_report_visit_pc tag_fits_def event_of_def)

lemma tag_reports_decode:
  assumes "\<forall>t \<in> set ts. tag_fits l t" "int (length ts) \<le> maxParameters (normalized l)"
  shows "DecodeParameters (concat (map tag_report ts)) l = Inr (map report_param ts)"
proof -
  have "\<forall>p \<in> set (map report_param ts). param_ok (normalized l) p"
    using assms(1) report_param_ok(1) by auto
  from param_codec.parses_enc [OF this] assms(2) show ?thesis
    by (simp add: DecodeParameters_iff comp_def tag_report_def [abs_def])
qed

lemma DecodeReadEvents_decoded:
  "DecodeParameters body l = Inr ps \<Longrightarrow>
   DecodeReadEvents body l = fold_res (read_events_visit l) ps []"
proof -
  assume dec: "DecodeParameters body l = Inr ps"
  have count: "is_ok (fold_res (\<lambda>p reports. Inr (f p reports)) qs s)"
    for f :: "parameter \<Rightarrow> nat \<Rightarrow> nat" and qs s
    by (induction qs arbitrary: s) simp_all
  obtain n where "fold_res (\<lambda>p reports. Inr (if \<not> p_tv p \<and> p_type p = 240 then reports + 1 else reports))
      ps (0 :: nat) = (Inr n :: llrp_error + nat)"
    using count [of "\<lambda>p reports. if \<not> p_tv p \<and> p_type p = 240 then reports + 1 else reports" ps 0]
    unfolding is_ok_iff by blast
  then show ?thesis
    by (simp add: DecodeReadEvents_def walkParameters_decoded [OF dec])
qed

lemma DecodeReadEvents_structural_error:
  "DecodeParameters body l = Inl e \<Longrightarrow> DecodeReadEvents body l = Inl e"
  by (simp add: DecodeReadEvents_def walkParameters_structural_error)

lemma fold_read_events_reports:
  "\<forall>t \<in> set ts. tag_fits l t \<Longrightarrow>
   fold_res (read_events_visit l) (map report_param ts) views = Inr (views @ map event_of ts)"
proof (induction ts arbitrary: views)
  case (Cons t ts)
  then have "read_events_visit l (report_param t) views = Inr (views @ [event_of t])"
    using decodeTagReportData_report [of l t] by (simp add: read_events_visit_def report_param_def)
  with Cons show ?case by simp
qed simp

lemma DecodeReadEvents_reports:
  "\<forall>t \<in> set ts. tag_fits l t \<Longrightarrow> int (length ts) \<le> maxParameters (normalized l) \<Longrightarrow>
   DecodeReadEvents (concat (map tag_report ts)) l = Inr (map event_of ts)"
  using DecodeReadEvents_decoded [OF tag_reports_decode] fold_read_events_reports [of ts l "[]"] by simp

text \<open>What any successful decode guarantees, whatever bytes the reader sent.\<close>

definition event_ok :: "read_event \<Rightarrow> bool" where
  "event_ok e \<longleftrightarrow> ev_id e \<noteq> [] \<and> (\<forall>pc. ev_pc e = Some pc \<longrightarrow> length pc = 2)"

lemma fold_tag_report_visit_pc:
  "fold_res tag_report_visit ps v = Inr v' \<Longrightarrow> (\<forall>pc. ev_pc v = Some pc \<longrightarrow> length pc = 2) \<Longrightarrow>
   \<forall>pc. ev_pc v' = Some pc \<longrightarrow> length pc = 2"
proof (induction ps arbitrary: v)
  case (Cons p ps)
  then obtain v1 where v1: "tag_report_visit p v = Inr v1" "fold_res tag_report_visit ps v1 = Inr v'"
    by auto
  then have "\<forall>pc. ev_pc v1 = Some pc \<longrightarrow> length pc = 2"
    using Cons.prems(2) by (auto simp: tag_report_visit_def Let_def split: if_splits)
  with v1(2) show ?case by (rule Cons.IH)
qed simp

lemma decodeTagReportData_event_ok:
  assumes "decodeTagReportData data l = Inr v"
  shows "event_ok v"
proof -
  from assms obtain u where "walkParameters data l (\<lambda>_ u. Inr u) () = Inr u"
    and w: "walkParameters data l tag_report_visit \<lparr>ev_id = [], ev_pc = None\<rparr> = Inr v" "ev_id v \<noteq> []"
    by (auto simp: decodeTagReportData_def split: if_splits)
  have "\<exists>ps. DecodeParameters data l = Inr ps"
  proof (cases "DecodeParameters data l")
    case (Inl e)
    from walkParameters_structural_error [OF Inl, of "\<lambda>_ u. Inr u" "()"]
      \<open>walkParameters data l (\<lambda>_ u. Inr u) () = Inr u\<close> show ?thesis by simp
  qed simp
  then obtain ps where "DecodeParameters data l = Inr ps" ..
  with w have "fold_res tag_report_visit ps \<lparr>ev_id = [], ev_pc = None\<rparr> = Inr v"
    by (simp add: walkParameters_decoded)
  from fold_tag_report_visit_pc [OF this] w(2) show ?thesis by (simp add: event_ok_def)
qed

lemma fold_read_events_ok:
  "fold_res (read_events_visit l) ps views = Inr es \<Longrightarrow> \<forall>e \<in> set views. event_ok e \<Longrightarrow>
   (\<forall>e \<in> set es. event_ok e) \<and> length es \<le> length views + length ps"
proof (induction ps arbitrary: views)
  case (Cons p ps)
  then obtain vs where vs: "read_events_visit l p views = Inr vs"
    "fold_res (read_events_visit l) ps vs = Inr es" by auto
  then have "\<forall>e \<in> set vs. event_ok e" "length vs \<le> Suc (length views)"
    using Cons.prems(2) decodeTagReportData_event_ok
    by (auto simp: read_events_visit_def split: if_splits sum.splits llrp_error.splits)
  with Cons.IH [OF vs(2)] show ?case by auto
qed simp

lemma DecodeReadEvents_ok:
  assumes "DecodeReadEvents body l = Inr es"
  shows "\<forall>e \<in> set es. event_ok e" "\<exists>ps. DecodeParameters body l = Inr ps \<and> length es \<le> length ps"
proof -
  have "\<exists>ps. DecodeParameters body l = Inr ps"
    using assms DecodeReadEvents_structural_error by (cases "DecodeParameters body l") auto
  then obtain ps where ps: "DecodeParameters body l = Inr ps" ..
  from fold_read_events_ok [of l ps "[]" es] DecodeReadEvents_decoded [OF ps] assms ps
  show "\<forall>e \<in> set es. event_ok e" "\<exists>ps. DecodeParameters body l = Inr ps \<and> length es \<le> length ps"
    by auto
qed

lemma fold_read_events_count:
  "fold_res (read_events_visit l) ps views = Inr es \<Longrightarrow>
   length es \<le> length views + length [p \<leftarrow> ps. \<not> p_tv p \<and> p_type p = 240]"
proof (induction ps arbitrary: views)
  case (Cons p ps)
  then obtain vs where vs: "read_events_visit l p views = Inr vs"
    "fold_res (read_events_visit l) ps vs = Inr es" by auto
  then have "length vs \<le> length views + length (filter (\<lambda>p. \<not> p_tv p \<and> p_type p = 240) [p])"
    by (auto simp: read_events_visit_def split: if_splits sum.splits llrp_error.splits)
  with Cons.IH [OF vs(2)] show ?case by (auto split: if_splits)
qed simp

text \<open>
  What decoding a report means, without its loops: the parameters that make it malformed, the EPCs and
  PC words it carries, and the event it stands for, if it has an EPC.
\<close>

definition epc_bits :: "parameter \<Rightarrow> nat" where
  "epc_bits p = unat (get_u16 (take 2 (p_data p)))"

definition bad_parameter :: "parameter \<Rightarrow> bool" where
  "bad_parameter p \<longleftrightarrow>
     p_type p = 12 \<and> (\<not> p_tv p \<or> length (p_data p) \<noteq> 2) \<or>
     p_type p = 13 \<and> (\<not> p_tv p \<or> length (p_data p) \<noteq> 12) \<or>
     p_type p = 241 \<and> (p_tv p \<or> length (p_data p) < 2 \<or> epc_bits p = 0 \<or> (epc_bits p + 7) div 8 > length (p_data p) - 2)"

definition report_epcs :: "parameter list \<Rightarrow> bytes list" where
  "report_epcs qs =
     map (\<lambda>p. if p_type p = 13 then p_data p else take ((epc_bits p + 7) div 8) (drop 2 (p_data p)))
       (filter (\<lambda>p. p_type p \<in> {13, 241}) qs)"

definition report_pcs :: "parameter list \<Rightarrow> bytes list" where
  "report_pcs qs = map p_data (filter (\<lambda>p. p_type p = 12) qs)"

definition report_refusal :: "limits \<Rightarrow> bytes \<Rightarrow> llrp_error option" where
  "report_refusal l data =
     (case DecodeParameters data l of
        Inl e \<Rightarrow> Some e
      | Inr qs \<Rightarrow> if list_ex bad_parameter qs then Some ErrMalformedTagReport else None)"

definition report_events :: "limits \<Rightarrow> bytes \<Rightarrow> read_event list" where
  "report_events l data =
     (case DecodeParameters data l of
        Inl _ \<Rightarrow> []
      | Inr qs \<Rightarrow>
          if report_epcs qs = [] then []
          else [\<lparr>ev_id = last (report_epcs qs), ev_pc = (if report_pcs qs = [] then None else Some (last (report_pcs qs)))\<rparr>])"

definition tag_reports_of :: "parameter list \<Rightarrow> bytes list" where
  "tag_reports_of ps = map p_data (filter (\<lambda>p. \<not> p_tv p \<and> p_type p = 240) ps)"

lemma tag_report_visit_eq:
  "tag_report_visit p v =
     (if bad_parameter p then Inl ErrMalformedTagReport
      else Inr (v\<lparr>ev_id := last (ev_id v # report_epcs [p]),
        ev_pc := last (ev_pc v # map Some (report_pcs [p]))\<rparr>))"
  by (auto simp: tag_report_visit_def bad_parameter_def report_epcs_def report_pcs_def epc_bits_def Let_def)

lemma fold_tag_report_visit:
  "fold_res tag_report_visit qs v =
     (if list_ex bad_parameter qs then Inl ErrMalformedTagReport
      else Inr (v\<lparr>ev_id := last (ev_id v # report_epcs qs), ev_pc := last (ev_pc v # map Some (report_pcs qs))\<rparr>))"
proof (induction qs arbitrary: v)
  case (Cons p qs)
  have "report_epcs (p # qs) = report_epcs [p] @ report_epcs qs" "report_pcs (p # qs) = report_pcs [p] @ report_pcs qs"
    by (simp_all add: report_epcs_def report_pcs_def)
  then show ?case using Cons.IH by (simp add: tag_report_visit_eq)
qed (simp add: report_epcs_def report_pcs_def)

lemma report_epcs_nonempty:
  assumes "\<not> list_ex bad_parameter qs" "epc \<in> set (report_epcs qs)"
  shows "epc \<noteq> []"
proof -
  obtain p where p: "p \<in> set qs" "p_type p \<in> {13, 241}" "\<not> bad_parameter p"
    "epc = (if p_type p = 13 then p_data p else take ((epc_bits p + 7) div 8) (drop 2 (p_data p)))"
    using assms by (auto simp: report_epcs_def list_ex_iff)
  then have "epc_bits p > 0 \<Longrightarrow> (epc_bits p + 7) div 8 > 0" by simp
  with p show ?thesis by (auto simp: bad_parameter_def)
qed

lemma last_epc:
  assumes "\<not> list_ex bad_parameter qs"
  shows "last ([] # report_epcs qs) = [] \<longleftrightarrow> report_epcs qs = []"
  using report_epcs_nonempty [OF assms last_in_set] by auto

lemma walk_loop_never_missing:
  "walk_loop l (\<lambda>p ps. Inr (ps @ [p])) count data s \<noteq> Inl ErrMissingEPC"
proof (induction data arbitrary: count s rule: length_induct)
  case (1 data)
  have "next_parameter l data \<noteq> Inl ErrMissingEPC"
    by (auto simp: next_parameter_def Let_def split: option.splits)
  then show ?case using "1.IH" next_parameter_shrinks
    by (auto simp: walk_loop.simps [of l _ count data] split: sum.split)
qed

lemma decodeTagReportData_eq:
  "decodeTagReportData data l =
     (case report_refusal l data of
        Some e \<Rightarrow> Inl e
      | None \<Rightarrow> (case report_events l data of [] \<Rightarrow> Inl ErrMissingEPC | v # _ \<Rightarrow> Inr v))"
proof (cases "DecodeParameters data l")
  case (Inl e)
  then show ?thesis
    by (simp add: decodeTagReportData_def report_refusal_def walkParameters_structural_error)
next
  case (Inr qs)
  have "is_ok (fold_res (\<lambda>_ u. Inr u) qs ())" by (induction qs) simp_all
  then have u: "fold_res (\<lambda>_ u. Inr u) qs () = (Inr () :: llrp_error + unit)" by (auto simp: is_ok_iff)
  show ?thesis
  proof (cases "list_ex bad_parameter qs")
    case True
    then show ?thesis by (simp add: decodeTagReportData_def walkParameters_decoded [OF Inr] u fold_tag_report_visit report_refusal_def Inr)
  next
    case False
    have "last (None # map Some (report_pcs qs)) = (if report_pcs qs = [] then None else Some (last (report_pcs qs)))"
      by (simp add: last_map)
    then show ?thesis using False last_epc [OF False]
      by (auto simp: decodeTagReportData_def walkParameters_decoded [OF Inr] u fold_tag_report_visit report_refusal_def
          report_events_def Inr)
  qed
qed

lemma report_refusal_never_missing: "report_refusal l data \<noteq> Some ErrMissingEPC"
  using walk_loop_never_missing [of "normalized l" 0 data "[]"]
  by (auto simp: report_refusal_def DecodeParameters_def walkParameters_def split: sum.splits)

lemma fold_read_events_eq:
  "fold_res (read_events_visit l) ps views =
     (case List.map_filter (report_refusal l) (tag_reports_of ps) of
        e # _ \<Rightarrow> Inl e
      | [] \<Rightarrow> Inr (views @ concat (map (report_events l) (tag_reports_of ps))))"
proof (induction ps arbitrary: views)
  case (Cons p ps)
  show ?case
  proof (cases "\<not> p_tv p \<and> p_type p = 240")
    case report: True
    then have tags: "tag_reports_of (p # ps) = p_data p # tag_reports_of ps" by (simp add: tag_reports_of_def)
    show ?thesis
    proof (cases "report_refusal l (p_data p)")
      case (Some e)
      then have "e \<noteq> ErrMissingEPC" using report_refusal_never_missing by metis
      then have "read_events_visit l p views = Inl e"
        using report Some by (cases e) (simp_all add: read_events_visit_def decodeTagReportData_eq)
      then show ?thesis using Some by (simp add: tags map_filter_simps)
    next
      case None
      then have "read_events_visit l p views = Inr (views @ report_events l (p_data p))"
        using report by (auto simp: read_events_visit_def decodeTagReportData_eq report_events_def split: sum.splits)
      then show ?thesis using None by (simp add: tags map_filter_simps Cons.IH split: list.split)
    qed
  next
    case False
    then have "tag_reports_of (p # ps) = tag_reports_of ps" "read_events_visit l p views = Inr views"
      by (auto simp: tag_reports_of_def read_events_visit_def)
    then show ?thesis by (simp add: Cons.IH split: list.split)
  qed
qed (simp add: tag_reports_of_def map_filter_simps)

section \<open>Properties\<close>

text \<open>
  C25. Tag reports round trip: a report body built from any number of EPC and PC pairs with
  \<open>NewTagReportDataParam\<close> (in either EPC encoding) is decoded by \<open>DecodeReadEvents\<close> into
  exactly those EPCs and PC words, in order, when the reports fit the reader's limits.
\<close>

theorem tag_reports_roundtrip:
  assumes "map_res (\<lambda>(epc, pc). NewTagReportDataParam epc pc) ts = Inr reports"
    and "\<forall>(epc, pc) \<in> set ts. epc \<noteq> []"
    and "\<forall>r \<in> set reports. length r \<le> unat (maxParameterSize (normalized l))"
    and "max 2 (int (length ts)) \<le> maxParameters (normalized l)"
  shows "DecodeReadEvents (concat reports) l =
    Inr (map (\<lambda>(epc, pc). \<lparr>ev_id = epc, ev_pc = Some (put_u16 pc)\<rparr>) ts)"
proof -
  have each: "length (fst t) \<le> 8191 \<and> r = tag_report t"
    if "NewTagReportDataParam (fst t) (snd t) = Inr r" for t r
  proof -
    from that have len: "length (fst t) \<le> 8191"
      by (simp add: NewTagReportDataParam_def split: if_splits)
    with that NewTagReportDataParam_tag_report [OF len, of "snd t"] show ?thesis by simp
  qed
  have all: "list_all2 (\<lambda>t r. length (fst t) \<le> 8191 \<and> r = tag_report t) ts reports"
    by (rule list_all2_mono [OF assms(1) [unfolded map_res_Inr]]) (simp add: each case_prod_unfold)
  then have reports: "reports = map tag_report ts" and len: "\<forall>t \<in> set ts. length (fst t) \<le> 8191"
    by (induction) auto
  have "\<forall>t \<in> set ts. tag_fits l t"
    using assms(2-4) len by (auto simp: tag_fits_def reports)
  then have "DecodeReadEvents (concat reports) l = Inr (map event_of ts)"
    using assms(4) by (simp add: reports DecodeReadEvents_reports)
  then show ?thesis by (simp add: event_of_def case_prod_unfold)
qed

lemma tag_reports_roundtrip_witness:
  "DecodeReadEvents (concat [[0, 240, 0, 15, 0, 241, 0, 8, 0, 16, 171, 205, 140, 8, 0],
       [0, 240, 0, 20, 141, 1, 2, 3, 4, 5, 6, 7, 8, 9, 10, 11, 12, 140, 48, 0]]) DefaultLimits =
   Inr [\<lparr>ev_id = [171, 205], ev_pc = Some [8, 0]\<rparr>,
        \<lparr>ev_id = [1, 2, 3, 4, 5, 6, 7, 8, 9, 10, 11, 12], ev_pc = Some [48, 0]\<rparr>]"
  using tag_reports_roundtrip [of "[([171, 205], 2048), ([1, 2, 3, 4, 5, 6, 7, 8, 9, 10, 11, 12], 12288)]"
      "[[0, 240, 0, 15, 0, 241, 0, 8, 0, 16, 171, 205, 140, 8, 0],
       [0, 240, 0, 20, 141, 1, 2, 3, 4, 5, 6, 7, 8, 9, 10, 11, 12, 140, 48, 0]]" DefaultLimits]
  by (simp add: NewTagReportDataParam_def EPCData_def c1G2PC_def put_u16_def Let_def)

text \<open>
  C26. What a report body decodes to, whatever bytes a reader sent: a malformed parameter list is reported
  as such; otherwise the first of its \<open>TagReportData\<close> parameters that is malformed, because its own
  parameter list is or because an EPC or PC parameter in it has the wrong kind or length, is refused
  with that error; and if none is, every report with an EPC yields exactly one event, in order, with
  the last EPC and the last PC it carries, and the others yield none. So there are never more events
  than reports or than the parameter limit, and each has a non-empty EPC and, if any, two bytes of PC.
\<close>

theorem DecodeReadEvents_guarantees:
  "case DecodeParameters body l of
     Inl e \<Rightarrow> DecodeReadEvents body l = Inl e
   | Inr ps \<Rightarrow>
       DecodeReadEvents body l =
         (case List.map_filter (report_refusal l) (tag_reports_of ps) of
            e # _ \<Rightarrow> Inl e
          | [] \<Rightarrow> Inr (concat (map (report_events l) (tag_reports_of ps)))) \<and>
       (case DecodeReadEvents body l of
          Inl e \<Rightarrow> True
        | Inr es \<Rightarrow>
            length es \<le> length [p \<leftarrow> ps. \<not> p_tv p \<and> p_type p = 240] \<and>
            int (length es) \<le> max 0 (maxParameters (normalized l)) \<and> list_all event_ok es)"
proof (cases "DecodeParameters body l")
  case (Inl e)
  then show ?thesis by (simp add: DecodeReadEvents_structural_error)
next
  case (Inr ps)
  note decoded = Inr
  have eq: "DecodeReadEvents body l = (case List.map_filter (report_refusal l) (tag_reports_of ps) of
      e # _ \<Rightarrow> Inl e | [] \<Rightarrow> Inr (concat (map (report_events l) (tag_reports_of ps))))"
    by (simp only: DecodeReadEvents_decoded [OF Inr] fold_read_events_eq append_Nil)
  show ?thesis
  proof (cases "DecodeReadEvents body l")
    case (Inl e)
    then have "case DecodeReadEvents body l of Inl e \<Rightarrow> True | Inr es \<Rightarrow>
        length es \<le> length [p \<leftarrow> ps. \<not> p_tv p \<and> p_type p = 240] \<and>
        int (length es) \<le> max 0 (maxParameters (normalized l)) \<and> list_all event_ok es" by simp
    with eq show ?thesis by (simp only: decoded sum.case simp_thms)
  next
    case (Inr es)
    have run: "fold_res (read_events_visit l) ps [] = Inr es" using DecodeReadEvents_decoded [OF decoded] Inr by simp
    have "length es \<le> length [p \<leftarrow> ps. \<not> p_tv p \<and> p_type p = 240]"
      using fold_read_events_count [OF run] by simp
    moreover from this have "length es \<le> length ps" using length_filter_le le_trans by blast
    then have "int (length es) \<le> max 0 (maxParameters (normalized l))"
      using decoded by (cases ps) (auto simp: DecodeParameters_iff)
    ultimately have "case DecodeReadEvents body l of Inl e \<Rightarrow> True | Inr es \<Rightarrow>
        length es \<le> length [p \<leftarrow> ps. \<not> p_tv p \<and> p_type p = 240] \<and>
        int (length es) \<le> max 0 (maxParameters (normalized l)) \<and> list_all event_ok es"
      using fold_read_events_ok [OF run] Inr by (simp add: list_all_iff)
    with eq show ?thesis by (simp only: decoded sum.case simp_thms)
  qed
qed

end
