(* ===== verification/Inventory.thy ===== *)
theory Inventory
  imports Prelude "HOL-Library.List_Lexorder" "HOL-Library.Multiset"
begin

text \<open>
  RFID tag identity, observations and the inventory store of
  \<^verbatim>\<open>src/internal/inventory/inventory.go\<close>. A Go map from EPC bytes to tags is an association
  list with distinct keys in no particular order; the snapshot lemmas show that the order
  does not reach a caller. An instant is an integer with 0 for Go's zero time.
\<close>

section \<open>Hexadecimal text (encoding/hex)\<close>

definition hex_digits :: string where "hex_digits = ''0123456789abcdef''"

definition hex_value :: "char \<Rightarrow> byte option" where
  "hex_value c =
     (let n = (of_char c :: nat) in
      if 48 \<le> n \<and> n \<le> 57 then Some (of_nat (n - 48))
      else if 97 \<le> n \<and> n \<le> 102 then Some (of_nat (n - 87))
      else if 65 \<le> n \<and> n \<le> 70 then Some (of_nat (n - 55))
      else None)"

definition hex_of_byte :: "byte \<Rightarrow> string" where
  "hex_of_byte b = [hex_digits ! unat (drop_bit 4 b), hex_digits ! unat (b AND 15)]"

definition hex_EncodeToString :: "bytes \<Rightarrow> string" where
  "hex_EncodeToString bs = concat (map hex_of_byte bs)"

fun hex_DecodeString :: "string \<Rightarrow> bytes option" where
  "hex_DecodeString [] = Some []"
| "hex_DecodeString [c] = None"
| "hex_DecodeString (c # d # cs) =
     (case (hex_value c, hex_value d, hex_DecodeString cs) of
        (Some x, Some y, Some bs) \<Rightarrow> Some ((push_bit 4 x OR y) # bs)
      | _ \<Rightarrow> None)"

section \<open>Tags\<close>

datatype inventory_error = ErrInvalidEPCLength | ErrInvalidEPC | ErrInvalidObservation

definition MinEPCBytes :: nat where "MinEPCBytes = 2"
definition MaxEPCBytes :: nat where "MaxEPCBytes = 62"

datatype tag = Tag (tag_epc: bytes)

definition NewTag :: "bytes \<Rightarrow> inventory_error + tag" where
  "NewTag epc =
     (if length epc < MinEPCBytes \<or> length epc > MaxEPCBytes \<or> length epc mod 2 \<noteq> 0
      then Inl ErrInvalidEPCLength else Inr (Tag epc))"

definition ParseTag :: "string \<Rightarrow> inventory_error + tag" where
  "ParseTag value =
     (case hex_DecodeString value of None \<Rightarrow> Inl ErrInvalidEPC | Some epc \<Rightarrow> NewTag epc)"

definition Hex :: "tag \<Rightarrow> string" where
  "Hex t = hex_EncodeToString (tag_epc t)"

definition tag_valid :: "tag \<Rightarrow> bool" where
  "tag_valid t \<longleftrightarrow> 2 \<le> length (tag_epc t) \<and> length (tag_epc t) \<le> 62 \<and> even (length (tag_epc t))"

lemma NewTag_iff: "NewTag epc = Inr t \<longleftrightarrow> t = Tag epc \<and> tag_valid t"
  by (auto simp: NewTag_def tag_valid_def MinEPCBytes_def MaxEPCBytes_def even_iff_mod_2_eq_zero)

lemma NewTag_valid [simp]: "tag_valid t \<Longrightarrow> NewTag (tag_epc t) = Inr t"
  by (simp add: NewTag_iff)

text \<open>Tags are ordered by their raw EPC bytes, as \<^verbatim>\<open>bytes.Compare\<close> orders them.\<close>

instantiation tag :: linorder
begin

definition less_eq_tag :: "tag \<Rightarrow> tag \<Rightarrow> bool" where
  "less_eq_tag s t \<longleftrightarrow> tag_epc s \<le> tag_epc t"

definition less_tag :: "tag \<Rightarrow> tag \<Rightarrow> bool" where
  "less_tag s t \<longleftrightarrow> tag_epc s < tag_epc t"

instance
  by standard (auto simp: less_eq_tag_def less_tag_def tag.expand)

end

section \<open>Observations\<close>

type_synonym instant = int

record observation =
  obs_tag :: tag
  obs_seenAt :: instant
  obs_source :: string
  obs_pc :: u16
  obs_hasPC :: bool

definition NewObservation :: "tag \<Rightarrow> instant \<Rightarrow> string \<Rightarrow> inventory_error + observation" where
  "NewObservation tag seenAt source =
     bind_res (NewTag (tag_epc tag)) (\<lambda>_.
       if seenAt = 0 \<or> length source > 256 then Inl ErrInvalidObservation
       else Inr \<lparr>obs_tag = tag, obs_seenAt = seenAt, obs_source = source, obs_pc = 0, obs_hasPC = False\<rparr>)"

definition WithProtocolControl :: "observation \<Rightarrow> u16 \<Rightarrow> observation" where
  "WithProtocolControl o' pc = o'\<lparr>obs_pc := pc, obs_hasPC := True\<rparr>"

definition ProtocolControl :: "observation \<Rightarrow> u16 \<times> bool" where
  "ProtocolControl o' = (obs_pc o', obs_hasPC o')"

section \<open>The store\<close>

record store = tags :: "(bytes \<times> tag) list"

definition NewStore :: store where
  "NewStore = \<lparr>tags = []\<rparr>"

definition tagMap :: "tag list \<Rightarrow> inventory_error + (bytes \<times> tag) list" where
  "tagMap ts =
     fold_res (\<lambda>tag next'.
       bind_res (NewTag (tag_epc tag)) (\<lambda>validated.
         if map_of next' (tag_epc validated) \<noteq> None then Inl ErrInvalidEPC
         else Inr ((tag_epc validated, validated) # next'))) ts []"

definition sortTags :: "tag list \<Rightarrow> tag list" where
  "sortTags ts = sort ts"

definition Snapshot :: "store \<Rightarrow> tag list" where
  "Snapshot s = sortTags (map snd (tags s))"

definition Replace :: "store \<Rightarrow> tag list \<Rightarrow> inventory_error option \<times> store" where
  "Replace s ts =
     (case tagMap ts of
        Inl e \<Rightarrow> (Some e, s)
      | Inr next' \<Rightarrow> (None, s\<lparr>tags := next'\<rparr>))"

section \<open>Facts\<close>

lemma hex_values: "list_all (\<lambda>n. hex_value (hex_digits ! n) = Some (of_nat n)) [0..<16]"
  by code_simp

lemma hex_value_digit: "n < 16 \<Longrightarrow> hex_value (hex_digits ! n) = Some (of_nat n)"
  using hex_values by (simp only: list_all_iff set_upt atLeastLessThan_iff) simp

lemma hex_nibbles:
  "unat (drop_bit 4 (b :: byte)) < 16" "unat (b AND 15) < 16"
  "push_bit 4 (drop_bit 4 b) OR (b AND 15) = b"
proof -
  have "unat b < 2 ^ 8" using unsigned_less [of b, where ?'a = nat] by simp
  moreover have "unat (drop_bit 4 b) = unat b div 16"
    using unat_drop_bit_eq [of 4 b] by (simp only: drop_bit_eq_div) simp
  ultimately show "unat (drop_bit 4 b) < 16" by simp
  have "(15 :: byte) = mask 4" by (simp add: mask_eq_exp_minus_1)
  then have m: "b AND 15 = take_bit 4 b" by (simp add: take_bit_eq_mask)
  have "unat (take_bit 4 b) = take_bit 4 (unat b)" by (simp add: unsigned_take_bit_eq)
  with m show "unat (b AND 15) < 16" by (simp add: take_bit_eq_mod)
  show "push_bit 4 (drop_bit 4 b) OR (b AND 15) = b"
    unfolding m by (rule bit_word_eqI) (auto simp: bit_simps)
qed

lemma hex_decode_encode: "hex_DecodeString (hex_EncodeToString bs) = Some bs"
  by (induction bs)
    (simp_all add: hex_EncodeToString_def hex_of_byte_def hex_value_digit hex_nibbles)

lemma hex_decode_length: "hex_DecodeString s = Some bs \<Longrightarrow> length s = 2 * length bs"
  by (induction s arbitrary: bs rule: hex_DecodeString.induct) (auto split: option.splits prod.splits)

lemma ParseTag_Hex: "tag_valid t \<Longrightarrow> ParseTag (Hex t) = Inr t"
  by (simp add: ParseTag_def Hex_def hex_decode_encode)

lemma tagMap_invariant:
  assumes "fold_res (\<lambda>tag next'.
       bind_res (NewTag (tag_epc tag)) (\<lambda>validated.
         if map_of next' (tag_epc validated) \<noteq> None then Inl ErrInvalidEPC
         else Inr ((tag_epc validated, validated) # next'))) ts acc = Inr m"
  shows "map snd m = rev ts @ map snd acc \<and> map fst m = map tag_epc (rev ts) @ map fst acc \<and>
    (\<forall>t \<in> set ts. tag_valid t) \<and> (distinct (map fst acc) \<longrightarrow> distinct (map fst m))"
  using assms
proof (induction ts arbitrary: acc)
  case (Cons t ts)
  then have v: "tag_valid t" "map_of acc (tag_epc t) = None"
    and rec: "fold_res (\<lambda>tag next'.
       bind_res (NewTag (tag_epc tag)) (\<lambda>validated.
         if map_of next' (tag_epc validated) \<noteq> None then Inl ErrInvalidEPC
         else Inr ((tag_epc validated, validated) # next'))) ts ((tag_epc t, t) # acc) = Inr m"
    by (auto simp: NewTag_iff split: if_splits)
  have "distinct (map fst acc) \<longrightarrow> distinct (map fst ((tag_epc t, t) # acc))"
    using v(2) by (simp add: map_of_eq_None_iff)
  with Cons.IH [OF rec] have "distinct (map fst acc) \<longrightarrow> distinct (map fst m)" by blast
  moreover from Cons.IH [OF rec] have "map snd m = rev (t # ts) @ map snd acc"
    "map fst m = map tag_epc (rev (t # ts)) @ map fst acc" by simp_all
  moreover from Cons.IH [OF rec] v(1) have "\<forall>t \<in> set (t # ts). tag_valid t" by simp
  ultimately show ?case by blast
qed simp

lemma tagMap_Inr:
  assumes "tagMap ts = Inr m"
  shows "map snd m = rev ts" "map fst m = map tag_epc (rev ts)" "distinct (map fst m)"
    "\<forall>t \<in> set ts. tag_valid t"
proof -
  note inv = tagMap_invariant [OF assms [unfolded tagMap_def], unfolded list.map append_Nil2]
  from inv show "map snd m = rev ts" "map fst m = map tag_epc (rev ts)" "\<forall>t \<in> set ts. tag_valid t"
    by blast+
  have "distinct ([] :: bytes list)" by (rule distinct.simps(1) [THEN iffD2]) simp
  with inv show "distinct (map fst m)" by blast
qed

lemma tagMap_ok:
  assumes "\<forall>t \<in> set ts. tag_valid t" "distinct ts"
  shows "is_ok (tagMap ts)"
proof -
  have "is_ok (fold_res (\<lambda>tag next'.
       bind_res (NewTag (tag_epc tag)) (\<lambda>validated.
         if map_of next' (tag_epc validated) \<noteq> None then Inl ErrInvalidEPC
         else Inr ((tag_epc validated, validated) # next'))) qs acc)"
    if "\<forall>t \<in> set qs. tag_valid t" "distinct qs" "\<forall>t \<in> set qs. tag_epc t \<notin> set (map fst acc)" for qs acc
    using that
  proof (induction qs arbitrary: acc)
    case (Cons t qs)
    then have "map_of acc (tag_epc t) = None" by (simp add: map_of_eq_None_iff)
    moreover have "\<forall>u \<in> set qs. tag_epc u \<notin> set (map fst ((tag_epc t, t) # acc))"
      using Cons.prems by (auto dest: tag.expand)
    ultimately show ?case using Cons by simp
  qed simp
  then show ?thesis using assms by (simp add: tagMap_def)
qed

lemma tagMap_iff: "is_ok (tagMap ts) \<longleftrightarrow> (\<forall>t \<in> set ts. tag_valid t) \<and> distinct ts"
proof
  assume "is_ok (tagMap ts)"
  then obtain m where m: "tagMap ts = Inr m" by (auto simp: is_ok_iff)
  from tagMap_Inr(3) [OF m] have "distinct (map tag_epc (rev ts))" by (simp only: tagMap_Inr(2) [OF m])
  then show "(\<forall>t \<in> set ts. tag_valid t) \<and> distinct ts"
    using tagMap_Inr(4) [OF m] by (simp add: distinct_map)
qed (simp add: tagMap_ok)

lemma Snapshot_order_irrelevant:
  "mset (tags s) = mset (tags s') \<Longrightarrow> Snapshot s = Snapshot s'"
  by (simp add: Snapshot_def sortTags_def mset_map
      sorted_list_of_multiset_mset [symmetric] flip: sorted_list_of_multiset_mset)

lemma Replace_Snapshot:
  assumes "Replace s ts = (None, s')"
  shows "Snapshot s' = sort ts"
proof -
  from assms obtain m where m: "tagMap ts = Inr m" "s' = s\<lparr>tags := m\<rparr>"
    by (auto simp: Replace_def split: sum.splits)
  have "Snapshot s' = sort (rev ts)" using tagMap_Inr(1) [OF m(1)] m(2) by (simp add: Snapshot_def sortTags_def)
  also have "\<dots> = sort ts" by (metis mset_rev sorted_list_of_multiset_mset)
  finally show ?thesis .
qed

section \<open>Properties\<close>

text \<open>
  The tags of the program are exactly the ones its text form carries: parsing the
  hexadecimal form of a tag gives the tag back if and only if it is a valid one (a whole
  number of 16-bit words, between 2 and 62 bytes).
\<close>

theorem ParseTag_Hex_iff: "ParseTag (Hex t) = Inr t \<longleftrightarrow> tag_valid t"
  using ParseTag_Hex by (auto simp: ParseTag_def Hex_def hex_decode_encode NewTag_iff)

text \<open>
  \<open>Replace\<close> is all or nothing: it fails, and leaves the store as it was, exactly when a
  tag is invalid or listed twice; otherwise the next snapshot holds the given tags, sorted
  by their bytes, whatever the store held before and whatever order they came in.
\<close>

theorem Replace_atomic:
  "case Replace s ts of
     (None, s') \<Rightarrow> list_all tag_valid ts \<and> distinct ts \<and> Snapshot s' = sort ts
   | (Some e, s') \<Rightarrow> \<not> (list_all tag_valid ts \<and> distinct ts) \<and> Snapshot s' = Snapshot s"
proof (cases "Replace s ts")
  case (Pair r s')
  show ?thesis
  proof (cases r)
    case None
    with Pair have "is_ok (tagMap ts)" by (auto simp: Replace_def split: sum.splits)
    with Pair None show ?thesis
      using Replace_Snapshot [of s ts s'] by (simp add: tagMap_iff list_all_iff)
  next
    case (Some e)
    with Pair have "\<not> is_ok (tagMap ts)" "s' = s" by (auto simp: Replace_def split: sum.splits)
    with Pair Some show ?thesis by (simp add: tagMap_iff list_all_iff)
  qed
qed

end
