(* ===== verification/Reader.thy ===== *)
theory Reader
  imports Llrp_Report Inventory
begin

text \<open>
  The reader side of a session, from \<^verbatim>\<open>src/internal/reader\<close>: the settings and the retry
  policy of \<^verbatim>\<open>config.go\<close>, and the validation of notifications, configuration responses and
  tag reports of \<^verbatim>\<open>protocol.go\<close>. The session that uses them is in the theory Session.
\<close>

section \<open>Settings and the retry policy\<close>

record reader_config =
  Address :: string
  Source :: string
  ConnectTimeout :: int
  HandshakeTimeout :: int
  ReadTimeout :: int
  WriteTimeout :: int
  RetryMin :: int
  RetryMax :: int
  MaxRetries :: int
  InitialMessageID :: u32
  Limits :: limits

definition second :: int where "second = 1000000000"

definition reader_DefaultConfig :: reader_config where
  "reader_DefaultConfig =
     \<lparr>Address = ''127.0.0.1:5084'', Source = ''reader-1'', ConnectTimeout = 5 * second,
      HandshakeTimeout = 5 * second, ReadTimeout = 30 * second, WriteTimeout = 5 * second,
      RetryMin = second, RetryMax = 30 * second, MaxRetries = 5, InitialMessageID = 1000,
      Limits = DefaultLimits\<rparr>"

text \<open>
  \<open>port\<close> is what \<^verbatim>\<open>net.SplitHostPort\<close> followed by \<^verbatim>\<open>strconv.Atoi\<close> makes of the address:
  the port number, or nothing where either refuses it.
\<close>

definition reader_Validate :: "(string \<Rightarrow> int option) \<Rightarrow> reader_config \<Rightarrow> bool" where
  "reader_Validate port c =
     (case port (Address c) of
        None \<Rightarrow> False
      | Some n \<Rightarrow>
          if n < 1 \<or> n > 65535 then False
          else if Source c = [] \<or> length (Source c) > 256 then False
          else if ConnectTimeout c \<le> 0 \<or> HandshakeTimeout c \<le> 0 \<or> ReadTimeout c \<le> 0 \<or>
                  WriteTimeout c \<le> 0 \<or> RetryMin c \<le> 0 \<or> RetryMax c < RetryMin c \<or> MaxRetries c < 0
          then False
          else if unat (maxFrameSize (Limits c)) < MessageHeaderSize \<or>
                  unat (maxParameterSize (Limits c)) < 4 \<or> maxParameters (Limits c) \<le> 0
          then False
          else True)"

text \<open>Go's integer division by two truncates towards zero; the operand is never negative here.\<close>

function backoff_loop :: "reader_config \<Rightarrow> int \<Rightarrow> int \<Rightarrow> int \<Rightarrow> int" where
  "backoff_loop c retry i delay =
     (if i < retry \<and> delay < RetryMax c then
        if delay > RetryMax c div 2 then RetryMax c
        else backoff_loop c retry (i + 1) (wrap64 (delay * 2))
      else delay)"
  by pat_completeness auto
termination
  by (relation "measure (\<lambda>(c, retry, i, delay). nat (retry - i))") auto

declare backoff_loop.simps [simp del]

definition reader_backoff :: "reader_config \<Rightarrow> int \<Rightarrow> int" where
  "reader_backoff c retry = backoff_loop c retry 1 (RetryMin c)"

section \<open>Validating what the reader sends\<close>

datatype protocol_error = ErrProtocol

definition wrap_protocol :: "llrp_error + 'a \<Rightarrow> protocol_error + 'a" where
  "wrap_protocol r = (case r of Inl _ \<Rightarrow> Inl ErrProtocol | Inr x \<Rightarrow> Inr x)"

definition count_attempts :: "parameter list \<Rightarrow> nat \<Rightarrow> protocol_error + nat" where
  "count_attempts nested attempts =
     fold_res (\<lambda>n attempts.
       if p_type n = 256 then
         if p_tv n \<or> length (p_data n) \<noteq> 2 \<or> get_u16 (p_data n) \<noteq> 0 then Inl ErrProtocol
         else Inr (attempts + 1)
       else Inr attempts) nested attempts"

definition validateNotification :: "message \<Rightarrow> limits \<Rightarrow> bool \<Rightarrow> protocol_error + unit" where
  "validateNotification m limits initial =
     (if h_type (m_header m) \<noteq> ReaderEventNotificationHeader then Inl ErrProtocol
      else bind_res (wrap_protocol (DecodeParameters (m_payload m) limits)) (\<lambda>params.
        bind_res (fold_res (\<lambda>p (containers, attempts).
            if p_tv p \<or> p_type p \<noteq> 246 then Inl ErrProtocol
            else bind_res (wrap_protocol (DecodeParameters (p_data p) limits)) (\<lambda>nested.
                 bind_res (count_attempts nested attempts) (\<lambda>attempts'.
                 Inr (containers + 1, attempts')))) params (0 :: nat, 0 :: nat)) (\<lambda>(containers, attempts).
          if containers \<noteq> 1 \<or> attempts > 1 \<or> (initial \<and> attempts \<noteq> 1) then Inl ErrProtocol
          else Inr ())))"

definition validateConfigResponse :: "message \<Rightarrow> u32 \<Rightarrow> limits \<Rightarrow> protocol_error + unit" where
  "validateConfigResponse m msgID limits =
     (if h_type (m_header m) \<noteq> SetReaderConfigResponseHeader \<or> h_id (m_header m) \<noteq> msgID
      then Inl ErrProtocol
      else bind_res (wrap_protocol (DecodeParameters (m_payload m) limits)) (\<lambda>params.
        bind_res (fold_res (\<lambda>p statuses.
            if p_type p \<noteq> 287 then Inr statuses
            else if p_tv p \<or> length (p_data p) < 4 then Inl ErrProtocol
            else let code = get_u16 (take 2 (p_data p));
                     descriptionLength = unat (get_u16 (take 2 (drop 2 (p_data p))))
            in if descriptionLength > length (p_data p) - 4 then Inl ErrProtocol
               else bind_res (wrap_protocol (DecodeParameters (drop (4 + descriptionLength) (p_data p)) limits)) (\<lambda>_.
                 if code \<noteq> 0 then Inl ErrProtocol else Inr (statuses + 1))) params (0 :: nat)) (\<lambda>statuses.
          if statuses \<noteq> 1 then Inl ErrProtocol else Inr ())))"

datatype observe_error = FromLlrp llrp_error | FromInventory inventory_error

definition lift_llrp :: "llrp_error + 'a \<Rightarrow> observe_error + 'a" where
  "lift_llrp r = (case r of Inl e \<Rightarrow> Inl (FromLlrp e) | Inr x \<Rightarrow> Inr x)"

definition lift_inventory :: "inventory_error + 'a \<Rightarrow> observe_error + 'a" where
  "lift_inventory r = (case r of Inl e \<Rightarrow> Inl (FromInventory e) | Inr x \<Rightarrow> Inr x)"

text \<open>The first loop of \<open>decodeObservations\<close>: exactly one EPC of whole words per tag report.\<close>

definition check_report :: "limits \<Rightarrow> parameter \<Rightarrow> observe_error + unit" where
  "check_report limits p =
     (if p_tv p \<or> p_type p \<noteq> 240 then Inr ()
      else bind_res (lift_llrp (DecodeParameters (p_data p) limits)) (\<lambda>nested.
        bind_res (fold_res (\<lambda>n epcs.
            let epcs = (if p_type n = 13 \<or> p_type n = 241 then epcs + 1 else epcs) in
            if p_type n = 241 then
              if p_tv n \<or> length (p_data n) < 2 then Inl (FromLlrp ErrMalformedTagReport)
              else let bits = unat (get_u16 (take 2 (p_data n))) in
                if bits = 0 \<or> bits mod 16 \<noteq> 0 \<or> bits div 8 \<noteq> length (p_data n) - 2
                then Inl (FromLlrp ErrMalformedTagReport)
                else Inr epcs
            else Inr epcs) nested (0 :: nat)) (\<lambda>epcs.
          if epcs \<noteq> 1 then Inl (FromLlrp ErrMalformedTagReport) else Inr ())))"

definition observation_of :: "string \<Rightarrow> instant \<Rightarrow> read_event \<Rightarrow> observe_error + observation" where
  "observation_of source now event =
     bind_res (lift_inventory (NewTag (ev_id event))) (\<lambda>tag.
     bind_res (lift_inventory (NewObservation tag now source)) (\<lambda>observation.
       case ev_pc event of
         Some pc \<Rightarrow> Inr (if length pc = 2 then WithProtocolControl observation (get_u16 pc) else observation)
       | None \<Rightarrow> Inr observation))"

definition decodeObservations ::
  "bytes \<Rightarrow> limits \<Rightarrow> string \<Rightarrow> instant \<Rightarrow> observe_error + observation list" where
  "decodeObservations body limits source now =
     bind_res (lift_llrp (DecodeParameters body limits)) (\<lambda>params.
     bind_res (fold_res (\<lambda>p _. check_report limits p) params ()) (\<lambda>_.
     bind_res (lift_llrp (DecodeReadEvents body limits)) (\<lambda>events.
     map_res (observation_of source now) events)))"

section \<open>Facts: the retry policy\<close>

definition backoff_config :: "reader_config \<Rightarrow> bool" where
  "backoff_config c \<longleftrightarrow> 0 < RetryMin c \<and> RetryMin c \<le> RetryMax c \<and> is_int64 (RetryMax c)"

lemma double_no_wrap:
  "0 \<le> d \<Longrightarrow> d \<le> m div 2 \<Longrightarrow> is_int64 m \<Longrightarrow> wrap64 (d * 2) = d * 2"
  by (rule wrap64_id) (auto simp: is_int64_def)

lemma backoff_loop_eq:
  assumes "0 < delay" "delay \<le> RetryMax c" "is_int64 (RetryMax c)"
  shows "backoff_loop c retry i delay = min (RetryMax c) (delay * 2 ^ nat (retry - i))"
  using assms
proof (induction c retry i delay rule: backoff_loop.induct)
  case (1 c retry i delay)
  show ?case
  proof (cases "i < retry \<and> delay < RetryMax c")
    case False
    then have "RetryMax c = delay \<or> nat (retry - i) = 0" using "1.prems" by auto
    moreover have "delay \<le> delay * 2 ^ nat (retry - i)" using "1.prems"(1) by (simp add: mult_le_cancel_left1)
    ultimately show ?thesis using False "1.prems" by (auto simp: backoff_loop.simps [of c retry i delay] min_def)
  next
    case True
    then have pow: "nat (retry - i) = Suc (nat (retry - (i + 1)))" by linarith
    show ?thesis
    proof (cases "delay > RetryMax c div 2")
      case half: True
      have "delay * 2 \<le> delay * 2 ^ nat (retry - i)" using "1.prems"(1) by (simp add: pow)
      with True half show ?thesis by (simp add: backoff_loop.simps [of c retry i delay])
    next
      case half: False
      then have w: "wrap64 (delay * 2) = delay * 2"
        using "1.prems" by (intro double_no_wrap [of delay "RetryMax c"]) auto
      from "1.IH" [OF True half] half "1.prems" w
      have "backoff_loop c retry (i + 1) (delay * 2) =
          min (RetryMax c) (delay * 2 * 2 ^ nat (retry - (i + 1)))" by simp
      with True half w pow show ?thesis by (simp add: backoff_loop.simps [of c retry i delay])
    qed
  qed
qed

lemma reader_backoff_eq:
  "backoff_config c \<Longrightarrow> reader_backoff c retry = min (RetryMax c) (RetryMin c * 2 ^ nat (retry - 1))"
  by (simp add: reader_backoff_def backoff_config_def backoff_loop_eq)

lemma reader_Validate_backoff:
  "reader_Validate port c \<Longrightarrow> is_int64 (RetryMax c) \<Longrightarrow> backoff_config c"
  by (auto simp: reader_Validate_def backoff_config_def split: option.splits if_splits)

section \<open>Facts: well-formed reports become observations\<close>

definition whole_words :: "bytes \<Rightarrow> bool" where
  "whole_words epc \<longleftrightarrow> 2 \<le> length epc \<and> length epc \<le> 62 \<and> even (length epc)"

lemma check_report_report_param:
  assumes "tag_fits l t" "even (length (fst t))"
  shows "check_report l (report_param t) = Inr ()"
proof -
  have len: "length (fst t) \<le> 8191" "fst t \<noteq> []" using assms(1) by (auto simp: tag_fits_def)
  have u: "unat (of_nat (length (fst t) * 8) :: u16) = length (fst t) * 8"
    using len by (intro unat_of_nat_small) simp
  have m: "length (fst t) * 8 mod 16 = 0" using assms(2) by (auto elim!: evenE)
  show ?thesis
    using tag_report_contents [OF assms(1)] u m len
    by (simp add: check_report_def lift_llrp_def report_param_def epc_param_def pc_param_def Let_def
        del: of_nat_mult)
qed

definition observed :: "string \<Rightarrow> instant \<Rightarrow> bytes \<times> u16 \<Rightarrow> observation" where
  "observed source now t =
     \<lparr>obs_tag = Tag (fst t), obs_seenAt = now, obs_source = source, obs_pc = snd t, obs_hasPC = True\<rparr>"

lemma observation_of_event:
  assumes "whole_words (fst t)" "now \<noteq> 0" "length source \<le> 256"
  shows "observation_of source now (event_of t) = Inr (observed source now t)"
proof -
  have v: "tag_valid (Tag (fst t))" using assms(1) by (simp add: whole_words_def tag_valid_def)
  then have "NewTag (fst t) = Inr (Tag (fst t))" using NewTag_valid [OF v] by simp
  then show ?thesis
    using assms by (simp add: observation_of_def event_of_def lift_inventory_def NewObservation_def
        WithProtocolControl_def observed_def)
qed

lemma decodeObservations_reports:
  assumes "\<forall>t \<in> set ts. tag_fits l t \<and> whole_words (fst t)"
    "int (length ts) \<le> maxParameters (normalized l)" "now \<noteq> 0" "length source \<le> 256"
  shows "decodeObservations (concat (map tag_report ts)) l source now = Inr (map (observed source now) ts)"
proof -
  have fits: "\<forall>t \<in> set ts. tag_fits l t" using assms(1) by blast
  have checks: "fold_res (\<lambda>p _. check_report l p) (map report_param qs) () = Inr ()"
    if "set qs \<subseteq> set ts" for qs
    using that
  proof (induction qs)
    case (Cons t qs)
    then show ?case using assms(1) check_report_report_param [of l t] by (simp add: whole_words_def)
  qed simp
  have "map_res (observation_of source now) (map event_of ts) = Inr (map (observed source now) ts)"
    using assms(1,3,4) observation_of_event by (auto simp: map_res_Inr list_all2_conv_all_nth)
  then show ?thesis
    using tag_reports_decode [OF fits assms(2)] DecodeReadEvents_reports [OF fits assms(2)]
      checks [of ts]
    by (simp add: decodeObservations_def lift_llrp_def)
qed

text \<open>What every accepted report body guarantees, whatever the reader sent.\<close>

definition observation_ok :: "string \<Rightarrow> instant \<Rightarrow> observation \<Rightarrow> bool" where
  "observation_ok source now ob \<longleftrightarrow>
     tag_valid (obs_tag ob) \<and> obs_source ob = source \<and> obs_seenAt ob = now \<and> now \<noteq> 0"

lemma observation_of_ok:
  "observation_of source now e = Inr ob \<Longrightarrow> observation_ok source now ob \<and> tag_epc (obs_tag ob) = ev_id e"
  by (auto simp: observation_of_def lift_inventory_def NewObservation_def NewTag_iff observation_ok_def
      WithProtocolControl_def split: sum.splits option.splits if_splits)

lemma decodeObservations_Inr:
  assumes "decodeObservations body l source now = Inr obs"
  shows "\<forall>ob \<in> set obs. observation_ok source now ob"
    "\<exists>ps. DecodeParameters body l = Inr ps \<and> length obs \<le> length ps"
proof -
  from assms obtain es where es: "DecodeReadEvents body l = Inr es"
    "map_res (observation_of source now) es = Inr obs"
    by (auto simp: decodeObservations_def lift_llrp_def split: sum.splits)
  from es(2) show "\<forall>ob \<in> set obs. observation_ok source now ob"
    by (blast dest: map_res_Inr_elem observation_of_ok)
  from DecodeReadEvents_ok(2) [OF es(1)] map_res_length [OF es(2)]
  show "\<exists>ps. DecodeParameters body l = Inr ps \<and> length obs \<le> length ps" by auto
qed

section \<open>Facts: the handshake the emulator's messages complete\<close>

lemma notification_accepted:
  assumes "34 \<le> unat (maxParameterSize (normalized l))" "2 \<le> maxParameters (normalized l)"
  shows "validateNotification (ReaderEventNotificationMessage i t) l initial = Inr ()"
proof -
  let ?ts = "\<lparr>p_type = 128, p_tv = False, p_data = put_u64 t\<rparr>"
  let ?ca = "\<lparr>p_type = 256, p_tv = False, p_data = put_u16 0\<rparr>"
  let ?nd = "\<lparr>p_type = 246, p_tv = False, p_data = enc_param ?ts @ enc_param ?ca\<rparr>"
  have enc: "EncodeParameter ?ts = Inr (uTCTimeStamp t)" "EncodeParameter ?ca = Inr connectionAttemptEvent"
    by (simp_all add: EncodeParameter_Inr uTCTimeStamp_def connectionAttemptEvent_def)
  then have e: "enc_param ?ts = uTCTimeStamp t" "enc_param ?ca = connectionAttemptEvent"
    by (simp_all add: enc_param_def)
  have lens: "length (uTCTimeStamp t) = 12" "length connectionAttemptEvent = 6"
    by (simp_all add: uTCTimeStamp_def connectionAttemptEvent_def)
  have nd: "EncodeParameter ?nd = Inr (readerEventNotificationData t)"
    by (simp add: EncodeParameter_Inr e readerEventNotificationData_def Let_def lens)
  have ok: "\<forall>p \<in> set [?ts, ?ca]. param_ok (normalized l) p" "\<forall>p \<in> set [?nd]. param_ok (normalized l) p"
    using enc nd assms(1) lens
    by (auto simp: param_ok_def readerEventNotificationData_def Let_def)
  have inner: "DecodeParameters (p_data ?nd) l = Inr [?ts, ?ca]"
    using param_codec.parses_enc [OF ok(1)] assms(2) by (simp add: DecodeParameters_iff)
  have outer: "DecodeParameters (readerEventNotificationData t) l = Inr [?nd]"
    using param_codec.parses_enc [OF ok(2)] assms(2) nd by (simp add: DecodeParameters_iff enc_param_def)
  show ?thesis
    using inner outer
    by (simp add: validateNotification_def typed_message_defs wrap_protocol_def count_attempts_def put_u16_def)
qed

lemma config_response_accepted:
  assumes "8 \<le> unat (maxParameterSize (normalized l))" "1 \<le> maxParameters (normalized l)"
  shows "validateConfigResponse (SetReaderConfigResponseMessage i) i l = Inr ()"
proof -
  let ?st = "\<lparr>p_type = 287, p_tv = False, p_data = put_u16 0 @ put_u16 0\<rparr>"
  have enc: "EncodeParameter ?st = Inr status"
    by (simp add: EncodeParameter_Inr status_def)
  have ok: "\<forall>p \<in> set [?st]. param_ok (normalized l) p"
    using enc assms(1) by (auto simp: param_ok_def status_def)
  have "DecodeParameters status l = Inr [?st]"
    using param_codec.parses_enc [OF ok] assms(2) enc by (simp add: DecodeParameters_iff enc_param_def)
  moreover have "DecodeParameters [] l = Inr []" by (simp add: DecodeParameters_iff)
  ultimately show ?thesis
    by (simp add: validateConfigResponse_def typed_message_defs wrap_protocol_def Let_def put_u16_def)
qed

section \<open>Facts: no report is dropped\<close>

lemma tag_report_visit_epc_kept:
  assumes "tag_report_visit n v = Inr v'" "p_type n = 13 \<or> p_type n = 241 \<or> ev_id v \<noteq> []"
  shows "ev_id v' \<noteq> []"
  using assms by (auto simp: tag_report_visit_def Let_def split: if_splits)

lemma fold_tag_report_visit_epc:
  "fold_res tag_report_visit ns v = Inr v' \<Longrightarrow>
   ev_id v \<noteq> [] \<or> (\<exists>n \<in> set ns. p_type n = 13 \<or> p_type n = 241) \<Longrightarrow> ev_id v' \<noteq> []"
proof (induction ns arbitrary: v)
  case (Cons n ns)
  then obtain v1 where v1: "tag_report_visit n v = Inr v1" "fold_res tag_report_visit ns v1 = Inr v'"
    by auto
  with Cons show ?case using tag_report_visit_epc_kept [OF v1(1)] by (cases "ev_id v1 = []") auto
qed simp

text \<open>The count of EPC parameters in \<open>decodeObservations\<close>; it only fails on a malformed one.\<close>

lemma check_report_epcs:
  assumes "check_report l p = Inr ()" "\<not> p_tv p" "p_type p = 240"
  shows "\<exists>ns. DecodeParameters (p_data p) l = Inr ns \<and> (\<exists>n \<in> set ns. p_type n = 13 \<or> p_type n = 241)"
proof -
  have count: "(\<exists>n \<in> set ns. p_type n = 13 \<or> p_type n = 241) \<or> k' = (k :: nat)"
    if "fold_res (\<lambda>n epcs. let epcs = (if p_type n = 13 \<or> p_type n = 241 then epcs + 1 else epcs) in
            if p_type n = 241 then
              if p_tv n \<or> length (p_data n) < 2 then Inl (FromLlrp ErrMalformedTagReport)
              else let bits = unat (get_u16 (take 2 (p_data n))) in
                if bits = 0 \<or> bits mod 16 \<noteq> 0 \<or> bits div 8 \<noteq> length (p_data n) - 2
                then Inl (FromLlrp ErrMalformedTagReport)
                else Inr epcs
            else Inr epcs) ns k = Inr k'" for ns k k'
    using that by (induction ns arbitrary: k) (auto simp: Let_def split: if_splits)
  from assms show ?thesis
    by (fastforce simp: check_report_def lift_llrp_def dest!: count split: sum.splits if_splits)
qed

lemma check_report_not_missing:
  assumes "check_report l p = Inr ()" "\<not> p_tv p" "p_type p = 240"
  shows "decodeTagReportData (p_data p) l \<noteq> Inl ErrMissingEPC"
proof
  assume missing: "decodeTagReportData (p_data p) l = Inl ErrMissingEPC"
  from check_report_epcs [OF assms] obtain ns where ns: "DecodeParameters (p_data p) l = Inr ns"
    "\<exists>n \<in> set ns. p_type n = 13 \<or> p_type n = 241" by blast
  have malformed: "fold_res tag_report_visit qs v = Inl e \<Longrightarrow> e = ErrMalformedTagReport" for qs v e
    by (induction qs arbitrary: v)
      (auto simp: bind_res_eq_Inl tag_report_visit_def Let_def split: if_splits)
  have skip: "fold_res (\<lambda>_ u. Inr u) qs () = (Inr () :: llrp_error + unit)" for qs :: "parameter list"
    by (induction qs) simp_all
  from missing obtain v where "fold_res tag_report_visit ns \<lparr>ev_id = [], ev_pc = None\<rparr> = Inr v" "ev_id v = []"
    by (auto simp: decodeTagReportData_def walkParameters_decoded [OF ns(1)] skip bind_res_eq_Inl
        dest: malformed split: if_splits)
  with fold_tag_report_visit_epc ns(2) show False by blast
qed

lemma fold_read_events_length:
  assumes "fold_res (\<lambda>p _. check_report l p) ps () = Inr ()" "fold_res (read_events_visit l) ps views = Inr es"
  shows "length es = length views + length [p \<leftarrow> ps. \<not> p_tv p \<and> p_type p = 240]"
  using assms
proof (induction ps arbitrary: views)
  case (Cons p ps)
  then obtain vs where vs: "read_events_visit l p views = Inr vs"
    "fold_res (read_events_visit l) ps vs = Inr es" and ok: "check_report l p = Inr ()" by auto
  have "length vs = length views + length (filter (\<lambda>p. \<not> p_tv p \<and> p_type p = 240) [p])"
    using vs(1) check_report_not_missing [OF ok]
    by (auto simp: read_events_visit_def split: if_splits sum.splits llrp_error.splits)
  with Cons.IH [OF _ vs(2)] Cons.prems(1) show ?case by (auto split: if_splits)
qed simp

section \<open>Properties\<close>

text \<open>
  The retry delay of a valid configuration is \<open>RetryMin\<close> doubled for every attempt after
  the first and cut off at \<open>RetryMax\<close>; the doubling never wraps around, so the delay is
  always between the two bounds.
\<close>

theorem reader_backoff_closed_form:
  assumes "reader_Validate port c" "is_int64 (RetryMax c)"
  shows "reader_backoff c retry = min (RetryMax c) (RetryMin c * 2 ^ nat (retry - 1)) \<and>
    RetryMin c \<le> reader_backoff c retry \<and> reader_backoff c retry \<le> RetryMax c"
proof -
  from reader_Validate_backoff [OF assms] have ok: "backoff_config c" .
  moreover have "RetryMin c \<le> RetryMin c * 2 ^ nat (retry - 1)"
    using ok by (simp add: backoff_config_def mult_le_cancel_left1)
  ultimately show ?thesis
    using reader_backoff_eq [OF ok, of retry] by (auto simp: backoff_config_def)
qed

lemma reader_backoff_closed_form_witness:
  "reader_backoff reader_DefaultConfig 4 = 8 * second"
  using reader_backoff_closed_form [of "\<lambda>_. Some 5084" reader_DefaultConfig 4]
  by (simp add: reader_Validate_def reader_DefaultConfig_def second_def MessageHeaderSize_def is_int64_def)

text \<open>
  A report body is accepted as a whole or not at all: when \<open>decodeObservations\<close> succeeds
  it returns exactly one observation for each \<open>TagReportData\<close> parameter of the body, none
  skipped, and each carries a valid tag, the session's source and the time of the read.
\<close>

theorem decodeObservations_complete:
  assumes "decodeObservations body l source now = Inr obs"
  shows "\<exists>ps. DecodeParameters body l = Inr ps \<and>
    length obs = length [p \<leftarrow> ps. \<not> p_tv p \<and> p_type p = 240] \<and>
    list_all (\<lambda>ob. tag_valid (obs_tag ob) \<and> obs_source ob = source \<and> obs_seenAt ob = now) obs"
proof -
  from assms obtain ps es where ps: "DecodeParameters body l = Inr ps"
    and checked: "fold_res (\<lambda>p _. check_report l p) ps () = Inr ()"
    and es: "DecodeReadEvents body l = Inr es" "map_res (observation_of source now) es = Inr obs"
    by (auto simp: decodeObservations_def lift_llrp_def split: sum.splits)
  have "length es = length [p \<leftarrow> ps. \<not> p_tv p \<and> p_type p = 240]"
    using fold_read_events_length [OF checked, of "[]" es] es(1) DecodeReadEvents_decoded [OF ps] by simp
  with ps map_res_length [OF es(2)] decodeObservations_Inr(1) [OF assms] show ?thesis
    by (auto simp: list_all_iff observation_ok_def)
qed

lemma decodeObservations_complete_witness:
  "\<exists>ps. DecodeParameters [0, 240, 0, 15, 0, 241, 0, 8, 0, 16, 171, 205, 140, 8, 0] DefaultLimits = Inr ps \<and>
     length [p \<leftarrow> ps. \<not> p_tv p \<and> p_type p = 240] = 1"
proof -
  let ?body = "[0, 240, 0, 15, 0, 241, 0, 8, 0, 16, 171, 205, 140, 8, 0] :: bytes"
  have "Inr (tag_report ([171, 205], 2048)) = NewTagReportDataParam [171, 205] 2048"
    by (rule NewTagReportDataParam_tag_report [symmetric]) simp
  then have "tag_report ([171, 205], 2048) = ?body"
    by (simp add: NewTagReportDataParam_def EPCData_def c1G2PC_def put_u16_def Let_def)
  then have "decodeObservations ?body DefaultLimits ''r'' 7 = Inr [observed ''r'' 7 ([171, 205], 2048)]"
    using decodeObservations_reports [of "[([171, 205], 2048)]" DefaultLimits 7 "''r''"]
    by (simp add: tag_fits_def whole_words_def)
  from decodeObservations_complete [OF this] show ?thesis by auto
qed

end
