(* ===== verification/Emulator.thy ===== *)
theory Emulator
  imports Reader
begin

text \<open>
  The reader emulator of \<^verbatim>\<open>src/internal/emulator\<close>: how an inventory cycle is cut into
  report frames (\<^verbatim>\<open>reports.go\<close>), scenarios, the catalog that publishes them and the cursor
  a connection plays them through (\<^verbatim>\<open>scenario.go\<close>), the settings (\<^verbatim>\<open>config.go\<close>) and the
  keepalive interval a client may ask for (\<^verbatim>\<open>session.go\<close>). The random source is the
  caller's: a function from its state and a bound to a number and its next state.
\<close>

section \<open>Report frames\<close>

datatype 'x cycle_error = TagReportError llrp_error | TagExceedsFrame | EmitError 'x

text \<open>
  The loop of \<open>writeCycle\<close>. \<open>emit\<close> takes a report body and the sender's state; it may refuse.
  The capacity \<open>make([]byte, 0, maxFrame-10)\<close> reserves is invisible; a configuration has at
  least 128 bytes of frame, so it is never negative.
\<close>

fun cycle_loop ::
  "(bytes \<Rightarrow> 's \<Rightarrow> 'x option \<times> 's) \<Rightarrow> nat \<Rightarrow> tag list \<Rightarrow> bytes \<Rightarrow> int \<Rightarrow> 's \<Rightarrow> 'x cycle_error option \<times> 's" where
  "cycle_loop emit maxFrame [] body parameters s =
     (case emit body s of (Some x, s') \<Rightarrow> (Some (EmitError x), s') | (None, s') \<Rightarrow> (None, s'))"
| "cycle_loop emit maxFrame (tag # ts) body parameters s =
     (let epc = tag_epc tag in
      case NewTagReportDataParam epc (push_bit 11 (of_nat (length epc div 2))) of
        Inl e \<Rightarrow> (Some (TagReportError e), s)
      | Inr p \<Rightarrow>
          if MessageHeaderSize + length p > maxFrame then (Some TagExceedsFrame, s)
          else if MessageHeaderSize + length body + length p > maxFrame \<or>
                  parameters = maxParameters DefaultLimits
          then (case emit body s of
                  (Some x, s') \<Rightarrow> (Some (EmitError x), s')
                | (None, s') \<Rightarrow> cycle_loop emit maxFrame ts p 1 s')
          else cycle_loop emit maxFrame ts (body @ p) (parameters + 1) s)"

definition writeCycle ::
  "tag list \<Rightarrow> u32 \<Rightarrow> (bytes \<Rightarrow> 's \<Rightarrow> 'x option \<times> 's) \<Rightarrow> 's \<Rightarrow> 'x cycle_error option \<times> 's" where
  "writeCycle ts maxFrame emit s = cycle_loop emit (unat maxFrame) ts [] 0 s"

section \<open>Settings\<close>

record emulator_config =
  emu_Address :: string
  MaxClients :: int
  ReportInterval :: int
  KeepaliveInterval :: int
  AckTimeout :: int
  emu_HandshakeTimeout :: int
  emu_ReadTimeout :: int
  emu_WriteTimeout :: int
  FrameBytes :: u32

definition millisecond :: int where "millisecond = 1000000"
definition hour :: int where "hour = 3600 * second"

definition emulator_DefaultConfig :: emulator_config where
  "emulator_DefaultConfig =
     \<lparr>emu_Address = ''127.0.0.1:5084'', MaxClients = 8, ReportInterval = second,
      KeepaliveInterval = 10 * second, AckTimeout = 5 * second, emu_HandshakeTimeout = 5 * second,
      emu_ReadTimeout = 30 * second, emu_WriteTimeout = 5 * second, FrameBytes = 1500\<rparr>"

definition emulator_Validate :: "(string \<Rightarrow> int option) \<Rightarrow> emulator_config \<Rightarrow> bool" where
  "emulator_Validate port c =
     (case port (emu_Address c) of
        None \<Rightarrow> False
      | Some n \<Rightarrow>
          if n < 0 \<or> n > 65535 then False
          else if MaxClients c < 1 \<or> MaxClients c > 128 then False
          else if \<exists>d \<in> set [ReportInterval c, KeepaliveInterval c, AckTimeout c,
                  emu_HandshakeTimeout c, emu_ReadTimeout c, emu_WriteTimeout c].
                  d < 10 * millisecond \<or> d > hour then False
          else if KeepaliveInterval c + AckTimeout c \<ge> emu_ReadTimeout c then False
          else if FrameBytes c < 128 \<or> FrameBytes c > 1048576 then False
          else True)"

definition emulator_limits :: "emulator_config \<Rightarrow> limits" where
  "emulator_limits c = DefaultLimits\<lparr>maxFrameSize := FrameBytes c\<rparr>"

datatype emulator_error =
    EmuProtocol | EmuLlrp llrp_error | ErrScenario | EmuInventory inventory_error

text \<open>
  The interval is a 32-bit count of milliseconds, so neither product nor sum below can leave
  the range of a duration.
\<close>

definition requestedKeepalive :: "message \<Rightarrow> emulator_config \<Rightarrow> emulator_error + int" where
  "requestedKeepalive m c =
     (if h_type (m_header m) \<noteq> SetReaderConfigHeader \<or> length (m_payload m) < 1 \<or>
         hd (m_payload m) \<noteq> 0
      then Inl EmuProtocol
      else case DecodeParameters (drop 1 (m_payload m)) (emulator_limits c) of
             Inl e \<Rightarrow> Inl (EmuLlrp e)
           | Inr parameters \<Rightarrow>
               bind_res (fold_res (\<lambda>p (seen, interval).
                   if p_tv p \<or> p_type p \<noteq> 220 \<or> seen \<or> length (p_data p) \<noteq> 5 \<or> hd (p_data p) \<noteq> 1
                   then Inl EmuProtocol
                   else Inr (True, int (unat (get_u32 (drop 1 (p_data p)))) * millisecond))
                   parameters (False, KeepaliveInterval c)) (\<lambda>(_, interval).
                 if interval < 10 * millisecond \<or> interval > hour \<or>
                    interval + AckTimeout c \<ge> emu_ReadTimeout c
                 then Inl EmuProtocol
                 else Inr interval))"

section \<open>Scenarios, the catalog and the cursor\<close>

definition MaxCycles :: nat where "MaxCycles = 1024"
definition MaxTags :: nat where "MaxTags = 100000"

record scenario =
  cycles :: "tag list list"
  seed :: int
  repeat :: bool
  shuffle :: bool

definition NewScenario :: "tag list list \<Rightarrow> int \<Rightarrow> bool \<Rightarrow> bool \<Rightarrow> emulator_error + scenario" where
  "NewScenario cs seed' repeat' shuffle' =
     (if cs = [] \<or> length cs > MaxCycles then Inl ErrScenario
      else bind_res (fold_res (\<lambda>ts (n, acc).
             let n' = n + length ts in
             if n' > MaxTags then Inl ErrScenario
             else case Replace NewStore ts of
                    (Some e, _) \<Rightarrow> Inl ErrScenario
                  | (None, store) \<Rightarrow> Inr (n', acc @ [Snapshot store])) cs (0, [])) (\<lambda>(_, acc).
        Inr \<lparr>cycles = acc, seed = seed', repeat = repeat', shuffle = shuffle'\<rparr>))"

record catalog =
  cat_scenario :: scenario
  cat_revision :: u64

definition newCatalog :: "scenario \<Rightarrow> catalog" where
  "newCatalog s = \<lparr>cat_scenario = s, cat_revision = 1\<rparr>"

definition cat_replace :: "catalog \<Rightarrow> scenario \<Rightarrow> catalog \<times> u64" where
  "cat_replace c s =
     (let c' = c\<lparr>cat_scenario := s, cat_revision := cat_revision c + 1\<rparr> in (c', cat_revision c'))"

record 'r cursor =
  cur_revision :: u64
  cur_random :: "'r option"
  cur_index :: nat

text \<open>A connection's fresh cursor: Go's zero value beside the catalog and factory it is given.\<close>

definition new_cursor :: "'r cursor" where
  "new_cursor = \<lparr>cur_revision = 0, cur_random = None, cur_index = 0\<rparr>"

definition swap :: "'a list \<Rightarrow> nat \<Rightarrow> nat \<Rightarrow> 'a list" where
  "swap xs i j = xs[i := xs ! j, j := xs ! i]"

fun shuffle_loop ::
  "('r \<Rightarrow> int \<Rightarrow> int \<times> 'r) \<Rightarrow> nat \<Rightarrow> 'a list \<Rightarrow> 'r \<Rightarrow> (emulator_error + 'a list) \<times> 'r" where
  "shuffle_loop intn 0 xs r = (Inr xs, r)"
| "shuffle_loop intn (Suc i) xs r =
     (case intn r (int (Suc i) + 1) of (j, r') \<Rightarrow>
        if j < 0 \<or> j > int (Suc i) then (Inl ErrScenario, r')
        else shuffle_loop intn i (swap xs (Suc i) (nat j)) r')"

text \<open>
  \<open>Next\<close>, with the cursor's reference to the catalog passed in. A cycle that is not available
  is \<open>Inr None\<close>; the state the code leaves behind on an error is returned as well. The code
  keeps the scenario it last saw in the cursor but reads only the catalog's snapshot.
\<close>

definition cursor_Next ::
  "('r \<Rightarrow> int \<Rightarrow> int \<times> 'r) \<Rightarrow> (int \<Rightarrow> 'r option) \<Rightarrow> catalog \<Rightarrow> 'r cursor \<Rightarrow>
     (emulator_error + tag list option) \<times> 'r cursor" where
  "cursor_Next intn factory cat c0 =
     (let scenario = cat_scenario cat;
          fresh = (cur_revision c0 \<noteq> cat_revision cat);
          c1 = (if fresh then \<lparr>cur_revision = cat_revision cat, cur_random = factory (seed scenario), cur_index = 0\<rparr>
                else c0)
      in if fresh \<and> cur_random c1 = None then (Inl ErrScenario, c1)
         else if cur_index c1 = length (cycles scenario) \<and> \<not> repeat scenario then (Inr None, c1)
         else let index = (if cur_index c1 = length (cycles scenario) then 0 else cur_index c1);
                  ts = cycles scenario ! index;
                  c2 = c1\<lparr>cur_index := index + 1\<rparr>
              in if \<not> shuffle scenario then (Inr (Some ts), c2)
                 else case cur_random c2 of
                        None \<Rightarrow> (Inl ErrScenario, c2) \<comment> \<open>a nil source; excluded above\<close>
                      | Some r \<Rightarrow>
                          (case shuffle_loop intn (length ts - 1) ts r of
                             (Inl e, r') \<Rightarrow> (Inl e, c2\<lparr>cur_random := Some r'\<rparr>)
                           | (Inr ts', r') \<Rightarrow> (Inr (Some ts'), c2\<lparr>cur_random := Some r'\<rparr>)))"

section \<open>Facts: report frames\<close>

definition emit_log :: "bytes \<Rightarrow> bytes list \<Rightarrow> 'x option \<times> bytes list" where
  "emit_log body log = (None, log @ [body])"

definition pc_of :: "tag \<Rightarrow> u16" where
  "pc_of t = push_bit 11 (of_nat (length (tag_epc t) div 2))"

definition wire_tag :: "tag \<Rightarrow> bytes \<times> u16" where
  "wire_tag t = (tag_epc t, pc_of t)"

definition cycle_body :: "tag list \<Rightarrow> bytes" where
  "cycle_body ts = concat (map (\<lambda>t. tag_report (wire_tag t)) ts)"

lemma cycle_body_simps [simp]:
  "cycle_body [] = []" "cycle_body (g @ h) = cycle_body g @ cycle_body h"
  "cycle_body [t] = tag_report (wire_tag t)"
  by (simp_all add: cycle_body_def)

lemma length_tag_report:
  assumes "length epc \<le> 8191"
  shows "length (tag_report (epc, pc)) \<le> 13 + length epc"
proof -
  let ?epcd = "EPCData (of_nat (4 + 2 + length epc)) (of_nat (length epc * 8)) epc"
  have "Inr (tag_report (epc, pc)) = NewTagReportDataParam epc pc"
    by (rule NewTagReportDataParam_tag_report [OF assms, symmetric])
  also have "\<dots> = Inr (put_u16 240 @ put_u16 (of_nat (length ?epcd + length (c1G2PC pc) + 4)) @ ?epcd @ c1G2PC pc)"
    using assms by (simp add: NewTagReportDataParam_def Let_def del: of_nat_add of_nat_mult)
  finally have "tag_report (epc, pc) =
      put_u16 240 @ put_u16 (of_nat (length ?epcd + length (c1G2PC pc) + 4)) @ ?epcd @ c1G2PC pc"
    by (simp only: sum.inject)
  then have "length (tag_report (epc, pc)) = 7 + length ?epcd"
    by (simp add: c1G2PC_def del: of_nat_add of_nat_mult)
  with length_EPCData [of "of_nat (4 + 2 + length epc)" "of_nat (length epc * 8)" epc] show ?thesis
    by linarith
qed

lemma valid_tag_report:
  assumes "tag_valid t"
  shows "NewTagReportDataParam (tag_epc t) (push_bit 11 (of_nat (length (tag_epc t) div 2)))
      = Inr (tag_report (wire_tag t))"
    "length (tag_report (wire_tag t)) \<le> 75"
proof -
  have len: "length (tag_epc t) \<le> 8191" "length (tag_epc t) \<le> 62" using assms by (auto simp: tag_valid_def)
  show "NewTagReportDataParam (tag_epc t) (push_bit 11 (of_nat (length (tag_epc t) div 2)))
      = Inr (tag_report (wire_tag t))"
    using NewTagReportDataParam_tag_report [OF len(1)] by (simp add: wire_tag_def pc_of_def)
  show "length (tag_report (wire_tag t)) \<le> 75"
    using length_tag_report [OF len(1), of "pc_of t"] len(2) by (simp add: wire_tag_def)
qed

definition group_ok :: "nat \<Rightarrow> tag list \<Rightarrow> bool" where
  "group_ok maxFrame g \<longleftrightarrow> length g \<le> 4096 \<and> MessageHeaderSize + length (cycle_body g) \<le> maxFrame"

lemma cycle_loop_groups:
  assumes "\<forall>t \<in> set ts. tag_valid t" "85 \<le> maxFrame" "group_ok maxFrame g"
  shows "\<exists>groups. cycle_loop (emit_log :: bytes \<Rightarrow> bytes list \<Rightarrow> 'x option \<times> bytes list) maxFrame ts (cycle_body g) (int (length g)) log
      = (None, log @ map cycle_body groups) \<and> concat groups = g @ ts \<and> (\<forall>h \<in> set groups. group_ok maxFrame h)"
  using assms(1,3)
proof (induction ts arbitrary: g log)
  case Nil
  then show ?case by (auto simp: emit_log_def intro!: exI [of _ "[g]"])
next
  case (Cons t ts)
  then have v: "tag_valid t" by simp
  let ?emit = "emit_log :: bytes \<Rightarrow> bytes list \<Rightarrow> 'x option \<times> bytes list"
  note rep = valid_tag_report [OF v]
  have fits: "MessageHeaderSize + length (tag_report (wire_tag t)) \<le> maxFrame"
    using rep(2) assms(2) by (simp add: MessageHeaderSize_def)
  show ?case
  proof (cases "MessageHeaderSize + length (cycle_body g) + length (tag_report (wire_tag t)) > maxFrame \<or>
      int (length g) = maxParameters DefaultLimits")
    case True
    have "group_ok maxFrame [t]" using fits by (simp add: group_ok_def)
    from Cons.IH [OF _ this, of "log @ [cycle_body g]"] Cons.prems obtain groups where
      rec: "cycle_loop ?emit maxFrame ts (tag_report (wire_tag t)) 1 (log @ [cycle_body g])
        = (None, log @ cycle_body g # map cycle_body groups)"
      "concat groups = t # ts" "\<forall>h \<in> set groups. group_ok maxFrame h"
      by auto
    have "cycle_loop ?emit maxFrame (t # ts) (cycle_body g) (int (length g)) log =
        cycle_loop ?emit maxFrame ts (tag_report (wire_tag t)) 1 (log @ [cycle_body g])"
      using True fits rep by (simp add: emit_log_def)
    with rec Cons.prems show ?thesis
      by (intro exI [of _ "g # groups"]) simp
  next
    case False
    have "group_ok maxFrame (g @ [t])"
      using False Cons.prems(2) by (auto simp: group_ok_def)
    from Cons.IH [OF _ this, of log] Cons.prems obtain groups where
      "cycle_loop ?emit maxFrame ts (cycle_body (g @ [t])) (int (length (g @ [t]))) log
        = (None, log @ map cycle_body groups)"
      "concat groups = (g @ [t]) @ ts" "\<forall>h \<in> set groups. group_ok maxFrame h"
      by auto
    with False fits rep show ?thesis
      by (intro exI [of _ groups]) (auto simp: add.commute)
  qed
qed

lemma writeCycle_groups:
  assumes "\<forall>t \<in> set ts. tag_valid t" "85 \<le> unat maxFrame"
  shows "\<exists>groups. writeCycle ts maxFrame emit_log log = (None, log @ map cycle_body groups) \<and>
    concat groups = ts \<and> (\<forall>h \<in> set groups. group_ok (unat maxFrame) h)"
  using cycle_loop_groups [OF assms(1,2), of "[]" log] assms(2)
  by (simp add: writeCycle_def group_ok_def MessageHeaderSize_def)

lemma group_decodes:
  assumes "group_ok maxFrame g" "\<forall>t \<in> set g. tag_valid t"
    "75 \<le> unat (maxParameterSize (normalized l))" "4096 \<le> maxParameters (normalized l)"
    "now \<noteq> 0" "length source \<le> 256"
  shows "decodeObservations (cycle_body g) l source now = Inr (map (\<lambda>t. observed source now (wire_tag t)) g)"
proof -
  have fits: "tag_fits l (wire_tag t) \<and> whole_words (fst (wire_tag t))" if "t \<in> set g" for t
  proof -
    have v: "tag_valid t" using assms(2) that by blast
    then have "tag_epc t \<noteq> []" by (auto simp: tag_valid_def)
    with v valid_tag_report(2) [OF v] assms(3,4) show ?thesis
      by (auto simp: tag_fits_def wire_tag_def whole_words_def tag_valid_def)
  qed
  have "decodeObservations (concat (map tag_report (map wire_tag g))) l source now =
      Inr (map (observed source now) (map wire_tag g))"
    using assms fits by (intro decodeObservations_reports) (auto simp: group_ok_def)
  then show ?thesis by (simp add: cycle_body_def comp_def)
qed

lemma groups_decode:
  assumes "\<forall>g \<in> set groups. group_ok maxFrame g" "\<forall>t \<in> set (concat groups). tag_valid t"
    "75 \<le> unat (maxParameterSize (normalized l))" "4096 \<le> maxParameters (normalized l)"
    "now \<noteq> 0" "length source \<le> 256"
  shows "map_res (\<lambda>body. decodeObservations body l source now) (map cycle_body groups) =
    Inr (map (map (\<lambda>t. observed source now (wire_tag t))) groups)"
  using assms(1,2)
proof (induction groups)
  case (Cons g groups)
  then have "decodeObservations (cycle_body g) l source now = Inr (map (\<lambda>t. observed source now (wire_tag t)) g)"
    by (intro group_decodes [OF _ _ assms(3-6)]) auto
  with Cons show ?case by simp
qed simp

section \<open>Facts: shuffling and scenarios\<close>

lemma mset_swap: "i < length xs \<Longrightarrow> j < length xs \<Longrightarrow> mset (swap xs i j) = mset xs"
  by (simp add: swap_def mset_swap)

lemma length_swap [simp]: "length (swap xs i j) = length xs"
  by (simp add: swap_def)

lemma shuffle_loop_perm:
  "shuffle_loop intn i xs r = (Inr ys, r') \<Longrightarrow> i < length xs \<or> i = 0 \<Longrightarrow> mset ys = mset xs"
proof (induction i arbitrary: xs r)
  case (Suc i)
  obtain j r1 where j: "intn r (int (Suc i) + 1) = (j, r1)" by (cases "intn r (int (Suc i) + 1)")
  with Suc.prems have rec: "shuffle_loop intn i (swap xs (Suc i) (nat j)) r1 = (Inr ys, r')"
    and range: "0 \<le> j" "j \<le> int (Suc i)" and len: "Suc i < length xs"
    by (auto split: if_splits)
  have "nat j < length xs" using range len by linarith
  with Suc.IH [OF rec] len show ?case by (simp add: mset_swap)
qed simp

definition random_in_range :: "('r \<Rightarrow> int \<Rightarrow> int \<times> 'r) \<Rightarrow> bool" where
  "random_in_range intn \<longleftrightarrow> (\<forall>r n. 0 < n \<longrightarrow> 0 \<le> fst (intn r n) \<and> fst (intn r n) < n)"

lemma shuffle_loop_ok:
  "random_in_range intn \<Longrightarrow> \<exists>ys r'. shuffle_loop intn i xs r = (Inr ys, r')"
proof (induction i arbitrary: xs r)
  case (Suc i)
  obtain j r1 where j: "intn r (int (Suc i) + 1) = (j, r1)" by (cases "intn r (int (Suc i) + 1)")
  have "0 \<le> fst (intn r (int (Suc i) + 1)) \<and> fst (intn r (int (Suc i) + 1)) < int (Suc i) + 1"
    using Suc.prems by (simp add: random_in_range_def)
  with j Suc show ?case by simp
qed simp

lemma NewScenario_iff:
  "NewScenario cs sd rep shuf = Inr sc \<longleftrightarrow>
     cs \<noteq> [] \<and> length cs \<le> MaxCycles \<and> sum_list (map length cs) \<le> MaxTags \<and>
     (\<forall>ts \<in> set cs. is_ok (tagMap ts)) \<and>
     sc = \<lparr>cycles = map sort cs, seed = sd, repeat = rep, shuffle = shuf\<rparr>"
proof -
  have rep': "Replace NewStore ts = (None, store) \<longleftrightarrow>
      (\<exists>m. tagMap ts = Inr m \<and> store = NewStore\<lparr>tags := m\<rparr>)" for ts store
    by (auto simp: Replace_def split: sum.splits)
  let ?f = "\<lambda>ts (n, acc). let n' = n + length ts in
             if n' > MaxTags then Inl ErrScenario
             else case Replace NewStore ts of
                    (Some e, _) \<Rightarrow> Inl ErrScenario
                  | (None, store) \<Rightarrow> Inr (n', acc @ [Snapshot store])"
  have loop: "fold_res ?f qs (n, acc) = Inr (n', acc') \<longleftrightarrow>
      (qs = [] \<or> n + sum_list (map length qs) \<le> MaxTags) \<and> (\<forall>ts \<in> set qs. is_ok (tagMap ts)) \<and>
      n' = n + sum_list (map length qs) \<and> acc' = acc @ map sort qs" for qs n acc n' acc'
  proof (induction qs arbitrary: n acc)
    case Nil
    then show ?case by auto
  next
    case (Cons ts qs)
    show ?case
    proof (cases "n + length ts \<le> MaxTags \<and> is_ok (tagMap ts)")
      case True
      then obtain m where m: "tagMap ts = Inr m" by (auto simp: is_ok_iff)
      then have "Replace NewStore ts = (None, NewStore\<lparr>tags := m\<rparr>)" using rep' by blast
      with True have "?f ts (n, acc) = Inr (n + length ts, acc @ [sort ts])"
        using Replace_Snapshot [of NewStore ts] by simp
      with Cons.IH [of "n + length ts" "acc @ [sort ts]"] True show ?thesis
        by (cases qs) (auto simp: add.assoc)
    next
      case False
      then have "\<exists>e. ?f ts (n, acc) = Inl e"
        by (cases "tagMap ts") (auto simp: Replace_def Let_def)
      with False show ?thesis by auto
    qed
  qed
  show ?thesis
    using loop [of cs 0 "[]"] by (auto simp: NewScenario_def not_less)
qed

section \<open>Facts: the cursor\<close>

fun play ::
  "('r \<Rightarrow> int \<Rightarrow> int \<times> 'r) \<Rightarrow> (int \<Rightarrow> 'r option) \<Rightarrow> catalog \<Rightarrow> nat \<Rightarrow> 'r cursor \<Rightarrow>
     (emulator_error + tag list option) list" where
  "play intn factory cat 0 c = []"
| "play intn factory cat (Suc n) c =
     (case cursor_Next intn factory cat c of (r, c') \<Rightarrow> r # play intn factory cat n c')"

text \<open>What the \<open>i\<close>-th cycle of a scenario may be, counting from the cursor's start.\<close>

definition plays :: "scenario \<Rightarrow> nat \<Rightarrow> emulator_error + tag list option \<Rightarrow> bool" where
  "plays sc i r \<longleftrightarrow>
     (if length (cycles sc) \<le> i \<and> \<not> repeat sc then r = Inr None
      else \<exists>ys. r = Inr (Some ys) \<and> mset ys = mset (cycles sc ! (i mod length (cycles sc))) \<and>
                (\<not> shuffle sc \<longrightarrow> ys = cycles sc ! (i mod length (cycles sc))))"

definition at_position :: "catalog \<Rightarrow> 'r cursor \<Rightarrow> bool" where
  "at_position cat c \<longleftrightarrow> cur_revision c = cat_revision cat \<and> cur_random c \<noteq> None \<and>
     cur_index c \<le> length (cycles (cat_scenario cat))"

lemma cursor_Next_step:
  assumes "at_position cat c" "cycles (cat_scenario cat) \<noteq> []" "random_in_range intn"
  shows "\<exists>r c'. cursor_Next intn factory cat c = (r, c') \<and> at_position cat c' \<and>
    plays (cat_scenario cat) (cur_index c) r \<and>
    (\<forall>j x. plays (cat_scenario cat) (cur_index c' + j) x = plays (cat_scenario cat) (Suc (cur_index c) + j) x)"
proof -
  let ?sc = "cat_scenario cat" and ?k = "length (cycles (cat_scenario cat))"
  obtain r where pos: "cur_revision c = cat_revision cat" "cur_random c = Some r" "cur_index c \<le> ?k" "0 < ?k"
    using assms(1,2) by (auto simp: at_position_def)
  show ?thesis
  proof (cases "cur_index c = ?k \<and> \<not> repeat ?sc")
    case True
    then show ?thesis
      using assms(1) pos by (auto simp: cursor_Next_def plays_def Let_def)
  next
    case False
    define i where "i = (if cur_index c = ?k then 0 else cur_index c)"
    have i: "i < ?k" "i = cur_index c mod ?k" using pos by (auto simp: i_def)
    define ts where "ts = cycles ?sc ! i"
    obtain ys r' where sh: "shuffle_loop intn (length ts - 1) ts r = (Inr ys, r')"
      using shuffle_loop_ok [OF assms(3)] by blast
    have perm: "mset ys = mset ts"
      using shuffle_loop_perm [OF sh] by (cases ts) auto
    let ?c' = "c\<lparr>cur_index := i + 1\<rparr>"
    let ?out = "if shuffle ?sc then (Inr (Some ys), ?c'\<lparr>cur_random := Some r'\<rparr>) else (Inr (Some ts), ?c')"
    have nxt: "cursor_Next intn factory cat c = ?out"
      using pos False sh by (cases "cur_index c = ?k") (auto simp: cursor_Next_def Let_def i_def ts_def)
    have here: "\<not> (?k \<le> cur_index c \<and> \<not> repeat ?sc)" using False pos(3) by auto
    have "plays ?sc (cur_index c) (fst ?out)"
      using here perm i by (auto simp: plays_def ts_def)
    moreover have "at_position cat (snd ?out)"
      using pos i(1) by (simp add: at_position_def)
    moreover have "plays ?sc (cur_index (snd ?out) + j) x = plays ?sc (Suc (cur_index c) + j) x" for j x
    proof (cases "repeat ?sc")
      case True
      have "(i + 1 + j) mod ?k = (Suc (cur_index c) + j) mod ?k"
        unfolding i(2) by (metis (no_types, lifting) Suc_eq_plus1 add.assoc mod_add_left_eq)
      with True show ?thesis by (simp add: plays_def)
    next
      case f: False
      with False pos have "i = cur_index c" by (auto simp: i_def)
      with f show ?thesis by (simp add: plays_def)
    qed
    ultimately show ?thesis using nxt by (cases "shuffle ?sc") auto
  qed
qed

lemma play_at_position:
  assumes "at_position cat c" "cycles (cat_scenario cat) \<noteq> []" "random_in_range intn"
  shows "j < n \<Longrightarrow> plays (cat_scenario cat) (cur_index c + j) (play intn factory cat n c ! j)"
  using assms(1)
proof (induction n arbitrary: c j)
  case (Suc n)
  from cursor_Next_step [OF Suc.prems(2) assms(2,3), of factory] obtain r c' where st:
    "cursor_Next intn factory cat c = (r, c')" "at_position cat c'"
    "plays (cat_scenario cat) (cur_index c) r"
    "\<And>j x. plays (cat_scenario cat) (cur_index c' + j) x = plays (cat_scenario cat) (Suc (cur_index c) + j) x"
    by blast
  show ?case
  proof (cases j)
    case 0
    with st show ?thesis by simp
  next
    case (Suc j')
    with Suc.IH [of j' c'] Suc.prems st show ?thesis by simp
  qed
qed simp

lemma cursor_Next_fresh:
  assumes "cur_revision c \<noteq> cat_revision cat" "factory (seed (cat_scenario cat)) \<noteq> None"
  shows "cursor_Next intn factory cat c = cursor_Next intn factory cat
    \<lparr>cur_revision = cat_revision cat, cur_random = factory (seed (cat_scenario cat)), cur_index = 0\<rparr>"
  using assms by (simp add: cursor_Next_def Let_def)

lemma play_fresh:
  assumes "cur_revision c \<noteq> cat_revision cat" "factory (seed (cat_scenario cat)) \<noteq> None"
    "cycles (cat_scenario cat) \<noteq> []" "random_in_range intn" "j < n"
  shows "plays (cat_scenario cat) j (play intn factory cat n c ! j)"
proof -
  let ?c0 = "\<lparr>cur_revision = cat_revision cat, cur_random = factory (seed (cat_scenario cat)), cur_index = 0\<rparr>"
  have "at_position cat ?c0" using assms(2) by (simp add: at_position_def)
  moreover have "play intn factory cat n c = play intn factory cat n ?c0"
    by (cases n) (simp_all add: cursor_Next_fresh [of c cat factory, OF assms(1,2)])
  ultimately show ?thesis using play_at_position [of cat ?c0 intn j n factory] assms by simp
qed

section \<open>Facts: the keepalive interval\<close>

lemma requestedKeepalive_bounds:
  "requestedKeepalive m c = Inr interval \<Longrightarrow>
     10 * millisecond \<le> interval \<and> interval \<le> hour \<and> interval + AckTimeout c < emu_ReadTimeout c"
  by (auto simp: requestedKeepalive_def split: if_splits sum.splits)

lemma requestedKeepalive_reader:
  assumes "9 \<le> unat (maxParameterSize (normalized (emulator_limits c)))"
    "1 \<le> maxParameters (normalized (emulator_limits c))" "10 * second + AckTimeout c < emu_ReadTimeout c"
  shows "requestedKeepalive (SetReaderConfigMessage i) c = Inr (10 * second)"
proof -
  let ?l = "emulator_limits c"
  let ?ks = "\<lparr>p_type = 220, p_tv = False, p_data = [1] @ put_u32 10000\<rparr>"
  have enc: "EncodeParameter ?ks = Inr keepaliveSpec"
    by (simp add: EncodeParameter_Inr keepaliveSpec_def)
  have ok: "\<forall>p \<in> set [?ks]. param_ok (normalized ?l) p"
    using enc assms(1) by (auto simp: param_ok_def keepaliveSpec_def)
  have "DecodeParameters keepaliveSpec ?l = Inr [?ks]"
    using param_codec.parses_enc [OF ok] assms(2) enc by (simp add: DecodeParameters_iff enc_param_def)
  moreover have "10 * second = int (unat (10000 :: u32)) * millisecond"
    by (simp add: second_def millisecond_def)
  ultimately show ?thesis
    using assms(3) by (simp add: requestedKeepalive_def typed_message_defs SetReaderConfigHeader_def
        second_def millisecond_def hour_def)
qed

section \<open>Facts: rejected scenarios\<close>

lemma NewScenario_error: "NewScenario cs sd rep shuf = Inl e \<Longrightarrow> e = ErrScenario"
proof -
  have "fold_res (\<lambda>ts (n, acc). let n' = n + length ts in
             if n' > MaxTags then Inl ErrScenario
             else case Replace NewStore ts of
                    (Some e, _) \<Rightarrow> Inl ErrScenario
                  | (None, store) \<Rightarrow> Inr (n', acc @ [Snapshot store])) qs s = Inl e \<Longrightarrow> e = ErrScenario" for qs s
    by (induction qs arbitrary: s)
      (auto simp: bind_res_eq_Inl Let_def split: prod.splits option.splits if_splits)
  then show "NewScenario cs sd rep shuf = Inl e \<Longrightarrow> e = ErrScenario"
    by (auto simp: NewScenario_def bind_res_eq_Inl split: if_splits)
qed

section \<open>Properties\<close>

text \<open>
  An inventory cycle reaches the reader whole: whatever the frame size, \<open>writeCycle\<close> cuts
  the cycle into report bodies that fit it, and a reader whose limits admit them reads the
  frames back one by one off the transport and decodes, in order, exactly the tags of the
  cycle, each with its EPC, its PC word (the EPC length in words) and the reader's source
  and clock.
\<close>

theorem cycle_delivered:
  assumes "list_all tag_valid ts" "128 \<le> maxFrame" "maxFrame \<le> maxFrameSize (normalized l)"
    and "75 \<le> maxParameterSize (normalized l)" "4096 \<le> maxParameters (normalized l)"
    and "now \<noteq> 0" "length source \<le> 256"
  shows "\<exists>bodies obss. (writeCycle ts maxFrame emit_log [] :: 'x cycle_error option \<times> bytes list) = (None, bodies) \<and>
    list_all (\<lambda>body. MessageHeaderSize + length body \<le> unat maxFrame) bodies \<and>
    (let ms = map (\<lambda>body. ROAccessReportMessage body messageID) bodies in
     \<exists>frames received.
       map_res (\<lambda>m. EncodeMessage m (DefaultLimits\<lparr>maxFrameSize := maxFrame\<rparr>)) ms = Inr frames \<and>
       read_items (next_message l) (length bodies) (concat frames @ rest) = Inr (received, rest) \<and>
       map_res (\<lambda>m. decodeObservations (m_payload m) l source now) received = Inr obss) \<and>
    concat obss = map (\<lambda>t. \<lparr>obs_tag = t, obs_seenAt = now, obs_source = source, obs_pc = pc_of t, obs_hasPC = True\<rparr>) ts"
proof -
  let ?el = "DefaultLimits\<lparr>maxFrameSize := maxFrame\<rparr>"
  have size: "128 \<le> unat maxFrame" "unat maxFrame \<le> unat (maxFrameSize (normalized l))"
    "75 \<le> unat (maxParameterSize (normalized l))"
    using assms(2-4) by (simp_all add: word_le_nat_alt)
  then obtain groups where run: "(writeCycle ts maxFrame emit_log [] :: 'x cycle_error option \<times> bytes list) = (None, map cycle_body groups)"
    and all: "concat groups = ts" and ok: "\<forall>g \<in> set groups. group_ok (unat maxFrame) g"
    using writeCycle_groups [of ts maxFrame "[]"] assms(1) by (auto simp: list_all_iff)
  let ?ms = "map (\<lambda>body. ROAccessReportMessage body messageID) (map cycle_body groups)"
  let ?obss = "map (map (\<lambda>t. observed source now (wire_tag t))) groups"
  have "maxFrameSize (normalized ?el) = maxFrame"
    using assms(2) by (auto simp: normalized_fields)
  then have send: "\<forall>m \<in> set ?ms. sendable ?el m \<and> sendable l m"
    using ok size(2) by (auto simp: sendable_def group_ok_def typed_message_defs)
  then have enc: "map_res (\<lambda>m. EncodeMessage m ?el) ?ms = Inr (map frame_of ?ms)"
    by (intro map_res_all_ok) (auto simp: EncodeMessage_Inr)
  have recv: "read_items (next_message l) (length (map cycle_body groups)) (concat (map frame_of ?ms) @ rest) =
      Inr (map wire_form ?ms, rest)"
    using read_messages [of ?ms l rest] send by simp
  have "map_res (\<lambda>m. decodeObservations (m_payload m) l source now) (map wire_form ?ms) =
      map_res (\<lambda>body. decodeObservations body l source now) (map cycle_body groups)"
    by (simp add: map_res_map comp_def wire_form_def typed_message_defs)
  also have "\<dots> = Inr ?obss"
    using groups_decode [OF ok, of l now source] assms(1,5-7) size(3) all by (simp add: list_all_iff)
  finally have dec: "map_res (\<lambda>m. decodeObservations (m_payload m) l source now) (map wire_form ?ms) = Inr ?obss" .
  have obs: "concat ?obss = map (\<lambda>t. \<lparr>obs_tag = t, obs_seenAt = now, obs_source = source,
      obs_pc = pc_of t, obs_hasPC = True\<rparr>) ts"
    by (simp add: map_concat [symmetric] all observed_def wire_tag_def)
  have small: "list_all (\<lambda>body. MessageHeaderSize + length body \<le> unat maxFrame) (map cycle_body groups)"
    using ok by (auto simp: list_all_iff group_ok_def)
  show ?thesis
    unfolding Let_def
    by (rule exI [of _ "map cycle_body groups"], rule exI [of _ ?obss]) (use run enc recv dec obs small in blast)
qed

lemma cycle_delivered_witness:
  "\<exists>bodies. writeCycle [Tag [171, 205], Tag [1, 2, 3, 4]] 128 emit_log [] = (None :: unit cycle_error option, bodies)"
  using cycle_delivered [of "[Tag [171, 205], Tag [1, 2, 3, 4]]" 128 DefaultLimits 7 "''r''" 1 "[]"]
  by (auto simp: tag_valid_def)

text \<open>
  A connection plays the published scenario from its start, one cycle per call: the
  \<open>i\<close>-th call returns cycle \<open>i mod n\<close> of its \<open>n\<close> cycles, a permutation of it when the scenario
  shuffles, and when the scenario does not repeat every call after the \<open>n\<close>-th reports that
  there is none left. A publication between two calls starts the new scenario at its first
  cycle, since its revision is one the cursor has not seen.
\<close>

theorem cursor_plays_scenario:
  assumes "cur_revision c \<noteq> cat_revision cat" "factory (seed (cat_scenario cat)) \<noteq> None"
    and "cycles (cat_scenario cat) \<noteq> []" "random_in_range intn" "i < n"
  shows "let sc = cat_scenario cat; out = play intn factory cat n c ! i; k = length (cycles sc) in
    if k \<le> i \<and> \<not> repeat sc then out = Inr None
    else \<exists>ys. out = Inr (Some ys) \<and>
      (if shuffle sc then mset ys = mset (cycles sc ! (i mod k)) else ys = cycles sc ! (i mod k))"
  using play_fresh [of c cat factory intn i n, OF assms] by (auto simp: plays_def Let_def)

lemma cursor_plays_scenario_witness:
  "play (\<lambda>r n. (0, r)) Some \<lparr>cat_scenario = \<lparr>cycles = [[Tag [1, 2]], [Tag [3, 4]]], seed = 5, repeat = True,
      shuffle = False\<rparr>, cat_revision = 1\<rparr> 6 new_cursor ! 3 = Inr (Some [Tag [3, 4]])"
  using cursor_plays_scenario [of new_cursor "\<lparr>cat_scenario = \<lparr>cycles = [[Tag [1, 2]], [Tag [3, 4]]], seed = 5,
      repeat = True, shuffle = False\<rparr>, cat_revision = 1\<rparr>" Some "\<lambda>r n. (0, r)" 3 6]
  by (simp add: new_cursor_def random_in_range_def Let_def flip: numeral_2_eq_2)

text \<open>
  \<open>NewScenario\<close> accepts exactly the cycle lists within its bounds whose cycles hold valid
  tags, none twice in the same cycle, and publishes every cycle sorted.
\<close>

theorem NewScenario_accepts:
  "NewScenario cs sd rep shuf =
     (if cs \<noteq> [] \<and> length cs \<le> MaxCycles \<and> sum_list (map length cs) \<le> MaxTags \<and>
         list_all (\<lambda>ts. list_all tag_valid ts \<and> distinct ts) cs
      then Inr \<lparr>cycles = map sort cs, seed = sd, repeat = rep, shuffle = shuf\<rparr>
      else Inl ErrScenario)"
  using NewScenario_iff [of cs sd rep shuf] NewScenario_error [of cs sd rep shuf]
  by (cases "NewScenario cs sd rep shuf") (auto simp: tagMap_iff list_all_iff)

text \<open>
  The emulator only grants keepalive intervals that leave its own read timeout room for
  the acknowledgement, and it grants the ten seconds of the reader's own configuration
  message whenever they do.
\<close>

theorem requestedKeepalive_sound:
  "(case requestedKeepalive m c of
      Inl e \<Rightarrow> True
    | Inr interval \<Rightarrow> 10 * millisecond \<le> interval \<and> interval \<le> hour \<and>
        interval + AckTimeout c < emu_ReadTimeout c) \<and>
   (requestedKeepalive (SetReaderConfigMessage messageID) c = Inr (10 * second) \<longleftrightarrow>
      10 * second + AckTimeout c < emu_ReadTimeout c)"
  using requestedKeepalive_bounds [of m c] requestedKeepalive_bounds [of _ c]
    requestedKeepalive_reader [of c messageID]
  by (auto simp: emulator_limits_def normalized_fields split: sum.splits)

end
