(* ===== verification/Reader_Session.thy ===== *)
theory Reader_Session
  imports Reader
begin

text \<open>
  The reader session of \<^verbatim>\<open>src/internal/reader/session.go\<close> as a state machine. A step ends where \<open>Run\<close>
  or \<open>connected\<close> waits for the world: a dial, a message read or written, a place in the output
  queue, the retry timer. What the world answers and when the caller's context is cancelled are
  inputs. An expired deadline and the connection closed by the cancellation watcher show as
  errors of a read or a write. The fields \<open>h_conn\<close> and \<open>h_sent\<close>, what the current connection read and
  wrote, \<open>h_decoded\<close> and \<open>h_out\<close> are history: no step reads them.
\<close>

section \<open>Status and errors\<close>

datatype state =
    Idle | Connecting | Handshaking | Serving | Keepalive | Reporting | Reconnecting | Stopping | Stopped | Failed

text \<open>
  What a dial, a read or a write can fail with, by the classes \<open>retryable\<close> asks for, and what the
  session itself returns.
\<close>

datatype io_error =
    NetError | ClosedPipe | EOF | UnexpectedEOF | NetClosed | DeadlineExceeded | FrameError llrp_error | OtherError

datatype session_error =
    ErrProtocol'
  | ErrBackpressure
  | ContextEnded
  | IOFailed io_error
  | RetryExhausted session_error

definition retryable :: "session_error \<Rightarrow> bool" where
  "retryable err =
     (case err of
        IOFailed e \<Rightarrow> e \<in> {NetError, ClosedPipe, EOF, UnexpectedEOF, NetClosed, DeadlineExceeded}
      | _ \<Rightarrow> False)"

record session_status =
  State :: state
  Ready :: bool
  Attempts :: u64
  Reconnects :: u64
  Frames :: u64
  Reports :: u64
  Observations :: u64
  Keepalives :: u64
  QueueOverflows :: u64
  Failures :: u64
  LastError :: "session_error option"
  RetryDelay :: int

text \<open>Where the session is; \<open>Ending\<close> is the deferred part of \<open>Run\<close> with the result it returns.\<close>

datatype place =
    NotRun
  | Dialing
  | AwaitNotification
  | WriteRequest
  | AwaitResponse
  | WriteEarlyAck u32
  | Reading
  | WriteAck u32
  | Handing "observation list"
  | Waiting
  | Ending session_error
  | Done session_error

record session =
  ss_config :: reader_config
  ss_cancelled :: bool
  ss_status :: session_status
  ss_attempt :: int
  ss_place :: place
  h_conn :: "message list"
  h_sent :: "message list"
  h_decoded :: "observation list"
  h_out :: "observation list"

definition NewSession :: "(string \<Rightarrow> int option) \<Rightarrow> reader_config \<Rightarrow> session option" where
  "NewSession port c =
     (if \<not> reader_Validate port c then None
      else Some \<lparr>ss_config = c, ss_cancelled = False,
        ss_status = \<lparr>State = Idle, Ready = False, Attempts = 0, Reconnects = 0, Frames = 0, Reports = 0,
          Observations = 0, Keepalives = 0, QueueOverflows = 0, Failures = 0, LastError = None, RetryDelay = 0\<rparr>,
        ss_attempt = 0, ss_place = NotRun, h_conn = [], h_sent = [], h_decoded = [], h_out = []\<rparr>)"

section \<open>The parts between two waits\<close>

definition update :: "(session_status \<Rightarrow> session_status) \<Rightarrow> session \<Rightarrow> session" where
  "update f s = s\<lparr>ss_status := f (ss_status s)\<rparr>"

definition transition :: "state \<Rightarrow> session \<Rightarrow> session" where
  "transition st = update (\<lambda>v. v\<lparr>State := st, Ready := st = Serving \<or> st = Keepalive \<or> st = Reporting\<rparr>)"

definition goto :: "place \<Rightarrow> session \<Rightarrow> session" where
  "goto p s = s\<lparr>ss_place := p\<rparr>"

text \<open>The deferred function of \<open>Run\<close>.\<close>

definition finish :: "session_error \<Rightarrow> session \<Rightarrow> session" where
  "finish result s =
     (let s = transition Stopping s
      in goto (Done result) (if \<not> ss_cancelled s then transition Failed s else transition Stopped s))"

text \<open>The head of the loop of \<open>Run\<close>, and its tail once dialing or the connection has failed.\<close>

definition run_head :: "session \<Rightarrow> session" where
  "run_head s =
     (if ss_cancelled s then goto (Ending ContextEnded) s
      else goto Dialing (update (\<lambda>v. v\<lparr>Attempts := Attempts v + 1, RetryDelay := 0\<rparr>) (transition Connecting s)))"

definition run_tail :: "session_error \<Rightarrow> session \<Rightarrow> session" where
  "run_tail err s =
     (if ss_cancelled s then goto (Ending ContextEnded) s
      else let s = update (\<lambda>v. v\<lparr>Failures := Failures v + 1, LastError := Some err\<rparr>) s in
      if \<not> retryable err then goto (Ending err) s
      else if ss_attempt s \<ge> MaxRetries (ss_config s) then goto (Ending (RetryExhausted err)) s
      else let delay = reader_backoff (ss_config s) (ss_attempt s + 1)
           in goto Waiting (transition Reconnecting
                (update (\<lambda>v. v\<lparr>Reconnects := Reconnects v + 1, RetryDelay := delay\<rparr>) s)))"

text \<open>The head of the serving loop of \<open>connected\<close>.\<close>

definition serve_head :: "session \<Rightarrow> session" where
  "serve_head s = (if ss_cancelled s then run_tail ContextEnded s else goto Reading s)"

definition hand_over :: "observation list \<Rightarrow> session \<Rightarrow> session" where
  "hand_over obs s =
     (case obs of
        [] \<Rightarrow> serve_head (transition Serving s)
      | _ \<Rightarrow> if ss_cancelled s then run_tail ContextEnded s else goto (Handing obs) s)"

text \<open>A message that was read, in the three places that read one.\<close>

definition got_notification :: "message \<Rightarrow> session \<Rightarrow> session" where
  "got_notification m s =
     (case validateNotification m (Limits (ss_config s)) True of
        Inl _ \<Rightarrow> run_tail ErrProtocol' s
      | Inr _ \<Rightarrow> goto WriteRequest s)"

definition got_response :: "message \<Rightarrow> session \<Rightarrow> session" where
  "got_response m s =
     (if h_type (m_header m) = KeepaliveHeader then
        if length (m_payload m) \<noteq> 0 then run_tail ErrProtocol' s else goto (WriteEarlyAck (h_id (m_header m))) s
      else case validateConfigResponse m (InitialMessageID (ss_config s)) (Limits (ss_config s)) of
        Inl _ \<Rightarrow> run_tail ErrProtocol' s
      | Inr _ \<Rightarrow> serve_head (transition Serving (update (\<lambda>v. v\<lparr>LastError := None\<rparr>) s)))"

definition got_message :: "instant \<Rightarrow> message \<Rightarrow> session \<Rightarrow> session" where
  "got_message now m s =
     (let t = h_type (m_header m) in
      if t = KeepaliveHeader then
        if length (m_payload m) \<noteq> 0 then run_tail ErrProtocol' s
        else goto (WriteAck (h_id (m_header m))) (transition Keepalive s)
      else if t = ROAccessReportHeader then
        let s = transition Reporting s in
        case decodeObservations (m_payload m) (Limits (ss_config s)) (Source (ss_config s)) now of
          Inl _ \<Rightarrow> run_tail ErrProtocol' s
        | Inr obs \<Rightarrow>
            hand_over obs (update (\<lambda>v. v\<lparr>Reports := Reports v + 1\<rparr>) (s\<lparr>h_decoded := h_decoded s @ obs\<rparr>))
      else if t = ReaderEventNotificationHeader then
        case validateNotification m (Limits (ss_config s)) False of
          Inl _ \<Rightarrow> run_tail ErrProtocol' s
        | Inr _ \<Rightarrow> serve_head (transition Serving s)
      else run_tail ErrProtocol' s)"

definition received :: "message \<Rightarrow> session \<Rightarrow> session" where
  "received m s = update (\<lambda>v. v\<lparr>Frames := Frames v + 1\<rparr>) (s\<lparr>h_conn := h_conn s @ [m]\<rparr>)"

definition sent :: "message \<Rightarrow> session \<Rightarrow> session" where
  "sent m s = s\<lparr>h_sent := h_sent s @ [m]\<rparr>"

definition acked :: "session \<Rightarrow> session" where
  "acked s = update (\<lambda>v. v\<lparr>Keepalives := Keepalives v + 1\<rparr>) s"

section \<open>Steps\<close>

datatype answer =
    Begin
  | Dialed "io_error option"
  | Read "io_error + message" instant
  | Wrote "io_error option"
  | Taken bool
  | TimerFired
  | ContextSeen
  | Cancelled
  | Deferred

definition session_step :: "answer \<Rightarrow> session \<Rightarrow> session option" where
  "session_step a s =
     (case (a, ss_place s) of
        (Begin, NotRun) \<Rightarrow> Some (run_head s)
      | (Dialed None, Dialing) \<Rightarrow> 
          Some (goto AwaitNotification (transition Handshaking (s\<lparr>h_conn := [], h_sent := []\<rparr>)))
      | (Dialed (Some e), Dialing) \<Rightarrow> Some (run_tail (IOFailed e) s)
      | (Read (Inl e) _, AwaitNotification) \<Rightarrow> Some (run_tail (IOFailed e) s)
      | (Read (Inr m) _, AwaitNotification) \<Rightarrow> Some (got_notification m (received m s))
      | (Wrote (Some e), WriteRequest) \<Rightarrow> Some (run_tail (IOFailed e) s)
      | (Wrote None, WriteRequest) \<Rightarrow>
          Some (goto AwaitResponse (sent (SetReaderConfigMessage (InitialMessageID (ss_config s))) s))
      | (Read (Inl e) _, AwaitResponse) \<Rightarrow> Some (run_tail (IOFailed e) s)
      | (Read (Inr m) _, AwaitResponse) \<Rightarrow> Some (got_response m (received m s))
      | (Wrote (Some e), WriteEarlyAck i) \<Rightarrow> Some (run_tail (IOFailed e) s)
      | (Wrote None, WriteEarlyAck i) \<Rightarrow> Some (goto AwaitResponse (acked (sent (KeepaliveAckMessage i) s)))
      | (Read (Inl e) _, Reading) \<Rightarrow> Some (run_tail (IOFailed e) s)
      | (Read (Inr m) now, Reading) \<Rightarrow> Some (got_message now m (received m s))
      | (Wrote (Some e), WriteAck i) \<Rightarrow> Some (run_tail (IOFailed e) s)
      | (Wrote None, WriteAck i) \<Rightarrow> Some (serve_head (transition Serving (acked (sent (KeepaliveAckMessage i) s))))
      | (Taken ok, Handing (ob # obs)) \<Rightarrow>
          Some (if ok then hand_over obs (update (\<lambda>v. v\<lparr>Observations := Observations v + 1\<rparr>) (s\<lparr>h_out := h_out s @ [ob]\<rparr>))
                else run_tail ErrBackpressure (update (\<lambda>v. v\<lparr>QueueOverflows := QueueOverflows v + 1\<rparr>) s))
      | (TimerFired, Waiting) \<Rightarrow> Some (run_head (s\<lparr>ss_attempt := ss_attempt s + 1\<rparr>))
      | (ContextSeen, Waiting) \<Rightarrow> if ss_cancelled s then Some (goto (Ending ContextEnded) s) else None
      | (Cancelled, _) \<Rightarrow> Some (s\<lparr>ss_cancelled := True\<rparr>)
      | (Deferred, Ending e) \<Rightarrow> Some (finish e s)
      | _ \<Rightarrow> None)"

inductive session_move :: "session \<Rightarrow> session \<Rightarrow> bool" where
  "session_step a s = Some s' \<Longrightarrow> session_move s s'"

inductive session_reachable :: "session \<Rightarrow> bool" where
  new: "NewSession port c = Some s \<Longrightarrow> session_reachable s"
| move: "session_reachable s \<Longrightarrow> session_move s s' \<Longrightarrow> session_reachable s'"

inductive_cases session_moveE: "session_move s s'"

section \<open>The invariant\<close>

definition is_keepalive :: "message \<Rightarrow> bool" where
  "is_keepalive m \<longleftrightarrow> h_type (m_header m) = KeepaliveHeader"

text \<open>The messages of a connection up to and after its handshake, and what was written in answer to them.\<close>

definition greeted :: "reader_config \<Rightarrow> message list \<Rightarrow> bool" where
  "greeted c conn \<longleftrightarrow> (\<exists>n ks. conn = n # ks \<and> validateNotification n (Limits c) True = Inr () \<and> list_all is_keepalive ks)"

definition shaken :: "reader_config \<Rightarrow> message list \<Rightarrow> bool" where
  "shaken c conn \<longleftrightarrow> (\<exists>n ks r rest. conn = n # ks @ r # rest \<and> validateNotification n (Limits c) True = Inr () \<and>
     list_all is_keepalive ks \<and> validateConfigResponse r (InitialMessageID c) (Limits c) = Inr ())"

definition answers :: "reader_config \<Rightarrow> message list \<Rightarrow> message list" where
  "answers c conn = SetReaderConfigMessage (InitialMessageID c) #
     map (\<lambda>m. KeepaliveAckMessage (h_id (m_header m))) (filter is_keepalive (drop 1 conn))"

definition status_inv :: "session \<Rightarrow> bool" where
  "status_inv s \<longleftrightarrow>
     (Ready (ss_status s) \<longleftrightarrow> State (ss_status s) \<in> {Serving, Keepalive, Reporting}) \<and>
     Observations (ss_status s) = of_nat (length (h_out s)) \<and> 0 \<le> ss_attempt s \<and> ss_attempt s \<le> MaxRetries (ss_config s)"

definition tried :: "session \<Rightarrow> bool" where
  "tried s \<longleftrightarrow> Attempts (ss_status s) = of_int (ss_attempt s + 1)"

definition all_out :: "session \<Rightarrow> bool" where
  "all_out s \<longleftrightarrow> h_decoded s = h_out s \<and> QueueOverflows (ss_status s) = 0"

text \<open>How a run may end, and what it may leave behind.\<close>

definition ended :: "session_error \<Rightarrow> session \<Rightarrow> bool" where
  "ended e s \<longleftrightarrow>
     (tried s \<or> e = ContextEnded \<and> Attempts (ss_status s) = of_int (ss_attempt s)) \<and>
     (\<exists>lost. h_decoded s = h_out s @ lost \<and>
        (lost = [] \<and> QueueOverflows (ss_status s) = 0 \<or>
         lost \<noteq> [] \<and> (e = ErrBackpressure \<and> QueueOverflows (ss_status s) = 1 \<or> e = ContextEnded))) \<and>
     (case e of
        RetryExhausted e' \<Rightarrow> retryable e' \<and> ss_attempt s = MaxRetries (ss_config s)
      | ContextEnded \<Rightarrow> ss_cancelled s
      | _ \<Rightarrow> \<not> retryable e)"

definition place_inv :: "session \<Rightarrow> bool" where
  "place_inv s \<longleftrightarrow>
     (let c = ss_config s; st = State (ss_status s); conn = h_conn s in
      case ss_place s of
        NotRun \<Rightarrow> st = Idle \<and> ss_attempt s = 0 \<and> Attempts (ss_status s) = 0 \<and> all_out s
      | Dialing \<Rightarrow> st = Connecting \<and> tried s \<and> all_out s
      | AwaitNotification \<Rightarrow> st = Handshaking \<and> tried s \<and> all_out s \<and> conn = [] \<and> h_sent s = []
      | WriteRequest \<Rightarrow> st = Handshaking \<and> tried s \<and> all_out s \<and> length conn = 1 \<and> greeted c conn \<and> h_sent s = []
      | AwaitResponse \<Rightarrow> st = Handshaking \<and> tried s \<and> all_out s \<and> greeted c conn \<and> h_sent s = answers c conn
      | WriteEarlyAck i \<Rightarrow> st = Handshaking \<and> tried s \<and> all_out s \<and> greeted c conn \<and>
          h_sent s @ [KeepaliveAckMessage i] = answers c conn
      | Reading \<Rightarrow> st = Serving \<and> tried s \<and> all_out s \<and> shaken c conn \<and> h_sent s = answers c conn
      | WriteAck i \<Rightarrow> st = Keepalive \<and> tried s \<and> all_out s \<and> shaken c conn \<and>
          h_sent s @ [KeepaliveAckMessage i] = answers c conn
      | Handing obs \<Rightarrow> st = Reporting \<and> tried s \<and> shaken c conn \<and> h_sent s = answers c conn \<and>
          obs \<noteq> [] \<and> h_decoded s = h_out s @ obs \<and> QueueOverflows (ss_status s) = 0
      | Waiting \<Rightarrow> st = Reconnecting \<and> tried s \<and> all_out s \<and> ss_attempt s < MaxRetries c
      | Ending e \<Rightarrow> ended e s \<and> (Ready (ss_status s) \<longrightarrow> shaken c conn)
      | Done e \<Rightarrow> ended e s \<and> st \<in> {Stopped, Failed})"

definition session_inv :: "session \<Rightarrow> bool" where
  "session_inv s \<longleftrightarrow> status_inv s \<and> place_inv s"

text \<open>When \<open>run_tail\<close> is entered with an error.\<close>

definition can_fail :: "session_error \<Rightarrow> session \<Rightarrow> bool" where
  "can_fail err s \<longleftrightarrow> status_inv s \<and> tried s \<and> (Ready (ss_status s) \<longrightarrow> shaken (ss_config s) (h_conn s)) \<and>
     (case err of RetryExhausted _ \<Rightarrow> False | ContextEnded \<Rightarrow> ss_cancelled s | _ \<Rightarrow> True) \<and>
     (all_out s \<or> (\<exists>lost. lost \<noteq> [] \<and> h_decoded s = h_out s @ lost \<and>
        (err = ErrBackpressure \<and> QueueOverflows (ss_status s) = 1 \<or> err = ContextEnded)))"

lemmas step_defs = update_def transition_def goto_def received_def sent_def acked_def
lemmas inv_defs = session_inv_def status_inv_def place_inv_def tried_def all_out_def Let_def

lemma run_tail_inv: "can_fail err s \<Longrightarrow> session_inv (run_tail err s)"
  by (auto simp: can_fail_def run_tail_def inv_defs step_defs ended_def retryable_def split: session_error.splits)

lemma run_head_inv:
  assumes "status_inv s" "all_out s" "Attempts (ss_status s) = of_int (ss_attempt s)" "\<not> Ready (ss_status s)"
  shows "session_inv (run_head s)"
  using assms by (auto simp: run_head_def inv_defs step_defs ended_def)

lemma serve_head_inv:
  assumes "status_inv s" "tried s" "all_out s" "State (ss_status s) = Serving" "shaken (ss_config s) (h_conn s)"
    "h_sent s = answers (ss_config s) (h_conn s)"
  shows "session_inv (serve_head s)"
proof (cases "ss_cancelled s")
  case True
  then have "can_fail ContextEnded s" using assms by (simp add: can_fail_def)
  then show ?thesis using True by (simp add: serve_head_def run_tail_inv)
next
  case False
  then show ?thesis using assms by (auto simp: serve_head_def inv_defs step_defs)
qed

lemma hand_over_inv:
  assumes "status_inv s" "tried s" "State (ss_status s) = Reporting" "shaken (ss_config s) (h_conn s)"
    "h_sent s = answers (ss_config s) (h_conn s)" "h_decoded s = h_out s @ obs" "QueueOverflows (ss_status s) = 0"
  shows "session_inv (hand_over obs s)"
proof (cases obs)
  case Nil
  have "session_inv (serve_head (transition Serving s))"
    by (rule serve_head_inv) (use assms Nil in \<open>auto simp: inv_defs step_defs\<close>)
  then show ?thesis by (simp add: Nil hand_over_def)
next
  case (Cons ob obs')
  show ?thesis
  proof (cases "ss_cancelled s")
    case True
    then have "can_fail ContextEnded s" using assms Cons by (auto simp: can_fail_def)
    then show ?thesis using True by (simp add: Cons hand_over_def run_tail_inv)
  next
    case False
    then show ?thesis using assms Cons by (auto simp: hand_over_def inv_defs step_defs)
  qed
qed

lemma greeted_first: "validateNotification m (Limits c) True = Inr () \<Longrightarrow> greeted c [m]"
  by (simp add: greeted_def)

lemma greeted_more: "greeted c conn \<Longrightarrow> is_keepalive m \<Longrightarrow> greeted c (conn @ [m])"
  by (fastforce simp: greeted_def)

lemma greeted_shaken:
  assumes "greeted c conn" "validateConfigResponse m (InitialMessageID c) (Limits c) = Inr ()"
  shows "shaken c (conn @ [m])"
proof -
  obtain n ks where "conn = n # ks" "validateNotification n (Limits c) True = Inr ()" "list_all is_keepalive ks"
    using assms(1) by (auto simp: greeted_def)
  then have "conn @ [m] = n # ks @ m # []" by simp
  with assms \<open>list_all is_keepalive ks\<close> \<open>validateNotification n _ _ = _\<close> show ?thesis unfolding shaken_def by blast
qed

lemma shaken_more: "shaken c conn \<Longrightarrow> shaken c (conn @ [m])"
  unfolding shaken_def by fastforce

lemma greeted_nonempty: "greeted c conn \<Longrightarrow> conn \<noteq> []" and shaken_nonempty: "shaken c conn \<Longrightarrow> conn \<noteq> []"
  by (auto simp: greeted_def shaken_def)

lemma answers_more:
  "conn \<noteq> [] \<Longrightarrow> answers c (conn @ [m]) =
     answers c conn @ (if is_keepalive m then [KeepaliveAckMessage (h_id (m_header m))] else [])"
  by (cases conn) (simp_all add: answers_def)

lemma config_response_no_keepalive: "validateConfigResponse m i l = Inr u \<Longrightarrow> \<not> is_keepalive m"
  by (auto simp: validateConfigResponse_def is_keepalive_def SetReaderConfigResponseHeader_def KeepaliveHeader_def split: if_splits)

lemma fail_inv:
  assumes "status_inv s" "tried s" "all_out s" "\<not> Ready (ss_status s) \<or> shaken (ss_config s) (h_conn s)"
    "err = ErrProtocol' \<or> (\<exists>e. err = IOFailed e)"
  shows "session_inv (run_tail err s)"
  using assms by (intro run_tail_inv) (auto simp: can_fail_def)

text \<open>What the parts leave alone.\<close>

lemma status_inv_received [simp]:
  "status_inv (received m s) = status_inv s" "tried (received m s) = tried s" "all_out (received m s) = all_out s"
  "ss_config (received m s) = ss_config s" "ss_cancelled (received m s) = ss_cancelled s" "h_conn (received m s) = h_conn s @ [m]"
  "h_sent (received m s) = h_sent s" "State (ss_status (received m s)) = State (ss_status s)"
  "Ready (ss_status (received m s)) = Ready (ss_status s)" "h_decoded (received m s) = h_decoded s" "h_out (received m s) = h_out s"
  by (simp_all add: received_def inv_defs step_defs)

lemma got_notification_inv:
  assumes "session_inv s" "ss_place s = AwaitNotification"
  shows "session_inv (got_notification m (received m s))"
proof -
  have pl: "status_inv s" "tried s" "all_out s" "h_conn s = []" "h_sent s = []" "State (ss_status s) = Handshaking"
    "\<not> Ready (ss_status s)"
    using assms by (auto simp: session_inv_def place_inv_def Let_def status_inv_def)
  have "session_inv (run_tail ErrProtocol' (received m s))" by (rule fail_inv) (use pl in auto)
  moreover have "session_inv (goto WriteRequest (received m s))"
    if "validateNotification m (Limits (ss_config s)) True = Inr ()"
    using pl greeted_first [OF that] by (auto simp: inv_defs step_defs)
  ultimately show ?thesis by (simp add: got_notification_def split: sum.split)
qed

lemma got_response_inv:
  assumes "session_inv s" "ss_place s = AwaitResponse"
  shows "session_inv (got_response m (received m s))"
proof -
  have pl: "status_inv s" "tried s" "all_out s" "greeted (ss_config s) (h_conn s)" "h_sent s = answers (ss_config s) (h_conn s)"
    "State (ss_status s) = Handshaking" "\<not> Ready (ss_status s)"
    using assms by (auto simp: session_inv_def place_inv_def Let_def status_inv_def)
  have fail: "session_inv (run_tail ErrProtocol' (received m s))" by (rule fail_inv) (use pl in auto)
  note ne = greeted_nonempty [OF pl(4)]
  show ?thesis
  proof (cases "is_keepalive m")
    case True
    then show ?thesis
      using fail greeted_more [OF pl(4) True] answers_more [OF ne, of _ m] pl
      by (auto simp: got_response_def is_keepalive_def inv_defs step_defs)
  next
    case False
    show ?thesis
    proof (cases "validateConfigResponse m (InitialMessageID (ss_config s)) (Limits (ss_config s))")
      case (Inr u)
      have "session_inv (serve_head (transition Serving (update (\<lambda>v. v\<lparr>LastError := None\<rparr>) (received m s))))"
        by (rule serve_head_inv)
          (use pl Inr False ne in \<open>auto simp: inv_defs step_defs greeted_shaken answers_more\<close>)
      then show ?thesis using False Inr by (simp add: got_response_def is_keepalive_def)
    qed (use False fail in \<open>simp add: got_response_def is_keepalive_def\<close>)
  qed
qed

lemma header_types: "ROAccessReportHeader \<noteq> KeepaliveHeader" "ReaderEventNotificationHeader \<noteq> KeepaliveHeader"
  by (simp_all add: ROAccessReportHeader_def ReaderEventNotificationHeader_def KeepaliveHeader_def)

lemma got_message_inv:
  assumes "session_inv s" "ss_place s = Reading"
  shows "session_inv (got_message now m (received m s))"
proof -
  have pl: "status_inv s" "tried s" "all_out s" "shaken (ss_config s) (h_conn s)" "h_sent s = answers (ss_config s) (h_conn s)"
    "State (ss_status s) = Serving"
    using assms by (auto simp: session_inv_def place_inv_def Let_def)
  let ?r = "received m s"
  have sh: "shaken (ss_config s) (h_conn s @ [m])" using pl(4) by (rule shaken_more)
  have ans: "answers (ss_config s) (h_conn s @ [m]) =
      h_sent s @ (if is_keepalive m then [KeepaliveAckMessage (h_id (m_header m))] else [])"
    using answers_more [OF shaken_nonempty [OF pl(4)], of _ m] pl(5) by simp
  have fail: "session_inv (run_tail ErrProtocol' ?r)" "session_inv (run_tail ErrProtocol' (transition Reporting ?r))"
    by (rule fail_inv; use pl sh in \<open>auto simp: inv_defs step_defs\<close>)+
  consider "h_type (m_header m) = KeepaliveHeader" | "h_type (m_header m) = ROAccessReportHeader"
    | "h_type (m_header m) = ReaderEventNotificationHeader"
    | "h_type (m_header m) \<notin> {KeepaliveHeader, ROAccessReportHeader, ReaderEventNotificationHeader}" by blast
  then show ?thesis
  proof cases
    case 1
    then show ?thesis using fail(1) pl sh ans
      by (auto simp: got_message_def is_keepalive_def Let_def inv_defs step_defs)
  next
    case 2
    show ?thesis
    proof (cases "decodeObservations (m_payload m) (Limits (ss_config s)) (Source (ss_config s)) now")
      case (Inr obs)
      let ?s = "update (\<lambda>v. v\<lparr>Reports := Reports v + 1\<rparr>)
        ((transition Reporting ?r)\<lparr>h_decoded := h_decoded (transition Reporting ?r) @ obs\<rparr>)"
      have "session_inv (hand_over obs ?s)"
        by (rule hand_over_inv) (use pl sh ans 2 header_types in \<open>auto simp: inv_defs step_defs is_keepalive_def\<close>)
      then show ?thesis using 2 Inr header_types by (simp add: got_message_def step_defs received_def)
    qed (use 2 fail(2) header_types in \<open>simp add: got_message_def step_defs received_def\<close>)
  next
    case 3
    have "session_inv (serve_head (transition Serving ?r))"
      by (rule serve_head_inv) (use pl sh ans 3 header_types in \<open>auto simp: inv_defs step_defs is_keepalive_def\<close>)
    then show ?thesis using 3 fail(1) header_types
      by (auto simp: got_message_def split: sum.split)
        (simp_all add: ROAccessReportHeader_def ReaderEventNotificationHeader_def KeepaliveHeader_def)
  next
    case 4
    then show ?thesis using fail(1) by (simp add: got_message_def)
  qed
qed

lemma session_invD: "session_inv s \<Longrightarrow> status_inv s" "session_inv s \<Longrightarrow> place_inv s"
  by (simp_all add: session_inv_def)

lemma io_fail_inv:
  assumes "session_inv s" "ss_place s \<in> {Dialing, AwaitNotification, WriteRequest, AwaitResponse, Reading} \<union>
    range WriteEarlyAck \<union> range WriteAck"
  shows "session_inv (run_tail (IOFailed e) s)"
  by (rule fail_inv) (use assms in \<open>auto simp: session_inv_def place_inv_def Let_def status_inv_def\<close>)

lemma written_inv:
  assumes "session_inv s"
  shows
    "ss_place s = WriteRequest \<Longrightarrow>
       session_inv (goto AwaitResponse (sent (SetReaderConfigMessage (InitialMessageID (ss_config s))) s))"
    "ss_place s = WriteEarlyAck i \<Longrightarrow> session_inv (goto AwaitResponse (acked (sent (KeepaliveAckMessage i) s)))"
    "ss_place s = WriteAck i \<Longrightarrow> session_inv (serve_head (transition Serving (acked (sent (KeepaliveAckMessage i) s))))"
proof -
  show "ss_place s = WriteAck i \<Longrightarrow> session_inv (serve_head (transition Serving (acked (sent (KeepaliveAckMessage i) s))))"
    by (rule serve_head_inv) (use assms in \<open>auto simp: inv_defs step_defs\<close>)
qed (use assms in \<open>auto simp: inv_defs step_defs answers_def greeted_def length_Suc_conv\<close>)

lemma taken_inv:
  assumes "session_inv s" "ss_place s = Handing (ob # obs)"
  shows "session_inv (hand_over obs (update (\<lambda>v. v\<lparr>Observations := Observations v + 1\<rparr>) (s\<lparr>h_out := h_out s @ [ob]\<rparr>)))"
    "session_inv (run_tail ErrBackpressure (update (\<lambda>v. v\<lparr>QueueOverflows := QueueOverflows v + 1\<rparr>) s))"
proof -
  show "session_inv (hand_over obs (update (\<lambda>v. v\<lparr>Observations := Observations v + 1\<rparr>) (s\<lparr>h_out := h_out s @ [ob]\<rparr>)))"
    by (rule hand_over_inv) (use assms in \<open>auto simp: inv_defs step_defs\<close>)
  show "session_inv (run_tail ErrBackpressure (update (\<lambda>v. v\<lparr>QueueOverflows := QueueOverflows v + 1\<rparr>) s))"
    by (rule run_tail_inv) (use assms in \<open>auto simp: can_fail_def inv_defs step_defs\<close>)
qed

lemma finish_inv: "session_inv s \<Longrightarrow> ss_place s = Ending e \<Longrightarrow> session_inv (finish e s)"
  by (cases e) (auto simp: finish_def inv_defs step_defs ended_def)

lemma session_step_inv:
  assumes inv: "session_inv s" and step: "session_step a s = Some s'"
  shows "session_inv s'"
proof (cases "a = Cancelled")
  case True
  then have "s' = s\<lparr>ss_cancelled := True\<rparr>" using step by (auto simp: session_step_def split: place.splits)
  then show ?thesis using inv
    by (auto simp: inv_defs ended_def split: place.splits session_error.splits)
next
  case False
  have head: "session_inv (run_head s)" if "ss_place s = NotRun"
    by (rule run_head_inv) (use inv that in \<open>auto simp: inv_defs\<close>)
  have again: "session_inv (run_head (s\<lparr>ss_attempt := ss_attempt s + 1\<rparr>))" if "ss_place s = Waiting"
    by (rule run_head_inv) (use inv that in \<open>auto simp: inv_defs\<close>)
  have stop: "session_inv (goto (Ending ContextEnded) s)" if "ss_place s = Waiting" "ss_cancelled s"
    using inv that by (auto simp: inv_defs step_defs ended_def)
  have dialed: "session_inv (goto AwaitNotification (transition Handshaking (s\<lparr>h_conn := [], h_sent := []\<rparr>)))"
    if "ss_place s = Dialing"
    using inv that by (auto simp: inv_defs step_defs)
  show ?thesis
    using step False head again stop dialed io_fail_inv [OF inv] written_inv [OF inv] taken_inv [OF inv]
      got_notification_inv [OF inv] got_response_inv [OF inv] got_message_inv [OF inv] finish_inv [OF inv]
    by (auto simp: session_step_def split: answer.splits place.splits option.splits sum.splits list.splits if_splits)
qed

lemma session_reachable_inv: "session_reachable s \<Longrightarrow> session_inv s"
proof (induction rule: session_reachable.induct)
  case (new port c s)
  then show ?case
    by (auto simp: NewSession_def reader_Validate_def inv_defs split: if_splits option.splits)
next
  case (move s s')
  then show ?case by (elim session_moveE) (rule session_step_inv)
qed

section \<open>Properties\<close>

fun session_run :: "answer list \<Rightarrow> session \<Rightarrow> session option" where
  "session_run [] s = Some s"
| "session_run (a # as') s = (case session_step a s of None \<Rightarrow> None | Some s' \<Rightarrow> session_run as' s')"

lemma session_run_reachable: "session_run as' s = Some s' \<Longrightarrow> session_reachable s \<Longrightarrow> session_reachable s'"
  by (induction as' s rule: session_run.induct) (auto split: option.splits intro: session_reachable.move session_move.intros)

text \<open>A run of the default session: its reader sends two tags, and the queue takes only the first.\<close>

definition example_config :: reader_config where "example_config = reader_DefaultConfig"

definition example_new :: session where
  "example_new = the (NewSession (\<lambda>_. Some 5084) example_config)"

definition example_body :: bytes where
  "example_body = [0, 240, 0, 15, 0, 241, 0, 8, 0, 16, 171, 205, 140, 8, 0,
     0, 240, 0, 15, 0, 241, 0, 8, 0, 16, 171, 206, 140, 8, 0]"

definition example_tags :: "observation list" where
  "example_tags = [observed ''reader-1'' 1 ([171, 205], 2048), observed ''reader-1'' 1 ([171, 206], 2048)]"

definition example_answers :: "answer list" where
  "example_answers = [Begin, Dialed None, Read (Inr (ReaderEventNotificationMessage 1 0)) 1, Wrote None,
     Read (Inr (KeepaliveMessage 7)) 1, Wrote None, Read (Inr (SetReaderConfigResponseMessage 1000)) 1]"

definition example_report :: "answer list" where
  "example_report = [Read (Inr (ROAccessReportMessage example_body 9)) 1, Taken True, Taken False]"

definition serving_state :: session where
  "serving_state = example_new\<lparr>ss_place := Reading,
     ss_status := \<lparr>State = Serving, Ready = True, Attempts = 1, Reconnects = 0, Frames = 3, Reports = 0,
          Observations = 0, Keepalives = 1, QueueOverflows = 0, Failures = 0, LastError = None, RetryDelay = 0\<rparr>,
     h_conn := [ReaderEventNotificationMessage 1 0, KeepaliveMessage 7, SetReaderConfigResponseMessage 1000],
     h_sent := [SetReaderConfigMessage 1000, KeepaliveAckMessage 7]\<rparr>"

definition overflow_state :: session where
  "overflow_state = example_new\<lparr>ss_place := Ending ErrBackpressure,
     ss_status := \<lparr>State = Reporting, Ready = True, Attempts = 1, Reconnects = 0, Frames = 4, Reports = 1,
          Observations = 1, Keepalives = 1, QueueOverflows = 1, Failures = 1, LastError = Some ErrBackpressure, RetryDelay = 0\<rparr>,
     h_conn := [ReaderEventNotificationMessage 1 0, KeepaliveMessage 7, SetReaderConfigResponseMessage 1000,
       ROAccessReportMessage example_body 9],
     h_sent := [SetReaderConfigMessage 1000, KeepaliveAckMessage 7],
     h_decoded := example_tags, h_out := take 1 example_tags\<rparr>"

lemma example_decodes: "decodeObservations example_body DefaultLimits ''reader-1'' 1 = Inr example_tags"
proof -
  have "Inr (tag_report ([171, 205], 2048)) = NewTagReportDataParam [171, 205] 2048"
    "Inr (tag_report ([171, 206], 2048)) = NewTagReportDataParam [171, 206] 2048"
    by (rule NewTagReportDataParam_tag_report [symmetric]; simp)+
  then have "tag_report ([171, 205], 2048) = [0, 240, 0, 15, 0, 241, 0, 8, 0, 16, 171, 205, 140, 8, 0]"
    "tag_report ([171, 206], 2048) = [0, 240, 0, 15, 0, 241, 0, 8, 0, 16, 171, 206, 140, 8, 0]"
    by (simp_all add: NewTagReportDataParam_def EPCData_def c1G2PC_def put_u16_def Let_def)
  then show ?thesis
    using decodeObservations_reports [of "[([171, 205], 2048), ([171, 206], 2048)]" DefaultLimits 1 "''reader-1''"]
    by (simp add: tag_fits_def whole_words_def example_tags_def example_body_def)
qed

lemma example_handshake:
  "validateNotification (ReaderEventNotificationMessage i t) DefaultLimits initial = Inr ()"
  "validateConfigResponse (SetReaderConfigResponseMessage i) i DefaultLimits = Inr ()"
  by (intro notification_accepted config_response_accepted; simp)+

lemmas example_defs = serving_state_def overflow_state_def example_config_def example_new_def example_answers_def example_report_def NewSession_def reader_Validate_def
  reader_DefaultConfig_def second_def MessageHeaderSize_def

lemma example_new_eq:
  "NewSession (\<lambda>_. Some 5084) example_config = Some example_new"
  by (simp add: example_defs)

lemma example_serving:
  "session_run example_answers example_new = Some serving_state"
proof -
  have "h_type (m_header (SetReaderConfigResponseMessage i)) \<noteq> KeepaliveHeader" for i
    by (simp add: typed_message_defs SetReaderConfigResponseHeader_def KeepaliveHeader_def)
  moreover have "h_type (m_header (KeepaliveMessage i)) = KeepaliveHeader" "m_payload (KeepaliveMessage i) = []"
    "h_id (m_header (KeepaliveMessage i)) = i" for i
    by (simp_all add: typed_message_defs)
  ultimately show ?thesis
    by (simp add: example_defs session_step_def run_head_def step_defs got_notification_def got_response_def
        serve_head_def example_handshake)
qed

lemma example_overflow:
  "session_run (example_answers @ example_report) example_new = Some overflow_state"
proof -
  have split: "session_run (as1 @ as2) s = (case session_run as1 s of None \<Rightarrow> None | Some s' \<Rightarrow> session_run as2 s')" for as1 as2 s
    by (induction as1 s rule: session_run.induct) (auto split: option.split)
  have "h_type (m_header (ROAccessReportMessage b i)) = ROAccessReportHeader" "m_payload (ROAccessReportMessage b i) = b" for b i
    by (simp_all add: typed_message_defs)
  then show ?thesis
    unfolding split example_serving
    by (simp add: example_defs session_step_def step_defs got_message_def header_types example_decodes)
      (simp add: example_tags_def hand_over_def run_tail_def step_defs retryable_def session_step_def Let_def)
qed

lemma session_example_reachable:
  "session_run as' example_new = Some s \<Longrightarrow> session_reachable s"
  by (erule session_run_reachable) (rule session_reachable.new [OF example_new_eq])

text \<open>
  C15. Ready means ready: whenever the status says so, the current connection has read a valid
  notification, then only keepalives, then a successful answer to the configuration request.
  And whenever the session is about to read the next message of a configured connection, it has
  written exactly its request and one acknowledgement for each keepalive it read, with the
  identifier of that keepalive and in their order.
\<close>

theorem ready_after_handshake:
  assumes "session_reachable s"
  shows "(Ready (ss_status s) \<longleftrightarrow> State (ss_status s) \<in> {Serving, Keepalive, Reporting}) \<and>
    (Ready (ss_status s) \<longrightarrow>
       (\<exists>n ks r rest. h_conn s = n # ks @ r # rest \<and> list_all is_keepalive ks \<and>
          validateNotification n (Limits (ss_config s)) True = Inr () \<and>
          validateConfigResponse r (InitialMessageID (ss_config s)) (Limits (ss_config s)) = Inr ())) \<and>
    (ss_place s = Reading \<longrightarrow>
       h_sent s = SetReaderConfigMessage (InitialMessageID (ss_config s)) #
         map (\<lambda>m. KeepaliveAckMessage (h_id (m_header m))) (filter is_keepalive (h_conn s)))"
proof -
  have inv: "status_inv s" "place_inv s" using session_reachable_inv [OF assms] by (simp_all add: session_inv_def)
  have shaken: "shaken (ss_config s) (h_conn s)" if "Ready (ss_status s)"
    using inv that by (auto simp: status_inv_def place_inv_def Let_def split: place.splits)
  have first: "filter is_keepalive (drop 1 conn) = filter is_keepalive conn" if "shaken c conn" for c conn
    using that by (auto simp: shaken_def validateNotification_def is_keepalive_def header_types split: if_splits)
  have "h_sent s = answers (ss_config s) (h_conn s) \<and> shaken (ss_config s) (h_conn s)" if "ss_place s = Reading"
    using inv(2) that by (auto simp: place_inv_def Let_def)
  then have "ss_place s = Reading \<longrightarrow> h_sent s = SetReaderConfigMessage (InitialMessageID (ss_config s)) #
         map (\<lambda>m. KeepaliveAckMessage (h_id (m_header m))) (filter is_keepalive (h_conn s))"
    using first [of "ss_config s" "h_conn s"] by (auto simp: answers_def)
  then show ?thesis using inv(1) shaken unfolding shaken_def by (simp add: status_inv_def) blast
qed

lemma ready_after_handshake_witness:
  "Ready (ss_status serving_state) \<and> h_sent serving_state = [SetReaderConfigMessage 1000, KeepaliveAckMessage 7]"
proof -
  have "ss_place serving_state = Reading" "State (ss_status serving_state) = Serving"
    "InitialMessageID (ss_config serving_state) = 1000"
    "filter is_keepalive (h_conn serving_state) = [KeepaliveMessage 7]"
    by (simp_all add: example_defs is_keepalive_def typed_message_defs ReaderEventNotificationHeader_def
        KeepaliveHeader_def SetReaderConfigResponseHeader_def)
  moreover have "h_id (m_header (KeepaliveMessage 7)) = 7" by (simp add: typed_message_defs)
  ultimately show ?thesis using ready_after_handshake [OF session_example_reachable [OF example_serving]] by simp
qed

text \<open>
  C13. No observation is lost in silence: at every moment the observations handed to the queue are
  a prefix of all that were decoded, in their order and counted by the status, and whatever is
  missing is either still being handed over, or the run has ended, because the queue was full,
  which the status counts, or because the caller cancelled it.
\<close>

theorem observations_handed_over:
  assumes "session_reachable s"
  shows "\<exists>rest. h_decoded s = h_out s @ rest \<and> Observations (ss_status s) = of_nat (length (h_out s)) \<and>
    (case ss_place s of
       Handing obs \<Rightarrow> rest = obs \<and> QueueOverflows (ss_status s) = 0
     | Ending e \<Rightarrow> rest = [] \<or> e = ErrBackpressure \<and> QueueOverflows (ss_status s) = 1 \<or> e = ContextEnded \<and> ss_cancelled s
     | Done e \<Rightarrow> rest = [] \<or> e = ErrBackpressure \<and> QueueOverflows (ss_status s) = 1 \<or> e = ContextEnded \<and> ss_cancelled s
     | _ \<Rightarrow> rest = [] \<and> QueueOverflows (ss_status s) = 0)"
  using session_reachable_inv [OF assms]
  by (auto simp: inv_defs ended_def split: place.splits session_error.splits)

lemma observations_handed_over_witness:
  "Observations (ss_status overflow_state) = 1 \<and> QueueOverflows (ss_status overflow_state) = 1"
proof -
  have "ss_place overflow_state = Ending ErrBackpressure" "length (h_out overflow_state) = 1"
    "h_decoded overflow_state \<noteq> h_out overflow_state"
    by (simp_all add: overflow_state_def example_tags_def)
  then show ?thesis
    using observations_handed_over [OF session_example_reachable [OF example_overflow]] by auto
qed

text \<open>
  A run gives up after the configured retries and no earlier: the status counts at most one
  attempt more than the retries; a run that reports exhausted retries has made all of them and
  failed for a reason that may be retried; and one that ends with any other error than a
  cancellation ends with one that must not be retried.
\<close>

theorem attempts_bounded:
  assumes "session_reachable s"
  shows "\<exists>k. Attempts (ss_status s) = of_int k \<and> 0 \<le> k \<and> k \<le> MaxRetries (ss_config s) + 1 \<and>
    (case ss_place s of
       Done (RetryExhausted e) \<Rightarrow> k = MaxRetries (ss_config s) + 1 \<and> retryable e
     | Done ContextEnded \<Rightarrow> ss_cancelled s
     | Done e \<Rightarrow> \<not> retryable e
     | Waiting \<Rightarrow> k \<le> MaxRetries (ss_config s)
     | _ \<Rightarrow> True)"
proof -
  have inv: "status_inv s" "place_inv s" using session_reachable_inv [OF assms] by (simp_all add: session_inv_def)
  show ?thesis
  proof (cases "tried s")
    case True
    then show ?thesis using inv
      by (intro exI [of _ "ss_attempt s + 1"])
        (auto simp: tried_def status_inv_def place_inv_def Let_def ended_def split: place.splits session_error.splits)
  next
    case False
    then have "Attempts (ss_status s) = of_int (ss_attempt s)" "ss_place s \<noteq> Waiting"
      "case ss_place s of Done (RetryExhausted e) \<Rightarrow> False | Done ContextEnded \<Rightarrow> ss_cancelled s | Done e \<Rightarrow> False | _ \<Rightarrow> True"
      using inv by (auto simp: place_inv_def Let_def ended_def split: place.splits session_error.splits)
    then show ?thesis using inv(1)
      by (intro exI [of _ "ss_attempt s"]) (auto simp: status_inv_def split: place.splits session_error.splits)
  qed
qed

text \<open>
  Cancelling ends a run: once the context is cancelled and the connection closed with it, every
  step but a further cancellation takes the session to its end, and its end leaves it stopped,
  not failed, whatever it was doing.
\<close>

theorem cancelled_run_ends:
  assumes "session_reachable s" "ss_cancelled s" "session_step a s = Some s'"
    "a \<noteq> Dialed None" "a \<noteq> Wrote None" "\<nexists>m now. a = Read (Inr m) now"
  shows "a = Cancelled \<and> s' = s \<or> ss_place s' = Ending ContextEnded \<or>
    (\<exists>e. ss_place s = Ending e \<and> ss_place s' = Done e \<and> State (ss_status s') = Stopped)"
  using assms(2-)
  by (auto simp: session_step_def run_head_def run_tail_def hand_over_def serve_head_def finish_def step_defs Let_def
      split: answer.splits place.splits option.splits sum.splits list.splits if_splits)

lemma attempts_bounded_witness:
  "\<exists>k. Attempts (ss_status overflow_state) = of_int k \<and> 0 \<le> k \<and> k \<le> 6"
  using attempts_bounded [OF session_example_reachable [OF example_overflow]] by (auto simp: example_defs)

lemma cancelled_run_ends_witness:
  "let s = serving_state\<lparr>ss_cancelled := True\<rparr> in
   session_step (Read (Inl NetClosed) 1) s = Some (goto (Ending ContextEnded) s)"
proof -
  let ?s = "serving_state\<lparr>ss_cancelled := True\<rparr>"
  have "session_step Cancelled serving_state = Some ?s" by (simp add: session_step_def)
  then have r: "session_reachable ?s"
    using session_example_reachable [OF example_serving] by (blast intro: session_reachable.move session_move.intros)
  have step: "session_step (Read (Inl NetClosed) 1) ?s = Some (goto (Ending ContextEnded) ?s)"
    by (simp add: session_step_def run_tail_def serving_state_def)
  have "ss_place (goto (Ending ContextEnded) ?s) = Ending ContextEnded"
    using cancelled_run_ends [OF r _ step] by (simp add: serving_state_def step_defs)
  with step show ?thesis by (simp add: Let_def)
qed

end
