(* ===== verification/Emulator_Session.thy ===== *)
theory Emulator_Session
  imports Emulator Reader_Session
begin

text \<open>
  A connection of the emulator, \<open>serve\<close> of \<^verbatim>\<open>src/internal/emulator/session.go\<close>, as a state machine,
  and the accept loop and shared status of \<^verbatim>\<open>src/internal/emulator/server.go\<close>. A step ends where
  \<open>serve\<close> waits for the world: a message written or read, its two timers, the input queue of the
  read worker. What the world answers, the scenario clock and the cancellation are inputs; an
  expired deadline and a closed connection show as errors of a read or a write. The catalog and the
  status belong to the server; another connection or a publication may change them between two
  steps. \<open>es_read\<close>, \<open>es_sent\<close>, \<open>es_played\<close> and \<open>es_acked\<close> are history: no step reads them.
\<close>

section \<open>State\<close>

datatype emu_session_error =
    EmuContext
  | EmuIO io_error
  | EmuRefused emulator_error
  | EmuCycle "unit cycle_error"
  | ErrKeepaliveTimeout

record emu_status =
  em_Running :: bool
  em_Clients :: int
  em_Accepted :: u64
  em_Rejected :: u64
  em_Failures :: u64
  em_Cycles :: u64
  em_Reports :: u64
  em_Keepalives :: u64

text \<open>\<open>SendReport\<close> holds the report bodies of the cycle still to write and the error that ends it, if any.\<close>

datatype emu_place =
    EmuNew
  | SendNotification message
  | AwaitConfig
  | SendConfigResponse u32
  | SendReport "bytes list" "unit cycle_error option"
  | EmuServing
  | SendKeepalive u32
  | EmuDone emu_session_error

record 'r emu_session =
  es_config :: emulator_config
  es_catalog :: catalog
  es_status :: emu_status
  es_cancelled :: bool
  es_cursor :: "'r cursor"
  es_reportID :: u32
  es_keepaliveID :: u32
  es_interval :: int
  es_pending :: "(u32 \<times> int) option"
  es_place :: emu_place
  es_read :: "message list"
  es_sent :: "message list"
  es_played :: "tag list list"
  es_acked :: nat

definition emu_connection :: "emulator_config \<Rightarrow> catalog \<Rightarrow> emu_status \<Rightarrow> 'r emu_session" where
  "emu_connection c cat v =
     \<lparr>es_config = c, es_catalog = cat, es_status = v, es_cancelled = False, es_cursor = new_cursor,
      es_reportID = 1000, es_keepaliveID = 0x80000000, es_interval = 0, es_pending = None, es_place = EmuNew,
      es_read = [], es_sent = [], es_played = [], es_acked = 0\<rparr>"

section \<open>The parts between two waits\<close>

definition emu_goto :: "emu_place \<Rightarrow> 'r emu_session \<Rightarrow> 'r emu_session" where
  "emu_goto p s = s\<lparr>es_place := p\<rparr>"

definition emu_update :: "(emu_status \<Rightarrow> emu_status) \<Rightarrow> 'r emu_session \<Rightarrow> 'r emu_session" where
  "emu_update f s = s\<lparr>es_status := f (es_status s)\<rparr>"

text \<open>The closure \<open>write\<close>: the place \<open>p\<close> is where its answer is awaited.\<close>

definition emu_write :: "emu_place \<Rightarrow> 'r emu_session \<Rightarrow> 'r emu_session" where
  "emu_write p s = (if es_cancelled s then emu_goto (EmuDone EmuContext) s else emu_goto p s)"

text \<open>The head of the serving loop.\<close>

definition emu_loop :: "'r emu_session \<Rightarrow> 'r emu_session" where
  "emu_loop s = (if es_cancelled s then emu_goto (EmuDone EmuContext) s else emu_goto EmuServing s)"

text \<open>
  The closure \<open>report\<close>. The bodies of a cycle do not depend on how the writes of the earlier ones
  came out, so they are computed at once; \<open>writeCycle_stops\<close> below relates them to the callback
  the code passes.
\<close>

fun send_bodies :: "bytes list \<Rightarrow> unit cycle_error option \<Rightarrow> 'r emu_session \<Rightarrow> 'r emu_session" where
  "send_bodies [] None s = emu_loop (emu_update (\<lambda>v. v\<lparr>em_Cycles := em_Cycles v + 1\<rparr>) s)"
| "send_bodies [] (Some e) s = emu_goto (EmuDone (EmuCycle e)) s"
| "send_bodies (b # bs) err s = emu_write (SendReport (b # bs) err) s"

definition emu_report ::
  "('r \<Rightarrow> int \<Rightarrow> int \<times> 'r) \<Rightarrow> (int \<Rightarrow> 'r option) \<Rightarrow> 'r emu_session \<Rightarrow> 'r emu_session" where
  "emu_report intn factory s =
     (case cursor_Next intn factory (es_catalog s) (es_cursor s) of
        (Inl e, cur) \<Rightarrow> emu_goto (EmuDone (EmuRefused e)) (s\<lparr>es_cursor := cur\<rparr>)
      | (Inr None, cur) \<Rightarrow> emu_loop (s\<lparr>es_cursor := cur\<rparr>)
      | (Inr (Some ts), cur) \<Rightarrow>
          (case writeCycle ts (FrameBytes (es_config s)) emit_log [] of
             (err, bodies) \<Rightarrow> send_bodies bodies err (s\<lparr>es_cursor := cur, es_played := es_played s @ [ts]\<rparr>)))"

definition emu_handle :: "io_error + message \<Rightarrow> int \<Rightarrow> 'r emu_session \<Rightarrow> 'r emu_session" where
  "emu_handle inp time s =
     (case inp of
        Inl e \<Rightarrow> emu_goto (EmuDone (EmuIO e)) s
      | Inr m \<Rightarrow>
          (let s = s\<lparr>es_read := es_read s @ [m]\<rparr> in
           case es_pending s of
             None \<Rightarrow> emu_goto (EmuDone (EmuRefused EmuProtocol)) s
           | Some (pending, deadline) \<Rightarrow>
               if h_type (m_header m) \<noteq> KeepaliveAckHeader \<or> length (m_payload m) \<noteq> 0 \<or> h_id (m_header m) \<noteq> pending
               then emu_goto (EmuDone (EmuRefused EmuProtocol)) s
               else if \<not> time < deadline then emu_goto (EmuDone ErrKeepaliveTimeout) s
               else emu_loop (s\<lparr>es_pending := None, es_acked := es_acked s + 1\<rparr>)))"

definition got_config :: "message \<Rightarrow> 'r emu_session \<Rightarrow> 'r emu_session" where
  "got_config m s =
     (let s = s\<lparr>es_read := es_read s @ [m]\<rparr> in
      case requestedKeepalive m (es_config s) of
        Inl e \<Rightarrow> emu_goto (EmuDone (EmuRefused e)) s
      | Inr interval \<Rightarrow> emu_write (SendConfigResponse (h_id (m_header m))) (s\<lparr>es_interval := interval\<rparr>))"

definition emu_wrote :: "message \<Rightarrow> 'r emu_session \<Rightarrow> 'r emu_session" where
  "emu_wrote m s = s\<lparr>es_sent := es_sent s @ [m]\<rparr>"

section \<open>Steps\<close>

text \<open>
  \<open>EmuRead\<close> is a message or an error taken from the transport or, while serving, from the input queue,
  with the time it was received; \<open>EmuAckDue\<close> is the acknowledgement timer with what the queue holds.
\<close>

datatype emu_answer =
    EmuBegin u64
  | EmuWrote "io_error option" int
  | EmuRead "io_error + message" int
  | EmuReportDue
  | EmuKeepaliveDue
  | EmuAckDue "((io_error + message) \<times> int) option"
  | EmuContextSeen
  | EmuCancelled
  | EmuPublished scenario

definition emu_step ::
  "('r \<Rightarrow> int \<Rightarrow> int \<times> 'r) \<Rightarrow> (int \<Rightarrow> 'r option) \<Rightarrow> emu_answer \<Rightarrow> 'r emu_session \<Rightarrow> 'r emu_session option" where
  "emu_step intn factory a s =
     (case (a, es_place s) of
        (EmuBegin now, EmuNew) \<Rightarrow> Some (emu_write (SendNotification (ReaderEventNotificationMessage 1 now)) s)
      | (EmuWrote (Some e) _, SendNotification _) \<Rightarrow> Some (emu_goto (EmuDone (EmuIO e)) s)
      | (EmuWrote None _, SendNotification m) \<Rightarrow> Some (emu_goto AwaitConfig (emu_wrote m s))
      | (EmuRead (Inl e) _, AwaitConfig) \<Rightarrow> Some (emu_goto (EmuDone (EmuIO e)) s)
      | (EmuRead (Inr m) _, AwaitConfig) \<Rightarrow> Some (got_config m s)
      | (EmuWrote (Some e) _, SendConfigResponse i) \<Rightarrow> Some (emu_goto (EmuDone (EmuIO e)) s)
      | (EmuWrote None _, SendConfigResponse i) \<Rightarrow>
          Some (emu_report intn factory (emu_wrote (SetReaderConfigResponseMessage i) s))
      | (EmuWrote (Some e) _, SendReport _ _) \<Rightarrow> Some (emu_goto (EmuDone (EmuIO e)) s)
      | (EmuWrote None _, SendReport (b # bs) err) \<Rightarrow>
          Some (send_bodies bs err (emu_update (\<lambda>v. v\<lparr>em_Reports := em_Reports v + 1\<rparr>)
            ((emu_wrote (ROAccessReportMessage b (es_reportID s)) s)\<lparr>es_reportID := es_reportID s + 1\<rparr>)))
      | (EmuRead inp time, EmuServing) \<Rightarrow> Some (emu_handle inp time s)
      | (EmuReportDue, EmuServing) \<Rightarrow> Some (emu_report intn factory s)
      | (EmuKeepaliveDue, EmuServing) \<Rightarrow>
          (case es_pending s of
             Some _ \<Rightarrow> None
           | None \<Rightarrow> Some (emu_write (SendKeepalive (es_keepaliveID s)) (s\<lparr>es_keepaliveID := es_keepaliveID s + 1\<rparr>)))
      | (EmuWrote (Some e) _, SendKeepalive i) \<Rightarrow> Some (emu_goto (EmuDone (EmuIO e)) s)
      | (EmuWrote None now, SendKeepalive i) \<Rightarrow>
          Some (emu_loop ((emu_update (\<lambda>v. v\<lparr>em_Keepalives := em_Keepalives v + 1\<rparr>) (emu_wrote (KeepaliveMessage i) s))
            \<lparr>es_pending := Some (i, now + AckTimeout (es_config s))\<rparr>))
      | (EmuAckDue queued, EmuServing) \<Rightarrow>
          (case es_pending s of
             None \<Rightarrow> None
           | Some _ \<Rightarrow>
               (case queued of
                  None \<Rightarrow> Some (emu_goto (EmuDone ErrKeepaliveTimeout) s)
                | Some (inp, time) \<Rightarrow> Some (emu_handle inp time s)))
      | (EmuContextSeen, EmuServing) \<Rightarrow> if es_cancelled s then Some (emu_goto (EmuDone EmuContext) s) else None
      | (EmuCancelled, _) \<Rightarrow> Some (s\<lparr>es_cancelled := True\<rparr>)
      | (EmuPublished sc, _) \<Rightarrow> Some (s\<lparr>es_catalog := fst (cat_replace (es_catalog s) sc)\<rparr>)
      | _ \<Rightarrow> None)"

section \<open>Facts: the callback of a cycle\<close>

fun send_all :: "(bytes \<Rightarrow> 's \<Rightarrow> 'x option \<times> 's) \<Rightarrow> bytes list \<Rightarrow> 'x cycle_error option \<Rightarrow> 's \<Rightarrow> 'x cycle_error option \<times> 's" where
  "send_all emit [] err s = (err, s)"
| "send_all emit (b # bs) err s =
     (case emit b s of (Some x, s') \<Rightarrow> (Some (EmitError x), s') | (None, s') \<Rightarrow> send_all emit bs err s')"

lemma cycle_loop_log:
  "cycle_loop emit_log maxFrame ts body n log =
     (let (err, bodies) = cycle_loop (emit_log :: bytes \<Rightarrow> bytes list \<Rightarrow> 'x option \<times> bytes list) maxFrame ts body n [] in (err, log @ bodies))"
proof (induction ts arbitrary: body n log)
  case (Cons t ts)
  show ?case
  proof (cases "NewTagReportDataParam (tag_epc t) (push_bit 11 (of_nat (length (tag_epc t) div 2)))")
    case (Inr p)
    then show ?thesis
      using Cons.IH [of p 1 "log @ [body]"] Cons.IH [of p 1 "[body]"] Cons.IH [of "body @ p" "n + 1" log]
      by (auto simp: emit_log_def Let_def split: prod.splits)
  qed simp
qed (simp add: emit_log_def)

lemma emit_log_first: "emit_log body [] = (None, [body])"
  by (simp add: emit_log_def)

lemma cycle_loop_stops:
  fixes emit :: "bytes \<Rightarrow> 's \<Rightarrow> 'x option \<times> 's"
  shows "cycle_loop emit maxFrame ts body n s =
     (let (err, bodies) = cycle_loop emit_log maxFrame ts body n [] in send_all emit bodies err s)"
proof (induction ts arbitrary: body n s)
  case (Cons t ts)
  show ?case
  proof (cases "NewTagReportDataParam (tag_epc t) (push_bit 11 (of_nat (length (tag_epc t) div 2)))")
    case (Inr p)
    have log: "cycle_loop (emit_log :: bytes \<Rightarrow> bytes list \<Rightarrow> 'x option \<times> bytes list) maxFrame ts p 1 [body] =
        (let (err, bodies) = cycle_loop emit_log maxFrame ts p 1 [] in (err, [body] @ bodies))" by (rule cycle_loop_log)
    show ?thesis
      using Inr Cons.IH [of p 1] Cons.IH [of "body @ p" "n + 1" s]
      by (simp add: emit_log_first log Let_def split: prod.splits option.splits)
  qed simp
qed (simp add: emit_log_first split: option.split prod.split)

text \<open>
  Whatever the callback does, \<open>writeCycle\<close> gives it the bodies it would log, in their order, up to
  the first it refuses.
\<close>

lemma writeCycle_stops:
  "writeCycle ts maxFrame emit s =
     (let (err, bodies) = writeCycle ts maxFrame emit_log [] in send_all emit bodies err s)"
  by (simp only: writeCycle_def cycle_loop_stops [of emit])

section \<open>Facts: what a connection sends\<close>

definition scenario_ok :: "scenario \<Rightarrow> bool" where
  "scenario_ok sc \<longleftrightarrow> cycles sc \<noteq> [] \<and> list_all (list_all tag_valid) (cycles sc)"

lemma NewScenario_ok: "NewScenario cs sd rep shuf = Inr sc \<Longrightarrow> scenario_ok sc"
  by (auto simp: NewScenario_accepts scenario_ok_def list_all_iff split: if_splits)

text \<open>The cursor knows the published scenario or will see that it does not.\<close>

definition cursor_ok :: "catalog \<Rightarrow> 'r cursor \<Rightarrow> bool" where
  "cursor_ok cat c \<longleftrightarrow> scenario_ok (cat_scenario cat) \<and> cur_revision c \<le> cat_revision cat \<and>
     (cur_revision c = cat_revision cat \<longrightarrow> at_position cat c)"

lemma plays_valid: "plays sc i (Inr (Some ts)) \<Longrightarrow> scenario_ok sc \<Longrightarrow> list_all tag_valid ts"
proof -
  assume p: "plays sc i (Inr (Some ts))" and ok: "scenario_ok sc"
  let ?c = "cycles sc ! (i mod length (cycles sc))"
  have "i mod length (cycles sc) < length (cycles sc)" using ok by (simp add: scenario_ok_def)
  then have "list_all tag_valid ?c" using ok by (simp add: scenario_ok_def list_all_length)
  moreover have "mset ts = mset ?c" using p by (auto simp: plays_def split: if_splits)
  ultimately show ?thesis by (metis list_all_iff set_mset_mset)
qed

lemma cursor_Next_ok:
  assumes "cursor_ok cat c" "random_in_range intn" "\<And>sd. factory sd \<noteq> None"
  obtains x c' where "cursor_Next intn factory cat c = (Inr x, c')" "cursor_ok cat c'"
    "case x of None \<Rightarrow> True | Some ts \<Rightarrow> list_all tag_valid ts"
proof -
  have sc: "scenario_ok (cat_scenario cat)" "cycles (cat_scenario cat) \<noteq> []" using assms(1) by (simp_all add: cursor_ok_def scenario_ok_def)
  let ?c0 = "if cur_revision c = cat_revision cat then c
    else \<lparr>cur_revision = cat_revision cat, cur_random = factory (seed (cat_scenario cat)), cur_index = 0\<rparr>"
  have "at_position cat ?c0" using assms(1,3) by (auto simp: cursor_ok_def at_position_def)
  moreover have "cursor_Next intn factory cat c = cursor_Next intn factory cat ?c0"
    using cursor_Next_fresh [of c cat factory intn] assms(3) by auto
  ultimately obtain r c' i where r: "cursor_Next intn factory cat c = (r, c')" "at_position cat c'" "plays (cat_scenario cat) i r"
    using cursor_Next_step [OF _ sc(2) assms(2), of ?c0 factory] by metis
  obtain x where x: "r = Inr x" using r(3) by (auto simp: plays_def split: if_splits)
  show thesis
  proof (rule that)
    show "cursor_ok cat c'" using r(2) sc(1) by (simp add: cursor_ok_def at_position_def)
    show "case x of None \<Rightarrow> True | Some ts \<Rightarrow> list_all tag_valid ts"
      using plays_valid [OF _ sc(1)] r(3) x by (cases x) auto
  qed (use r(1) x in simp)
qed

text \<open>The bodies of a cycle; a valid cycle has no other outcome.\<close>

definition cycle_bodies :: "emulator_config \<Rightarrow> tag list \<Rightarrow> bytes list" where
  "cycle_bodies c ts = snd (writeCycle ts (FrameBytes c) emit_log [] :: unit cycle_error option \<times> bytes list)"

lemma cycle_bodies_groups:
  assumes "list_all tag_valid ts" "128 \<le> FrameBytes c"
  obtains groups where "cycle_bodies c ts = map cycle_body groups" "concat groups = ts"
    "\<forall>g \<in> set groups. group_ok (unat (FrameBytes c)) g"
    "writeCycle ts (FrameBytes c) emit_log [] = (None :: unit cycle_error option, cycle_bodies c ts)"
proof -
  have "85 \<le> unat (FrameBytes c)" using assms(2) by (simp add: word_le_nat_alt)
  then obtain groups where "writeCycle ts (FrameBytes c) emit_log [] = (None :: unit cycle_error option, map cycle_body groups)"
    "concat groups = ts" "\<forall>g \<in> set groups. group_ok (unat (FrameBytes c)) g"
    using writeCycle_groups [of ts "FrameBytes c" "[]"] assms(1) by (auto simp: list_all_iff)
  then show thesis using that [of groups] by (simp add: cycle_bodies_def)
qed

definition is_report :: "message \<Rightarrow> bool" where
  "is_report m \<longleftrightarrow> h_type (m_header m) = ROAccessReportHeader"

definition sent_bodies :: "message list \<Rightarrow> bytes list" where
  "sent_bodies ms = map m_payload (filter is_report ms)"

definition played_bodies :: "'r emu_session \<Rightarrow> bytes list" where
  "played_bodies s = concat (map (cycle_bodies (es_config s)) (es_played s))"

definition keepalive_id :: "nat \<Rightarrow> u32" where
  "keepalive_id k = 0x80000000 + of_nat k"

definition keepalives :: "nat \<Rightarrow> message list" where
  "keepalives k = map (\<lambda>j. KeepaliveMessage (keepalive_id j)) [0..<k]"

definition traffic :: "message \<Rightarrow> bool" where
  "traffic m \<longleftrightarrow> (\<exists>b i. m = ROAccessReportMessage b i) \<or> (\<exists>i. m = KeepaliveMessage i)"

text \<open>What a connection has sent, in the order of the protocol.\<close>

definition in_order :: "message list \<Rightarrow> message list \<Rightarrow> bool" where
  "in_order read ms \<longleftrightarrow> ms = [] \<or> (\<exists>t. ms = [ReaderEventNotificationMessage 1 t]) \<or>
     (\<exists>t m more rest. read = m # more \<and> list_all traffic rest \<and>
        ms = ReaderEventNotificationMessage 1 t # SetReaderConfigResponseMessage (h_id (m_header m)) # rest)"

definition served :: "'r emu_session \<Rightarrow> bool" where
  "served s \<longleftrightarrow> in_order (es_read s) (es_sent s) \<and> 2 \<le> length (es_sent s) \<and> length (es_read s) = Suc (es_acked s)"

definition outstanding :: "'r emu_session \<Rightarrow> nat" where
  "outstanding s = (if es_pending s = None then 0 else 1)"

definition keeps_alive :: "'r emu_session \<Rightarrow> bool" where
  "keeps_alive s \<longleftrightarrow>
     filter is_keepalive (es_sent s) = keepalives (es_acked s + outstanding s) \<and>
     es_keepaliveID s = keepalive_id (es_acked s + outstanding s) \<and>
     (\<forall>i d. es_pending s = Some (i, d) \<longrightarrow> i = keepalive_id (es_acked s))"

definition quiet :: "'r emu_session \<Rightarrow> bool" where
  "quiet s \<longleftrightarrow> es_pending s = None \<and> es_acked s = 0 \<and> es_played s = [] \<and> es_keepaliveID s = keepalive_id 0"

definition emu_place_inv :: "'r emu_session \<Rightarrow> bool" where
  "emu_place_inv s \<longleftrightarrow>
     (case es_place s of
        EmuNew \<Rightarrow> quiet s \<and> es_sent s = [] \<and> es_read s = []
      | SendNotification m \<Rightarrow> quiet s \<and> es_sent s = [] \<and> es_read s = [] \<and> (\<exists>t. m = ReaderEventNotificationMessage 1 t)
      | AwaitConfig \<Rightarrow> quiet s \<and> (\<exists>t. es_sent s = [ReaderEventNotificationMessage 1 t]) \<and> es_read s = []
      | SendConfigResponse i \<Rightarrow> quiet s \<and> (\<exists>t. es_sent s = [ReaderEventNotificationMessage 1 t]) \<and>
          (\<exists>m. es_read s = [m] \<and> i = h_id (m_header m))
      | SendReport bs err \<Rightarrow> err = None \<and> bs \<noteq> [] \<and> served s \<and> keeps_alive s \<and>
          sent_bodies (es_sent s) @ bs = played_bodies s
      | EmuServing \<Rightarrow> served s \<and> keeps_alive s \<and> sent_bodies (es_sent s) = played_bodies s
      | SendKeepalive i \<Rightarrow> served s \<and> sent_bodies (es_sent s) = played_bodies s \<and> es_pending s = None \<and>
          i = keepalive_id (es_acked s) \<and> es_keepaliveID s = keepalive_id (Suc (es_acked s)) \<and>
          filter is_keepalive (es_sent s) = keepalives (es_acked s)
      | EmuDone e \<Rightarrow> in_order (es_read s) (es_sent s) \<and> (\<exists>rest. sent_bodies (es_sent s) @ rest = played_bodies s) \<and>
          (\<exists>k. filter is_keepalive (es_sent s) = keepalives k \<and> k \<le> Suc (es_acked s)))"

definition emu_inv :: "'r emu_session \<Rightarrow> bool" where
  "emu_inv s \<longleftrightarrow> 128 \<le> FrameBytes (es_config s) \<and> cursor_ok (es_catalog s) (es_cursor s) \<and>
     list_all (list_all tag_valid) (es_played s) \<and> emu_place_inv s"

lemmas emu_step_defs = emu_goto_def emu_update_def emu_wrote_def
lemmas emu_inv_defs = emu_inv_def emu_place_inv_def served_def outstanding_def keeps_alive_def quiet_def played_bodies_def

lemma sent_bodies_simps [simp]:
  "sent_bodies [] = []" "sent_bodies (ms @ ns) = sent_bodies ms @ sent_bodies ns"
  "sent_bodies (ROAccessReportMessage b i # ms) = b # sent_bodies ms"
  "sent_bodies (KeepaliveMessage j # ms) = sent_bodies ms"
  "sent_bodies (ReaderEventNotificationMessage i t # ms) = sent_bodies ms"
  "sent_bodies (SetReaderConfigResponseMessage i # ms) = sent_bodies ms"
  by (simp_all add: sent_bodies_def is_report_def typed_message_defs header_defs)

lemma is_keepalive_simps [simp]:
  "is_keepalive (KeepaliveMessage j)" "\<not> is_keepalive (ROAccessReportMessage b i)"
  "\<not> is_keepalive (ReaderEventNotificationMessage i t)" "\<not> is_keepalive (SetReaderConfigResponseMessage i)"
  by (simp_all add: is_keepalive_def typed_message_defs header_defs)

lemma keepalives_Suc [simp]: "keepalives (Suc k) = keepalives k @ [KeepaliveMessage (keepalive_id k)]"
  by (simp add: keepalives_def)

lemma keepalives_0 [simp]: "keepalives 0 = []"
  by (simp add: keepalives_def)

lemma keepalive_id_Suc: "keepalive_id k + 1 = keepalive_id (Suc k)"
  by (simp add: keepalive_id_def)

lemma traffic_simps [simp]: "traffic (ROAccessReportMessage b i)" "traffic (KeepaliveMessage i)"
  by (auto simp: traffic_def)

lemma in_order_simps [simp]:
  "in_order rd []" "in_order rd [ReaderEventNotificationMessage 1 t]"
  by (auto simp: in_order_def)

lemma in_order_response: "in_order [m] [ReaderEventNotificationMessage 1 t, SetReaderConfigResponseMessage (h_id (m_header m))]"
  by (auto simp: in_order_def)

lemma in_order_traffic:
  assumes "in_order read ms" "2 \<le> length ms" "traffic m"
  shows "in_order read (ms @ [m])"
  using assms unfolding in_order_def by (elim disjE exE conjE) (simp, simp, fastforce)

lemma in_order_read: "in_order rd ms \<Longrightarrow> in_order (rd @ new) ms"
  unfolding in_order_def by fastforce

text \<open>Where the serving loop, a write and the bodies of a cycle lead.\<close>

lemma emu_loop_inv:
  assumes "128 \<le> FrameBytes (es_config s)" "cursor_ok (es_catalog s) (es_cursor s)" "list_all (list_all tag_valid) (es_played s)"
    "served s" "keeps_alive s" "sent_bodies (es_sent s) = played_bodies s"
  shows "emu_inv (emu_loop s)"
proof (cases "es_cancelled s")
  case True
  moreover have "\<exists>k. filter is_keepalive (es_sent s) = keepalives k \<and> k \<le> Suc (es_acked s)"
    using assms(5) by (intro exI [of _ "es_acked s + outstanding s"]) (simp add: keeps_alive_def outstanding_def)
  ultimately show ?thesis using assms by (simp add: emu_loop_def emu_inv_def emu_place_inv_def emu_goto_def served_def played_bodies_def)
next
  case False
  then show ?thesis using assms by (simp add: emu_loop_def emu_inv_defs emu_step_defs)
qed

lemma send_bodies_inv:
  assumes "128 \<le> FrameBytes (es_config s)" "cursor_ok (es_catalog s) (es_cursor s)" "list_all (list_all tag_valid) (es_played s)"
    "served s" "keeps_alive s" "sent_bodies (es_sent s) @ bodies = played_bodies s"
  shows "emu_inv (send_bodies bodies None s)"
proof (cases bodies)
  case Nil
  have "emu_inv (emu_loop (emu_update (\<lambda>v. v\<lparr>em_Cycles := em_Cycles v + 1\<rparr>) s))"
    by (rule emu_loop_inv) (use assms Nil in \<open>simp_all add: emu_inv_defs emu_step_defs\<close>)
  then show ?thesis by (simp add: Nil)
next
  case (Cons b bs)
  have "\<exists>k. filter is_keepalive (es_sent s) = keepalives k \<and> k \<le> Suc (es_acked s)"
    using assms(5) by (intro exI [of _ "es_acked s + outstanding s"]) (simp add: keeps_alive_def outstanding_def)
  moreover have "\<exists>rest. sent_bodies (es_sent s) @ rest = played_bodies s" using assms(6) by blast
  ultimately show ?thesis using assms Cons
    by (simp add: emu_write_def emu_inv_def emu_place_inv_def emu_goto_def served_def played_bodies_def keeps_alive_def outstanding_def)
qed

lemma emu_report_inv:
  assumes "128 \<le> FrameBytes (es_config s)" "cursor_ok (es_catalog s) (es_cursor s)" "list_all (list_all tag_valid) (es_played s)"
    "served s" "keeps_alive s" "sent_bodies (es_sent s) = played_bodies s"
    and rnd: "random_in_range intn" "\<And>sd. factory sd \<noteq> None"
  shows "emu_inv (emu_report intn factory s)"
proof -
  obtain x cur where x: "cursor_Next intn factory (es_catalog s) (es_cursor s) = (Inr x, cur)" "cursor_ok (es_catalog s) cur"
    "case x of None \<Rightarrow> True | Some ts \<Rightarrow> list_all tag_valid ts"
    by (rule cursor_Next_ok [OF assms(2) rnd])
  show ?thesis
  proof (cases x)
    case None
    have "emu_inv (emu_loop (s\<lparr>es_cursor := cur\<rparr>))"
      by (rule emu_loop_inv) (use assms x in \<open>simp_all add: emu_inv_defs\<close>)
    then show ?thesis using x None by (simp add: emu_report_def)
  next
    case (Some ts)
    then have "list_all tag_valid ts" using x(3) by simp
    with assms(1) obtain groups where
      w: "writeCycle ts (FrameBytes (es_config s)) emit_log [] = (None :: unit cycle_error option, cycle_bodies (es_config s) ts)"
      by (metis cycle_bodies_groups)
    have "emu_inv (send_bodies (cycle_bodies (es_config s) ts) None (s\<lparr>es_cursor := cur, es_played := es_played s @ [ts]\<rparr>))"
      by (rule send_bodies_inv) (use assms x Some in \<open>simp_all add: emu_inv_defs\<close>)
    then show ?thesis using x Some w by (simp add: emu_report_def)
  qed
qed

lemma emu_done_inv:
  assumes "emu_inv s" "es_place s \<noteq> EmuDone e'"
  shows "emu_inv (emu_goto (EmuDone e) (s\<lparr>es_read := es_read s @ new\<rparr>))" "emu_inv (emu_goto (EmuDone e) s)"
proof -
  have "\<exists>k. filter is_keepalive (es_sent s) = keepalives k \<and> k \<le> Suc (es_acked s)"
  proof (cases "filter is_keepalive (es_sent s) = []")
    case True
    then show ?thesis by (intro exI [of _ 0]) simp
  next
    case False
    then show ?thesis using assms(1)
      by (cases "es_place s") (auto simp: emu_inv_defs intro: exI [of _ "es_acked s"] exI [of _ "Suc (es_acked s)"])
  qed
  moreover have "in_order (es_read s) (es_sent s)" "\<exists>rest. sent_bodies (es_sent s) @ rest = played_bodies s"
    using assms(1) by (cases "es_place s"; auto simp: emu_inv_defs)+
  ultimately show "emu_inv (emu_goto (EmuDone e) (s\<lparr>es_read := es_read s @ new\<rparr>))" "emu_inv (emu_goto (EmuDone e) s)"
    using assms(1) by (auto simp: emu_inv_def emu_place_inv_def emu_goto_def played_bodies_def intro: in_order_read)
qed

lemma emu_write_inv:
  assumes "emu_inv (emu_goto p s)"
  shows "emu_inv (emu_write p s)"
proof (cases "es_cancelled s")
  case True
  have "emu_inv (emu_goto (EmuDone EmuContext) (emu_goto p s))"
    using emu_done_inv(2) [OF assms(1), of EmuContext EmuContext] assms(1)
    by (cases p) (auto simp: emu_goto_def)
  then show ?thesis using True by (simp add: emu_write_def emu_goto_def)
qed (use assms(1) in \<open>simp add: emu_write_def\<close>)

lemma emu_handle_inv:
  assumes "emu_inv s" "es_place s = EmuServing"
  shows "emu_inv (emu_handle inp time s)"
proof (cases inp)
  case (Inl e)
  then show ?thesis using emu_done_inv(2) [OF assms(1)] assms(2) by (simp add: emu_handle_def)
next
  case (Inr m)
  note bad = emu_done_inv(1) [OF assms(1), where new = "[m]"]
  have "emu_inv (emu_loop (s\<lparr>es_read := es_read s @ [m], es_pending := None, es_acked := es_acked s + 1\<rparr>))"
    if "es_pending s = Some x" for x
    by (rule emu_loop_inv) (use assms that in \<open>auto simp: emu_inv_defs intro: in_order_read\<close>)
  then show ?thesis using Inr bad assms(2) by (auto simp: emu_handle_def Let_def split: option.split)
qed

lemma got_config_inv:
  assumes "emu_inv s" "es_place s = AwaitConfig"
  shows "emu_inv (got_config m s)"
proof -
  have "emu_inv (emu_write (SendConfigResponse (h_id (m_header m))) (s\<lparr>es_read := es_read s @ [m], es_interval := i\<rparr>))" for i
    by (rule emu_write_inv) (use assms in \<open>auto simp: emu_inv_defs emu_goto_def\<close>)
  then show ?thesis
    using emu_done_inv(1) [OF assms(1), where new = "[m]"] assms(2) by (auto simp: got_config_def Let_def split: sum.split)
qed

lemma cat_replace_ok:
  assumes "cursor_ok cat c" "scenario_ok sc" "cat_revision cat \<noteq> - 1"
  shows "cursor_ok (fst (cat_replace cat sc)) c"
proof -
  have "1 + cat_revision cat \<noteq> 0" using assms(3) by (simp add: add_eq_0_iff)
  then have "unat (cat_revision cat + 1) = Suc (unat (cat_revision cat))" by (simp add: unatSuc add.commute)
  then have "cur_revision c < cat_revision cat + 1"
    using assms(1) by (simp add: cursor_ok_def word_le_nat_alt word_less_nat_alt)
  then have "cur_revision c \<le> cat_revision cat + 1" "cur_revision c \<noteq> cat_revision cat + 1" by auto
  then show ?thesis using assms(2) by (simp add: cursor_ok_def cat_replace_def Let_def)
qed

text \<open>A reachable connection: its scenarios are valid and the revision of the catalog does not wrap.\<close>

definition emu_input_ok :: "'r emu_session \<Rightarrow> emu_answer \<Rightarrow> bool" where
  "emu_input_ok s a \<longleftrightarrow> (case a of EmuPublished sc \<Rightarrow> scenario_ok sc \<and> cat_revision (es_catalog s) \<noteq> - 1 | _ \<Rightarrow> True)"

lemma emu_wrote_inv:
  assumes inv: "emu_inv s" and rnd: "random_in_range intn" "\<And>sd. factory sd \<noteq> None"
  shows
    "es_place s = SendNotification m \<Longrightarrow> emu_inv (emu_goto AwaitConfig (emu_wrote m s))"
    "es_place s = SendConfigResponse i \<Longrightarrow>
       emu_inv (emu_report intn factory (emu_wrote (SetReaderConfigResponseMessage i) s))"
    "es_place s = SendReport (b # bs) err \<Longrightarrow>
       emu_inv (send_bodies bs err (emu_update f
         ((emu_wrote (ROAccessReportMessage b (es_reportID s)) s)\<lparr>es_reportID := es_reportID s + 1\<rparr>)))"
    "es_place s = SendKeepalive i \<Longrightarrow>
       emu_inv (emu_loop ((emu_update f (emu_wrote (KeepaliveMessage i) s))\<lparr>es_pending := Some (i, d)\<rparr>))"
proof -
  show "es_place s = SendNotification m \<Longrightarrow> emu_inv (emu_goto AwaitConfig (emu_wrote m s))"
    using inv by (auto simp: emu_inv_defs emu_step_defs)
  show "emu_inv (emu_report intn factory (emu_wrote (SetReaderConfigResponseMessage i) s))" if "es_place s = SendConfigResponse i"
    by (rule emu_report_inv [OF _ _ _ _ _ _ rnd])
      (use inv that in \<open>auto simp: emu_inv_defs emu_step_defs in_order_response\<close>)
  show "emu_inv (send_bodies bs err (emu_update f
         ((emu_wrote (ROAccessReportMessage b (es_reportID s)) s)\<lparr>es_reportID := es_reportID s + 1\<rparr>)))"
    if "es_place s = SendReport (b # bs) err"
  proof -
    have "emu_inv (send_bodies bs None (emu_update f
         ((emu_wrote (ROAccessReportMessage b (es_reportID s)) s)\<lparr>es_reportID := es_reportID s + 1\<rparr>)))"
      by (rule send_bodies_inv) (use inv that in \<open>auto simp: emu_inv_defs emu_step_defs intro: in_order_traffic\<close>)
    moreover have "err = None" using inv that by (simp add: emu_inv_defs)
    ultimately show ?thesis by simp
  qed
  show "emu_inv (emu_loop ((emu_update f (emu_wrote (KeepaliveMessage i) s))\<lparr>es_pending := Some (i, d)\<rparr>))"
    if "es_place s = SendKeepalive i"
    by (rule emu_loop_inv) (use inv that in \<open>auto simp: emu_inv_defs emu_step_defs intro: in_order_traffic\<close>)
qed

lemma emu_step_inv:
  assumes inv: "emu_inv s" and step: "emu_step intn factory a s = Some s'" and ok: "emu_input_ok s a"
    and rnd: "random_in_range intn" "\<And>sd. factory sd \<noteq> None"
  shows "emu_inv s'"
proof -
  have begin': "emu_inv (emu_write (SendNotification (ReaderEventNotificationMessage 1 now)) s)" if "es_place s = EmuNew" for now
    by (rule emu_write_inv) (use inv that in \<open>auto simp: emu_inv_defs emu_goto_def\<close>)
  have keep: "emu_inv (emu_write (SendKeepalive (es_keepaliveID s)) (s\<lparr>es_keepaliveID := es_keepaliveID s + 1\<rparr>))"
    if "es_place s = EmuServing" "es_pending s = None"
    by (rule emu_write_inv) (use inv that in \<open>auto simp: emu_inv_defs emu_goto_def keepalive_id_Suc\<close>)
  have report: "emu_inv (emu_report intn factory s)" if "es_place s = EmuServing"
    by (rule emu_report_inv [OF _ _ _ _ _ _ rnd]) (use inv that in \<open>auto simp: emu_inv_defs\<close>)
  have cancel: "emu_inv (s\<lparr>es_cancelled := True\<rparr>)"
    using inv by (auto simp: emu_inv_defs split: emu_place.splits)
  have publish: "emu_inv (s\<lparr>es_catalog := fst (cat_replace (es_catalog s) sc)\<rparr>)" if "a = EmuPublished sc" for sc
  proof -
    have "cursor_ok (fst (cat_replace (es_catalog s) sc)) (es_cursor s)"
      using inv ok that by (intro cat_replace_ok) (auto simp: emu_inv_def emu_input_ok_def)
    then show ?thesis using inv by (auto simp: emu_inv_defs split: emu_place.splits)
  qed
  show ?thesis
    using step begin' keep report cancel publish emu_wrote_inv [OF inv rnd] emu_handle_inv [OF inv] got_config_inv [OF inv]
      emu_done_inv(2) [OF inv]
    by (auto simp: emu_step_def split: emu_answer.splits emu_place.splits option.splits sum.splits list.splits if_splits)
qed

inductive emu_reachable ::
  "('r \<Rightarrow> int \<Rightarrow> int \<times> 'r) \<Rightarrow> (int \<Rightarrow> 'r option) \<Rightarrow> emulator_config \<Rightarrow> 'r emu_session \<Rightarrow> bool" for intn factory c where
  connect: "scenario_ok (cat_scenario cat) \<Longrightarrow> cat_revision cat \<noteq> 0 \<Longrightarrow> emu_reachable intn factory c (emu_connection c cat v)"
| step: "emu_reachable intn factory c s \<Longrightarrow> emu_step intn factory a s = Some s' \<Longrightarrow> emu_input_ok s a \<Longrightarrow>
     emu_reachable intn factory c s'"

lemma emu_connection_inv:
  "128 \<le> FrameBytes c \<Longrightarrow> scenario_ok (cat_scenario cat) \<Longrightarrow> cat_revision cat \<noteq> 0 \<Longrightarrow> emu_inv (emu_connection c cat v)"
  by (auto simp: emu_connection_def emu_inv_defs cursor_ok_def new_cursor_def keepalive_id_def)

lemma emu_reachable_inv:
  assumes "emu_reachable intn factory c s" "128 \<le> FrameBytes c" "random_in_range intn" "\<And>sd. factory sd \<noteq> None"
  shows "emu_inv s"
  using assms(1)
proof (induction rule: emu_reachable.induct)
  case (connect cat v)
  then show ?case using emu_connection_inv [OF assms(2)] by blast
next
  case (step s a s')
  then show ?case using emu_step_inv [of s intn factory a s'] assms(3,4) by blast
qed

end
