(* ===== verification/Emulator_Server.thy ===== *)
theory Emulator_Server
  imports Emulator_Session
begin

text \<open>
  The emulator's server, \<^verbatim>\<open>src/internal/emulator/server.go\<close>: the accept loop of \<open>Run\<close>, the connections it
  serves at once, and the catalog and status they share. A step is one acceptance, one step of one
  connection, or one of the two parts of its end: the slot is given back first, the client counter
  follows. \<open>LoopLeft\<close> is the end of the accept loop, by cancellation or a failing listener, and
  \<open>WorkersDone\<close> the end of \<open>Run\<close> after its workers. A connection reads and writes the shared catalog and status in its own steps. The
  listener, its address and logging are not modelled; \<open>sv_offered\<close> is history.
\<close>

section \<open>State\<close>

datatype server_error = ServerConfig | ServerScenario | ServerAlreadyRun

record 'r server =
  sv_config :: emulator_config
  sv_catalog :: catalog
  sv_status :: emu_status
  sv_started :: bool
  sv_stopping :: bool
  sv_conns :: "nat \<Rightarrow> 'r emu_session option"
  sv_next :: nat
  sv_ending :: nat
  sv_offered :: nat

definition status_zero :: emu_status where
  "status_zero = \<lparr>em_Running = False, em_Clients = 0, em_Accepted = 0, em_Rejected = 0, em_Failures = 0, em_Cycles = 0,
     em_Reports = 0, em_Keepalives = 0\<rparr>"

text \<open>\<open>New\<close>; a scenario that is nil is \<open>None\<close>, \<open>sources\<close> says that clock and random factory are given.\<close>

definition NewServer ::
  "(string \<Rightarrow> int option) \<Rightarrow> emulator_config \<Rightarrow> scenario option \<Rightarrow> bool \<Rightarrow> server_error + 'r server" where
  "NewServer port c scenario sources =
     (if \<not> emulator_Validate port c then Inl ServerConfig
      else case scenario of
        None \<Rightarrow> Inl ServerScenario
      | Some sc \<Rightarrow>
          if cycles sc = [] then Inl ServerScenario
          else if \<not> sources then Inl ServerConfig
          else Inr \<lparr>sv_config = c, sv_catalog = newCatalog sc, sv_status = status_zero, sv_started = False, sv_stopping = False,
            sv_conns = Map.empty, sv_next = 0, sv_ending = 0, sv_offered = 0\<rparr>)"

definition server_Status :: "'r server \<Rightarrow> emu_status \<times> u64" where
  "server_Status sv = (sv_status sv, cat_revision (sv_catalog sv))"

definition server_Replace :: "scenario option \<Rightarrow> 'r server \<Rightarrow> (server_error + u64) \<times> 'r server" where
  "server_Replace scenario sv =
     (case scenario of
        None \<Rightarrow> (Inl ServerScenario, sv)
      | Some sc \<Rightarrow>
          if cycles sc = [] then (Inl ServerScenario, sv)
          else (case cat_replace (sv_catalog sv) sc of (cat, revision) \<Rightarrow> (Inr revision, sv\<lparr>sv_catalog := cat\<rparr>)))"

definition server_update :: "(emu_status \<Rightarrow> emu_status) \<Rightarrow> 'r server \<Rightarrow> 'r server" where
  "server_update f sv = sv\<lparr>sv_status := f (sv_status sv)\<rparr>"

section \<open>Steps\<close>

datatype server_answer =
    RunCalled
  | Offered
  | Conn nat emu_answer
  | ConnEnded nat
  | ConnCounted
  | Publish "scenario option"
  | LoopLeft
  | WorkersDone

text \<open>\<open>Run\<close> up to its accept loop, an offered connection, and the end of a worker.\<close>

definition run_server :: "'r server \<Rightarrow> server_error option \<times> 'r server" where
  "run_server sv =
     (if sv_started sv then (Some ServerAlreadyRun, sv)
      else (None, server_update (\<lambda>v. v\<lparr>em_Running := True\<rparr>) (sv\<lparr>sv_started := True\<rparr>)))"

definition accept_conn :: "'r server \<Rightarrow> 'r server" where
  "accept_conn sv =
     (let sv = sv\<lparr>sv_offered := sv_offered sv + 1\<rparr> in
      if int (card (dom (sv_conns sv))) < MaxClients (sv_config sv)
      then let sv = server_update (\<lambda>v. v\<lparr>em_Clients := em_Clients v + 1, em_Accepted := em_Accepted v + 1\<rparr>) sv
           in sv\<lparr>sv_conns := (sv_conns sv)(sv_next sv \<mapsto> emu_connection (sv_config sv) (sv_catalog sv) (sv_status sv)),
                sv_next := sv_next sv + 1\<rparr>
      else server_update (\<lambda>v. v\<lparr>em_Rejected := em_Rejected v + 1\<rparr>) sv)"

definition is_failure :: "'r emu_session \<Rightarrow> emu_session_error \<Rightarrow> bool" where
  "is_failure s e \<longleftrightarrow> \<not> es_cancelled s \<and> e \<noteq> EmuIO EOF"

definition server_step ::
  "('r \<Rightarrow> int \<Rightarrow> int \<times> 'r) \<Rightarrow> (int \<Rightarrow> 'r option) \<Rightarrow> server_answer \<Rightarrow> 'r server \<Rightarrow> 'r server option" where
  "server_step intn factory a sv =
     (case a of
        RunCalled \<Rightarrow> Some (snd (run_server sv))
      | Offered \<Rightarrow> if sv_started sv \<and> \<not> sv_stopping sv then Some (accept_conn sv) else None
      | LoopLeft \<Rightarrow> if sv_started sv then Some (sv\<lparr>sv_stopping := True\<rparr>) else None
      | WorkersDone \<Rightarrow>
          if sv_stopping sv \<and> dom (sv_conns sv) = {} \<and> sv_ending sv = 0
          then Some (server_update (\<lambda>v. v\<lparr>em_Running := False\<rparr>) sv) else None
      | Conn i b \<Rightarrow>
          (case sv_conns sv i of
             None \<Rightarrow> None
           | Some s \<Rightarrow>
               (case emu_step intn factory b (s\<lparr>es_catalog := sv_catalog sv, es_status := sv_status sv\<rparr>) of
                  None \<Rightarrow> None
                | Some s' \<Rightarrow> Some (sv\<lparr>sv_conns := (sv_conns sv)(i \<mapsto> s'), sv_catalog := es_catalog s', sv_status := es_status s'\<rparr>)))
      | ConnEnded i \<Rightarrow>
          (case sv_conns sv i of
             None \<Rightarrow> None
           | Some s \<Rightarrow>
               (case es_place s of
                  EmuDone e \<Rightarrow>
                    (let sv = (if is_failure s e then server_update (\<lambda>v. v\<lparr>em_Failures := em_Failures v + 1\<rparr>) sv else sv)
                     in Some (sv\<lparr>sv_conns := (sv_conns sv)(i := None), sv_ending := sv_ending sv + 1\<rparr>))
                | _ \<Rightarrow> None))
      | ConnCounted \<Rightarrow>
          if sv_ending sv = 0 then None
          else Some (server_update (\<lambda>v. v\<lparr>em_Clients := em_Clients v - 1\<rparr>) (sv\<lparr>sv_ending := sv_ending sv - 1\<rparr>))
      | Publish scenario \<Rightarrow> Some (snd (server_Replace scenario sv)))"

section \<open>The invariant\<close>

text \<open>Inputs that are considered: valid scenarios, and fewer publications than revisions.\<close>

definition server_input_ok :: "'r server \<Rightarrow> server_answer \<Rightarrow> bool" where
  "server_input_ok sv a \<longleftrightarrow>
     (case a of
        Publish (Some sc) \<Rightarrow> scenario_ok sc \<and> cat_revision (sv_catalog sv) \<noteq> - 1
      | Conn i (EmuPublished sc) \<Rightarrow> False
      | _ \<Rightarrow> True)"

definition shared :: "'r server \<Rightarrow> 'r emu_session \<Rightarrow> 'r emu_session" where
  "shared sv s = s\<lparr>es_catalog := sv_catalog sv, es_status := sv_status sv\<rparr>"

definition server_inv :: "'r server \<Rightarrow> bool" where
  "server_inv sv \<longleftrightarrow>
     0 < MaxClients (sv_config sv) \<and> 128 \<le> FrameBytes (sv_config sv) \<and>
     scenario_ok (cat_scenario (sv_catalog sv)) \<and> cat_revision (sv_catalog sv) \<noteq> 0 \<and>
     dom (sv_conns sv) \<subseteq> {..<sv_next sv} \<and> int (card (dom (sv_conns sv))) \<le> MaxClients (sv_config sv) \<and>
     em_Clients (sv_status sv) = int (card (dom (sv_conns sv)) + sv_ending sv) \<and>
     em_Rejected (sv_status sv) = of_nat (sv_offered sv) - of_nat (sv_next sv) \<and>
     em_Accepted (sv_status sv) = of_nat (sv_next sv) \<and>
     (\<forall>i s. sv_conns sv i = Some s \<longrightarrow> emu_inv (shared sv s))"

lemma emu_inv_status [simp]: "emu_inv (s\<lparr>es_status := v\<rparr>) = emu_inv s"
  by (simp add: emu_inv_defs split: emu_place.split)

lemma emu_inv_catalog:
  "emu_inv s \<Longrightarrow> cursor_ok cat (es_cursor s) \<Longrightarrow> emu_inv (s\<lparr>es_catalog := cat\<rparr>)"
  by (auto simp: emu_inv_defs split: emu_place.splits)

lemma shared_catalog: "emu_inv (shared sv s) \<longleftrightarrow> emu_inv (s\<lparr>es_catalog := sv_catalog sv\<rparr>)"
  using emu_inv_status [of "sv_status sv" "s\<lparr>es_catalog := sv_catalog sv\<rparr>"] by (simp add: shared_def)

text \<open>A step of a connection leaves the counters of the accept loop and the catalog alone.\<close>

lemma emu_status_frame:
  "em_Clients (es_status (emu_write p s)) = em_Clients (es_status s)"
  "em_Accepted (es_status (emu_write p s)) = em_Accepted (es_status s)"
  "em_Rejected (es_status (emu_write p s)) = em_Rejected (es_status s)" "es_catalog (emu_write p s) = es_catalog s"
  "em_Clients (es_status (emu_loop s)) = em_Clients (es_status s)"
  "em_Accepted (es_status (emu_loop s)) = em_Accepted (es_status s)"
  "em_Rejected (es_status (emu_loop s)) = em_Rejected (es_status s)" "es_catalog (emu_loop s) = es_catalog s"
  by (simp_all add: emu_write_def emu_loop_def emu_step_defs)

lemma send_bodies_frame:
  "em_Clients (es_status (send_bodies bs err s)) = em_Clients (es_status s)"
  "em_Accepted (es_status (send_bodies bs err s)) = em_Accepted (es_status s)"
  "em_Rejected (es_status (send_bodies bs err s)) = em_Rejected (es_status s)" "es_catalog (send_bodies bs err s) = es_catalog s"
  by (cases bs; cases err; simp add: emu_status_frame; simp add: emu_step_defs)+

lemma emu_report_frame:
  "em_Clients (es_status (emu_report intn factory s)) = em_Clients (es_status s)"
  "em_Accepted (es_status (emu_report intn factory s)) = em_Accepted (es_status s)"
  "em_Rejected (es_status (emu_report intn factory s)) = em_Rejected (es_status s)"
  "es_catalog (emu_report intn factory s) = es_catalog s"
  by (simp_all add: emu_report_def emu_status_frame send_bodies_frame emu_step_defs split: prod.split sum.split option.split)

lemma emu_read_frame:
  "em_Clients (es_status (emu_handle inp time s)) = em_Clients (es_status s)"
  "em_Accepted (es_status (emu_handle inp time s)) = em_Accepted (es_status s)"
  "em_Rejected (es_status (emu_handle inp time s)) = em_Rejected (es_status s)" "es_catalog (emu_handle inp time s) = es_catalog s"
  "em_Clients (es_status (got_config m s)) = em_Clients (es_status s)"
  "em_Accepted (es_status (got_config m s)) = em_Accepted (es_status s)"
  "em_Rejected (es_status (got_config m s)) = em_Rejected (es_status s)" "es_catalog (got_config m s) = es_catalog s"
  by (simp_all add: emu_handle_def got_config_def emu_status_frame emu_step_defs Let_def split: sum.split option.split)

lemma emu_step_frame:
  assumes "emu_step intn factory a s = Some s'" "\<And>sc. a \<noteq> EmuPublished sc"
  shows "em_Clients (es_status s') = em_Clients (es_status s) \<and> em_Accepted (es_status s') = em_Accepted (es_status s) \<and>
    em_Rejected (es_status s') = em_Rejected (es_status s) \<and> es_catalog s' = es_catalog s"
  using assms
  by (auto simp: emu_step_def emu_status_frame send_bodies_frame emu_report_frame emu_read_frame
      split: emu_answer.splits emu_place.splits option.splits sum.splits list.splits if_splits)
    (auto simp: emu_step_defs)

lemma card_dom_update:
  assumes "dom m \<subseteq> {..<n :: nat}"
  shows "card (dom (m(n \<mapsto> x))) = Suc (card (dom m))" "m i = Some y \<Longrightarrow> Suc (card (dom (m(i := None)))) = card (dom m)"
    "m i = Some y \<Longrightarrow> dom (m(i \<mapsto> x)) = dom m"
proof -
  have fin: "finite (dom m)" using assms finite_subset by blast
  have "n \<notin> dom m" using assms by auto
  then show "card (dom (m(n \<mapsto> x))) = Suc (card (dom m))" using fin by simp
  show "Suc (card (dom (m(i := None)))) = card (dom m)" if "m i = Some y"
  proof -
    have "0 < card (dom m)" using fin that by (auto simp: card_gt_0_iff)
    then show ?thesis using fin that by (simp add: domI)
  qed
qed auto

lemma accept_conn_inv:
  assumes "server_inv sv"
  shows "server_inv (accept_conn sv)"
proof -
  have new: "emu_inv (emu_connection (sv_config sv) (sv_catalog sv) v)" for v
    using assms by (intro emu_connection_inv) (auto simp: server_inv_def)
  have cat: "es_catalog (emu_connection c cat v) = cat" for c cat v by (simp add: emu_connection_def)
  have shared: "shared sv' (emu_connection c cat v) = emu_connection c (sv_catalog sv') (sv_status sv')" for sv' c cat v
    by (simp add: shared_def emu_connection_def)
  show ?thesis
  proof (cases "int (card (dom (sv_conns sv))) < MaxClients (sv_config sv)")
    case True
    have dom: "dom (sv_conns sv) \<subseteq> {..<sv_next sv}" using assms by (simp add: server_inv_def)
    note card = card_dom_update(1) [OF dom]
    have old: "\<forall>i s. sv_conns sv i = Some s \<longrightarrow> emu_inv (s\<lparr>es_catalog := sv_catalog sv\<rparr>)"
      using assms by (simp add: server_inv_def shared_catalog)
    show ?thesis
      using True assms dom card old new
      by (auto simp: accept_conn_def Let_def server_inv_def server_update_def shared_catalog shared less_Suc_eq)
        (auto simp: emu_connection_def)
  next
    case False
    then show ?thesis using assms
      by (simp add: accept_conn_def Let_def server_inv_def server_update_def shared_catalog)
  qed
qed

lemma conn_step_inv:
  assumes inv: "server_inv sv" and i: "sv_conns sv i = Some s" and a: "\<And>sc. a \<noteq> EmuPublished sc"
    and step: "emu_step intn factory a (shared sv s) = Some s'"
    and rnd: "random_in_range intn" "\<And>sd. factory sd \<noteq> None"
  shows "server_inv (sv\<lparr>sv_conns := (sv_conns sv)(i \<mapsto> s'), sv_catalog := es_catalog s', sv_status := es_status s'\<rparr>)"
proof -
  have "emu_inv (shared sv s)" using inv i by (simp add: server_inv_def)
  then have s': "emu_inv s'" by (rule emu_step_inv [OF _ step _ rnd]) (use a in \<open>auto simp: emu_input_ok_def split: emu_answer.split\<close>)
  have fr: "es_catalog s' = sv_catalog sv" "em_Clients (es_status s') = em_Clients (sv_status sv)"
    "em_Accepted (es_status s') = em_Accepted (sv_status sv)" "em_Rejected (es_status s') = em_Rejected (sv_status sv)"
    using emu_step_frame [OF step a] by (simp_all add: shared_def)
  have "s'\<lparr>es_catalog := sv_catalog sv\<rparr> = s'" using fr(1) by (cases s') simp
  then have "\<forall>j t. ((sv_conns sv)(i \<mapsto> s')) j = Some t \<longrightarrow> emu_inv (t\<lparr>es_catalog := sv_catalog sv\<rparr>)"
    using inv s' by (auto simp: server_inv_def shared_catalog)
  moreover have "dom (sv_conns sv) \<subseteq> {..<sv_next sv}" using inv by (simp add: server_inv_def)
  note card_dom_update(3) [OF this i, of s']
  ultimately show ?thesis using inv by (simp add: server_inv_def shared_catalog fr del: fun_upd_apply)
qed

lemma conn_ended_inv:
  assumes inv: "server_inv sv" and i: "sv_conns sv i = Some s"
  shows "server_inv (sv\<lparr>sv_conns := (sv_conns sv)(i := None), sv_ending := sv_ending sv + 1\<rparr>)"
proof -
  have "dom (sv_conns sv) \<subseteq> {..<sv_next sv}" using inv by (simp add: server_inv_def)
  note card_dom_update(2) [OF this i]
  then show ?thesis using inv by (auto simp: server_inv_def shared_catalog)
qed

lemma server_publish_inv:
  assumes inv: "server_inv sv" and ok: "scenario_ok sc" "cat_revision (sv_catalog sv) \<noteq> - 1"
  shows "server_inv (sv\<lparr>sv_catalog := fst (cat_replace (sv_catalog sv) sc)\<rparr>)"
proof -
  let ?cat = "fst (cat_replace (sv_catalog sv) sc)"
  have "emu_inv (s\<lparr>es_catalog := ?cat\<rparr>)" if "sv_conns sv i = Some s" for i s
  proof -
    have s: "emu_inv (s\<lparr>es_catalog := sv_catalog sv\<rparr>)" using inv that by (simp add: server_inv_def shared_catalog)
    then have "cursor_ok ?cat (es_cursor s)" using cat_replace_ok [OF _ ok, of "es_cursor s"] by (simp add: emu_inv_def)
    then show ?thesis using emu_inv_catalog [OF s, of ?cat] by simp
  qed
  moreover have "cat_revision ?cat \<noteq> 0" using ok(2) by (simp add: cat_replace_def Let_def add_eq_0_iff2)
  moreover have "cat_scenario ?cat = sc" by (simp add: cat_replace_def Let_def)
  ultimately show ?thesis using inv ok(1) by (simp add: server_inv_def shared_catalog)
qed

lemma server_update_inv:
  assumes "server_inv sv" "\<And>v. em_Clients (f v) = em_Clients v" "\<And>v. em_Accepted (f v) = em_Accepted v" "\<And>v. em_Rejected (f v) = em_Rejected v"
  shows "server_inv (server_update f sv)"
  using assms by (simp add: server_inv_def server_update_def shared_catalog)

lemma server_Replace_snd:
  "snd (server_Replace scenario sv) =
     (case scenario of None \<Rightarrow> sv
      | Some sc \<Rightarrow> if cycles sc = [] then sv else sv\<lparr>sv_catalog := fst (cat_replace (sv_catalog sv) sc)\<rparr>)"
  by (simp add: server_Replace_def split: option.split prod.split)

lemma server_step_inv:
  assumes inv: "server_inv sv" and step: "server_step intn factory a sv = Some sv'" and ok: "server_input_ok sv a"
    and rnd: "random_in_range intn" "\<And>sd. factory sd \<noteq> None"
  shows "server_inv sv'"
proof (cases a)
  case RunCalled
  have "server_inv (sv\<lparr>sv_started := True\<rparr>)" using inv by (simp add: server_inv_def shared_catalog)
  then have "server_inv (server_update (\<lambda>v. v\<lparr>em_Running := True\<rparr>) (sv\<lparr>sv_started := True\<rparr>))"
    by (rule server_update_inv) simp_all
  then show ?thesis using step RunCalled inv by (auto simp: server_step_def run_server_def)
next
  case LoopLeft
  then have "sv' = sv\<lparr>sv_stopping := True\<rparr>" using step by (simp add: server_step_def split: if_splits)
  then show ?thesis using inv by (simp add: server_inv_def shared_catalog)
next
  case WorkersDone
  have "server_inv (server_update (\<lambda>v. v\<lparr>em_Running := False\<rparr>) sv)" by (rule server_update_inv [OF inv]) simp_all
  then show ?thesis using step WorkersDone by (auto simp: server_step_def split: if_splits)
next
  case Offered
  then show ?thesis using step accept_conn_inv [OF inv] by (auto simp: server_step_def split: if_splits)
next
  case (Conn i b)
  then have "\<And>sc. b \<noteq> EmuPublished sc" using ok by (auto simp: server_input_ok_def)
  moreover have "server_inv (sv\<lparr>sv_conns := (sv_conns sv)(i \<mapsto> s'), sv_catalog := es_catalog s', sv_status := es_status s'\<rparr>)"
    if "sv_conns sv i = Some s" "\<And>sc. b \<noteq> EmuPublished sc" "emu_step intn factory b (shared sv s) = Some s'" for s s'
    by (rule conn_step_inv [OF inv that rnd])
  ultimately show ?thesis using step Conn by (auto simp: server_step_def shared_def split: option.splits)
next
  case (ConnEnded i)
  have "server_inv (server_update (\<lambda>v. v\<lparr>em_Failures := em_Failures v + 1\<rparr>) sv)" by (rule server_update_inv [OF inv]) simp_all
  then show ?thesis
    using step ConnEnded conn_ended_inv [OF inv] conn_ended_inv [of "server_update (\<lambda>v. v\<lparr>em_Failures := em_Failures v + 1\<rparr>) sv"]
    by (auto simp: server_step_def server_update_def Let_def split: option.splits emu_place.splits if_splits)
next
  case ConnCounted
  then have "sv' = server_update (\<lambda>v. v\<lparr>em_Clients := em_Clients v - 1\<rparr>) (sv\<lparr>sv_ending := sv_ending sv - 1\<rparr>)" "0 < sv_ending sv"
    using step by (simp_all add: server_step_def split: if_splits)
  then show ?thesis using inv by (simp add: server_update_def server_inv_def shared_catalog of_nat_diff)
next
  case (Publish scenario)
  then show ?thesis using step ok inv server_publish_inv [OF inv]
    by (auto simp: server_step_def server_Replace_snd server_input_ok_def split: option.splits)
qed

inductive server_reachable ::
  "('r \<Rightarrow> int \<Rightarrow> int \<times> 'r) \<Rightarrow> (int \<Rightarrow> 'r option) \<Rightarrow> 'r server \<Rightarrow> bool" for intn factory where
  new: "NewServer port c (Some sc) True = Inr sv \<Longrightarrow> scenario_ok sc \<Longrightarrow> server_reachable intn factory sv"
| step: "server_reachable intn factory sv \<Longrightarrow> server_step intn factory a sv = Some sv' \<Longrightarrow> server_input_ok sv a \<Longrightarrow>
     server_reachable intn factory sv'"

lemma server_reachable_inv:
  assumes "server_reachable intn factory sv" "random_in_range intn" "\<And>sd. factory sd \<noteq> None"
  shows "server_inv sv"
  using assms(1)
proof (induction rule: server_reachable.induct)
  case (new port c sc sv)
  then have "0 < MaxClients c" "128 \<le> FrameBytes c"
    by (auto simp: NewServer_def emulator_Validate_def split: if_splits option.splits)
  then show ?case using new
    by (auto simp: NewServer_def server_inv_def newCatalog_def status_zero_def split: if_splits)
next
  case (step sv a sv')
  then show ?case using server_step_inv [of sv intn factory a sv'] assms(2,3) by blast
qed

section \<open>Properties\<close>

text \<open>
  C36. The emulator serves at most its configured number of clients at once, whatever its connections do
  and whenever its scenario is replaced; the status counts every connection offered as accepted or
  rejected, and as its clients those it serves and those whose end is not yet counted. No connection
  disturbs another: each of them keeps the order of the protocol and sends exactly the bodies of
  the cycles it has played.
\<close>

theorem server_bounds_clients:
  assumes "server_reachable intn factory sv" "random_in_range intn" "\<And>sd. factory sd \<noteq> None"
  shows "int (card (dom (sv_conns sv))) \<le> MaxClients (sv_config sv) \<and>
    em_Clients (sv_status sv) = int (card (dom (sv_conns sv))) + int (sv_ending sv) \<and>
    em_Accepted (sv_status sv) + em_Rejected (sv_status sv) = of_nat (sv_offered sv) \<and>
    (case sv_conns sv i of
       None \<Rightarrow> True
     | Some s \<Rightarrow> in_order (es_read s) (es_sent s) \<and>
         (\<exists>rest. sent_bodies (es_sent s) @ rest = concat (map (cycle_bodies (es_config s)) (es_played s)) \<and>
           (es_place s = EmuServing \<longrightarrow> rest = [])))"
proof -
  have inv: "server_inv sv" by (rule server_reachable_inv [OF assms])
  have "in_order (es_read s) (es_sent s) \<and>
      (\<exists>rest. sent_bodies (es_sent s) @ rest = concat (map (cycle_bodies (es_config s)) (es_played s)) \<and>
        (es_place s = EmuServing \<longrightarrow> rest = []))" if "sv_conns sv i = Some s" for s
  proof -
    have "emu_inv (shared sv s)" using inv that by (simp add: server_inv_def)
    then show ?thesis by (cases "es_place s") (auto simp: emu_inv_defs shared_def)
  qed
  then show ?thesis using inv by (auto simp: server_inv_def split: option.split)
qed

text \<open>One client is all this server takes: a second is turned away.\<close>

definition small_config :: emulator_config where
  "small_config = emulator_DefaultConfig\<lparr>MaxClients := 1\<rparr>"

definition small_scenario :: scenario where
  "small_scenario = \<lparr>cycles = [[Tag [171, 205]]], seed = 5, repeat = True, shuffle = False\<rparr>"

definition small_server :: "int server" where
  "small_server = \<lparr>sv_config = small_config, sv_catalog = newCatalog small_scenario,
     sv_status = status_zero, sv_started = False, sv_stopping = False, sv_conns = Map.empty, sv_next = 0, sv_ending = 0, sv_offered = 0\<rparr>"

definition busy_server :: "int server" where
  "busy_server = accept_conn (accept_conn (snd (run_server small_server)))"

lemma busy_server_reachable: "server_reachable (\<lambda>r n. (0, r)) Some busy_server"
proof -
  let ?step = "server_step (\<lambda>r n. (0, r)) Some" and ?reach = "server_reachable (\<lambda>r n. (0, r)) Some"
  have "NewServer (\<lambda>_. Some 5084) small_config (Some small_scenario) True = Inr small_server"
    by (simp add: NewServer_def emulator_Validate_def small_config_def small_scenario_def small_server_def emulator_DefaultConfig_def
        second_def millisecond_def hour_def)
  moreover have "scenario_ok small_scenario" by (simp add: small_scenario_def scenario_ok_def tag_valid_def)
  ultimately have "?reach small_server" by (rule server_reachable.new)
  moreover have "?step RunCalled small_server = Some (snd (run_server small_server))" by (simp add: server_step_def)
  ultimately have "?reach (snd (run_server small_server))" by (rule server_reachable.step) (simp add: server_input_ok_def)
  moreover have "?step Offered (snd (run_server small_server)) = Some (accept_conn (snd (run_server small_server)))"
    by (simp add: server_step_def run_server_def small_server_def server_update_def)
  ultimately have "?reach (accept_conn (snd (run_server small_server)))" by (rule server_reachable.step) (simp add: server_input_ok_def)
  moreover have "?step Offered (accept_conn (snd (run_server small_server))) = Some busy_server"
    by (simp add: server_step_def busy_server_def run_server_def small_server_def server_update_def accept_conn_def Let_def)
  ultimately show ?thesis by (rule server_reachable.step) (simp add: server_input_ok_def)
qed

lemma server_bounds_clients_witness:
  "em_Clients (sv_status busy_server) = 1 \<and> em_Accepted (sv_status busy_server) + em_Rejected (sv_status busy_server) = 2"
proof -
  have "dom (sv_conns busy_server) = {0}" "sv_ending busy_server = 0" "sv_offered busy_server = 2"
    by (auto simp: busy_server_def run_server_def small_server_def server_update_def accept_conn_def Let_def small_config_def)
  then show ?thesis
    using server_bounds_clients [OF busy_server_reachable, of 0] by (simp add: random_in_range_def)
qed

end
