(* ===== verification/Reader_Emulator.thy ===== *)
theory Reader_Emulator
  imports Emulator_Session "HOL-Library.Sublist"
begin

text \<open>
  A reader session and a connection of the emulator, joined by a transport that delivers messages in
  order: \<^verbatim>\<open>src/internal/reader/session.go\<close> against \<^verbatim>\<open>src/internal/emulator/session.go\<close>. Their steps
  interleave freely; either may fail to read or to write, be cancelled, see its timers fire or be held up
  at its queue at any moment, and the emulator's scenario may be replaced. The link is one connection:
  the reader dials it once. What is in flight are frames, each written \<open>wire_form\<close> of the message it
  encodes; an end writes a message only if \<open>EncodeMessage\<close> accepts it under its limits, and what a read
  gives it is what \<open>ReadMessage\<close> makes of the next frame under its limits. No end sees another error of
  the frame codec: the transport fails with errors of its own, a frame cut short included.
\<close>

section \<open>The link\<close>

record 'r link =
  lk_reader :: session
  lk_emu :: "'r emu_session"
  lk_dialed :: bool
  lk_down :: "message list"
  lk_up :: "message list"

definition reader_output :: "session \<Rightarrow> message option" where
  "reader_output s =
     (case ss_place s of
        WriteRequest \<Rightarrow> Some (SetReaderConfigMessage (InitialMessageID (ss_config s)))
      | WriteEarlyAck i \<Rightarrow> Some (KeepaliveAckMessage i)
      | WriteAck i \<Rightarrow> Some (KeepaliveAckMessage i)
      | _ \<Rightarrow> None)"

definition emu_output :: "'r emu_session \<Rightarrow> message option" where
  "emu_output s =
     (case es_place s of
        SendNotification m \<Rightarrow> Some m
      | SendConfigResponse i \<Rightarrow> Some (SetReaderConfigResponseMessage i)
      | SendReport (b # _) _ \<Rightarrow> Some (ROAccessReportMessage b (es_reportID s))
      | SendKeepalive i \<Rightarrow> Some (KeepaliveMessage i)
      | _ \<Rightarrow> None)"

text \<open>What an end makes of a frame under its limits, and why it would not write a message.\<close>

definition arrived :: "message \<Rightarrow> limits \<Rightarrow> io_error + message" where
  "arrived m l = (case fst (ReadMessage (frame_of m) l) of Inl e \<Rightarrow> Inl (FrameError e) | Inr x \<Rightarrow> Inr x)"

definition departs :: "message \<Rightarrow> limits \<Rightarrow> io_error option" where
  "departs m l = (case EncodeMessage m l of Inl e \<Rightarrow> Some (FrameError e) | Inr _ \<Rightarrow> None)"

definition reader_limits :: "'r link \<Rightarrow> limits" where
  "reader_limits k = Limits (ss_config (lk_reader k))"

definition emu_limits :: "'r link \<Rightarrow> limits" where
  "emu_limits k = emulator_limits (es_config (lk_emu k))"

text \<open>Answers that deliver nothing, and those of them that do not come from the frame codec.\<close>

definition reader_quiet :: "answer \<Rightarrow> bool" where
  "reader_quiet a \<longleftrightarrow> (case a of Dialed None \<Rightarrow> False | Wrote None \<Rightarrow> False | Read (Inr _) _ \<Rightarrow> False | _ \<Rightarrow> True)"

definition emu_quiet :: "emu_answer \<Rightarrow> bool" where
  "emu_quiet a \<longleftrightarrow>
     (case a of EmuWrote None _ \<Rightarrow> False | EmuRead (Inr _) _ \<Rightarrow> False | EmuAckDue (Some (Inr _, _)) \<Rightarrow> False | _ \<Rightarrow> True)"

fun codec_error :: "io_error \<Rightarrow> bool" where
  "codec_error (FrameError _) = True"
| "codec_error _ = False"

fun reader_codec :: "answer \<Rightarrow> bool" where
  "reader_codec (Dialed (Some e)) = codec_error e"
| "reader_codec (Wrote (Some e)) = codec_error e"
| "reader_codec (Read (Inl e) _) = codec_error e"
| "reader_codec _ = False"

fun emu_codec :: "emu_answer \<Rightarrow> bool" where
  "emu_codec (EmuWrote (Some e) _) = codec_error e"
| "emu_codec (EmuRead (Inl e) _) = codec_error e"
| "emu_codec (EmuAckDue (Some (Inl e, _))) = codec_error e"
| "emu_codec _ = False"

definition reader_local :: "answer \<Rightarrow> bool" where
  "reader_local a \<longleftrightarrow> reader_quiet a \<and> \<not> reader_codec a"

definition emu_local :: "emu_answer \<Rightarrow> bool" where
  "emu_local a \<longleftrightarrow> emu_quiet a \<and> \<not> emu_codec a"

inductive link_step ::
  "('r \<Rightarrow> int \<Rightarrow> int \<times> 'r) \<Rightarrow> (int \<Rightarrow> 'r option) \<Rightarrow> 'r link \<Rightarrow> 'r link \<Rightarrow> bool" for intn factory where
  dial: "\<not> lk_dialed k \<Longrightarrow> session_step (Dialed None) (lk_reader k) = Some r \<Longrightarrow>
     link_step intn factory k (k\<lparr>lk_reader := r, lk_dialed := True\<rparr>)"
| reader_reads: "lk_down k = m # rest \<Longrightarrow> arrived m (reader_limits k) = Inr m' \<Longrightarrow> now \<noteq> 0 \<Longrightarrow>
     session_step (Read (Inr m') now) (lk_reader k) = Some r \<Longrightarrow>
     link_step intn factory k (k\<lparr>lk_reader := r, lk_down := rest\<rparr>)"
| reader_refuses: "lk_down k = m # rest \<Longrightarrow> arrived m (reader_limits k) = Inl x \<Longrightarrow>
     session_step (Read (Inl x) now) (lk_reader k) = Some r \<Longrightarrow>
     link_step intn factory k (k\<lparr>lk_reader := r\<rparr>)"
| reader_writes: "reader_output (lk_reader k) = Some m \<Longrightarrow> departs m (reader_limits k) = None \<Longrightarrow>
     session_step (Wrote None) (lk_reader k) = Some r \<Longrightarrow>
     link_step intn factory k (k\<lparr>lk_reader := r, lk_up := lk_up k @ [wire_form m]\<rparr>)"
| reader_cannot_write: "reader_output (lk_reader k) = Some m \<Longrightarrow> departs m (reader_limits k) = Some x \<Longrightarrow>
     session_step (Wrote (Some x)) (lk_reader k) = Some r \<Longrightarrow>
     link_step intn factory k (k\<lparr>lk_reader := r\<rparr>)"
| reader_moves: "reader_local a \<Longrightarrow> session_step a (lk_reader k) = Some r \<Longrightarrow>
     link_step intn factory k (k\<lparr>lk_reader := r\<rparr>)"
| emu_reads: "lk_up k = m # rest \<Longrightarrow> arrived m (emu_limits k) = Inr m' \<Longrightarrow>
     a = EmuRead (Inr m') time \<or> a = EmuAckDue (Some (Inr m', time)) \<Longrightarrow>
     emu_step intn factory a (lk_emu k) = Some e \<Longrightarrow>
     link_step intn factory k (k\<lparr>lk_emu := e, lk_up := rest\<rparr>)"
| emu_refuses: "lk_up k = m # rest \<Longrightarrow> arrived m (emu_limits k) = Inl x \<Longrightarrow>
     a = EmuRead (Inl x) time \<or> a = EmuAckDue (Some (Inl x, time)) \<Longrightarrow>
     emu_step intn factory a (lk_emu k) = Some e \<Longrightarrow>
     link_step intn factory k (k\<lparr>lk_emu := e\<rparr>)"
| emu_writes: "emu_output (lk_emu k) = Some m \<Longrightarrow> departs m (emu_limits k) = None \<Longrightarrow>
     emu_step intn factory (EmuWrote None now) (lk_emu k) = Some e \<Longrightarrow>
     link_step intn factory k (k\<lparr>lk_emu := e, lk_down := lk_down k @ [wire_form m]\<rparr>)"
| emu_cannot_write: "emu_output (lk_emu k) = Some m \<Longrightarrow> departs m (emu_limits k) = Some x \<Longrightarrow>
     emu_step intn factory (EmuWrote (Some x) now) (lk_emu k) = Some e \<Longrightarrow>
     link_step intn factory k (k\<lparr>lk_emu := e\<rparr>)"
| emu_moves: "emu_local a \<Longrightarrow> emu_input_ok (lk_emu k) a \<Longrightarrow> emu_step intn factory a (lk_emu k) = Some e \<Longrightarrow>
     link_step intn factory k (k\<lparr>lk_emu := e\<rparr>)"

text \<open>Settings under which the two understand each other.\<close>

definition settings_agree :: "reader_config \<Rightarrow> emulator_config \<Rightarrow> bool" where
  "settings_agree rc ec \<longleftrightarrow> 128 \<le> FrameBytes ec \<and> 10 * second + AckTimeout ec < emu_ReadTimeout ec \<and>
     75 \<le> maxParameterSize (normalized (Limits rc)) \<and> 4096 \<le> maxParameters (normalized (Limits rc)) \<and>
     length (Source rc) \<le> 256"

definition link_start :: "session \<Rightarrow> emulator_config \<Rightarrow> catalog \<Rightarrow> emu_status \<Rightarrow> 'r link" where
  "link_start r ec cat v =
     \<lparr>lk_reader = r, lk_emu = emu_connection ec cat v, lk_dialed = False, lk_down = [], lk_up = []\<rparr>"

inductive link_reachable ::
  "('r \<Rightarrow> int \<Rightarrow> int \<times> 'r) \<Rightarrow> (int \<Rightarrow> 'r option) \<Rightarrow> 'r link \<Rightarrow> bool" for intn factory where
  start: "NewSession port rc = Some r \<Longrightarrow> settings_agree rc ec \<Longrightarrow> scenario_ok (cat_scenario cat) \<Longrightarrow> cat_revision cat \<noteq> 0 \<Longrightarrow>
     link_reachable intn factory (link_start r ec cat v)"
| step: "link_reachable intn factory k \<Longrightarrow> link_step intn factory k k' \<Longrightarrow> link_reachable intn factory k'"

section \<open>Facts: messages in flight\<close>

lemma wire_form_simps [simp]:
  "m_payload (wire_form m) = m_payload m" "h_type (m_header (wire_form m)) = h_type (m_header m)"
  "h_id (m_header (wire_form m)) = h_id (m_header m)"
  by (simp_all add: wire_form_def)

lemma wire_form_accepted [simp]:
  "validateNotification (wire_form m) l b = validateNotification m l b"
  "validateConfigResponse (wire_form m) i l = validateConfigResponse m i l"
  "requestedKeepalive (wire_form m) c = requestedKeepalive m c"
  "is_keepalive (wire_form m) = is_keepalive m" "is_report (wire_form m) = is_report m"
  by (simp_all add: validateNotification_def validateConfigResponse_def requestedKeepalive_def is_keepalive_def is_report_def)

lemma sent_bodies_wire [simp]: "sent_bodies (map wire_form ms) = sent_bodies ms" "sent_bodies [wire_form m] = sent_bodies [m]"
  by (simp_all add: sent_bodies_def filter_map comp_def)

lemma is_keepalive_wire: "filter is_keepalive (map wire_form ms) = map wire_form (filter is_keepalive ms)"
  by (simp add: filter_map comp_def)

text \<open>A frame is refused exactly when it is longer than the reader of it allows.\<close>

lemma arrived_wire:
  assumes "MessageHeaderSize + length (m_payload m) < 2 ^ 32"
  shows "arrived (wire_form m) l =
    (if MessageHeaderSize + length (m_payload m) \<le> unat (maxFrameSize (normalized l)) then Inr (wire_form m)
     else Inl (FrameError ErrFrameTooLarge))"
proof (cases "MessageHeaderSize + length (m_payload m) \<le> unat (maxFrameSize (normalized l))")
  case True
  then have "sendable l (wire_form m)" by (simp add: sendable_def wire_form_def)
  then show ?thesis using ReadMessage_frame_of [of l "wire_form m" "[]"] True by (simp add: arrived_def)
next
  case False
  let ?n = "MessageHeaderSize + length (m_payload m)"
  have len: "get_u32 (take 4 (drop 2 (take 10 (frame_of m)))) = of_nat ?n"
    using frame_of_slices(2) [of m "[]"] by (simp add: drop_take del: of_nat_add)
  have n: "unat (of_nat ?n :: u32) = ?n" using assms by (simp add: unat_of_nat take_bit_nat_eq_self del: of_nat_add)
  then have "\<not> of_nat ?n \<le> maxFrameSize (normalized l)" "MessageHeaderSize \<le> unat (of_nat ?n :: u32)"
    using False by (simp_all add: word_le_nat_alt del: of_nat_add)
  then show ?thesis using False len
    by (simp add: arrived_def ReadMessage_def ReadFull_def Let_def MessageHeaderSize_def not_less del: of_nat_add)
qed

lemma departs_None: "departs m l = None \<longleftrightarrow> sendable l m"
  using EncodeMessage_Inr [of m l] by (cases "EncodeMessage m l") (auto simp: departs_def)

lemma arrived_codec: "arrived m l = Inl x \<Longrightarrow> codec_error x" and departs_codec: "departs m l = Some x \<Longrightarrow> codec_error x"
  by (auto simp: arrived_def departs_def split: sum.splits)

text \<open>The messages of the protocol that are not reports are short.\<close>

definition fits :: "nat \<Rightarrow> message \<Rightarrow> bool" where
  "fits n m \<longleftrightarrow> MessageHeaderSize + length (m_payload m) \<le> n \<and> h_length (m_header m) = 0"

lemma fits_short:
  "128 \<le> n \<Longrightarrow> fits n (ReaderEventNotificationMessage i t)" "128 \<le> n \<Longrightarrow> fits n (SetReaderConfigMessage i)"
  "128 \<le> n \<Longrightarrow> fits n (SetReaderConfigResponseMessage i)" "128 \<le> n \<Longrightarrow> fits n (KeepaliveMessage i)"
  "128 \<le> n \<Longrightarrow> fits n (KeepaliveAckMessage i)"
  "fits n (ROAccessReportMessage b i) \<longleftrightarrow> MessageHeaderSize + length b \<le> n"
  by (simp_all add: fits_def typed_message_defs MessageHeaderSize_def readerEventNotificationData_def keepaliveSpec_def status_def
      uTCTimeStamp_def connectionAttemptEvent_def Let_def put_u16_def put_u32_def put_u64_def)

lemma fits_sendable: "fits n m \<Longrightarrow> n \<le> unat (maxFrameSize (normalized l)) \<Longrightarrow> sendable l m"
  by (simp add: fits_def sendable_def)

lemma fits_arrives:
  "fits n m \<Longrightarrow> n < 2 ^ 32 \<Longrightarrow> arrived (wire_form m) l = Inr m' \<Longrightarrow> m' = wire_form m"
  "fits n m \<Longrightarrow> n < 2 ^ 32 \<Longrightarrow> n \<le> unat (maxFrameSize (normalized l)) \<Longrightarrow> arrived (wire_form m) l = Inr (wire_form m)"
  by (auto simp: fits_def arrived_wire split: if_splits)

section \<open>Facts: the two ends\<close>

text \<open>What the reader wrote is what its reads ask for, as far as it got.\<close>

definition reader_sent_ok :: "session \<Rightarrow> bool" where
  "reader_sent_ok s \<longleftrightarrow> prefix (h_sent s) (answers (ss_config s) (h_conn s))"

text \<open>The tags of the reports the reader decoded.\<close>

definition body_tags :: "reader_config \<Rightarrow> bytes \<Rightarrow> tag list" where
  "body_tags c body = (case decodeObservations body (Limits c) (Source c) 1 of Inl _ \<Rightarrow> [] | Inr obs \<Rightarrow> map obs_tag obs)"

definition no_refusal :: "session \<Rightarrow> bool" where
  "no_refusal s \<longleftrightarrow> LastError (ss_status s) \<noteq> Some ErrProtocol' \<and>
     ss_place s \<noteq> Ending ErrProtocol' \<and> ss_place s \<noteq> Done ErrProtocol'"

definition emu_no_refusal :: "'r emu_session \<Rightarrow> bool" where
  "emu_no_refusal s \<longleftrightarrow> (case es_place s of EmuDone e \<Rightarrow> e = EmuContext \<or> e = ErrKeepaliveTimeout \<or> (\<exists>x. e = EmuIO x) | _ \<Rightarrow> True)"

lemma answers_prefix: "prefix conn conn' \<Longrightarrow> conn \<noteq> [] \<Longrightarrow> prefix (answers c conn) (answers c conn')"
  by (auto simp: prefix_def answers_def)

lemma answers_first: "prefix (answers c []) (answers c conn)"
  by (simp add: answers_def)

text \<open>What a step of the reader can change.\<close>

lemma reader_frame_simps [simp]:
  "ss_config (run_tail e s) = ss_config s" "h_conn (run_tail e s) = h_conn s" "h_sent (run_tail e s) = h_sent s"
  "h_decoded (run_tail e s) = h_decoded s" "ss_config (run_head s) = ss_config s" "h_conn (run_head s) = h_conn s"
  "h_sent (run_head s) = h_sent s" "h_decoded (run_head s) = h_decoded s"
  "ss_config (serve_head s) = ss_config s" "h_conn (serve_head s) = h_conn s" "h_sent (serve_head s) = h_sent s"
  "h_decoded (serve_head s) = h_decoded s" "ss_config (hand_over obs s) = ss_config s" "h_conn (hand_over obs s) = h_conn s"
  "h_sent (hand_over obs s) = h_sent s" "h_decoded (hand_over obs s) = h_decoded s"
  "ss_config (finish e s) = ss_config s" "h_conn (finish e s) = h_conn s" "h_sent (finish e s) = h_sent s"
  "h_decoded (finish e s) = h_decoded s"
  "ss_config (goto p s) = ss_config s" "h_conn (goto p s) = h_conn s" "h_sent (goto p s) = h_sent s"
  "h_decoded (goto p s) = h_decoded s"
  "ss_config (transition t s) = ss_config s" "h_conn (transition t s) = h_conn s" "h_sent (transition t s) = h_sent s"
  "h_decoded (transition t s) = h_decoded s"
  "ss_config (update f s) = ss_config s" "h_conn (update f s) = h_conn s" "h_sent (update f s) = h_sent s"
  "h_decoded (update f s) = h_decoded s"
  by (auto simp: run_tail_def run_head_def serve_head_def hand_over_def finish_def step_defs Let_def split: list.splits)

lemma finish_keeps: "LastError (ss_status (finish e s)) = LastError (ss_status s)" "ss_place (finish e s) = Done e"
  by (cases "ss_cancelled s"; simp add: finish_def step_defs Let_def)+

lemma no_refusal_parts:
  "no_refusal s \<Longrightarrow> e \<noteq> ErrProtocol' \<Longrightarrow> no_refusal (run_tail e s)"
  "LastError (ss_status s) \<noteq> Some ErrProtocol' \<Longrightarrow> no_refusal (run_head s)"
  "no_refusal s \<Longrightarrow> no_refusal (serve_head s)"
  "no_refusal s \<Longrightarrow> no_refusal (hand_over obs s)"
  "no_refusal s \<Longrightarrow> no_refusal (goto (WriteAck i) s)" "no_refusal s \<Longrightarrow> no_refusal (goto WriteRequest s)"
  "no_refusal s \<Longrightarrow> no_refusal (transition t s)"
  by (auto simp: no_refusal_def run_tail_def run_head_def serve_head_def hand_over_def step_defs Let_def split: list.splits)

lemma next_message:
  assumes "in_order rd (a @ m # ms)"
  obtains (hello) t where "a = []" "m = ReaderEventNotificationMessage 1 t"
  | (response) t where "a = [ReaderEventNotificationMessage 1 t]" "rd \<noteq> []" "m = SetReaderConfigResponseMessage (h_id (m_header (hd rd)))"
  | (traffic) t i b where "a = ReaderEventNotificationMessage 1 t # SetReaderConfigResponseMessage i # b" "traffic m"
proof (cases a)
  case Nil
  then show thesis using assms hello by (auto simp: in_order_def)
next
  case (Cons n a')
  then show thesis
    using assms response traffic by (cases a') (auto simp: in_order_def)
qed

lemma emu_inv_shape:
  assumes "emu_inv s"
  shows "in_order (es_read s) (es_sent s)" "prefix (sent_bodies (es_sent s)) (played_bodies s)"
proof -
  show "in_order (es_read s) (es_sent s)" using assms by (cases "es_place s"; auto simp: emu_inv_defs)
  have "\<exists>rest. sent_bodies (es_sent s) @ rest = played_bodies s"
    using assms by (cases "es_place s"; auto simp: emu_inv_defs)
  then show "prefix (sent_bodies (es_sent s)) (played_bodies s)" by (metis prefixI)
qed

lemma settings_sizes:
  assumes "settings_agree rc ec"
  shows "75 \<le> unat (maxParameterSize (normalized (Limits rc)))" "4096 \<le> maxParameters (normalized (Limits rc))"
    "length (Source rc) \<le> 256" "128 \<le> FrameBytes ec"
  using assms by (simp_all add: settings_agree_def word_le_nat_alt)

lemma cycle_decodes:
  assumes "settings_agree rc ec" "list_all tag_valid ts" "now \<noteq> 0"
  shows "list_all (\<lambda>b. \<exists>g. decodeObservations b (Limits rc) (Source rc) now = Inr (map (\<lambda>t. observed (Source rc) now (wire_tag t)) g) \<and>
      body_tags rc b = g) (cycle_bodies ec ts)"
    "concat (map (body_tags rc) (cycle_bodies ec ts)) = ts"
proof -
  note size = settings_sizes [OF assms(1)]
  obtain groups where g: "cycle_bodies ec ts = map cycle_body groups" "concat groups = ts"
    "\<forall>g \<in> set groups. group_ok (unat (FrameBytes ec)) g"
    using cycle_bodies_groups [OF assms(2) size(4)] by metis
  have dec: "decodeObservations (cycle_body g) (Limits rc) (Source rc) now = Inr (map (\<lambda>t. observed (Source rc) now (wire_tag t)) g)"
    if "g \<in> set groups" "now \<noteq> 0" for g now
    using g assms(2) that by (intro group_decodes [OF _ _ size(1,2) that(2) size(3)]) (auto simp: list_all_iff)
  have tags: "body_tags rc (cycle_body g) = g" if "g \<in> set groups" for g
    using dec [OF that, of 1] by (simp add: body_tags_def comp_def observed_def wire_tag_def)
  show "list_all (\<lambda>b. \<exists>g. decodeObservations b (Limits rc) (Source rc) now = Inr (map (\<lambda>t. observed (Source rc) now (wire_tag t)) g) \<and>
      body_tags rc b = g) (cycle_bodies ec ts)"
    using dec assms(3) tags by (auto simp: g(1) list_all_iff)
  have "map (body_tags rc) (map cycle_body groups) = groups" using tags by (simp add: map_idI)
  then show "concat (map (body_tags rc) (cycle_bodies ec ts)) = ts" using g(1,2) by simp
qed

lemma played_decodes:
  assumes "emu_inv s" "settings_agree rc (es_config s)" "now \<noteq> 0"
  shows "list_all (\<lambda>b. \<exists>g. decodeObservations b (Limits rc) (Source rc) now = Inr (map (\<lambda>t. observed (Source rc) now (wire_tag t)) g) \<and>
      body_tags rc b = g) (sent_bodies (es_sent s))"
    "concat (map (body_tags rc) (played_bodies s)) = concat (es_played s)"
proof -
  have v: "list_all (list_all tag_valid) (es_played s)" using assms(1) by (simp add: emu_inv_def)
  have "list_all (\<lambda>b. \<exists>g. decodeObservations b (Limits rc) (Source rc) now = Inr (map (\<lambda>t. observed (Source rc) now (wire_tag t)) g) \<and>
      body_tags rc b = g) (played_bodies s)"
    using v cycle_decodes(1) [OF assms(2) _ assms(3)] by (auto simp: played_bodies_def list_all_iff)
  then show "list_all (\<lambda>b. \<exists>g. decodeObservations b (Limits rc) (Source rc) now = Inr (map (\<lambda>t. observed (Source rc) now (wire_tag t)) g) \<and>
      body_tags rc b = g) (sent_bodies (es_sent s))"
    using emu_inv_shape(2) [OF assms(1)] by (auto simp: prefix_def)
  have "concat (map (body_tags rc) (concat (map (cycle_bodies (es_config s)) tss))) = concat tss" if "list_all (list_all tag_valid) tss" for tss
    using that by (induction tss) (simp_all add: cycle_decodes(2) [OF assms(2) _ assms(3)])
  then show "concat (map (body_tags rc) (played_bodies s)) = concat (es_played s)" using v by (simp add: played_bodies_def)
qed

section \<open>The invariant of the link\<close>

definition flows :: "'r link \<Rightarrow> bool" where
  "flows k \<longleftrightarrow> h_conn (lk_reader k) @ lk_down k = map wire_form (es_sent (lk_emu k)) \<and>
     es_read (lk_emu k) @ lk_up k = map wire_form (h_sent (lk_reader k))"

definition decoded_ok :: "session \<Rightarrow> bool" where
  "decoded_ok s \<longleftrightarrow> map obs_tag (h_decoded s) = concat (map (body_tags (ss_config s)) (sent_bodies (h_conn s)))"

definition undialed_ok :: "'r link \<Rightarrow> bool" where
  "undialed_ok k \<longleftrightarrow> (\<not> lk_dialed k \<longrightarrow> h_conn (lk_reader k) = [] \<and> h_sent (lk_reader k) = [] \<and> ss_place (lk_reader k) \<noteq> AwaitNotification)"

definition reader_ok :: "session \<Rightarrow> bool" where
  "reader_ok s \<longleftrightarrow> session_inv s \<and> reader_sent_ok s \<and> no_refusal s \<and> decoded_ok s"

definition link_inv :: "'r link \<Rightarrow> bool" where
  "link_inv k \<longleftrightarrow> reader_ok (lk_reader k) \<and> emu_inv (lk_emu k) \<and> emu_no_refusal (lk_emu k) \<and>
     settings_agree (ss_config (lk_reader k)) (es_config (lk_emu k)) \<and> flows k \<and> undialed_ok k"

text \<open>The reader takes the next message: it is the one its place expects, and it is accepted.\<close>

lemma no_refusal_received [simp]:
  "no_refusal (received m s) = no_refusal s" "LastError (ss_status (received m s)) = LastError (ss_status s)"
  by (simp_all add: no_refusal_def received_def update_def)

lemma reader_reads_hello:
  assumes "no_refusal s" "h_conn s = []" "validateNotification m (Limits (ss_config s)) True = Inr ()"
  shows "no_refusal (got_notification m (received m s))" "h_decoded (got_notification m (received m s)) = h_decoded s"
  using assms no_refusal_parts(6) [of "received m s"] by (simp_all add: got_notification_def)

lemma reader_reads_response:
  assumes "no_refusal s" "validateConfigResponse m (InitialMessageID (ss_config s)) (Limits (ss_config s)) = Inr ()"
  shows "no_refusal (got_response m (received m s))" "h_decoded (got_response m (received m s)) = h_decoded s"
proof -
  have k: "h_type (m_header m) \<noteq> KeepaliveHeader"
    using config_response_no_keepalive [OF assms(2)] by (simp add: is_keepalive_def)
  have "no_refusal (update (\<lambda>v. v\<lparr>LastError := None\<rparr>) (received m s))"
    using assms(1) by (simp add: no_refusal_def update_def received_def)
  then show "no_refusal (got_response m (received m s))" "h_decoded (got_response m (received m s)) = h_decoded s"
    using k assms(2) no_refusal_parts(3,7) by (simp_all add: got_response_def)
qed

lemma reader_reads_traffic:
  assumes "no_refusal s" "traffic m"
    "is_report m \<Longrightarrow> decodeObservations (m_payload m) (Limits (ss_config s)) (Source (ss_config s)) now = Inr obs"
  shows "no_refusal (got_message now (wire_form m) (received (wire_form m) s))"
    "h_decoded (got_message now (wire_form m) (received (wire_form m) s)) = h_decoded s @ (if is_report m then obs else [])"
proof -
  let ?r = "received (wire_form m) s"
  have "no_refusal (got_message now (wire_form m) ?r) \<and>
    h_decoded (got_message now (wire_form m) ?r) = h_decoded s @ (if is_report m then obs else [])"
    using assms(2) unfolding traffic_def
  proof (elim disjE exE)
    fix i assume "m = KeepaliveMessage i"
    then show ?thesis using assms(1) no_refusal_parts(5,7)
      by (simp add: got_message_def is_report_def typed_message_defs header_defs)
  next
    fix b i assume m: "m = ROAccessReportMessage b i"
    then have dec: "decodeObservations b (Limits (ss_config s)) (Source (ss_config s)) now = Inr obs"
      using assms(3) by (simp add: is_report_def typed_message_defs)
    have "no_refusal (update f ((transition Reporting ?r)\<lparr>h_decoded := h\<rparr>))" if "\<And>v. LastError (f v) = LastError v" for f h
      using assms(1) that by (simp add: no_refusal_def step_defs)
    then show ?thesis using m dec no_refusal_parts(4)
      by (simp add: got_message_def is_report_def typed_message_defs header_defs)
  qed
  then show "no_refusal (got_message now (wire_form m) ?r)"
    "h_decoded (got_message now (wire_form m) ?r) = h_decoded s @ (if is_report m then obs else [])" by blast+
qed

lemma session_read_cases:
  assumes "session_step (Read (Inr m) now) s = Some s'"
  obtains "ss_place s = AwaitNotification" "s' = got_notification m (received m s)"
  | "ss_place s = AwaitResponse" "s' = got_response m (received m s)"
  | "ss_place s = Reading" "s' = got_message now m (received m s)"
  using assms by (auto simp: session_step_def split: place.splits)

lemma got_frame [simp]:
  "ss_config (got_notification m s) = ss_config s" "h_conn (got_notification m s) = h_conn s" "h_sent (got_notification m s) = h_sent s"
  "ss_config (got_response m s) = ss_config s" "h_conn (got_response m s) = h_conn s" "h_sent (got_response m s) = h_sent s"
  "ss_config (got_message now m s) = ss_config s" "h_conn (got_message now m s) = h_conn s" "h_sent (got_message now m s) = h_sent s"
  by (auto simp: got_notification_def got_response_def got_message_def Let_def split: sum.split)

text \<open>What the reader takes is a message the emulator sent, and it is accepted.\<close>

lemma reader_accepts:
  assumes inv: "link_inv k" and down: "lk_down k = m # rest" and now: "now \<noteq> 0"
    and step: "session_step (Read (Inr m) now) (lk_reader k) = Some r'"
  shows "no_refusal r' \<and> decoded_ok r'"
proof -
  let ?r = "lk_reader k" and ?e = "lk_emu k"
  let ?c = "ss_config (lk_reader k)"
  have s: "session_inv ?r" "reader_sent_ok ?r" "no_refusal ?r" "decoded_ok ?r" "emu_inv ?e" "settings_agree ?c (es_config ?e)" "flows k"
    using inv by (simp_all add: link_inv_def reader_ok_def)
  obtain a m0 ms where a: "es_sent ?e = a @ m0 # ms" "h_conn ?r = map wire_form a" "m = wire_form m0"
    using s(7) down by (auto simp: flows_def map_eq_append_conv dest!: sym [of "_ @ _"])
  note order' = emu_inv_shape(1) [OF s(5), unfolded a(1)]
  note size = settings_sizes [OF s(6)]
  note pl = session_invD(2) [OF s(1), unfolded place_inv_def Let_def]
  from step show ?thesis
  proof (cases rule: session_read_cases)
    case 1
    then have "a = []" using pl a(2) by simp
    with order' obtain t where "m0 = ReaderEventNotificationMessage 1 t" by (cases rule: next_message) auto
    moreover have "validateNotification (ReaderEventNotificationMessage 1 t) (Limits ?c) True = Inr ()"
      by (rule notification_accepted) (use size in auto)
    ultimately show ?thesis
      using reader_reads_hello [of ?r m] s(3,4) 1 pl a by (simp add: decoded_ok_def)
  next
    case 2
    then have g: "greeted ?c (map wire_form a)" "h_sent ?r = answers ?c (h_conn ?r)" using pl a(2) by simp_all
    from order' obtain t where m0: "a = [ReaderEventNotificationMessage 1 t]" "es_read ?e \<noteq> []"
        "m0 = SetReaderConfigResponseMessage (h_id (m_header (hd (es_read ?e))))"
      using g(1) by (cases rule: next_message) (auto simp: greeted_def)
    have "hd (es_read ?e) = wire_form (SetReaderConfigMessage (InitialMessageID ?c))"
      using s(7) g(2) m0(2) by (cases "es_read ?e") (auto simp: flows_def answers_def)
    then have "m0 = SetReaderConfigResponseMessage (InitialMessageID ?c)" using m0(3) by (simp add: typed_message_defs)
    moreover have "validateConfigResponse (SetReaderConfigResponseMessage i) i (Limits ?c) = Inr ()" for i
      by (rule config_response_accepted) (use size in auto)
    ultimately show ?thesis
      using reader_reads_response [of ?r m] s(3,4) 2 a m0(1) by (simp add: decoded_ok_def sent_bodies_def is_report_def typed_message_defs header_defs)
  next
    case 3
    then have "shaken ?c (map wire_form a)" using pl a(2) by simp
    then have "\<exists>n ks q qs. map wire_form a = n # ks @ q # qs" unfolding shaken_def by (elim exE conjE) (intro exI)
    then have "2 \<le> length a" by (auto dest: arg_cong [of _ _ length])
    with order' have tr: "traffic m0" by (cases rule: next_message) auto
    obtain g where g: "is_report m0 \<Longrightarrow> decodeObservations (m_payload m0) (Limits ?c) (Source ?c) now =
        Inr (map (\<lambda>t. observed (Source ?c) now (wire_tag t)) g) \<and> body_tags ?c (m_payload m0) = g"
      using played_decodes(1) [OF s(5,6) now] a(1) by (auto simp: list_all_iff sent_bodies_def is_report_def)
    have "sent_bodies [m] = (if is_report m0 then [m_payload m0] else [])" using a(3) by (simp add: sent_bodies_def)
    then show ?thesis
      using reader_reads_traffic [OF s(3) tr, of now "map (\<lambda>t. observed (Source ?c) now (wire_tag t)) g"] g 3 s(4) a(3)
      by (auto simp: decoded_ok_def comp_def observed_def wire_tag_def)
  qed
qed

lemma link_reader_reads:
  assumes inv: "link_inv k" and down: "lk_down k = m # rest" and now: "now \<noteq> 0"
    and step: "session_step (Read (Inr m) now) (lk_reader k) = Some r'"
  shows "link_inv (k\<lparr>lk_reader := r', lk_down := rest\<rparr>)"
proof -
  let ?r = "lk_reader k"
  have s: "session_inv ?r" "reader_sent_ok ?r" "flows k" using inv by (simp_all add: link_inv_def reader_ok_def)
  have fr: "ss_config r' = ss_config ?r \<and> h_conn r' = h_conn ?r @ [m] \<and> h_sent r' = h_sent ?r"
    by (cases rule: session_read_cases [OF step]; simp)
  have "prefix (answers (ss_config ?r) (h_conn ?r)) (answers (ss_config ?r) (h_conn ?r @ [m]))"
    by (cases "h_conn ?r = []") (simp_all add: answers_prefix answers_first)
  then have "reader_sent_ok r'" using s(2) fr by (auto simp: reader_sent_ok_def intro: prefix_order.trans)
  moreover have "lk_dialed k"
  proof (rule ccontr)
    assume "\<not> lk_dialed k"
    then have "h_conn ?r = []" "ss_place ?r \<noteq> AwaitNotification" using inv by (simp_all add: link_inv_def undialed_ok_def)
    moreover have "ss_place ?r \<in> {AwaitNotification, AwaitResponse, Reading}" by (rule session_read_cases [OF step]) auto
    ultimately show False using session_invD(2) [OF s(1)] by (auto simp: place_inv_def Let_def greeted_def shaken_def)
  qed
  ultimately show ?thesis
    using inv reader_accepts [OF inv down now step] session_step_inv [OF s(1) step] fr down
    by (simp add: link_inv_def reader_ok_def flows_def undialed_ok_def)
qed

text \<open>The other steps of the reader.\<close>

lemma link_reader_writes:
  assumes inv: "link_inv k" and out: "reader_output (lk_reader k) = Some m" and step: "session_step (Wrote None) (lk_reader k) = Some r'"
  shows "link_inv (k\<lparr>lk_reader := r', lk_up := lk_up k @ [wire_form m]\<rparr>)"
proof -
  let ?r = "lk_reader k"
  have s: "session_inv ?r" "no_refusal ?r" using inv by (simp_all add: link_inv_def reader_ok_def)
  note pl = session_invD(2) [OF s(1), unfolded place_inv_def Let_def]
  have keep: "no_refusal (acked (sent x ?r))" "no_refusal (goto AwaitResponse (acked (sent x ?r)))"
    "no_refusal (goto AwaitResponse (sent x ?r))" for x
    using s(2) by (simp_all add: no_refusal_def step_defs)
  have frame: "ss_config (sent x t) = ss_config t" "h_conn (sent x t) = h_conn t" "h_sent (sent x t) = h_sent t @ [x]"
    "h_decoded (sent x t) = h_decoded t" "ss_config (acked t) = ss_config t" "h_conn (acked t) = h_conn t" "h_sent (acked t) = h_sent t"
    "h_decoded (acked t) = h_decoded t" for x t
    by (simp_all add: sent_def acked_def)
  consider "ss_place ?r = WriteRequest" | i where "ss_place ?r = WriteEarlyAck i" | i where "ss_place ?r = WriteAck i"
    using out by (auto simp: reader_output_def split: place.splits)
  then have fr: "ss_config r' = ss_config ?r \<and> h_conn r' = h_conn ?r \<and> h_sent r' = h_sent ?r @ [m] \<and> h_decoded r' = h_decoded ?r \<and>
      no_refusal r' \<and> h_sent r' = answers (ss_config ?r) (h_conn ?r) \<and> h_conn ?r \<noteq> []"
  proof cases
    case 1
    then have "length (h_conn ?r) = 1" "h_sent ?r = []" using pl by simp_all
    then show ?thesis using 1 step out keep(3)
      by (auto simp: session_step_def reader_output_def frame answers_def length_Suc_conv)
  next
    case 2
    then show ?thesis using step out keep(2) pl greeted_nonempty
      by (auto simp: session_step_def reader_output_def frame)
  next
    case 3
    then show ?thesis using step out keep(1) pl shaken_nonempty no_refusal_parts(3,7)
      by (auto simp: session_step_def reader_output_def frame)
  qed
  then have "lk_dialed k" "reader_sent_ok r'" using inv by (auto simp: link_inv_def undialed_ok_def reader_sent_ok_def)
  then show ?thesis
    using inv session_step_inv [OF s(1) step] fr
    by (simp add: link_inv_def reader_ok_def flows_def undialed_ok_def decoded_ok_def)
qed

lemma link_reader_moves:
  assumes inv: "link_inv k" and a: "reader_quiet a" and step: "session_step a (lk_reader k) = Some r'"
  shows "link_inv (k\<lparr>lk_reader := r'\<rparr>)"
proof -
  let ?r = "lk_reader k"
  have s: "session_inv ?r" "no_refusal ?r" using inv by (simp_all add: link_inv_def reader_ok_def)
  have le: "LastError (ss_status ?r) \<noteq> Some ErrProtocol'" using s(2) by (simp add: no_refusal_def)
  have keep: "no_refusal (update (\<lambda>v. v\<lparr>Observations := Observations v + 1\<rparr>) (?r\<lparr>h_out := h\<rparr>))"
    "no_refusal (update (\<lambda>v. v\<lparr>QueueOverflows := QueueOverflows v + 1\<rparr>) ?r)"
    "no_refusal (goto (Ending ContextEnded) ?r)" "no_refusal (?r\<lparr>ss_cancelled := True\<rparr>)" for h
    using s(2) by (simp_all add: no_refusal_def step_defs)
  have fr: "ss_config r' = ss_config ?r \<and> h_conn r' = h_conn ?r \<and> h_sent r' = h_sent ?r \<and> h_decoded r' = h_decoded ?r"
    using step a by (auto simp: session_step_def reader_quiet_def split: place.splits answer.splits option.splits sum.splits list.splits if_splits)
  have "no_refusal r'"
  proof (cases a)
    case (Taken ok)
    then show ?thesis using step keep(1,2) no_refusal_parts(1,4)
      by (auto simp: session_step_def split: place.splits list.splits)
  next
    case Deferred
    then show ?thesis using step s(2) by (auto simp: session_step_def no_refusal_def finish_keeps split: place.splits)
  next
    case TimerFired
    then show ?thesis using step le no_refusal_parts(2) by (auto simp: session_step_def split: place.splits)
  next
    case Begin
    then show ?thesis using step le no_refusal_parts(2) by (auto simp: session_step_def split: place.splits)
  next
    case Cancelled
    then show ?thesis using step keep(4) by (auto simp: session_step_def split: place.splits)
  next
    case ContextSeen
    then show ?thesis using step keep(3) by (auto simp: session_step_def split: place.splits if_splits)
  qed (use step a s(2) no_refusal_parts(1) in
      \<open>auto simp: session_step_def reader_quiet_def split: place.splits option.splits sum.splits\<close>)
  moreover have "ss_place r' = AwaitNotification \<longrightarrow> ss_place ?r = AwaitNotification"
    using step a
    by (auto simp: session_step_def reader_quiet_def run_head_def run_tail_def hand_over_def serve_head_def finish_def step_defs Let_def
        split: place.splits answer.splits option.splits sum.splits list.splits if_splits)
  then have "\<not> lk_dialed k \<longrightarrow> ss_place r' \<noteq> AwaitNotification" using inv by (auto simp: link_inv_def undialed_ok_def)
  ultimately show ?thesis
    using inv session_step_inv [OF s(1) step] fr
    by (simp add: link_inv_def reader_ok_def flows_def undialed_ok_def reader_sent_ok_def decoded_ok_def)
qed

text \<open>The emulator's steps.\<close>

lemma emu_frame:
  "es_config (emu_write p s) = es_config s" "es_config (emu_loop s) = es_config s" "es_config (emu_goto p s) = es_config s"
  "es_config (emu_update f s) = es_config s" "es_config (emu_wrote m s) = es_config s"
  "es_read (emu_write p s) = es_read s" "es_sent (emu_write p s) = es_sent s"
  "es_read (emu_loop s) = es_read s" "es_sent (emu_loop s) = es_sent s"
  "es_read (emu_goto p s) = es_read s" "es_sent (emu_goto p s) = es_sent s"
  "es_read (emu_update f s) = es_read s" "es_sent (emu_update f s) = es_sent s"
  "es_read (emu_wrote m s) = es_read s" "es_sent (emu_wrote m s) = es_sent s @ [m]"
  by (simp_all add: emu_write_def emu_loop_def emu_step_defs)

lemma emu_frame_bodies:
  "es_config (send_bodies bs err s) = es_config s"
  "es_read (send_bodies bs err s) = es_read s" "es_sent (send_bodies bs err s) = es_sent s"
  by (cases bs; cases err; simp add: emu_frame)+

lemma emu_frame_report:
  "es_config (emu_report intn factory s) = es_config s"
  "es_read (emu_report intn factory s) = es_read s" "es_sent (emu_report intn factory s) = es_sent s"
  by (simp_all add: emu_report_def emu_frame emu_frame_bodies split: prod.split sum.split option.split)

lemma emu_frame_read:
  "es_config (emu_handle inp time s) = es_config s" "es_config (got_config m s) = es_config s"
  "es_read (emu_handle (Inr m) time s) = es_read s @ [m]" "es_sent (emu_handle (Inr m) time s) = es_sent s"
  "es_read (got_config m s) = es_read s @ [m]" "es_sent (got_config m s) = es_sent s"
  by (simp_all add: emu_handle_def got_config_def emu_frame Let_def split: sum.split option.split)

lemma emu_config_step:
  assumes "emu_step intn factory a s = Some s'"
  shows "es_config s' = es_config s"
  using assms
  by (auto simp: emu_step_def emu_frame emu_frame_bodies emu_frame_report emu_frame_read
      split: emu_answer.splits emu_place.splits option.splits sum.splits list.splits if_splits)

lemma emu_no_refusal_parts:
  "es_place s \<notin> range EmuDone \<Longrightarrow> emu_no_refusal s"
  "emu_no_refusal (emu_loop s)"
  "p \<notin> range EmuDone \<Longrightarrow> emu_no_refusal (emu_write p s)"
  "emu_no_refusal (send_bodies bs None s)"
  "emu_no_refusal (emu_goto (EmuDone (EmuIO x)) s)" "emu_no_refusal (emu_goto (EmuDone EmuContext) s)"
  "emu_no_refusal (emu_goto (EmuDone ErrKeepaliveTimeout) s)"
  subgoal by (auto simp: emu_no_refusal_def split: emu_place.split)
  subgoal by (auto simp: emu_no_refusal_def emu_loop_def emu_step_defs)
  subgoal by (auto simp: emu_no_refusal_def emu_write_def emu_step_defs split: emu_place.split)
  subgoal by (cases bs) (auto simp: emu_no_refusal_def emu_loop_def emu_write_def emu_step_defs)
  by (simp_all add: emu_no_refusal_def emu_goto_def)

lemma emu_report_no_refusal:
  assumes "128 \<le> FrameBytes (es_config s)" "cursor_ok (es_catalog s) (es_cursor s)"
    and rnd: "random_in_range intn" "\<And>sd. factory sd \<noteq> None"
  shows "emu_no_refusal (emu_report intn factory s)"
proof -
  obtain x cur where x: "cursor_Next intn factory (es_catalog s) (es_cursor s) = (Inr x, cur)"
    "case x of None \<Rightarrow> True | Some ts \<Rightarrow> list_all tag_valid ts"
    by (rule cursor_Next_ok [OF assms(2) rnd])
  show ?thesis
  proof (cases x)
    case None
    then show ?thesis using x by (simp add: emu_report_def) (simp add: emu_loop_def emu_no_refusal_def emu_goto_def)
  next
    case (Some ts)
    then have "list_all tag_valid ts" using x(2) by simp
    then have "writeCycle ts (FrameBytes (es_config s)) emit_log [] = (None :: unit cycle_error option, cycle_bodies (es_config s) ts)"
      using cycle_bodies_groups [OF _ assms(1)] by metis
    moreover have "emu_no_refusal (send_bodies bs None t)" for bs t
      by (cases bs) (auto simp: emu_no_refusal_def emu_loop_def emu_write_def emu_step_defs)
    ultimately show ?thesis using x Some by (simp add: emu_report_def)
  qed
qed

text \<open>What the emulator takes is the request or the acknowledgement it waits for.\<close>

lemma prefix_map_nth:
  assumes "prefix (a @ m # ms) (map f ks)"
  shows "length a < length ks \<and> m = f (ks ! length a)"
proof -
  obtain zs where eq: "map f ks = a @ m # ms @ zs" using assms by (auto simp: prefix_def)
  from arg_cong [OF eq, of length] have "length a < length ks" by simp
  with arg_cong [OF eq, of "\<lambda>xs. xs ! length a"] show ?thesis by simp
qed

lemma ack_expected:
  assumes inv: "link_inv k" and serving: "es_place (lk_emu k) = EmuServing"
    and up: "h_sent (lk_reader k) = a @ m # ms" "es_read (lk_emu k) = map wire_form a"
  obtains d where "es_pending (lk_emu k) = Some (keepalive_id (es_acked (lk_emu k)), d)"
    "m = KeepaliveAckMessage (keepalive_id (es_acked (lk_emu k)))"
proof -
  let ?r = "lk_reader k" and ?e = "lk_emu k"
  let ?n = "es_acked ?e"
  have e: "length a = Suc ?n" "filter is_keepalive (es_sent ?e) = keepalives (?n + outstanding ?e)"
    "\<forall>i d. es_pending ?e = Some (i, d) \<longrightarrow> i = keepalive_id ?n"
    using inv serving up(2) by (auto simp: link_inv_def emu_inv_def emu_place_inv_def served_def keeps_alive_def dest: arg_cong [of _ _ length])
  obtain t rest where sent: "es_sent ?e = ReaderEventNotificationMessage 1 t # rest"
    using inv serving by (auto simp: link_inv_def emu_inv_def emu_place_inv_def served_def in_order_def)
  let ?ks = "filter is_keepalive (drop 1 (h_conn ?r))"
  have "prefix (h_conn ?r) (map wire_form (es_sent ?e))"
    using inv by (auto simp: link_inv_def flows_def intro: prefixI [OF sym])
  then have "prefix (drop 1 (h_conn ?r)) (map wire_form rest)"
    by (cases "h_conn ?r") (simp_all add: sent)
  then have "prefix ?ks (filter is_keepalive (map wire_form rest))" by (auto simp: prefix_def)
  then have ks: "prefix ?ks (map wire_form (keepalives (?n + outstanding ?e)))"
    using e(2) by (simp add: sent is_keepalive_wire)
  have "prefix (a @ m # ms) (SetReaderConfigMessage (InitialMessageID (ss_config ?r)) #
      map (\<lambda>m. KeepaliveAckMessage (h_id (m_header m))) ?ks)"
    using inv up(1) by (simp add: link_inv_def reader_ok_def reader_sent_ok_def answers_def)
  then have "prefix (tl a @ m # ms) (map (\<lambda>m. KeepaliveAckMessage (h_id (m_header m))) ?ks)" "length (tl a) = ?n"
    using e(1) by (cases a; simp)+
  then have m: "?n < length ?ks" "m = KeepaliveAckMessage (h_id (m_header (?ks ! ?n)))"
    using prefix_map_nth by fastforce+
  have "length ?ks \<le> ?n + outstanding ?e" using prefix_length_le [OF ks] by (simp add: keepalives_def)
  then have "outstanding ?e = 1" using m(1) by (simp add: outstanding_def split: if_splits)
  then obtain i d where p: "es_pending ?e = Some (i, d)" by (auto simp: outstanding_def split: if_splits)
  have "?ks ! ?n = map wire_form (keepalives (?n + outstanding ?e)) ! ?n"
    using ks m(1) by (auto simp: prefix_def nth_append)
  also have "\<dots> = wire_form (KeepaliveMessage (keepalive_id ?n))"
    using \<open>outstanding ?e = 1\<close> by (simp add: keepalives_def nth_append)
  finally have "h_id (m_header (?ks ! ?n)) = keepalive_id ?n" by (simp add: typed_message_defs)
  then show thesis using that p m(2) e(3) by simp
qed

lemma emu_reads_cases:
  assumes "emu_step intn factory a s = Some s'" "a = EmuRead (Inr m) time \<or> a = EmuAckDue (Some (Inr m, time))"
  obtains "es_place s = AwaitConfig" "s' = got_config m s" | "es_place s = EmuServing" "s' = emu_handle (Inr m) time s"
  using assms by (auto simp: emu_step_def split: emu_place.splits option.splits)

lemma link_emu_reads:
  assumes inv: "link_inv k" and up: "lk_up k = m # rest" and a: "a = EmuRead (Inr m) time \<or> a = EmuAckDue (Some (Inr m, time))"
    and step: "emu_step intn factory a (lk_emu k) = Some e'"
    and rnd: "random_in_range intn" "\<And>sd. factory sd \<noteq> None"
  shows "link_inv (k\<lparr>lk_emu := e', lk_up := rest\<rparr>)"
proof -
  let ?r = "lk_reader k" and ?e = "lk_emu k"
  obtain b m0 ms where b: "h_sent ?r = b @ m0 # ms" "es_read ?e = map wire_form b" "m = wire_form m0"
    using inv up by (auto simp: link_inv_def flows_def map_eq_append_conv dest!: sym [of "_ @ _"])
  have e: "emu_inv ?e" "settings_agree (ss_config ?r) (es_config ?e)" using inv by (simp_all add: link_inv_def)
  have fr: "es_config e' = es_config ?e \<and> es_read e' = es_read ?e @ [m] \<and> es_sent e' = es_sent ?e"
    by (cases rule: emu_reads_cases [OF step a]; simp add: emu_frame_read)
  from emu_reads_cases [OF step a] have "emu_no_refusal e'"
  proof cases
    case 1
    then have "b = []" using e(1) b(2) by (simp add: emu_inv_defs)
    then have m0: "m0 = SetReaderConfigMessage (InitialMessageID (ss_config ?r))"
      using inv b(1) by (simp add: link_inv_def reader_ok_def reader_sent_ok_def answers_def)
    have "FrameBytes (es_config ?e) \<noteq> 0" "128 \<le> FrameBytes (es_config ?e)" using e(1) by (auto simp: emu_inv_def)
    then have "requestedKeepalive m0 (es_config ?e) = Inr (10 * second)"
      unfolding m0 using e(2)
      by (intro requestedKeepalive_reader) (simp_all add: settings_agree_def emulator_limits_def normalized_fields)
    then show ?thesis using 1 b(3) by (auto simp: got_config_def Let_def intro!: emu_no_refusal_parts(3))
  next
    case 2
    obtain d where d: "es_pending ?e = Some (keepalive_id (es_acked ?e), d)" "m0 = KeepaliveAckMessage (keepalive_id (es_acked ?e))"
      using ack_expected [OF inv 2(1) b(1,2)] by metis
    then have "h_type (m_header m) = KeepaliveAckHeader" "m_payload m = []" "h_id (m_header m) = keepalive_id (es_acked ?e)"
      using b(3) by (simp_all add: typed_message_defs)
    then show ?thesis using 2 d(1)
      by (simp add: emu_handle_def emu_loop_def emu_no_refusal_def emu_step_defs Let_def)
  qed
  moreover have "emu_inv e'"
    by (rule emu_step_inv [OF e(1) step _ rnd]) (use a in \<open>auto simp: emu_input_ok_def\<close>)
  ultimately show ?thesis using inv fr up by (simp add: link_inv_def flows_def undialed_ok_def)
qed

lemma link_emu_writes:
  assumes inv: "link_inv k" and out: "emu_output (lk_emu k) = Some m"
    and step: "emu_step intn factory (EmuWrote None now) (lk_emu k) = Some e'"
    and rnd: "random_in_range intn" "\<And>sd. factory sd \<noteq> None"
  shows "link_inv (k\<lparr>lk_emu := e', lk_down := lk_down k @ [wire_form m]\<rparr>)"
proof -
  let ?e = "lk_emu k"
  have e: "emu_inv ?e" using inv by (simp add: link_inv_def)
  have fr: "es_config e' = es_config ?e" "es_read e' = es_read ?e" "es_sent e' = es_sent ?e @ [m]"
    using step out
    by (auto simp: emu_step_def emu_output_def emu_frame emu_frame_bodies emu_frame_report
        split: emu_place.splits list.splits)
  have "emu_no_refusal e'"
  proof (cases "\<exists>i. es_place ?e = SendConfigResponse i")
    case True
    then obtain i where i: "es_place ?e = SendConfigResponse i" by blast
    have "emu_no_refusal (emu_report intn factory (emu_wrote (SetReaderConfigResponseMessage i) ?e))"
      by (rule emu_report_no_refusal [OF _ _ rnd]) (use e in \<open>auto simp: emu_inv_def emu_wrote_def\<close>)
    then show ?thesis using step i by (simp add: emu_step_def)
  next
    case False
    have "err = None" if "es_place ?e = SendReport bs err" for bs err using e that by (simp add: emu_inv_defs)
    moreover have "emu_no_refusal (emu_goto AwaitConfig s)" for s :: "'a emu_session"
      by (simp add: emu_no_refusal_def emu_goto_def)
    ultimately show ?thesis using step False
      by (auto simp: emu_step_def split: emu_place.splits list.splits intro: emu_no_refusal_parts)
  qed
  moreover have "emu_inv e'"
    by (rule emu_step_inv [OF e step _ rnd]) (simp add: emu_input_ok_def)
  ultimately show ?thesis using inv fr by (simp add: link_inv_def flows_def undialed_ok_def)
qed

lemma link_emu_moves:
  assumes inv: "link_inv k" and a: "emu_quiet a" "emu_input_ok (lk_emu k) a" and step: "emu_step intn factory a (lk_emu k) = Some e'"
    and rnd: "random_in_range intn" "\<And>sd. factory sd \<noteq> None"
  shows "link_inv (k\<lparr>lk_emu := e'\<rparr>)"
proof -
  let ?e = "lk_emu k"
  have e: "emu_inv ?e" "emu_no_refusal ?e" using inv by (simp_all add: link_inv_def)
  have fr: "es_config e' = es_config ?e" "es_read e' = es_read ?e" "es_sent e' = es_sent ?e"
    using step a(1)
    by (auto simp: emu_step_def emu_quiet_def emu_frame emu_frame_report emu_handle_def
        split: emu_answer.splits emu_place.splits option.splits sum.splits list.splits if_splits)
  have "emu_no_refusal e'"
  proof (cases "a = EmuReportDue")
    case True
    have "emu_no_refusal (emu_report intn factory ?e)"
      by (rule emu_report_no_refusal [OF _ _ rnd]) (use e in \<open>auto simp: emu_inv_def\<close>)
    then show ?thesis using step True by (auto simp: emu_step_def split: emu_place.splits)
  next
    case False
    then show ?thesis using step a(1) e(2)
      by (auto simp: emu_step_def emu_quiet_def emu_handle_def emu_write_def emu_step_defs emu_no_refusal_def
        split: emu_answer.splits emu_place.splits option.splits sum.splits list.splits if_splits)
  qed
  moreover have "emu_inv e'" by (rule emu_step_inv [OF e(1) step a(2) rnd])
  ultimately show ?thesis using inv fr by (simp add: link_inv_def flows_def undialed_ok_def)
qed

lemma link_dials:
  assumes inv: "link_inv k" and new: "\<not> lk_dialed k" and step: "session_step (Dialed None) (lk_reader k) = Some r'"
  shows "link_inv (k\<lparr>lk_reader := r', lk_dialed := True\<rparr>)"
proof -
  let ?r = "lk_reader k"
  have s: "session_inv ?r" "no_refusal ?r" "h_conn ?r = []" "h_sent ?r = []"
    using inv new by (simp_all add: link_inv_def reader_ok_def undialed_ok_def)
  have fr: "ss_config r' = ss_config ?r \<and> h_conn r' = [] \<and> h_sent r' = [] \<and> h_decoded r' = h_decoded ?r \<and> no_refusal r'"
    using step s(2) by (auto simp: session_step_def no_refusal_def step_defs split: place.splits)
  then show ?thesis using inv session_step_inv [OF s(1) step] s(3,4)
    by (simp add: link_inv_def reader_ok_def reader_sent_ok_def decoded_ok_def flows_def undialed_ok_def)
qed

lemma link_start_inv:
  assumes "NewSession port rc = Some r" "settings_agree rc ec" "scenario_ok (cat_scenario cat)" "cat_revision cat \<noteq> 0"
  shows "link_inv (link_start r ec cat v)"
proof -
  have r: "h_conn r = []" "h_sent r = []" "h_decoded r = []" "ss_place r = NotRun" "ss_config r = rc" "LastError (ss_status r) = None"
    using assms(1) by (auto simp: NewSession_def split: if_splits)
  have "session_inv r" by (rule session_reachable_inv [OF session_reachable.new [OF assms(1)]])
  moreover have "emu_inv (emu_connection ec cat v)"
    using emu_connection_inv settings_sizes(4) [OF assms(2)] assms(3,4) by blast
  ultimately show ?thesis using r assms(2)
    by (simp add: link_inv_def link_start_def reader_ok_def reader_sent_ok_def no_refusal_def decoded_ok_def emu_no_refusal_def
        flows_def undialed_ok_def) (simp add: emu_connection_def)
qed

text \<open>What is in flight fits the frame of its sender, so what is read of it is what was written.\<close>

lemma played_fit:
  assumes "emu_inv s" "b \<in> set (played_bodies s)"
  shows "MessageHeaderSize + length b \<le> unat (FrameBytes (es_config s))"
proof -
  have frame: "128 \<le> FrameBytes (es_config s)" using assms(1) by (simp add: emu_inv_def)
  obtain ts where ts: "ts \<in> set (es_played s)" "b \<in> set (cycle_bodies (es_config s) ts)"
    using assms(2) by (auto simp: played_bodies_def)
  have "list_all tag_valid ts" using assms(1) ts(1) by (simp add: emu_inv_def list_all_iff)
  then obtain groups where "cycle_bodies (es_config s) ts = map cycle_body groups"
    "\<forall>g \<in> set groups. group_ok (unat (FrameBytes (es_config s))) g"
    using cycle_bodies_groups [OF _ frame] by metis
  then show ?thesis using ts(2) by (auto simp: group_ok_def)
qed

lemma emu_frame_size: "emu_inv s \<Longrightarrow> 128 \<le> unat (FrameBytes (es_config s)) \<and> unat (FrameBytes (es_config s)) < 2 ^ 32"
  using unsigned_less [of "FrameBytes (es_config s)", where ?'a = nat] by (simp add: emu_inv_def word_le_nat_alt)

lemma emu_sent_fits:
  assumes "emu_inv s" "m \<in> set (es_sent s)"
  shows "fits (unat (FrameBytes (es_config s))) m"
proof -
  have size: "128 \<le> unat (FrameBytes (es_config s))" using emu_frame_size [OF assms(1)] by simp
  have "(\<exists>t. m = ReaderEventNotificationMessage 1 t) \<or> (\<exists>i. m = SetReaderConfigResponseMessage i) \<or> traffic m"
    using emu_inv_shape(1) [OF assms(1)] assms(2) by (auto simp: in_order_def list_all_iff)
  then show ?thesis
  proof (elim disjE exE)
    assume "traffic m"
    then consider i where "m = KeepaliveMessage i" | b i where "m = ROAccessReportMessage b i" by (auto simp: traffic_def)
    then show ?thesis
    proof cases
      case 2
      then have "b \<in> set (sent_bodies (es_sent s))"
        using assms(2) by (force simp: sent_bodies_def is_report_def typed_message_defs)
      then have "b \<in> set (played_bodies s)" using emu_inv_shape(2) [OF assms(1)] set_mono_prefix by blast
      then show ?thesis using played_fit [OF assms(1)] by (simp add: 2 fits_short(6))
    qed (simp add: fits_short size)
  qed (simp_all add: fits_short size)
qed


lemma reader_sent_fits: "reader_sent_ok s \<Longrightarrow> m \<in> set (h_sent s) \<Longrightarrow> fits 128 m"
proof -
  assume "reader_sent_ok s" "m \<in> set (h_sent s)"
  then have "m \<in> set (answers (ss_config s) (h_conn s))" unfolding reader_sent_ok_def using set_mono_prefix by blast
  then show ?thesis by (auto simp: answers_def fits_short)
qed


lemma in_transit:
  assumes "done @ m # rest = map f ms"
  obtains x where "m = f x" "x \<in> set ms"
proof -
  have "m \<in> f ` set ms" using arg_cong [OF assms, of set] by auto
  then show thesis using that by blast
qed

lemma link_delivers:
  assumes "link_inv k"
  shows "lk_down k = m # rest \<Longrightarrow> \<exists>m0. m = wire_form m0 \<and> fits (unat (FrameBytes (es_config (lk_emu k)))) m0"
    "lk_up k = m # rest \<Longrightarrow> \<exists>m0. m = wire_form m0 \<and> fits 128 m0"
proof -
  have i: "emu_inv (lk_emu k)" "reader_sent_ok (lk_reader k)" "flows k" using assms by (simp_all add: link_inv_def reader_ok_def)
  show "\<exists>m0. m = wire_form m0 \<and> fits (unat (FrameBytes (es_config (lk_emu k)))) m0" if "lk_down k = m # rest"
    using in_transit [of "h_conn (lk_reader k)" m rest wire_form "es_sent (lk_emu k)"] i(3) that emu_sent_fits [OF i(1)]
    by (metis flows_def)
  show "\<exists>m0. m = wire_form m0 \<and> fits 128 m0" if "lk_up k = m # rest"
    using in_transit [of "es_read (lk_emu k)" m rest wire_form "h_sent (lk_reader k)"] i(3) that reader_sent_fits [OF i(2)]
    by (metis flows_def)
qed

lemma link_arrives:
  assumes "link_inv k"
  shows "lk_down k = m # rest \<Longrightarrow> arrived m l = Inr m' \<Longrightarrow> m' = m" "lk_up k = m # rest \<Longrightarrow> arrived m l = Inr m' \<Longrightarrow> m' = m"
  using link_delivers [OF assms, of m rest] emu_frame_size [of "lk_emu k"] assms
  by (auto simp: link_inv_def dest: fits_arrives(1))

lemma link_reachable_inv:
  assumes "link_reachable intn factory k" "random_in_range intn" "\<And>sd. factory sd \<noteq> None"
  shows "link_inv k"
  using assms(1)
proof (induction rule: link_reachable.induct)
  case (start port rc r ec cat v)
  then show ?case by (rule link_start_inv)
next
  case (step k k')
  from step.hyps(2) step.IH show ?case
  proof (induction rule: link_step.induct)
    case (reader_reads k m rest m' now r)
    then show ?case using link_arrives(1) [of k m rest] link_reader_reads [of k m rest now r] by metis
  next
    case (reader_refuses k m rest x now r)
    then show ?case using link_reader_moves [of k "Read (Inl x) now" r] by (simp add: reader_quiet_def)
  next
    case (reader_cannot_write k m x r)
    then show ?case using link_reader_moves [of k "Wrote (Some x)" r] by (simp add: reader_quiet_def)
  next
    case (reader_moves a k r)
    then show ?case using link_reader_moves [of k a r] by (simp add: reader_local_def)
  next
    case (emu_reads k m rest m' a time e)
    then have "m' = m" using link_arrives(2) [of k m rest] by metis
    then show ?case using emu_reads link_emu_reads [of k m rest a time intn factory e] assms(2,3) by blast
  next
    case (emu_refuses k m rest x a time e)
    then have "emu_quiet a" "emu_input_ok (lk_emu k) a" by (auto simp: emu_quiet_def emu_input_ok_def)
    then show ?case using emu_refuses link_emu_moves [of k a intn factory e] assms(2,3) by blast
  next
    case (emu_writes k m now e)
    then show ?case using link_emu_writes [of k m intn factory now e] assms(2,3) by blast
  next
    case (emu_cannot_write k m x now e)
    then show ?case using link_emu_moves [of k "EmuWrote (Some x) now" intn factory e] assms(2,3)
      by (simp add: emu_quiet_def emu_input_ok_def)
  next
    case (emu_moves a k e)
    then show ?case using link_emu_moves [of k a intn factory e] assms(2,3) by (simp add: emu_local_def)
  qed (blast intro: link_dials link_reader_writes)+
qed

text \<open>No end ever sees an error of the frame codec, if the reader takes frames as long as the emulator makes.\<close>

fun session_codec :: "session_error \<Rightarrow> bool" where
  "session_codec (IOFailed e) = codec_error e"
| "session_codec (RetryExhausted e) = session_codec e"
| "session_codec _ = False"



definition error_clean :: "session \<Rightarrow> bool" where
  "error_clean s \<longleftrightarrow> (case LastError (ss_status s) of Some e \<Rightarrow> \<not> session_codec e | None \<Rightarrow> True)"

lemma error_clean_simps [simp]:
  "error_clean (received m s) = error_clean s" "error_clean (sent m s) = error_clean s" "error_clean (acked s) = error_clean s"
  "error_clean (transition st s) = error_clean s" "error_clean (goto p s) = error_clean s"
  "error_clean (s\<lparr>h_conn := cs, h_sent := ss\<rparr>) = error_clean s" "error_clean (s\<lparr>h_decoded := h\<rparr>) = error_clean s"
  "error_clean (s\<lparr>ss_attempt := i\<rparr>) = error_clean s" "error_clean (s\<lparr>ss_cancelled := b\<rparr>) = error_clean s"
  "error_clean (s\<lparr>h_out := h\<rparr>) = error_clean s" "error_clean (update (\<lambda>v. v\<lparr>Reports := Reports v + 1\<rparr>) s) = error_clean s"
  "error_clean (update (\<lambda>v. v\<lparr>Observations := Observations v + 1\<rparr>) s) = error_clean s"
  "error_clean (update (\<lambda>v. v\<lparr>QueueOverflows := QueueOverflows v + 1\<rparr>) s) = error_clean s"
  "error_clean (update (\<lambda>v. v\<lparr>LastError := None\<rparr>) s)"
  by (simp_all add: error_clean_def step_defs)















lemma session_inv_handed:
  assumes "session_inv s"
  shows "prefix (h_out s) (h_decoded s)" "ss_place s = Reading \<Longrightarrow> h_decoded s = h_out s"
proof -
  have "\<exists>rest. h_decoded s = h_out s @ rest"
    using assms by (cases "ss_place s") (auto simp: session_inv_def place_inv_def all_out_def ended_def Let_def)
  then show "prefix (h_out s) (h_decoded s)" by (auto simp: prefix_def)
  show "ss_place s = Reading \<Longrightarrow> h_decoded s = h_out s"
    using assms by (simp add: session_inv_def place_inv_def all_out_def Let_def)
qed

lemma link_tags:
  assumes "link_inv k"
  shows "prefix (map obs_tag (h_out (lk_reader k))) (concat (es_played (lk_emu k)))"
    "ss_place (lk_reader k) = Reading \<Longrightarrow> es_place (lk_emu k) = EmuServing \<Longrightarrow> lk_down k = [] \<Longrightarrow>
       map obs_tag (h_out (lk_reader k)) = concat (es_played (lk_emu k))"
proof -
  let ?r = "lk_reader k" and ?e = "lk_emu k"
  let ?tags = "\<lambda>bodies. concat (map (body_tags (ss_config ?r)) bodies)"
  have i: "session_inv ?r" "emu_inv ?e" "settings_agree (ss_config ?r) (es_config ?e)" "flows k"
    "map obs_tag (h_decoded ?r) = ?tags (sent_bodies (h_conn ?r))"
    using assms by (simp_all add: link_inv_def reader_ok_def decoded_ok_def)
  have played: "?tags (played_bodies ?e) = concat (es_played ?e)"
    by (rule played_decodes(2) [OF i(2,3), of 1]) simp
  have conn: "map wire_form (es_sent ?e) = h_conn ?r @ lk_down k" using i(4) by (simp add: flows_def)
  have "sent_bodies (es_sent ?e) = sent_bodies (h_conn ?r) @ sent_bodies (lk_down k)"
    using arg_cong [OF conn, of sent_bodies] by simp
  then have "prefix (sent_bodies (h_conn ?r)) (played_bodies ?e)"
    using emu_inv_shape(2) [OF i(2)] by (auto simp: prefix_def)
  then have "prefix (?tags (sent_bodies (h_conn ?r))) (concat (es_played ?e))"
    by (auto simp: prefix_def simp flip: played)
  moreover have "prefix (map obs_tag (h_out ?r)) (?tags (sent_bodies (h_conn ?r)))"
    using session_inv_handed(1) [OF i(1)] by (auto simp: prefix_def simp flip: i(5))
  ultimately show "prefix (map obs_tag (h_out ?r)) (concat (es_played ?e))" by (rule prefix_order.trans [rotated])
  assume end': "ss_place ?r = Reading" "es_place ?e = EmuServing" "lk_down k = []"
  have "sent_bodies (h_conn ?r) = played_bodies ?e"
    using arg_cong [OF conn, of sent_bodies] end' i(2) by (simp add: emu_inv_defs)
  then show "map obs_tag (h_out ?r) = concat (es_played ?e)"
    using i(5) session_inv_handed(2) [OF i(1) end'(1)] played by simp
qed

section \<open>Runs\<close>

text \<open>The steps of a link as a function of what moves.\<close>

datatype link_move =
    Dial
  | ReaderReads instant
  | ReaderWrites
  | ReaderMoves answer
  | EmuReads int
  | EmuWrites int
  | EmuMoves emu_answer

definition input_ok :: "'r emu_session \<Rightarrow> emu_answer \<Rightarrow> bool" where
  "input_ok s a \<longleftrightarrow> (case a of EmuPublished sc \<Rightarrow> False | _ \<Rightarrow> emu_local a)"

definition link_do ::
  "('r \<Rightarrow> int \<Rightarrow> int \<times> 'r) \<Rightarrow> (int \<Rightarrow> 'r option) \<Rightarrow> link_move \<Rightarrow> 'r link \<Rightarrow> 'r link option" where
  "link_do intn factory mv k =
     (case mv of
        Dial \<Rightarrow> if lk_dialed k then None
          else map_option (\<lambda>r. k\<lparr>lk_reader := r, lk_dialed := True\<rparr>) (session_step (Dialed None) (lk_reader k))
      | ReaderReads now \<Rightarrow>
          (case lk_down k of
             [] \<Rightarrow> None
           | m # rest \<Rightarrow>
               (case arrived m (reader_limits k) of
                  Inl x \<Rightarrow> map_option (\<lambda>r. k\<lparr>lk_reader := r\<rparr>) (session_step (Read (Inl x) now) (lk_reader k))
                | Inr m' \<Rightarrow> if now = 0 then None
                    else map_option (\<lambda>r. k\<lparr>lk_reader := r, lk_down := rest\<rparr>) (session_step (Read (Inr m') now) (lk_reader k))))
      | ReaderWrites \<Rightarrow>
          (case reader_output (lk_reader k) of
             None \<Rightarrow> None
           | Some m \<Rightarrow>
               (case departs m (reader_limits k) of
                  Some x \<Rightarrow> map_option (\<lambda>r. k\<lparr>lk_reader := r\<rparr>) (session_step (Wrote (Some x)) (lk_reader k))
                | None \<Rightarrow> map_option (\<lambda>r. k\<lparr>lk_reader := r, lk_up := lk_up k @ [wire_form m]\<rparr>)
                    (session_step (Wrote None) (lk_reader k))))
      | ReaderMoves a \<Rightarrow> if reader_local a then map_option (\<lambda>r. k\<lparr>lk_reader := r\<rparr>) (session_step a (lk_reader k)) else None
      | EmuReads time \<Rightarrow>
          (case lk_up k of
             [] \<Rightarrow> None
           | m # rest \<Rightarrow>
               (case arrived m (emu_limits k) of
                  Inl x \<Rightarrow> map_option (\<lambda>e. k\<lparr>lk_emu := e\<rparr>) (emu_step intn factory (EmuRead (Inl x) time) (lk_emu k))
                | Inr m' \<Rightarrow> map_option (\<lambda>e. k\<lparr>lk_emu := e, lk_up := rest\<rparr>)
                    (emu_step intn factory (EmuRead (Inr m') time) (lk_emu k))))
      | EmuWrites now \<Rightarrow>
          (case emu_output (lk_emu k) of
             None \<Rightarrow> None
           | Some m \<Rightarrow>
               (case departs m (emu_limits k) of
                  Some x \<Rightarrow> map_option (\<lambda>e. k\<lparr>lk_emu := e\<rparr>) (emu_step intn factory (EmuWrote (Some x) now) (lk_emu k))
                | None \<Rightarrow> map_option (\<lambda>e. k\<lparr>lk_emu := e, lk_down := lk_down k @ [wire_form m]\<rparr>)
                    (emu_step intn factory (EmuWrote None now) (lk_emu k))))
      | EmuMoves a \<Rightarrow> if input_ok (lk_emu k) a then map_option (\<lambda>e. k\<lparr>lk_emu := e\<rparr>) (emu_step intn factory a (lk_emu k)) else None)"

fun link_run ::
  "('r \<Rightarrow> int \<Rightarrow> int \<times> 'r) \<Rightarrow> (int \<Rightarrow> 'r option) \<Rightarrow> link_move list \<Rightarrow> 'r link \<Rightarrow> 'r link option" where
  "link_run intn factory [] k = Some k"
| "link_run intn factory (mv # mvs) k =
     (case link_do intn factory mv k of None \<Rightarrow> None | Some k' \<Rightarrow> link_run intn factory mvs k')"

lemma link_do_step: "link_do intn factory mv k = Some k' \<Longrightarrow> link_step intn factory k k'"
  by (cases mv)
    (auto simp: link_do_def input_ok_def emu_input_ok_def split: if_splits list.splits option.splits sum.splits emu_answer.splits
      intro: link_step.intros)

lemma link_run_reachable:
  "link_run intn factory mvs k = Some k' \<Longrightarrow> link_reachable intn factory k \<Longrightarrow> link_reachable intn factory k'"
proof (induction mvs arbitrary: k)
  case (Cons mv mvs)
  then show ?case by (auto split: option.splits) (blast intro: link_reachable.step link_do_step)
qed simp

text \<open>A connection from the dial to the first acknowledged keepalive, with two tags in its first cycle.\<close>

definition pair_scenario :: scenario where
  "pair_scenario = \<lparr>cycles = [[Tag [171, 205], Tag [171, 206]]], seed = 5, repeat = True, shuffle = False\<rparr>"

definition zero_status :: emu_status where
  "zero_status = \<lparr>em_Running = True, em_Clients = 1, em_Accepted = 1, em_Rejected = 0, em_Failures = 0, em_Cycles = 0,
      em_Reports = 0, em_Keepalives = 0\<rparr>"

definition pair_start :: "int link" where
  "pair_start = link_start example_new emulator_DefaultConfig (newCatalog pair_scenario) zero_status"

definition pair_moves :: "link_move list" where
  "pair_moves = [ReaderMoves Begin, Dial, EmuMoves (EmuBegin 0), EmuWrites 0, ReaderReads 1, ReaderWrites, EmuReads 0,
     EmuWrites 0, EmuWrites 0, ReaderReads 1, EmuMoves EmuKeepaliveDue, EmuWrites 10, ReaderReads 1,
     ReaderMoves (Taken True), ReaderMoves (Taken True), ReaderReads 1, ReaderWrites, EmuReads 11]"

definition zero_random :: "int \<Rightarrow> int \<Rightarrow> int \<times> int" where
  "zero_random r n = (0, r)"

definition pair_end :: "int link" where
  "pair_end = the (link_run zero_random Some pair_moves pair_start)"

lemma pair_typed:
  "h_type (m_header (SetReaderConfigResponseMessage i)) = SetReaderConfigResponseHeader"
  "h_type (m_header (KeepaliveMessage i)) = KeepaliveHeader" "m_payload (KeepaliveMessage i) = []" "h_id (m_header (KeepaliveMessage i)) = i"
  "h_type (m_header (ROAccessReportMessage b i)) = ROAccessReportHeader" "m_payload (ROAccessReportMessage b i) = b"
  "h_type (m_header (KeepaliveAckMessage i)) = KeepaliveAckHeader" "m_payload (KeepaliveAckMessage i) = []" "h_id (m_header (KeepaliveAckMessage i)) = i"
  "h_id (m_header (SetReaderConfigMessage i)) = i"
  by (simp_all add: typed_message_defs)

lemma pair_request: "requestedKeepalive (SetReaderConfigMessage i) emulator_DefaultConfig = Inr (10 * second)"
  by (rule requestedKeepalive_reader) (simp_all add: emulator_DefaultConfig_def emulator_limits_def normalized_fields second_def)

lemma pair_cycle:
  "writeCycle [Tag [171, 205], Tag [171, 206]] (FrameBytes emulator_DefaultConfig) emit_log [] = (None :: unit cycle_error option, [example_body])"
  by (simp add: writeCycle_def NewTagReportDataParam_def EPCData_def c1G2PC_def put_u16_def Let_def emulator_DefaultConfig_def
      emit_log_def MessageHeaderSize_def example_body_def)

lemma pair_timeout: "AckTimeout emulator_DefaultConfig = 5000000000"
  by (simp add: emulator_DefaultConfig_def second_def)

lemmas pair_defs = pair_start_def link_start_def emu_connection_def link_do_def example_new_def reader_local_def reader_quiet_def input_ok_def emu_local_def emu_quiet_def
  session_step_def emu_step_def reader_output_def emu_output_def run_head_def step_defs emu_step_defs emu_write_def

lemma pair_passes:
  assumes "128 \<le> unat (maxFrameSize (normalized l))"
  shows "arrived (wire_form (ReaderEventNotificationMessage i t)) l = Inr (wire_form (ReaderEventNotificationMessage i t))"
    "arrived (wire_form (SetReaderConfigMessage i)) l = Inr (wire_form (SetReaderConfigMessage i))"
    "arrived (wire_form (SetReaderConfigResponseMessage i)) l = Inr (wire_form (SetReaderConfigResponseMessage i))"
    "arrived (wire_form (KeepaliveMessage i)) l = Inr (wire_form (KeepaliveMessage i))"
    "arrived (wire_form (KeepaliveAckMessage i)) l = Inr (wire_form (KeepaliveAckMessage i))"
    "arrived (wire_form (ROAccessReportMessage example_body i)) l = Inr (wire_form (ROAccessReportMessage example_body i))"
    "departs (ReaderEventNotificationMessage i t) l = None" "departs (SetReaderConfigMessage i) l = None"
    "departs (SetReaderConfigResponseMessage i) l = None" "departs (KeepaliveMessage i) l = None"
    "departs (KeepaliveAckMessage i) l = None" "departs (ROAccessReportMessage example_body i) l = None"
proof -
  have body: "fits 128 (ROAccessReportMessage example_body i)"
    by (simp add: fits_short example_body_def MessageHeaderSize_def)
  note fit = fits_short(1-5) [OF order_refl] body
  note fits_arrives(2) [OF _ _ assms, simp] fits_sendable [OF _ assms, simp]
  show "arrived (wire_form (ReaderEventNotificationMessage i t)) l = Inr (wire_form (ReaderEventNotificationMessage i t))"
    "arrived (wire_form (SetReaderConfigMessage i)) l = Inr (wire_form (SetReaderConfigMessage i))"
    "arrived (wire_form (SetReaderConfigResponseMessage i)) l = Inr (wire_form (SetReaderConfigResponseMessage i))"
    "arrived (wire_form (KeepaliveMessage i)) l = Inr (wire_form (KeepaliveMessage i))"
    "arrived (wire_form (KeepaliveAckMessage i)) l = Inr (wire_form (KeepaliveAckMessage i))"
    "arrived (wire_form (ROAccessReportMessage example_body i)) l = Inr (wire_form (ROAccessReportMessage example_body i))"
    "departs (ReaderEventNotificationMessage i t) l = None" "departs (SetReaderConfigMessage i) l = None"
    "departs (SetReaderConfigResponseMessage i) l = None" "departs (KeepaliveMessage i) l = None"
    "departs (KeepaliveAckMessage i) l = None" "departs (ROAccessReportMessage example_body i) l = None"
    using fit by (simp_all add: departs_None)
qed

lemma pair_limits:
  "128 \<le> unat (maxFrameSize (normalized DefaultLimits))" "128 \<le> unat (maxFrameSize (normalized (emulator_limits emulator_DefaultConfig)))"
  by (simp_all add: normalized_fields emulator_limits_def emulator_DefaultConfig_def)

lemma pair_end_run:
  "link_run zero_random Some pair_moves pair_start = Some pair_end \<and>
   ss_place (lk_reader pair_end) = Reading \<and> es_place (lk_emu pair_end) = EmuServing \<and> lk_down pair_end = [] \<and>
   es_played (lk_emu pair_end) = cycles pair_scenario \<and>
   ss_config (lk_reader pair_end) = ss_config example_new \<and> es_config (lk_emu pair_end) = emulator_DefaultConfig \<and>
   es_read (lk_emu pair_end) = [wire_form (SetReaderConfigMessage 1000), wire_form (KeepaliveAckMessage 0x80000000)]"
  by (simp add: pair_end_def pair_moves_def pair_defs pair_timeout example_defs example_handshake got_notification_def got_response_def got_config_def pair_typed
      pair_request emu_report_def cursor_Next_def new_cursor_def newCatalog_def pair_scenario_def pair_cycle emu_loop_def serve_head_def
      got_message_def header_types example_decodes hand_over_def emu_handle_def Let_def header_defs example_tags_def
      reader_limits_def emu_limits_def pair_passes pair_limits)


lemma pair_reachable: "link_reachable zero_random Some pair_end"
proof -
  have "link_reachable zero_random Some pair_start"
    unfolding pair_start_def
    by (rule link_reachable.start [OF example_new_eq])
      (simp_all add: settings_agree_def example_defs emulator_DefaultConfig_def normalized_fields scenario_ok_def newCatalog_def
        pair_scenario_def tag_valid_def)
  then show ?thesis using pair_end_run link_run_reachable by blast
qed

lemma zero_random_ok: "random_in_range zero_random"
  by (simp add: random_in_range_def zero_random_def)

section \<open>Properties\<close>



text \<open>
  C4. The tags cross the link whole: at every moment what the reader has handed to its queue is a
  prefix of the tags of the cycles the emulator has played, in their order and without a gap,
  and when the reader waits for the next message, the emulator is idle and nothing is in flight, it
  is all of them.
\<close>

theorem tags_cross_the_link:
  assumes "link_reachable intn factory k" "random_in_range intn" "\<And>sd. factory sd \<noteq> None"
  shows "(\<exists>rest. map obs_tag (h_out (lk_reader k)) @ rest = concat (es_played (lk_emu k))) \<and>
    (ss_place (lk_reader k) = Reading \<and> es_place (lk_emu k) = EmuServing \<and> lk_down k = [] \<longrightarrow>
       map obs_tag (h_out (lk_reader k)) = concat (es_played (lk_emu k)))"
  using link_tags [OF link_reachable_inv [OF assms]] by (auto simp: prefix_def)

lemma tags_cross_the_link_witness:
  "map obs_tag (h_out (lk_reader pair_end)) = [Tag [171, 205], Tag [171, 206]]"
  using tags_cross_the_link [OF pair_reachable zero_random_ok] pair_end_run by (simp add: pair_scenario_def)

text \<open>
  Keepalives are answered one by one: a connection that serves has sent its keepalives with
  consecutive identifiers and has at most one of them unacknowledged, the one it is waiting for;
  everything else it sent after its greeting and its answer are the reports of the cycles it
  played, each within its frame.
\<close>

theorem keepalives_one_at_a_time:
  assumes "emu_reachable intn factory c s" "128 \<le> FrameBytes c" "random_in_range intn" "\<And>sd. factory sd \<noteq> None"
    and "es_place s = EmuServing"
  shows "\<exists>t m more rest. es_read s = m # more \<and> length more = es_acked s \<and>
    es_sent s = ReaderEventNotificationMessage 1 t # SetReaderConfigResponseMessage (h_id (m_header m)) # rest \<and>
    filter is_keepalive rest = map (\<lambda>j. KeepaliveMessage (0x80000000 + of_nat j)) [0..<es_acked s + (if es_pending s = None then 0 else 1)] \<and>
    (case es_pending s of None \<Rightarrow> True | Some (i, _) \<Rightarrow> i = 0x80000000 + of_nat (es_acked s)) \<and>
    map m_payload (filter (\<lambda>x. \<not> is_keepalive x) rest) = concat (map (cycle_bodies (es_config s)) (es_played s)) \<and>
    list_all (\<lambda>b. MessageHeaderSize + length b \<le> unat (FrameBytes (es_config s))) (concat (map (cycle_bodies (es_config s)) (es_played s)))"
proof -
  have inv: "emu_inv s" by (rule emu_reachable_inv [OF assms(1-4)])
  then have sv: "served s" "keeps_alive s" "sent_bodies (es_sent s) = played_bodies s" "list_all (list_all tag_valid) (es_played s)"
    "128 \<le> FrameBytes (es_config s)"
    using assms(5) by (simp_all add: emu_inv_def emu_place_inv_def)
  then obtain t m more rest where sh: "es_read s = m # more" "list_all traffic rest" "length more = es_acked s"
    "es_sent s = ReaderEventNotificationMessage 1 t # SetReaderConfigResponseMessage (h_id (m_header m)) # rest"
    by (auto simp: served_def in_order_def)
  have "filter (\<lambda>x. \<not> is_keepalive x) rest = filter is_report rest"
    using sh(2) by (induction rest) (auto simp: traffic_def is_report_def typed_message_defs is_keepalive_def header_defs)
  then have reports: "map m_payload (filter (\<lambda>x. \<not> is_keepalive x) rest) = concat (map (cycle_bodies (es_config s)) (es_played s))"
    using sv(3) sh(4) by (simp add: played_bodies_def sent_bodies_def is_report_def typed_message_defs header_defs)
  have "list_all (\<lambda>b. MessageHeaderSize + length b \<le> unat (FrameBytes (es_config s))) (cycle_bodies (es_config s) ts)"
    if "list_all tag_valid ts" for ts
    using cycle_bodies_groups [OF that sv(5)] by (metis (no_types, lifting) group_ok_def list_all_length list_all_iff in_set_conv_nth length_map nth_map)
  then have "list_all (\<lambda>b. MessageHeaderSize + length b \<le> unat (FrameBytes (es_config s))) (concat (map (cycle_bodies (es_config s)) (es_played s)))"
    using sv(4) by (auto simp: list_all_iff)
  then show ?thesis using sh reports sv(2)
    by (auto simp: keeps_alive_def keepalives_def keepalive_id_def outstanding_def split: option.split)
qed

lemma link_emu_reachable:
  "link_reachable intn factory k \<Longrightarrow> emu_reachable intn factory (es_config (lk_emu k)) (lk_emu k)"
proof (induction rule: link_reachable.induct)
  case (start port rc r ec cat v)
  then have "emu_reachable intn factory ec (emu_connection ec cat v)" by (intro emu_reachable.connect)
  then show ?case by (simp add: link_start_def emu_connection_def)
next
  case (step k k')
  have "emu_reachable intn factory (es_config e) e" if "emu_step intn factory a (lk_emu k) = Some e" "emu_input_ok (lk_emu k) a" for a e
    using emu_reachable.step [OF step.IH that] emu_config_step [OF that(1)] by simp
  with step.hyps(2) step.IH show ?case
    by (induction rule: link_step.induct) (auto simp: emu_input_ok_def)
qed

lemma keepalives_one_at_a_time_witness:
  "length (filter is_keepalive (es_sent (lk_emu pair_end))) \<le> Suc (es_acked (lk_emu pair_end)) \<and>
   (\<exists>t rest. es_sent (lk_emu pair_end) = ReaderEventNotificationMessage 1 t # SetReaderConfigResponseMessage 1000 # rest)"
proof -
  have "128 \<le> FrameBytes (es_config (lk_emu pair_end))" "es_place (lk_emu pair_end) = EmuServing"
    "es_read (lk_emu pair_end) = [wire_form (SetReaderConfigMessage 1000), wire_form (KeepaliveAckMessage 0x80000000)]"
    using link_reachable_inv [OF pair_reachable zero_random_ok] pair_end_run by (simp_all add: link_inv_def emu_inv_def)
  from keepalives_one_at_a_time [OF link_emu_reachable [OF pair_reachable] this(1) zero_random_ok _ this(2)] this(3)
  show ?thesis by (auto simp: pair_typed)
qed

end
