(* ===== verification/Filters.thy ===== *)
theory Filters
  imports Identity
begin

text \<open>
  Matching translated tags against subscriptions, from \<^verbatim>\<open>src/internal/filter\<close>: the validation
  every compiler shares and the reference rule (\<^verbatim>\<open>filter.go\<close>), and the linear matcher
  (\<^verbatim>\<open>linear.go\<close>). The locale \<open>matcher\<close> is the contract of \<^verbatim>\<open>Compile\<close> and \<^verbatim>\<open>Match\<close>; the index
  and the adaptive matcher, in theories of their own, meet it too.
\<close>

section \<open>Subscriptions and subjects\<close>

definition MaxSubscriptions :: nat where "MaxSubscriptions = 10000"
definition MaxPatternsPerSubscription :: nat where "MaxPatternsPerSubscription = 64"

datatype filter_error =
    ErrEmptyID | ErrDuplicateID | ErrNoPatterns | ErrZeroPattern
  | ErrTooManySubscriptions | ErrTooManyPatterns | ErrAdaptiveConfig

type_synonym ID = string

record subscription =
  sub_ID :: ID
  sub_Patterns :: "pattern list"

record subject =
  s_Identity :: ivalue
  s_Scheme :: SchemeID
  s_Fields :: "component list"
  s_Bits :: bytes
  s_BitLen :: int

definition validate :: "subscription list \<Rightarrow> filter_error + unit" where
  "validate subscriptions =
     (if length subscriptions > MaxSubscriptions then Inl ErrTooManySubscriptions
      else bind_res (fold_res (\<lambda>s seen.
          if sub_ID s = [] then Inl ErrEmptyID
          else if sub_ID s \<in> set seen then Inl ErrDuplicateID
          else if sub_Patterns s = [] then Inl ErrNoPatterns
          else if length (sub_Patterns s) > MaxPatternsPerSubscription then Inl ErrTooManyPatterns
          else if list_ex p_IsZero (sub_Patterns s) then Inl ErrZeroPattern
          else Inr (sub_ID s # seen)) subscriptions []) (\<lambda>_. Inr ()))"

definition matches :: "pattern \<Rightarrow> subject \<Rightarrow> bool" where
  "matches p s =
     (case p_level p of
        LevelIdentity \<Rightarrow> MatchValue p (s_Identity s)
      | LevelEncoding \<Rightarrow>
          if p_scheme p \<noteq> s_Scheme s then False
          else (case p_bits p of
                  Some bits \<Rightarrow> bp_Match bits (s_Bits s) (s_BitLen s)
                | None \<Rightarrow> matchComponents p (s_Fields s))
      | LevelUnset \<Rightarrow> False)"

section \<open>The linear matcher\<close>

record compiled =
  cp_id :: ID
  cp_patterns :: "pattern list"

record linear = lin_subscriptions :: "compiled list"

definition compileLinear :: "subscription list \<Rightarrow> filter_error + linear" where
  "compileLinear subscriptions = bind_res (validate subscriptions) (\<lambda>_.
     Inr \<lparr>lin_subscriptions = map (\<lambda>s. \<lparr>cp_id = sub_ID s, cp_patterns = sub_Patterns s\<rparr>) subscriptions\<rparr>)"

definition linear_Match :: "linear \<Rightarrow> subject \<Rightarrow> ID list \<Rightarrow> ID list" where
  "linear_Match m s dst = foldl (\<lambda>dst sub.
     if list_ex (\<lambda>p. matches p s) (cp_patterns sub) then dst @ [cp_id sub] else dst) dst (lin_subscriptions m)"

definition linear_Len :: "linear \<Rightarrow> nat" where
  "linear_Len m = length (lin_subscriptions m)"

section \<open>The contract\<close>

definition matching :: "subscription list \<Rightarrow> subject \<Rightarrow> ID list" where
  "matching subs s = map sub_ID (filter (\<lambda>sub. list_ex (\<lambda>p. matches p s) (sub_Patterns sub)) subs)"

text \<open>Bit tests come from \<open>NewBitPattern\<close>, so their value and mask have the same length.\<close>

definition bits_wf :: "pattern \<Rightarrow> bool" where
  "bits_wf p \<longleftrightarrow> (case p_bits p of None \<Rightarrow> True | Some b \<Rightarrow> length (bp_value b) = length (bp_mask b))"

definition subs_wf :: "subscription list \<Rightarrow> bool" where
  "subs_wf subs \<longleftrightarrow> list_all (\<lambda>sub. list_all bits_wf (sub_Patterns sub)) subs"

definition valid_subs :: "subscription list \<Rightarrow> bool" where
  "valid_subs subs \<longleftrightarrow> length subs \<le> MaxSubscriptions \<and> distinct (map sub_ID subs) \<and>
     list_all (\<lambda>s. sub_ID s \<noteq> [] \<and> sub_Patterns s \<noteq> [] \<and>
        length (sub_Patterns s) \<le> MaxPatternsPerSubscription \<and> \<not> list_ex p_IsZero (sub_Patterns s)) subs"

lemma validate_fold:
  "is_ok (fold_res (\<lambda>s seen.
          if sub_ID s = [] then Inl ErrEmptyID
          else if sub_ID s \<in> set seen then Inl ErrDuplicateID
          else if sub_Patterns s = [] then Inl ErrNoPatterns
          else if length (sub_Patterns s) > MaxPatternsPerSubscription then Inl ErrTooManyPatterns
          else if list_ex p_IsZero (sub_Patterns s) then Inl ErrZeroPattern
          else Inr (sub_ID s # seen)) subs seen) \<longleftrightarrow>
   distinct (map sub_ID subs) \<and> set (map sub_ID subs) \<inter> set seen = {} \<and>
   list_all (\<lambda>s. sub_ID s \<noteq> [] \<and> sub_Patterns s \<noteq> [] \<and>
        length (sub_Patterns s) \<le> MaxPatternsPerSubscription \<and> \<not> list_ex p_IsZero (sub_Patterns s)) subs"
  by (induction subs arbitrary: seen) (auto simp: not_less)

lemma validate_iff: "validate subs = Inr () \<longleftrightarrow> valid_subs subs"
  by (cases "length subs \<le> MaxSubscriptions")
    (simp_all add: validate_def valid_subs_def bind_res_done validate_fold del: bind_res_eq_Inr)

lemma valid_subs_distinct: "valid_subs subs \<Longrightarrow> distinct (map sub_ID subs)"
  by (simp add: valid_subs_def)

locale matcher =
  fixes compile :: "subscription list \<Rightarrow> filter_error + 'm"
    and Match :: "'m \<Rightarrow> subject \<Rightarrow> ID list \<Rightarrow> ID list"
    and Len :: "'m \<Rightarrow> nat"
  assumes compile_error: "compile subs = Inl e \<longleftrightarrow> validate subs = Inl e"
    and Match_compiled: "compile subs = Inr m \<Longrightarrow> subs_wf subs \<Longrightarrow> Match m s dst = dst @ matching subs s"
    and Len_compiled: "compile subs = Inr m \<Longrightarrow> Len m = length subs"
begin

lemma compile_ok: "is_ok (compile subs) \<longleftrightarrow> valid_subs subs"
proof -
  have "is_ok (compile subs) \<longleftrightarrow> \<not> (\<exists>e. compile subs = Inl e)" by (rule is_ok_iff_not)
  also have "\<dots> \<longleftrightarrow> is_ok (validate subs)" by (simp only: compile_error is_ok_iff_not)
  also have "\<dots> \<longleftrightarrow> valid_subs subs" by (simp add: is_ok_iff validate_iff)
  finally show ?thesis .
qed

lemma compiled_valid: "compile subs = Inr m \<Longrightarrow> valid_subs subs"
  using compile_ok [of subs] by simp

text \<open>A subscription is reported exactly when one of its patterns matches, and at most once.\<close>

lemma Match_reports:
  assumes "compile subs = Inr m" "subs_wf subs"
  shows "set (Match m s []) = {sub_ID sub |sub. sub \<in> set subs \<and> (\<exists>p \<in> set (sub_Patterns sub). matches p s)}"
    "distinct (Match m s [])"
proof -
  have "Match m s [] = matching subs s" using Match_compiled [OF assms] by simp
  moreover have "distinct (matching subs s)"
    using valid_subs_distinct [OF compiled_valid [OF assms(1)]]
    by (auto simp: matching_def distinct_map intro: inj_on_subset)
  ultimately show "distinct (Match m s [])"
    "set (Match m s []) = {sub_ID sub |sub. sub \<in> set subs \<and> (\<exists>p \<in> set (sub_Patterns sub). matches p s)}"
    by (auto simp: matching_def list_ex_iff)
qed

end

text \<open>Two matchers that meet the contract cannot be told apart.\<close>

locale matcher_pair =
  a: matcher compile\<^sub>a Match\<^sub>a Len\<^sub>a + b: matcher compile\<^sub>b Match\<^sub>b Len\<^sub>b
  for compile\<^sub>a :: "subscription list \<Rightarrow> filter_error + 'a" and Match\<^sub>a Len\<^sub>a
    and compile\<^sub>b :: "subscription list \<Rightarrow> filter_error + 'b" and Match\<^sub>b Len\<^sub>b
begin

lemma same_errors: "compile\<^sub>a subs = Inl e \<longleftrightarrow> compile\<^sub>b subs = Inl e"
  by (simp add: a.compile_error b.compile_error)

lemma same_results:
  "compile\<^sub>a subs = Inr m \<Longrightarrow> compile\<^sub>b subs = Inr n \<Longrightarrow> subs_wf subs \<Longrightarrow> Match\<^sub>a m s dst = Match\<^sub>b n s dst"
  by (simp add: a.Match_compiled b.Match_compiled)

end

lemma linear_Match_foldl:
  "foldl (\<lambda>dst sub. if list_ex (\<lambda>p. matches p s) (cp_patterns sub) then dst @ [cp_id sub] else dst) dst
     (map (\<lambda>s. \<lparr>cp_id = sub_ID s, cp_patterns = sub_Patterns s\<rparr>) subs) = dst @ matching subs s"
  by (induction subs arbitrary: dst) (simp_all add: matching_def)

interpretation linear: matcher compileLinear linear_Match linear_Len
  by unfold_locales
    (auto simp: compileLinear_def linear_Match_def linear_Len_def linear_Match_foldl bind_res_eq_Inl)

end
