(* ===== verification/Filter_Index.thy ===== *)
theory Filter_Index
  imports Filters
begin

text \<open>
  The prefix index of \<^verbatim>\<open>src/internal/filter/index.go\<close>: a byte trie per scheme over the masked
  prefix of bit tests, a trie per domain over exact component values, and a residual list,
  each candidate confirmed with the reference rule. Both tries meet the interface
  \<open>path_store\<close>; the index meets the contract \<open>matcher\<close>.
\<close>

section \<open>The data\<close>

record entry =
  e_rank :: nat
  e_pattern :: pattern

record bit_entry =
  be_entry :: entry
  be_remMask :: byte
  be_remValue :: byte

datatype bit_node = BitNode (bn_keys: bytes) (bn_children: "bit_node list") (bn_entries: "bit_entry list")

text \<open>A node's children are a Go map from text; the nil map and the empty one are the same here.\<close>

datatype field_node = FieldNode (fn_children: "string \<Rightarrow> field_node option") (fn_entries: "entry list")

record index =
  ids :: "ID list"
  ranks :: "ID \<Rightarrow> nat option"
  bitRoots :: "SchemeID \<Rightarrow> bit_node option"
  idRoots :: "Authority \<times> KeyType \<Rightarrow> field_node option"
  encRoots :: "SchemeID \<Rightarrow> field_node option"
  residual :: "entry list"

definition empty_bitNode :: bit_node where "empty_bitNode = BitNode [] [] []"
definition empty_fieldNode :: field_node where "empty_fieldNode = FieldNode (\<lambda>_. None) []"

text \<open>\<^verbatim>\<open>slices.BinarySearch\<close> on the sorted keys of a node, and \<^verbatim>\<open>slices.Insert\<close>.\<close>

definition BinarySearch :: "bytes \<Rightarrow> byte \<Rightarrow> nat \<times> bool" where
  "BinarySearch ks b = (let i = length (takeWhile (\<lambda>k. k < b) ks) in (i, i < length ks \<and> ks ! i = b))"

definition Insert :: "'a list \<Rightarrow> nat \<Rightarrow> 'a \<Rightarrow> 'a list" where
  "Insert xs i x = take i xs @ [x] @ drop i xs"

section \<open>Building\<close>

definition LeadingZeros8 :: "byte \<Rightarrow> nat" where
  "LeadingZeros8 b = length (takeWhile (\<lambda>i. \<not> bit b i) (rev [0..<8]))"

fun leadingOnes :: "bytes \<Rightarrow> nat" where
  "leadingOnes [] = 0"
| "leadingOnes (b # bs) = (if b \<noteq> 0xff then LeadingZeros8 (NOT b) else 8 + leadingOnes bs)"

definition exactPrefix :: "pattern \<Rightarrow> nat option" where
  "exactPrefix p =
     (let exact = length (takeWhile (\<lambda>f. f_kind f = FieldExact) (p_fields p))
      in if list_ex (\<lambda>f. f_kind f \<noteq> FieldAny) (drop exact (p_fields p)) then None else Some exact)"

text \<open>Walking down (creating children on the way) and appending at the node reached.\<close>

fun bit_insert :: "bytes \<Rightarrow> bit_entry \<Rightarrow> bit_node \<Rightarrow> bit_node" where
  "bit_insert [] e (BitNode ks cs es) = BitNode ks cs (es @ [e])"
| "bit_insert (b # bs) e (BitNode ks cs es) =
     (case BinarySearch ks b of
        (i, True) \<Rightarrow> BitNode ks (cs[i := bit_insert bs e (cs ! i)]) es
      | (i, False) \<Rightarrow> BitNode (Insert ks i b) (Insert cs i (bit_insert bs e empty_bitNode)) es)"

fun field_insert :: "string list \<Rightarrow> entry \<Rightarrow> field_node \<Rightarrow> field_node" where
  "field_insert [] e (FieldNode cs es) = FieldNode cs (es @ [e])"
| "field_insert (t # ts) e (FieldNode cs es) =
     (let nxt = (case cs t of None \<Rightarrow> empty_fieldNode | Some n \<Rightarrow> n)
      in FieldNode (cs(t := Some (field_insert ts e nxt))) es)"

definition bit_path :: "bit_pattern \<Rightarrow> bytes" where
  "bit_path b = take (leadingOnes (bp_mask b) div 8) (bp_value b)"

definition bit_entry_of :: "entry \<Rightarrow> bit_pattern \<Rightarrow> bit_entry" where
  "bit_entry_of e b =
     (let n = leadingOnes (bp_mask b); full = n div 8; rem = n mod 8
      in if rem \<noteq> 0
         then let m = push_bit (8 - rem) 0xff in \<lparr>be_entry = e, be_remMask = m, be_remValue = bp_value b ! full AND m\<rparr>
         else \<lparr>be_entry = e, be_remMask = 0, be_remValue = 0\<rparr>)"

definition add :: "index \<Rightarrow> entry \<Rightarrow> index" where
  "add m e =
     (let p = e_pattern e in
      case (p_level p, p_bits p) of
        (LevelEncoding, Some b) \<Rightarrow>
          let node = (case bitRoots m (p_scheme p) of None \<Rightarrow> empty_bitNode | Some n \<Rightarrow> n)
          in m\<lparr>bitRoots := (bitRoots m)(p_scheme p := Some (bit_insert (bit_path b) (bit_entry_of e b) node))\<rparr>
      | _ \<Rightarrow>
          (case exactPrefix p of
             None \<Rightarrow> m\<lparr>residual := residual m @ [e]\<rparr>
           | Some exact \<Rightarrow>
               let path = map f_text (take exact (p_fields p)) in
               if p_level p = LevelIdentity
               then let key = (p_authority p, p_keyType p);
                        node = (case idRoots m key of None \<Rightarrow> empty_fieldNode | Some n \<Rightarrow> n)
                    in m\<lparr>idRoots := (idRoots m)(key := Some (field_insert path e node))\<rparr>
               else let node = (case encRoots m (p_scheme p) of None \<Rightarrow> empty_fieldNode | Some n \<Rightarrow> n)
                    in m\<lparr>encRoots := (encRoots m)(p_scheme p := Some (field_insert path e node))\<rparr>))"

text \<open>Ranks are \<^verbatim>\<open>int32\<close>; a subscription set holds at most 10000.\<close>

definition compileIndex :: "subscription list \<Rightarrow> filter_error + index" where
  "compileIndex subscriptions = bind_res (validate subscriptions) (\<lambda>_.
     Inr (foldl (\<lambda>m (rank, s).
            foldl (\<lambda>m p. add m \<lparr>e_rank = rank, e_pattern = p\<rparr>)
              (m\<lparr>ids := ids m @ [sub_ID s], ranks := (ranks m)(sub_ID s \<mapsto> rank)\<rparr>) (sub_Patterns s))
          \<lparr>ids = [], ranks = (\<lambda>_. None), bitRoots = (\<lambda>_. None), idRoots = (\<lambda>_. None), encRoots = (\<lambda>_. None),
           residual = []\<rparr> (enumerate 0 subscriptions)))"

section \<open>Matching\<close>

text \<open>\<open>bits\<close> is what is left of the subject's bytes at the current depth.\<close>

definition confirm_bit :: "index \<Rightarrow> subject \<Rightarrow> bytes \<Rightarrow> bit_entry \<Rightarrow> ID list" where
  "confirm_bit m s bits e =
     (if be_remMask e \<noteq> 0 \<and> (bits = [] \<or> hd bits AND be_remMask e \<noteq> be_remValue e) then []
      else if matches (e_pattern (be_entry e)) s then [ids m ! e_rank (be_entry e)] else [])"

fun walkBits :: "index \<Rightarrow> subject \<Rightarrow> bytes \<Rightarrow> bit_node \<Rightarrow> ID list \<Rightarrow> ID list" where
  "walkBits m s [] node dst = dst @ concat (map (confirm_bit m s []) (bn_entries node))"
| "walkBits m s (b # bs) node dst =
     (let dst = dst @ concat (map (confirm_bit m s (b # bs)) (bn_entries node)) in
      case BinarySearch (bn_keys node) b of
        (i, False) \<Rightarrow> dst
      | (i, True) \<Rightarrow> walkBits m s bs (bn_children node ! i) dst)"

definition confirm :: "index \<Rightarrow> subject \<Rightarrow> entry \<Rightarrow> ID list" where
  "confirm m s e = (if matches (e_pattern e) s then [ids m ! e_rank e] else [])"

fun walkFields :: "index \<Rightarrow> subject \<Rightarrow> component list \<Rightarrow> field_node \<Rightarrow> ID list \<Rightarrow> ID list" where
  "walkFields m s [] node dst = dst @ concat (map (confirm m s) (fn_entries node))"
| "walkFields m s (c # cs) node dst =
     (let dst = dst @ concat (map (confirm m s) (fn_entries node)) in
      case fn_children node (c_value c) of
        None \<Rightarrow> dst
      | Some nxt \<Rightarrow> walkFields m s cs nxt dst)"

definition rank_of :: "index \<Rightarrow> ID \<Rightarrow> nat" where
  "rank_of m i = (case ranks m i of None \<Rightarrow> 0 | Some r \<Rightarrow> r)"

definition order :: "index \<Rightarrow> ID list \<Rightarrow> nat \<Rightarrow> ID list" where
  "order m dst start =
     (let found = drop start dst in
      if length found < 2 then dst
      else let found = (if sorted (map (rank_of m) found) then found else sort_key (rank_of m) found)
           in take start dst @ remdups_adj found)"

definition index_Match :: "index \<Rightarrow> subject \<Rightarrow> ID list \<Rightarrow> ID list" where
  "index_Match m s dst =
     (let start = length dst;
          dst = (case bitRoots m (s_Scheme s) of None \<Rightarrow> dst | Some node \<Rightarrow> walkBits m s (s_Bits s) node dst);
          dst = (case encRoots m (s_Scheme s) of None \<Rightarrow> dst | Some node \<Rightarrow> walkFields m s (s_Fields s) node dst);
          dst = (case idRoots m (v_authority (s_Identity s), v_keyType (s_Identity s)) of
                   None \<Rightarrow> dst
                 | Some node \<Rightarrow> walkFields m s (v_components (s_Identity s)) node dst);
          dst = dst @ concat (map (confirm m s) (residual m))
      in order m dst start)"

definition index_Len :: "index \<Rightarrow> nat" where
  "index_Len m = length (ids m)"

section \<open>The interface of both tries\<close>

locale path_store =
  fixes insert :: "'k list \<Rightarrow> 'e \<Rightarrow> 't \<Rightarrow> 't"
    and lookup :: "'t \<Rightarrow> 'k list \<Rightarrow> 'e list"
    and nil :: 't
    and wf :: "'t \<Rightarrow> bool"
  assumes wf_nil: "wf nil"
    and lookup_nil: "lookup nil q = []"
    and wf_insert: "wf t \<Longrightarrow> wf (insert p e t)"
    and lookup_insert: "wf t \<Longrightarrow> lookup (insert p e t) q = (if q = p then lookup t q @ [e] else lookup t q)"
begin

text \<open>A map of tries built by a run of insertions holds, at every path, what was put there.\<close>

definition at :: "('s \<Rightarrow> 't option) \<Rightarrow> 's \<Rightarrow> 't" where
  "at roots k = (case roots k of None \<Rightarrow> nil | Some t \<Rightarrow> t)"

definition put :: "('s \<Rightarrow> 't option) \<Rightarrow> 's \<Rightarrow> 'k list \<Rightarrow> 'e \<Rightarrow> ('s \<Rightarrow> 't option)" where
  "put roots k p e = roots(k \<mapsto> insert p e (at roots k))"

definition roots_wf :: "('s \<Rightarrow> 't option) \<Rightarrow> bool" where
  "roots_wf roots \<longleftrightarrow> (\<forall>k. wf (at roots k))"

lemma roots_wf_empty: "roots_wf (\<lambda>_. None)"
  by (simp add: roots_wf_def at_def wf_nil)

lemma lookup_empty_roots: "lookup (at (\<lambda>_. None) k) q = []"
  by (simp add: at_def lookup_nil)

lemma at_put: "at (put roots k p e) j = (if j = k then insert p e (at roots k) else at roots j)"
  by (simp add: at_def put_def)

lemma roots_wf_put: "roots_wf roots \<Longrightarrow> roots_wf (put roots k p e)"
  by (simp add: roots_wf_def at_put wf_insert)

lemma lookup_put:
  "roots_wf roots \<Longrightarrow> set (lookup (at (put roots k p e) j) q) =
     set (lookup (at roots j) q) \<union> (if j = k \<and> q = p then {e} else {})"
  by (simp add: roots_wf_def at_put lookup_insert)

end

section \<open>Facts: the byte trie\<close>

lemma BinarySearch_simps [simp]:
  "BinarySearch [] b = (0, False)"
  "BinarySearch (k # ks) b =
     (if k < b then (case BinarySearch ks b of (i, found) \<Rightarrow> (Suc i, found)) else (0, k = b))"
  by (auto simp: BinarySearch_def Let_def)

lemma Insert_simps [simp]:
  "Insert xs 0 x = x # xs" "Insert (y # xs) (Suc i) x = y # Insert xs i x" "Insert [] i x = [x]"
  by (simp_all add: Insert_def)

definition child :: "bit_node \<Rightarrow> byte \<Rightarrow> bit_node option" where
  "child n b = (case BinarySearch (bn_keys n) b of (i, True) \<Rightarrow> Some (bn_children n ! i) | (i, False) \<Rightarrow> None)"

lemma BinarySearch_map_of:
  "sorted_wrt (<) ks \<Longrightarrow> length cs = length ks \<Longrightarrow>
   (case BinarySearch ks b of (i, True) \<Rightarrow> Some (cs ! i) | (i, False) \<Rightarrow> None) = map_of (zip ks cs) b"
proof (induction ks arbitrary: cs)
  case (Cons k ks)
  then obtain c cs' where cs: "cs = c # cs'" "length cs' = length ks" by (cases cs) auto
  have late: "map_of (zip ks cs') b = None" if "b < k"
    using Cons.prems that cs(2) by (auto simp: map_of_zip_is_None)
  with Cons.IH [OF _ cs(2)] Cons.prems cs show ?case
    by (cases k b rule: linorder_cases) (auto simp: eq_commute [of None] split: prod.splits bool.splits)
qed simp

lemma BinarySearch_True: "BinarySearch ks b = (i, True) \<Longrightarrow> i < length ks \<and> ks ! i = b"
  by (auto simp: BinarySearch_def Let_def)

lemma Insert_sorted:
  "sorted_wrt (<) ks \<Longrightarrow> BinarySearch ks b = (i, False) \<Longrightarrow>
   sorted_wrt (<) (Insert ks i b) \<and> set (Insert ks i b) = insert b (set ks) \<and> b \<notin> set ks"
proof (induction ks arbitrary: i)
  case (Cons k ks)
  show ?case
  proof (cases "k < b")
    case True
    with Cons.prems obtain j where j: "BinarySearch ks b = (j, False)" "i = Suc j"
      by (auto split: prod.splits)
    with Cons True show ?thesis by auto
  next
    case False
    with Cons.prems have "b < k" "i = 0" by auto
    with Cons.prems show ?thesis by (auto dest: order.strict_trans)
  qed
qed simp

lemma map_of_Insert:
  "length cs = length ks \<Longrightarrow> b \<notin> set ks \<Longrightarrow> i \<le> length ks \<Longrightarrow>
   map_of (zip (Insert ks i b) (Insert cs i x)) = (map_of (zip ks cs))(b \<mapsto> x)"
proof (induction ks arbitrary: cs i)
  case (Cons k ks)
  then obtain c cs' where "cs = c # cs'" "length cs' = length ks" by (cases cs) auto
  with Cons show ?case by (cases i) auto
qed simp

lemma map_of_update_nth:
  "length cs = length ks \<Longrightarrow> distinct ks \<Longrightarrow> i < length ks \<Longrightarrow>
   map_of (zip ks (cs[i := x])) = (map_of (zip ks cs))(ks ! i \<mapsto> x)"
proof (induction ks arbitrary: cs i)
  case (Cons k ks)
  then obtain c cs' where "cs = c # cs'" "length cs' = length ks" by (cases cs) auto
  with Cons show ?case by (cases i) (auto simp: fun_eq_iff)
qed simp

lemma length_Insert [simp]: "i \<le> length xs \<Longrightarrow> length (Insert xs i x) = Suc (length xs)"
  by (simp add: Insert_def)

lemma set_Insert [simp]: "set (Insert xs i x) = insert x (set xs)"
  by (simp add: Insert_def) (metis append_take_drop_id set_append)

lemma BinarySearch_le: "fst (BinarySearch ks b) \<le> length ks"
  by (simp add: BinarySearch_def Let_def length_takeWhile_le)

fun bit_wf :: "bit_node \<Rightarrow> bool" where
  "bit_wf (BitNode ks cs es) \<longleftrightarrow> sorted_wrt (<) ks \<and> length cs = length ks \<and> (\<forall>c \<in> set cs. bit_wf c)"

fun bit_lookup :: "bit_node \<Rightarrow> bytes \<Rightarrow> bit_entry list" where
  "bit_lookup n [] = bn_entries n"
| "bit_lookup n (b # bs) = (case child n b of None \<Rightarrow> [] | Some c \<Rightarrow> bit_lookup c bs)"

lemma sorted_wrt_less_distinct: "sorted_wrt (<) (ks :: bytes) \<Longrightarrow> distinct ks"
  by (simp add: strict_sorted_iff)

lemma child_BitNode:
  "sorted_wrt (<) ks \<Longrightarrow> length cs = length ks \<Longrightarrow> child (BitNode ks cs es) b = map_of (zip ks cs) b"
  by (simp add: child_def BinarySearch_map_of)

text \<open>The first step of an insertion replaces one child and keeps the others.\<close>

lemma bit_insert_Cons:
  assumes "bit_wf n" "\<And>t. bit_wf t \<Longrightarrow> bit_wf (bit_insert bs e t)"
  shows "bit_wf (bit_insert (b # bs) e n) \<and> bn_entries (bit_insert (b # bs) e n) = bn_entries n \<and>
    child (bit_insert (b # bs) e n) =
      (child n)(b \<mapsto> bit_insert bs e (case child n b of None \<Rightarrow> empty_bitNode | Some c \<Rightarrow> c))"
proof (cases n)
  case (BitNode ks cs es)
  with assms(1) have wf: "sorted_wrt (<) ks" "length cs = length ks" "\<forall>c \<in> set cs. bit_wf c" by auto
  have nil: "bit_wf (bit_insert bs e empty_bitNode)"
    by (rule assms(2)) (simp add: empty_bitNode_def)
  obtain i f where bs: "BinarySearch ks b = (i, f)" by (cases "BinarySearch ks b")
  show ?thesis
  proof (cases f)
    case True
    with bs have i: "i < length ks" "ks ! i = b" using BinarySearch_True by auto
    have "\<forall>c \<in> set (cs[i := bit_insert bs e (cs ! i)]). bit_wf c"
      using wf assms(2) i by (auto dest!: subsetD [OF set_update_subset_insert])
    moreover have "child n b = Some (cs ! i)" using bs True BitNode by (simp add: child_def)
    ultimately show ?thesis
      using wf i bs True BitNode map_of_update_nth [OF wf(2) sorted_wrt_less_distinct [OF wf(1)] i(1)]
      by (simp add: child_BitNode fun_eq_iff)
  next
    case False
    with bs have sep: "BinarySearch ks b = (i, False)" by simp
    note ins = Insert_sorted [OF wf(1) sep]
    have i: "i \<le> length ks" using BinarySearch_le [of ks b] sep by simp
    have none: "child n b = None" using sep BitNode by (simp add: child_def)
    have "child (bit_insert (b # bs) e n) = (child n)(b \<mapsto> bit_insert bs e empty_bitNode)"
      using wf ins sep i nil BitNode map_of_Insert [OF wf(2) _ i, of b]
      by (simp add: child_BitNode fun_eq_iff)
    with none show ?thesis
      using wf ins sep i nil BitNode by simp
  qed
qed

lemma bit_insert_wf: "bit_wf n \<Longrightarrow> bit_wf (bit_insert p e n)"
proof (induction p arbitrary: n)
  case Nil
  then show ?case by (cases n) simp
next
  case (Cons b bs)
  then show ?case using bit_insert_Cons by blast
qed

lemma bit_lookup_empty: "bit_lookup empty_bitNode q = []"
  by (cases q) (simp_all add: empty_bitNode_def child_def)

lemma bit_lookup_insert:
  "bit_wf n \<Longrightarrow> bit_lookup (bit_insert p e n) q = (if q = p then bit_lookup n q @ [e] else bit_lookup n q)"
proof (induction p arbitrary: n q)
  case Nil
  then show ?case by (cases n; cases q) (simp_all add: child_def)
next
  case (Cons b bs)
  note ins = bit_insert_Cons [OF Cons.prems bit_insert_wf, where b = b and bs = bs and e = e]
  have sub: "bit_wf c" if "child n b = Some c" for c
    using Cons.prems that by (cases n) (auto simp: child_BitNode dest: map_of_SomeD set_zip_rightD)
  show ?case
  proof (cases q)
    case Nil
    with ins show ?thesis by simp
  next
    case (Cons c cs)
    have "bit_wf empty_bitNode" by (simp add: empty_bitNode_def)
    with Cons.IH sub ins Cons show ?thesis
      by (cases "child n b") (auto simp: bit_lookup_empty)
  qed
qed

interpretation bit_store: path_store bit_insert bit_lookup empty_bitNode bit_wf
  by unfold_locales (simp_all add: bit_insert_wf bit_lookup_empty bit_lookup_insert, simp add: empty_bitNode_def)

section \<open>Facts: the field trie\<close>

fun field_lookup :: "field_node \<Rightarrow> string list \<Rightarrow> entry list" where
  "field_lookup n [] = fn_entries n"
| "field_lookup n (t # ts) = (case fn_children n t of None \<Rightarrow> [] | Some c \<Rightarrow> field_lookup c ts)"

lemma field_lookup_empty: "field_lookup empty_fieldNode q = []"
  by (cases q) (simp_all add: empty_fieldNode_def)

lemma field_lookup_insert:
  "field_lookup (field_insert p e n) q = (if q = p then field_lookup n q @ [e] else field_lookup n q)"
proof (induction p arbitrary: n q)
  case Nil
  then show ?case by (cases n; cases q) simp_all
next
  case (Cons t ts)
  then show ?case
    by (cases n; cases q) (auto simp: Let_def field_lookup_empty split: option.splits)
qed

interpretation field_store: path_store field_insert field_lookup empty_fieldNode "\<lambda>_. True"
  by unfold_locales (simp_all add: field_lookup_empty field_lookup_insert)

section \<open>Facts: where an entry is stored\<close>

datatype place =
    InBits SchemeID bytes bit_entry
  | InIdentity "Authority \<times> KeyType" "string list"
  | InEncoding SchemeID "string list"
  | InResidual

definition place_of :: "entry \<Rightarrow> place" where
  "place_of e =
     (let p = e_pattern e in
      case (p_level p, p_bits p) of
        (LevelEncoding, Some b) \<Rightarrow> InBits (p_scheme p) (bit_path b) (bit_entry_of e b)
      | _ \<Rightarrow>
          (case exactPrefix p of
             None \<Rightarrow> InResidual
           | Some n \<Rightarrow>
               if p_level p = LevelIdentity
               then InIdentity (p_authority p, p_keyType p) (map f_text (take n (p_fields p)))
               else InEncoding (p_scheme p) (map f_text (take n (p_fields p)))))"

lemma add_place:
  "add m e =
     (case place_of e of
        InBits sc q be \<Rightarrow> m\<lparr>bitRoots := bit_store.put (bitRoots m) sc q be\<rparr>
      | InIdentity k q \<Rightarrow> m\<lparr>idRoots := field_store.put (idRoots m) k q e\<rparr>
      | InEncoding sc q \<Rightarrow> m\<lparr>encRoots := field_store.put (encRoots m) sc q e\<rparr>
      | InResidual \<Rightarrow> m\<lparr>residual := residual m @ [e]\<rparr>)"
  by (auto simp: add_def place_of_def bit_store.put_def bit_store.at_def field_store.put_def
      field_store.at_def Let_def split: PatternLevel.splits option.splits)

definition holds :: "index \<Rightarrow> entry set \<Rightarrow> bool" where
  "holds m E \<longleftrightarrow> bit_store.roots_wf (bitRoots m) \<and>
     (\<forall>sc q. set (bit_lookup (bit_store.at (bitRoots m) sc) q) = {be. \<exists>e \<in> E. place_of e = InBits sc q be}) \<and>
     (\<forall>k q. set (field_lookup (field_store.at (idRoots m) k) q) = {e \<in> E. place_of e = InIdentity k q}) \<and>
     (\<forall>sc q. set (field_lookup (field_store.at (encRoots m) sc) q) = {e \<in> E. place_of e = InEncoding sc q}) \<and>
     set (residual m) = {e \<in> E. place_of e = InResidual}"

lemma field_roots_wf [simp]: "field_store.roots_wf roots"
  by (simp add: field_store.roots_wf_def)

lemma holds_empty:
  "holds \<lparr>ids = [], ranks = (\<lambda>_. None), bitRoots = (\<lambda>_. None), idRoots = (\<lambda>_. None), encRoots = (\<lambda>_. None),
     residual = []\<rparr> {}"
  by (simp add: holds_def bit_store.roots_wf_empty bit_store.lookup_empty_roots field_store.lookup_empty_roots)

lemma holds_add: "holds m E \<Longrightarrow> holds (add m e) (insert e E)"
  by (cases "place_of e")
    (auto simp: add_place holds_def bit_store.roots_wf_put bit_store.lookup_put field_store.lookup_put
      split: if_splits)

lemma add_ids [simp]: "ids (add m e) = ids m" "ranks (add m e) = ranks m"
  by (simp_all add: add_place split: place.split)

lemma holds_update [simp]: "holds (m\<lparr>ids := i, ranks := r\<rparr>) E = holds m E"
  by (simp add: holds_def)

definition entries_of :: "nat \<times> subscription \<Rightarrow> entry set" where
  "entries_of rs = {\<lparr>e_rank = fst rs, e_pattern = p\<rparr> |p. p \<in> set (sub_Patterns (snd rs))}"

lemma foldl_add:
  "holds m E \<Longrightarrow>
   holds (foldl (\<lambda>m p. add m \<lparr>e_rank = r, e_pattern = p\<rparr>) m ps) (E \<union> {\<lparr>e_rank = r, e_pattern = p\<rparr> |p. p \<in> set ps}) \<and>
   ids (foldl (\<lambda>m p. add m \<lparr>e_rank = r, e_pattern = p\<rparr>) m ps) = ids m \<and>
   ranks (foldl (\<lambda>m p. add m \<lparr>e_rank = r, e_pattern = p\<rparr>) m ps) = ranks m"
proof (induction ps arbitrary: m E)
  case (Cons p ps)
  from Cons.IH [OF holds_add [OF Cons.prems, of "\<lparr>e_rank = r, e_pattern = p\<rparr>"]]
  have "holds (foldl (\<lambda>m p. add m \<lparr>e_rank = r, e_pattern = p\<rparr>) m (p # ps))
      (insert \<lparr>e_rank = r, e_pattern = p\<rparr> E \<union> {\<lparr>e_rank = r, e_pattern = p\<rparr> |p. p \<in> set ps})" by simp
  moreover have "insert \<lparr>e_rank = r, e_pattern = p\<rparr> E \<union> {\<lparr>e_rank = r, e_pattern = p\<rparr> |p. p \<in> set ps} =
      E \<union> {\<lparr>e_rank = r, e_pattern = q\<rparr> |q. q \<in> set (p # ps)}" by auto
  ultimately show ?case
    using Cons.IH [OF holds_add [OF Cons.prems, of "\<lparr>e_rank = r, e_pattern = p\<rparr>"]] by simp
qed simp

definition compile_step :: "index \<Rightarrow> nat \<times> subscription \<Rightarrow> index" where
  "compile_step = (\<lambda>m (rank, s). foldl (\<lambda>m p. add m \<lparr>e_rank = rank, e_pattern = p\<rparr>)
     (m\<lparr>ids := ids m @ [sub_ID s], ranks := (ranks m)(sub_ID s \<mapsto> rank)\<rparr>) (sub_Patterns s))"

lemma foldl_compile_step:
  assumes "holds m E"
  shows "holds (foldl compile_step m rss) (E \<union> \<Union> (entries_of ` set rss)) \<and>
    ids (foldl compile_step m rss) = ids m @ map (sub_ID \<circ> snd) rss \<and>
    ranks (foldl compile_step m rss) = ranks m ++ map_of (rev (map (\<lambda>(r, s). (sub_ID s, r)) rss))"
  using assms
proof (induction rss arbitrary: m E)
  case (Cons rs rss)
  obtain r s where rs: "rs = (r, s)" by (cases rs)
  let ?m = "m\<lparr>ids := ids m @ [sub_ID s], ranks := (ranks m)(sub_ID s \<mapsto> r)\<rparr>"
  have "holds ?m E" using Cons.prems by simp
  from foldl_add [OF this, of r "sub_Patterns s"]
  have step: "holds (compile_step m rs) (E \<union> entries_of rs)" "ids (compile_step m rs) = ids m @ [sub_ID s]"
    "ranks (compile_step m rs) = (ranks m)(sub_ID s \<mapsto> r)"
    by (simp_all add: rs compile_step_def entries_of_def)
  from Cons.IH [OF step(1)] step(2,3) show ?case
    by (auto simp: rs Un_assoc map_add_def fun_eq_iff split: option.splits)
qed simp

definition all_entries :: "subscription list \<Rightarrow> entry set" where
  "all_entries subs = {\<lparr>e_rank = r, e_pattern = p\<rparr> |r p. r < length subs \<and> p \<in> set (sub_Patterns (subs ! r))}"

lemma set_enumerate: "set (enumerate 0 xs) = (\<lambda>r. (r, xs ! r)) ` {..<length xs}"
  by (auto simp: in_set_enumerate_eq image_iff)

lemma compileIndex_Inr:
  assumes "compileIndex subs = Inr m"
  shows "holds m (all_entries subs)" "ids m = map sub_ID subs"
    "\<And>r. r < length subs \<Longrightarrow> rank_of m (sub_ID (subs ! r)) = r" "valid_subs subs"
proof -
  let ?m0 = "\<lparr>ids = [], ranks = (\<lambda>_. None), bitRoots = (\<lambda>_. None), idRoots = (\<lambda>_. None), encRoots = (\<lambda>_. None),
     residual = []\<rparr>"
  from assms show valid: "valid_subs subs" by (auto simp: compileIndex_def validate_iff)
  from assms have m: "m = foldl compile_step ?m0 (enumerate 0 subs)"
    by (auto simp: compileIndex_def compile_step_def)
  note F = foldl_compile_step [OF holds_empty, of "enumerate 0 subs"]
  have "\<Union> (entries_of ` set (enumerate 0 subs)) = all_entries subs"
    by (auto simp: entries_of_def all_entries_def set_enumerate)
  with F m show "holds m (all_entries subs)" by simp
  from F m have "ids m = map (sub_ID \<circ> snd) (enumerate 0 subs)" by simp
  also have "\<dots> = map sub_ID subs" by (metis map_map map_snd_enumerate)
  finally show "ids m = map sub_ID subs" .
  fix r assume r: "r < length subs"
  have keys: "distinct (map fst (map (\<lambda>(r, s). (sub_ID s, r)) (enumerate 0 subs)))"
  proof -
    have "map fst (map (\<lambda>(r, s). (sub_ID s, r)) (enumerate 0 subs)) = map sub_ID (map snd (enumerate 0 subs))"
      by (simp only: map_map) (simp add: case_prod_unfold comp_def del: map_snd_enumerate)
    then show ?thesis using valid_subs_distinct [OF valid] by simp
  qed
  have "(sub_ID (subs ! r), r) \<in> set (rev (map (\<lambda>(r, s). (sub_ID s, r)) (enumerate 0 subs)))"
    using r by (auto simp: set_enumerate)
  then have "map_of (rev (map (\<lambda>(r, s). (sub_ID s, r)) (enumerate 0 subs))) (sub_ID (subs ! r)) = Some r"
    using keys by (intro map_of_is_SomeI) (simp_all add: rev_map [symmetric])
  with F m show "rank_of m (sub_ID (subs ! r)) = r" by (simp add: rank_of_def map_add_def)
qed

section \<open>Facts: what the walks find\<close>

lemma walkBits_child:
  "walkBits m s (b # bs) n dst =
     (let dst = dst @ concat (map (confirm_bit m s (b # bs)) (bn_entries n)) in
      case child n b of None \<Rightarrow> dst | Some c \<Rightarrow> walkBits m s bs c dst)"
  by (auto simp: child_def Let_def split: prod.splits bool.splits)

declare walkBits.simps(2) [simp del]

lemma walkBits_append: "walkBits m s bs n dst = dst @ walkBits m s bs n []"
proof (induction bs arbitrary: n dst)
  case (Cons b bs)
  show ?case
  proof (cases "child n b")
    case (Some c)
    let ?here = "concat (map (confirm_bit m s (b # bs)) (bn_entries n))"
    from Cons [of c "dst @ ?here"] Cons [of c ?here] Some show ?thesis
      by (simp add: walkBits_child)
  qed (simp add: walkBits_child)
qed simp

lemma set_walkBits:
  "set (walkBits m s bs n []) =
     (\<Union>k \<in> {..length bs}. \<Union>e \<in> set (bit_lookup n (take k bs)). set (confirm_bit m s (drop k bs) e))"
proof (induction bs arbitrary: n)
  case (Cons b bs)
  have split: "{..length (b # bs)} = insert 0 (Suc ` {..length bs})"
    by (simp only: length_Cons atMost_Suc_eq_insert_0)
  show ?case
  proof (cases "child n b")
    case None
    then show ?thesis unfolding split by (simp add: walkBits_child)
  next
    case (Some c)
    then show ?thesis
      unfolding split using Cons [of c] walkBits_append [of m s bs c "concat (map (confirm_bit m s (b # bs)) (bn_entries n))"]
      by (simp add: walkBits_child)
  qed
qed simp

lemma walkFields_append: "walkFields m s cs n dst = dst @ walkFields m s cs n []"
proof (induction cs arbitrary: n dst)
  case (Cons c cs)
  show ?case
  proof (cases "fn_children n (c_value c)")
    case (Some t)
    let ?here = "concat (map (confirm m s) (fn_entries n))"
    from Cons [of t "dst @ ?here"] Cons [of t ?here] Some show ?thesis by simp
  qed simp
qed simp

lemma set_walkFields:
  "set (walkFields m s cs n []) =
     (\<Union>k \<in> {..length cs}. \<Union>e \<in> set (field_lookup n (map c_value (take k cs))). set (confirm m s e))"
proof (induction cs arbitrary: n)
  case (Cons c cs)
  have split: "{..length (c # cs)} = insert 0 (Suc ` {..length cs})"
    by (simp only: length_Cons atMost_Suc_eq_insert_0)
  show ?case
  proof (cases "fn_children n (c_value c)")
    case None
    then show ?thesis unfolding split by simp
  next
    case (Some t)
    then show ?thesis
      unfolding split using Cons [of t] walkFields_append [of m s cs t "concat (map (confirm m s) (fn_entries n))"] by simp
  qed
qed simp

section \<open>Facts: nothing that matches is pruned\<close>

lemma LeadingZeros8_le: "LeadingZeros8 b \<le> 8"
  using length_takeWhile_le [of "\<lambda>i. \<not> bit b i" "rev [0..<8]"] by (simp add: LeadingZeros8_def)

lemma LeadingZeros8_bits: "j < LeadingZeros8 b \<Longrightarrow> \<not> bit b (7 - j)"
proof -
  assume j: "j < LeadingZeros8 b"
  let ?t = "takeWhile (\<lambda>i. \<not> bit b i) (rev [0..<8])"
  have "?t ! j \<in> set ?t" using j by (simp only: LeadingZeros8_def nth_mem)
  then have "\<not> bit b (?t ! j)" by (blast dest: set_takeWhileD)
  moreover have "?t ! j = rev [0..<8] ! j" using j by (simp only: LeadingZeros8_def takeWhile_nth)
  moreover have "rev [0..<8] ! j = 7 - j" using j LeadingZeros8_le [of b] by (simp add: rev_nth)
  ultimately show ?thesis by simp
qed

lemma LeadingZeros8_less: "b \<noteq> 0 \<Longrightarrow> LeadingZeros8 b < 8"
proof (rule ccontr)
  assume "b \<noteq> 0" "\<not> LeadingZeros8 b < 8"
  then have high: "\<not> bit b (7 - j)" if "j < 8" for j using LeadingZeros8_bits [of j b] that by simp
  have "\<not> bit b i" if "i < 8" for i using high [of "7 - i"] that by simp
  then have "b = 0" by (intro bit_word_eqI) simp
  with \<open>b \<noteq> 0\<close> show False by simp
qed

lemma leadingOnes_full: "i < leadingOnes mk div 8 \<Longrightarrow> i < length mk \<and> mk ! i = 0xff"
proof (induction mk arbitrary: i)
  case (Cons b bs)
  show ?case
  proof (cases "b = 0xff")
    case True
    with Cons show ?thesis by (cases i) auto
  next
    case False
    have "NOT b \<noteq> 0"
    proof
      assume "NOT b = 0"
      then have "b = NOT 0" by (metis bit.double_compl)
      with False show False by simp
    qed
    with LeadingZeros8_less [of "NOT b"] Cons.prems False show ?thesis by simp
  qed
qed simp

lemma leadingOnes_rem:
  assumes "leadingOnes mk mod 8 \<noteq> 0"
  shows "leadingOnes mk div 8 < length mk"
    "mk ! (leadingOnes mk div 8) AND push_bit (8 - leadingOnes mk mod 8) 0xff = push_bit (8 - leadingOnes mk mod 8) 0xff"
  using assms
proof (induction mk)
  case (Cons b bs)
  {
    case 1
    have "LeadingZeros8 (NOT b) div 8 = 0 \<or> LeadingZeros8 (NOT b) = 8"
      using LeadingZeros8_le [of "NOT b"] by auto
    with 1 Cons show ?case by (cases "b = 0xff") auto
  next
    case 2
    show ?case
    proof (cases "b = 0xff")
      case True
      with 2 Cons.IH(2) show ?thesis by (simp add: div_add_self1)
    next
      case False
      let ?z = "LeadingZeros8 (NOT b)"
      have z: "?z \<le> 8" "?z \<noteq> 0" using LeadingZeros8_le [of "NOT b"] 2 False by auto
      have low: "leadingOnes (b # bs) = ?z \<and> ?z < 8"
      proof -
        have "NOT b \<noteq> 0"
        proof
          assume "NOT b = 0"
          then have "b = NOT 0" by (metis bit.double_compl)
          with False show False by simp
        qed
        with False show ?thesis by (simp add: LeadingZeros8_less)
      qed
      have "bit b i" if "i < 8" "8 - ?z \<le> i" for i
        using LeadingZeros8_bits [of "7 - i" "NOT b"] that low by (simp add: bit_not_iff)
      then have "b AND push_bit (8 - ?z) 0xff = push_bit (8 - ?z) 0xff"
        by (intro bit_word_eqI) (auto simp: bit_simps)
      with low show ?thesis by simp
    qed
  }
qed simp_all

text \<open>A bit test that passes leads the walk to the node that stores it, and past its partial byte.\<close>

lemma bp_Match_prefix:
  assumes "bp_Match b bits n" "length (bp_value b) = length (bp_mask b)"
  shows "length (bit_path b) \<le> length bits" "take (length (bit_path b)) bits = bit_path b"
    "be_remMask (bit_entry_of e b) = 0 \<or>
     drop (length (bit_path b)) bits \<noteq> [] \<and>
     hd (drop (length (bit_path b)) bits) AND be_remMask (bit_entry_of e b) = be_remValue (bit_entry_of e b)"
proof -
  let ?full = "leadingOnes (bp_mask b) div 8"
  from assms(1) have len: "length (bp_mask b) \<le> length bits"
    and test: "\<And>i. i < length (bp_mask b) \<Longrightarrow> bp_mask b ! i = 0 \<or>
        bits ! i AND bp_mask b ! i = bp_value b ! i AND bp_mask b ! i"
    by (auto simp: bp_Match_def list_all_iff Let_def split: if_splits)
  have full: "i < ?full \<Longrightarrow> i < length (bp_mask b) \<and> bits ! i = bp_value b ! i" for i
    using leadingOnes_full [of i "bp_mask b"] test [of i] by auto
  have le: "?full \<le> length (bp_mask b)"
    using full [of "?full - 1"] by (cases ?full) auto
  with assms(2) have path: "length (bit_path b) = ?full" by (simp add: bit_path_def)
  show "length (bit_path b) \<le> length bits" using path le len by simp
  show "take (length (bit_path b)) bits = bit_path b"
    using path le len assms(2) full by (intro nth_equalityI) (auto simp: bit_path_def)
  show "be_remMask (bit_entry_of e b) = 0 \<or>
     drop (length (bit_path b)) bits \<noteq> [] \<and>
     hd (drop (length (bit_path b)) bits) AND be_remMask (bit_entry_of e b) = be_remValue (bit_entry_of e b)"
  proof (cases "leadingOnes (bp_mask b) mod 8 = 0")
    case False
    let ?rm = "push_bit (8 - leadingOnes (bp_mask b) mod 8) (0xff :: byte)"
    note rem = leadingOnes_rem [OF False]
    have "bits ! ?full AND (bp_mask b ! ?full AND ?rm) = bp_value b ! ?full AND (bp_mask b ! ?full AND ?rm)"
      using test [OF rem(1)] by (auto simp: and.assoc [symmetric])
    then have "bits ! ?full AND ?rm = bp_value b ! ?full AND ?rm" by (simp only: rem(2))
    moreover have "?full < length bits" using rem(1) len by simp
    ultimately show ?thesis using False path by (simp add: bit_entry_of_def Let_def hd_drop_conv_nth)
  qed (simp add: bit_entry_of_def Let_def)
qed

lemma match_exact_prefix:
  assumes "exactPrefix p = Some n" "list_all2 match_field (p_fields p) cs"
  shows "n \<le> length cs" "map c_value (take n cs) = map f_text (take n (p_fields p))"
proof -
  let ?ex = "takeWhile (\<lambda>f. f_kind f = FieldExact) (p_fields p)"
  from assms(1) have n: "n = length ?ex" by (auto simp: exactPrefix_def Let_def split: if_splits)
  have len: "length cs = length (p_fields p)" using assms(2) by (simp add: list_all2_lengthD)
  then show "n \<le> length cs" using n length_takeWhile_le by metis
  have "c_value (cs ! i) = f_text (p_fields p ! i)" if i: "i < n" for i
  proof -
    have "?ex ! i \<in> set ?ex" using i n by simp
    then have "f_kind (?ex ! i) = FieldExact" by (blast dest: set_takeWhileD)
    then have kind: "f_kind (p_fields p ! i) = FieldExact" using i n by (simp add: takeWhile_nth)
    have "i < length (p_fields p)" using i n length_takeWhile_le [of _ "p_fields p"] less_le_trans by blast
    then have "match_field (p_fields p ! i) (cs ! i)" using assms(2) by (simp add: list_all2_nthD)
    with kind show ?thesis by (simp add: match_field_def split: if_splits)
  qed
  then show "map c_value (take n cs) = map f_text (take n (p_fields p))"
    using \<open>n \<le> length cs\<close> len by (intro nth_equalityI) auto
qed

text \<open>The identifiers the walks of \<open>Match\<close> collect, before they are put in order.\<close>

definition found :: "index \<Rightarrow> subject \<Rightarrow> ID list" where
  "found m s =
     walkBits m s (s_Bits s) (bit_store.at (bitRoots m) (s_Scheme s)) [] @
     walkFields m s (s_Fields s) (field_store.at (encRoots m) (s_Scheme s)) [] @
     walkFields m s (v_components (s_Identity s))
       (field_store.at (idRoots m) (v_authority (s_Identity s), v_keyType (s_Identity s))) [] @
     concat (map (confirm m s) (residual m))"

lemma walk_empty [simp]:
  "walkBits m s bs empty_bitNode dst = dst" "walkFields m s cs empty_fieldNode dst = dst"
  by (cases bs; simp add: empty_bitNode_def walkBits_child child_def)
    (cases cs; simp add: empty_fieldNode_def)

lemma walk_roots:
  "(case roots k of None \<Rightarrow> dst | Some n \<Rightarrow> walkBits m s bs n dst) = dst @ walkBits m s bs (bit_store.at roots k) []"
  "(case froots j of None \<Rightarrow> dst | Some n \<Rightarrow> walkFields m s cs n dst) = dst @ walkFields m s cs (field_store.at froots j) []"
  using walkBits_append [of m s bs "bit_store.at roots k" dst] walkFields_append [of m s cs "field_store.at froots j" dst]
  by (auto simp: bit_store.at_def field_store.at_def split: option.splits)

lemma index_Match_found: "index_Match m s dst = order m (dst @ found m s) (length dst)"
  by (simp add: index_Match_def found_def Let_def walk_roots)

lemma place_of_InBits: "place_of e = InBits sc q be \<Longrightarrow> be_entry be = e"
  by (auto simp: place_of_def bit_entry_of_def Let_def split: PatternLevel.splits option.splits if_splits)

lemma confirm_bit_sound:
  "x \<in> set (confirm_bit m s bits be) \<Longrightarrow> matches (e_pattern (be_entry be)) s \<and> x = ids m ! e_rank (be_entry be)"
  by (simp add: confirm_bit_def split: if_splits)

lemma confirm_sound: "x \<in> set (confirm m s e) \<Longrightarrow> matches (e_pattern e) s \<and> x = ids m ! e_rank e"
  by (simp add: confirm_def split: if_splits)

lemma found_sound:
  assumes "holds m E" "x \<in> set (found m s)"
  shows "\<exists>e \<in> E. matches (e_pattern e) s \<and> x = ids m ! e_rank e"
proof -
  from assms(2) consider
      (bit) be q where "be \<in> set (bit_lookup (bit_store.at (bitRoots m) (s_Scheme s)) q)"
        "\<exists>bits. x \<in> set (confirm_bit m s bits be)"
    | (enc) e q where "e \<in> set (field_lookup (field_store.at (encRoots m) (s_Scheme s)) q)" "x \<in> set (confirm m s e)"
    | (ide) e q where "e \<in> set (field_lookup (field_store.at (idRoots m)
          (v_authority (s_Identity s), v_keyType (s_Identity s))) q)" "x \<in> set (confirm m s e)"
    | (res) e where "e \<in> set (residual m)" "x \<in> set (confirm m s e)"
    by (auto simp: found_def set_walkBits set_walkFields)
  then show ?thesis
  proof cases
    case bit
    with assms(1) obtain e where "e \<in> E" "place_of e = InBits (s_Scheme s) q be" by (auto simp: holds_def)
    with bit(2) show ?thesis using place_of_InBits confirm_bit_sound by blast
  next
    case enc
    with assms(1) have "e \<in> E" by (simp add: holds_def)
    with enc(2) show ?thesis using confirm_sound by blast
  next
    case ide
    with assms(1) have "e \<in> E" by (simp add: holds_def)
    with ide(2) show ?thesis using confirm_sound by blast
  next
    case res
    with assms(1) have "e \<in> E" by (simp add: holds_def)
    with res(2) show ?thesis using confirm_sound by blast
  qed
qed

lemma set_found:
  assumes "holds m E" "\<forall>e \<in> E. bits_wf (e_pattern e) \<and> \<not> p_IsZero (e_pattern e)"
  shows "set (found m s) = {ids m ! e_rank e |e. e \<in> E \<and> matches (e_pattern e) s}"
proof
  show "set (found m s) \<subseteq> {ids m ! e_rank e |e. e \<in> E \<and> matches (e_pattern e) s}"
    using found_sound [OF assms(1)] by blast
next
  show "{ids m ! e_rank e |e. e \<in> E \<and> matches (e_pattern e) s} \<subseteq> set (found m s)"
  proof clarify
    fix e assume e: "e \<in> E" "matches (e_pattern e) s"
    have wf: "bits_wf (e_pattern e)" "\<not> p_IsZero (e_pattern e)" using assms(2) e(1) by auto
    show "ids m ! e_rank e \<in> set (found m s)"
    proof (cases "place_of e")
      case (InBits sc q be)
      then obtain b where b: "p_level (e_pattern e) = LevelEncoding" "p_bits (e_pattern e) = Some b"
        "sc = p_scheme (e_pattern e)" "q = bit_path b" "be = bit_entry_of e b"
        by (auto simp: place_of_def Let_def split: PatternLevel.splits option.splits if_splits)
      with e(2) have m: "sc = s_Scheme s" "bp_Match b (s_Bits s) (s_BitLen s)"
        by (auto simp: matches_def split: if_splits)
      have lens: "length (bp_value b) = length (bp_mask b)" using wf(1) b by (simp add: bits_wf_def)
      note pre = bp_Match_prefix [OF m(2) lens]
      have "be \<in> set (bit_lookup (bit_store.at (bitRoots m) (s_Scheme s)) q)"
        using assms(1) e(1) InBits m(1) by (auto simp: holds_def)
      moreover have "ids m ! e_rank e \<in> set (confirm_bit m s (drop (length q) (s_Bits s)) be)"
        using pre(3) [of e] b e(2) by (auto simp: confirm_bit_def bits_wf_def bit_entry_of_def Let_def)
      ultimately show ?thesis
        using pre(1,2) wf(1) b by (auto simp: found_def set_walkBits bits_wf_def intro!: bexI [of _ "length q"])
    next
      case (InIdentity k q)
      then obtain n where n: "p_level (e_pattern e) = LevelIdentity" "exactPrefix (e_pattern e) = Some n"
        "k = (p_authority (e_pattern e), p_keyType (e_pattern e))" "q = map f_text (take n (p_fields (e_pattern e)))"
        by (auto simp: place_of_def Let_def split: PatternLevel.splits option.splits if_splits)
      with e(2) have m: "k = (v_authority (s_Identity s), v_keyType (s_Identity s))"
        "list_all2 match_field (p_fields (e_pattern e)) (v_components (s_Identity s))"
        by (auto simp: matches_def MatchValue_def matchComponents_iff split: if_splits)
      note pre = match_exact_prefix [OF n(2) m(2)]
      have "e \<in> set (field_lookup (field_store.at (idRoots m) k) (map c_value (take n (v_components (s_Identity s)))))"
        using assms(1) e(1) InIdentity pre(2) n(4) by (cases k) (simp add: holds_def)
      with pre(1) e(2) m(1) show ?thesis
        by (auto simp: found_def set_walkFields confirm_def)
    next
      case (InEncoding sc q)
      then obtain n where n: "p_level (e_pattern e) = LevelEncoding" "p_bits (e_pattern e) = None"
        "exactPrefix (e_pattern e) = Some n"
        "sc = p_scheme (e_pattern e)" "q = map f_text (take n (p_fields (e_pattern e)))"
        using wf(2) by (auto simp: place_of_def Let_def p_IsZero_def split: PatternLevel.splits option.splits if_splits)
      with e(2) have m: "sc = s_Scheme s" "list_all2 match_field (p_fields (e_pattern e)) (s_Fields s)"
        by (auto simp: matches_def matchComponents_iff split: if_splits)
      note pre = match_exact_prefix [OF n(3) m(2)]
      have "e \<in> set (field_lookup (field_store.at (encRoots m) sc) (map c_value (take n (s_Fields s))))"
        using assms(1) e(1) InEncoding pre(2) n(5) by (auto simp: holds_def)
      with pre(1) e(2) m(1) show ?thesis
        by (auto simp: found_def set_walkFields confirm_def)
    next
      case InResidual
      with assms(1) e have "e \<in> set (residual m)" by (auto simp: holds_def)
      with e(2) show ?thesis by (auto simp: found_def confirm_def)
    qed
  qed
qed

section \<open>Facts: the order of the result\<close>

lemma sort_key_sorted: "sorted (map f xs) \<Longrightarrow> sort_key f xs = xs"
  by (induction xs) (simp_all add: insort_is_Cons)

lemma map_remdups_adj: "inj_on f (set xs) \<Longrightarrow> map f (remdups_adj xs) = remdups_adj (map f xs)"
  by (induction xs rule: remdups_adj.induct) (auto simp: inj_on_def)

lemma distinct_remdups_adj_sorted: "sorted (xs :: nat list) \<Longrightarrow> distinct (remdups_adj xs)"
  by (induction xs rule: remdups_adj.induct) (auto simp: le_less)

lemma order_found:
  "order m (dst @ fs) (length dst) = dst @ remdups_adj (sort_key (rank_of m) fs)"
proof (cases "length fs < 2")
  case True
  then have "fs = [] \<or> (\<exists>x. fs = [x])" by (cases fs) auto
  then show ?thesis by (auto simp: order_def)
qed (simp add: order_def Let_def sort_key_sorted)

lemma sorted_by_rank_unique:
  fixes f :: "'a \<Rightarrow> nat"
  assumes "inj_on f A" "set xs \<subseteq> A" "set ys = set xs" "sorted (map f ys)" "distinct ys"
  shows "remdups_adj (sort_key f xs) = ys"
proof -
  let ?zs = "remdups_adj (sort_key f xs)"
  have inj: "inj_on f (set xs)" using assms(1,2) by (rule inj_on_subset)
  have "map f ?zs = remdups_adj (map f (sort_key f xs))"
    using inj by (simp add: map_remdups_adj)
  then have "sorted (map f ?zs) \<and> distinct (map f ?zs)"
    by (simp add: sorted_remdups_adj distinct_remdups_adj_sorted)
  moreover have "set (map f ?zs) = set (map f ys)" using assms(3) by simp
  moreover have "distinct (map f ys)" using assms(3,5) inj by (simp add: distinct_map)
  ultimately have "map f ?zs = map f ys" using assms(4) by (blast intro: sorted_distinct_set_unique)
  then show ?thesis using inj assms(3) by (auto intro: map_inj_on)
qed

lemma rank_of_ids:
  assumes "compileIndex subs = Inr m"
  shows "inj_on (rank_of m) (set (ids m))" "map (rank_of m) (ids m) = [0..<length subs]"
proof -
  note C = compileIndex_Inr [OF assms]
  show ranks: "map (rank_of m) (ids m) = [0..<length subs]"
    using C(2,3) by (intro nth_equalityI) auto
  then show "inj_on (rank_of m) (set (ids m))"
    by (metis distinct_map distinct_upt)
qed

lemma matching_ids:
  assumes "compileIndex subs = Inr m"
  shows "set (matching subs s) = {ids m ! e_rank e |e. e \<in> all_entries subs \<and> matches (e_pattern e) s}"
    "sorted (map (rank_of m) (matching subs s))" "distinct (matching subs s)"
proof -
  note C = compileIndex_Inr [OF assms]
  show "set (matching subs s) = {ids m ! e_rank e |e. e \<in> all_entries subs \<and> matches (e_pattern e) s}"
    (is "?L = ?R")
  proof
    show "?L \<subseteq> ?R"
    proof
      fix x assume "x \<in> ?L"
      then obtain r p where "r < length subs" "p \<in> set (sub_Patterns (subs ! r))" "matches p s" "x = sub_ID (subs ! r)"
        by (auto simp: matching_def list_ex_iff in_set_conv_nth)
      then show "x \<in> ?R"
        by (auto simp: all_entries_def C(2) intro!: exI [of _ "\<lparr>e_rank = r, e_pattern = p\<rparr>"])
    qed
    show "?R \<subseteq> ?L"
      by (auto simp: all_entries_def C(2) matching_def list_ex_iff intro!: imageI)
  qed
  have "map (rank_of m \<circ> sub_ID) subs = [0..<length subs]"
    using rank_of_ids(2) [OF assms] C(2) by simp
  then have "sorted (map (rank_of m \<circ> sub_ID) subs)" by simp
  then have "sorted (map (rank_of m \<circ> sub_ID) (filter (\<lambda>sub. list_ex (\<lambda>p. matches p s) (sub_Patterns sub)) subs))"
    by (rule sorted_filter)
  then show "sorted (map (rank_of m) (matching subs s))" by (simp add: matching_def)
  show "distinct (matching subs s)"
    using valid_subs_distinct [OF C(4)] by (simp add: matching_def distinct_map_filter)
qed

interpretation index: matcher compileIndex index_Match index_Len
proof unfold_locales
  fix subs :: "subscription list" and e
  show "compileIndex subs = Inl e \<longleftrightarrow> validate subs = Inl e"
    by (auto simp: compileIndex_def bind_res_eq_Inl)
next
  fix subs m s dst
  assume c: "compileIndex subs = Inr m" and wf: "subs_wf subs"
  note C = compileIndex_Inr [OF c]
  have "\<forall>e \<in> all_entries subs. bits_wf (e_pattern e) \<and> \<not> p_IsZero (e_pattern e)"
    using wf C(4) by (fastforce simp: all_entries_def subs_wf_def valid_subs_def list_all_iff list_ex_iff)
  from set_found [OF C(1) this] have found: "set (found m s) = set (matching subs s)"
    by (simp only: matching_ids(1) [OF c])
  have "set (found m s) \<subseteq> set (ids m)"
    unfolding found by (auto simp: matching_def C(2))
  from sorted_by_rank_unique [OF rank_of_ids(1) [OF c] this found [symmetric] matching_ids(2,3) [OF c]]
  show "index_Match m s dst = dst @ matching subs s"
    by (simp add: index_Match_found order_found)
next
  fix subs m
  assume "compileIndex subs = Inr m"
  then show "index_Len m = length subs" by (simp add: index_Len_def compileIndex_Inr)
qed

interpretation index_linear: matcher_pair compileIndex index_Match index_Len compileLinear linear_Match linear_Len ..

section \<open>Compilers as values\<close>

text \<open>
  A Go interface value is the record of its methods; a compiler that fails returns no value.
\<close>

record matcher_value =
  mv_Match :: "subject \<Rightarrow> ID list \<Rightarrow> ID list"
  mv_Len :: nat

type_synonym compiler = "subscription list \<Rightarrow> filter_error + matcher_value"

definition CompileLinear :: compiler where
  "CompileLinear subscriptions =
     (case compileLinear subscriptions of
        Inl e \<Rightarrow> Inl e
      | Inr m \<Rightarrow> Inr \<lparr>mv_Match = linear_Match m, mv_Len = linear_Len m\<rparr>)"

definition CompileIndex :: compiler where
  "CompileIndex subscriptions =
     (case compileIndex subscriptions of
        Inl e \<Rightarrow> Inl e
      | Inr m \<Rightarrow> Inr \<lparr>mv_Match = index_Match m, mv_Len = index_Len m\<rparr>)"

definition Compile :: compiler where
  "Compile subscriptions = CompileIndex subscriptions"

text \<open>What a compiler owes on a subscription list.\<close>

definition honours :: "compiler \<Rightarrow> subscription list \<Rightarrow> bool" where
  "honours f subs \<longleftrightarrow> (\<forall>m. f subs = Inr m \<longrightarrow>
     (\<forall>s dst. mv_Match m s dst = dst @ matching subs s) \<and> mv_Len m = length subs)"

lemma CompileLinear_honours: "subs_wf subs \<Longrightarrow> honours CompileLinear subs"
  by (auto simp: honours_def CompileLinear_def linear.Match_compiled linear.Len_compiled split: sum.splits)

lemma CompileIndex_honours: "subs_wf subs \<Longrightarrow> honours CompileIndex subs"
  by (auto simp: honours_def CompileIndex_def index.Match_compiled index.Len_compiled split: sum.splits)

lemma Compile_honours: "subs_wf subs \<Longrightarrow> honours Compile subs"
  using CompileIndex_honours by (simp add: honours_def Compile_def)

section \<open>Properties\<close>

text \<open>
  C22. The prefix index is indistinguishable from the linear matcher: both refuse the same
  subscription lists with the same error, and on every accepted list and every subject,
  whatever bits and fields it has, they append the same identifiers in the same order.
\<close>

theorem index_equals_linear:
  assumes "subs_wf subs"
  shows "case (compileIndex subs, compileLinear subs) of
      (Inr m, Inr n) \<Rightarrow> index_Match m s dst = linear_Match n s dst \<and> index_Len m = linear_Len n
    | (Inl e, Inl e') \<Rightarrow> e = e'
    | _ \<Rightarrow> False"
proof (cases "compileIndex subs")
  case (Inl e)
  then show ?thesis using index_linear.same_errors [of subs e] by simp
next
  case (Inr m)
  then obtain n where "compileLinear subs = Inr n"
    using index.compile_ok [of subs] linear.compile_ok [of subs] by (auto simp: is_ok_iff)
  with Inr show ?thesis
    using index_linear.same_results [OF Inr _ assms] index.Len_compiled linear.Len_compiled by simp
qed

lemma index_equals_linear_witness:
  "let p = (\<lambda>v. \<lparr>p_level = LevelEncoding, p_authority = AuthorityGS1, p_keyType = KeyTypeSGTIN,
         p_scheme = ''sgtin-96'', p_fields = [\<lparr>f_name = FilterValue, f_kind = FieldAny, f_text = [], f_lo = 0, f_hi = 0\<rparr>],
         p_bits = Some \<lparr>bp_value = [48, v], bp_mask = [255, 224], bp_bitLen = 96\<rparr>, p_text = []\<rparr>);
       subs = [\<lparr>sub_ID = ''one'', sub_Patterns = [p 32]\<rparr>, \<lparr>sub_ID = ''two'', sub_Patterns = [p 96, p 64]\<rparr>];
       s = \<lparr>s_Identity = \<lparr>v_authority = AuthorityGS1, v_keyType = KeyTypeSGTIN, v_components = []\<rparr>,
            s_Scheme = ''sgtin-96'', s_Fields = [], s_Bits = [48, 116, 7], s_BitLen = 96\<rparr>
   in \<exists>m. compileIndex subs = Inr m \<and> index_Match m s [''x''] = [''x'', ''two'']"
proof -
  let ?p = "\<lambda>v. \<lparr>p_level = LevelEncoding, p_authority = AuthorityGS1, p_keyType = KeyTypeSGTIN,
         p_scheme = ''sgtin-96'', p_fields = [\<lparr>f_name = FilterValue, f_kind = FieldAny, f_text = [], f_lo = 0, f_hi = 0\<rparr>],
         p_bits = Some \<lparr>bp_value = [48, v], bp_mask = [255, 224], bp_bitLen = 96\<rparr>, p_text = []\<rparr>"
  let ?subs = "[\<lparr>sub_ID = ''one'', sub_Patterns = [?p 32]\<rparr>, \<lparr>sub_ID = ''two'', sub_Patterns = [?p 96, ?p 64]\<rparr>]"
  let ?s = "\<lparr>s_Identity = \<lparr>v_authority = AuthorityGS1, v_keyType = KeyTypeSGTIN, v_components = []\<rparr>,
            s_Scheme = ''sgtin-96'', s_Fields = [], s_Bits = [48, 116, 7], s_BitLen = 96\<rparr>"
  have wf: "subs_wf ?subs" by (simp add: subs_wf_def bits_wf_def)
  have "valid_subs ?subs"
    by (simp add: valid_subs_def MaxSubscriptions_def MaxPatternsPerSubscription_def p_IsZero_def)
  then have v: "validate ?subs = Inr ()" by (simp only: validate_iff)
  then obtain n where n: "compileLinear ?subs = Inr n" "linear_Match n ?s [''x''] = [''x'', ''two'']"
    by (simp add: compileLinear_def linear_Match_def matches_def bp_Match_def Let_def upt_rec)
  from v obtain m where m: "compileIndex ?subs = Inr m" by (auto simp: compileIndex_def)
  from index_equals_linear [OF wf, of ?s "[''x'']"] m n show ?thesis by (simp add: Let_def)
qed

text \<open>
  A compiled index reports a subscription exactly when one of its patterns matches the
  subject under the reference rule, each at most once and in subscription order, and leaves
  what the caller's buffer held before it.
\<close>

theorem index_Match_exact:
  assumes "compileIndex subs = Inr m" "subs_wf subs"
  shows "index_Match m s dst =
    dst @ map sub_ID (filter (\<lambda>sub. list_ex (\<lambda>p. matches p s) (sub_Patterns sub)) subs) \<and>
    distinct (index_Match m s [])"
  using index.Match_compiled [OF assms] index.Match_reports(2) [OF assms] by (simp add: matching_def)

lemma index_Match_exact_witness:
  "\<exists>m. compileIndex [] = Inr m \<and> index_Match m
     \<lparr>s_Identity = \<lparr>v_authority = AuthorityGS1, v_keyType = KeyTypeSGTIN, v_components = []\<rparr>,
            s_Scheme = [], s_Fields = [], s_Bits = [], s_BitLen = 0\<rparr> [''x''] = [''x'']"
proof -
  have "validate [] = Inr ()" by (simp add: validate_def)
  then obtain m where "compileIndex [] = Inr m" by (auto simp: compileIndex_def)
  with index_Match_exact [OF this] show ?thesis by (simp add: subs_wf_def)
qed

end
