(* ===== verification/Gs1_Pattern.thy ===== *)
theory Gs1_Pattern
  imports Gs1_URI
begin

text \<open>
  Compiling GS1 pattern URIs, from \<^verbatim>\<open>src/internal/tdt/gs1epc/pattern.go\<close>: identity-level and
  tag-level patterns, their fields, and the bit test that a tag pattern may carry.
\<close>

section \<open>Syntax\<close>

definition isAny :: "string \<Rightarrow> bool" where
  "isAny s \<longleftrightarrow> s = ''*''"

definition isRange :: "string \<Rightarrow> bool" where
  "isRange s \<longleftrightarrow> HasPrefix s ''['' \<and> HasSuffix s '']''"

definition allAnyFrom :: "string list \<Rightarrow> nat \<Rightarrow> bool" where
  "allAnyFrom parts start \<longleftrightarrow> list_all isAny (drop start parts)"

definition splitPattern :: "string \<Rightarrow> string \<Rightarrow> tdt_error + string \<times> string list" where
  "splitPattern text prefix =
     (case Cut (TrimPrefix text prefix) CHR '':'' of
        None \<Rightarrow> Inl ErrMalformedPattern
      | Some (name, body) \<Rightarrow>
          if name = [] \<or> body = [] then Inl ErrMalformedPattern
          else Inr (name, Split body CHR ''.''))"

definition companyPrefixError :: "string \<Rightarrow> string \<Rightarrow> tdt_error" where
  "companyPrefixError scheme value =
     (if isAny value then FromPattern ErrPatternStar
      else if isRange value
      then Field scheme ''gs1companyprefix'' ''range-not-allowed'' value ''a company prefix range cannot select a partition''
      else if Trim value ''0123456789'' \<noteq> []
      then Field scheme ''gs1companyprefix'' ''charset'' value ''a GS1 company prefix is 6-12 digits''
      else Field scheme ''gs1companyprefix'' ''length'' value ''TDS 2.2 company prefix lengths 6-12'')"

definition optionForPattern :: "gs1_scheme \<Rightarrow> string list \<Rightarrow> nat \<Rightarrow> gs1_option option" where
  "optionForPattern s parts gcpIndex =
     (if gcpIndex \<ge> length parts then None
      else let gcp = parts ! gcpIndex in
        if isAny gcp \<or> isRange gcp then None
        else sd_Option (sch_def s) (length gcp))"

section \<open>Fields\<close>

definition parseRange :: "string \<Rightarrow> uri_field \<Rightarrow> string \<Rightarrow> tdt_error + u64 \<times> u64" where
  "parseRange label f text =
     (let body = TrimSuffix (TrimPrefix text ''['') '']'' in
      case Cut body CHR ''-'' of
        None \<Rightarrow> Inl (Field label (uf_Name f) ''range-syntax'' text ''TDS 2.2 pattern range'')
      | Some (loText, hiText) \<Rightarrow>
          case ParseUint64 loText of
            None \<Rightarrow> Inl (Field label (uf_Name f) ''range-syntax'' text ''TDS 2.2 pattern range'')
          | Some lo \<Rightarrow>
              case ParseUint64 hiText of
                None \<Rightarrow> Inl (Field label (uf_Name f) ''range-syntax'' text ''TDS 2.2 pattern range'')
              | Some hi \<Rightarrow>
                  if lo > hi then Inl (Field label (uf_Name f) ''range-order'' text ''TDS 2.2 pattern range'')
                  else if hi > uf_DecimalMax f
                  then Inl (Field label (uf_Name f) ''range'' text (''TDS 2.2 maximum '' @ itoa (unat (uf_DecimalMax f))))
                  else Inr (lo, hi))"

definition patternField :: "string \<Rightarrow> bool \<Rightarrow> uri_field \<Rightarrow> string \<Rightarrow> tdt_error + field_pattern" where
  "patternField label allowRange f text =
     (let name = componentName (uf_Name f) in
      if isAny text then Inr \<lparr>f_name = name, f_kind = FieldAny, f_text = [], f_lo = 0, f_hi = 0\<rparr>
      else if isRange text then
        (if \<not> allowRange
         then Inl (Field label (uf_Name f) ''range-not-allowed'' text ''TDS 2.2 ID patterns take values or *'')
         else bind_res (parseRange label f text) (\<lambda>(lo, hi).
           Inr \<lparr>f_name = name, f_kind = FieldRange, f_text = [], f_lo = lo, f_hi = hi\<rparr>))
      else bind_res (parseField label f text) (\<lambda>_.
        Inr \<lparr>f_name = name, f_kind = FieldExact, f_text = text, f_lo = 0, f_hi = 0\<rparr>))"

text \<open>The code indexes \<open>parts\<close> by the position of the field; callers pass one part per field.\<close>

definition patternFields :: "string \<Rightarrow> uri_field list \<Rightarrow> string list \<Rightarrow> bool \<Rightarrow> tdt_error + field_pattern list" where
  "patternFields label uriFields parts allowRange =
     map_res (\<lambda>(f, text). patternField label allowRange f text) (zip uriFields parts)"

section \<open>The bit test\<close>

type_synonym test_bits = "bytes \<times> bytes"

definition pin :: "nat \<Rightarrow> nat \<Rightarrow> u64 \<Rightarrow> test_bits \<Rightarrow> test_bits" where
  "pin offset len v = (\<lambda>(value, msk).
     (setBits value offset len v, setBits msk offset len (drop_bit (64 - len) (NOT 0))))"

definition clear_bit :: "bytes \<Rightarrow> nat \<Rightarrow> bytes" where
  "clear_bit data bt = data[bt div 8 := data ! (bt div 8) AND NOT (push_bit (7 - bt mod 8) 1)]"

definition pinField :: "string \<Rightarrow> field_pattern \<times> binary_field \<Rightarrow> nat \<times> test_bits \<Rightarrow> tdt_error + nat \<times> test_bits" where
  "pinField label = (\<lambda>(f, bf) (covered, bits).
     if f_kind f = FieldAny then Inr (min covered (bf_BitOffset bf), bits)
     else if f_text f = [] then Inr (covered, pin (bf_BitOffset bf) (bf_BitLength bf) 0 bits)
     else case ParseUint64 (f_text f) of
            None \<Rightarrow> Inl (Field label (bf_Name bf) ''range'' (f_text f) [])
          | Some n \<Rightarrow> Inr (covered, pin (bf_BitOffset bf) (bf_BitLength bf) n bits))"

text \<open>
  The option is \<open>None\<close> where the code's is not known. The fields are indexed in step with the
  option's binary fields.
\<close>

definition patternBits :: "gs1_scheme \<Rightarrow> gs1_option option \<Rightarrow> field_pattern list \<Rightarrow> tdt_error + bit_pattern option" where
  "patternBits s known fs =
     (let def = sch_def s;
          size' = (sd_TagLength def + 7) div 8;
          (value, msk) = pin 0 (sd_HeaderBits def) (sd_Header def) (replicate size' 0, replicate size' 0)
      in if list_ex (\<lambda>f. f_kind f = FieldRange) fs then Inr None
      else case known of
        None \<Rightarrow>
          if list_ex (\<lambda>f. f_kind f = FieldExact) fs then Inr None
          else let headerBytes = (sd_HeaderBits def + 7) div 8 in
            (case NewBitPattern (take headerBytes value) (take headerBytes msk) (int (sd_HeaderBits def)) of
               Inl e \<Rightarrow> Inl (FromPattern e)
             | Inr b \<Rightarrow> Inr (Some b))
      | Some opt \<Rightarrow>
          bind_res (fold_res (pinField (sch_id s)) (zip fs (BinaryFields opt)) (sd_TagLength def, (value, msk)))
            (\<lambda>(covered, (value, msk)).
             let msk = foldl clear_bit msk [covered..<sd_TagLength def];
                 value = foldl clear_bit value [covered..<sd_TagLength def];
                 (value, msk) = foldl (\<lambda>bits l. pin (bl_BitOffset l) (bl_BitLength l) (bl_Value l) bits)
                   (value, msk) (BinaryLiterals opt)
             in case NewBitPattern value msk (int (sd_TagLength def)) of
                  Inl e \<Rightarrow> Inl (FromPattern e)
                | Inr b \<Rightarrow> Inr (Some b)))"

section \<open>Compiling\<close>

definition compileIDPattern :: "string \<Rightarrow> tdt_error + pattern" where
  "compileIDPattern text =
     bind_res (splitPattern text ''urn:epc:idpat:'') (\<lambda>(key, parts).
     bind_res (LookupKey key) (\<lambda>s.
     let opt = optionForPattern s parts 0 in
     if opt = None \<and> \<not> allAnyFrom parts 0 then Inl (companyPrefixError (sch_key s) (parts ! 0))
     else let uriFields = (case opt of None \<Rightarrow> PureFields (sd_Options (sch_def s) ! 0) | Some opt \<Rightarrow> PureFields opt) in
       if length parts \<noteq> length uriFields then Inl ErrMalformedPattern
       else bind_res (patternFields (sch_key s) uriFields parts False) (\<lambda>fs.
         case NewPattern LevelIdentity AuthorityGS1 (sch_keyType s) [] fs None text of
           Inl e \<Rightarrow> Inl (FromPattern e)
         | Inr p \<Rightarrow> Inr p)))"

definition compileTagPattern :: "string \<Rightarrow> tdt_error + pattern" where
  "compileTagPattern text =
     bind_res (splitPattern text ''urn:epc:pat:'') (\<lambda>(i, parts).
     bind_res (Lookup i) (\<lambda>s.
     let known = optionForPattern s parts 1;
         uriFields = (case known of None \<Rightarrow> TagFields (sd_Options (sch_def s) ! 0) | Some opt \<Rightarrow> TagFields opt)
     in if length parts \<noteq> length uriFields then Inl ErrMalformedPattern
     else if known = None \<and> \<not> allAnyFrom parts 1 then Inl (companyPrefixError (sch_id s) (parts ! 1))
     else bind_res (patternFields (sch_id s) uriFields parts True) (\<lambda>fs.
       bind_res (patternBits s known fs) (\<lambda>bits.
         case NewPattern LevelEncoding AuthorityGS1 (sch_keyType s) (sch_id s) fs bits text of
           Inl e \<Rightarrow> Inl (FromPattern e)
         | Inr p \<Rightarrow> Inr p))))"

definition gs1_CompilePattern :: "string \<Rightarrow> tdt_error + pattern" where
  "gs1_CompilePattern text =
     (if HasPrefix text ''urn:epc:idpat:'' then compileIDPattern text
      else if HasPrefix text ''urn:epc:pat:'' then compileTagPattern text
      else Inl ErrMalformedPattern)"

section \<open>Facts: the bits of a test\<close>

lemma pin_simps [simp]:
  "length (fst (pin offset n v b)) = length (fst b)"
  "length (snd (pin offset n v b)) = length (snd b)"
  by (simp_all add: pin_def split_beta)

lemma bit_ones: "n \<le> 64 \<Longrightarrow> j < n \<Longrightarrow> bit (drop_bit (64 - n) (NOT 0 :: u64)) j"
  by (simp add: bit_simps)

lemma tag_bit_pin:
  assumes "offset + n \<le> 8 * length (fst b)" "n \<le> 64" "length (snd b) = length (fst b)" "i < 8 * length (fst b)"
  shows "tag_bit (fst (pin offset n v b)) i \<longleftrightarrow> tag_bit (fst b) i \<or> covers i (offset, n) \<and> field_bit offset n v i"
    "tag_bit (snd (pin offset n v b)) i \<longleftrightarrow> tag_bit (snd b) i \<or> covers i (offset, n)"
proof -
  show "tag_bit (fst (pin offset n v b)) i \<longleftrightarrow> tag_bit (fst b) i \<or> covers i (offset, n) \<and> field_bit offset n v i"
    using assms by (simp add: pin_def split_beta tag_bit_setBits)
  have "covers i (offset, n) \<Longrightarrow> field_bit offset n (drop_bit (64 - n) (NOT 0)) i"
    using assms(2) bit_ones [of n "n - 1 - (i - offset)"] by (auto simp: field_bit_def covers_def)
  then show "tag_bit (snd (pin offset n v b)) i \<longleftrightarrow> tag_bit (snd b) i \<or> covers i (offset, n)"
    using assms by (auto simp: pin_def split_beta tag_bit_setBits)
qed

definition pins :: "site list \<Rightarrow> test_bits \<Rightarrow> test_bits" where
  "pins ws b = foldl (\<lambda>b (offset, n, v). pin offset n v b) b ws"

definition sites_fit :: "site list \<Rightarrow> bool" where
  "sites_fit ws \<longleftrightarrow> list_all (\<lambda>(offset, n, v). n \<le> 64 \<and> offset + n \<le> 96) ws"

lemma pins_simps [simp]:
  "pins [] b = b"
  "pins (w # ws) b = pins ws (pin (fst w) (fst (snd w)) (snd (snd w)) b)"
  "pins (ws @ us) b = pins us (pins ws b)"
  by (simp_all add: pins_def split_beta)

lemma length_pins [simp]:
  "length (fst (pins ws b)) = length (fst b)"
  "length (snd (pins ws b)) = length (snd b)"
  by (induction ws arbitrary: b) simp_all

lemma tag_bit_pins:
  assumes "sites_fit ws" "length (fst b) = 12" "length (snd b) = 12" "i < 96"
  shows "tag_bit (fst (pins ws b)) i \<longleftrightarrow> tag_bit (fst b) i \<or>
      (\<exists>(offset, n, v) \<in> set ws. covers i (offset, n) \<and> field_bit offset n v i)"
    "tag_bit (snd (pins ws b)) i \<longleftrightarrow> tag_bit (snd b) i \<or> (\<exists>(offset, n, v) \<in> set ws. covers i (offset, n))"
proof -
  have "(tag_bit (fst (pins ws b)) i \<longleftrightarrow> tag_bit (fst b) i \<or>
      (\<exists>(offset, n, v) \<in> set ws. covers i (offset, n) \<and> field_bit offset n v i)) \<and>
    (tag_bit (snd (pins ws b)) i \<longleftrightarrow> tag_bit (snd b) i \<or> (\<exists>(offset, n, v) \<in> set ws. covers i (offset, n)))"
    using assms
  proof (induction ws arbitrary: b)
    case (Cons w ws)
    obtain offset n v where w: "w = (offset, n, v)" by (cases w)
    have fit: "n \<le> 64" "offset + n \<le> 96" "sites_fit ws" using Cons.prems(1) by (simp_all add: sites_fit_def w)
    then show ?case
      using Cons.IH [of "pin offset n v b"] Cons.prems(2-4) tag_bit_pin [of offset n b i v] by (simp add: w)
  qed simp
  then show "tag_bit (fst (pins ws b)) i \<longleftrightarrow> tag_bit (fst b) i \<or>
      (\<exists>(offset, n, v) \<in> set ws. covers i (offset, n) \<and> field_bit offset n v i)"
    "tag_bit (snd (pins ws b)) i \<longleftrightarrow> tag_bit (snd b) i \<or> (\<exists>(offset, n, v) \<in> set ws. covers i (offset, n))"
    by blast+
qed

lemma length_clear_bit [simp]: "length (clear_bit data bt) = length data"
  by (simp add: clear_bit_def)

lemma length_clear_bits [simp]: "length (foldl clear_bit data xs) = length data"
  by (induction xs arbitrary: data) simp_all

lemma tag_bit_clear_bit:
  assumes "bt < 8 * length data" "i < 8 * length data"
  shows "tag_bit (clear_bit data bt) i \<longleftrightarrow> tag_bit data i \<and> i \<noteq> bt"
proof (cases "i div 8 = bt div 8")
  case True
  have "7 - i mod 8 = 7 - bt mod 8 \<longleftrightarrow> i mod 8 = bt mod 8"
    using mod_less_divisor [of 8 i] mod_less_divisor [of 8 bt] by linarith
  also have "\<dots> \<longleftrightarrow> i = bt" using True by (metis div_mult_mod_eq)
  finally show ?thesis
    using assms True by (auto simp: tag_bit_def clear_bit_def bit_simps less_mult_imp_div_less mult.commute)
next
  case False
  then show ?thesis by (auto simp: tag_bit_def clear_bit_def)
qed

lemma tag_bit_clear:
  assumes "len \<le> 8 * length data" "i < 8 * length data"
  shows "length (foldl clear_bit data [start..<len]) = length data \<and>
    (tag_bit (foldl clear_bit data [start..<len]) i \<longleftrightarrow> tag_bit data i \<and> \<not> (start \<le> i \<and> i < len))"
  using assms(1)
proof (induction len)
  case (Suc len)
  show ?case
  proof (cases "start \<le> len")
    case True
    then have IH: "length (foldl clear_bit data [start..<len]) = length data"
      "tag_bit (foldl clear_bit data [start..<len]) i \<longleftrightarrow> tag_bit data i \<and> \<not> (start \<le> i \<and> i < len)"
      using Suc by auto
    have "tag_bit (clear_bit (foldl clear_bit data [start..<len]) len) i \<longleftrightarrow>
        tag_bit (foldl clear_bit data [start..<len]) i \<and> i \<noteq> len"
      using Suc.prems assms(2) IH(1) by (intro tag_bit_clear_bit) simp_all
    with IH True show ?thesis by auto
  qed auto
qed simp

text \<open>The bit test of a tag as a statement about its single bits.\<close>

lemma bp_Match_bits:
  assumes "length (bp_mask b) = k" "length (bp_value b) = k" "k \<le> length bits"
  shows "bp_Match b bits n \<longleftrightarrow> bp_bitLen b \<le> n \<and>
    (\<forall>i < 8 * k. tag_bit (bp_mask b) i \<longrightarrow> tag_bit bits i = tag_bit (bp_value b) i)"
proof -
  have byte: "bp_mask b ! j = 0 \<or> bits ! j AND bp_mask b ! j = bp_value b ! j AND bp_mask b ! j \<longleftrightarrow>
      (\<forall>m < 8. tag_bit (bp_mask b) (8 * j + m) \<longrightarrow> tag_bit bits (8 * j + m) = tag_bit (bp_value b) (8 * j + m))" for j
  proof -
    have "bp_mask b ! j = 0 \<or> bits ! j AND bp_mask b ! j = bp_value b ! j AND bp_mask b ! j \<longleftrightarrow>
        bits ! j AND bp_mask b ! j = bp_value b ! j AND bp_mask b ! j" by auto
    also have "\<dots> \<longleftrightarrow> (\<forall>m < 8. bit (bp_mask b ! j) m \<longrightarrow> bit (bits ! j) m = bit (bp_value b ! j) m)"
      by (auto simp: bit_eq_iff bit_simps)
    also have "\<dots> \<longleftrightarrow> (\<forall>m < 8. bit (bp_mask b ! j) (7 - m) \<longrightarrow> bit (bits ! j) (7 - m) = bit (bp_value b ! j) (7 - m))"
      (is "?L \<longleftrightarrow> ?R")
    proof
      assume R: ?R
      show ?L
      proof (intro allI impI)
        fix m :: nat assume "m < 8" "bit (bp_mask b ! j) m"
        with R [rule_format, of "7 - m"] show "bit (bits ! j) m = bit (bp_value b ! j) m" by simp
      qed
    qed simp
    finally show ?thesis by (simp add: tag_bit_def)
  qed
  have "(\<forall>i < 8 * k. P i) \<longleftrightarrow> (\<forall>j < k. \<forall>m < 8. P (8 * j + m))" for P :: "nat \<Rightarrow> bool"
  proof
    assume H: "\<forall>j < k. \<forall>m < 8. P (8 * j + m)"
    show "\<forall>i < 8 * k. P i"
    proof (intro allI impI)
      fix i assume "i < 8 * k"
      then have j: "i div 8 < k" by (simp add: less_mult_imp_div_less mult.commute)
      have m: "i mod 8 < 8" by simp
      from H [rule_format, OF j m] show "P i" by (simp only: mult_div_mod_eq)
    qed
  qed auto
  then show ?thesis
    using assms by (auto simp: bp_Match_def Let_def list_all_iff byte)
qed

section \<open>Facts: the fields of a pattern\<close>

definition field_of :: "uri_field \<Rightarrow> field_pattern \<Rightarrow> bool" where
  "field_of f fp \<longleftrightarrow> f_name fp = componentName (uf_Name f) \<and>
     (case f_kind fp of
        FieldAny \<Rightarrow> f_text fp = []
      | FieldExact \<Rightarrow> (\<exists>n \<le> uf_DecimalMax f. f_text fp = render f n)
      | FieldRange \<Rightarrow> f_lo fp \<le> f_hi fp \<and> f_hi fp \<le> uf_DecimalMax f
      | KindUnset \<Rightarrow> False)"

definition exact_value :: "field_pattern \<Rightarrow> u64" where
  "exact_value fp = (if f_kind fp = FieldExact then (case ParseUint64 (f_text fp) of None \<Rightarrow> 0 | Some n \<Rightarrow> n) else 0)"

lemma patternField_of:
  assumes "field_ok f" "patternField label allow f part = Inr fp"
  shows "field_of f fp"
proof -
  consider "isAny part" | "\<not> isAny part" "isRange part" | "\<not> isAny part" "\<not> isRange part" by blast
  then show ?thesis
  proof cases
    case 2
    with assms obtain lo hi where "parseRange label f part = Inr (lo, hi)" "f_kind fp = FieldRange"
      "f_lo fp = lo" "f_hi fp = hi" "f_name fp = componentName (uf_Name f)"
      by (auto simp: patternField_def Let_def split: if_splits)
    moreover from this(1) have "lo \<le> hi \<and> hi \<le> uf_DecimalMax f"
      by (auto simp: parseRange_def Let_def ok_simps not_less split: prod.splits)
    ultimately show ?thesis by (simp add: field_of_def)
  next
    case 3
    with assms(2) obtain n where n: "parseField label f part = Inr n"
      and fp: "fp = \<lparr>f_name = componentName (uf_Name f), f_kind = FieldExact, f_text = part, f_lo = 0, f_hi = 0\<rparr>"
      by (auto simp: patternField_def Let_def)
    have "render f n = part" "n \<le> uf_DecimalMax f" using render_parse [OF assms(1) n] by auto
    with fp show ?thesis by (auto simp: field_of_def intro: exI [of _ n])
  qed (use assms in \<open>auto simp: patternField_def Let_def field_of_def\<close>)
qed

lemma patternFields_of:
  assumes "list_all field_ok fs" "length parts = length fs" "patternFields label fs parts allow = Inr fps"
  shows "list_all2 field_of fs fps"
  using assms(2,1,3)
proof (induction parts fs arbitrary: fps rule: list_induct2)
  case (Cons part parts f fs)
  then obtain fp fps' where fp: "fps = fp # fps'" "patternField label allow f part = Inr fp"
    "patternFields label fs parts allow = Inr fps'"
    by (auto simp: patternFields_def)
  have "field_of f fp" using Cons.prems(1) fp(2) by (intro patternField_of) simp_all
  moreover have "list_all2 field_of fs fps'" using Cons.prems(1) fp(3) by (intro Cons.IH) simp_all
  ultimately show ?case using fp(1) by simp
qed (simp add: patternFields_def)

lemma render_inject:
  assumes "field_ok f" "n \<le> uf_DecimalMax f" "m \<le> uf_DecimalMax f"
  shows "render f n = render f m \<longleftrightarrow> n = m"
proof
  assume "render f n = render f m"
  from parse_render [OF assms(1,2), of "[]", unfolded this] show "n = m"
    by (simp add: parse_render [OF assms(1,3)])
qed simp

lemma exact_value_render:
  assumes "field_ok f" "n \<le> uf_DecimalMax f" "f_kind fp = FieldExact" "f_text fp = render f n"
  shows "exact_value fp = n" "f_text fp \<noteq> [] \<Longrightarrow> ParseUint64 (f_text fp) = Some n"
proof -
  have p: "parseField [] f (f_text fp) = Inr n" using parse_render [OF assms(1,2)] assms(4) by simp
  have "ParseUint64 [] = None" by (simp add: ParseUint64_def)
  with p assms(3) show "exact_value fp = n"
    by (auto simp: exact_value_def parseField_Inr split: if_splits)
  show "f_text fp \<noteq> [] \<Longrightarrow> ParseUint64 (f_text fp) = Some n"
    using p by (auto simp: parseField_Inr split: if_splits)
qed

lemma match_exact:
  assumes "field_ok f" "field_of f fp" "v \<le> uf_DecimalMax f" "f_kind fp \<noteq> FieldRange"
  shows "match_field fp \<lparr>c_name = componentName (uf_Name f), c_value = render f v\<rparr> \<longleftrightarrow>
    f_kind fp = FieldAny \<or> v = exact_value fp"
proof (cases "f_kind fp")
  case FieldExact
  then obtain n where n: "n \<le> uf_DecimalMax f" "f_text fp = render f n" using assms(2) by (auto simp: field_of_def)
  show ?thesis
    using FieldExact n assms(2) render_inject [OF assms(1,3) n(1)] exact_value_render(1) [OF assms(1) n(1) FieldExact n(2)]
    by (simp add: match_field_def field_of_def)
qed (use assms in \<open>auto simp: match_field_def field_of_def\<close>)

definition star_vector :: "gs1_option \<Rightarrow> field_pattern list \<Rightarrow> u64 list \<Rightarrow> bool" where
  "star_vector opt fps vs \<longleftrightarrow> list_all2 (\<lambda>fp v. f_kind fp = FieldAny \<or> v = exact_value fp) fps vs"

lemma match_vector:
  assumes "list_all field_ok fs" "list_all2 field_of fs fps" "list_all2 (\<lambda>f v. v \<le> uf_DecimalMax f) fs vs"
    "list_all (\<lambda>fp. f_kind fp \<noteq> FieldRange) fps"
  shows "list_all2 match_field fps (components fs vs) \<longleftrightarrow>
    list_all2 (\<lambda>fp v. f_kind fp = FieldAny \<or> v = exact_value fp) fps vs"
  using assms(2,1,3,4)
proof (induction fs fps arbitrary: vs rule: list_all2_induct)
  case (Cons f fs fp fps)
  then obtain v ws where vs: "vs = v # ws" "v \<le> uf_DecimalMax f" by (auto simp: list_all2_Cons1)
  with Cons show ?case using match_exact [of f fp v] by (simp add: components_def)
qed (auto simp: components_def)

lemma exact_values_ok:
  assumes "option_ok s opt" "list_all2 field_of (TagFields opt) fps"
  shows "values_ok opt (map exact_value fps)"
proof -
  have "list_all field_ok (TagFields opt)" using assms(1) by (simp add: option_ok_def)
  with assms(2) have "list_all2 (\<lambda>f v. v \<le> uf_DecimalMax f) (TagFields opt) (map exact_value fps)"
  proof (induction rule: list_all2_induct)
    case (Cons f fs fp fps)
    have "exact_value fp \<le> uf_DecimalMax f"
    proof (cases "f_kind fp = FieldExact")
      case True
      with Cons.hyps obtain n where "n \<le> uf_DecimalMax f" "f_text fp = render f n" by (auto simp: field_of_def)
      with exact_value_render(1) [of f n fp] True Cons.prems show ?thesis by simp
    qed (simp add: exact_value_def)
    with Cons show ?case by simp
  qed simp
  then show ?thesis by (simp add: tag_values [OF assms(1)])
qed

section \<open>Facts: what a bit test pins\<close>

definition exact_sites :: "(field_pattern \<times> binary_field) list \<Rightarrow> site list" where
  "exact_sites zs = map (\<lambda>(fp, bf). (bf_BitOffset bf, bf_BitLength bf, exact_value fp))
     (filter (\<lambda>(fp, bf). f_kind fp \<noteq> FieldAny) zs)"

definition star_start :: "nat \<Rightarrow> (field_pattern \<times> binary_field) list \<Rightarrow> nat" where
  "star_start c zs = foldl (\<lambda>c (fp, bf). if f_kind fp = FieldAny then min c (bf_BitOffset bf) else c) c zs"

lemma pin_fields:
  assumes "list_all2 field_of fs fps" "list_all field_ok fs" "list_all (\<lambda>fp. f_kind fp \<noteq> FieldRange) fps"
    "length bfs = length fps"
  shows "fold_res (pinField label) (zip fps bfs) (c, b) = Inr (star_start c (zip fps bfs), pins (exact_sites (zip fps bfs)) b)"
  using assms
proof (induction fs fps arbitrary: bfs c b rule: list_all2_induct)
  case (Cons f fs fp fps)
  obtain bf bfs' where bfs: "bfs = bf # bfs'" "length bfs' = length fps" using Cons.prems(3) by (cases bfs) auto
  note IH = Cons.IH [OF _ _ bfs(2)]
  show ?case
  proof (cases "f_kind fp")
    case FieldAny
    then show ?thesis using IH Cons.prems by (simp add: bfs pinField_def exact_sites_def star_start_def)
  next
    case FieldExact
    then obtain n where n: "n \<le> uf_DecimalMax f" "f_text fp = render f n" using Cons.hyps by (auto simp: field_of_def)
    have "field_ok f" using Cons.prems by simp
    note v = exact_value_render [OF this n(1) FieldExact n(2)]
    have "n = 0" if "f_text fp = []"
      using v(1) that by (simp add: exact_value_def ParseUint64_def split: if_splits)
    then show ?thesis
      using IH Cons.prems FieldExact v
      by (cases "f_text fp = []") (simp_all add: bfs pinField_def exact_sites_def star_start_def)
  qed (use Cons in \<open>simp_all add: field_of_def\<close>)
qed (simp add: exact_sites_def star_start_def)

definition in_order :: "binary_field list \<Rightarrow> bool" where
  "in_order bfs \<longleftrightarrow> sorted_wrt (\<lambda>a b. bf_BitOffset a + bf_BitLength a \<le> bf_BitOffset b) bfs"

lemma fields_in_order:
  assumes "s \<in> set schemes" "opt \<in> set (sd_Options (sch_def s))"
  shows "in_order (BinaryFields opt)"
proof -
  have "list_all (\<lambda>opt. in_order (BinaryFields opt)) (sd_Options sgtin_96)"
    "list_all (\<lambda>opt. in_order (BinaryFields opt)) (sd_Options sscc_96)"
    "list_all (\<lambda>opt. in_order (BinaryFields opt)) (sd_Options giai_96)"
    "list_all (\<lambda>opt. in_order (BinaryFields opt)) (sd_Options grai_96)"
    by (simp_all add: in_order_def scheme_defs option_defs row_defs)
  with assms show ?thesis by (auto simp: schemes_eq gs1_scheme_defs list_all_iff)
qed

lemma star_start_ge:
  "x \<le> c \<Longrightarrow> list_all (\<lambda>(fp, bf). x \<le> bf_BitOffset bf) zs \<Longrightarrow> x \<le> star_start c zs"
proof (induction zs arbitrary: c)
  case (Cons z zs)
  then show ?case by (cases z) (simp add: star_start_def)
qed (simp add: star_start_def)

lemma exact_before_stars:
  assumes "stars_last' fps" "in_order bfs" "length bfs = length fps"
    "list_all (\<lambda>bf. bf_BitOffset bf + bf_BitLength bf \<le> c) bfs" "(fp, bf) \<in> set (zip fps bfs)" "f_kind fp \<noteq> FieldAny"
  shows "bf_BitOffset bf + bf_BitLength bf \<le> star_start c (zip fps bfs)"
  using assms
proof (induction fps arbitrary: bfs)
  case (Cons g gs)
  then obtain h hs where bfs: "bfs = h # hs" by (cases bfs) auto
  have later: "list_all (\<lambda>(fp, bf). bf_BitOffset h + bf_BitLength h \<le> bf_BitOffset bf) (zip gs hs)"
    using Cons.prems(2) by (auto simp: bfs in_order_def list_all_iff dest: set_zip_rightD)
  have all_stars: False if "f_kind g = FieldAny"
  proof -
    have "fp \<in> set (g # gs)" using Cons.prems(5) by (auto dest: set_zip_leftD)
    with that Cons.prems(1,6) show False by (auto simp: list_all_iff)
  qed
  then have first: "star_start c ((g, h) # zip gs hs) = star_start c (zip gs hs)"
    by (auto simp: bfs star_start_def)
  show ?case
  proof (cases "(fp, bf) = (g, h)")
    case True
    then show ?thesis using star_start_ge [OF _ later] Cons.prems(4) by (simp add: bfs first)
  next
    case False
    then have "(fp, bf) \<in> set (zip gs hs)" using Cons.prems(5) by (simp add: bfs) blast
    with Cons.IH [of hs] Cons.prems all_stars show ?thesis
      by (auto simp: bfs first in_order_def split: if_splits)
  qed
qed simp

definition pinned :: "gs1_option \<Rightarrow> field_pattern list \<Rightarrow> site list" where
  "pinned opt fps = lit_sites opt @ exact_sites (zip fps (BinaryFields opt))"

lemma pinned_subset:
  assumes "length fps = length (BinaryFields opt)"
  shows "set (pinned opt fps) \<subseteq> set (lit_sites opt @ field_sites opt (map exact_value fps))"
proof -
  have "set (exact_sites (zip fps (BinaryFields opt))) \<subseteq> set (field_sites opt (map exact_value fps))"
    using assms by (force simp: exact_sites_def field_sites_def in_set_zip)
  then show ?thesis by (auto simp: pinned_def)
qed

lemma NewBitPattern_full:
  "length value = 12 \<Longrightarrow> length msk = 12 \<Longrightarrow>
   NewBitPattern value msk 96 = Inr \<lparr>bp_value = value, bp_mask = msk, bp_bitLen = 96\<rparr>"
  by (simp add: NewBitPattern_def wrap64_def signed_divide_int_def)

lemma sites_fit_tiled:
  assumes "tiling (map place ws) 96" "set us \<subseteq> set ws"
  shows "sites_fit us"
proof -
  have "n \<le> 64 \<and> offset + n \<le> 96" if "(offset, n, v) \<in> set us" for offset n v
    using tiling_sites [OF assms(1)] assms(2) that by blast
  then show ?thesis by (auto simp: sites_fit_def list_all_iff)
qed

lemma patternBits_Some:
  assumes s: "s \<in> set schemes" "opt \<in> set (sd_Options (sch_def s))"
    and fps: "list_all2 field_of (TagFields opt) fps" "stars_last' fps"
    and b: "patternBits s (Some opt) fps = Inr (Some b)"
  shows "list_all (\<lambda>fp. f_kind fp \<noteq> FieldRange) fps" "length (bp_value b) = 12" "length (bp_mask b) = 12" "bp_bitLen b = 96"
    "i < 96 \<Longrightarrow> tag_bit (bp_mask b) i \<longleftrightarrow> (\<exists>(offset, n, v) \<in> set (pinned opt fps). covers i (offset, n))"
    "i < 96 \<Longrightarrow> tag_bit (bp_value b) i \<longleftrightarrow>
      (\<exists>(offset, n, v) \<in> set (pinned opt fps). covers i (offset, n) \<and> field_bit offset n v i)"
proof -
  note sok = schemes_ok [OF s(1)] and ok = option_okD [OF schemes_ok [OF s(1)] s(2)]
  have len: "sd_TagLength (sch_def s) = 96" "sd_HeaderBits (sch_def s) = 8" using sok by (simp_all add: scheme_ok_def)
  have count: "length (BinaryFields opt) = length fps"
    using ok list_all2_lengthD [OF fps(1)] by (auto simp: option_ok_def dest: map_eq_imp_length_eq)
  have fields: "list_all field_ok (TagFields opt)" using ok by (simp add: option_ok_def)
  have "patternBits s (Some opt) fps = Inr None" if "list_ex (\<lambda>f. f_kind f = FieldRange) fps"
    using that by (simp add: patternBits_def Let_def split_beta)
  then show noranges: "list_all (\<lambda>fp. f_kind fp \<noteq> FieldRange) fps"
    using b by (auto simp: list_ex_iff list_all_iff)
  define zs where "zs = zip fps (BinaryFields opt)"
  define hdr where "hdr = (0 :: nat, 8 :: nat, sd_Header (sch_def s))"
  let ?zero = "(replicate 12 0, replicate 12 0) :: test_bits"
  define A where "A = pins (hdr # exact_sites zs) ?zero"
  define C where "C = (foldl clear_bit (fst A) [star_start 96 zs..<96], foldl clear_bit (snd A) [star_start 96 zs..<96])"
  define R where "R = pins (lit_sites opt) C"
  have ones: "\<not> list_ex (\<lambda>f. f_kind f = FieldRange) fps" using noranges by (simp add: list_ex_iff list_all_iff)
  have lits: "foldl (\<lambda>bits l. pin (bl_BitOffset l) (bl_BitLength l) (bl_Value l) bits) c ls =
      pins (map (\<lambda>l. (bl_BitOffset l, bl_BitLength l, bl_Value l)) ls) c" for c ls
    by (induction ls arbitrary: c) simp_all
  have "patternBits s (Some opt) fps =
      (case NewBitPattern (fst R) (snd R) 96 of Inl e \<Rightarrow> Inl (FromPattern e) | Inr b \<Rightarrow> Inr (Some b))"
    by (simp add: patternBits_def Let_def len ones pin_fields [OF fps(1) fields noranges count] lits
        A_def C_def R_def hdr_def zs_def lit_sites_def split_beta)
  moreover have lenC: "length (fst C) = 12" "length (snd C) = 12" by (simp_all add: C_def A_def tag_bit_clear)
  ultimately have res: "bp_value b = fst R" "bp_mask b = snd R" "bp_bitLen b = 96"
    using b NewBitPattern_full [of "fst R" "snd R"] by (simp_all add: R_def)
  then show "length (bp_value b) = 12" "length (bp_mask b) = 12" "bp_bitLen b = 96" by (simp_all add: R_def lenC)
  have til: "tiling (map place (lit_sites opt @ field_sites opt (map exact_value fps))) 96"
    using option_tiling [OF ok exact_values_ok [OF ok fps(1)]] by simp
  have hdr: "hdr \<in> set (lit_sites opt)" using ok by (simp add: hdr_def option_ok_def lit_sites_def)
  have sub: "set (lit_sites opt) \<subseteq> set (lit_sites opt @ field_sites opt (map exact_value fps))"
    "set (exact_sites zs) \<subseteq> set (lit_sites opt @ field_sites opt (map exact_value fps))"
    using pinned_subset [OF count [symmetric]] by (auto simp: pinned_def zs_def)
  then have fit: "sites_fit (lit_sites opt)" "sites_fit (hdr # exact_sites zs)"
    using hdr by (auto intro!: sites_fit_tiled [OF til])
  have exact: "i < star_start 96 zs" if e: "(offset, n, v) \<in> set (exact_sites zs)" "covers i (offset, n)" for offset n v
  proof -
    obtain fp bf where z: "(fp, bf) \<in> set (zip fps (BinaryFields opt))" "f_kind fp \<noteq> FieldAny"
      "offset = bf_BitOffset bf" "n = bf_BitLength bf"
      using e(1) by (auto simp: exact_sites_def zs_def)
    have "tiling (sites_of opt) 96"
      using ok by (intro contiguous_tiling) (simp_all add: option_ok_def)
    then have "list_all (\<lambda>s. snd s \<le> 64 \<and> fst s + snd s \<le> 96) (sites_of opt)" unfolding tiling_def by (rule conjunct1)
    then have "list_all (\<lambda>bf. bf_BitOffset bf + bf_BitLength bf \<le> 96) (BinaryFields opt)"
      by (simp add: sites_of_def list.pred_map list_all_iff ball_Un)
    from exact_before_stars [OF fps(2) fields_in_order [OF s] count this z(1,2)] e(2) z
    show ?thesis by (simp add: covers_def zs_def)
  qed
  show "tag_bit (bp_mask b) i \<longleftrightarrow> (\<exists>(offset, n, v) \<in> set (pinned opt fps). covers i (offset, n))" if "i < 96"
  proof -
    have "tag_bit (bp_mask b) i \<longleftrightarrow> tag_bit (snd C) i \<or> (\<exists>(offset, n, v) \<in> set (lit_sites opt). covers i (offset, n))"
      using tag_bit_pins(2) [OF fit(1) lenC that] by (simp add: res(2) R_def)
    also have "tag_bit (snd C) i \<longleftrightarrow> tag_bit (snd A) i \<and> \<not> (star_start 96 zs \<le> i \<and> i < 96)"
      using that by (simp add: C_def A_def tag_bit_clear)
    also have "tag_bit (snd A) i \<longleftrightarrow> (\<exists>(offset, n, v) \<in> set (hdr # exact_sites zs). covers i (offset, n))"
      using tag_bit_pins(2) [OF fit(2), of ?zero i] that by (simp add: A_def)
    finally show ?thesis using hdr exact that by (fastforce simp: pinned_def zs_def [symmetric])
  qed
  show "tag_bit (bp_value b) i \<longleftrightarrow>
      (\<exists>(offset, n, v) \<in> set (pinned opt fps). covers i (offset, n) \<and> field_bit offset n v i)" if "i < 96"
  proof -
    have "tag_bit (bp_value b) i \<longleftrightarrow> tag_bit (fst C) i \<or>
        (\<exists>(offset, n, v) \<in> set (lit_sites opt). covers i (offset, n) \<and> field_bit offset n v i)"
      using tag_bit_pins(1) [OF fit(1) lenC that] by (simp add: res(1) R_def)
    also have "tag_bit (fst C) i \<longleftrightarrow> tag_bit (fst A) i \<and> \<not> (star_start 96 zs \<le> i \<and> i < 96)"
      using that by (simp add: C_def A_def tag_bit_clear)
    also have "tag_bit (fst A) i \<longleftrightarrow> (\<exists>(offset, n, v) \<in> set (hdr # exact_sites zs). covers i (offset, n) \<and> field_bit offset n v i)"
      using tag_bit_pins(1) [OF fit(2), of ?zero i] that by (simp add: A_def)
    finally show ?thesis using hdr exact that by (fastforce simp: pinned_def zs_def [symmetric])
  qed
qed

lemma site_reads:
  assumes "offset + n \<le> 96" "n \<le> 64" "\<And>j. n \<le> j \<Longrightarrow> \<not> bit v j"
  shows "(\<forall>i. covers i (offset, n) \<longrightarrow> tag_bit bits i = field_bit offset n v i) \<longleftrightarrow> bitsAt bits offset n = v"
proof
  assume H: "\<forall>i. covers i (offset, n) \<longrightarrow> tag_bit bits i = field_bit offset n v i"
  show "bitsAt bits offset n = v"
  proof (rule bit_word_eqI)
    fix j
    show "bit (bitsAt bits offset n) j = bit v j"
    proof (cases "j < n")
      case True
      then have "covers (offset + (n - 1 - j)) (offset, n)" by (auto simp: covers_def)
      with H have "tag_bit bits (offset + (n - 1 - j)) = field_bit offset n v (offset + (n - 1 - j))" by blast
      with True assms(2) show ?thesis by (simp add: bit_bitsAt field_bit_def)
    qed (use assms in \<open>simp add: bit_bitsAt\<close>)
  qed
next
  assume v: "bitsAt bits offset n = v"
  show "\<forall>i. covers i (offset, n) \<longrightarrow> tag_bit bits i = field_bit offset n v i"
  proof (intro allI impI)
    fix i assume "covers i (offset, n)"
    then have i: "offset \<le> i" "i < offset + n" by (simp_all add: covers_def)
    have "field_bit offset n v i \<longleftrightarrow> bit (bitsAt bits offset n) (n - 1 - (i - offset))" by (simp add: field_bit_def v)
    also have "\<dots> \<longleftrightarrow> tag_bit bits (offset + (n - 1 - (n - 1 - (i - offset))))"
      using i assms(2) by (subst bit_bitsAt) auto
    also have "offset + (n - 1 - (n - 1 - (i - offset))) = i" using i by simp
    finally show "tag_bit bits i = field_bit offset n v i" by simp
  qed
qed

text \<open>
  A set of pinned fields, each within one field of the tag, holds on a tag exactly when the tag's
  bits agree with the test's at every position that the mask selects.
\<close>

lemma pinned_reads:
  assumes til: "tiling (map place ws) 96" and sub: "set us \<subseteq> set ws"
    and vals: "\<And>offset n v j. (offset, n, v) \<in> set us \<Longrightarrow> n \<le> j \<Longrightarrow> \<not> bit v j"
    and msk: "\<And>i. i < 96 \<Longrightarrow> tag_bit m i \<longleftrightarrow> (\<exists>(offset, n, v) \<in> set us. covers i (offset, n))"
    and val: "\<And>i. i < 96 \<Longrightarrow> tag_bit b i \<longleftrightarrow> (\<exists>(offset, n, v) \<in> set us. covers i (offset, n) \<and> field_bit offset n v i)"
  shows "(\<forall>i < 96. tag_bit m i \<longrightarrow> tag_bit bits i = tag_bit b i) \<longleftrightarrow>
    (\<forall>(offset, n, v) \<in> set us. bitsAt bits offset n = v)"
proof -
  have fit: "n \<le> 64" "offset + n \<le> 96" if "(offset, n, v) \<in> set us" for offset n v
    using tiling_sites [OF til] sub that by blast+
  have one: "tag_bit b i \<longleftrightarrow> field_bit offset n v i" if u: "(offset, n, v) \<in> set us" "covers i (offset, n)" for offset n v i
  proof -
    have i: "i < 96" using fit [OF u(1)] u(2) by (simp add: covers_def)
    have "(offset', n', v') = (offset, n, v)" if "(offset', n', v') \<in> set us" "covers i (offset', n')" for offset' n' v'
      using tiling_unique [OF til i, of "(offset', n', v')" "(offset, n, v)"] sub u that by (auto simp: place_def)
    then show ?thesis using val [OF i] u by blast
  qed
  have "(\<forall>i < 96. tag_bit m i \<longrightarrow> tag_bit bits i = tag_bit b i) \<longleftrightarrow>
      (\<forall>(offset, n, v) \<in> set us. \<forall>i. covers i (offset, n) \<longrightarrow> tag_bit bits i = field_bit offset n v i)"
  proof
    assume H: "\<forall>i < 96. tag_bit m i \<longrightarrow> tag_bit bits i = tag_bit b i"
    have "tag_bit bits i = field_bit offset n v i" if u: "(offset, n, v) \<in> set us" "covers i (offset, n)" for offset n v i
    proof -
      have "i < 96" using fit [OF u(1)] u(2) by (simp add: covers_def)
      moreover have "tag_bit m i" using msk [OF calculation] u by blast
      ultimately show ?thesis using H one [OF u] by blast
    qed
    then show "\<forall>(offset, n, v) \<in> set us. \<forall>i. covers i (offset, n) \<longrightarrow> tag_bit bits i = field_bit offset n v i" by blast
  next
    assume H: "\<forall>(offset, n, v) \<in> set us. \<forall>i. covers i (offset, n) \<longrightarrow> tag_bit bits i = field_bit offset n v i"
    show "\<forall>i < 96. tag_bit m i \<longrightarrow> tag_bit bits i = tag_bit b i"
    proof (intro allI impI)
      fix i assume i: "i < 96" "tag_bit m i"
      then obtain offset n v where u: "(offset, n, v) \<in> set us" "covers i (offset, n)" using msk by blast
      with H one [OF u] show "tag_bit bits i = tag_bit b i" by blast
    qed
  qed
  also have "\<dots> \<longleftrightarrow> (\<forall>(offset, n, v) \<in> set us. bitsAt bits offset n = v)"
  proof -
    have "(\<forall>i. covers i (offset, n) \<longrightarrow> tag_bit bits i = field_bit offset n v i) \<longleftrightarrow> bitsAt bits offset n = v"
      if u: "(offset, n, v) \<in> set us" for offset n v
      by (rule site_reads [OF fit(2,1) [OF u] vals [OF u]])
    then have "(case u of (offset, n, v) \<Rightarrow> \<forall>i. covers i (offset, n) \<longrightarrow> tag_bit bits i = field_bit offset n v i) \<longleftrightarrow>
        (case u of (offset, n, v) \<Rightarrow> bitsAt bits offset n = v)" if "u \<in> set us" for u
      using that by (cases u) simp
    then show ?thesis by (rule ball_cong [OF refl])
  qed
  finally show ?thesis .
qed

lemma patternBits_match:
  assumes s: "s \<in> set schemes" "opt \<in> set (sd_Options (sch_def s))"
    and fps: "list_all2 field_of (TagFields opt) fps" "stars_last' fps"
    and b: "patternBits s (Some opt) fps = Inr (Some b)" and bits: "12 \<le> length bits"
  shows "bp_Match b bits n \<longleftrightarrow> 96 \<le> n \<and> lits_match opt bits \<and> star_vector opt fps (field_values opt bits)"
proof -
  note ok = option_okD [OF schemes_ok [OF s(1)] s(2)] and P = patternBits_Some [OF s fps b]
  note vals = exact_values_ok [OF ok fps(1)]
  have count: "length (BinaryFields opt) = length fps" using values_ok_nat [OF vals] by simp
  note sub = pinned_subset [OF count [symmetric]]
  have til: "tiling (map place (lit_sites opt @ field_sites opt (map exact_value fps))) 96"
    using option_tiling [OF ok vals] by simp
  have "bp_Match b bits n \<longleftrightarrow> 96 \<le> n \<and> (\<forall>i < 96. tag_bit (bp_mask b) i \<longrightarrow> tag_bit bits i = tag_bit (bp_value b) i)"
    using bp_Match_bits [OF P(3,2) bits] P(4) by simp
  also have "\<dots> \<longleftrightarrow> 96 \<le> n \<and> (\<forall>(offset, n, v) \<in> set (pinned opt fps). bitsAt bits offset n = v)"
  proof -
    have "\<not> bit v j" if "(offset, n, v) \<in> set (pinned opt fps)" "n \<le> j" for offset n v j
      using value_fits [OF ok vals] sub that by blast
    then have "(\<forall>i < 96. tag_bit (bp_mask b) i \<longrightarrow> tag_bit bits i = tag_bit (bp_value b) i) \<longleftrightarrow>
        (\<forall>(offset, n, v) \<in> set (pinned opt fps). bitsAt bits offset n = v)"
      using P(5,6) by (intro pinned_reads [OF til sub]) blast+
    then show ?thesis by simp
  qed
  also have "(\<forall>(offset, n, v) \<in> set (pinned opt fps). bitsAt bits offset n = v) \<longleftrightarrow>
      lits_match opt bits \<and> star_vector opt fps (field_values opt bits)"
  proof -
    have "(\<forall>(offset, n, v) \<in> set (exact_sites (zip fps (BinaryFields opt))). bitsAt bits offset n = v) \<longleftrightarrow>
        star_vector opt fps (field_values opt bits)"
      using count
      by (auto simp: exact_sites_def star_vector_def field_values_def list_all2_iff zip_map2 split_beta) blast
    then show ?thesis by (simp add: pinned_def lit_sites_def lits_match_def list_all_iff ball_Un)
  qed
  finally show ?thesis .
qed

section \<open>Facts: compiled tag patterns\<close>

lemma stars_only: "stars_last' fps \<Longrightarrow> fps = fp # fps' \<Longrightarrow> f_kind fp = FieldAny \<Longrightarrow> list_all (\<lambda>f. f_kind f = FieldAny) fps"
  by simp

lemma tag_field_names:
  assumes "s \<in> set schemes" "opt \<in> set (sd_Options (sch_def s))"
  shows "map (\<lambda>f. componentName (uf_Name f)) (TagFields opt) = FilterValue # ComponentOrder (sch_keyType s)"
proof -
  note ok = option_okD [OF schemes_ok [OF assms(1)] assms(2)]
  obtain f fs where f: "TagFields opt = f # fs" "uf_Name f = ''filter''"
    using ok by (auto simp: option_ok_def split: list.splits)
  have "list_all2 sameRendering fs (PureFields opt)"
    "map (\<lambda>f. componentName (uf_Name f)) (PureFields opt) = ComponentOrder (sch_keyType s)"
    using ok f(1) by (simp_all add: option_ok_def)
  moreover from this(1) have "map uf_Name fs = map uf_Name (PureFields opt)"
    by (auto simp: sameRendering_def list_eq_iff_nth_eq list_all2_conv_all_nth)
  then have "map (\<lambda>f. componentName (uf_Name f)) fs = map (\<lambda>f. componentName (uf_Name f)) (PureFields opt)"
    by (metis (no_types, lifting) list.map_comp comp_def map_eq_conv)
  ultimately show ?thesis using f by (simp add: componentName_def componentNames_def)
qed

lemma any_fields:
  "length parts = length fs \<Longrightarrow> list_all isAny parts \<Longrightarrow>
   map_res (\<lambda>(f, text). patternField label allow f text) (zip fs parts) = Inr fps \<Longrightarrow>
   list_all (\<lambda>fp. f_kind fp = FieldAny) fps"
  by (induction parts fs arbitrary: fps rule: list_induct2) (auto simp: patternField_def Let_def)

lemma compileTagPattern_cases:
  assumes "compileTagPattern text = Inr p"
  obtains s known opt fps where "s \<in> set schemes" "opt \<in> set (sd_Options (sch_def s))"
    "p_level p = LevelEncoding" "p_scheme p = sch_id s" "p_fields p = fps"
    "list_all2 field_of (TagFields opt) fps" "stars_last' fps" "patternBits s known fps = Inr (p_bits p)"
    "known = Some opt \<and> f_kind (fps ! 1) = FieldExact \<and> length (f_text (fps ! 1)) = GCPLength opt \<or>
     known = None \<and> list_all (\<lambda>fp. f_kind fp = FieldAny) (tl fps)"
proof -
  obtain i parts s fps where parts: "splitPattern text ''urn:epc:pat:'' = Inr (i, parts)" and s: "Lookup i = Inr s"
    and len: "length parts = length (case optionForPattern s parts 1 of None \<Rightarrow> TagFields (sd_Options (sch_def s) ! 0) | Some opt \<Rightarrow> TagFields opt)"
    and stars: "optionForPattern s parts 1 = None \<Longrightarrow> allAnyFrom parts 1"
    and fps: "patternFields (sch_id s) (case optionForPattern s parts 1 of None \<Rightarrow> TagFields (sd_Options (sch_def s) ! 0) | Some opt \<Rightarrow> TagFields opt) parts True = Inr fps"
    and bits: "\<exists>bits. patternBits s (optionForPattern s parts 1) fps = Inr bits \<and>
      NewPattern LevelEncoding AuthorityGS1 (sch_keyType s) (sch_id s) fps bits text = Inr p"
  proof -
    obtain x where x: "splitPattern text ''urn:epc:pat:'' = Inr x" using assms by (auto simp: compileTagPattern_def)
    obtain i parts where ip: "x = (i, parts)" by (cases x)
    with x assms obtain s where s: "Lookup i = Inr s" by (auto simp: compileTagPattern_def)
    obtain fps where "patternFields (sch_id s) (case optionForPattern s parts 1 of None \<Rightarrow> TagFields (sd_Options (sch_def s) ! 0) | Some opt \<Rightarrow> TagFields opt) parts True = Inr fps"
      "length parts = length (case optionForPattern s parts 1 of None \<Rightarrow> TagFields (sd_Options (sch_def s) ! 0) | Some opt \<Rightarrow> TagFields opt)"
      "optionForPattern s parts 1 = None \<longrightarrow> allAnyFrom parts 1"
      "\<exists>bits. patternBits s (optionForPattern s parts 1) fps = Inr bits \<and>
        NewPattern LevelEncoding AuthorityGS1 (sch_keyType s) (sch_id s) fps bits text = Inr p"
      using x ip s assms by (cases "optionForPattern s parts 1") (auto simp: compileTagPattern_def Let_def ok_simps)
    with x ip s show thesis by (intro that [of i parts s fps]) simp_all
  qed
  have mem: "s \<in> set schemes" using s by (simp add: Lookup_iff)
  note sok = schemes_ok [OF mem]
  define opt where "opt = (case optionForPattern s parts 1 of None \<Rightarrow> sd_Options (sch_def s) ! 0 | Some opt \<Rightarrow> opt)"
  have uri: "(case optionForPattern s parts 1 of None \<Rightarrow> TagFields (sd_Options (sch_def s) ! 0) | Some opt \<Rightarrow> TagFields opt) = TagFields opt"
    by (simp add: opt_def split: option.split)
  have o: "opt \<in> set (sd_Options (sch_def s))"
  proof (cases "optionForPattern s parts 1")
    case None
    then show ?thesis using sok by (simp add: opt_def scheme_ok_def)
  next
    case (Some opt')
    then show ?thesis using sd_Option_iff [OF sok]
      by (auto simp: opt_def optionForPattern_def Let_def split: if_splits)
  qed
  note ok = option_okD [OF sok o]
  have fields: "list_all field_ok (TagFields opt)" using ok by (simp add: option_ok_def)
  have of: "list_all2 field_of (TagFields opt) fps"
    using patternFields_of [OF fields _ fps [unfolded uri]] len [unfolded uri] by simp
  obtain bs where bs: "patternBits s (optionForPattern s parts 1) fps = Inr bs"
    "NewPattern LevelEncoding AuthorityGS1 (sch_keyType s) (sch_id s) fps bs text = Inr p" using bits by blast
  then have p: "p_level p = LevelEncoding" "p_scheme p = sch_id s" "p_fields p = fps" "p_bits p = bs" "stars_last' fps"
    by (auto simp: NewPattern_iff pattern_ok_def)
  obtain f g fs where tag: "TagFields opt = f # g # fs" using ok by (auto simp: option_ok_def split: list.splits)
  then obtain a b cs where abc: "parts = a # b # cs" using len [unfolded uri] by (cases parts; cases "tl parts") auto
  obtain fa fb fcs where fabc: "fps = fa # fb # fcs" "patternField (sch_id s) True g b = Inr fb"
    "map_res (\<lambda>(f, text). patternField (sch_id s) True f text) (zip fs cs) = Inr fcs"
    using fps [unfolded uri] by (auto simp: patternFields_def tag abc)
  have "optionForPattern s parts 1 = Some opt \<and> f_kind (fps ! 1) = FieldExact \<and> length (f_text (fps ! 1)) = GCPLength opt \<or>
     optionForPattern s parts 1 = None \<and> list_all (\<lambda>fp. f_kind fp = FieldAny) (tl fps)"
  proof (cases "optionForPattern s parts 1")
    case None
    with stars abc have any: "list_all isAny (b # cs)" by (simp add: allAnyFrom_def)
    moreover have "map_res (\<lambda>(f, text). patternField (sch_id s) True f text) (zip (g # fs) (b # cs)) = Inr (fb # fcs)"
      using fabc(2,3) by simp
    moreover have "length (b # cs) = length (g # fs)" using len [unfolded uri] by (simp add: tag abc)
    ultimately have "list_all (\<lambda>fp. f_kind fp = FieldAny) (fb # fcs)" by (intro any_fields)
    with None show ?thesis by (simp add: fabc(1))
  next
    case (Some opt')
    then have "opt' = opt" by (simp add: opt_def)
    with Some have "\<not> isAny b" "\<not> isRange b" "sd_Option (sch_def s) (length b) = Some opt"
      by (auto simp: optionForPattern_def Let_def abc split: if_splits)
    with fabc(2) sd_Option_iff [OF sok] Some \<open>opt' = opt\<close> show ?thesis
      by (auto simp: fabc(1) patternField_def Let_def)
  qed
  with that [OF mem o p(1,2,3) of p(5) bs(1) [folded p(4)]] show thesis by blast
qed

lemma header_test:
  assumes "s \<in> set schemes" "patternBits s None fps = Inr (Some b)" "length bits = 12"
    "list_all (\<lambda>fp. f_kind fp \<noteq> KindUnset) fps"
  shows "bp_Match b bits n \<longleftrightarrow> 8 \<le> n \<and> bitsAt bits 0 8 = sd_Header (sch_def s)"
    "list_all (\<lambda>fp. f_kind fp = FieldAny) fps"
proof -
  have len: "sd_TagLength (sch_def s) = 96" "sd_HeaderBits (sch_def s) = 8" "unat (sd_Header (sch_def s)) < 256"
    using schemes_ok [OF assms(1)] by (simp_all add: scheme_ok_def)
  have "patternBits s None fps = Inr None" if "list_ex (\<lambda>f. f_kind f = FieldRange) fps \<or> list_ex (\<lambda>f. f_kind f = FieldExact) fps"
    using that by (auto simp: patternBits_def Let_def split_beta)
  with assms(2) have none: "\<not> list_ex (\<lambda>f. f_kind f = FieldRange) fps" "\<not> list_ex (\<lambda>f. f_kind f = FieldExact) fps" by auto
  with assms(4) show "list_all (\<lambda>fp. f_kind fp = FieldAny) fps"
    by (auto simp: list_ex_iff list_all_iff) (metis FieldKind.exhaust)
  let ?zero = "(replicate 12 0, replicate 12 0) :: test_bits"
  let ?b = "pin 0 8 (sd_Header (sch_def s)) ?zero"
  have "NewBitPattern (take 1 (fst ?b)) (take 1 (snd ?b)) 8 =
      Inr \<lparr>bp_value = take 1 (fst ?b), bp_mask = take 1 (snd ?b), bp_bitLen = 8\<rparr>"
    by (simp add: NewBitPattern_def wrap64_def signed_divide_int_def)
  then have b: "b = \<lparr>bp_value = take 1 (fst ?b), bp_mask = take 1 (snd ?b), bp_bitLen = 8\<rparr>"
    using assms(2) none by (simp add: patternBits_def Let_def split_beta len)
  have bits: "tag_bit (take 1 (fst ?b)) i \<longleftrightarrow> field_bit 0 8 (sd_Header (sch_def s)) i" "tag_bit (take 1 (snd ?b)) i"
    if "i < 8" for i
  proof -
    have "tag_bit (take 1 d) i = tag_bit d i" for d using that by (simp add: tag_bit_def)
    with tag_bit_pin [of 0 8 ?zero i "sd_Header (sch_def s)"] that
    show "tag_bit (take 1 (fst ?b)) i \<longleftrightarrow> field_bit 0 8 (sd_Header (sch_def s)) i" "tag_bit (take 1 (snd ?b)) i"
      by (simp_all add: covers_def)
  qed
  have "bp_Match b bits n \<longleftrightarrow> 8 \<le> n \<and> (\<forall>i < 8. tag_bit bits i = field_bit 0 8 (sd_Header (sch_def s)) i)"
    using bp_Match_bits [of b 1 bits n] bits assms(3) by (auto simp: b)
  also have "(\<forall>i < 8. tag_bit bits i = field_bit 0 8 (sd_Header (sch_def s)) i) \<longleftrightarrow> bitsAt bits 0 8 = sd_Header (sch_def s)"
  proof -
    have "\<not> bit (sd_Header (sch_def s)) j" if "8 \<le> j" for j
    proof -
      have "(2 :: nat) ^ 8 \<le> 2 ^ j" using that by (intro power_increasing) simp_all
      with len(3) have "unat (sd_Header (sch_def s)) < 2 ^ j" by simp
      then have "drop_bit j (sd_Header (sch_def s)) = 0"
        by (metis div_less drop_bit_eq_div unat_drop_bit_eq unsigned_0 word_unat_eq_iff)
      then show ?thesis by (simp add: bit_iff_odd_drop_bit)
    qed
    from site_reads [of 0 8 "sd_Header (sch_def s)" bits, OF _ _ this] show ?thesis by (simp add: covers_def)
  qed
  finally show "bp_Match b bits n \<longleftrightarrow> 8 \<le> n \<and> bitsAt bits 0 8 = sd_Header (sch_def s)" .
qed

lemma header_of_tag:
  assumes "s \<in> set schemes" "opt \<in> set (sd_Options (sch_def s))" "values_ok opt vs"
  shows "bitsAt (gs1_bits opt vs) 0 8 = sd_Header (sch_def s)"
    "bitsAt (gs1_bits opt vs) 11 3 = of_nat (o_Partition opt)"
proof -
  note ok = option_okD [OF schemes_ok [OF assms(1)] assms(2)]
  have "(0, 8, sd_Header (sch_def s)) \<in> set (lit_sites opt)" "(11, 3, of_nat (o_Partition opt)) \<in> set (lit_sites opt)"
    using ok by (simp_all add: option_ok_def lit_sites_def)
  then show "bitsAt (gs1_bits opt vs) 0 8 = sd_Header (sch_def s)"
    "bitsAt (gs1_bits opt vs) 11 3 = of_nat (o_Partition opt)"
    by (auto intro: field_reads_back [OF ok assms(3)])
qed

lemma header_inject:
  "s \<in> set schemes \<Longrightarrow> s' \<in> set schemes \<Longrightarrow> sd_Header (sch_def s) = sd_Header (sch_def s') \<Longrightarrow> s = s'"
  by (metis byHeader_iff option.inject)

lemma id_inject: "s \<in> set schemes \<Longrightarrow> s' \<in> set schemes \<Longrightarrow> sch_id s = sch_id s' \<Longrightarrow> s = s'"
  by (metis byID_iff option.inject)

lemma option_inject:
  assumes "scheme_ok s" "opt \<in> set (sd_Options (sch_def s))" "opt' \<in> set (sd_Options (sch_def s))"
  shows "o_Partition opt = o_Partition opt' \<Longrightarrow> opt = opt'" "GCPLength opt = GCPLength opt' \<Longrightarrow> opt = opt'"
  using OptionByPartition_iff [OF assms(1)] sd_Option_iff [OF assms(1)] assms(2,3) by (metis option.inject)+

lemma lits_match_option:
  assumes "s \<in> set schemes" "opt \<in> set (sd_Options (sch_def s))" "s' \<in> set schemes" "opt' \<in> set (sd_Options (sch_def s'))"
    "values_ok opt' vs" "lits_match opt (gs1_bits opt' vs)"
  shows "s' = s \<and> opt' = opt"
proof -
  note ok = option_okD [OF schemes_ok [OF assms(1)] assms(2)] and ok' = option_okD [OF schemes_ok [OF assms(3)] assms(4)]
  have mem: "(0, 8, sd_Header (sch_def s)) \<in> set (lit_sites opt)" "(11, 3, of_nat (o_Partition opt)) \<in> set (lit_sites opt)"
    using ok by (simp_all add: option_ok_def lit_sites_def)
  have "bitsAt (gs1_bits opt' vs) 0 8 = sd_Header (sch_def s)" "bitsAt (gs1_bits opt' vs) 11 3 = of_nat (o_Partition opt)"
    using mem assms(6) by (force simp: lits_match_def lit_sites_def list_all_iff)+
  then have eq: "sd_Header (sch_def s') = sd_Header (sch_def s)" "(of_nat (o_Partition opt') :: u64) = of_nat (o_Partition opt)"
    using header_of_tag [OF assms(3-5)] by simp_all
  have same: "s' = s" using header_inject [OF assms(3,1) eq(1)] .
  have "o_Partition opt < 8" "o_Partition opt' < 8" using ok ok' by (simp_all add: option_ok_def)
  with arg_cong [OF eq(2), of unat] have "o_Partition opt' = o_Partition opt" by (simp add: unat_of_nat_small)
  with option_inject(1) [OF schemes_ok [OF assms(1)]] assms(2,4) same show ?thesis by blast
qed

lemma match_components:
  assumes "s \<in> set schemes" "opt \<in> set (sd_Options (sch_def s))" "values_ok opt vs"
    "list_all2 field_of (TagFields opt) fps" "list_all (\<lambda>fp. f_kind fp \<noteq> FieldRange) fps"
  shows "list_all2 match_field fps (components (TagFields opt) vs) \<longleftrightarrow> star_vector opt fps vs"
proof -
  note ok = option_okD [OF schemes_ok [OF assms(1)] assms(2)]
  have "list_all field_ok (TagFields opt)" using ok by (simp add: option_ok_def)
  from match_vector [OF this assms(4) _ assms(5)] show ?thesis
    using assms(3) tag_values [OF ok] by (simp add: star_vector_def)
qed

lemma bit_test_exact:
  assumes comp: "compileTagPattern text = Inr p" and b: "p_bits p = Some b" and dec: "gs1_Decode bits n = Inr t"
  shows "bp_Match b (enc_bits (t_Encoding t)) (enc_BitLen (t_Encoding t)) \<longleftrightarrow> t_Match t p"
proof -
  obtain s known opt fps where s: "s \<in> set schemes" and o: "opt \<in> set (sd_Options (sch_def s))"
    and p: "p_level p = LevelEncoding" "p_scheme p = sch_id s" "p_fields p = fps"
    and fps: "list_all2 field_of (TagFields opt) fps" "stars_last' fps" and pb: "patternBits s known fps = Inr (p_bits p)"
    and known: "known = Some opt \<and> f_kind (fps ! 1) = FieldExact \<and> length (f_text (fps ! 1)) = GCPLength opt \<or>
     known = None \<and> list_all (\<lambda>fp. f_kind fp = FieldAny) (tl fps)"
    by (rule compileTagPattern_cases [OF comp])
  obtain s' opt' vs where s': "s' \<in> set schemes" and o': "opt' \<in> set (sd_Options (sch_def s'))"
    and vs: "values_ok opt' vs" and t: "t = gs1_translation s' opt' vs"
    using dec unfolding gs1_Decode_iff by blast
  have tag: "enc_bits (t_Encoding t) = gs1_bits opt' vs" "enc_BitLen (t_Encoding t) = 96"
    "enc_Scheme (t_Encoding t) = sch_id s'" "enc_fields (t_Encoding t) = components (TagFields opt') vs"
    by (simp_all add: t gs1_translation_def NewEncoding_def)
  have match: "t_Match t p \<longleftrightarrow> s' = s \<and> list_all2 match_field fps (components (TagFields opt') vs)"
    using id_inject [OF s s'] by (auto simp: t_Match_def p tag matchComponents_iff)
  show ?thesis
  proof (cases "known = None")
    case True
    have "list_all (\<lambda>fp. f_kind fp \<noteq> KindUnset) fps"
      using fps(1) by (auto simp: field_of_def list_all2_conv_all_nth list_all_length split: FieldKind.splits)
    note H = header_test [OF s pb [unfolded True b] _ this]
    have any: "list_all (\<lambda>fp. f_kind fp = FieldAny) fps" by (rule H(2)) (rule length_gs1_bits)
    have "list_all2 match_field fps (components (TagFields opt') vs)" if "s' = s"
    proof -
      note ok' = option_okD [OF schemes_ok [OF s'] o']
      have "map f_name fps = map (\<lambda>f. componentName (uf_Name f)) (TagFields opt)"
        using fps(1) by (simp add: field_of_def list_eq_iff_nth_eq list_all2_conv_all_nth)
      also have "\<dots> = map (\<lambda>f. componentName (uf_Name f)) (TagFields opt')"
        using tag_field_names [OF s o] tag_field_names [OF s' o'] that by simp
      also have "\<dots> = map c_name (components (TagFields opt') vs)"
        using vs tag_values [OF ok'] by (intro component_names [symmetric]) (auto dest: list_all2_lengthD)
      finally have "map f_name fps = map c_name (components (TagFields opt') vs)" .
      with any show ?thesis
        by (auto simp: list_eq_iff_nth_eq list_all2_conv_all_nth list_all_length match_field_def)
    qed
    moreover have "bitsAt (gs1_bits opt' vs) 0 8 = sd_Header (sch_def s) \<longleftrightarrow> s' = s"
      using header_of_tag(1) [OF s' o' vs] header_inject [OF s' s] by auto
    ultimately show ?thesis using H(1) [of "gs1_bits opt' vs"] match by (auto simp: tag)
  next
    case False
    with known have k: "known = Some opt" "f_kind (fps ! 1) = FieldExact" "length (f_text (fps ! 1)) = GCPLength opt" by auto
    note pb = pb [unfolded k(1) b]
    have bp: "bp_Match b (gs1_bits opt' vs) 96 \<longleftrightarrow> lits_match opt (gs1_bits opt' vs) \<and>
        star_vector opt fps (field_values opt (gs1_bits opt' vs))"
      using patternBits_match [OF s o fps pb, of "gs1_bits opt' vs" 96] by simp
    show ?thesis
    proof (cases "s' = s \<and> opt' = opt")
      case True
      note ok = option_okD [OF schemes_ok [OF s] o]
      from True vs have "values_ok opt vs" by simp
      with tag_matches_iff [OF ok, of "gs1_bits opt vs" vs]
      have "lits_match opt (gs1_bits opt vs)" "field_values opt (gs1_bits opt vs) = vs" by auto
      with True show ?thesis
        using bp match match_components [OF s o _ fps(1) patternBits_Some(1) [OF s o fps pb]] vs by (simp add: tag)
    next
      case False
      then have "\<not> lits_match opt (gs1_bits opt' vs)" using lits_match_option [OF s o s' o' vs] by blast
      moreover have "\<not> (s' = s \<and> list_all2 match_field fps (components (TagFields opt') vs))"
      proof
        assume A: "s' = s \<and> list_all2 match_field fps (components (TagFields opt') vs)"
        obtain v w ws f g fs where v: "vs = v # w # ws" "TagFields opt' = f # g # fs" "uf_Fixed g"
          "uf_Length g = GCPLength opt'" "w \<le> uf_DecimalMax g" "field_ok g"
          using two_parts [OF s' o' vs] by metis
        then obtain fa fb fc where "fps = fa # fb # fc"
          "match_field fb \<lparr>c_name = componentName (uf_Name g), c_value = render g w\<rparr>"
          using A by (auto simp: components_def list_all2_Cons2)
        with k(2,3) have "length (render g w) = GCPLength opt" by (auto simp: match_field_def split: if_splits)
        then have "GCPLength opt' = GCPLength opt" using render_fixed(1) [OF v(6,5,3)] v(4) by simp
        with A False option_inject(2) [OF schemes_ok [OF s]] o o' show False by blast
      qed
      ultimately show ?thesis using bp match by (simp add: tag)
    qed
  qed
qed

section \<open>Facts: exact identity patterns\<close>

lemma digits_not_special:
  assumes "list_all is_digit part"
  shows "\<not> isAny part" "\<not> isRange part"
proof -
  have "\<not> is_digit CHR ''*''" "\<not> is_digit CHR ''[''" by (simp_all add: is_digit_def)
  with assms show "\<not> isAny part" "\<not> isRange part"
    by (auto simp: isAny_def isRange_def HasPrefix_iff)
qed

definition exact_field :: "uri_field \<Rightarrow> u64 \<Rightarrow> field_pattern" where
  "exact_field f n = \<lparr>f_name = componentName (uf_Name f), f_kind = FieldExact, f_text = render f n, f_lo = 0, f_hi = 0\<rparr>"

lemma exact_fields:
  assumes "list_all2 (\<lambda>f n. n \<le> uf_DecimalMax f) fs ns" "list_all field_ok fs"
  shows "patternFields label fs (map2 render fs ns) allow = Inr (map2 exact_field fs ns)"
  using assms unfolding patternFields_def
proof (induction rule: list_all2_induct)
  case (Cons f fs n ns)
  have "patternField label allow f (render f n) = Inr (exact_field f n)"
    using Cons digits_not_special [OF render_digits [of f n]] parse_render [of f n label]
    by (simp add: patternField_def exact_field_def)
  with Cons show ?case by simp
qed simp

lemma exact_stars: "list_all (\<lambda>fp. f_kind fp = FieldExact) fps \<Longrightarrow> stars_last' fps"
  by (induction fps) auto

lemma exact_match:
  "length ns = length fs \<Longrightarrow> list_all2 match_field (map2 exact_field fs ns) cs \<longleftrightarrow> cs = components fs ns"
proof (induction ns fs arbitrary: cs rule: list_induct2)
  case (Cons n ns f fs)
  have "match_field (exact_field f n) c \<longleftrightarrow> c = \<lparr>c_name = componentName (uf_Name f), c_value = render f n\<rparr>" for c
    by (cases c) (auto simp: match_field_def exact_field_def)
  with Cons show ?case by (cases cs) (auto simp: components_def)
qed (auto simp: components_def)

lemma compile_exact_id:
  assumes "s \<in> set schemes" "opt \<in> set (sd_Options (sch_def s))" "pure_ok opt ns"
  shows "gs1_CompilePattern (''urn:epc:idpat:'' @ sch_key s @ CHR '':'' # Join (map2 render (PureFields opt) ns) CHR ''.'') =
    Inr \<lparr>p_level = LevelIdentity, p_authority = AuthorityGS1, p_keyType = sch_keyType s, p_scheme = [],
      p_fields = map2 exact_field (PureFields opt) ns, p_bits = None,
      p_text = ''urn:epc:idpat:'' @ sch_key s @ CHR '':'' # Join (map2 render (PureFields opt) ns) CHR ''.''\<rparr>"
proof -
  note sok = schemes_ok [OF assms(1)] and ok = option_okD [OF schemes_ok [OF assms(1)] assms(2)]
  let ?parts = "map2 render (PureFields opt) ns" and ?body = "Join (map2 render (PureFields opt) ns) CHR ''.''"
  let ?text = "''urn:epc:idpat:'' @ sch_key s @ CHR '':'' # ?body"
  obtain p ps where p: "PureFields opt = p # ps" "0 < GCPLength opt" using pure_prefix [OF ok] by metis
  have n: "length ns = length (PureFields opt)" using assms(3) by (auto simp: pure_ok_def dest: list_all2_lengthD)
  have fields: "list_all field_ok (PureFields opt)" using ok by (simp add: option_ok_def)
  have hd0: "?parts ! 0 = hd ?parts" "?parts \<noteq> []" using p n by (cases ns; simp)+
  have "list_all is_digit (?parts ! 0)" using p n fields by (cases ns) (auto intro: render_digits)
  note special = digits_not_special [OF this]
  have gcp: "length (?parts ! 0) = GCPLength opt" using pure_option(2) [OF sok assms(2,3)] hd0 by simp
  have split: "Split ?body CHR ''.'' = ?parts" using p n by (intro split_texts [OF fields]) auto
  have "?body \<noteq> []" using split gcp p(2) by (auto simp: hd0)
  moreover have "CHR '':'' \<notin> set (sch_key s)" using sok by (simp add: scheme_ok_def)
  moreover have "sch_key s \<noteq> []" using assms(1) by (auto simp: schemes_eq gs1_scheme_defs)
  ultimately have sp: "splitPattern ?text ''urn:epc:idpat:'' = Inr (sch_key s, ?parts)"
    by (simp add: splitPattern_def TrimPrefix_def HasPrefix_def split)
  have opt: "optionForPattern s ?parts 0 = Some opt"
    using hd0(2) special gcp assms(2) sok by (simp add: optionForPattern_def Let_def sd_Option_iff)
  have "map f_name (map2 exact_field (PureFields opt) ns) = ComponentOrder (sch_keyType s)"
    using ok n by (simp add: option_ok_def exact_field_def list_eq_iff_nth_eq)
  moreover have "stars_last' (map2 exact_field (PureFields opt) ns)"
    by (rule exact_stars) (auto simp: list_all_iff exact_field_def)
  moreover have "map2 exact_field (PureFields opt) ns \<noteq> []" using p n by auto
  ultimately have new: "NewPattern LevelIdentity AuthorityGS1 (sch_keyType s) [] (map2 exact_field (PureFields opt) ns) None ?text =
      Inr \<lparr>p_level = LevelIdentity, p_authority = AuthorityGS1, p_keyType = sch_keyType s, p_scheme = [],
        p_fields = map2 exact_field (PureFields opt) ns, p_bits = None, p_text = ?text\<rparr>"
    by (simp add: NewPattern_iff pattern_ok_def)
  have "byKey (sch_key s) = Some s" using assms(1) by (simp add: byKey_iff)
  moreover have "patternFields (sch_key s) (PureFields opt) ?parts False = Inr (map2 exact_field (PureFields opt) ns)"
    using exact_fields [OF _ fields] assms(3) by (simp add: pure_ok_def)
  moreover have "HasPrefix ?text ''urn:epc:idpat:''" by (simp add: HasPrefix_def)
  ultimately show ?thesis
    using sp opt new n by (simp add: gs1_CompilePattern_def compileIDPattern_def LookupKey_def Let_def)
qed

section \<open>Properties\<close>

text \<open>
  C29. A bit test is exactly its pattern: where a compiled pattern carries a value and mask,
  then on every tag that decodes, whatever scheme, option and values it has, the test passes
  exactly when the pattern matches the translation's fields. Checking bits never admits a
  tag that the fields refuse, nor misses one that they accept.
\<close>

theorem pattern_bits_exact:
  "case (gs1_CompilePattern text, gs1_Decode bits n) of
     (Inr p, Inr t) \<Rightarrow>
       (case p_bits p of
          None \<Rightarrow> True
        | Some b \<Rightarrow> bp_Match b (enc_bits (t_Encoding t)) (enc_BitLen (t_Encoding t)) \<longleftrightarrow> t_Match t p)
   | _ \<Rightarrow> True"
proof -
  have "bp_Match b (enc_bits (t_Encoding t)) (enc_BitLen (t_Encoding t)) \<longleftrightarrow> t_Match t p"
    if "gs1_CompilePattern text = Inr p" "gs1_Decode bits n = Inr t" "p_bits p = Some b" for p t b
  proof -
    have "compileTagPattern text = Inr p"
      using that(1,3) by (auto simp: gs1_CompilePattern_def compileIDPattern_def Let_def NewPattern_iff ok_simps
          split: if_splits prod.splits)
    from bit_test_exact [OF this that(3,2)] show ?thesis .
  qed
  then show ?thesis by (auto split: sum.split option.split)
qed

text \<open>
  The identity pattern written like a Pure Identity URI selects that identity and nothing
  else: for every text that parses as an identity, the same text after the pattern prefix
  compiles, and the pattern matches an identity exactly when it is the one parsed.
\<close>

theorem exact_id_pattern:
  "case ParsePureIdentityURI (''urn:epc:id:'' @ rest) of
     Inl _ \<Rightarrow> True
   | Inr v \<Rightarrow>
       (case gs1_CompilePattern (''urn:epc:idpat:'' @ rest) of
          Inl _ \<Rightarrow> False
        | Inr p \<Rightarrow> MatchValue p w \<longleftrightarrow> w = v)"
proof (cases "ParsePureIdentityURI (''urn:epc:id:'' @ rest)")
  case (Inr v)
  then obtain s opt ns where s: "s \<in> set schemes" "opt \<in> set (sd_Options (sch_def s))" "pure_ok opt ns"
    and u: "''urn:epc:id:'' @ rest = pure_uri s opt ns" and v: "v = pure_identity s opt ns"
    unfolding ParsePureIdentityURI_iff by blast
  have "sd_PureURIPrefix (sch_def s) = ''urn:epc:id:'' @ sch_key s @ '':''"
    using schemes_ok [OF s(1)] by (simp add: scheme_ok_def)
  with u have rest: "rest = sch_key s @ CHR '':'' # Join (map2 render (PureFields opt) ns) CHR ''.''"
    by (simp add: pure_uri_def)
  have "length ns = length (PureFields opt)" using s(3) by (auto simp: pure_ok_def dest: list_all2_lengthD)
  note match = exact_match [OF this]
  define pat where "pat = ''urn:epc:idpat:'' @ rest"
  obtain p where p: "gs1_CompilePattern pat = Inr p" "p_level p = LevelIdentity" "p_authority p = AuthorityGS1"
    "p_keyType p = sch_keyType s" "p_fields p = map2 exact_field (PureFields opt) ns"
    by (rule that [OF compile_exact_id [OF s, folded rest, folded pat_def]]) simp_all
  have "MatchValue p w \<longleftrightarrow> w = v"
    by (cases w) (auto simp: MatchValue_def matchComponents_iff p match v pure_identity_def)
  with Inr p(1) show ?thesis unfolding pat_def [symmetric] by simp
qed simp

end
