(* ===== verification/Iso_Registry.thy ===== *)
theory Iso_Registry
  imports Tdtcore
begin

text \<open>
  The register of application family identifiers of \<^verbatim>\<open>src/internal/tdt/iso\<close>: its types
  (\<^verbatim>\<open>iso.go\<close>) and its constructs, entry by entry (\<^verbatim>\<open>registry_gen.go\<close>).
\<close>

section \<open>Types\<close>

record register_source =
  Document :: string
  src_Authority :: string
  AssignmentsEdition :: string
  AssignmentsURL :: string
  ConstructsEdition :: string
  ConstructsURL :: string

record data_identifier =
  DI :: string
  OID :: string
  OIDConflict :: string
  OIDNote :: string

datatype Compaction =
    CompactionNone | Compaction6Bit | CompactionUTF8 | CompactionBinary | CompactionURNCode40
  | CompactionOctet8Bit

record construct =
  c_AFI :: byte
  c_Role :: string
  c_Encoding :: Compaction
  c_Historical :: bool
  c_Supported :: bool
  DataIdentifiers :: "data_identifier list"

section \<open>The register\<close>

text \<open>Abbreviations for the rows, in the order of the Go literals.\<close>

definition registered_di :: "string \<Rightarrow> string \<Rightarrow> string \<Rightarrow> string \<Rightarrow> data_identifier" where
  "registered_di di oid conflict note = \<lparr>DI = di, OID = oid, OIDConflict = conflict, OIDNote = note\<rparr>"

definition registered :: "byte \<Rightarrow> string \<Rightarrow> Compaction \<Rightarrow> bool \<Rightarrow> bool \<Rightarrow> data_identifier list \<Rightarrow> construct" where
  "registered afi role enc historical known dis = \<lparr>c_AFI = afi, c_Role = role, c_Encoding = enc,
     c_Historical = historical, c_Supported = known, DataIdentifiers = dis\<rparr>"

definition RegisterSource :: register_source where
  "RegisterSource = \<lparr>
     Document = ''ISO/IEC 15961-2 Applications Family Identifier (AFI) Assignments Register'',
     src_Authority = ''ISO/IEC 15961-2 Registration Authority (AIM Global)'',
     AssignmentsEdition = ''2025-11-25'',
     AssignmentsURL = ''https://www.aimglobal.org/wp-content/uploads/2025/11/ISO-IEC-15961-2-Data-Constructs-Register-2025-11-25.pdf'',
     ConstructsEdition = ''2023-09-25'',
     ConstructsURL = ''https://www.aimglobal.org/wp-content/uploads/2024/05/ISO-IEC-15961-2-Data-Constructs-Register-2023-09-25.pdf''\<rparr>"

definition note_4J :: string where
  "note_4J =
     ''CONFLICT, unresolved. The register assigns 4J relative OID 159. The Data Format 13 mapping '' @
     ''table the register itself registers (MHI Assigned_Relative_OID_DI_table_10SEP2014.xls) '' @
     ''assigns 4J 158 and assigns 159 to 7J. Neither is adjudicated here and no object identifier '' @
     ''is emitted anywhere in this build (issue #8 Amendment 2, gate G5; issue #19 gate U5).''"

definition afi_00 :: construct where
  "afi_00 = registered 0x00 ''AFI not configured''
     CompactionNone False False []"

definition afi_01 :: construct where
  "afi_01 = registered 0x01 ''Closed application environments, free-form BINARY in multiples of 16-bit words''
     CompactionBinary False False []"

definition afi_02 :: construct where
  "afi_02 = registered 0x02 ''Closed application environments, free-form 6-bit TEXT''
     Compaction6Bit False False []"

definition afi_03 :: construct where
  "afi_03 = registered 0x03 ''Closed application environments, free-form UTF-8 (8-bit)''
     CompactionUTF8 False False []"

definition afi_04 :: construct where
  "afi_04 = registered 0x04 ''Closed system data under the control of the item manufacturer''
     CompactionNone False False []"

definition afi_05 :: construct where
  "afi_05 = registered 0x05 ''Closed system data under the control of the transport company''
     CompactionNone False False []"

definition afi_06 :: construct where
  "afi_06 = registered 0x06 ''Closed system data under the control of the end user''
     CompactionNone False False []"

definition afi_07 :: construct where
  "afi_07 = registered 0x07 ''Closed systems control of re-circulating items''
     CompactionNone False False []"

definition afi_90 :: construct where
  "afi_90 = registered 0x90 ''Odette vehicle identification, Monomorphic-UII''
     Compaction6Bit False False []"

definition afi_91 :: construct where
  "afi_91 = registered 0x91 ''IATA asset control, initially ULD containers (IATA RP1640)''
     CompactionNone False False []"

definition afi_92 :: construct where
  "afi_92 = registered 0x92 ''DigSig, digital signature verifiable UII (ISO/IEC 20248)''
     CompactionOctet8Bit False False []"

definition afi_A0 :: construct where
  "afi_A0 = registered 0xA0 ''IPC postal items, Monomorphic-UII''
     CompactionURNCode40 False False []"

definition afi_A1 :: construct where
  "afi_A1 = registered 0xA1 ''ISO/IEC 17360 product tagging''
     Compaction6Bit False False [registered_di ''25S'' ''1 0 15961 13 1'' [] [],
       registered_di ''25T'' ''1 0 15961 13 3'' [] [],
       registered_di ''I'' ''1 0 15961 13 96'' [] []]"

definition afi_A2 :: construct where
  "afi_A2 = registered 0xA2 ''ISO/IEC 17360 transport unit''
     Compaction6Bit False True [registered_di ''J'' ''1 0 15961 13 4'' [] [],
       registered_di ''1J'' ''1 0 15961 13 36'' [] [],
       registered_di ''2J'' ''1 0 15961 13 156'' [] [],
       registered_di ''3J'' ''1 0 15961 13 157'' [] [],
       registered_di ''4J'' ''1 0 15961 13 159'' ''1 0 15961 13 158'' note_4J,
       registered_di ''5J'' ''1 0 15961 13 37'' [] [],
       registered_di ''6J'' ''1 0 15961 13 38'' [] []]"

definition afi_A3 :: construct where
  "afi_A3 = registered 0xA3 ''ISO/IEC 17360 returnable transport item''
     Compaction6Bit False False [registered_di ''1B'' ''1 0 15961 13 112'' [] [],
       registered_di ''25B'' ''1 0 15961 13 2'' [] []]"

definition afi_A4 :: construct where
  "afi_A4 = registered 0xA4 ''ISO/IEC 17360 product tagging, containing hazardous materials''
     Compaction6Bit True False [registered_di ''25S'' ''1 0 15961 13 1'' [] [],
       registered_di ''25T'' ''1 0 15961 13 3'' [] [],
       registered_di ''I'' ''1 0 15961 13 96'' [] []]"

definition afi_A5 :: construct where
  "afi_A5 = registered 0xA5 ''ISO/IEC 17360 product packaging''
     Compaction6Bit False False [registered_di ''25S'' ''1 0 15961 13 1'' [] [],
       registered_di ''25T'' ''1 0 15961 13 3'' [] [],
       registered_di ''I'' ''1 0 15961 13 96'' [] []]"

definition afi_A6 :: construct where
  "afi_A6 = registered 0xA6 ''ISO/IEC 17360 product packaging, containing hazardous materials''
     Compaction6Bit True False [registered_di ''25S'' ''1 0 15961 13 1'' [] [],
       registered_di ''25T'' ''1 0 15961 13 3'' [] [],
       registered_di ''I'' ''1 0 15961 13 96'' [] []]"

definition afi_A7 :: construct where
  "afi_A7 = registered 0xA7 ''ISO/IEC 17360 transport unit, containing hazardous materials''
     Compaction6Bit True True [registered_di ''J'' ''1 0 15961 13 4'' [] [],
       registered_di ''1J'' ''1 0 15961 13 36'' [] [],
       registered_di ''2J'' ''1 0 15961 13 156'' [] [],
       registered_di ''3J'' ''1 0 15961 13 157'' [] [],
       registered_di ''4J'' ''1 0 15961 13 159'' ''1 0 15961 13 158'' note_4J,
       registered_di ''5J'' ''1 0 15961 13 37'' [] [],
       registered_di ''6J'' ''1 0 15961 13 38'' [] []]"

definition afi_A8 :: construct where
  "afi_A8 = registered 0xA8 ''ISO/IEC 17360 returnable transport item, containing hazardous materials''
     Compaction6Bit True False [registered_di ''1B'' ''1 0 15961 13 112'' [] [],
       registered_di ''25B'' ''1 0 15961 13 2'' [] []]"

definition afi_A9 :: construct where
  "afi_A9 = registered 0xA9 ''Explicitly reserved for ISO 17363''
     CompactionNone False True []"

definition afi_AA :: construct where
  "afi_AA = registered 0xAA ''Explicitly reserved for ISO 17363''
     CompactionNone True True []"

definition afi_AB :: construct where
  "afi_AB = registered 0xAB ''ISO/IEC 29174 mobile AIDC; the standard has been withdrawn''
     CompactionNone True False []"

definition afi_AC :: construct where
  "afi_AC = registered 0xAC ''ISO/IEC 17360 Monomorphic-UII, 8-bit encoding''
     CompactionUTF8 False False []"

definition afi_AD :: construct where
  "afi_AD = registered 0xAD ''ISO/IEC 17360 Monomorphic-UII, binary encoding''
     CompactionBinary False False []"

definition afi_AE :: construct where
  "afi_AE = registered 0xAE ''The RAIN Alliance free-form schema BINARY''
     CompactionBinary False False []"

definition afi_AF :: construct where
  "afi_AF = registered 0xAF ''VDMA animal identification (ISO 6881)''
     CompactionNone False False []"

definition afi_B0 :: construct where
  "afi_B0 = registered 0xB0 ''6C Toll Operators Coalition, Monomorphic-UII''
     CompactionOctet8Bit False False []"

definition afi_BB :: construct where
  "afi_BB = registered 0xBB ''ISBT, blood, tissue, organ and cellular therapy products''
     CompactionNone False False []"

definition afi_BC :: construct where
  "afi_BC = registered 0xBC ''The RAIN Alliance free-form schema TEXT, 8-bit ASCII''
     CompactionUTF8 False False []"

definition afi_BD :: construct where
  "afi_BD = registered 0xBD ''RAIN URI identifier''
     CompactionURNCode40 False False []"

definition afi_C0 :: construct where
  "afi_C0 = registered 0xC0 ''Rail vehicle identification (CEN EN 17230)''
     Compaction6Bit False False [registered_di ''5R'' [] [] []]"

definition afi_C1 :: construct where
  "afi_C1 = registered 0xC1 ''IATA baggage handling (IATA RP1740C)''
     CompactionNone False False []"

definition afi_C2 :: construct where
  "afi_C2 = registered 0xC2 ''EDItEUR library items (ISO 28560)''
     CompactionURNCode40 False False []"

definition afi_CF :: construct where
  "afi_CF = registered 0xCF ''Reserved as an extension code for multiple byte AFI values''
     CompactionNone False False []"

definition constructs :: "construct list" where
  "constructs = [afi_00, afi_01, afi_02, afi_03, afi_04, afi_05, afi_06, afi_07, afi_90, afi_91, afi_92,
     afi_A0, afi_A1, afi_A2, afi_A3, afi_A4, afi_A5, afi_A6, afi_A7, afi_A8, afi_A9, afi_AA,
     afi_AB, afi_AC, afi_AD, afi_AE, afi_AF, afi_B0, afi_BB, afi_BC, afi_BD, afi_C0, afi_C1,
     afi_C2, afi_CF]"

lemmas construct_defs = registered_def registered_di_def
  afi_00_def afi_01_def afi_02_def afi_03_def afi_04_def afi_05_def afi_06_def afi_07_def afi_90_def
  afi_91_def afi_92_def afi_A0_def afi_A1_def afi_A2_def afi_A3_def afi_A4_def afi_A5_def afi_A6_def
  afi_A7_def afi_A8_def afi_A9_def afi_AA_def afi_AB_def afi_AC_def afi_AD_def afi_AE_def afi_AF_def
  afi_B0_def afi_BB_def afi_BC_def afi_BD_def afi_C0_def afi_C1_def afi_C2_def afi_CF_def

end
