(* ===== verification/Iso.thy ===== *)
theory Iso
  imports Iso_Registry Tag_Bits Strconv "HOL-Library.Code_Target_Nat"
begin

text \<open>
  ISO tag data, from \<^verbatim>\<open>src/internal/tdt/iso\<close>: recognising a construct (\<^verbatim>\<open>iso.go\<close>), the six-bit
  character code (\<^verbatim>\<open>text.go\<close>), the payload rules (\<^verbatim>\<open>interpret.go\<close>), and the three stages composed
  (\<^verbatim>\<open>translate.go\<close>). The package's own copies of \<open>bitsAt\<close> and \<open>setBits\<close> are the ones of
  \<open>Tag_Bits\<close>. Texts are byte strings, so a character is the byte of its code.
\<close>

section \<open>Recognition\<close>

definition SchemeTransportUnit :: SchemeID where "SchemeTransportUnit = ''iso17360-transport-unit''"
definition Scheme17363 :: SchemeID where "Scheme17363 = ''iso17363''"

definition AFITransportUnit :: byte where "AFITransportUnit = 0xA2"
definition AFITransportUnitHazardous :: byte where "AFITransportUnitHazardous = 0xA7"
definition AFI17363 :: byte where "AFI17363 = 0xA9"
definition AFI17363Historical :: byte where "AFI17363Historical = 0xAA"

lemmas afi_codes = AFITransportUnit_def AFITransportUnitHazardous_def AFI17363_def AFI17363Historical_def

definition c_Scheme :: "construct \<Rightarrow> tdt_error + SchemeID" where
  "c_Scheme c =
     (if c_AFI c = AFITransportUnit \<or> c_AFI c = AFITransportUnitHazardous then Inr SchemeTransportUnit
      else if c_AFI c = AFI17363 \<or> c_AFI c = AFI17363Historical then Inr Scheme17363
      else Inl ErrUnsupportedScheme)"

definition Allows :: "construct \<Rightarrow> string \<Rightarrow> bool" where
  "Allows c di \<longleftrightarrow> list_ex (\<lambda>d. DI d = di) (DataIdentifiers c)"

text \<open>A registered construct that is not supported is returned with an error; callers drop it.\<close>

definition Recognise :: "byte \<Rightarrow> tdt_error + construct" where
  "Recognise afi =
     (case find (\<lambda>c. c_AFI c = afi) constructs of
        None \<Rightarrow> Inl ErrUnrecognisedNonGS1
      | Some c \<Rightarrow> if \<not> c_Supported c then Inl ErrUnsupportedScheme else Inr c)"

definition SchemeForAFI :: "byte \<Rightarrow> tdt_error + SchemeID" where
  "SchemeForAFI afi = bind_res (Recognise afi) c_Scheme"

definition AFIForScheme :: "SchemeID \<Rightarrow> tdt_error + byte" where
  "AFIForScheme s =
     (if s = SchemeTransportUnit then Inr AFITransportUnit
      else if s = Scheme17363 then Inr AFI17363
      else Inl ErrUnsupportedScheme)"

section \<open>Six-bit text\<close>

definition CodeGS :: byte where "CodeGS = 0b011110"
definition CodeRS :: byte where "CodeRS = 0b011111"
definition CodeEOT :: byte where "CodeEOT = 0b100001"
definition CodeFS :: byte where "CodeFS = 0b100011"
definition CodeUS :: byte where "CodeUS = 0b100100"

lemmas control_codes = CodeGS_def CodeRS_def CodeEOT_def CodeFS_def CodeUS_def

definition controls :: "(byte \<times> byte \<times> string) list" where
  "controls = [(CodeGS, 0x1D, ''GS''), (CodeRS, 0x1E, ''RS''), (CodeEOT, 0x04, ''EOT''),
     (CodeFS, 0x1C, ''FS''), (CodeUS, 0x1F, ''US'')]"

record text_control =
  tc_Code :: byte
  tc_Name :: string
  tc_Byte :: byte
  tc_Index :: nat

record iso_text =
  tx_Characters :: string
  tx_Controls :: "text_control list"
  tx_ResidueBits :: int

definition byte_char :: "byte \<Rightarrow> char" where
  "byte_char b = char_of (unat b)"

definition char_byte :: "char \<Rightarrow> byte" where
  "char_byte c = of_nat (of_char c)"

definition is_control :: "byte \<Rightarrow> bool" where
  "is_control v \<longleftrightarrow> map_of controls v \<noteq> None"

definition accepted :: "byte \<Rightarrow> bool" where
  "accepted c = (if c < 0x20 \<or> c > 0x5F then False else \<not> is_control (c AND 0x3F))"

definition toCode :: "byte \<Rightarrow> byte" where
  "toCode c = c AND 0x3F"

definition fromCode :: "byte \<Rightarrow> byte option" where
  "fromCode v =
     (if is_control (v AND 0x3F) then None
      else if v < 0x20 then Some (v + 0x40)
      else Some v)"

definition DecodeText :: "bytes \<Rightarrow> int \<Rightarrow> tdt_error + iso_text" where
  "DecodeText bits bitLen =
     (if bitLen < 6 \<or> int (length bits * 8) < bitLen then Inl ErrTruncated
      else let count = nat (bitLen div 6);
        (b, found) = foldl (\<lambda>(b, found) i.
          let code = ucast (bitsAt bits (i * 6) 6) :: byte in
          case fromCode code of
            Some c \<Rightarrow> (b @ [byte_char c], found)
          | None \<Rightarrow>
              let (cb, name) = (case map_of controls code of Some ctl \<Rightarrow> ctl | None \<Rightarrow> (0, [])) in
              (b, found @ [\<lparr>tc_Code = code, tc_Name = name, tc_Byte = cb, tc_Index = i\<rparr>])) ([], []) [0..<count]
      in Inr \<lparr>tx_Characters = b, tx_Controls = found, tx_ResidueBits = bitLen - int count * 6\<rparr>)"

definition EncodeText :: "string \<Rightarrow> string \<Rightarrow> tdt_error + bytes \<times> int" where
  "EncodeText scheme text =
     (if text = [] then Inl (Field scheme ''uii'' ''empty'' text [])
      else if list_ex (\<lambda>c. \<not> accepted (char_byte c)) text
      then Inl (Field scheme ''uii'' ''charset'' text
        ''ISO/IEC 15961-2 register Annex A: ASCII 0x20-0x5F excluding the five structural control positions'')
      else let bitLen = length text * 6 in
        if bitLen mod 16 \<noteq> 0 then Inl ErrUnresolvedSemantics
        else Inr (foldl (\<lambda>bits i. setBits bits (i * 6) 6 (ucast (toCode (char_byte (text ! i)))))
               (replicate (bitLen div 8) 0) [0..<length text], int bitLen))"

section \<open>Payload rules\<close>

definition identityLimit :: nat where "identityLimit = 50"

definition authorities :: "(string \<times> Authority) list" where
  "authorities = [(''J'', AuthorityISO15459), (''1J'', AuthorityISO15459), (''2J'', AuthorityISO15459),
     (''3J'', AuthorityISO15459), (''4J'', AuthorityISO15459), (''5J'', AuthorityISO15459),
     (''6J'', AuthorityISO15459), (''25S'', AuthorityISO15459), (''25T'', AuthorityISO15459),
     (''25B'', AuthorityISO15459), (''5R'', AuthorityISO15459), (''7B'', AuthorityISO6346)]"

definition AuthorityForDI :: "string \<Rightarrow> Authority option" where
  "AuthorityForDI di = map_of authorities di"

definition checkControls :: "SchemeID \<Rightarrow> iso_text \<Rightarrow> tdt_error + unit" where
  "checkControls scheme t =
     (case tx_Controls t of
        [] \<Rightarrow> Inr ()
      | ctl # _ \<Rightarrow>
          if tc_Code ctl = CodeGS \<or> tc_Code ctl = CodeEOT then Inl ErrUnresolvedSemantics
          else Inl (Field scheme ''uii'' ''control'' (tc_Name ctl)
            ''ISO/IEC 17360:2023 5.4.3 gives no role to this control in a 6-bit UII''))"

definition checkISO15459Identity :: "SchemeID \<Rightarrow> string \<Rightarrow> string \<Rightarrow> tdt_error + unit" where
  "checkISO15459Identity scheme di body =
     (if body = [] then Inl (Field scheme ''identifier'' ''empty'' body ''ISO/IEC 15459-1:2014 clause 5'')
      else if length di + length body > identityLimit
      then Inl (FieldError scheme ''identifier'' ''length'' (di @ body)
             ''ISO/IEC 15459-1:2014 5.2: at most 50 characters'' (Some ErrTdtLengthMismatch))
      else if list_ex (\<lambda>c. \<not> (c \<ge> CHR ''0'' \<and> c \<le> CHR ''9'' \<or> c \<ge> CHR ''A'' \<and> c \<le> CHR ''Z'')) body
      then Inl (Field scheme ''identifier'' ''charset'' body
             ''ISO/IEC 15459-1:2014 5.3: upper-case alphabetic and numeric only'')
      else Inr ())"

definition splitRegisteredDI :: "construct \<Rightarrow> string \<Rightarrow> (string \<times> string) option" where
  "splitRegisteredDI c text =
     (let best = foldl (\<lambda>best d. if length (DI d) > length best \<and> HasPrefix text (DI d) then DI d else best)
                   [] (DataIdentifiers c)
      in if best = [] then None else Some (best, drop (length best) text))"

definition interpretTransportUnit :: "construct \<Rightarrow> string \<Rightarrow> tdt_error + ivalue \<times> string" where
  "interpretTransportUnit c text =
     (case splitRegisteredDI c text of
        None \<Rightarrow> Inl ErrUnsupportedScheme
      | Some (di, body) \<Rightarrow>
          case AuthorityForDI di of
            None \<Rightarrow> Inl ErrUnsupportedScheme
          | Some authority \<Rightarrow>
              bind_res (checkISO15459Identity SchemeTransportUnit di body) (\<lambda>_.
                case New authority KeyTypeTransportUnit
                    [\<lparr>c_name = DataIdentifier, c_value = di\<rparr>, \<lparr>c_name = ISOIdentifier, c_value = body\<rparr>] of
                  Inl e \<Rightarrow> Inl (FromIdentity e)
                | Inr v \<Rightarrow> Inr (v, di)))"

definition Interpret :: "construct \<Rightarrow> iso_text \<Rightarrow> tdt_error + ivalue \<times> string" where
  "Interpret c t =
     bind_res (c_Scheme c) (\<lambda>scheme.
     bind_res (checkControls scheme t) (\<lambda>_.
     if tx_ResidueBits t \<noteq> 0 then Inl ErrUnresolvedSemantics
     else if scheme = SchemeTransportUnit then interpretTransportUnit c (tx_Characters t)
     else if scheme = Scheme17363 then Inl ErrUnresolvedSemantics
     else Inl ErrUnsupportedScheme))"

section \<open>Container codes\<close>

text \<open>The inner loop of \<open>values6346\<close>: the next value that is no multiple of eleven.\<close>

function skip_eleven :: "nat \<Rightarrow> nat" where
  "skip_eleven v = (if v mod 11 = 0 then skip_eleven (v + 1) else v)"
  by auto
termination
  by (relation "measure (\<lambda>v. if v mod 11 = 0 then 1 else 0)") (auto simp: mod_Suc)

declare skip_eleven.simps [simp del]

fun letter_values :: "nat \<Rightarrow> nat \<Rightarrow> nat list" where
  "letter_values 0 v = []"
| "letter_values (Suc n) v = (let w = skip_eleven v in w # letter_values n (w + 1))"

definition values6346 :: "nat list" where
  "values6346 = letter_values 26 10"

definition characterValue6346 :: "char \<Rightarrow> tdt_error + nat" where
  "characterValue6346 c =
     (if c \<ge> CHR ''0'' \<and> c \<le> CHR ''9'' then Inr (of_char c - of_char CHR ''0'')
      else if c \<ge> CHR ''A'' \<and> c \<le> CHR ''Z'' then Inr (values6346 ! (of_char c - of_char CHR ''A''))
      else Inl (Field Scheme17363 ''containercode'' ''charset'' [c] ''ISO 6346 clause 4.3''))"

definition CheckDigit6346 :: "string \<Rightarrow> tdt_error + string" where
  "CheckDigit6346 code =
     (if length code \<noteq> 10 then Inl (Field Scheme17363 ''containercode'' ''length'' code ''ISO 6346 clause 4.3'')
      else bind_res (fold_res (\<lambda>c (sum, weight).
             bind_res (characterValue6346 c) (\<lambda>v. Inr (sum + v * weight, weight * 2))) code (0, 1)) (\<lambda>(sum, weight).
        Inr [digit_char (sum mod 11 mod 10)]))"

definition InterpretContainerCode :: "string \<Rightarrow> tdt_error + ivalue" where
  "InterpretContainerCode code =
     (if length code \<noteq> 11 then Inl (Field Scheme17363 ''containercode'' ''length'' code ''ISO 6346 clause 4'')
      else let owner = take 3 code; category = take 1 (drop 3 code); serial = take 6 (drop 4 code); check = drop 10 code in
        if list_ex (\<lambda>c. c < CHR ''A'' \<or> c > CHR ''Z'') owner
        then Inl (Field Scheme17363 ''ownercode'' ''charset'' owner ''ISO 6346 clause 4'')
        else if \<not> (category = ''U'' \<or> category = ''J'' \<or> category = ''Z'')
        then Inl (Field Scheme17363 ''equipmentcategory'' ''value'' category ''ISO 6346 clause 4'')
        else if list_ex (\<lambda>c. c < CHR ''0'' \<or> c > CHR ''9'') serial
        then Inl (Field Scheme17363 ''containerserial'' ''charset'' serial ''ISO 6346 clause 4'')
        else bind_res (CheckDigit6346 (owner @ category @ serial)) (\<lambda>want.
          if check \<noteq> want
          then Inl (FieldError Scheme17363 ''checkdigit'' ''mismatch'' check ''ISO 6346 clause 4.3'' (Some ErrCheckDigit))
          else case New AuthorityISO6346 KeyTypeFreightContainer
              [\<lparr>c_name = OwnerCode, c_value = owner\<rparr>, \<lparr>c_name = EquipmentCategory, c_value = category\<rparr>,
               \<lparr>c_name = ContainerSerial, c_value = serial\<rparr>, \<lparr>c_name = CheckDigit, c_value = check\<rparr>] of
            Inl e \<Rightarrow> Inl (FromIdentity e)
          | Inr v \<Rightarrow> Inr v))"

section \<open>The three stages\<close>

definition decodeFor :: "construct \<Rightarrow> SchemeID \<Rightarrow> bytes \<Rightarrow> int \<Rightarrow> tdt_error + iso_text" where
  "decodeFor c scheme bits bitLen =
     (case c_Encoding c of
        Compaction6Bit \<Rightarrow> DecodeText bits bitLen
      | CompactionNone \<Rightarrow> Inl ErrUnresolvedSemantics
      | _ \<Rightarrow> Inl ErrUnsupportedScheme)"

definition iso_Decode :: "bytes \<Rightarrow> int \<Rightarrow> byte \<Rightarrow> tdt_error + translation" where
  "iso_Decode bits bitLen afi =
     bind_res (Recognise afi) (\<lambda>construct.
     bind_res (c_Scheme construct) (\<lambda>scheme.
     bind_res (decodeFor construct scheme bits bitLen) (\<lambda>text.
     bind_res (Interpret construct text) (\<lambda>(value, di).
       let control = no_control\<lparr>DataIdentifier' := di, ResidueBits := tx_ResidueBits text, Toggle := True,
             AFI := afi, HasAFI := True\<rparr>;
           raw = take (nat ((bitLen + 7) div 8)) bits
       in Inr \<lparr>t_Identity = value,
               t_Encoding = NewEncoding scheme bitLen bitLen control raw (v_components value)\<rparr>))))"

definition iso_Encode :: "ivalue \<Rightarrow> SchemeID \<Rightarrow> tdt_error + translation" where
  "iso_Encode v scheme =
     bind_res (AFIForScheme scheme) (\<lambda>afi.
     bind_res (Recognise afi) (\<lambda>construct.
     if c_Encoding construct \<noteq> Compaction6Bit then Inl ErrUnresolvedSemantics
     else if v_keyType v \<noteq> KeyTypeTransportUnit then Inl ErrCannotEncode
     else case v_Component v DataIdentifier of
       None \<Rightarrow> Inl ErrUnsupportedScheme
     | Some di \<Rightarrow>
         if \<not> Allows construct (c_value di) then Inl ErrUnsupportedScheme
         else (case AuthorityForDI (c_value di) of
           None \<Rightarrow> Inl ErrCannotEncode
         | Some authority \<Rightarrow>
             if v_authority v \<noteq> authority then Inl ErrCannotEncode
             else (case v_Component v ISOIdentifier of
               None \<Rightarrow> Inl (Field scheme ''identifier'' ''empty'' [] ''ISO/IEC 15459-1:2014 clause 5'')
             | Some body \<Rightarrow>
                 bind_res (checkISO15459Identity scheme (c_value di) (c_value body)) (\<lambda>_.
                 let text = c_value di @ c_value body in
                 if splitRegisteredDI construct text \<noteq> Some (c_value di, c_value body)
                 then Inl (Field scheme ''di'' ''ambiguous'' text ''ISO/IEC 15961-2 data constructs register'')
                 else bind_res (EncodeText scheme text) (\<lambda>(bits, bitLen).
                   let control = no_control\<lparr>DataIdentifier' := c_value di, ResidueBits := 0, Toggle := True,
                         AFI := afi, HasAFI := True\<rparr>
                   in Inr \<lparr>t_Identity = v,
                           t_Encoding = NewEncoding scheme bitLen bitLen control bits (v_components v)\<rparr>))))))"

definition Display :: "ivalue \<Rightarrow> string" where
  "Display v =
     (if v_keyType v \<noteq> KeyTypeFreightContainer \<and> v_keyType v \<noteq> KeyTypeTransportUnit then v_Describe v
      else concat (map (\<lambda>i. (if i = 1 then '' '' else []) @ c_value (v_components v ! i)) [0..<length (v_components v)]))"

section \<open>Facts: characters\<close>

lemma byte_char_byte [simp]: "char_byte (byte_char b) = b"
  using unsigned_less [of b, where ?'a = nat] by (simp add: char_byte_def byte_char_def of_nat_eq_wordI)

lemma char_byte_char [simp]: "byte_char (char_byte c) = c"
  by (simp add: char_byte_def byte_char_def unat_of_nat_small)

lemma is_control_iff: "is_control v \<longleftrightarrow> v \<in> {30, 31, 33, 35, 36}"
  by (auto simp: is_control_def controls_def control_codes)

lemma unat_and_63: "unat ((c :: byte) AND 63) = unat c mod 64"
proof -
  have "(63 :: byte) = mask 6" by (simp add: mask_eq_decr_exp)
  then have "c AND 63 = take_bit 6 c" by (simp only: take_bit_eq_mask)
  then have "unat (c AND 63) = take_bit 6 (unat c)" by (simp only: unsigned_take_bit_eq)
  then show ?thesis by (simp only: take_bit_eq_mod) simp
qed

lemma and_63_again [simp]: "((c :: byte) AND 63) AND 63 = c AND 63"
  by (simp add: and.assoc)

lemma and_63_small: "(v :: byte) < 64 \<Longrightarrow> v AND 63 = v"
  by (simp add: word_unat_eq_iff unat_and_63 word_less_nat_alt)

lemma mod_64_above: "64 \<le> m \<Longrightarrow> m < 128 \<Longrightarrow> m mod 64 = m - (64 :: nat)"
  by (simp add: le_mod_geq)

lemma code_arith:
  fixes m :: nat
  assumes "32 \<le> m" "m \<le> 95"
  shows "if m mod 64 < 32 then m = m mod 64 + 64 else m = m mod 64"
proof (cases "m < 64")
  case False
  then show ?thesis using assms mod_64_above [of m] by simp
qed (use assms in simp)

lemma code_of_accepted: "accepted c \<Longrightarrow> fromCode (toCode c) = Some c \<and> toCode c < 64"
proof -
  assume acc: "accepted c"
  then have n: "32 \<le> unat c" "unat c \<le> 95" and ctl: "\<not> is_control (c AND 63)"
    by (auto simp: accepted_def word_less_nat_alt split: if_splits)
  have "c = (c AND 63) + 64" if "unat c mod 64 < 32"
  proof -
    have "unat c = unat c mod 64 + 64" using that code_arith [OF n] by simp
    then have "unat c = unat ((c AND 63) + 64)" using that by (simp add: unat_word_ariths unat_and_63)
    then show ?thesis by (simp only: word_unat_eq_iff)
  qed
  moreover have "c = c AND 63" if "\<not> unat c mod 64 < 32"
  proof -
    have "unat c = unat c mod 64" using that code_arith [OF n] by simp
    then show ?thesis by (simp only: word_unat_eq_iff unat_and_63)
  qed
  ultimately show ?thesis
    using ctl by (auto simp: fromCode_def toCode_def word_less_nat_alt unat_and_63)
qed

lemma accepted_code: "v < 64 \<Longrightarrow> fromCode v = Some c \<Longrightarrow> accepted c \<and> toCode c = v"
proof -
  assume v: "v < 64" and f: "fromCode v = Some c"
  then have ctl: "\<not> is_control v" by (auto simp: fromCode_def and_63_small split: if_splits)
  have n: "unat v < 64" using v by (simp add: word_less_nat_alt)
  have c: "c = (if unat v < 32 then v + 64 else v)" using f by (auto simp: fromCode_def word_less_nat_alt split: if_splits)
  have un: "unat c = (if unat v < 32 then unat v + 64 else unat v)" using n by (simp add: c unat_word_ariths)
  then have "c AND 63 = v" using n by (auto simp: word_unat_eq_iff unat_and_63 split: if_splits)
  with ctl un n show ?thesis by (auto simp: accepted_def toCode_def word_less_nat_alt split: if_splits)
qed

lemma identity_chars_accepted:
  assumes "c \<ge> CHR ''0'' \<and> c \<le> CHR ''9'' \<or> c \<ge> CHR ''A'' \<and> c \<le> CHR ''Z''"
  shows "accepted (char_byte c)"
proof -
  have n: "48 \<le> unat (char_byte c) \<and> unat (char_byte c) \<le> 57 \<or> 65 \<le> unat (char_byte c) \<and> unat (char_byte c) \<le> 90"
    using assms by (auto simp: char_byte_def unat_of_nat_small less_eq_char_def)
  have "unat (char_byte c) mod 64 \<notin> {30, 31, 33, 35, 36}"
  proof (cases "unat (char_byte c) < 64")
    case True
    with n show ?thesis by auto
  next
    case False
    with n mod_64_above [of "unat (char_byte c)"] show ?thesis by auto
  qed
  then have "char_byte c AND 63 \<notin> {30, 31, 33, 35, 36}"
    by (simp only: word_unat_eq_iff unat_and_63 insert_iff empty_iff) simp
  with n show ?thesis by (auto simp: accepted_def is_control_iff word_less_nat_alt)
qed

end
