(* ===== verification/Iso_Text.thy ===== *)
theory Iso_Text
  imports Iso
begin

text \<open>
  The six-bit text of ISO tags, written and read back: a text of n characters tiles its bits
  with n fields of six, so what \<open>EncodeText\<close> writes \<open>DecodeText\<close> reads, and what \<open>DecodeText\<close> reads
  in full \<open>EncodeText\<close> writes again.
\<close>

section \<open>The decoder as a map over its codes\<close>

definition code_at :: "bytes \<Rightarrow> nat \<Rightarrow> byte" where
  "code_at bits i = ucast (bitsAt bits (i * 6) 6)"

definition control_at :: "bytes \<Rightarrow> nat \<Rightarrow> text_control" where
  "control_at bits i =
     (let (cb, name) = (case map_of controls (code_at bits i) of Some ctl \<Rightarrow> ctl | None \<Rightarrow> (0, []))
      in \<lparr>tc_Code = code_at bits i, tc_Name = name, tc_Byte = cb, tc_Index = i\<rparr>)"

lemma DecodeText_eq:
  "DecodeText bits bitLen =
     (if bitLen < 6 \<or> int (length bits * 8) < bitLen then Inl ErrTruncated
      else let is = [0..<nat (bitLen div 6)] in
        Inr \<lparr>tx_Characters = map byte_char (List.map_filter (\<lambda>i. fromCode (code_at bits i)) is),
          tx_Controls = map (control_at bits) (filter (\<lambda>i. fromCode (code_at bits i) = None) is),
          tx_ResidueBits = bitLen mod 6\<rparr>)"
proof -
  let ?step = "\<lambda>(b, found) i.
          let code = ucast (bitsAt bits (i * 6) 6) :: byte in
          case fromCode code of
            Some c \<Rightarrow> (b @ [byte_char c], found)
          | None \<Rightarrow>
              let (cb, name) = (case map_of controls code of Some ctl \<Rightarrow> ctl | None \<Rightarrow> (0, [])) in
              (b, found @ [\<lparr>tc_Code = code, tc_Name = name, tc_Byte = cb, tc_Index = i\<rparr>])"
  have "foldl ?step ([], []) is =
      (map byte_char (List.map_filter (\<lambda>i. fromCode (code_at bits i)) is),
       map (control_at bits) (filter (\<lambda>i. fromCode (code_at bits i) = None) is))" for "is"
    by (induction "is" rule: rev_induct)
      (auto simp: map_filter_def code_at_def control_at_def Let_def split: option.split prod.split)
  moreover have "bitLen - int (nat (bitLen div 6)) * 6 = bitLen mod 6" if "\<not> bitLen < 6"
    using that by (simp add: minus_div_mult_eq_mod)
  ultimately show ?thesis by (simp add: DecodeText_def Let_def)
qed

lemma code_at_less: "code_at bits i < 64"
proof -
  have m: "(63 :: byte) = mask 6" by (simp add: mask_eq_decr_exp)
  have "code_at bits i = take_bit 6 (code_at bits i)"
    by (rule bit_word_eqI) (auto simp: code_at_def bit_simps bit_bitsAt)
  then have "code_at bits i = code_at bits i AND 63" by (simp only: m take_bit_eq_mask)
  then have "unat (code_at bits i) = unat (code_at bits i) mod 64" by (metis unat_and_63)
  moreover have "unat (code_at bits i) mod 64 < 64" by simp
  ultimately have "unat (code_at bits i) < 64" by linarith
  then show ?thesis by (simp add: word_less_nat_alt)
qed

section \<open>The bits of a text\<close>

definition text_sites :: "string \<Rightarrow> site list" where
  "text_sites s = map (\<lambda>i. (i * 6, 6, ucast (toCode (char_byte (s ! i))))) [0..<length s]"

definition text_bits :: "string \<Rightarrow> bytes" where
  "text_bits s = writeFields (text_sites s) (replicate (length s * 6 div 8) 0)"

lemma length_text_bits [simp]: "length (text_bits s) = length s * 6 div 8"
  by (simp add: text_bits_def)

lemma EncodeText_iff:
  "EncodeText scheme s = Inr r \<longleftrightarrow>
     s \<noteq> [] \<and> list_all (\<lambda>c. accepted (char_byte c)) s \<and> length s * 6 mod 16 = 0 \<and>
     r = (text_bits s, int (length s * 6))"
proof -
  have "foldl (\<lambda>bits i. setBits bits (i * 6) 6 (ucast (toCode (char_byte (s ! i))))) d is =
      writeFields (map (\<lambda>i. (i * 6, 6, ucast (toCode (char_byte (s ! i))))) is) d" for d "is"
    by (induction "is" arbitrary: d) (simp_all add: writeFields_def)
  then show ?thesis
    by (auto simp: EncodeText_def text_bits_def text_sites_def Let_def list_ex_iff list_all_iff)
qed

lemma contiguous_sixes:
  "a \<le> n \<Longrightarrow> contiguous (a * 6) (map (\<lambda>i. (i * 6, 6)) [a..<n]) (n * 6)"
proof (induction "n - a" arbitrary: a)
  case (Suc k)
  then have "contiguous (Suc a * 6) (map (\<lambda>i. (i * 6, 6)) [Suc a..<n]) (n * 6)" by (intro Suc) simp_all
  with Suc show ?case by (simp add: upt_conv_Cons add.commute)
qed simp

lemma text_tiling: "tiling (map place (text_sites s)) (length s * 6)"
proof (rule contiguous_tiling)
  have sites: "map place (text_sites s) = map (\<lambda>i. (i * 6, 6)) [0..<length s]"
    by (simp add: text_sites_def place_def)
  show "list_all (\<lambda>site. snd site \<le> 64) (map place (text_sites s))" by (simp add: sites list_all_iff)
  have "sorted (map fst (map place (text_sites s)))"
    by (simp add: sites sorted_iff_nth_mono)
  then show "contiguous 0 (sort_key fst (map place (text_sites s))) (length s * 6)"
    using contiguous_sixes [of 0 "length s"] by (simp add: sort_key_id_if_sorted sites)
qed

lemma ucast_byte: "ucast (ucast (b :: byte) :: u64) = b"
  by (rule bit_word_eqI) (auto simp: bit_simps)

lemma text_reads_back:
  assumes "length s * 6 mod 8 = 0" "list_all (\<lambda>c. accepted (char_byte c)) s" "i < length s"
  shows "fromCode (code_at (text_bits s) i) = Some (char_byte (s ! i))"
proof -
  let ?c = "toCode (char_byte (s ! i))"
  have eight: "8 * (length s * 6 div 8) = length s * 6" using assms(1) by presburger
  have acc: "accepted (char_byte (s ! i))" using assms by (simp add: list_all_length)
  have "\<not> bit (ucast ?c :: u64) j" if "6 \<le> j" for j
  proof -
    have "?c = take_bit 6 (char_byte (s ! i))"
      by (simp add: toCode_def take_bit_eq_mask mask_eq_decr_exp)
    with that show ?thesis by (simp add: bit_simps)
  qed
  moreover have "tiling (map place (text_sites s)) (8 * (length s * 6 div 8))"
    unfolding eight by (rule text_tiling)
  moreover have "(i * 6, 6, ucast ?c) \<in> set (text_sites s)" using assms(3) by (auto simp: text_sites_def)
  ultimately have "bitsAt (text_bits s) (i * 6) 6 = ucast ?c"
    unfolding text_bits_def by (intro bitsAt_writeFields) auto
  then have "code_at (text_bits s) i = ?c" by (simp only: code_at_def ucast_byte)
  with code_of_accepted [OF acc] show ?thesis by simp
qed

lemma text_writes_again:
  assumes "length s * 6 mod 8 = 0" "length s * 6 \<le> 8 * length bits"
    "\<And>i. i < length s \<Longrightarrow> fromCode (code_at bits i) = Some (char_byte (s ! i))"
  shows "text_bits s = take (length s * 6 div 8) bits"
  unfolding text_bits_def
proof (rule writeFields_bitsAt)
  have eight: "8 * (length s * 6 div 8) = length s * 6" using assms(1) by presburger
  show "tiling (map place (text_sites s)) (8 * (length s * 6 div 8))"
    unfolding eight by (rule text_tiling)
  show "length s * 6 div 8 \<le> length bits" using assms(2) by simp
  have "bitsAt bits (i * 6) 6 = ucast (toCode (char_byte (s ! i)))" if "i < length s" for i
  proof -
    have "toCode (char_byte (s ! i)) = code_at bits i"
      using accepted_code [OF code_at_less assms(3) [OF that]] by simp
    moreover have "ucast (code_at bits i) = bitsAt bits (i * 6) 6"
      by (rule bit_word_eqI) (auto simp: code_at_def bit_simps bit_bitsAt)
    ultimately show ?thesis by simp
  qed
  then show "\<forall>(offset, n, v) \<in> set (text_sites s). bitsAt bits offset n = v"
    by (auto simp: text_sites_def)
qed

section \<open>Texts that decode in full\<close>

lemma map_filter_all:
  "(\<And>x. x \<in> set xs \<Longrightarrow> f x = Some (g x)) \<Longrightarrow> List.map_filter f xs = map g xs"
  by (induction xs) (auto simp: map_filter_def)

text \<open>A decoded text without controls or residue is exactly one whose codes all stand for characters.\<close>

definition full_text :: "string \<Rightarrow> iso_text" where
  "full_text s = \<lparr>tx_Characters = s, tx_Controls = [], tx_ResidueBits = 0\<rparr>"

definition reads :: "bytes \<Rightarrow> int \<Rightarrow> string \<Rightarrow> bool" where
  "reads bits bitLen s \<longleftrightarrow> s \<noteq> [] \<and> bitLen = int (length s * 6) \<and> length s * 6 \<le> 8 * length bits \<and>
     (\<forall>i < length s. fromCode (code_at bits i) = Some (char_byte (s ! i)))"

lemma DecodeText_reads:
  assumes "reads bits bitLen s"
  shows "DecodeText bits bitLen = Inr (full_text s)"
proof -
  have n: "nat (bitLen div 6) = length s" "bitLen mod 6 = 0" "\<not> bitLen < 6" "\<not> int (length bits * 8) < bitLen"
    using assms by (auto simp: reads_def Suc_le_eq)
  have "List.map_filter (\<lambda>i. fromCode (code_at bits i)) [0..<length s] = map (\<lambda>i. char_byte (s ! i)) [0..<length s]"
    using assms by (intro map_filter_all) (auto simp: reads_def)
  moreover have "map (byte_char \<circ> (\<lambda>i. char_byte (s ! i))) [0..<length s] = s"
    by (simp add: comp_def map_nth)
  ultimately show ?thesis
    using assms n by (auto simp: DecodeText_eq full_text_def Let_def filter_empty_conv reads_def)
qed

lemma DecodeText_full:
  assumes "DecodeText bits bitLen = Inr t" "tx_Controls t = []" "tx_ResidueBits t = 0"
  shows "reads bits bitLen (tx_Characters t) \<and> t = full_text (tx_Characters t)"
proof -
  let ?n = "nat (bitLen div 6)"
  have len: "6 \<le> bitLen" "bitLen \<le> int (length bits * 8)"
    and t: "t = \<lparr>tx_Characters = map byte_char (List.map_filter (\<lambda>i. fromCode (code_at bits i)) [0..<?n]),
          tx_Controls = map (control_at bits) (filter (\<lambda>i. fromCode (code_at bits i) = None) [0..<?n]),
          tx_ResidueBits = bitLen mod 6\<rparr>"
    using assms(1) by (auto simp: DecodeText_eq Let_def split: if_splits)
  have some: "\<exists>c. fromCode (code_at bits i) = Some c" if "i < ?n" for i
    using assms(2) that by (auto simp: t filter_empty_conv)
  have "List.map_filter (\<lambda>i. fromCode (code_at bits i)) [0..<?n] = map (\<lambda>i. the (fromCode (code_at bits i))) [0..<?n]"
    using some by (intro map_filter_all) fastforce
  then have chars: "tx_Characters t = map (\<lambda>i. byte_char (the (fromCode (code_at bits i)))) [0..<?n]"
    by (simp add: t)
  have "bitLen = int (?n * 6)" using len(1) assms(3) by (auto simp: t)
  with len some have "reads bits bitLen (tx_Characters t)"
    unfolding reads_def chars by (fastforce simp: comp_def)
  with assms(2,3) show ?thesis by (simp add: full_text_def)
qed

lemma reads_text_bits:
  assumes "s \<noteq> []" "list_all (\<lambda>c. accepted (char_byte c)) s" "length s * 6 mod 16 = 0"
  shows "reads (text_bits s) (int (length s * 6)) s"
proof -
  have "length s * 6 mod 8 = 0" using assms(3) by presburger
  with text_reads_back [OF this assms(2)] show ?thesis using assms(1) by (auto simp: reads_def)
qed

end
