(* ===== verification/Iso_Roundtrip.thy ===== *)
theory Iso_Roundtrip
  imports Iso_Text
begin

text \<open>
  ISO transport units read and written: which constructs decode at all, that an encoded
  identity decodes to itself, and that a decoded tag encodes to its own bits; and the check
  digit of container codes.
\<close>

section \<open>The supported constructs\<close>

lemma construct_AFI [simp]:
  "c_AFI afi_00 = 0x00" "c_AFI afi_01 = 0x01" "c_AFI afi_02 = 0x02" "c_AFI afi_03 = 0x03"
  "c_AFI afi_04 = 0x04" "c_AFI afi_05 = 0x05" "c_AFI afi_06 = 0x06" "c_AFI afi_07 = 0x07"
  "c_AFI afi_90 = 0x90" "c_AFI afi_91 = 0x91" "c_AFI afi_92 = 0x92" "c_AFI afi_A0 = 0xA0"
  "c_AFI afi_A1 = 0xA1" "c_AFI afi_A2 = 0xA2" "c_AFI afi_A3 = 0xA3" "c_AFI afi_A4 = 0xA4"
  "c_AFI afi_A5 = 0xA5" "c_AFI afi_A6 = 0xA6" "c_AFI afi_A7 = 0xA7" "c_AFI afi_A8 = 0xA8"
  "c_AFI afi_A9 = 0xA9" "c_AFI afi_AA = 0xAA" "c_AFI afi_AB = 0xAB" "c_AFI afi_AC = 0xAC"
  "c_AFI afi_AD = 0xAD" "c_AFI afi_AE = 0xAE" "c_AFI afi_AF = 0xAF" "c_AFI afi_B0 = 0xB0"
  "c_AFI afi_BB = 0xBB" "c_AFI afi_BC = 0xBC" "c_AFI afi_BD = 0xBD" "c_AFI afi_C0 = 0xC0"
  "c_AFI afi_C1 = 0xC1" "c_AFI afi_C2 = 0xC2" "c_AFI afi_CF = 0xCF"
  by (simp_all add: construct_defs)

lemma construct_Supported [simp]:
  "\<not> c_Supported afi_00" "\<not> c_Supported afi_01" "\<not> c_Supported afi_02"
  "\<not> c_Supported afi_03" "\<not> c_Supported afi_04" "\<not> c_Supported afi_05"
  "\<not> c_Supported afi_06" "\<not> c_Supported afi_07" "\<not> c_Supported afi_90"
  "\<not> c_Supported afi_91" "\<not> c_Supported afi_92" "\<not> c_Supported afi_A0"
  "\<not> c_Supported afi_A1" "c_Supported afi_A2" "\<not> c_Supported afi_A3" "\<not> c_Supported afi_A4"
  "\<not> c_Supported afi_A5" "\<not> c_Supported afi_A6" "c_Supported afi_A7" "\<not> c_Supported afi_A8"
  "c_Supported afi_A9" "c_Supported afi_AA" "\<not> c_Supported afi_AB" "\<not> c_Supported afi_AC"
  "\<not> c_Supported afi_AD" "\<not> c_Supported afi_AE" "\<not> c_Supported afi_AF"
  "\<not> c_Supported afi_B0" "\<not> c_Supported afi_BB" "\<not> c_Supported afi_BC"
  "\<not> c_Supported afi_BD" "\<not> c_Supported afi_C0" "\<not> c_Supported afi_C1"
  "\<not> c_Supported afi_C2" "\<not> c_Supported afi_CF"
  by (simp_all add: construct_defs)

definition transport_construct :: "construct \<Rightarrow> bool" where
  "transport_construct c \<longleftrightarrow> c \<in> {afi_A2, afi_A7}"

lemma Recognise_iff:
  "Recognise afi = Inr c \<longleftrightarrow>
     afi = 0xA2 \<and> c = afi_A2 \<or> afi = 0xA7 \<and> c = afi_A7 \<or> afi = 0xA9 \<and> c = afi_A9 \<or> afi = 0xAA \<and> c = afi_AA"
proof -
  have distinct: "distinct (map c_AFI constructs)"
    by (simp add: constructs_def)
  have "c \<in> set constructs \<and> c_Supported c \<longleftrightarrow> c \<in> {afi_A2, afi_A7, afi_A9, afi_AA}"
    by (auto simp: constructs_def)
  moreover have "Recognise afi = Inr c \<longleftrightarrow> c_AFI c = afi \<and> c \<in> set constructs \<and> c_Supported c"
    using find_key_iff [OF distinct, of afi] by (auto simp: Recognise_def ok_simps split: option.splits)
  ultimately show ?thesis by auto
qed

lemma transport_facts:
  assumes "transport_construct c"
  shows "c_Scheme c = Inr SchemeTransportUnit" "c_Encoding c = Compaction6Bit"
    "map DI (DataIdentifiers c) = [''J'', ''1J'', ''2J'', ''3J'', ''4J'', ''5J'', ''6J'']"
  using assms by (auto simp: transport_construct_def c_Scheme_def afi_codes construct_defs)

lemma uncompacted_facts:
  "c_Encoding afi_A9 = CompactionNone" "c_Encoding afi_AA = CompactionNone"
  by (simp_all add: construct_defs)

section \<open>Identities of transport units\<close>

definition transport_DIs :: "string list" where
  "transport_DIs = [''J'', ''1J'', ''2J'', ''3J'', ''4J'', ''5J'', ''6J'']"

definition identity_char :: "char \<Rightarrow> bool" where
  "identity_char c \<longleftrightarrow> c \<ge> CHR ''0'' \<and> c \<le> CHR ''9'' \<or> c \<ge> CHR ''A'' \<and> c \<le> CHR ''Z''"

definition transport_ok :: "string \<Rightarrow> string \<Rightarrow> bool" where
  "transport_ok di body \<longleftrightarrow> di \<in> set transport_DIs \<and> body \<noteq> [] \<and> length di + length body \<le> identityLimit \<and>
     list_all identity_char body"

definition transport_value :: "string \<Rightarrow> string \<Rightarrow> ivalue" where
  "transport_value di body = \<lparr>v_authority = AuthorityISO15459, v_keyType = KeyTypeTransportUnit,
     v_components = [\<lparr>c_name = DataIdentifier, c_value = di\<rparr>, \<lparr>c_name = ISOIdentifier, c_value = body\<rparr>]\<rparr>"

definition transport_translation :: "byte \<Rightarrow> string \<Rightarrow> string \<Rightarrow> bytes \<Rightarrow> int \<Rightarrow> translation" where
  "transport_translation afi di body bits bitLen =
     \<lparr>t_Identity = transport_value di body,
      t_Encoding = NewEncoding SchemeTransportUnit bitLen bitLen
        (no_control\<lparr>DataIdentifier' := di, ResidueBits := 0, Toggle := True, AFI := afi, HasAFI := True\<rparr>)
        bits (v_components (transport_value di body))\<rparr>"

lemma AuthorityForDI_transport: "di \<in> set transport_DIs \<Longrightarrow> AuthorityForDI di = Some AuthorityISO15459"
  by (auto simp: transport_DIs_def AuthorityForDI_def authorities_def)

lemma checkISO15459Identity_ok:
  "is_ok (checkISO15459Identity scheme di body) \<longleftrightarrow>
     body \<noteq> [] \<and> length di + length body \<le> identityLimit \<and> list_all identity_char body"
  by (auto simp: checkISO15459Identity_def identity_char_def list_ex_iff list_all_iff)

lemma checkISO15459Identity_Inr:
  "checkISO15459Identity scheme di body = Inr u \<longleftrightarrow>
     body \<noteq> [] \<and> length di + length body \<le> identityLimit \<and> list_all identity_char body"
  using checkISO15459Identity_ok [of scheme di body] by (simp add: is_ok_iff)

lemma Allows_transport: "transport_construct c \<Longrightarrow> Allows c di \<longleftrightarrow> di \<in> set transport_DIs"
proof -
  assume "transport_construct c"
  then have "DI ` set (DataIdentifiers c) = set transport_DIs"
    using transport_facts(3) [of c] by (metis list.set_map transport_DIs_def)
  then show ?thesis by (simp add: Allows_def list_ex_iff) (metis (no_types, lifting) imageE imageI)
qed

lemma split_fold:
  "foldl (\<lambda>best d. if length (DI d) > length best \<and> HasPrefix text (DI d) then DI d else best) b ds =
   foldl (\<lambda>best d. if length d > length best \<and> HasPrefix text d then d else best) b (map DI ds)"
  by (induction ds arbitrary: b) simp_all

lemma splitRegisteredDI_eq:
  assumes "transport_construct c"
  shows "splitRegisteredDI c text =
     (let best = foldl (\<lambda>best d. if length d > length best \<and> HasPrefix text d then d else best) [] transport_DIs
      in if best = [] then None else Some (best, drop (length best) text))"
  unfolding splitRegisteredDI_def split_fold transport_facts(3) [OF assms] transport_DIs_def ..

lemma longest_prefix:
  fixes ds :: "string list" and b t :: string
  defines "best \<equiv> foldl (\<lambda>best d. if length d > length best \<and> HasPrefix t d then d else best) b ds"
  shows "best = b \<or> best \<in> set ds \<and> HasPrefix t best"
  unfolding best_def
proof (induction ds arbitrary: b)
  case (Cons d ds)
  from Cons [of "if length d > length b \<and> HasPrefix t d then d else b"] show ?case by (auto split: if_splits)
qed simp

lemma splitRegisteredDI_Some:
  assumes "splitRegisteredDI c text = Some (di, body)" "transport_construct c"
  shows "di \<in> set transport_DIs \<and> text = di @ body"
  using assms(1) longest_prefix [where t = "text" and b = "[]" and ds = transport_DIs]
  unfolding splitRegisteredDI_eq [OF assms(2)] Let_def
  by (auto simp del: foldl_Cons foldl_Nil simp: HasPrefix_def split: if_splits) (metis append_take_drop_id)

lemma splitRegisteredDI_transport:
  assumes "transport_construct c" "di \<in> set transport_DIs"
  shows "splitRegisteredDI c (di @ body) = Some (di, body)"
  using assms(2)
  by (auto simp: splitRegisteredDI_eq [OF assms(1)] transport_DIs_def HasPrefix_def numeral_2_eq_2)

lemma transport_accepted:
  assumes "transport_ok di body"
  shows "list_all (\<lambda>c. accepted (char_byte c)) (di @ body)"
proof -
  have "list_all identity_char (di @ body)"
    using assms by (auto simp: transport_ok_def transport_DIs_def identity_char_def)
  then show ?thesis using identity_chars_accepted by (auto simp: list_all_iff identity_char_def)
qed

section \<open>Decoding and encoding, exactly\<close>

lemma Interpret_transport:
  assumes "transport_construct c"
  shows "Interpret c t = Inr (v, di) \<longleftrightarrow> tx_Controls t = [] \<and> tx_ResidueBits t = 0 \<and>
     (\<exists>body. tx_Characters t = di @ body \<and> transport_ok di body \<and> v = transport_value di body)"
proof -
  have inner: "interpretTransportUnit c s = Inr (v, di) \<longleftrightarrow>
      (\<exists>body. s = di @ body \<and> transport_ok di body \<and> v = transport_value di body)" for s
  proof
    assume A: "interpretTransportUnit c s = Inr (v, di)"
    then obtain d body where sp: "splitRegisteredDI c s = Some (d, body)"
      by (auto simp: interpretTransportUnit_def split: option.splits)
    note d = splitRegisteredDI_Some [OF sp assms]
    with A sp show "\<exists>body. s = di @ body \<and> transport_ok di body \<and> v = transport_value di body"
      by (auto simp: interpretTransportUnit_def AuthorityForDI_transport checkISO15459Identity_Inr New_Inr
          transport_ok_def transport_value_def ok_simps)
  next
    assume "\<exists>body. s = di @ body \<and> transport_ok di body \<and> v = transport_value di body"
    then show "interpretTransportUnit c s = Inr (v, di)"
      using splitRegisteredDI_transport [OF assms, of di]
      by (auto simp: interpretTransportUnit_def AuthorityForDI_transport checkISO15459Identity_Inr New_Inr
          transport_ok_def transport_value_def componentOrder_def ok_simps)
  qed
  have controls: "checkControls s t = Inr u \<longleftrightarrow> tx_Controls t = []" for s u
    by (auto simp: checkControls_def split: list.splits)
  show ?thesis
    by (auto simp: Interpret_def transport_facts [OF assms] controls inner guard_Inr)
qed

lemma iso_Decode_iff:
  "iso_Decode bits bitLen afi = Inr t \<longleftrightarrow> (afi = 0xA2 \<or> afi = 0xA7) \<and>
     (\<exists>di body. transport_ok di body \<and> reads bits bitLen (di @ body) \<and>
        t = transport_translation afi di body (take (nat ((bitLen + 7) div 8)) bits) bitLen)"
proof -
  have transport: "iso_Decode bits bitLen afi = Inr t \<longleftrightarrow>
      (\<exists>di body. transport_ok di body \<and> reads bits bitLen (di @ body) \<and>
        t = transport_translation afi di body (take (nat ((bitLen + 7) div 8)) bits) bitLen)" (is "_ \<longleftrightarrow> ?R")
    if c: "Recognise afi = Inr c" "transport_construct c" for c
  proof
    assume "iso_Decode bits bitLen afi = Inr t"
    then obtain s v di where s: "DecodeText bits bitLen = Inr s" and I: "Interpret c s = Inr (v, di)"
      and t: "t = \<lparr>t_Identity = v,
               t_Encoding = NewEncoding SchemeTransportUnit bitLen bitLen (no_control\<lparr>DataIdentifier' := di,
                 ResidueBits := tx_ResidueBits s, Toggle := True, AFI := afi, HasAFI := True\<rparr>)
                 (take (nat ((bitLen + 7) div 8)) bits) (v_components v)\<rparr>"
      by (auto simp: iso_Decode_def c transport_facts [OF c(2)] decodeFor_def Let_def)
    from I obtain body where "tx_Controls s = []" "tx_ResidueBits s = 0" "tx_Characters s = di @ body"
      "transport_ok di body" "v = transport_value di body"
      unfolding Interpret_transport [OF c(2)] by blast
    with DecodeText_full [OF s] t show ?R by (auto simp: transport_translation_def)
  next
    assume ?R
    then obtain di body where b: "transport_ok di body" "reads bits bitLen (di @ body)"
      and t: "t = transport_translation afi di body (take (nat ((bitLen + 7) div 8)) bits) bitLen" by blast
    have "Interpret c (full_text (di @ body)) = Inr (transport_value di body, di)"
      using b(1) by (simp add: Interpret_transport [OF c(2)] full_text_def)
    with DecodeText_reads [OF b(2)] show "iso_Decode bits bitLen afi = Inr t"
      by (simp add: iso_Decode_def c transport_facts [OF c(2)] decodeFor_def t transport_translation_def full_text_def)
  qed
  have other: "\<not> (\<exists>t. iso_Decode bits bitLen afi = Inr t)" if "afi \<noteq> 0xA2" "afi \<noteq> 0xA7"
  proof
    assume "\<exists>t. iso_Decode bits bitLen afi = Inr t"
    then obtain c t where "Recognise afi = Inr c" and d: "iso_Decode bits bitLen afi = Inr t" by (auto simp: iso_Decode_def)
    with that have "c_Encoding c = CompactionNone" by (auto simp: Recognise_iff uncompacted_facts)
    with d \<open>Recognise afi = Inr c\<close> show False by (simp add: iso_Decode_def decodeFor_def)
  qed
  show ?thesis
  proof (cases "afi = 0xA2 \<or> afi = 0xA7")
    case True
    then have "Recognise afi = Inr (if afi = 0xA2 then afi_A2 else afi_A7)"
      "transport_construct (if afi = 0xA2 then afi_A2 else afi_A7)"
      by (auto simp: Recognise_iff transport_construct_def)
    with transport True show ?thesis by blast
  next
    case False
    with other show ?thesis by blast
  qed
qed

lemma v_Component_transport [simp]:
  "v_Component (transport_value di body) DataIdentifier = Some \<lparr>c_name = DataIdentifier, c_value = di\<rparr>"
  "v_Component (transport_value di body) ISOIdentifier = Some \<lparr>c_name = ISOIdentifier, c_value = body\<rparr>"
  by (simp_all add: v_Component_def transport_value_def)

lemma transport_A2: "Recognise AFITransportUnit = Inr afi_A2" "transport_construct afi_A2"
  by (simp_all add: Recognise_iff transport_construct_def afi_codes)

lemma iso_Encode_transport:
  assumes "transport_ok di body"
  shows "iso_Encode (transport_value di body) SchemeTransportUnit =
    (if length (di @ body) * 6 mod 16 = 0
     then Inr (transport_translation 0xA2 di body (text_bits (di @ body)) (int (length (di @ body) * 6)))
     else Inl ErrUnresolvedSemantics)"
proof -
  have enc: "EncodeText SchemeTransportUnit (di @ body) =
      (if length (di @ body) * 6 mod 16 = 0 then Inr (text_bits (di @ body), int (length (di @ body) * 6))
       else Inl ErrUnresolvedSemantics)"
  proof (cases "length (di @ body) * 6 mod 16 = 0")
    case True
    have "di @ body \<noteq> []" using assms by (auto simp: transport_ok_def)
    with transport_accepted [OF assms] True
    have "EncodeText SchemeTransportUnit (di @ body) = Inr (text_bits (di @ body), int (length (di @ body) * 6))"
      by (simp only: EncodeText_iff simp_thms)
    with True show ?thesis by (simp only: if_True refl)
  next
    case False
    with transport_accepted [OF assms] assms show ?thesis
      by (auto simp: EncodeText_def transport_ok_def list_ex_iff list_all_iff Let_def)
  qed
  have "checkISO15459Identity s di body = Inr ()" for s
    using assms by (simp add: checkISO15459Identity_Inr transport_ok_def)
  moreover have "di \<in> set transport_DIs" using assms by (simp add: transport_ok_def)
  moreover have "v_keyType (transport_value di body) = KeyTypeTransportUnit"
    "v_authority (transport_value di body) = AuthorityISO15459" by (simp_all add: transport_value_def)
  ultimately show ?thesis
    by (simp add: iso_Encode_def AFIForScheme_def transport_A2 transport_facts [OF transport_A2(2)]
        Allows_transport [OF transport_A2(2)] AuthorityForDI_transport splitRegisteredDI_transport [OF transport_A2(2)]
        enc transport_translation_def Let_def) (simp add: afi_codes)
qed

lemma whole_words:
  assumes "n mod 16 = 0"
  shows "n mod 8 = 0" "nat ((int n + 7) div 8) = n div 8"
proof -
  from assms obtain q where "n = 16 * q" by (auto simp: mod_eq_0_iff_dvd dvd_def)
  then show "n mod 8 = 0" "nat ((int n + 7) div 8) = n div 8" by simp_all
qed

lemma iso_Encode_Inr:
  assumes "New a k cs = Inr v" "iso_Encode v scheme = Inr t"
  shows "scheme = SchemeTransportUnit \<and> (\<exists>di body. transport_ok di body \<and> v = transport_value di body)"
proof -
  obtain afi c where afi: "AFIForScheme scheme = Inr afi" "Recognise afi = Inr c" and enc: "c_Encoding c = Compaction6Bit"
    and k: "v_keyType v = KeyTypeTransportUnit"
    using assms(2) by (auto simp: iso_Encode_def guard_Inr)
  have s: "scheme = SchemeTransportUnit" "afi = 0xA2" "c = afi_A2"
    using afi enc uncompacted_facts by (auto simp: AFIForScheme_def afi_codes Recognise_iff split: if_splits)
  note T = transport_A2(2)
  obtain di body where v: "v = \<lparr>v_authority = a, v_keyType = KeyTypeTransportUnit,
      v_components = [\<lparr>c_name = DataIdentifier, c_value = di\<rparr>, \<lparr>c_name = ISOIdentifier, c_value = body\<rparr>]\<rparr>"
  proof -
    have "map c_name cs = [DataIdentifier, ISOIdentifier]" "v = \<lparr>v_authority = a, v_keyType = k, v_components = cs\<rparr>"
      using assms(1) k by (auto simp: New_Inr componentOrder_def)
    then obtain x y where "cs = [x, y]" "c_name x = DataIdentifier" "c_name y = ISOIdentifier" by auto
    moreover have "x = \<lparr>c_name = c_name x, c_value = c_value x\<rparr>" for x by simp
    ultimately show ?thesis using that [of "c_value x" "c_value y"] \<open>v = _\<close> k by auto
  qed
  have comps: "v_Component v DataIdentifier = Some \<lparr>c_name = DataIdentifier, c_value = di\<rparr>"
    "v_Component v ISOIdentifier = Some \<lparr>c_name = ISOIdentifier, c_value = body\<rparr>"
    by (simp_all add: v_Component_def v)
  have di: "di \<in> set transport_DIs" using assms(2)
    by (simp add: iso_Encode_def afi [unfolded s] s comps Allows_transport [OF T] guard_Inr)
  have "a = AuthorityISO15459" "checkISO15459Identity SchemeTransportUnit di body = Inr ()"
    using assms(2) by (auto simp: iso_Encode_def afi [unfolded s] s comps AuthorityForDI_transport [OF di] guard_Inr)
      (simp add: v)
  with di v s show ?thesis by (auto simp: checkISO15459Identity_Inr transport_ok_def transport_value_def)
qed

lemma iso_encoded_tag:
  assumes "New a k cs = Inr v" "iso_Encode v scheme = Inr t"
  obtains di body where "transport_ok di body" "v = transport_value di body" "length (di @ body) * 6 mod 16 = 0"
    "t = transport_translation 0xA2 di body (text_bits (di @ body)) (int (length (di @ body) * 6))"
    "iso_Decode (text_bits (di @ body)) (int (length (di @ body) * 6)) 0xA2 = Inr t"
proof -
  from iso_Encode_Inr [OF assms] obtain di body where s: "scheme = SchemeTransportUnit"
    and ok: "transport_ok di body" and v: "v = transport_value di body" by blast
  let ?n = "length (di @ body) * 6"
  have n: "?n mod 16 = 0" and t: "t = transport_translation 0xA2 di body (text_bits (di @ body)) (int ?n)"
    using assms(2) unfolding s v iso_Encode_transport [OF ok] by (metis Inr_inject sum.distinct(1))+
  have "di @ body \<noteq> []" using ok by (auto simp: transport_ok_def)
  from reads_text_bits [OF this transport_accepted [OF ok] n]
  have "reads (text_bits (di @ body)) (int ?n) (di @ body)" .
  moreover have "nat ((int ?n + 7) div 8) = ?n div 8" using whole_words(2) [OF n] .
  ultimately have "iso_Decode (text_bits (di @ body)) (int ?n) 0xA2 = Inr t"
    unfolding iso_Decode_iff using ok t by (metis length_text_bits order_refl take_all)
  from that [OF ok v n t this] show ?thesis .
qed

section \<open>Properties\<close>

text \<open>
  C33. An ISO identity read back: whatever identity and scheme \<open>Encode\<close> accepts, decoding the
  bits it wrote, at the length and under the application family identifier it set, gives
  back the very same translation, identity and encoding.
\<close>

theorem iso_encode_decode:
  "case New authority keyType cs of
     Inl _ \<Rightarrow> True
   | Inr v \<Rightarrow>
       (case iso_Encode v scheme of
          Inl _ \<Rightarrow> True
        | Inr t \<Rightarrow> t_Identity t = v \<and>
            iso_Decode (enc_bits (t_Encoding t)) (enc_BitLen (t_Encoding t)) (AFI (enc_Control (t_Encoding t))) = Inr t)"
proof (cases "New authority keyType cs")
  case (Inr v)
  show ?thesis
  proof (cases "iso_Encode v scheme")
    case (Inr t)
    note new = \<open>New authority keyType cs = Inr v\<close>
    have "t_Identity t = v \<and>
        iso_Decode (enc_bits (t_Encoding t)) (enc_BitLen (t_Encoding t)) (AFI (enc_Control (t_Encoding t))) = Inr t"
      by (rule iso_encoded_tag [OF new Inr]) (simp add: transport_translation_def NewEncoding_def)
    then show ?thesis by (simp only: new Inr sum.case)
  qed (simp add: Inr)
qed simp

text \<open>
  An ISO tag written again: whatever \<open>Decode\<close> accepts carries one of the two transport unit
  identifiers, and encoding the identity it found gives back the tag bit for bit (under the
  current identifier, hexadecimal A2) when the tag ends on a word of memory, and is refused as
  unresolved when it does not, since no padding is defined.
\<close>

theorem iso_decode_encode:
  "case iso_Decode bits bitLen afi of
     Inl _ \<Rightarrow> True
   | Inr t \<Rightarrow> (afi = 0xA2 \<or> afi = 0xA7) \<and>
       iso_Encode (t_Identity t) (enc_Scheme (t_Encoding t)) =
         (if bitLen mod 16 = 0
          then Inr (t\<lparr>t_Encoding := (t_Encoding t)\<lparr>enc_Control := (enc_Control (t_Encoding t))\<lparr>AFI := 0xA2\<rparr>\<rparr>\<rparr>)
          else Inl ErrUnresolvedSemantics)"
proof (cases "iso_Decode bits bitLen afi")
  case (Inr t)
  then obtain di body where afi: "afi = 0xA2 \<or> afi = 0xA7" and ok: "transport_ok di body"
    and rd: "reads bits bitLen (di @ body)"
    and t: "t = transport_translation afi di body (take (nat ((bitLen + 7) div 8)) bits) bitLen"
    unfolding iso_Decode_iff by blast
  let ?n = "length (di @ body) * 6"
  have n: "bitLen = int ?n" "?n \<le> 8 * length bits" using rd by (simp_all add: reads_def)
  have "text_bits (di @ body) = take (nat ((bitLen + 7) div 8)) bits" if "?n mod 16 = 0"
  proof -
    have "?n mod 8 = 0" "nat ((bitLen + 7) div 8) = ?n div 8"
      using whole_words [OF that] n(1) by (simp_all only:)
    with text_writes_again [OF this(1) n(2)] rd show ?thesis by (simp add: reads_def)
  qed
  moreover have "bitLen mod 16 = 0 \<longleftrightarrow> ?n mod 16 = 0" using n(1) by presburger
  ultimately have "iso_Encode (transport_value di body) SchemeTransportUnit = (if bitLen mod 16 = 0
      then Inr (transport_translation 0xA2 di body (take (nat ((bitLen + 7) div 8)) bits) bitLen)
      else Inl ErrUnresolvedSemantics)"
    unfolding iso_Encode_transport [OF ok] using n(1) by (metis (no_types))
  then show ?thesis using Inr afi by (simp add: t transport_translation_def NewEncoding_def)
qed simp

section \<open>Container codes\<close>

definition char_value :: "char \<Rightarrow> nat" where
  "char_value c = (case characterValue6346 c of Inl _ \<Rightarrow> 0 | Inr v \<Rightarrow> v)"

definition weighted :: "string \<Rightarrow> nat" where
  "weighted code = (\<Sum>i < length code. char_value (code ! i) * 2 ^ i)"

lemma CheckDigit6346_Inr:
  assumes "CheckDigit6346 code = Inr d"
  shows "d = [digit_char (weighted code mod 11 mod 10)]"
proof -
  let ?f = "\<lambda>c (sum, weight). bind_res (characterValue6346 c) (\<lambda>v. Inr (sum + v * weight, weight * 2))"
  have "fold_res ?f cs (s, w) = Inr (s', w') \<Longrightarrow> s' = s + w * weighted cs" for cs s w s' w'
  proof (induction cs arbitrary: s w)
    case (Cons c cs)
    then obtain v where v: "characterValue6346 c = Inr v" and r: "fold_res ?f cs (s + v * w, w * 2) = Inr (s', w')" by auto
    have "weighted (c # cs) = v + 2 * weighted cs"
      by (simp add: weighted_def lessThan_Suc_eq_insert_0 sum.insert_remove sum.reindex char_value_def v
          sum_distrib_left mult.left_commute)
    with Cons.IH [OF r] show ?case by (simp add: algebra_simps)
  qed (simp add: weighted_def)
  with assms show ?thesis by (auto simp: CheckDigit6346_def split: if_splits) fastforce
qed

lemma digit_char_inject: "a < 10 \<Longrightarrow> b < 10 \<Longrightarrow> digit_char a = digit_char b \<longleftrightarrow> a = b"
  by (simp add: digit_char_def)

lemma code_accepted:
  assumes "InterpretContainerCode code = Inr v"
  shows "length code = 11 \<and> list_all is_digit (take 6 (drop 4 code)) \<and>
     code ! 10 = digit_char (weighted (take 10 code) mod 11 mod 10)"
proof -
  have len: "length code = 11" and ser: "list_all is_digit (take 6 (drop 4 code))"
    and chk: "CheckDigit6346 (take 3 code @ take 1 (drop 3 code) @ take 6 (drop 4 code)) = Inr (drop 10 code)"
    using assms by (auto simp: InterpretContainerCode_def Let_def guard_Inr list_ex_iff list_all_iff is_digit_def not_less)
  have "take 3 code @ take 1 (drop 3 code) @ take 6 (drop 4 code) = take 10 code"
    using take_add [of 3 1 code] take_add [of 4 6 code] by simp
  with chk have "drop 10 code = [digit_char (weighted (take 10 code) mod 11 mod 10)]"
    using CheckDigit6346_Inr by metis
  moreover have "code ! 10 = drop 10 code ! 0" using len by simp
  ultimately show ?thesis using len ser by simp
qed

lemma eleven_distinguishes:
  fixes a x y :: nat
  assumes "(a + x * 2 ^ i) mod 11 = (a + y * 2 ^ i) mod 11" "x < 10" "y < 10"
  shows "x = y"
proof (rule ccontr)
  assume "x \<noteq> y"
  moreover have "\<not> (a + x * 2 ^ i) mod 11 = (a + y * 2 ^ i) mod 11" if "x < y" "y < 10" for x y
  proof
    assume "(a + x * 2 ^ i) mod 11 = (a + y * 2 ^ i) mod 11"
    then have "11 dvd (a + y * 2 ^ i) - (a + x * 2 ^ i)" using that by (subst mod_eq_dvd_iff_nat [symmetric]) auto
    then have "11 dvd (y - x) * 2 ^ i" by (simp add: diff_mult_distrib)
    moreover have "coprime (11 :: nat) (2 ^ i)"
    proof -
      have "coprime (2 :: nat) 11" by (simp only: coprime_left_2_iff_odd) simp
      then show ?thesis by (simp add: coprime_commute)
    qed
    ultimately have "11 dvd y - x" by (simp add: coprime_dvd_mult_left_iff)
    with that show False by (auto dest: dvd_imp_le)
  qed
  ultimately show False using assms by (metis linorder_neqE_nat)
qed

lemma check_digit_unique:
  fixes m n :: nat
  assumes "m mod 11 mod 10 = n mod 11 mod 10" "m mod 11 mod 10 \<noteq> 0"
  shows "m mod 11 = n mod 11"
proof -
  have "x mod 11 mod 10 = (if x mod 11 = 10 then 0 else x mod 11)" for x :: nat
  proof (cases "x mod 11 < 10")
    case False
    moreover have "x mod 11 < 11" by simp
    ultimately have "x mod 11 = 10" by linarith
    then show ?thesis by simp
  qed simp
  with assms show ?thesis by (auto split: if_splits)
qed

lemma char_value_digit: "is_digit c \<Longrightarrow> char_value c = digit_value c"
  by (simp add: char_value_def characterValue6346_def is_digit_iff digit_value_def less_eq_char_def)

lemma weighted_update:
  assumes "i < length s"
  shows "\<exists>a. weighted s = a + char_value (s ! i) * 2 ^ i \<and> (\<forall>c. weighted (s[i := c]) = a + char_value c * 2 ^ i)"
proof -
  let ?rest = "\<Sum>j \<in> {..<length s} - {i}. char_value (s ! j) * 2 ^ j"
  have "weighted (s[i := c]) = ?rest + char_value c * 2 ^ i" for c
  proof -
    have "weighted (s[i := c]) = char_value (s[i := c] ! i) * 2 ^ i +
        (\<Sum>j \<in> {..<length s} - {i}. char_value (s[i := c] ! j) * 2 ^ j)"
      unfolding weighted_def length_list_update by (rule sum.remove) (use assms in auto)
    also have "(\<Sum>j \<in> {..<length s} - {i}. char_value (s[i := c] ! j) * 2 ^ j) = ?rest"
      by (rule sum.cong) auto
    finally show ?thesis using assms by simp
  qed
  from this [of "s ! i"] this show ?thesis by (metis list_update_id)
qed

text \<open>
  A container code with one wrong digit is refused: changing one digit of the serial of an
  accepted code to any other character gives a code that is not accepted, unless the check
  digit is 0, which stands both for a remainder of 0 and for one of 10.
\<close>

theorem container_serial_error:
  assumes "is_ok (InterpretContainerCode code)" "4 \<le> i" "i < 10" "c \<noteq> code ! i" "code ! 10 \<noteq> CHR ''0''"
  shows "\<not> is_ok (InterpretContainerCode (code[i := c]))"
proof
  assume "is_ok (InterpretContainerCode (code[i := c]))"
  with assms(1) obtain v v' where "InterpretContainerCode code = Inr v" "InterpretContainerCode (code[i := c]) = Inr v'"
    by (auto simp: is_ok_iff)
  note A = code_accepted [OF this(1)] and B = code_accepted [OF this(2)]
  let ?s = "take 10 code"
  from A have len: "length code = 11" by simp
  have upd: "take 10 (code[i := c]) = ?s[i := c]" by (simp add: take_update_swap)
  have "take 6 (drop 4 code) ! (i - 4) = code ! i" "take 6 (drop 4 (code[i := c])) ! (i - 4) = c"
    using assms(2,3) len by simp_all
  then have dig: "is_digit (code ! i)" "is_digit c"
    using A B assms(2,3) len by (auto simp: list_all_length dest!: spec [of _ "i - 4"])
  obtain a where a: "weighted ?s = a + char_value (code ! i) * 2 ^ i" "weighted (?s[i := c]) = a + char_value c * 2 ^ i"
    using weighted_update [of i ?s] assms(3) len by auto
  have "code ! 10 = code[i := c] ! 10" using assms(3) by simp
  with A B upd have eq: "weighted ?s mod 11 mod 10 = weighted (?s[i := c]) mod 11 mod 10"
    by (simp add: digit_char_inject)
  have zero: "digit_char 0 = CHR ''0''" using digit_char_digit_value [of "CHR ''0''"] by (simp add: digit_value_def is_digit_def)
  have "weighted ?s mod 11 mod 10 \<noteq> 0"
  proof
    assume z: "weighted ?s mod 11 mod 10 = 0"
    have "code ! 10 = digit_char (weighted ?s mod 11 mod 10)" using A by blast
    also have "\<dots> = CHR ''0''" unfolding z by (rule zero)
    finally show False using assms(5) by blast
  qed
  with eq have "weighted ?s mod 11 = weighted (?s[i := c]) mod 11" by (rule check_digit_unique)
  from eleven_distinguishes [OF this [unfolded a]] dig have "char_value (code ! i) = char_value c"
    by (simp add: char_value_digit digit_value_less)
  with dig assms(4) show False by (metis char_value_digit digit_char_digit_value)
qed

lemma values6346_table:
  "values6346 = [10, 12, 13, 14, 15, 16, 17, 18, 19, 20, 21, 23, 24, 25, 26, 27, 28, 29, 30, 31, 32, 34, 35, 36, 37, 38]"
  by code_simp

theorem container_serial_error_witness:
  "\<not> is_ok (InterpretContainerCode (''CSQU3054383''[6 := CHR ''9'']))"
proof (rule container_serial_error)
  have "digit_char 3 = CHR ''3''" using digit_char_digit_value [of "CHR ''3''"] by (simp add: digit_value_def is_digit_def)
  then show "is_ok (InterpretContainerCode ''CSQU3054383'')"
    by (simp add: InterpretContainerCode_def CheckDigit6346_def characterValue6346_def values6346_table
        New_def componentOrder_def less_eq_char_def less_char_def is_ok_def Let_def)
qed simp_all

end
