(* ===== verification/Tdt.thy ===== *)
theory Tdt
  imports Gs1_Pattern Iso_Roundtrip
begin

text \<open>
  The translation boundary, \<^verbatim>\<open>src/internal/tdt/tdt.go\<close>: which decoder a tag goes to by its protocol
  control word, the word an encoding is written with, and the entry points that forward to
  the GS1 and ISO packages. Message texts of errors are not modelled.
\<close>

section \<open>The protocol control word\<close>

definition pcToggleMask :: u16 where "pcToggleMask = 0x0100"
definition pcXIMask :: u16 where "pcXIMask = 0x0200"
definition pcAFIMask :: u16 where "pcAFIMask = 0x00FF"
definition pcLengthMask :: u16 where "pcLengthMask = 0xF800"
definition pcLengthShift :: nat where "pcLengthShift = 11"

lemmas pc_masks = pcToggleMask_def pcXIMask_def pcAFIMask_def pcLengthMask_def pcLengthShift_def

datatype Format = FormatUnknown | FormatGS1 | FormatISO

record tdt_input =
  in_Bits :: bytes
  in_BitLen :: int
  in_PC :: u16
  in_HasPC :: bool
  in_AFI :: byte
  in_HasAFI :: bool

record translator = defaultFormat :: Format

type_synonym translator_option = "translator \<Rightarrow> translator"

definition WithDefaultFormat :: "Format \<Rightarrow> translator_option" where
  "WithDefaultFormat f t = t\<lparr>defaultFormat := f\<rparr>"

definition NewTranslator :: "translator_option list \<Rightarrow> translator" where
  "NewTranslator opts = foldl (\<lambda>t opt. opt t) \<lparr>defaultFormat = FormatUnknown\<rparr> opts"

text \<open>The extent of the tag: the first half of \<open>Translate\<close>.\<close>

definition input_extent :: "tdt_input \<Rightarrow> tdt_error + int" where
  "input_extent inp =
     bind_res
       (if in_HasPC inp then
          (if in_PC inp AND pcXIMask \<noteq> 0 then Inl ErrXPCPresent
           else let declared = uint (drop_bit pcLengthShift (in_PC inp AND pcLengthMask)) * 16 in
             if declared = 0 then Inl ErrTruncated
             else if in_BitLen inp = 0 then Inr declared
             else if in_BitLen inp \<noteq> declared then Inl ErrTdtLengthMismatch
             else Inr (in_BitLen inp))
        else Inr (in_BitLen inp)) (\<lambda>bitLen.
     let bitLen = (if bitLen = 0 then int (length (in_Bits inp)) * 8 else bitLen) in
     if bitLen \<le> 0 \<or> int (length (in_Bits inp)) * 8 < bitLen then Inl ErrTruncated else Inr bitLen)"

text \<open>The format and the application family identifier: the second half of \<open>Translate\<close>.\<close>

definition input_format :: "translator \<Rightarrow> tdt_input \<Rightarrow> Format \<times> byte \<times> bool" where
  "input_format t inp =
     (if in_HasPC inp then
        (if in_PC inp AND pcToggleMask \<noteq> 0 then
           (if \<not> in_HasAFI inp then (FormatISO, ucast (in_PC inp AND pcAFIMask), True)
            else (FormatISO, in_AFI inp, in_HasAFI inp))
         else (FormatGS1, in_AFI inp, in_HasAFI inp))
      else (defaultFormat t, in_AFI inp, in_HasAFI inp))"

definition Translate :: "translator \<Rightarrow> tdt_input \<Rightarrow> tdt_error + translation" where
  "Translate t inp =
     bind_res (input_extent inp) (\<lambda>bitLen.
     let (format, afi, hasAFI) = input_format t inp in
     case format of
       FormatGS1 \<Rightarrow> gs1_Decode (in_Bits inp) bitLen
     | FormatISO \<Rightarrow> if \<not> hasAFI then Inl ErrUnrecognisedNonGS1 else iso_Decode (in_Bits inp) bitLen afi
     | FormatUnknown \<Rightarrow> Inl ErrAmbiguousEncoding)"

definition tdt_ProtocolControl :: "encoding \<Rightarrow> u16" where
  "tdt_ProtocolControl e =
     (let words = (enc_BitLen e + 15) div 16;
          pc = push_bit pcLengthShift (of_int words)
      in if Toggle (enc_Control e) then
           (let pc = pc OR pcToggleMask in
            if HasAFI (enc_Control e) then pc OR ucast (AFI (enc_Control e)) else pc)
         else pc)"

section \<open>Entry points\<close>

text \<open>
  \<^verbatim>\<open>strings.TrimSpace\<close> over the UTF-8 form: the encodings of the code points with the Unicode
  property White_Space. Lead bytes and continuation bytes of UTF-8 are disjoint, so comparing
  whole encodings at either end is what decoding there does.
\<close>

definition spaces :: "string list" where
  "spaces = map (map byte_char)
     [[0x09], [0x0A], [0x0B], [0x0C], [0x0D], [0x20], [0xC2, 0x85], [0xC2, 0xA0], [0xE1, 0x9A, 0x80],
      [0xE2, 0x80, 0x80], [0xE2, 0x80, 0x81], [0xE2, 0x80, 0x82], [0xE2, 0x80, 0x83], [0xE2, 0x80, 0x84],
      [0xE2, 0x80, 0x85], [0xE2, 0x80, 0x86], [0xE2, 0x80, 0x87], [0xE2, 0x80, 0x88], [0xE2, 0x80, 0x89],
      [0xE2, 0x80, 0x8A], [0xE2, 0x80, 0xA8], [0xE2, 0x80, 0xA9], [0xE2, 0x80, 0xAF], [0xE2, 0x81, 0x9F],
      [0xE3, 0x80, 0x80]]"

lemma spaces_nonempty: "w \<in> set spaces \<Longrightarrow> w \<noteq> []"
  by (auto simp: spaces_def)

function trim_left :: "string \<Rightarrow> string" where
  "trim_left s = (case find (\<lambda>w. HasPrefix s w) spaces of None \<Rightarrow> s | Some w \<Rightarrow> trim_left (drop (length w) s))"
  by auto
termination
proof (relation "measure length")
  fix s w assume "find (\<lambda>w. HasPrefix s w) spaces = Some w"
  from find_SomeD [OF this] have "w \<noteq> []" "HasPrefix s w" using spaces_nonempty by blast+
  then show "(drop (length w) s, s) \<in> measure length" by (auto simp: HasPrefix_iff)
qed simp

function trim_right :: "string \<Rightarrow> string" where
  "trim_right s = (case find (\<lambda>w. HasSuffix s w) spaces of None \<Rightarrow> s
     | Some w \<Rightarrow> trim_right (take (length s - length w) s))"
  by auto
termination
proof (relation "measure length")
  fix s w assume "find (\<lambda>w. HasSuffix s w) spaces = Some w"
  from find_SomeD [OF this] have "w \<noteq> []" "HasSuffix s w" using spaces_nonempty by blast+
  then show "(take (length s - length w) s, s) \<in> measure length" by (cases s) (auto simp: HasSuffix_def)
qed simp

declare trim_left.simps [simp del] trim_right.simps [simp del]

definition TrimSpace :: "string \<Rightarrow> string" where
  "TrimSpace s = trim_right (trim_left s)"

definition CompilePattern :: "string \<Rightarrow> tdt_error + pattern" where
  "CompilePattern s = gs1_CompilePattern (TrimSpace s)"

definition EncodeGS1 :: "ivalue \<Rightarrow> SchemeID \<Rightarrow> byte \<Rightarrow> tdt_error + translation" where
  "EncodeGS1 v scheme fv = gs1_Encode v \<lparr>ep_Scheme = scheme, ep_FilterValue = fv\<rparr>"

definition EncodeISO :: "ivalue \<Rightarrow> SchemeID \<Rightarrow> tdt_error + translation" where
  "EncodeISO v scheme = iso_Encode v scheme"

definition GS1FieldSpecs :: "SchemeID \<Rightarrow> nat \<Rightarrow> tdt_error + field_spec list" where
  "GS1FieldSpecs scheme gcpLength = bind_res (Lookup scheme) (\<lambda>s. FieldSpecs s gcpLength)"

definition KeyTypeOf :: "SchemeID \<Rightarrow> tdt_error + KeyType" where
  "KeyTypeOf scheme = bind_res (Lookup scheme) (\<lambda>s. Inr (sch_keyType s))"

definition SupportedSchemes :: "SchemeID list" where
  "SupportedSchemes = map sch_id schemes @ [SchemeTransportUnit, Scheme17363]"

section \<open>Facts: the control word\<close>

text \<open>The part of a stored word that an encoding determines: the length, the toggle, and the AFI under it.\<close>

definition stored_part :: "tdt_input \<Rightarrow> u16" where
  "stored_part inp = (in_PC inp AND 0xF900) OR
     (if in_PC inp AND pcToggleMask = 0 then 0
      else if in_HasAFI inp then ucast (in_AFI inp) else in_PC inp AND 0x00FF)"

lemma bit_pc_length: "bit (pcLengthMask :: u16) n \<longleftrightarrow> 11 \<le> n \<and> n < 16"
proof -
  have eq: "pcLengthMask = push_bit 11 (mask 5 :: u16)" by (simp add: pcLengthMask_def mask_eq_decr_exp)
  show ?thesis unfolding eq by (simp only: bit_push_bit_iff bit_mask_iff) auto
qed

lemma length_words:
  "push_bit pcLengthShift (of_int ((uint (drop_bit pcLengthShift (w AND pcLengthMask)) * 16 + 15) div 16)) =
     w AND (pcLengthMask :: u16)"
proof -
  let ?l = "drop_bit pcLengthShift (w AND pcLengthMask)"
  have "(uint ?l * 16 + 15) div 16 = uint ?l" by simp
  then have "of_int ((uint ?l * 16 + 15) div 16) = ?l" by simp
  then have "push_bit pcLengthShift (of_int ((uint ?l * 16 + 15) div 16)) = push_bit pcLengthShift ?l" by (simp only:)
  also have "\<dots> = w AND pcLengthMask"
    by (rule bit_word_eqI) (auto simp: pcLengthShift_def bit_simps bit_pc_length)
  finally show ?thesis .
qed

lemma gs1_encoding:
  assumes "gs1_Decode bits n = Inr t"
  shows "enc_BitLen (t_Encoding t) = 96 \<and> \<not> Toggle (enc_Control (t_Encoding t)) \<and> 96 \<le> n"
proof -
  obtain s opt vs where "96 \<le> n" "t = gs1_translation s opt vs" using assms unfolding gs1_Decode_iff by blast
  then show ?thesis by (simp add: gs1_translation_def NewEncoding_def no_control_def)
qed

lemma iso_encoding:
  assumes "iso_Decode bits n afi = Inr t"
  shows "enc_BitLen (t_Encoding t) = n \<and> Toggle (enc_Control (t_Encoding t)) \<and> HasAFI (enc_Control (t_Encoding t)) \<and>
     AFI (enc_Control (t_Encoding t)) = afi \<and> 0 < n \<and> n \<le> 300"
proof -
  obtain di body where ok: "transport_ok di body" "reads bits n (di @ body)"
    and t: "t = transport_translation afi di body (take (nat ((n + 7) div 8)) bits) n"
    using assms unfolding iso_Decode_iff by blast
  have "n = int (length (di @ body) * 6)" "di @ body \<noteq> []" using ok(2) by (simp_all add: reads_def)
  moreover have "length (di @ body) \<le> 50" using ok(1) by (simp add: transport_ok_def identityLimit_def)
  ultimately have "0 < n \<and> n \<le> 300" by (cases "di @ body") auto
  then show ?thesis by (simp add: t transport_translation_def NewEncoding_def)
qed

text \<open>A word written for up to 31 words of memory reads back as it was written.\<close>

lemma bit_pc_toggle: "bit pcToggleMask n \<longleftrightarrow> n = 8" and bit_pc_XI: "bit pcXIMask n \<longleftrightarrow> n = 9"
  and bit_pc_AFI: "bit pcAFIMask n \<longleftrightarrow> n < 8"
proof -
  have eq: "pcToggleMask = push_bit 8 1" "pcXIMask = push_bit 9 1" "pcAFIMask = mask 8"
    by (simp_all add: pc_masks mask_eq_decr_exp)
  show "bit pcToggleMask n \<longleftrightarrow> n = 8" "bit pcXIMask n \<longleftrightarrow> n = 9" "bit pcAFIMask n \<longleftrightarrow> n < 8"
    unfolding eq by (simp only: bit_push_bit_iff bit_mask_iff bit_1_iff; auto)+
qed

lemmas pc_bits = bit_pc_toggle bit_pc_XI bit_pc_AFI bit_pc_length

lemma stored_word:
  fixes k :: nat and afi :: byte
  assumes "k < 32"
  defines "l \<equiv> push_bit pcLengthShift (of_nat k) :: u16"
  shows "l AND pcXIMask = 0" "l AND pcToggleMask = 0" "uint (drop_bit pcLengthShift (l AND pcLengthMask)) = int k"
    "(l OR pcToggleMask OR ucast afi) AND pcXIMask = 0" "(l OR pcToggleMask OR ucast afi) AND pcToggleMask \<noteq> 0"
    "(l OR pcToggleMask OR ucast afi) AND pcLengthMask = l AND pcLengthMask"
    "ucast ((l OR pcToggleMask OR ucast afi) AND pcAFIMask) = afi"
proof -
  have k: "n < 5" if "bit k n" for n
  proof (rule ccontr)
    assume "\<not> n < 5"
    then have "(2 :: nat) ^ 5 \<le> 2 ^ n" by (intro power_increasing) simp_all
    with that assms(1) show False by (simp add: bit_iff_odd)
  qed
  show "l AND pcXIMask = 0" "l AND pcToggleMask = 0" "(l OR pcToggleMask OR ucast afi) AND pcXIMask = 0"
      "(l OR pcToggleMask OR ucast afi) AND pcLengthMask = l AND pcLengthMask"
      "ucast ((l OR pcToggleMask OR ucast afi) AND pcAFIMask) = afi"
    by (rule bit_word_eqI; auto simp: l_def bit_simps pc_bits pcLengthShift_def)+
  have "bit ((l OR pcToggleMask OR ucast afi) AND pcToggleMask) 8" by (simp add: bit_simps pc_bits)
  then show "(l OR pcToggleMask OR ucast afi) AND pcToggleMask \<noteq> 0" by auto
  have "drop_bit pcLengthShift (l AND pcLengthMask) = of_nat k"
    by (rule bit_word_eqI) (auto simp: l_def bit_simps pc_bits pcLengthShift_def dest: k)
  then show "uint (drop_bit pcLengthShift (l AND pcLengthMask)) = int k"
    using assms(1) by (simp add: uint_nat unat_of_nat_small)
qed

section \<open>Properties\<close>

text \<open>A tag as a reader presents it: the memory that was written, its stored word, and the length it reports.\<close>

definition stored_input :: "encoding \<Rightarrow> int \<Rightarrow> tdt_input" where
  "stored_input e n = \<lparr>in_Bits = enc_bits e, in_BitLen = n, in_PC = tdt_ProtocolControl e, in_HasPC = True,
     in_AFI = 0, in_HasAFI = False\<rparr>"

lemma stored_length:
  assumes "n = 0 \<or> n = int (k * 16)" "0 < k" "k < 32" "k * 16 \<le> 8 * length bits"
    "in_HasPC inp" "in_Bits inp = bits" "in_BitLen inp = n"
    "in_PC inp AND pcXIMask = 0" "in_PC inp AND pcLengthMask = push_bit pcLengthShift (of_nat k) AND pcLengthMask"
  shows "input_extent inp = Inr (int (k * 16))"
  using assms stored_word(3) [OF assms(3)] by (auto simp: input_extent_def Let_def)

lemma gs1_stored_word:
  "tdt_ProtocolControl (t_Encoding (gs1_translation s opt vs)) = push_bit pcLengthShift (of_nat 6)"
  by (simp add: tdt_ProtocolControl_def gs1_translation_def NewEncoding_def no_control_def Let_def)

lemma iso_stored_word:
  assumes "n = int (k * 16)"
  shows "tdt_ProtocolControl (t_Encoding (transport_translation afi di body bits n)) =
     push_bit pcLengthShift (of_nat k) OR pcToggleMask OR ucast afi"
proof -
  have "(n + 15) div 16 = int k" using assms by simp
  then show ?thesis
    by (simp add: tdt_ProtocolControl_def transport_translation_def NewEncoding_def no_control_def Let_def or.assoc)
qed

text \<open>
  C30. What is written is what is translated: a tag that carries a GS1 encoding with the
  protocol control word computed for it translates to exactly that encoding and identity,
  whatever default the translator has and whether or not the reader reports a length.
\<close>

theorem gs1_tag_translates:
  "case EncodeGS1 v scheme fv of
     Inl _ \<Rightarrow> True
   | Inr t \<Rightarrow> Translate tr (stored_input (t_Encoding t) 0) = Inr t \<and>
       Translate tr (stored_input (t_Encoding t) (enc_BitLen (t_Encoding t))) = Inr t"
proof (cases "EncodeGS1 v scheme fv")
  case (Inr t)
  then obtain s opt vs where t: "t = gs1_translation s opt vs" and dec: "gs1_Decode (gs1_bits opt vs) 96 = Inr t"
    using encoded_tag unfolding EncodeGS1_def by blast
  have e: "enc_BitLen (t_Encoding t) = 96" "enc_bits (t_Encoding t) = gs1_bits opt vs"
    by (simp_all add: t gs1_translation_def NewEncoding_def)
  have "Translate tr (stored_input (t_Encoding t) n) = Inr t" if "n = 0 \<or> n = int (6 * 16)" for n
  proof -
    let ?inp = "stored_input (t_Encoding t) n"
    have pc: "in_PC ?inp = push_bit pcLengthShift (of_nat 6)" "in_Bits ?inp = gs1_bits opt vs"
      "in_HasPC ?inp" "in_BitLen ?inp = n"
      unfolding t stored_input_def by (simp_all only: gs1_stored_word tdt_input.simps) (simp_all add: gs1_translation_def NewEncoding_def)
    have "in_PC ?inp AND pcXIMask = 0" unfolding pc(1) by (rule stored_word) simp
    moreover have "in_PC ?inp AND pcLengthMask = push_bit pcLengthShift (of_nat 6) AND pcLengthMask" unfolding pc(1) ..
    ultimately have "input_extent ?inp = Inr (int (6 * 16))"
      by (intro stored_length [OF that _ _ _ pc(3,2,4)]) simp_all
    moreover have "input_format tr ?inp = (FormatGS1, in_AFI ?inp, in_HasAFI ?inp)"
      using stored_word(2) [of 6] pc(3) by (simp add: input_format_def pc(1))
    ultimately show ?thesis using dec by (simp add: Translate_def pc)
  qed
  then show ?thesis by (simp add: Inr e(1))
qed simp

text \<open>
  C31. The same for ISO: an encoding of any identity that the constructor accepts, with the
  word computed for it, translates to exactly itself.
\<close>

theorem iso_tag_translates:
  "case New authority keyType cs of
     Inl _ \<Rightarrow> True
   | Inr v \<Rightarrow>
       (case EncodeISO v scheme of
          Inl _ \<Rightarrow> True
        | Inr t \<Rightarrow> Translate tr (stored_input (t_Encoding t) 0) = Inr t \<and>
            Translate tr (stored_input (t_Encoding t) (enc_BitLen (t_Encoding t))) = Inr t)"
proof (cases "New authority keyType cs")
  case (Inr v)
  note new = this
  show ?thesis
  proof (cases "EncodeISO v scheme")
    case (Inr t)
    then have "iso_Encode v scheme = Inr t" by (simp add: EncodeISO_def)
    then obtain di body where n: "length (di @ body) * 6 mod 16 = 0" and ok: "transport_ok di body"
      and t: "t = transport_translation 0xA2 di body (text_bits (di @ body)) (int (length (di @ body) * 6))"
      and dec: "iso_Decode (text_bits (di @ body)) (int (length (di @ body) * 6)) 0xA2 = Inr t"
      by (rule iso_encoded_tag [OF new])
    obtain k where k: "length (di @ body) * 6 = k * 16" using n by (auto simp: mod_eq_0_iff_dvd dvd_def mult.commute)
    have bounds: "0 < k" "k < 32" using iso_encoding [OF dec] k by auto
    have e: "enc_BitLen (t_Encoding t) = int (k * 16)" "enc_bits (t_Encoding t) = text_bits (di @ body)"
      by (simp_all only: t k) (simp_all add: transport_translation_def NewEncoding_def)
    have "Translate tr (stored_input (t_Encoding t) n) = Inr t" if "n = 0 \<or> n = int (k * 16)" for n
    proof -
      let ?inp = "stored_input (t_Encoding t) n"
      let ?l = "push_bit pcLengthShift (of_nat k) :: u16"
      have word: "tdt_ProtocolControl (t_Encoding t) = ?l OR pcToggleMask OR ucast (0xA2 :: byte)"
        unfolding t k by (rule iso_stored_word) simp
      have pc: "in_PC ?inp = ?l OR pcToggleMask OR ucast (0xA2 :: byte)" "in_Bits ?inp = text_bits (di @ body)"
        "in_HasPC ?inp" "in_BitLen ?inp = n" "\<not> in_HasAFI ?inp"
        unfolding stored_input_def by (simp_all only: word e tdt_input.simps) simp_all
      have "in_PC ?inp AND pcXIMask = 0" "in_PC ?inp AND pcLengthMask = ?l AND pcLengthMask"
        unfolding pc(1) by (rule stored_word [OF bounds(2)])+
      moreover have "k * 16 \<le> 8 * length (text_bits (di @ body))" unfolding length_text_bits k by simp
      ultimately have "input_extent ?inp = Inr (int (k * 16))"
        using bounds by (intro stored_length [OF that _ _ _ pc(3,2,4)])
      moreover have "input_format tr ?inp = (FormatISO, 0xA2, True)"
        unfolding input_format_def using stored_word(5,7) [OF bounds(2), of "0xA2"] by (simp only: pc if_True if_not_P) simp
      ultimately show ?thesis using dec unfolding k by (simp add: Translate_def pc(2))
    qed
    then show ?thesis by (simp only: new Inr sum.case e(1)) blast
  qed (simp add: Inr)
qed simp

lemma input_extent_word:
  assumes "input_extent inp = Inr n" "in_HasPC inp"
  shows "in_PC inp AND pcXIMask = 0 \<and> n = uint (drop_bit pcLengthShift (in_PC inp AND pcLengthMask)) * 16 \<and> in_BitLen inp \<in> {0, n}"
  using assms by (auto simp: input_extent_def Let_def split: if_splits)

lemma input_extent_length:
  assumes "input_extent inp = Inr n"
  shows "n = (if in_HasPC inp then uint (drop_bit pcLengthShift (in_PC inp AND pcLengthMask)) * 16
      else if in_BitLen inp = 0 then int (length (in_Bits inp)) * 8 else in_BitLen inp)"
  using assms by (auto simp: input_extent_def Let_def split: if_splits)

text \<open>The word of an ISO encoding of the declared length, put together again.\<close>

lemma stored_part_word:
  assumes "in_PC inp AND pcToggleMask \<noteq> 0"
  shows "(in_PC inp AND pcLengthMask) OR pcToggleMask OR
    ucast (if in_HasAFI inp then in_AFI inp else ucast (in_PC inp AND pcAFIMask)) = stored_part inp"
proof -
  have "(in_PC inp AND pcLengthMask) OR pcToggleMask = in_PC inp AND 0xF900"
  proof (rule bit_word_eqI)
    fix i :: nat
    assume "i < LENGTH(16)"
    have "(0xF900 :: u16) = pcLengthMask OR pcToggleMask" by (simp add: pc_masks)
    moreover have "bit (in_PC inp) 8"
    proof (rule ccontr)
      assume "\<not> bit (in_PC inp) 8"
      then have "in_PC inp AND pcToggleMask = 0" by (intro bit_word_eqI) (auto simp: bit_simps pc_bits)
      with assms show False by simp
    qed
    ultimately show "bit ((in_PC inp AND pcLengthMask) OR pcToggleMask) i = bit (in_PC inp AND 0xF900) i"
      by (auto simp only: bit_and_iff bit_or_iff pc_bits)
  qed
  moreover have "ucast (ucast (in_PC inp AND pcAFIMask) :: byte) = in_PC inp AND (0x00FF :: u16)"
  proof -
    have "ucast (ucast (in_PC inp AND pcAFIMask) :: byte) = in_PC inp AND pcAFIMask"
      by (rule bit_word_eqI) (auto simp: bit_simps pc_bits)
    then show ?thesis by (simp add: pcAFIMask_def)
  qed
  ultimately show ?thesis using assms by (simp add: stored_part_def flip: or.assoc)
qed

lemma input_extent_memory: "input_extent inp = Inr n \<Longrightarrow> 0 < n \<and> n \<le> int (length (in_Bits inp)) * 8"
  unfolding input_extent_def bind_res_eq_Inr Let_def guard_Inr
  by (elim exE conjE) (simp only: sum.inject de_Morgan_disj not_le not_less; blast)

text \<open>
  C32. What a translated tag says of its control word and its memory: a tag translates only when its word
  has no extended words to account for and declares a length that is not zero, that the memory
  given covers, and that the length the reader reports, if it reports one, equals; its kind, GS1 or
  ISO, is the one the toggle names, and its bits are decoded over the declared length. An ISO
  encoding is exactly as long as declared, and the word computed back from it is the stored one, less
  the two bits a tag computes for itself; a GS1 encoding is the 96 bits of its scheme, which must lie
  within the declared length, and so its word is that of 96 bits. Without a word, the length is the
  reported one or all of the memory, and only the configured default decides.
\<close>

theorem Translate_sound:
  "case Translate tr inp of
     Inl _ \<Rightarrow> True
   | Inr t \<Rightarrow>
       (let memory = int (length (in_Bits inp)) * 8; e = t_Encoding t;
            n = (if in_HasPC inp then uint (drop_bit pcLengthShift (in_PC inp AND pcLengthMask)) * 16
                 else if in_BitLen inp = 0 then memory else in_BitLen inp)
        in 0 < n \<and> n \<le> memory \<and> 0 < enc_BitLen e \<and> enc_BitLen e \<le> n \<and>
          (if Toggle (enc_Control e)
           then enc_BitLen e = n \<and> iso_Decode (in_Bits inp) n (AFI (enc_Control e)) = Inr t
           else enc_BitLen e = 96 \<and> gs1_Decode (in_Bits inp) n = Inr t) \<and>
          (if in_HasPC inp
           then in_PC inp AND pcXIMask = 0 \<and> in_BitLen inp \<in> {0, n} \<and>
             (if in_PC inp AND pcToggleMask = 0
              then \<not> Toggle (enc_Control e) \<and> tdt_ProtocolControl e = 0x3000
              else Toggle (enc_Control e) \<and> tdt_ProtocolControl e = stored_part inp)
           else if defaultFormat tr = FormatISO then Toggle (enc_Control e)
           else defaultFormat tr = FormatGS1 \<and> \<not> Toggle (enc_Control e)))"
proof (cases "Translate tr inp")
  case (Inr t)
  obtain n fmt afi hasAFI where n: "input_extent inp = Inr n" and f: "input_format tr inp = (fmt, afi, hasAFI)"
    and d: "fmt = FormatGS1 \<and> gs1_Decode (in_Bits inp) n = Inr t \<or>
      fmt = FormatISO \<and> hasAFI \<and> iso_Decode (in_Bits inp) n afi = Inr t"
  proof -
    obtain fmt afi hasAFI where f: "input_format tr inp = (fmt, afi, hasAFI)" by (cases "input_format tr inp")
    show ?thesis by (cases fmt) (use Inr f that in \<open>auto simp: Translate_def guard_Inr\<close>)
  qed
  let ?e = "t_Encoding t"
  note mem = input_extent_memory [OF n]
  have gs1: "enc_BitLen ?e = 96 \<and> \<not> Toggle (enc_Control ?e) \<and> 96 \<le> n \<and> tdt_ProtocolControl ?e = 0x3000 \<and>
      gs1_Decode (in_Bits inp) n = Inr t" if "fmt = FormatGS1"
  proof -
    have dec: "gs1_Decode (in_Bits inp) n = Inr t" using d that by simp
    from gs1_encoding [OF this] show ?thesis by (simp add: dec tdt_ProtocolControl_def pcLengthShift_def)
  qed
  have iso: "enc_BitLen ?e = n \<and> Toggle (enc_Control ?e) \<and> AFI (enc_Control ?e) = afi \<and>
      tdt_ProtocolControl ?e = push_bit pcLengthShift (of_int ((n + 15) div 16)) OR pcToggleMask OR ucast afi \<and>
      iso_Decode (in_Bits inp) n (AFI (enc_Control ?e)) = Inr t"
    if "fmt = FormatISO"
  proof -
    have dec: "iso_Decode (in_Bits inp) n afi = Inr t" using d that by simp
    from iso_encoding [OF this] show ?thesis by (simp add: dec tdt_ProtocolControl_def Let_def or.assoc)
  qed
  have stored: "tdt_ProtocolControl ?e = stored_part inp"
    if pc: "in_HasPC inp" "in_PC inp AND pcToggleMask \<noteq> 0"
  proof -
    have "fmt = FormatISO" and a: "afi = (if in_HasAFI inp then in_AFI inp else ucast (in_PC inp AND pcAFIMask))"
      using f pc by (auto simp: input_format_def split: if_splits)
    from input_extent_word [OF n pc(1)]
    have nn: "n = uint (drop_bit pcLengthShift (in_PC inp AND pcLengthMask)) * 16" by simp
    have "push_bit pcLengthShift (of_int ((n + 15) div 16)) = in_PC inp AND pcLengthMask"
      unfolding nn by (rule length_words)
    with iso [OF \<open>fmt = FormatISO\<close>]
    have "tdt_ProtocolControl ?e = (in_PC inp AND pcLengthMask) OR pcToggleMask OR ucast afi" by (simp only:)
    then show ?thesis unfolding a by (rule trans) (rule stored_part_word [OF pc(2)])
  qed
  have fmt: "fmt = (if in_HasPC inp then if in_PC inp AND pcToggleMask = 0 then FormatGS1 else FormatISO
      else defaultFormat tr)" using f by (auto simp: input_format_def split: if_splits)
  have extent: "(if in_HasPC inp then uint (drop_bit pcLengthShift (in_PC inp AND pcLengthMask)) * 16
      else if in_BitLen inp = 0 then int (length (in_Bits inp)) * 8 else in_BitLen inp) = n"
    by (rule input_extent_length [OF n, symmetric])
  have word: "in_HasPC inp \<Longrightarrow> in_PC inp AND pcXIMask = 0 \<and> in_BitLen inp \<in> {0, n}"
    using input_extent_word [OF n] by blast
  show ?thesis
    unfolding Inr sum.case Let_def extent
    using gs1 iso stored mem d fmt word by (auto split: if_splits)
qed simp

end
