(* ===== verification/Subscriptions.thy ===== *)
theory Subscriptions
  imports Filter_Index Tdt "HOL-Library.List_Lexorder"
begin

text \<open>
  The live subscription table, \<^verbatim>\<open>src/internal/app/tagstrak/subscriptions.go\<close>: one snapshot of
  matcher, routes, specification and revision, how a specification is compiled into one, and
  the operations that publish another. A replacement holds the table's lock from beginning to
  end, so it is one step; a reader takes one snapshot. The matcher is the value the compiler
  returned, nothing where the interface is nil. The caller's \<open>commit\<close> may change the world it
  writes to, which is threaded through.
\<close>

section \<open>Specifications\<close>

record config_subscription =
  cs_ID :: string
  cs_Patterns :: "string list"
  cs_Destinations :: "string list"

type_synonym sub_spec = "config_subscription list"
type_synonym routes = "ID \<Rightarrow> string list option"

datatype refusal =
    Exceeds nat nat
  | Required
  | BadPattern tdt_error
  | UnknownDestination string
  | BadSubscriptions filter_error

datatype 'e table_error =
    FieldRefused (fr_Field: string) (fr_Err: refusal)
  | ErrRevisionMismatch u64 u64
  | Vetoed 'e

record snapshot =
  sn_matcher :: "matcher_value option"
  sn_routes :: routes
  sn_spec :: sub_spec
  sn_revision :: u64

record subscription_table =
  tb_destinations :: "string list"
  tb_newMatcher :: compiler
  tb_current :: snapshot

definition NewSubscriptionTableWith :: "string list \<Rightarrow> compiler \<Rightarrow> subscription_table" where
  "NewSubscriptionTableWith destinations compile =
     \<lparr>tb_destinations = remdups destinations, tb_newMatcher = compile,
      tb_current = \<lparr>sn_matcher = (case compile [] of Inr m \<Rightarrow> Some m | Inl _ \<Rightarrow> None),
        sn_routes = Map.empty, sn_spec = [], sn_revision = 0\<rparr>\<rparr>"

definition NewSubscriptionTable :: "string list \<Rightarrow> subscription_table" where
  "NewSubscriptionTable destinations = NewSubscriptionTableWith destinations Compile"

definition table_Destinations :: "subscription_table \<Rightarrow> string list" where
  "table_Destinations t = sort (tb_destinations t)"

definition table_Snapshot :: "subscription_table \<Rightarrow> sub_spec \<times> u64" where
  "table_Snapshot t = (sn_spec (tb_current t), sn_revision (tb_current t))"

definition Revision :: "subscription_table \<Rightarrow> u64" where
  "Revision t = sn_revision (tb_current t)"

section \<open>Compiling a specification\<close>

definition subscription_field :: "nat \<Rightarrow> string \<Rightarrow> string" where
  "subscription_field i field = ''subscriptions['' @ itoa i @ '']'' @ field"

definition element_field :: "nat \<Rightarrow> string \<Rightarrow> nat \<Rightarrow> string" where
  "element_field i field j = subscription_field i (field @ ''['' @ itoa j @ '']'')"

definition compile_pattern :: "nat \<Rightarrow> nat \<times> string \<Rightarrow> 'e table_error + pattern" where
  "compile_pattern i = (\<lambda>(j, s).
     case CompilePattern s of
       Inl e \<Rightarrow> Inl (FieldRefused (element_field i ''.patterns'' j) (BadPattern e))
     | Inr p \<Rightarrow> Inr p)"

definition check_destination :: "string list \<Rightarrow> nat \<Rightarrow> nat \<times> string \<Rightarrow> 'e table_error + string" where
  "check_destination known i = (\<lambda>(j, name).
     if name \<notin> set known then Inl (FieldRefused (element_field i ''.destinations'' j) (UnknownDestination name))
     else Inr name)"

definition compile_subscription ::
  "string list \<Rightarrow> nat \<times> config_subscription \<Rightarrow> subscription list \<times> routes \<Rightarrow>
     'e table_error + subscription list \<times> routes" where
  "compile_subscription known = (\<lambda>(i, s) (subs, routes).
     if cs_ID s = [] then Inl (FieldRefused (subscription_field i ''.id'') Required)
     else if cs_Patterns s = [] then Inl (FieldRefused (subscription_field i ''.patterns'') Required)
     else if length (cs_Patterns s) > MaxPatternsPerSubscription
     then Inl (FieldRefused (subscription_field i ''.patterns'')
       (Exceeds (length (cs_Patterns s)) MaxPatternsPerSubscription))
     else
       bind_res (map_res (compile_pattern i) (enumerate 0 (cs_Patterns s))) (\<lambda>patterns.
       bind_res (map_res (check_destination known i) (enumerate 0 (cs_Destinations s))) (\<lambda>_.
       Inr (subs @ [\<lparr>sub_ID = cs_ID s, sub_Patterns = patterns\<rparr>],
            if length (cs_Destinations s) > 0 then routes(cs_ID s \<mapsto> cs_Destinations s) else routes))))"

definition compile_table :: "subscription_table \<Rightarrow> sub_spec \<Rightarrow> u64 \<Rightarrow> 'e table_error + snapshot" where
  "compile_table t spec revision =
     (if length spec > MaxSubscriptions
      then Inl (FieldRefused ''subscriptions'' (Exceeds (length spec) MaxSubscriptions))
      else
        bind_res (fold_res (compile_subscription (tb_destinations t)) (enumerate 0 spec) ([], Map.empty))
          (\<lambda>(subscriptions, routes).
        case tb_newMatcher t subscriptions of
          Inl e \<Rightarrow> Inl (FieldRefused ''subscriptions'' (BadSubscriptions e))
        | Inr m \<Rightarrow> Inr \<lparr>sn_matcher = Some m, sn_routes = routes, sn_spec = spec, sn_revision = revision\<rparr>))"

section \<open>Publishing a snapshot\<close>

definition table_Load ::
  "sub_spec \<Rightarrow> u64 \<Rightarrow> subscription_table \<Rightarrow> 'e table_error option \<times> subscription_table" where
  "table_Load spec revision t =
     (case compile_table t spec revision of
        Inl e \<Rightarrow> (Some e, t)
      | Inr next' \<Rightarrow> (None, t\<lparr>tb_current := next'\<rparr>))"

type_synonym ('e, 'w) commit = "u64 \<Rightarrow> sub_spec \<Rightarrow> 'w \<Rightarrow> 'e option \<times> 'w"

text \<open>
  \<open>Replace\<close> after its precondition, and \<open>Replace\<close>: the error, if any, and the revision the caller
  is told.
\<close>

definition publish ::
  "sub_spec \<Rightarrow> ('e, 'w) commit option \<Rightarrow> subscription_table \<times> 'w \<Rightarrow>
     ('e table_error option \<times> u64) \<times> subscription_table \<times> 'w" where
  "publish spec commit = (\<lambda>(t, w).
     let revision = sn_revision (tb_current t) in
     case compile_table t spec (revision + 1) of
       Inl e \<Rightarrow> ((Some e, revision), t, w)
     | Inr next' \<Rightarrow>
         (case (case commit of None \<Rightarrow> (None, w) | Some save \<Rightarrow> save (sn_revision next') (sn_spec next') w) of
            (Some e, w) \<Rightarrow> ((Some (Vetoed e), revision), t, w)
          | (None, w) \<Rightarrow> ((None, sn_revision next'), t\<lparr>tb_current := next'\<rparr>, w)))"

definition table_Replace ::
  "sub_spec \<Rightarrow> u64 option \<Rightarrow> ('e, 'w) commit option \<Rightarrow> subscription_table \<times> 'w \<Rightarrow>
     ('e table_error option \<times> u64) \<times> subscription_table \<times> 'w" where
  "table_Replace spec expected commit = (\<lambda>(t, w).
     let revision = sn_revision (tb_current t) in
     case expected of
       Some r \<Rightarrow> if r \<noteq> revision then ((Some (ErrRevisionMismatch r revision), revision), t, w)
                 else publish spec commit (t, w)
     | None \<Rightarrow> publish spec commit (t, w))"

section \<open>Facts: what compiles\<close>

definition compiled_from :: "config_subscription \<Rightarrow> subscription \<Rightarrow> bool" where
  "compiled_from s sub \<longleftrightarrow> sub_ID sub = cs_ID s \<and>
     list_all2 (\<lambda>text p. CompilePattern text = Inr p) (cs_Patterns s) (sub_Patterns sub)"

definition spec_ok :: "string list \<Rightarrow> config_subscription \<Rightarrow> bool" where
  "spec_ok known s \<longleftrightarrow> cs_ID s \<noteq> [] \<and> cs_Patterns s \<noteq> [] \<and>
     length (cs_Patterns s) \<le> MaxPatternsPerSubscription \<and> set (cs_Destinations s) \<subseteq> set known"

definition add_route :: "config_subscription \<Rightarrow> routes \<Rightarrow> routes" where
  "add_route s r = (if cs_Destinations s = [] then r else r(cs_ID s \<mapsto> cs_Destinations s))"

definition routes_of :: "sub_spec \<Rightarrow> routes" where
  "routes_of spec = fold add_route spec Map.empty"

text \<open>A loop over numbered elements whose errors name the element succeeds as the loop without numbers does.\<close>

lemma map_res_enumerate:
  assumes "\<And>j x. f (j, x) = (case g x of Inl e \<Rightarrow> Inl (h j x e) | Inr y \<Rightarrow> Inr y)"
  shows "map_res f (enumerate k xs) = Inr ys \<longleftrightarrow> list_all2 (\<lambda>x y. g x = Inr y) xs ys"
  by (induction xs arbitrary: k ys) (auto simp: assms wrap_error_Inr list_all2_Cons1)

lemma compile_patterns:
  "map_res (compile_pattern i) (enumerate 0 texts) = Inr ps \<longleftrightarrow> list_all2 (\<lambda>text p. CompilePattern text = Inr p) texts ps"
  by (rule map_res_enumerate [where g = CompilePattern
        and h = "\<lambda>j _ e. FieldRefused (element_field i ''.patterns'' j) (BadPattern e)"])
    (simp add: compile_pattern_def)

lemma check_destinations:
  "map_res (check_destination known i) (enumerate 0 ns) = Inr ns' \<longleftrightarrow> ns' = ns \<and> set ns \<subseteq> set known"
proof -
  have "map_res (check_destination known i) (enumerate 0 ns) = Inr ns' \<longleftrightarrow>
      list_all2 (\<lambda>x y. (if x \<notin> set known then Inl () else Inr x) = Inr y) ns ns'"
    by (rule map_res_enumerate [where h = "\<lambda>j x _. FieldRefused (element_field i ''.destinations'' j) (UnknownDestination x)"])
      (simp add: check_destination_def)
  also have "\<dots> \<longleftrightarrow> ns' = ns \<and> set ns \<subseteq> set known"
    by (induction ns arbitrary: ns') (auto simp: list_all2_Cons1)
  finally show ?thesis .
qed

lemma compile_subscription_Inr:
  "compile_subscription known (i, s) (subs, r) = Inr (subs', r') \<longleftrightarrow>
     spec_ok known s \<and> (\<exists>sub. compiled_from s sub \<and> subs' = subs @ [sub]) \<and> r' = add_route s r"
proof -
  have "compiled_from s sub \<longleftrightarrow> (\<exists>ps. list_all2 (\<lambda>text p. CompilePattern text = Inr p) (cs_Patterns s) ps \<and>
      sub = \<lparr>sub_ID = cs_ID s, sub_Patterns = ps\<rparr>)" for sub
    by (cases sub) (auto simp: compiled_from_def)
  then show ?thesis
    by (auto simp: compile_subscription_def compile_patterns check_destinations spec_ok_def add_route_def not_less
        split: if_splits)
qed

lemma compile_subscriptions:
  "fold_res (compile_subscription known) (enumerate k spec) (subs, r) = Inr (subs', r') \<longleftrightarrow>
     list_all (spec_ok known) spec \<and> (\<exists>new. list_all2 compiled_from spec new \<and> subs' = subs @ new) \<and>
     r' = fold add_route spec r"
proof (induction spec arbitrary: k subs r)
  case (Cons s spec)
  show ?case
    by (auto simp: Cons.IH compile_subscription_Inr list_all2_Cons1)
qed auto

lemma compile_table_Inr:
  "compile_table t spec revision = Inr sn \<longleftrightarrow>
     length spec \<le> MaxSubscriptions \<and> list_all (spec_ok (tb_destinations t)) spec \<and>
     (\<exists>subs m. list_all2 compiled_from spec subs \<and> tb_newMatcher t subs = Inr m \<and>
        sn = \<lparr>sn_matcher = Some m, sn_routes = routes_of spec, sn_spec = spec, sn_revision = revision\<rparr>)"
  by (auto simp: compile_table_def guard_Inr not_less compile_subscriptions routes_of_def wrap_error_Inr
      simp del: enumerate_simps)

section \<open>Facts: compiled patterns and tags\<close>

lemma NewBitPattern_lengths: "NewBitPattern v m n = Inr b \<Longrightarrow> length (bp_value b) = length (bp_mask b)"
  by (auto simp: NewBitPattern_def split: if_splits)

lemma patternBits_lengths:
  assumes "patternBits s known fps = Inr (Some b)"
  shows "length (bp_value b) = length (bp_mask b)"
  using assms
  by (cases known) (auto simp: patternBits_def Let_def split_beta wrap_error_Inr guard_Inr split: if_splits
      intro: NewBitPattern_lengths)

lemma CompilePattern_cases:
  assumes "CompilePattern text = Inr p"
  obtains (identity) "p_level p = LevelIdentity" "p_bits p = None"
  | (encoding) s known where "p_level p = LevelEncoding" "s \<in> set schemes" "p_scheme p = sch_id s"
      "patternBits s known (p_fields p) = Inr (p_bits p)" "compileTagPattern (TrimSpace text) = Inr p"
proof (cases "HasPrefix (TrimSpace text) ''urn:epc:idpat:''")
  case True
  then show ?thesis using assms identity
    by (auto simp: CompilePattern_def gs1_CompilePattern_def compileIDPattern_def NewPattern_iff Let_def ok_simps)
next
  case False
  then have "compileTagPattern (TrimSpace text) = Inr p"
    using assms by (auto simp: CompilePattern_def gs1_CompilePattern_def guard_Inr split: if_splits)
  then show ?thesis by (rule compileTagPattern_cases) (use encoding \<open>compileTagPattern (TrimSpace text) = Inr p\<close> in blast)
qed

lemma CompilePattern_bits_wf: "CompilePattern text = Inr p \<Longrightarrow> bits_wf p"
  by (erule CompilePattern_cases) (auto simp: bits_wf_def split: option.split dest: patternBits_lengths)

lemma compiled_subs_wf: "list_all2 compiled_from spec subs \<Longrightarrow> subs_wf subs"
proof (induction rule: list_all2_induct)
  case (Cons s spec sub subs)
  then have "list_all bits_wf (sub_Patterns sub)"
    by (auto simp: compiled_from_def list_all2_conv_all_nth list_all_length intro: CompilePattern_bits_wf)
  with Cons show ?case by (simp add: subs_wf_def)
qed (simp add: subs_wf_def)

text \<open>
  The rule a subject is matched by is the reference rule of its translation: a compiled bit test
  never disagrees with the fields it was compiled from.
\<close>

definition SubjectOf :: "translation \<Rightarrow> subject" where
  "SubjectOf t = \<lparr>s_Identity = t_Identity t, s_Scheme = enc_Scheme (t_Encoding t), s_Fields = enc_fields (t_Encoding t),
     s_Bits = enc_bits (t_Encoding t), s_BitLen = enc_BitLen (t_Encoding t)\<rparr>"

lemma translation_cases:
  assumes "Translate tr inp = Inr t"
  obtains (gs1) bits n where "gs1_Decode bits n = Inr t" | (iso) bits n afi where "iso_Decode bits n afi = Inr t"
proof -
  obtain bits n fmt afi hasAFI where
    "(case fmt of FormatGS1 \<Rightarrow> gs1_Decode bits n
       | FormatISO \<Rightarrow> if \<not> hasAFI then Inl ErrUnrecognisedNonGS1 else iso_Decode bits n afi
       | FormatUnknown \<Rightarrow> Inl ErrAmbiguousEncoding) = Inr t"
    using assms by (cases "input_format tr inp") (auto simp: Translate_def)
  then show ?thesis by (cases fmt) (use that in \<open>auto simp: guard_Inr\<close>)
qed

lemma iso_scheme:
  assumes "iso_Decode bits n afi = Inr t"
  shows "enc_Scheme (t_Encoding t) = SchemeTransportUnit"
proof -
  obtain di body where "t = transport_translation afi di body (take (nat ((n + 7) div 8)) bits) n"
    using assms unfolding iso_Decode_iff by blast
  then show ?thesis by (simp add: transport_translation_def NewEncoding_def)
qed

lemma scheme_not_iso: "s \<in> set schemes \<Longrightarrow> sch_id s \<noteq> SchemeTransportUnit"
  by (auto simp: schemes_eq gs1_scheme_defs SchemeTransportUnit_def)

lemma matches_SubjectOf:
  assumes "CompilePattern text = Inr p" "Translate tr inp = Inr t"
  shows "matches p (SubjectOf t) \<longleftrightarrow> t_Match t p"
  using assms(1)
proof (cases rule: CompilePattern_cases)
  case identity
  then show ?thesis by (simp add: matches_def t_Match_def SubjectOf_def)
next
  case (encoding s known)
  note enc = this
  show ?thesis
    using assms(2)
  proof (cases rule: translation_cases)
    case (gs1 bits n)
    show ?thesis
    proof (cases "p_bits p")
      case (Some b)
      show ?thesis using bit_test_exact [OF enc(5) Some gs1] Some enc(1)
        by (auto simp: matches_def t_Match_def SubjectOf_def)
    qed (simp add: matches_def t_Match_def SubjectOf_def enc(1))
  next
    case (iso bits n afi)
    then show ?thesis
      using iso_scheme [OF iso] scheme_not_iso [OF enc(2)] enc(1,3) by (simp add: matches_def t_Match_def SubjectOf_def)
  qed
qed

section \<open>What a snapshot stands for\<close>

text \<open>
  The subscriptions a translation meets, read from the configured texts with the reference rule.
\<close>

definition meets :: "translation \<Rightarrow> config_subscription \<Rightarrow> bool" where
  "meets tr s \<longleftrightarrow> list_ex (\<lambda>text. case CompilePattern text of Inl _ \<Rightarrow> False | Inr p \<Rightarrow> t_Match tr p) (cs_Patterns s)"

definition subscribed :: "sub_spec \<Rightarrow> translation \<Rightarrow> sub_spec" where
  "subscribed spec tr = filter (meets tr) spec"

text \<open>A snapshot is what its own specification compiles to.\<close>

definition snapshot_ok :: "subscription_table \<Rightarrow> bool" where
  "snapshot_ok t \<longleftrightarrow>
     (compile_table t (sn_spec (tb_current t)) (sn_revision (tb_current t)) :: unit table_error + snapshot) = Inr (tb_current t)"

lemma snapshot_ok_iff:
  "snapshot_ok t \<longleftrightarrow> (let sn = tb_current t; spec = sn_spec sn in
     length spec \<le> MaxSubscriptions \<and> list_all (spec_ok (tb_destinations t)) spec \<and> sn_routes sn = routes_of spec \<and>
     (\<exists>subs m. list_all2 compiled_from spec subs \<and> tb_newMatcher t subs = Inr m \<and> sn_matcher sn = Some m))"
  by (cases "tb_current t") (auto simp: snapshot_ok_def compile_table_Inr Let_def)

lemma compile_table_ok: "compile_table t spec r = Inr sn \<Longrightarrow> snapshot_ok (t\<lparr>tb_current := sn\<rparr>)"
  unfolding snapshot_ok_iff compile_table_Inr by (auto simp: Let_def)

lemma publish_ok: "snapshot_ok t \<Longrightarrow> snapshot_ok (fst (snd (publish spec commit (t, w))))"
  by (auto simp: publish_def Let_def compile_table_ok split: sum.splits option.splits prod.splits)

lemma Replace_ok: "snapshot_ok t \<Longrightarrow> snapshot_ok (fst (snd (table_Replace spec expected commit (t, w))))"
  by (auto simp: table_Replace_def Let_def publish_ok split: option.splits)

lemma Load_ok: "snapshot_ok t \<Longrightarrow> snapshot_ok (snd (table_Load spec r t))"
  by (auto simp: table_Load_def compile_table_ok split: sum.splits)

lemma NewSubscriptionTableWith_ok: "is_ok (compile []) \<Longrightarrow> snapshot_ok (NewSubscriptionTableWith dests compile)"
  by (auto simp: snapshot_ok_iff NewSubscriptionTableWith_def Let_def is_ok_iff routes_of_def)

lemma routes_of_fold:
  "distinct (map cs_ID spec) \<Longrightarrow> fold add_route spec r i =
     (case find (\<lambda>s. cs_ID s = i) spec of
        None \<Rightarrow> r i | Some s \<Rightarrow> if cs_Destinations s = [] then r i else Some (cs_Destinations s))"
proof (induction spec arbitrary: r)
  case (Cons s spec)
  have "find (\<lambda>s. cs_ID s = i) spec = None" if "cs_ID s = i" using Cons.prems that by (auto simp: find_None_iff image_iff)
  with Cons show ?case by (auto simp: add_route_def split: option.split)
qed simp

lemma routes_of_elem:
  assumes "distinct (map cs_ID spec)" "s \<in> set spec"
  shows "routes_of spec (cs_ID s) = (if cs_Destinations s = [] then None else Some (cs_Destinations s))"
proof -
  obtain s' where s': "find (\<lambda>x. cs_ID x = cs_ID s) spec = Some s'"
    using assms(2) by (cases "find (\<lambda>x. cs_ID x = cs_ID s) spec") (auto simp: find_None_iff)
  from find_SomeD [OF this] have "s' \<in> set spec" "cs_ID s' = cs_ID s" by simp_all
  with assms have "s' = s" by (auto simp: distinct_map inj_on_def)
  with s' assms(1) show ?thesis by (simp add: routes_of_def routes_of_fold)
qed

text \<open>
  The contract between a compiler and the table that uses it: what a table matches does not
  depend on which compiler it was given.
\<close>

locale live_table = matcher compile mv_Match mv_Len for compile :: compiler
begin

lemma new_ok: "snapshot_ok (NewSubscriptionTableWith dests compile)"
proof -
  have "is_ok (compile [])" using compile_ok [of "[]"] by (simp add: valid_subs_def)
  then show ?thesis by (rule NewSubscriptionTableWith_ok)
qed

lemma snapshot_matches:
  assumes ok: "snapshot_ok t" "tb_newMatcher t = compile" and tr: "Translate trl inp = Inr tr"
  defines "spec \<equiv> sn_spec (tb_current t)"
  obtains m where "sn_matcher (tb_current t) = Some m" "mv_Match m (SubjectOf tr) [] = map cs_ID (subscribed spec tr)"
    "distinct (map cs_ID spec)" "sn_routes (tb_current t) = routes_of spec" "list_all (spec_ok (tb_destinations t)) spec"
proof -
  obtain subs m where m: "list_all2 compiled_from spec subs" "compile subs = Inr m" "sn_matcher (tb_current t) = Some m"
    and r: "sn_routes (tb_current t) = routes_of spec" "list_all (spec_ok (tb_destinations t)) spec"
    using ok unfolding snapshot_ok_iff by (auto simp: Let_def spec_def)
  have ids: "map sub_ID subs = map cs_ID spec"
    using m(1) by (induction rule: list_all2_induct) (simp_all add: compiled_from_def)
  have "list_ex (\<lambda>p. matches p (SubjectOf tr)) (sub_Patterns sub) \<longleftrightarrow> meets tr s"
    if "compiled_from s sub" for s sub
  proof -
    have "list_all2 (\<lambda>text p. CompilePattern text = Inr p) (cs_Patterns s) (sub_Patterns sub)"
      using that by (simp add: compiled_from_def)
    then show ?thesis unfolding meets_def
      by (induction rule: list_all2_induct) (simp_all add: matches_SubjectOf [OF _ tr])
  qed
  with m(1) have "matching subs (SubjectOf tr) = map cs_ID (subscribed spec tr)"
    by (induction rule: list_all2_induct) (auto simp: matching_def subscribed_def compiled_from_def)
  moreover have "distinct (map cs_ID spec)" using valid_subs_distinct [OF compiled_valid [OF m(2)]] ids by simp
  ultimately show thesis
    using that [OF m(3)] Match_compiled [OF m(2) compiled_subs_wf [OF m(1)]] r by simp
qed

end

interpretation index_table: live_table CompileIndex
proof unfold_locales
  fix subs :: "subscription list" and e m s dst
  show "CompileIndex subs = Inl e \<longleftrightarrow> validate subs = Inl e"
    by (cases "compileIndex subs") (simp_all add: CompileIndex_def flip: index.compile_error)
  show "CompileIndex subs = Inr m \<Longrightarrow> mv_Len m = length subs"
    "CompileIndex subs = Inr m \<Longrightarrow> subs_wf subs \<Longrightarrow> mv_Match m s dst = dst @ matching subs s"
    by (auto simp: CompileIndex_def index.Match_compiled index.Len_compiled split: sum.splits)
qed

interpretation linear_table: live_table CompileLinear
proof unfold_locales
  fix subs :: "subscription list" and e m s dst
  show "CompileLinear subs = Inl e \<longleftrightarrow> validate subs = Inl e"
    by (cases "compileLinear subs") (simp_all add: CompileLinear_def flip: linear.compile_error)
  show "CompileLinear subs = Inr m \<Longrightarrow> mv_Len m = length subs"
    "CompileLinear subs = Inr m \<Longrightarrow> subs_wf subs \<Longrightarrow> mv_Match m s dst = dst @ matching subs s"
    by (auto simp: CompileLinear_def linear.Match_compiled linear.Len_compiled split: sum.splits)
qed

section \<open>Properties\<close>

text \<open>The matchers a configuration can name, \<^verbatim>\<open>compilers\<close> of \<^verbatim>\<open>configure.go\<close>.\<close>

definition compilers :: "string \<Rightarrow> compiler option" where
  "compilers = [''index'' \<mapsto> CompileIndex, ''linear'' \<mapsto> CompileLinear]"

datatype ('e, 'w) table_op =
    OpLoad sub_spec u64
  | OpReplace sub_spec "u64 option" "('e, 'w) commit option"

fun table_run :: "('e, 'w) table_op list \<Rightarrow> subscription_table \<times> 'w \<Rightarrow> subscription_table \<times> 'w" where
  "table_run [] s = s"
| "table_run (OpLoad spec r # ops) (t, w) = table_run ops (snd (table_Load spec r t :: 'e table_error option \<times> _), w)"
| "table_run (OpReplace spec expected commit # ops) s = table_run ops (snd (table_Replace spec expected commit s))"

lemma table_run_step:
  "tb_newMatcher (snd (table_Load spec r t)) = tb_newMatcher t"
  "tb_destinations (snd (table_Load spec r t)) = tb_destinations t"
  "tb_newMatcher (fst (snd (table_Replace spec expected commit (t, w)))) = tb_newMatcher t"
  "tb_destinations (fst (snd (table_Replace spec expected commit (t, w)))) = tb_destinations t"
  by (auto simp: table_Load_def table_Replace_def publish_def Let_def split: sum.splits option.splits prod.splits)

lemma table_run_ok:
  assumes "snapshot_ok (fst s)"
  shows "snapshot_ok (fst (table_run ops s)) \<and> tb_newMatcher (fst (table_run ops s)) = tb_newMatcher (fst s) \<and>
    tb_destinations (fst (table_run ops s)) = tb_destinations (fst s)"
  using assms
proof (induction ops s rule: table_run.induct)
  case (2 spec r ops t w)
  then show ?case by (simp add: Load_ok table_run_step)
next
  case (3 spec expected commit ops s)
  then show ?case by (cases s) (simp add: Replace_ok table_run_step)
qed simp

lemma compilers_cases: "compilers name = Some compile \<Longrightarrow> compile = CompileIndex \<or> compile = CompileLinear"
  by (auto simp: compilers_def split: if_splits)

lemma live_tables: "compilers name = Some compile \<Longrightarrow> live_table compile"
  using compilers_cases index_table.live_table_axioms linear_table.live_table_axioms by blast

text \<open>
  One snapshot at a time: after any loads and replacements, whatever they were given and
  however the caller's commits came out, the matcher, the routes and the specification of the
  table belong together. A tag that translates is reported to exactly the published
  subscriptions one of whose patterns it meets by the reference rule, in their order, whichever
  matcher is configured; every subscription's route is its own, and only to known destinations.
\<close>

theorem table_is_consistent:
  "case (compilers name, Translate tr inp) of
     (Some compile, Inr t) \<Rightarrow>
       (let sn = tb_current (fst (table_run ops (NewSubscriptionTableWith dests compile, w))) in
        (case sn_matcher sn of
           None \<Rightarrow> False
         | Some m \<Rightarrow> mv_Match m (SubjectOf t) [] = map cs_ID (filter (meets t) (sn_spec sn))) \<and>
        list_all (\<lambda>s. sn_routes sn (cs_ID s) = (if cs_Destinations s = [] then None else Some (cs_Destinations s)) \<and>
          set (cs_Destinations s) \<subseteq> set dests) (sn_spec sn))
   | _ \<Rightarrow> True"
proof (cases "compilers name")
  case (Some compile)
  note live = live_tables [OF Some]
  show ?thesis
  proof (cases "Translate tr inp")
    case (Inr t)
    define tab where "tab = fst (table_run ops (NewSubscriptionTableWith dests compile, w))"
    let ?new = "NewSubscriptionTableWith dests compile"
    have "snapshot_ok ?new" "tb_newMatcher ?new = compile" "set (tb_destinations ?new) = set dests"
      by (simp_all add: live_table.new_ok [OF live]) (simp_all add: NewSubscriptionTableWith_def)
    then have ok: "snapshot_ok tab" "tb_newMatcher tab = compile" "set (tb_destinations tab) = set dests"
      using table_run_ok [of "(?new, w)" ops] by (simp_all add: tab_def)
    obtain m where "sn_matcher (tb_current tab) = Some m"
      "mv_Match m (SubjectOf t) [] = map cs_ID (subscribed (sn_spec (tb_current tab)) t)"
      "distinct (map cs_ID (sn_spec (tb_current tab)))" "sn_routes (tb_current tab) = routes_of (sn_spec (tb_current tab))"
      "list_all (spec_ok (tb_destinations tab)) (sn_spec (tb_current tab))"
      by (rule live_table.snapshot_matches [OF live ok(1,2) Inr])
    then show ?thesis
      using ok(3) by (simp add: Some Inr Let_def flip: tab_def)
        (auto simp: subscribed_def list_all_iff routes_of_elem spec_ok_def)
  qed (simp add: Some)
qed simp

end
