(* ===== verification/Report_Encode.thy ===== *)
theory Report_Encode
  imports Inventory Strconv "HOL-Library.AList" "HOL-Library.Code_Target_Nat"
begin

text \<open>
  The wire format of reports: \<^verbatim>\<open>src/internal/report/encode.go\<close> with the types of
  \<^verbatim>\<open>src/internal/report/report.go\<close>, and what the two use of \<^verbatim>\<open>encoding/json\<close> (strings with its HTML
  escapes, objects whose keys are sorted) and of \<^verbatim>\<open>time\<close> (the RFC 3339 form of a UTC instant).
  An instant counts nanoseconds from Go's zero time, the start of the year 1. A string is a
  list of bytes.
\<close>

section \<open>JSON strings\<close>

definition ascii :: "char \<Rightarrow> bool" where
  "ascii c \<longleftrightarrow> (of_char c :: nat) < 128"

definition json_char :: "char \<Rightarrow> string" where
  "json_char c =
     (let n = (of_char c :: nat) in
      if c = CHR 0x5C \<or> c = CHR 0x22 then [CHR 0x5C, c]
      else if n = 8 then [CHR 0x5C, CHR ''b'']
      else if n = 12 then [CHR 0x5C, CHR ''f'']
      else if n = 10 then [CHR 0x5C, CHR ''n'']
      else if n = 13 then [CHR 0x5C, CHR ''r'']
      else if n = 9 then [CHR 0x5C, CHR ''t'']
      else if n < 32 \<or> c = CHR ''<'' \<or> c = CHR ''>'' \<or> c = CHR ''&''
      then [CHR 0x5C, CHR ''u'', CHR ''0'', CHR ''0'', hex_digits ! (n div 16), hex_digits ! (n mod 16)]
      else [c])"

text \<open>The width of the UTF-8 sequence a string starts with, 0 where it starts with none.\<close>

definition byte_in :: "string \<Rightarrow> nat \<Rightarrow> nat \<Rightarrow> nat \<Rightarrow> bool" where
  "byte_in s i lo hi \<longleftrightarrow> i < length s \<and> lo \<le> of_char (s ! i) \<and> of_char (s ! i) \<le> hi"

definition two_bytes :: "string \<Rightarrow> bool" where
  "two_bytes s \<longleftrightarrow> byte_in s 0 0xC2 0xDF \<and> byte_in s 1 0x80 0xBF"

definition three_bytes :: "string \<Rightarrow> bool" where
  "three_bytes s \<longleftrightarrow>
     (byte_in s 0 0xE0 0xE0 \<and> byte_in s 1 0xA0 0xBF \<or> byte_in s 0 0xE1 0xEC \<and> byte_in s 1 0x80 0xBF \<or>
      byte_in s 0 0xED 0xED \<and> byte_in s 1 0x80 0x9F \<or> byte_in s 0 0xEE 0xEF \<and> byte_in s 1 0x80 0xBF) \<and>
     byte_in s 2 0x80 0xBF"

definition four_bytes :: "string \<Rightarrow> bool" where
  "four_bytes s \<longleftrightarrow>
     (byte_in s 0 0xF0 0xF0 \<and> byte_in s 1 0x90 0xBF \<or> byte_in s 0 0xF1 0xF3 \<and> byte_in s 1 0x80 0xBF \<or>
      byte_in s 0 0xF4 0xF4 \<and> byte_in s 1 0x80 0x8F) \<and>
     byte_in s 2 0x80 0xBF \<and> byte_in s 3 0x80 0xBF"

definition rune_width :: "string \<Rightarrow> nat" where
  "rune_width s =
     (if byte_in s 0 0x00 0x7F then 1 else if two_bytes s then 2 else if three_bytes s then 3
      else if four_bytes s then 4 else 0)"

lemmas rune_defs = rune_width_def two_bytes_def three_bytes_def four_bytes_def byte_in_def

function json_escape :: "string \<Rightarrow> string" where
  "json_escape [] = []"
| "json_escape (c # cs) =
     (if ascii c then json_char c @ json_escape cs
      else case rune_width (c # cs) of
             0 \<Rightarrow> CHR 0x5C # ''ufffd'' @ json_escape cs
           | Suc n \<Rightarrow>
               (if take 3 (c # cs) = [CHR 0xE2, CHR 0x80, CHR 0xA8] then CHR 0x5C # ''u2028''
                else if take 3 (c # cs) = [CHR 0xE2, CHR 0x80, CHR 0xA9] then CHR 0x5C # ''u2029''
                else c # take n cs) @ json_escape (drop n cs))"
  by pat_completeness auto
termination by (relation "measure length") auto

definition json_string :: "string \<Rightarrow> string" where
  "json_string s = CHR 0x22 # json_escape s @ [CHR 0x22]"

definition json_array :: "string list \<Rightarrow> string" where
  "json_array xs = CHR ''['' # Join xs CHR '','' @ '']''"

definition json_object :: "(string \<times> string) list \<Rightarrow> string" where
  "json_object members = CHR ''{'' # Join (map (\<lambda>(k, v). json_string k @ CHR '':'' # v) members) CHR '','' @ ''}''"

text \<open>A Go map of strings is marshalled with its keys in order.\<close>

definition json_map :: "(string \<times> string) list \<Rightarrow> string" where
  "json_map m = json_object (map (\<lambda>(k, v). (k, json_string v)) (sort_key fst m))"

section \<open>Instants\<close>

definition nanosecond_parts :: "instant \<Rightarrow> int \<times> int \<times> int" where
  "nanosecond_parts t = (let seconds = t div 1000000000 in (seconds div 86400, seconds mod 86400, t mod 1000000000))"

text \<open>The date of a day counted from 0001-01-01, in years that begin in March.\<close>

definition civil :: "int \<Rightarrow> int \<times> int \<times> int" where
  "civil days =
     (let z = days + 306; era = z div 146097; doe = z mod 146097;
          yoe = (doe - doe div 1460 + doe div 36524 - doe div 146096) div 365;
          doy = doe - (365 * yoe + yoe div 4 - yoe div 100);
          mp = (5 * doy + 2) div 153;
          month = (if mp < 10 then mp + 3 else mp - 9)
      in (yoe + era * 400 + (if month \<le> 2 then 1 else 0), month, doy - (153 * mp + 2) div 5 + 1))"

definition padded :: "nat \<Rightarrow> int \<Rightarrow> string" where
  "padded width n =
     (let digits = itoa (nat \<bar>n\<bar>) in (if n < 0 then ''-'' else []) @ replicate (width - length digits) (CHR ''0'') @ digits)"

definition RFC3339Nano :: "instant \<Rightarrow> string" where
  "RFC3339Nano t =
     (let (days, seconds, nanos) = nanosecond_parts t; (year, month, day) = civil days;
          fraction = rev (dropWhile (\<lambda>c. c = CHR ''0'') (rev (padded 9 nanos)))
      in padded 4 year @ ''-'' @ padded 2 month @ ''-'' @ padded 2 day @ ''T'' @
         padded 2 (seconds div 3600) @ '':'' @ padded 2 (seconds mod 3600 div 60) @ '':'' @ padded 2 (seconds mod 60) @
         (if fraction = [] then [] else CHR ''.'' # fraction) @ ''Z'')"

section \<open>Events and batches\<close>

definition Schema :: string where "Schema = ''tagstrak.report.v1''"

record report_identity =
  ri_Authority :: string
  ri_KeyType :: string
  ri_Components :: "(string \<times> string) list"

record event =
  ev_ID :: string
  ev_Source :: string
  ObservedAt :: instant
  Subscriptions :: "string list"
  ev_Scheme :: string
  ev_EPC :: bytes
  ev_Identity :: report_identity
  ev_PureIdentityURI :: string

record batch =
  b_ID :: string
  b_Events :: "event list"
  b_body :: string

text \<open>
  \<open>json.Marshal\<close> of a structure of strings does not fail; the result keeps the error of the
  signature. An absent list or map is the empty one here, as the code makes it.
\<close>

definition encodeEvent :: "event \<Rightarrow> unit + string" where
  "encodeEvent e =
     Inr (json_object ([(''id'', json_string (ev_ID e)), (''source'', json_string (ev_Source e)),
        (''observedAt'', json_string (RFC3339Nano (ObservedAt e))),
        (''subscriptions'', json_array (map json_string (Subscriptions e))),
        (''scheme'', json_string (ev_Scheme e)),
        (''epc'', json_string (hex_EncodeToString (ev_EPC e))),
        (''identity'', json_object [(''authority'', json_string (ri_Authority (ev_Identity e))),
           (''keyType'', json_string (ri_KeyType (ev_Identity e))),
           (''components'', json_map (ri_Components (ev_Identity e)))])] @
        (if ev_PureIdentityURI e = [] then [] else [(''pureIdentityURI'', json_string (ev_PureIdentityURI e))])))"

definition encodeBatch :: "string \<Rightarrow> string list \<Rightarrow> string" where
  "encodeBatch i events =
     [CHR ''{'', CHR 0x22] @ ''schema'' @ [CHR 0x22, CHR '':'', CHR 0x22] @ Schema @ [CHR 0x22, CHR '','', CHR 0x22] @
     ''batch'' @ [CHR 0x22, CHR '':''] @ json_string i @ [CHR '','', CHR 0x22] @ ''events'' @ [CHR 0x22, CHR '':'', CHR ''[''] @
     concat (map (\<lambda>i. (if i > 0 then '','' else []) @ events ! i) [0..<length events]) @ '']}''"

definition batchEnvelope :: "string \<Rightarrow> nat" where
  "batchEnvelope i = length (encodeBatch i [])"

section \<open>Facts\<close>

lemma batch_events_Join:
  "concat (map (\<lambda>i. (if i > 0 then '','' else []) @ events ! i) [0..<length events]) = Join events CHR '',''"
proof (induction events rule: rev_induct)
  case (snoc e es)
  have "concat (map (\<lambda>i. (if i > 0 then '','' else []) @ (es @ [e]) ! i) [0..<length es]) =
      concat (map (\<lambda>i. (if i > 0 then '','' else []) @ es ! i) [0..<length es])"
    by (rule arg_cong [where f = concat]) (auto simp: nth_append)
  moreover have "Join (es @ [e]) c = (if es = [] then e else Join es c @ c # e)" for c
    by (induction es c rule: Join.induct) auto
  ultimately show ?case using snoc by auto
qed simp

lemma length_Join: "xs \<noteq> [] \<Longrightarrow> length (Join xs c) + 1 = sum_list (map (\<lambda>x. length x + 1) xs)"
  by (induction xs c rule: Join.induct) auto

section \<open>Reading a JSON string back\<close>

text \<open>
  The reading of a string after its opening quote, as JSON defines it: what it denotes and what
  follows the closing quote. An escaped code point denotes its UTF-8 form.
\<close>

definition utf8 :: "nat \<Rightarrow> string" where
  "utf8 n = (if n < 0x80 then [char_of n]
     else if n < 0x800 then [char_of (0xC0 + n div 64), char_of (0x80 + n mod 64)]
     else [char_of (0xE0 + n div 4096), char_of (0x80 + n div 64 mod 64), char_of (0x80 + n mod 64)])"

definition hex4 :: "char \<Rightarrow> char \<Rightarrow> char \<Rightarrow> char \<Rightarrow> nat option" where
  "hex4 a b c d =
     (case (hex_value a, hex_value b, hex_value c, hex_value d) of
        (Some w, Some x, Some y, Some z) \<Rightarrow> Some (((unat w * 16 + unat x) * 16 + unat y) * 16 + unat z)
      | _ \<Rightarrow> None)"

definition simple_escape :: "char \<Rightarrow> char option" where
  "simple_escape c = map_of [(CHR 0x22, CHR 0x22), (CHR 0x5C, CHR 0x5C), (CHR ''/'', CHR ''/''), (CHR ''b'', CHR 0x08),
     (CHR ''f'', CHR 0x0C), (CHR ''n'', CHR 0x0A), (CHR ''r'', CHR 0x0D), (CHR ''t'', CHR 0x09)] c"

definition before :: "string \<Rightarrow> (string \<times> string) option \<Rightarrow> (string \<times> string) option" where
  "before p r = map_option (\<lambda>(s, rest). (p @ s, rest)) r"

fun json_read :: "string \<Rightarrow> (string \<times> string) option" where
  "json_read [] = None"
| "json_read (c # cs) =
     (if c = CHR 0x22 then Some ([], cs)
      else if c = CHR 0x5C then
        (case cs of
           [] \<Rightarrow> None
         | e # r \<Rightarrow>
             if e = CHR ''u'' then
               (case r of
                  h1 # h2 # h3 # h4 # rest \<Rightarrow>
                    (case hex4 h1 h2 h3 h4 of None \<Rightarrow> None | Some n \<Rightarrow> before (utf8 n) (json_read rest))
                | _ \<Rightarrow> None)
             else (case simple_escape e of None \<Rightarrow> None | Some x \<Rightarrow> before [x] (json_read r)))
      else if of_char c < (32 :: nat) then None
      else before [c] (json_read cs))"

function utf8_valid :: "string \<Rightarrow> bool" where
  "utf8_valid [] = True"
| "utf8_valid (c # cs) = (case rune_width (c # cs) of 0 \<Rightarrow> False | Suc n \<Rightarrow> utf8_valid (drop n cs))"
  by pat_completeness auto
termination by (relation "measure length") auto

lemma before_before: "before p (before q r) = before (p @ q) r"
  by (cases r) (auto simp: before_def)

lemma char_eq_iff: "c = d \<longleftrightarrow> (of_char c :: nat) = of_char d"
  by simp

lemma json_read_char:
  assumes "ascii c"
  shows "json_read (json_char c @ r) = before [c] (json_read r)"
proof -
  let ?n = "of_char c :: nat"
  have n: "?n < 128" using assms by (simp add: ascii_def)
  have hex: "hex4 (CHR ''0'') (CHR ''0'') (hex_digits ! (?n div 16)) (hex_digits ! (?n mod 16)) = Some ?n"
  proof -
    have "hex_value (CHR ''0'') = Some 0" by code_simp
    moreover have "?n div 16 < 16" "?n mod 16 < 16" using n by auto
    ultimately show ?thesis by (simp add: hex4_def hex_value_digit unat_of_nat_small)
  qed
  have utf: "utf8 ?n = [c]" using n by (simp add: utf8_def)
  consider "c = CHR 0x5C \<or> c = CHR 0x22 \<or> ?n \<in> {8, 12, 10, 13, 9}"
    | "c \<noteq> CHR 0x5C" "c \<noteq> CHR 0x22" "?n \<notin> {8, 12, 10, 13, 9}" "?n < 32 \<or> c = CHR ''<'' \<or> c = CHR ''>'' \<or> c = CHR ''&''"
    | "c \<noteq> CHR 0x5C" "c \<noteq> CHR 0x22" "\<not> (?n < 32 \<or> c = CHR ''<'' \<or> c = CHR ''>'' \<or> c = CHR ''&'')"
    by blast
  then show ?thesis
  proof cases
    case 1
    then have "c \<in> {CHR 0x5C, CHR 0x22, CHR 0x08, CHR 0x0C, CHR 0x0A, CHR 0x0D, CHR 0x09}"
      by (auto simp: char_eq_iff simp del: of_char_eq_iff)
    then show ?thesis by (auto simp: json_char_def simple_escape_def Let_def)
  next
    case 2
    then have "json_char c = [CHR 0x5C, CHR ''u'', CHR ''0'', CHR ''0'', hex_digits ! (?n div 16), hex_digits ! (?n mod 16)]"
      by (simp add: json_char_def Let_def)
    then show ?thesis by (simp add: hex utf)
  next
    case 3
    then have "json_char c = [c]" by (auto simp: json_char_def Let_def)
    with 3 show ?thesis by simp
  qed
qed

lemma json_read_raw:
  "list_all (\<lambda>c. \<not> ascii c) s \<Longrightarrow> json_read (s @ r) = before s (json_read r)"
proof (induction s)
  case Nil
  then show ?case by (cases "json_read r") (auto simp: before_def)
next
  case (Cons c s)
  then have "128 \<le> (of_char c :: nat)" by (simp add: ascii_def)
  then have "c \<noteq> CHR 0x22" "c \<noteq> CHR 0x5C" "\<not> (of_char c :: nat) < 32" by auto
  with Cons show ?case by (simp add: before_before)
qed

definition follows :: "string \<Rightarrow> nat \<Rightarrow> bool" where
  "follows s i \<longleftrightarrow> i < length s \<and> \<not> ascii (s ! i)"

lemma byte_in_follows: "byte_in s i lo hi \<Longrightarrow> 128 \<le> lo \<Longrightarrow> follows s i"
  by (simp add: byte_in_def follows_def ascii_def)

lemma rune_width_follows:
  assumes "\<not> ascii c" "rune_width (c # cs) = Suc n"
  shows "n = 1 \<and> follows (c # cs) 1 \<or> n = 2 \<and> follows (c # cs) 1 \<and> follows (c # cs) 2 \<or>
     n = 3 \<and> follows (c # cs) 1 \<and> follows (c # cs) 2 \<and> follows (c # cs) 3"
proof -
  have "\<not> byte_in (c # cs) 0 0 0x7F" using assms(1) by (simp add: byte_in_def ascii_def)
  moreover have "two_bytes s \<Longrightarrow> follows s 1" "three_bytes s \<Longrightarrow> follows s 1 \<and> follows s 2"
    "four_bytes s \<Longrightarrow> follows s 1 \<and> follows s 2 \<and> follows s 3" for s
    by (auto simp: two_bytes_def three_bytes_def four_bytes_def intro: byte_in_follows)
  ultimately show ?thesis using assms(2) by (auto simp: rune_width_def split: if_splits)
qed

lemma rune_width_cases:
  assumes "\<not> ascii c" "rune_width (c # cs) = Suc n"
  shows "n \<le> length cs \<and> list_all (\<lambda>c. \<not> ascii c) (c # take n cs)"
  using rune_width_follows [OF assms] assms(1)
  by (cases cs; cases "tl cs"; cases "tl (tl cs)") (auto simp: follows_def numeral_2_eq_2 numeral_3_eq_3)

text \<open>The three ways a sequence that is not ASCII is written.\<close>

lemma json_read_separator:
  "json_read (CHR 0x5C # ''u2028'' @ r) = before [CHR 0xE2, CHR 0x80, CHR 0xA8] (json_read r)"
  "json_read (CHR 0x5C # ''u2029'' @ r) = before [CHR 0xE2, CHR 0x80, CHR 0xA9] (json_read r)"
  "json_read (CHR 0x5C # ''ufffd'' @ r) = before [CHR 0xEF, CHR 0xBF, CHR 0xBD] (json_read r)"
proof -
  have "hex4 (CHR ''2'') (CHR ''0'') (CHR ''2'') (CHR ''8'') = Some 0x2028"
    "hex4 (CHR ''2'') (CHR ''0'') (CHR ''2'') (CHR ''9'') = Some 0x2029"
    "hex4 (CHR ''f'') (CHR ''f'') (CHR ''f'') (CHR ''d'') = Some 0xFFFD"
    "utf8 0x2028 = [CHR 0xE2, CHR 0x80, CHR 0xA8]" "utf8 0x2029 = [CHR 0xE2, CHR 0x80, CHR 0xA9]"
    "utf8 0xFFFD = [CHR 0xEF, CHR 0xBF, CHR 0xBD]"
    by code_simp+
  then show "json_read (CHR 0x5C # ''u2028'' @ r) = before [CHR 0xE2, CHR 0x80, CHR 0xA8] (json_read r)"
    "json_read (CHR 0x5C # ''u2029'' @ r) = before [CHR 0xE2, CHR 0x80, CHR 0xA9] (json_read r)"
    "json_read (CHR 0x5C # ''ufffd'' @ r) = before [CHR 0xEF, CHR 0xBF, CHR 0xBD] (json_read r)"
    by simp_all
qed

text \<open>What a writer of JSON makes of a string: every byte that no valid sequence covers becomes U+FFFD.\<close>

function to_valid :: "string \<Rightarrow> string" where
  "to_valid [] = []"
| "to_valid (c # cs) =
     (case rune_width (c # cs) of
        0 \<Rightarrow> [CHR 0xEF, CHR 0xBF, CHR 0xBD] @ to_valid cs
      | Suc n \<Rightarrow> c # take n cs @ to_valid (drop n cs))"
  by pat_completeness auto
termination by (relation "measure length") auto

lemma to_valid_id: "utf8_valid s \<Longrightarrow> to_valid s = s"
  by (induction s rule: to_valid.induct) (auto split: nat.splits)

lemma json_read_escape: "json_read (json_escape s @ CHR 0x22 # r) = Some (to_valid s, r)"
proof (induction s rule: json_escape.induct)
  case (2 c cs)
  show ?case
  proof (cases "ascii c")
    case True
    have "rune_width (c # cs) = Suc 0" using True by (simp add: rune_width_def byte_in_def ascii_def)
    then show ?thesis using True 2(1) [OF True] by (simp add: json_read_char before_def)
  next
    case False
    show ?thesis
    proof (cases "rune_width (c # cs)")
      case 0
      then show ?thesis using False 2(2) [OF False 0] json_read_separator(3) by (simp add: before_def)
    next
      case (Suc n)
      note w = rune_width_cases [OF False Suc]
      note IH = 2(3) [OF False Suc]
      define t where "t = json_escape (drop n cs) @ CHR 0x22 # r"
      obtain p where p: "json_escape (c # cs) @ CHR 0x22 # r = p @ t" "json_read (p @ t) = before (c # take n cs) (json_read t)"
      proof -
        consider "take 3 (c # cs) = [CHR 0xE2, CHR 0x80, CHR 0xA8]" | "take 3 (c # cs) = [CHR 0xE2, CHR 0x80, CHR 0xA9]"
          | "take 3 (c # cs) \<noteq> [CHR 0xE2, CHR 0x80, CHR 0xA8]" "take 3 (c # cs) \<noteq> [CHR 0xE2, CHR 0x80, CHR 0xA9]" by blast
        then show ?thesis
        proof cases
          case 1
          then obtain cs' where cs: "c = CHR 0xE2" "cs = CHR 0x80 # CHR 0xA8 # cs'"
            by (cases cs; cases "tl cs") auto
          then have "n = 2" using Suc by (simp add: rune_defs)
          with cs False have e: "json_escape (c # cs) @ CHR 0x22 # r = (CHR 0x5C # ''u2028'') @ t" "c # take n cs = [CHR 0xE2, CHR 0x80, CHR 0xA8]"
            using Suc by (simp_all add: t_def)
          show ?thesis by (rule that [OF e(1)]) (simp only: e(2) append_Cons append_Nil json_read_separator(1) [unfolded append_Cons append_Nil])
        next
          case 2
          then obtain cs' where cs: "c = CHR 0xE2" "cs = CHR 0x80 # CHR 0xA9 # cs'"
            by (cases cs; cases "tl cs") auto
          then have "n = 2" using Suc by (simp add: rune_defs)
          with cs False have e: "json_escape (c # cs) @ CHR 0x22 # r = (CHR 0x5C # ''u2029'') @ t" "c # take n cs = [CHR 0xE2, CHR 0x80, CHR 0xA9]"
            using Suc by (simp_all add: t_def)
          show ?thesis by (rule that [OF e(1)]) (simp only: e(2) append_Cons append_Nil json_read_separator(2) [unfolded append_Cons append_Nil])
        next
          case 3
          with Suc False have "json_escape (c # cs) @ CHR 0x22 # r = (c # take n cs) @ t" by (simp add: t_def)
          then show ?thesis using json_read_raw [of "c # take n cs" t] w by (intro that [of "c # take n cs"]) auto
        qed
      qed
      with IH Suc show ?thesis by (auto simp: t_def [symmetric] before_def)
    qed
  qed
qed simp

section \<open>Reading a report back\<close>

text \<open>
  The documents a report is made of, how they are written, and a reader of JSON without spaces. The
  reader's fuel is the length of its input, as every call reads a character at least.
\<close>

datatype jvalue = JString string | JArray "jvalue list" | JObject "(string \<times> jvalue) list"

primrec jwrite :: "jvalue \<Rightarrow> string" where
  "jwrite (JString s) = json_string s"
| "jwrite (JArray vs) = json_array (map jwrite vs)"
| "jwrite (JObject ms) = json_object (map (map_prod id jwrite) ms)"

primrec clean :: "jvalue \<Rightarrow> jvalue" where
  "clean (JString s) = JString (to_valid s)"
| "clean (JArray vs) = JArray (map clean vs)"
| "clean (JObject ms) = JObject (map (map_prod to_valid id) (map (map_prod id clean) ms))"

fun read_value :: "nat \<Rightarrow> string \<Rightarrow> (jvalue \<times> string) option"
  and read_elements :: "nat \<Rightarrow> string \<Rightarrow> (jvalue list \<times> string) option"
  and read_members :: "nat \<Rightarrow> string \<Rightarrow> ((string \<times> jvalue) list \<times> string) option" where
  "read_value 0 s = None"
| "read_value (Suc n) s =
     (case s of
        [] \<Rightarrow> None
      | c # r \<Rightarrow>
          if c = CHR 0x22 then map_option (\<lambda>(x, r). (JString x, r)) (json_read r)
          else if c = CHR ''['' then
            (if take 1 r = '']'' then Some (JArray [], drop 1 r)
             else map_option (\<lambda>(vs, r). (JArray vs, r)) (read_elements n r))
          else if c = CHR ''{'' then
            (if take 1 r = ''}'' then Some (JObject [], drop 1 r)
             else map_option (\<lambda>(ms, r). (JObject ms, r)) (read_members n r))
          else None)"
| "read_elements 0 s = None"
| "read_elements (Suc n) s =
     (case read_value n s of
        Some (v, c # r) \<Rightarrow>
          if c = CHR '']'' then Some ([v], r)
          else if c = CHR '','' then map_option (\<lambda>(vs, r). (v # vs, r)) (read_elements n r)
          else None
      | _ \<Rightarrow> None)"
| "read_members 0 s = None"
| "read_members (Suc n) s =
     (case s of
        [] \<Rightarrow> None
      | q # r \<Rightarrow>
          if q \<noteq> CHR 0x22 then None
          else case json_read r of
            Some (k, c # r) \<Rightarrow>
              if c \<noteq> CHR '':'' then None
              else (case read_value n r of
                Some (v, d # r) \<Rightarrow>
                  if d = CHR ''}'' then Some ([(k, v)], r)
                  else if d = CHR '','' then map_option (\<lambda>(ms, r). ((k, v) # ms, r)) (read_members n r)
                  else None
              | _ \<Rightarrow> None)
          | _ \<Rightarrow> None)"

definition read_json :: "string \<Rightarrow> (jvalue \<times> string) option" where
  "read_json s = read_value (length s) s"

lemma json_string_read:
  "json_string s @ r = CHR 0x22 # json_escape s @ CHR 0x22 # r" "json_read (json_escape s @ CHR 0x22 # r) = Some (to_valid s, r)"
  by (simp_all add: json_string_def json_read_escape)

lemma jwrite_start: "\<exists>c s. jwrite v = c # s \<and> c \<noteq> CHR '']'' \<and> c \<noteq> CHR ''}''"
  by (cases v) (auto simp: json_string_def json_array_def json_object_def)

lemma Join_start: "xs \<noteq> [] \<Longrightarrow> hd xs = c # s \<Longrightarrow> \<exists>t. Join xs d = c # t"
  by (induction xs d rule: Join.induct) auto

lemma read_elements_written:
  assumes "\<And>v n r. v \<in> set vs \<Longrightarrow> length (jwrite v) \<le> n \<Longrightarrow> read_value n (jwrite v @ r) = Some (clean v, r)"
    and "vs \<noteq> []" "length (Join (map jwrite vs) CHR '','') < n"
  shows "read_elements n (Join (map jwrite vs) CHR '','' @ CHR '']'' # r) = Some (map clean vs, r)"
  using assms
proof (induction vs arbitrary: n)
  case (Cons v vs)
  from Cons.prems(3) obtain m where n: "n = Suc m" by (cases n) auto
  show ?case
  proof (cases vs)
    case Nil
    then show ?thesis using Cons.prems n by simp
  next
    case (Cons w ws)
    have rest: "read_elements m (Join (map jwrite vs) CHR '','' @ CHR '']'' # r) = Some (map clean vs, r)"
      using Cons.prems n Cons by (intro Cons.IH) auto
    have "length (jwrite v) \<le> m" using Cons.prems(3) n Cons by simp
    then show ?thesis using Cons.prems(1) [of v m] rest n Cons by simp
  qed
qed simp

lemma read_members_written:
  assumes "\<And>k v n r. (k, v) \<in> set ms \<Longrightarrow> length (jwrite v) \<le> n \<Longrightarrow> read_value n (jwrite v @ r) = Some (clean v, r)"
    and "ms \<noteq> []" "length (Join (map (\<lambda>(k, v). json_string k @ CHR '':'' # jwrite v) ms) CHR '','') < n"
  shows "read_members n (Join (map (\<lambda>(k, v). json_string k @ CHR '':'' # jwrite v) ms) CHR '','' @ CHR ''}'' # r) =
    Some (map (\<lambda>(k, v). (to_valid k, clean v)) ms, r)"
  using assms
proof (induction ms arbitrary: n)
  case (Cons kv ms)
  obtain k v where kv: "kv = (k, v)" by (cases kv)
  from Cons.prems(3) obtain m where n: "n = Suc m" by (cases n) auto
  show ?case
  proof (cases ms)
    case Nil
    then show ?thesis using Cons.prems n kv by (simp add: json_string_read)
  next
    case (Cons kv' ms')
    have rest: "read_members m (Join (map (\<lambda>(k, v). json_string k @ CHR '':'' # jwrite v) ms) CHR '','' @ CHR ''}'' # r) =
        Some (map (\<lambda>(k, v). (to_valid k, clean v)) ms, r)"
      using Cons.prems n Cons by (intro Cons.IH) auto
    have "length (jwrite v) \<le> m" using Cons.prems(3) n Cons kv by simp
    then show ?thesis using Cons.prems(1) [of k v m] rest n Cons kv by (simp add: json_string_read)
  qed
qed simp

lemma read_written: "length (jwrite v) \<le> n \<Longrightarrow> read_value n (jwrite v @ r) = Some (clean v, r)"
proof (induction v arbitrary: n r)
  case (JString s)
  then obtain m where "n = Suc m" by (cases n) (auto simp: json_string_def)
  then show ?case by (simp add: json_string_read)
next
  case (JArray vs)
  from JArray.prems obtain m where n: "n = Suc m" by (cases n) (auto simp: json_array_def)
  show ?case
  proof (cases "vs = []")
    case False
    obtain c t where first: "Join (map jwrite vs) CHR '','' = c # t" "c \<noteq> CHR '']''"
      using jwrite_start [of "hd vs"] Join_start [of "map jwrite vs"] False by (metis hd_map list.map_disc_iff)
    have "read_elements m (Join (map jwrite vs) CHR '','' @ CHR '']'' # r) = Some (map clean vs, r)"
      by (rule read_elements_written) (use JArray False n in \<open>auto simp: json_array_def\<close>)
    then show ?thesis using first by (simp add: n json_array_def)
  qed (simp add: n json_array_def)
next
  case (JObject ms)
  from JObject.prems obtain m where n: "n = Suc m" by (cases n) (auto simp: json_object_def)
  have written: "map (\<lambda>(k, v). json_string k @ CHR '':'' # v) (map (map_prod id jwrite) ms) =
      map (\<lambda>(k, v). json_string k @ CHR '':'' # jwrite v) ms" by auto
  have form: "jwrite (JObject ms) = CHR ''{'' # Join (map (\<lambda>(k, v). json_string k @ CHR '':'' # jwrite v) ms) CHR '','' @ ''}''"
    by (simp only: jwrite.simps json_object_def written)
  show ?case
  proof (cases "ms = []")
    case False
    have "\<exists>t. hd (map (\<lambda>(k, v). json_string k @ CHR '':'' # jwrite v) ms) = CHR 0x22 # t"
      using False by (cases ms) (auto simp: json_string_def)
    then obtain t where first: "Join (map (\<lambda>(k, v). json_string k @ CHR '':'' # jwrite v) ms) CHR '','' = CHR 0x22 # t"
      using Join_start [of "map (\<lambda>(k, v). json_string k @ CHR '':'' # jwrite v) ms"] False by (metis list.map_disc_iff)
    have "read_members m (Join (map (\<lambda>(k, v). json_string k @ CHR '':'' # jwrite v) ms) CHR '','' @ CHR ''}'' # r) =
        Some (map (\<lambda>(k, v). (to_valid k, clean v)) ms, r)"
    proof (rule read_members_written)
      show "length (Join (map (\<lambda>(k, v). json_string k @ CHR '':'' # jwrite v) ms) CHR '','') < m"
        using JObject.prems n unfolding form by simp
    qed (use JObject.IH False in auto)
    moreover have "clean (JObject ms) = JObject (map (\<lambda>(k, v). (to_valid k, clean v)) ms)" by auto
    ultimately show ?thesis using first unfolding form n by simp
  qed (simp add: n json_object_def)
qed

text \<open>The document an event and a batch are.\<close>

definition event_document :: "event \<Rightarrow> jvalue" where
  "event_document e =
     JObject ([(''id'', JString (ev_ID e)), (''source'', JString (ev_Source e)),
        (''observedAt'', JString (RFC3339Nano (ObservedAt e))),
        (''subscriptions'', JArray (map JString (Subscriptions e))),
        (''scheme'', JString (ev_Scheme e)),
        (''epc'', JString (hex_EncodeToString (ev_EPC e))),
        (''identity'', JObject [(''authority'', JString (ri_Authority (ev_Identity e))),
           (''keyType'', JString (ri_KeyType (ev_Identity e))),
           (''components'', JObject (map (map_prod id JString) (sort_key fst (ri_Components (ev_Identity e)))))])] @
        (if ev_PureIdentityURI e = [] then [] else [(''pureIdentityURI'', JString (ev_PureIdentityURI e))]))"

definition batch_document :: "string \<Rightarrow> event list \<Rightarrow> jvalue" where
  "batch_document i es =
     JObject [(''schema'', JString ''tagstrak.report.v1''), (''batch'', JString i), (''events'', JArray (map event_document es))]"

lemma encodeEvent_document: "encodeEvent e = Inr (jwrite (event_document e))"
  by (simp add: encodeEvent_def event_document_def json_map_def comp_def split_def map_prod_def)

lemma encodeBatch_document: "encodeBatch i (map (\<lambda>e. jwrite (event_document e)) es) = jwrite (batch_document i es)"
proof -
  have "json_string ''schema'' = [CHR 0x22] @ ''schema'' @ [CHR 0x22]" "json_string ''batch'' = [CHR 0x22] @ ''batch'' @ [CHR 0x22]"
    "json_string ''events'' = [CHR 0x22] @ ''events'' @ [CHR 0x22]" "json_string Schema = [CHR 0x22] @ Schema @ [CHR 0x22]"
    by code_simp+
  then show ?thesis
    unfolding encodeBatch_def batch_events_Join batch_document_def
    by (simp add: json_object_def json_array_def Schema_def comp_def)
qed

section \<open>Properties\<close>

text \<open>
  C34. A report reads back as what it reports: encoding never fails, and a reader of JSON that starts at
  the body of a batch ends exactly where the body ends and finds the schema, the batch identifier
  and the events in order, each with its identifier, source, time, subscriptions, scheme, EPC in
  hexadecimal, identity with its components in the order of their names, and its Pure Identity URI
  where it has one: every field under its own name, nothing else and nothing twice, whatever bytes
  the strings have, so no value can break out of its field. Bytes that are not UTF-8 read as U+FFFD;
  valid text reads unchanged.
\<close>

theorem report_reads_back:
  "\<exists>bodies. map encodeEvent es = map Inr bodies \<and>
     read_json (encodeBatch i bodies @ r) = Some (clean (batch_document i es), r) \<and>
     (if utf8_valid s then to_valid s = s else True)"
proof (intro exI conjI)
  show "map encodeEvent es = map Inr (map (\<lambda>e. jwrite (event_document e)) es)" by (simp add: encodeEvent_document)
  show "read_json (encodeBatch i (map (\<lambda>e. jwrite (event_document e)) es) @ r) = Some (clean (batch_document i es), r)"
    unfolding encodeBatch_document read_json_def by (rule read_written) simp
  show "if utf8_valid s then to_valid s = s else True" by (simp add: to_valid_id)
qed

lemma batch_size:
  "events \<noteq> [] \<Longrightarrow> length (encodeBatch i events) + 1 = batchEnvelope i + sum_list (map (\<lambda>e. length e + 1) events)"
  using length_Join [of events "CHR '',''"] unfolding batchEnvelope_def encodeBatch_def batch_events_Join by simp

lemma leap_day: "RFC3339Nano (738944 * 86400000000000 + 45296500000000) = ''2024-02-29T12:34:56.5Z''"
  by code_simp

end
