(* ===== verification/State_Store.thy ===== *)
theory State_Store
  imports Subscriptions Report_Encode
begin

text \<open>
  The subscription state file: \<^verbatim>\<open>src/internal/config/state.go\<close> and the \<open>StateStore\<close> of
  \<^verbatim>\<open>src/internal/app/tagstrak/configure.go\<close>, on a file system that can fail at every call and lose
  what was not synced. JSON is a parameter: \<open>marshal\<close> is \<^verbatim>\<open>json.MarshalIndent\<close> with the newline after
  it, \<open>unmarshal\<close> the strict decoder up to the end of the input. A file's content is a list of any
  kind of byte. Permission bits are not modelled.
\<close>

section \<open>A file system that can crash\<close>

text \<open>
  The directory of the state file maps names to files, and files to contents. A crash keeps the
  content of a file that was synced and may leave anything in one that was not; and it may bring
  back any directory since the last one that was synced.
\<close>

record 'b disk =
  dk_dir :: "string \<Rightarrow> nat option"
  dk_old :: "(string \<Rightarrow> nat option) list"
  dk_data :: "nat \<Rightarrow> 'b list"
  dk_synced :: "nat \<Rightarrow> bool"
  dk_next :: nat

definition set_dir :: "(string \<Rightarrow> nat option) \<Rightarrow> 'b disk \<Rightarrow> 'b disk" where
  "set_dir dir d = d\<lparr>dk_dir := dir, dk_old := dk_dir d # dk_old d\<rparr>"

definition create :: "string \<Rightarrow> 'b disk \<Rightarrow> 'b disk" where
  "create name d =
     (set_dir ((dk_dir d)(name \<mapsto> dk_next d)) d)\<lparr>dk_next := dk_next d + 1, dk_data := (dk_data d)(dk_next d := []),
        dk_synced := (dk_synced d)(dk_next d := False)\<rparr>"

definition write_file :: "nat \<Rightarrow> 'b list \<Rightarrow> 'b disk \<Rightarrow> 'b disk" where
  "write_file i body d = d\<lparr>dk_data := (dk_data d)(i := body), dk_synced := (dk_synced d)(i := False)\<rparr>"

definition sync_file :: "nat \<Rightarrow> 'b disk \<Rightarrow> 'b disk" where
  "sync_file i d = d\<lparr>dk_synced := (dk_synced d)(i := True)\<rparr>"

definition remove_name :: "string \<Rightarrow> 'b disk \<Rightarrow> 'b disk" where
  "remove_name name d = (if dk_dir d name = None then d else set_dir ((dk_dir d)(name := None)) d)"

definition rename :: "string \<Rightarrow> string \<Rightarrow> 'b disk \<Rightarrow> 'b disk" where
  "rename from' to' d = set_dir ((dk_dir d)(to' := dk_dir d from', from' := None)) d"

definition sync_dir :: "'b disk \<Rightarrow> 'b disk" where
  "sync_dir d = d\<lparr>dk_old := []\<rparr>"

definition read_name :: "'b disk \<Rightarrow> string \<Rightarrow> 'b list option" where
  "read_name d name = map_option (dk_data d) (dk_dir d name)"

text \<open>What may be read under a name after a crash.\<close>

definition may_read :: "'b disk \<Rightarrow> string \<Rightarrow> 'b list option \<Rightarrow> bool" where
  "may_read d name content \<longleftrightarrow>
     (\<exists>dir \<in> set (dk_dir d # dk_old d).
        case dir name of
          None \<Rightarrow> content = None
        | Some i \<Rightarrow> dk_synced d i \<longrightarrow> content = Some (dk_data d i))"

section \<open>The state file\<close>

definition MaxFileBytes :: nat where "MaxFileBytes = 1048576"
definition Version :: int where "Version = 1"

record subscription_state =
  sts_Version :: int
  sts_Revision :: u64
  sts_Subscriptions :: sub_spec

datatype state_error = StateTooLarge | StateNotWritten | StateUnreadable | StateInvalid

text \<open>Which calls fail; \<open>ft_random\<close> is the random part of the temporary name, \<open>ft_write\<close> what a failed write leaves.\<close>

record 'b faults =
  ft_random :: string
  ft_create :: bool
  ft_chmod :: bool
  ft_write :: "'b list option"
  ft_sync :: bool
  ft_close :: bool
  ft_rename :: bool
  ft_dirsync :: bool

definition temp_name :: "string \<Rightarrow> string \<Rightarrow> string" where
  "temp_name base random = ''.'' @ base @ ''.'' @ random @ ''.tmp''"

text \<open>
  \<open>WriteState\<close>: the error and every state of the disk it goes through, the last one first.
\<close>

definition write_steps :: "string \<Rightarrow> 'b list \<Rightarrow> 'b faults \<Rightarrow> 'b disk \<Rightarrow> state_error option \<times> 'b disk list" where
  "write_steps base body ft d =
     (let name = temp_name base (ft_random ft) in
      if ft_create ft \<or> dk_dir d name \<noteq> None then (Some StateNotWritten, [d])
      else let i = dk_next d; d1 = create name d;
               failed = (\<lambda>ds. (Some StateNotWritten, remove_name name (hd ds) # ds))
      in if ft_chmod ft then failed [d1, d]
      else case ft_write ft of
        Some part \<Rightarrow> failed [write_file i part d1, d1, d]
      | None \<Rightarrow>
          let d2 = write_file i body d1 in
          if ft_sync ft then failed [d2, d1, d]
          else let d3 = sync_file i d2 in
          if ft_close ft then failed [d3, d2, d1, d]
          else if ft_rename ft then failed [d3, d2, d1, d]
          else let d4 = rename name base d3; d5 = (if ft_dirsync ft then d4 else sync_dir d4) in
          (None, [remove_name name d5, d5, d4, d3, d2, d1, d]))"

definition WriteState ::
  "(subscription_state \<Rightarrow> 'b list) \<Rightarrow> string \<Rightarrow> subscription_state \<Rightarrow> 'b faults \<Rightarrow> 'b disk \<Rightarrow>
     state_error option \<times> 'b disk list" where
  "WriteState marshal base s ft d =
     (let body = marshal (s\<lparr>sts_Version := Version\<rparr>) in
      if length body > MaxFileBytes then (Some StateTooLarge, [d]) else write_steps base body ft d)"

definition validateSubscriptions :: "sub_spec \<Rightarrow> bool" where
  "validateSubscriptions spec \<longleftrightarrow> list_all (\<lambda>s. cs_ID s \<noteq> [] \<and> length (cs_Patterns s) \<noteq> 0) spec"

definition decodeState :: "('b list \<Rightarrow> subscription_state option) \<Rightarrow> 'b list \<Rightarrow> state_error + subscription_state" where
  "decodeState unmarshal body =
     (case unmarshal body of
        None \<Rightarrow> Inl StateInvalid
      | Some s \<Rightarrow>
          if sts_Version s \<noteq> Version then Inl StateInvalid
          else if \<not> validateSubscriptions (sts_Subscriptions s) then Inl StateInvalid
          else Inr s)"

text \<open>What reading the file under the path gives: it does not exist, it cannot be read, or its bytes.\<close>

datatype 'b read_result = NotThere | NotReadable | FileBytes "'b list"

definition LoadState ::
  "('b list \<Rightarrow> subscription_state option) \<Rightarrow> 'b read_result \<Rightarrow> state_error + subscription_state" where
  "LoadState unmarshal content =
     (case content of
        NotThere \<Rightarrow> Inr \<lparr>sts_Version = Version, sts_Revision = 0, sts_Subscriptions = []\<rparr>
      | NotReadable \<Rightarrow> Inl StateUnreadable
      | FileBytes body \<Rightarrow>
          if length body > MaxFileBytes then Inl StateUnreadable else decodeState unmarshal body)"

text \<open>\<open>Save\<close> is the commit of a replacement; the world it changes is the disk.\<close>

definition Save ::
  "(subscription_state \<Rightarrow> 'b list) \<Rightarrow> string \<Rightarrow> 'b faults \<Rightarrow> (state_error, 'b disk) commit" where
  "Save marshal base ft revision spec d =
     (let (err, ds) = WriteState marshal base
        \<lparr>sts_Version = 0, sts_Revision = revision, sts_Subscriptions = spec\<rparr> ft d in (err, hd ds))"

section \<open>Facts: replacing the file\<close>

text \<open>The disk is in order: file numbers are used once, and no directory names one not yet used.\<close>

definition disk_ok :: "'b disk \<Rightarrow> bool" where
  "disk_ok d \<longleftrightarrow> (\<forall>dir \<in> set (dk_dir d # dk_old d). \<forall>name i. dir name = Some i \<longrightarrow> i < dk_next d)"

text \<open>Under \<open>base\<close> only contents of \<open>C\<close> can be read, before and after a crash.\<close>

definition sees :: "string \<Rightarrow> 'b list option set \<Rightarrow> 'b disk \<Rightarrow> (string \<Rightarrow> nat option) \<Rightarrow> bool" where
  "sees base C d dir \<longleftrightarrow>
     (case dir base of None \<Rightarrow> None \<in> C | Some i \<Rightarrow> dk_synced d i \<and> Some (dk_data d i) \<in> C)"

definition safe :: "string \<Rightarrow> 'b list option set \<Rightarrow> 'b disk \<Rightarrow> bool" where
  "safe base C d \<longleftrightarrow> disk_ok d \<and> (\<forall>dir \<in> set (dk_dir d # dk_old d). sees base C d dir)"

lemma safe_may_read: "safe base C d \<Longrightarrow> may_read d base content \<Longrightarrow> content \<in> C"
  by (auto simp: safe_def sees_def may_read_def split: option.splits)

lemma safe_read: "safe base C d \<Longrightarrow> read_name d base \<in> C"
  by (auto simp: safe_def sees_def read_name_def split: option.splits)

lemma safe_mono: "safe base C d \<Longrightarrow> C \<subseteq> C' \<Longrightarrow> safe base C' d"
  by (auto simp: safe_def sees_def split: option.splits)

lemma temp_name_other: "temp_name base random \<noteq> base"
proof
  assume "temp_name base random = base"
  from arg_cong [OF this, of length] show False by (simp add: temp_name_def)
qed

text \<open>A file that no directory has under \<open>base\<close> can be written without touching what \<open>base\<close> reads.\<close>

definition apart :: "string \<Rightarrow> nat \<Rightarrow> 'b disk \<Rightarrow> bool" where
  "apart base i d \<longleftrightarrow> i < dk_next d \<and> (\<forall>dir \<in> set (dk_dir d # dk_old d). dir base \<noteq> Some i)"

lemma sees_cong: "dir base = dir' base \<Longrightarrow> sees base C d dir = sees base C d dir'"
  by (simp add: sees_def)

text \<open>A change of files that leaves those under \<open>base\<close> alone, and a change of the directory that does.\<close>

lemma same_files_safe:
  assumes "safe base C d" "dk_dir d' = dk_dir d" "dk_old d' = dk_old d" "dk_next d' = dk_next d"
    "\<And>dir i. dir \<in> set (dk_dir d # dk_old d) \<Longrightarrow> dir base = Some i \<Longrightarrow>
       dk_synced d' i = dk_synced d i \<and> dk_data d' i = dk_data d i"
  shows "safe base C d'" "read_name d' base = read_name d base"
proof -
  have "sees base C d' dir = sees base C d dir" if "dir \<in> set (dk_dir d # dk_old d)" for dir
    using assms(5) [OF that] by (auto simp: sees_def split: option.split)
  then show "safe base C d'" using assms(1-4) by (simp add: safe_def disk_ok_def)
  show "read_name d' base = read_name d base"
    using assms(2) assms(5) [of "dk_dir d"] by (cases "dk_dir d base") (simp_all add: read_name_def)
qed

lemma sees_set_dir [simp]: "sees base C (set_dir dir d) x = sees base C d x"
  by (simp add: sees_def set_dir_def split: option.split)

lemma read_set_dir: "dir base = dk_dir d base \<Longrightarrow> read_name (set_dir dir d) base = read_name d base"
  by (simp add: read_name_def set_dir_def)

lemma set_dir_safe:
  assumes "safe base C d" "sees base C d dir" "\<And>name i. dir name = Some i \<Longrightarrow> i < dk_next d"
  shows "safe base C (set_dir dir d)"
proof -
  have "disk_ok (set_dir dir d)" using assms(1,3) by (auto simp: safe_def disk_ok_def set_dir_def)
  moreover have "set (dk_dir (set_dir dir d) # dk_old (set_dir dir d)) = insert dir (set (dk_dir d # dk_old d))"
    by (simp add: set_dir_def)
  ultimately show ?thesis using assms(1,2) by (simp only: safe_def sees_set_dir) simp
qed

lemma safe_sees: "safe base C d \<Longrightarrow> dir base = dk_dir d base \<Longrightarrow> sees base C d dir"
  using sees_cong [of dir base "dk_dir d" C d] by (simp add: safe_def)

lemma disk_okD: "disk_ok d \<Longrightarrow> dir \<in> set (dk_dir d # dk_old d) \<Longrightarrow> dir name = Some i \<Longrightarrow> i < dk_next d"
  by (auto simp: disk_ok_def)

lemma safe_disk_ok: "safe base C d \<Longrightarrow> disk_ok d"
  by (simp add: safe_def)

lemma create_safe:
  assumes "safe base C d" "name \<noteq> base"
  shows "safe base C (create name d)" "apart base (dk_next d) (create name d)"
    "dk_dir (create name d) name = Some (dk_next d)" "read_name (create name d) base = read_name d base"
proof -
  let ?i = "dk_next d"
  let ?d = "d\<lparr>dk_next := ?i + 1, dk_data := (dk_data d)(?i := []), dk_synced := (dk_synced d)(?i := False)\<rparr>"
  have lt: "i < ?i" if "dir \<in> set (dk_dir d # dk_old d)" "dir x = Some i" for dir x i
    using disk_okD [OF safe_disk_ok [OF assms(1)] that] .
  have "sees base C ?d dir = sees base C d dir" if "dir \<in> set (dk_dir d # dk_old d)" for dir
    using lt [OF that] by (fastforce simp: sees_def split: option.split)
  then have d: "safe base C ?d" using assms(1) lt by (fastforce simp: safe_def disk_ok_def)
  have eq: "create name d = set_dir ((dk_dir d)(name \<mapsto> ?i)) ?d" by (simp add: create_def set_dir_def)
  have ok: "((dk_dir d)(name \<mapsto> ?i)) x = Some i \<Longrightarrow> i < dk_next ?d" for x i
    using lt [of "dk_dir d"] by (fastforce split: if_splits)
  show "safe base C (create name d)" unfolding eq
    by (rule set_dir_safe [OF d safe_sees [OF d] ok]) (use assms(2) in simp)
  have "read_name ?d base = read_name d base"
    using lt [of "dk_dir d" base] by (cases "dk_dir d base") (auto simp: read_name_def)
  then show "read_name (create name d) base = read_name d base"
    unfolding eq using read_set_dir [of "(dk_dir d)(name \<mapsto> ?i)" base ?d] assms(2) by simp
  show "dk_dir (create name d) name = Some ?i" by (simp add: create_def set_dir_def)
  show "apart base ?i (create name d)"
    using lt assms(2) by (fastforce simp: apart_def create_def set_dir_def)
qed

lemma write_safe:
  assumes "safe base C d" "apart base i d"
  shows "safe base C (write_file i body d)" "apart base i (write_file i body d)"
    "read_name (write_file i body d) base = read_name d base"
proof -
  show "safe base C (write_file i body d)" "read_name (write_file i body d) base = read_name d base"
    by (rule same_files_safe [OF assms(1)]; use assms(2) in \<open>auto simp: write_file_def apart_def\<close>)+
qed (use assms(2) in \<open>simp add: apart_def write_file_def\<close>)

lemma sync_safe:
  assumes "safe base C d" "apart base i d"
  shows "safe base C (sync_file i d)" "apart base i (sync_file i d)" "read_name (sync_file i d) base = read_name d base"
proof -
  show "safe base C (sync_file i d)" "read_name (sync_file i d) base = read_name d base"
    by (rule same_files_safe [OF assms(1)]; use assms(2) in \<open>auto simp: sync_file_def apart_def\<close>)+
qed (use assms(2) in \<open>simp add: apart_def sync_file_def\<close>)

lemma remove_safe:
  assumes "safe base C d" "name \<noteq> base"
  shows "safe base C (remove_name name d)" "read_name (remove_name name d) base = read_name d base"
proof -
  have ok: "((dk_dir d)(name := None)) x = Some i \<Longrightarrow> i < dk_next d" for x i
    using disk_okD [OF safe_disk_ok [OF assms(1)], of "dk_dir d"] by (simp split: if_splits)
  have "safe base C (set_dir ((dk_dir d)(name := None)) d)"
    by (rule set_dir_safe [OF assms(1) safe_sees [OF assms(1)] ok]) (use assms(2) in simp)
  then show "safe base C (remove_name name d)" using assms(1) by (simp add: remove_name_def)
  show "read_name (remove_name name d) base = read_name d base"
    using assms(2) by (simp add: remove_name_def read_set_dir)
qed

lemma rename_safe:
  assumes "safe base C d" "apart base i d" "dk_dir d name = Some i" "dk_synced d i" "name \<noteq> base"
  shows "safe base (insert (Some (dk_data d i)) C) (rename name base d)"
    "read_name (rename name base d) base = Some (dk_data d i)" "dk_dir (rename name base d) name = None"
proof -
  let ?C = "insert (Some (dk_data d i)) C"
  let ?dir = "(dk_dir d)(base := dk_dir d name, name := None)"
  have d: "safe base ?C d" using assms(1) by (rule safe_mono) auto
  have "?dir base = Some i" using assms(3,5) by simp
  then have sees: "sees base ?C d ?dir" using assms(4) by (simp only: sees_def option.case) simp
  have ok: "j < dk_next d" if "?dir x = Some j" for x j
    using that assms(2,3) disk_okD [OF safe_disk_ok [OF assms(1)], of "dk_dir d"] by (auto simp: apart_def split: if_splits)
  show "safe base ?C (rename name base d)" unfolding rename_def by (rule set_dir_safe [OF d sees ok])
  show "read_name (rename name base d) base = Some (dk_data d i)" "dk_dir (rename name base d) name = None"
    using assms(3,5) by (simp_all add: read_name_def rename_def set_dir_def)
qed

lemma sync_dir_safe:
  assumes "safe base C d"
  shows "safe base C (sync_dir d)" "read_name (sync_dir d) base = read_name d base"
    "safe base {read_name d base} (sync_dir d)"
  using assms by (auto simp: safe_def sees_def disk_ok_def sync_dir_def read_name_def split: option.splits)

lemma write_steps_safe:
  assumes safe: "safe base C d" and w: "write_steps base body ft d = (err, ds)"
  shows "ds \<noteq> [] \<and> (case err of
      Some _ \<Rightarrow> list_all (safe base C) ds \<and> read_name (hd ds) base = read_name d base
    | None \<Rightarrow> list_all (safe base (insert (Some body) C)) ds \<and> read_name (hd ds) base = Some body \<and>
        (\<not> ft_dirsync ft \<longrightarrow> safe base {Some body} (hd ds)))"
proof (cases "ft_create ft \<or> dk_dir d (temp_name base (ft_random ft)) \<noteq> None")
  case True
  then show ?thesis using w safe by (auto simp: write_steps_def Let_def)
next
  case False
  let ?name = "temp_name base (ft_random ft)" and ?i = "dk_next d"
  define d1 where "d1 = create ?name d"
  define d2 where "d2 = write_file ?i body d1"
  define d3 where "d3 = sync_file ?i d2"
  define d4 where "d4 = rename ?name base d3"
  define d5 where "d5 = (if ft_dirsync ft then d4 else sync_dir d4)"
  note other = temp_name_other [of base "ft_random ft"]
  note d1 = create_safe [OF safe other, folded d1_def]
  note d2 = write_safe [OF d1(1,2), of body, folded d2_def] and part = write_safe [OF d1(1,2)]
  note d3 = sync_safe [OF d2(1,2), folded d3_def]
  have at3: "dk_dir d3 ?name = Some ?i" "dk_synced d3 ?i" "dk_data d3 ?i = body"
    using d1(3) by (simp_all add: d3_def d2_def sync_file_def write_file_def)
  note d4 = rename_safe [OF d3(1,2) at3(1,2) other, unfolded at3(3), folded d4_def]
  have d5: "safe base (insert (Some body) C) d5" "read_name d5 base = Some body" "\<not> ft_dirsync ft \<Longrightarrow> safe base {Some body} d5"
    "dk_dir d5 ?name = None"
    using d4 sync_dir_safe [OF d4(1)] by (auto simp: d5_def sync_dir_def)
  have keep: "remove_name ?name d5 = d5" using d5(4) by (simp add: remove_name_def)
  note gone = remove_safe [OF _ other]
  have up: "safe base (insert (Some body) C) x" if "safe base C x" for x using that by (rule safe_mono) auto
  have "write_steps base body ft d =
     (if ft_chmod ft then (Some StateNotWritten, [remove_name ?name d1, d1, d])
      else case ft_write ft of
        Some p \<Rightarrow> (Some StateNotWritten, [remove_name ?name (write_file ?i p d1), write_file ?i p d1, d1, d])
      | None \<Rightarrow>
          if ft_sync ft then (Some StateNotWritten, [remove_name ?name d2, d2, d1, d])
          else if ft_close ft \<or> ft_rename ft then (Some StateNotWritten, [remove_name ?name d3, d3, d2, d1, d])
          else (None, [d5, d5, d4, d3, d2, d1, d]))"
    using False keep [unfolded d5_def]
    by (cases "ft_dirsync ft")
      (simp_all add: write_steps_def Let_def d5_def flip: d1_def d2_def d3_def d4_def split: option.split)
  moreover have "safe base C (remove_name ?name x) \<and> read_name (remove_name ?name x) base = read_name d base"
    if "safe base C x" "read_name x base = read_name d base" for x
    using gone [OF that(1)] that(2) by simp
  ultimately show ?thesis
    using w by (simp split: if_splits option.splits) (use safe d1(1,4) d2(1,3) d3(1,3) part d4(1) d5 up in auto)
qed

lemma WriteState_safe:
  assumes "safe base C d" "WriteState marshal base s ft d = (err, ds)"
  shows "ds \<noteq> [] \<and> (case err of
      Some _ \<Rightarrow> list_all (safe base C) ds \<and> read_name (hd ds) base = read_name d base
    | None \<Rightarrow> (let content = Some (marshal (s\<lparr>sts_Version := Version\<rparr>)) in
        length (marshal (s\<lparr>sts_Version := Version\<rparr>)) \<le> MaxFileBytes \<and>
        list_all (safe base (insert content C)) ds \<and> read_name (hd ds) base = content \<and>
        (\<not> ft_dirsync ft \<longrightarrow> safe base {content} (hd ds))))"
proof (cases "length (marshal (s\<lparr>sts_Version := Version\<rparr>)) > MaxFileBytes")
  case True
  then show ?thesis using assms by (auto simp: WriteState_def Let_def)
next
  case False
  then have "write_steps base (marshal (s\<lparr>sts_Version := Version\<rparr>)) ft d = (err, ds)"
    using assms(2) by (simp add: WriteState_def Let_def)
  from write_steps_safe [OF assms(1) this] False show ?thesis by (simp add: Let_def split: option.splits)
qed

section \<open>The table and its file\<close>

text \<open>
  A start: the state is loaded from what the file holds and published as a new table, \<^verbatim>\<open>BuildFile\<close>. The
  file is there and readable, or not there.
\<close>

definition file_read :: "'b list option \<Rightarrow> 'b read_result" where
  "file_read content = (case content of None \<Rightarrow> NotThere | Some body \<Rightarrow> FileBytes body)"

definition start ::
  "('b list \<Rightarrow> subscription_state option) \<Rightarrow> string list \<Rightarrow> compiler \<Rightarrow> 'b list option \<Rightarrow> subscription_table option" where
  "start unmarshal dests compile content =
     (case LoadState unmarshal (file_read content) of
        Inl _ \<Rightarrow> None
      | Inr s \<Rightarrow>
          (case (table_Load (sts_Subscriptions s) (sts_Revision s) (NewSubscriptionTableWith dests compile)
             :: unit table_error option \<times> subscription_table) of
             (None, t) \<Rightarrow> Some t
           | (Some _, _) \<Rightarrow> None))"

text \<open>A replacement through the API, and the disks it goes through when it is saved.\<close>

type_synonym 'b save_request = "sub_spec \<times> u64 option \<times> 'b faults"

definition replace_saved ::
  "(subscription_state \<Rightarrow> 'b list) \<Rightarrow> string \<Rightarrow> 'b save_request \<Rightarrow> subscription_table \<times> 'b disk \<Rightarrow>
     subscription_table \<times> 'b disk" where
  "replace_saved marshal base = (\<lambda>(spec, expected, ft) s.
     snd (table_Replace spec expected (Some (Save marshal base ft)) s))"

definition empty_disk :: "'b disk" where
  "empty_disk = \<lparr>dk_dir = Map.empty, dk_old = [], dk_data = (\<lambda>_. []), dk_synced = (\<lambda>_. False), dk_next = 0\<rparr>"

definition readable :: "sub_spec \<Rightarrow> bool" where
  "readable = list_all (\<lambda>s. list_all utf8_valid (cs_ID s # cs_Patterns s @ cs_Destinations s))"

definition state_of :: "subscription_table \<Rightarrow> subscription_state" where
  "state_of t = \<lparr>sts_Version = Version, sts_Revision = sn_revision (tb_current t), sts_Subscriptions = sn_spec (tb_current t)\<rparr>"

text \<open>The table and the content of its file agree.\<close>

definition restored ::
  "(subscription_state \<Rightarrow> 'b list) \<Rightarrow> string list \<Rightarrow> compiler \<Rightarrow> subscription_table \<Rightarrow> 'b list option \<Rightarrow> bool" where
  "restored marshal dests compile t content \<longleftrightarrow>
     snapshot_ok t \<and> tb_newMatcher t = compile \<and> tb_destinations t = remdups dests \<and> readable (sn_spec (tb_current t)) \<and>
     (case content of
        None \<Rightarrow> t = NewSubscriptionTableWith dests compile
      | Some body \<Rightarrow> body = marshal (state_of t) \<and> length body \<le> MaxFileBytes)"

lemma snapshot_ok_Load:
  assumes "snapshot_ok t" "tb_newMatcher t = compile" "tb_destinations t = remdups dests"
  shows "(table_Load (sn_spec (tb_current t)) (sn_revision (tb_current t)) (NewSubscriptionTableWith dests compile)
    :: 'e table_error option \<times> subscription_table) = (None, t)"
proof -
  have "(compile_table (NewSubscriptionTableWith dests compile) (sn_spec (tb_current t)) (sn_revision (tb_current t))
      :: 'e table_error + snapshot) = Inr (tb_current t)"
    using assms unfolding snapshot_ok_iff compile_table_Inr
    by (cases "tb_current t") (auto simp: Let_def NewSubscriptionTableWith_def)
  then show ?thesis
    using assms(2,3) by (cases t) (simp add: table_Load_def NewSubscriptionTableWith_def)
qed

lemma snapshot_ok_valid: "snapshot_ok t \<Longrightarrow> validateSubscriptions (sn_spec (tb_current t))"
  unfolding snapshot_ok_iff by (auto simp: Let_def validateSubscriptions_def spec_ok_def list_all_iff)

lemma start_restored:
  assumes r: "restored marshal dests compile t content"
    and json: "\<And>s. sts_Version s = Version \<Longrightarrow> readable (sts_Subscriptions s) \<Longrightarrow> unmarshal (marshal s) = Some s"
  shows "start unmarshal dests compile content = Some t"
proof -
  have ok: "snapshot_ok t" "tb_newMatcher t = compile" "tb_destinations t = remdups dests" "readable (sn_spec (tb_current t))"
    using r by (simp_all add: restored_def)
  have "LoadState unmarshal (file_read content) = Inr (state_of t)"
  proof (cases content)
    case None
    then show ?thesis using r by (simp add: restored_def LoadState_def file_read_def state_of_def NewSubscriptionTableWith_def)
  next
    case (Some body)
    have "body = marshal (state_of t)" "length (marshal (state_of t)) \<le> MaxFileBytes"
      using r Some by (auto simp: restored_def)
    then show ?thesis using Some json [of "state_of t"] ok(4) snapshot_ok_valid [OF ok(1)]
      by (simp add: LoadState_def file_read_def decodeState_def state_of_def)
  qed
  then show ?thesis by (simp add: start_def state_of_def snapshot_ok_Load [OF ok(1-3)])
qed

lemma restored_new: "is_ok (compile []) \<Longrightarrow> restored marshal dests compile (NewSubscriptionTableWith dests compile) None"
  by (simp add: restored_def NewSubscriptionTableWith_ok) (simp add: NewSubscriptionTableWith_def readable_def)

text \<open>A snapshot saved by a replacement.\<close>

lemma restored_next:
  assumes "restored marshal dests compile t content"
    and "(compile_table t spec r :: 'e table_error + snapshot) = Inr sn" "readable spec"
    and "length (marshal (state_of (t\<lparr>tb_current := sn\<rparr>))) \<le> MaxFileBytes"
  shows "restored marshal dests compile (t\<lparr>tb_current := sn\<rparr>) (Some (marshal (state_of (t\<lparr>tb_current := sn\<rparr>))))"
proof -
  have "sn_spec sn = spec" using assms(2) unfolding compile_table_Inr by auto
  then show ?thesis using assms compile_table_ok [OF assms(2)] by (simp add: restored_def)
qed

lemma state_of_next:
  assumes "(compile_table t spec r :: 'e table_error + snapshot) = Inr sn"
  shows "state_of (t\<lparr>tb_current := sn\<rparr>) = \<lparr>sts_Version = Version, sts_Revision = r, sts_Subscriptions = spec\<rparr>"
  using assms unfolding compile_table_Inr by (auto simp: state_of_def)

lemma replace_saved_step:
  assumes r: "restored marshal dests compile t (read_name d base)" "safe base C d" and u: "readable spec"
    and s: "replace_saved marshal base (spec, expected, ft) (t, d) = (t', d')"
  shows "restored marshal dests compile t' (read_name d' base) \<and> (\<exists>C'. safe base C' d') \<and>
    (\<not> ft_dirsync ft \<longrightarrow> safe base {read_name d base} d \<longrightarrow> safe base {read_name d' base} d')"
proof (cases "(t', d') = (t, d)")
  case False
  then obtain sn where sn: "(compile_table t spec (sn_revision (tb_current t) + 1) :: state_error table_error + snapshot) = Inr sn"
    using s by (auto simp: replace_saved_def table_Replace_def publish_def Let_def split: option.splits if_splits sum.splits)
  define new where "new = \<lparr>sts_Version = 0, sts_Revision = sn_revision (tb_current t) + 1, sts_Subscriptions = spec\<rparr>"
  have at_sn: "sn_revision sn = sn_revision (tb_current t) + 1" "sn_spec sn = spec" "new\<lparr>sts_Version := Version\<rparr> = state_of (t\<lparr>tb_current := sn\<rparr>)"
    using sn state_of_next [OF sn] unfolding compile_table_Inr by (auto simp: new_def)
  obtain err ds where w: "WriteState marshal base new ft d = (err, ds)" by fastforce
  have t': "d' = hd ds" "t' = (if err = None then t\<lparr>tb_current := sn\<rparr> else t)"
    using s False by (auto simp: replace_saved_def table_Replace_def publish_def Let_def sn Save_def at_sn(1,2) w
        simp flip: new_def split: option.splits if_splits)
  note safe = WriteState_safe [OF _ w, unfolded at_sn(3) Let_def]
  show ?thesis
  proof (cases err)
    case None
    then show ?thesis
      using safe [OF r(2)] safe [of "{read_name d base}"] restored_next [OF r(1) sn u] t' by (cases ds) auto
  next
    case (Some e)
    then show ?thesis
      using safe [OF r(2)] safe [of "{read_name d base}"] r(1) t' by (cases ds) auto
  qed
qed (use r in auto)

lemma replaces_saved:
  assumes "list_all (readable \<circ> fst) reqs" "restored marshal dests compile t (read_name d base)" "safe base C d"
    and "fold (replace_saved marshal base) reqs (t, d) = (t', d')"
  shows "restored marshal dests compile t' (read_name d' base) \<and> (\<exists>C'. safe base C' d') \<and>
    (list_all (\<lambda>(_, _, ft). \<not> ft_dirsync ft) reqs \<longrightarrow> safe base {read_name d base} d \<longrightarrow> safe base {read_name d' base} d')"
  using assms
proof (induction reqs arbitrary: t d C)
  case (Cons req reqs)
  obtain spec expected ft where req: "req = (spec, expected, ft)" by (cases req)
  obtain t1 d1 where s: "replace_saved marshal base (spec, expected, ft) (t, d) = (t1, d1)" by fastforce
  have "readable spec" using Cons.prems(1) by (simp add: req)
  note step = replace_saved_step [OF Cons.prems(2,3) this s]
  then obtain C1 where "safe base C1 d1" by blast
  from Cons.IH [OF _ _ this] step Cons.prems(1,4) show ?case by (auto simp: req s)
qed auto

lemma empty_disk_safe: "safe base {read_name empty_disk base} empty_disk" "read_name empty_disk base = None"
  by (simp_all add: safe_def disk_ok_def sees_def empty_disk_def read_name_def)

section \<open>Properties\<close>

text \<open>
  C6. Restarts: whatever replacements a deployment was asked for, with whatever preconditions and
  whatever calls of the file system failed on the way, the process that starts next from its state
  file publishes exactly the table the one before it had: the same specification at the same
  revision, compiled to the same matcher and routes. A replacement that was not saved is not
  published, and one that was saved always loads. The text of the subscriptions has to be valid
  UTF-8; JSON would replace what is not.
\<close>

theorem restart_restores_table:
  assumes "\<And>s. sts_Version s = Version \<Longrightarrow> readable (sts_Subscriptions s) \<Longrightarrow> unmarshal (marshal s) = Some s"
    and "compilers name = Some compile" "list_all (readable \<circ> fst) reqs"
    and "fold (replace_saved marshal base) reqs (NewSubscriptionTableWith dests compile, empty_disk) = (t, d)"
  shows "start unmarshal dests compile (read_name d base) = Some t"
proof -
  have "is_ok (compile [])"
    using live_table.new_ok [OF live_tables [OF assms(2)], of dests]
    by (auto simp: snapshot_ok_iff NewSubscriptionTableWith_def Let_def is_ok_iff)
  then have "restored marshal dests compile (NewSubscriptionTableWith dests compile) (read_name empty_disk base)"
    by (simp add: restored_new empty_disk_safe(2))
  from replaces_saved [OF assms(3) this empty_disk_safe(1) assms(4)]
  show ?thesis using start_restored [of marshal dests compile t "read_name d base" unmarshal] assms(1) by blast
qed

text \<open>
  C12. Crashes: as long as the directory could be synced, a crash at any moment of a replacement,
  also while its file is being written, leaves a file from which the next process starts with
  the table from before the replacement or with the one it asked for; never with nothing, and
  never with something else. The text of the subscriptions has to be valid UTF-8, here too.
\<close>

theorem crash_keeps_old_or_new:
  assumes "\<And>s. sts_Version s = Version \<Longrightarrow> readable (sts_Subscriptions s) \<Longrightarrow> unmarshal (marshal s) = Some s"
    and "compilers name = Some compile" "list_all (\<lambda>(spec, _, ft). readable spec \<and> \<not> ft_dirsync ft) reqs" "readable spec"
    and "fold (replace_saved marshal base) reqs (NewSubscriptionTableWith dests compile, empty_disk) = (t, d)"
    and "(compile_table t spec (sn_revision (tb_current t) + 1) :: state_error table_error + snapshot) = Inr next'"
    and "d' \<in> set (snd (WriteState marshal base
      \<lparr>sts_Version = 0, sts_Revision = sn_revision next', sts_Subscriptions = sn_spec next'\<rparr> ft d))"
    and "may_read d' base content"
  shows "start unmarshal dests compile content \<in> {Some t, Some (t\<lparr>tb_current := next'\<rparr>)}"
proof -
  have "is_ok (compile [])"
    using live_table.new_ok [OF live_tables [OF assms(2)], of dests]
    by (auto simp: snapshot_ok_iff NewSubscriptionTableWith_def Let_def is_ok_iff)
  then have "restored marshal dests compile (NewSubscriptionTableWith dests compile) (read_name empty_disk base)"
    by (simp add: restored_new empty_disk_safe(2))
  moreover have "list_all (readable \<circ> fst) reqs" "list_all (\<lambda>(_, _, ft). \<not> ft_dirsync ft) reqs"
    using assms(3) by (auto simp: list_all_iff)
  ultimately have r: "restored marshal dests compile t (read_name d base)" "safe base {read_name d base} d"
    using replaces_saved [OF _ _ empty_disk_safe(1) assms(5)] empty_disk_safe(1) by blast+
  obtain err ds where w: "WriteState marshal base
      \<lparr>sts_Version = 0, sts_Revision = sn_revision next', sts_Subscriptions = sn_spec next'\<rparr> ft d = (err, ds)" by fastforce
  have new: "\<lparr>sts_Version = Version, sts_Revision = sn_revision next', sts_Subscriptions = sn_spec next'\<rparr> =
      state_of (t\<lparr>tb_current := next'\<rparr>)" by (simp add: state_of_def)
  have "content = read_name d base \<or> content = Some (marshal (state_of (t\<lparr>tb_current := next'\<rparr>))) \<and>
      length (marshal (state_of (t\<lparr>tb_current := next'\<rparr>))) \<le> MaxFileBytes"
    using WriteState_safe [OF r(2) w] safe_may_read [OF _ assms(8)] assms(7) w
    by (cases err) (auto simp: Let_def list_all_iff new)
  then have "restored marshal dests compile t content \<or> restored marshal dests compile (t\<lparr>tb_current := next'\<rparr>) content"
    using r(1) restored_next [OF r(1) assms(6,4)] by blast
  then show ?thesis using start_restored [of marshal dests compile _ content unmarshal] assms(1) by blast
qed

text \<open>A deployment: one subscription saved, a second replacement whose write fails half way.\<close>

definition witness_spec :: sub_spec where
  "witness_spec = [\<lparr>cs_ID = ''shelf'', cs_Patterns = [''urn:epc:idpat:sgtin:0614141.*.*''], cs_Destinations = [''erp'']\<rparr>]"

definition good_disk :: "subscription_state faults" where
  "good_disk = \<lparr>ft_random = ''1'', ft_create = False, ft_chmod = False, ft_write = None, ft_sync = False, ft_close = False,
     ft_rename = False, ft_dirsync = False\<rparr>"

definition witness_start :: "subscription_table \<times> subscription_state disk" where
  "witness_start = fold (replace_saved (\<lambda>s. [s]) ''state.json'')
     [(witness_spec, Some 0, good_disk), ([], None, good_disk\<lparr>ft_write := Some []\<rparr>)]
     (NewSubscriptionTableWith [''erp''] CompileIndex, empty_disk)"

definition read_one :: "'s list \<Rightarrow> 's option" where
  "read_one b = (case b of [s] \<Rightarrow> Some s | _ \<Rightarrow> None)"

lemma witness_readable: "readable witness_spec"
  by code_simp

lemma index_compiler: "compilers ''index'' = Some CompileIndex"
  by (simp add: compilers_def)

lemma witness_revision: "table_Snapshot (fst witness_start) = (witness_spec, 1)"
  by code_simp

lemma restart_restores_table_witness:
  "start read_one [''erp''] CompileIndex (read_name (snd witness_start) ''state.json'') = Some (fst witness_start) \<and>
   table_Snapshot (fst witness_start) = (witness_spec, 1)"
proof -
  have "list_all (readable \<circ> fst) [(witness_spec, Some (0 :: u64), good_disk), ([], None, good_disk\<lparr>ft_write := Some []\<rparr>)]"
    using witness_readable by (simp add: readable_def)
  from restart_restores_table [OF _ index_compiler this, of read_one "\<lambda>s. [s]" "''state.json''" "[''erp'']"
      "fst witness_start" "snd witness_start"]
  show ?thesis using witness_revision by (simp add: read_one_def witness_start_def)
qed

definition crash_start :: "subscription_table \<times> subscription_state disk" where
  "crash_start = fold (replace_saved (\<lambda>s. [s]) ''state.json'') [([], None, good_disk)]
     (NewSubscriptionTableWith [''erp''] CompileIndex, empty_disk)"

definition crash_disks :: "subscription_state disk list" where
  "crash_disks = snd (WriteState (\<lambda>s. [s]) ''state.json''
     \<lparr>sts_Version = 0, sts_Revision = 2, sts_Subscriptions = []\<rparr> good_disk (snd crash_start))"

lemma crash_reads: "length crash_disks = 7 \<and> may_read (crash_disks ! 2) ''state.json'' (read_name (snd crash_start) ''state.json'')"
  by code_simp

lemma crash_compiles:
  "is_ok (compile_table (fst crash_start) [] (sn_revision (tb_current (fst crash_start)) + 1) :: state_error table_error + snapshot) \<and>
   sn_revision (tb_current (fst crash_start)) = 1"
  by code_simp

lemma crash_keeps_old_or_new_witness:
  "may_read (crash_disks ! 2) ''state.json'' (read_name (snd crash_start) ''state.json'') \<and>
   (\<exists>next'. (compile_table (fst crash_start) [] 2 :: state_error table_error + snapshot) = Inr next' \<and>
      start read_one [''erp''] CompileIndex (read_name (snd crash_start) ''state.json'') \<in>
        {Some (fst crash_start), Some (fst crash_start\<lparr>tb_current := next'\<rparr>)})"
proof -
  obtain next' where nx: "(compile_table (fst crash_start) [] 2 :: state_error table_error + snapshot) = Inr next'"
    using crash_compiles by (auto simp: is_ok_iff)
  then have at_next: "sn_revision next' = 2" "sn_spec next' = []" by (auto simp: compile_table_Inr)
  have "crash_disks ! 2 \<in> set (snd (WriteState (\<lambda>s. [s]) ''state.json'' \<lparr>sts_Version = 0, sts_Revision = 2, sts_Subscriptions = []\<rparr>
      good_disk (snd crash_start)))"
    using crash_reads nth_mem [of 2 crash_disks] by (simp add: crash_disks_def)
  moreover have "fold (replace_saved (\<lambda>s. [s]) ''state.json'') [([], None, good_disk)]
     (NewSubscriptionTableWith [''erp''] CompileIndex, empty_disk) = (fst crash_start, snd crash_start)"
    by (simp add: crash_start_def)
  ultimately have "start read_one [''erp''] CompileIndex (read_name (snd crash_start) ''state.json'') \<in>
        {Some (fst crash_start), Some (fst crash_start\<lparr>tb_current := next'\<rparr>)}"
    using crash_keeps_old_or_new [OF _ index_compiler, of read_one "\<lambda>s. [s]" "[([], None, good_disk)]" "[]" "''state.json''"
        "[''erp'']" "fst crash_start" "snd crash_start" next' "crash_disks ! 2" good_disk] crash_reads crash_compiles nx at_next
    by (simp add: read_one_def readable_def good_disk_def)
  then show ?thesis using crash_reads nx by blast
qed

end
