(* ===== verification/Control.thy ===== *)
theory Control
  imports State_Store
begin

text \<open>
  The management API: the listener rules of \<^verbatim>\<open>src/internal/control/listen.go\<close>, authentication and the
  connection limit of \<^verbatim>\<open>server.go\<close>, request bodies of \<^verbatim>\<open>request.go\<close>, and the handlers of
  \<^verbatim>\<open>src/internal/app/tagstrak/controlapi.go\<close>. Parsing a media type, an address and JSON are
  parameters. A request is handled in one step; \<open>before\<close>, which the code reads outside the table's
  lock, only goes to the audit record. The message texts of replies are not modelled.
\<close>

section \<open>Listeners\<close>

record listen_config =
  lc_Socket :: string
  lc_Address :: string

definition Enabled :: "listen_config \<Rightarrow> bool" where
  "Enabled c \<longleftrightarrow> lc_Socket c \<noteq> [] \<or> lc_Address c \<noteq> []"

datatype transport = TransportUnix | TransportTCP

datatype listen_error = ListenConfigError | ListenIO

definition IsAbs :: "string \<Rightarrow> bool" where
  "IsAbs path \<longleftrightarrow> HasPrefix path ''/''"

text \<open>
  \<open>split\<close> is \<^verbatim>\<open>net.SplitHostPort\<close>; \<open>ip\<close> is \<^verbatim>\<open>netip.ParseAddr\<close> with whether the address is loopback and its
  text; \<open>join\<close> is \<^verbatim>\<open>net.JoinHostPort\<close>.
\<close>

definition loopback ::
  "(string \<Rightarrow> (string \<times> string) option) \<Rightarrow> (string \<Rightarrow> (bool \<times> string) option) \<Rightarrow> (string \<Rightarrow> string \<Rightarrow> string) \<Rightarrow>
     string \<Rightarrow> listen_error + string" where
  "loopback split ip join address =
     (case split address of
        None \<Rightarrow> Inl ListenConfigError
      | Some (host, port) \<Rightarrow>
          (case ip (if host = ''localhost'' then ''127.0.0.1'' else host) of
             None \<Rightarrow> Inl ListenConfigError
           | Some (local, text) \<Rightarrow> if \<not> local then Inl ListenConfigError else Inr (join text port)))"

definition listen_Validate ::
  "(string \<Rightarrow> (string \<times> string) option) \<Rightarrow> (string \<Rightarrow> (bool \<times> string) option) \<Rightarrow> (string \<Rightarrow> string \<Rightarrow> string) \<Rightarrow>
     nat \<Rightarrow> listen_config \<Rightarrow> listen_error option" where
  "listen_Validate split ip join maxSocketPath c =
     (if lc_Socket c \<noteq> [] \<and> lc_Address c \<noteq> [] then Some ListenConfigError
      else if lc_Socket c \<noteq> [] \<and> \<not> IsAbs (lc_Socket c) then Some ListenConfigError
      else if length (lc_Socket c) > maxSocketPath then Some ListenConfigError
      else if lc_Address c \<noteq> [] then
        (case loopback split ip join (lc_Address c) of Inl e \<Rightarrow> Some e | Inr _ \<Rightarrow> None)
      else None)"

text \<open>
  \<open>Listen\<close>: the directory of a socket as its mode bits when it is one, \<open>bind\<close> and \<open>chmod\<close> say whether
  the system calls succeed. The result names what is bound.
\<close>

definition Listen ::
  "(string \<Rightarrow> (string \<times> string) option) \<Rightarrow> (string \<Rightarrow> (bool \<times> string) option) \<Rightarrow> (string \<Rightarrow> string \<Rightarrow> string) \<Rightarrow> nat \<Rightarrow>
     (listen_error + u16 option) \<Rightarrow> (string \<Rightarrow> bool) \<Rightarrow> bool \<Rightarrow> listen_config \<Rightarrow> listen_error + string \<times> transport" where
  "Listen split ip join maxSocketPath directory bind chmod c =
     (case listen_Validate split ip join maxSocketPath c of
        Some e \<Rightarrow> Inl e
      | None \<Rightarrow>
          if lc_Socket c \<noteq> [] then
            (case directory of
               Inl e \<Rightarrow> Inl e
             | Inr mode \<Rightarrow>
                 (case mode of
                    None \<Rightarrow> Inl ListenConfigError
                  | Some bits \<Rightarrow>
                      if bits AND 63 \<noteq> 0 then Inl ListenConfigError
                      else if \<not> bind (lc_Socket c) then Inl ListenIO
                      else if \<not> chmod then Inl ListenIO
                      else Inr (lc_Socket c, TransportUnix)))
          else if lc_Address c = [] then Inl ListenConfigError
          else
            bind_res (loopback split ip join (lc_Address c)) (\<lambda>address.
            if \<not> bind address then Inl ListenIO else Inr (address, TransportTCP)))"

section \<open>The server\<close>

definition MinTokenBytes :: nat where "MinTokenBytes = 32"
definition DefaultMaxConns :: int where "DefaultMaxConns = 16"

record server_config =
  sc_Token :: string
  sc_MaxConns :: int

record control_server =
  cs_transport :: transport
  cs_token :: string
  cs_max :: int
  cs_active :: int
  cs_open :: "nat set"
  cs_accepted :: nat

definition NewControl :: "transport \<Rightarrow> server_config \<Rightarrow> listen_error + control_server" where
  "NewControl transport c =
     (if transport = TransportTCP \<and> length (sc_Token c) = 0 then Inl ListenConfigError
      else if length (sc_Token c) > 0 \<and> length (sc_Token c) < MinTokenBytes then Inl ListenConfigError
      else
        let conns = (if sc_MaxConns c = 0 then DefaultMaxConns else sc_MaxConns c)
        in if conns < 1 \<or> conns > 1024 then Inl ListenConfigError
           else Inr \<lparr>cs_transport = transport, cs_token = sc_Token c, cs_max = conns, cs_active = 0, cs_open = {}, cs_accepted = 0\<rparr>)"

text \<open>
  The limiting listener: \<open>Accept\<close> of one connection, which is closed at once when too many are open,
  and \<open>Close\<close> of a connection, which gives its place back the first time.
\<close>

definition limit_Accept :: "control_server \<Rightarrow> nat option \<times> control_server" where
  "limit_Accept s =
     (if cs_active s + 1 > cs_max s then (None, s)
      else (Some (cs_accepted s),
        s\<lparr>cs_active := cs_active s + 1, cs_open := insert (cs_accepted s) (cs_open s), cs_accepted := cs_accepted s + 1\<rparr>))"

definition limit_Close :: "nat \<Rightarrow> control_server \<Rightarrow> control_server" where
  "limit_Close i s = (if i \<in> cs_open s then s\<lparr>cs_active := cs_active s - 1, cs_open := cs_open s - {i}\<rparr> else s)"

section \<open>Requests\<close>

text \<open>A body is the bytes that arrive and whether reading fails after them.\<close>

record 'b request =
  rq_ContentType :: string
  rq_Authorization :: string
  rq_IfMatch :: string
  rq_Body :: "'b list \<times> bool"

datatype reply =
    ErrorReply nat string string
  | StatusReply
  | SubscriptionsReply string string u64 sub_spec
  | ReplacedReply string u64

definition lower :: "char \<Rightarrow> char" where
  "lower c = (if CHR ''A'' \<le> c \<and> c \<le> CHR ''Z'' then char_of (of_char c + 32 :: nat) else c)"

text \<open>
  \<^verbatim>\<open>strings.EqualFold\<close> with a prefix of letters that no code point outside ASCII folds to; the
  constant-time comparison decides equality.
\<close>

definition authorized :: "control_server \<Rightarrow> 'b request \<Rightarrow> bool" where
  "authorized s r =
     (let header = rq_Authorization r; prefix' = ''Bearer '' in
      if length header < length prefix' \<or> map lower (take (length prefix') header) \<noteq> map lower prefix' then False
      else drop (length prefix') header = cs_token s)"

text \<open>
  \<open>ReadJSON\<close>: \<open>media\<close> is \<^verbatim>\<open>mime.ParseMediaType\<close>, \<open>decode\<close> the strict decoder with what it left unread and
  \<open>tokens\<close> whether a token follows there.
\<close>

definition ReadJSON ::
  "(string \<Rightarrow> string option) \<Rightarrow> ('b list \<Rightarrow> ('v \<times> 'b list) option) \<Rightarrow> ('b list \<Rightarrow> bool) \<Rightarrow> nat \<Rightarrow> 'b request \<Rightarrow>
     reply + 'v" where
  "ReadJSON media decode tokens limit r =
     (if media (rq_ContentType r) \<noteq> Some ''application/json'' then Inl (ErrorReply 415 ''unsupported_media_type'' '''')
      else if length (fst (rq_Body r)) > limit then Inl (ErrorReply 413 ''body_too_large'' '''')
      else if snd (rq_Body r) then Inl (ErrorReply 400 ''unreadable_body'' '''')
      else case decode (fst (rq_Body r)) of
        None \<Rightarrow> Inl (ErrorReply 400 ''invalid_json'' '''')
      | Some (v, rest) \<Rightarrow> if tokens rest then Inl (ErrorReply 400 ''invalid_json'' '''') else Inr v)"

section \<open>Quoted strings\<close>

text \<open>\<^verbatim>\<open>strconv.Unquote\<close>: a string literal of Go, quoted or raw, and the character literal.\<close>

definition utf8_rune :: "nat \<Rightarrow> string" where
  "utf8_rune n = (if n < 0x10000 then utf8 n
     else [char_of (0xF0 + n div 262144), char_of (0x80 + n div 4096 mod 64), char_of (0x80 + n div 64 mod 64), char_of (0x80 + n mod 64)])"

definition valid_rune :: "nat \<Rightarrow> bool" where
  "valid_rune n \<longleftrightarrow> n < 0xD800 \<or> 0xE000 \<le> n \<and> n \<le> 0x10FFFF"

fun hex_digits :: "nat \<Rightarrow> nat \<Rightarrow> string \<Rightarrow> (nat \<times> string) option" where
  "hex_digits 0 v s = Some (v, s)"
| "hex_digits (Suc n) v [] = None"
| "hex_digits (Suc n) v (c # s) = (case hex_value c of None \<Rightarrow> None | Some d \<Rightarrow> hex_digits n (16 * v + unat d) s)"

fun octal_digits :: "nat \<Rightarrow> nat \<Rightarrow> string \<Rightarrow> (nat \<times> string) option" where
  "octal_digits 0 v s = Some (v, s)"
| "octal_digits (Suc n) v [] = None"
| "octal_digits (Suc n) v (c # s) = (if CHR ''0'' \<le> c \<and> c \<le> CHR ''7'' then octal_digits n (8 * v + digit_value c) s else None)"

lemma digits_code [code]:
  "hex_digits n v s = (if n = 0 then Some (v, s) else case s of [] \<Rightarrow> None
     | c # s \<Rightarrow> (case hex_value c of None \<Rightarrow> None | Some d \<Rightarrow> hex_digits (n - 1) (16 * v + unat d) s))"
  "octal_digits n v s = (if n = 0 then Some (v, s) else case s of [] \<Rightarrow> None
     | c # s \<Rightarrow> if CHR ''0'' \<le> c \<and> c \<le> CHR ''7'' then octal_digits (n - 1) (8 * v + digit_value c) s else None)"
  by (cases n; cases s; simp split: option.split)+

definition escape_char :: "char \<Rightarrow> char option" where
  "escape_char c = map_of [(CHR ''a'', CHR 0x07), (CHR ''b'', CHR 0x08), (CHR ''f'', CHR 0x0C), (CHR ''n'', CHR 0x0A),
     (CHR ''r'', CHR 0x0D), (CHR ''t'', CHR 0x09), (CHR ''v'', CHR 0x0B), (CHR 0x5C, CHR 0x5C)] c"

text \<open>The bytes the next character stands for, and what follows it.\<close>

definition UnquoteChar :: "char \<Rightarrow> string \<Rightarrow> (string \<times> string) option" where
  "UnquoteChar quote s =
     (case s of
        [] \<Rightarrow> None
      | c # cs \<Rightarrow>
          if c = quote then None
          else if of_char c \<ge> (128 :: nat) then
            (case rune_width s of 0 \<Rightarrow> Some (utf8 0xFFFD, cs) | w \<Rightarrow> Some (take w s, drop w s))
          else if c \<noteq> CHR 0x5C then Some ([c], cs)
          else case cs of
            [] \<Rightarrow> None
          | e # r \<Rightarrow>
              if e \<in> {CHR ''x'', CHR ''u'', CHR ''U''} then
                (case hex_digits (if e = CHR ''x'' then 2 else if e = CHR ''u'' then 4 else 8) 0 r of
                   None \<Rightarrow> None
                 | Some (v, r) \<Rightarrow>
                     if e = CHR ''x'' then Some ([char_of v], r)
                     else if valid_rune v then Some (utf8_rune v, r) else None)
              else if CHR ''0'' \<le> e \<and> e \<le> CHR ''7'' then
                (case octal_digits 2 (digit_value e) r of
                   None \<Rightarrow> None
                 | Some (v, r) \<Rightarrow> if v > 255 then None else Some ([char_of v], r))
              else if e = CHR 0x27 \<or> e = CHR 0x22 then if e = quote then Some ([e], r) else None
              else map_option (\<lambda>x. ([x], r)) (escape_char e))"

text \<open>
  The characters up to the closing quote, which is left; every round consumes one at least, so as
  many rounds as there are bytes are enough.
\<close>

primrec unquote_chars :: "nat \<Rightarrow> char \<Rightarrow> string \<Rightarrow> (string \<times> string) option" where
  "unquote_chars 0 quote s = Some ([], s)"
| "unquote_chars (Suc n) quote s =
     (case s of
        [] \<Rightarrow> Some ([], s)
      | c # _ \<Rightarrow>
          if c = quote then Some ([], s)
          else if c = CHR 0x0A then None
          else (case UnquoteChar quote s of
              None \<Rightarrow> None
            | Some (out, r) \<Rightarrow> if quote = CHR 0x27 then Some (out, r) else before out (unquote_chars n quote r)))"

lemma unquote_chars_code [code]:
  "unquote_chars n quote s =
     (if n = 0 then Some ([], s) else case s of
        [] \<Rightarrow> Some ([], s)
      | c # _ \<Rightarrow>
          if c = quote then Some ([], s)
          else if c = CHR 0x0A then None
          else (case UnquoteChar quote s of
              None \<Rightarrow> None
            | Some (out, r) \<Rightarrow> if quote = CHR 0x27 then Some (out, r) else before out (unquote_chars (n - 1) quote r)))"
  by (cases n) (simp_all split: list.split option.split)

definition Unquote :: "string \<Rightarrow> string option" where
  "Unquote s =
     (case s of
        [] \<Rightarrow> None
      | quote # rest \<Rightarrow>
          (let body = takeWhile (\<lambda>c. c \<noteq> quote) rest; after = dropWhile (\<lambda>c. c \<noteq> quote) rest in
           if rest = [] \<or> after = [] then None
           else if quote = CHR 0x60 then if tl after = [] then Some (filter (\<lambda>c. c \<noteq> CHR 0x0D) body) else None
           else if quote \<notin> {CHR 0x22, CHR 0x27} then None
           else if CHR 0x5C \<notin> set body \<and> CHR 0x0A \<notin> set body \<and>
                   (if quote = CHR 0x22 then utf8_valid body else rune_width body = length body)
           then if tl after = [] then Some body else None
           else case unquote_chars (length rest) quote rest of
                  Some (out, [q]) \<Rightarrow> if q = quote then Some out else None
                | _ \<Rightarrow> None))"

section \<open>Preconditions\<close>

definition etag :: "u64 \<Rightarrow> string" where
  "etag revision = CHR 0x22 # itoa (unat revision) @ [CHR 0x22]"

definition ifMatch :: "string \<Rightarrow> unit + u64 option" where
  "ifMatch h =
     (let header = TrimSpace h in
      if header = '''' \<or> header = ''*'' then Inr None
      else
        let tag = TrimPrefix header ''W/'';
            tag' = (case Unquote tag of Some unquoted \<Rightarrow> unquoted | None \<Rightarrow> tag)
        in case ParseUint64 tag' of None \<Rightarrow> Inl () | Some revision \<Rightarrow> Inr (Some revision))"

section \<open>The handlers\<close>

record audit =
  au_Action :: string
  au_Outcome :: string
  au_Before :: "u64 option"
  au_After :: "u64 option"
  au_Count :: "nat option"
  au_Code :: string

record control_settings =
  ct_Source :: string
  ct_Store :: bool

definition outcomeFor :: "nat \<Rightarrow> string" where
  "outcomeFor status' = (if status' = 409 \<or> status' = 412 then ''conflict'' else ''rejected'')"

definition rejected :: "u64 \<Rightarrow> nat \<Rightarrow> string \<Rightarrow> string \<Rightarrow> reply \<times> audit list" where
  "rejected before' status' code field =
     (ErrorReply status' code field,
      [\<lparr>au_Action = ''subscriptions.replace'', au_Outcome = outcomeFor status', au_Before = Some before', au_After = None,
        au_Count = None, au_Code = code\<rparr>])"

definition get_subscriptions :: "control_settings \<Rightarrow> subscription_table \<Rightarrow> reply" where
  "get_subscriptions settings t =
     (case table_Snapshot t of (spec, revision) \<Rightarrow> SubscriptionsReply (etag revision) (ct_Source settings) revision spec)"

text \<open>The result of a replacement as the reply of the handler: the \<open>switch\<close> on the error.\<close>

definition replace_reply :: "u64 \<Rightarrow> state_error table_error option \<Rightarrow> (reply \<times> audit list) option" where
  "replace_reply before' err =
     (case err of
        None \<Rightarrow> None
      | Some (ErrRevisionMismatch _ _) \<Rightarrow> Some (rejected before' 412 ''revision_mismatch'' '''')
      | Some (FieldRefused field _) \<Rightarrow> Some (rejected before' 400 ''invalid_subscriptions'' field)
      | Some (Vetoed e) \<Rightarrow>
          if e = StateTooLarge then Some (rejected before' 413 ''state_too_large'' '''')
          else Some (rejected before' 500 ''state_not_saved'' ''''))"

text \<open>
  \<open>PUT /v1/subscriptions\<close>. \<open>save\<close> is the store's \<open>Save\<close>; the field of the body is \<open>None\<close> where it is missing
  or null.
\<close>

definition put_subscriptions ::
  "(string \<Rightarrow> string option) \<Rightarrow> ('b list \<Rightarrow> (sub_spec option \<times> 'b list) option) \<Rightarrow> ('b list \<Rightarrow> bool) \<Rightarrow>
     control_settings \<Rightarrow> (state_error, 'w) commit \<Rightarrow> 'b request \<Rightarrow> subscription_table \<times> 'w \<Rightarrow>
     (reply \<times> audit list) \<times> subscription_table \<times> 'w" where
  "put_subscriptions media decode tokens settings save r = (\<lambda>(t, w).
     let before' = Revision t in
     if ct_Source settings \<noteq> ''api'' \<or> \<not> ct_Store settings then (rejected before' 409 ''managed_by_file'' '''', t, w)
     else case ifMatch (rq_IfMatch r) of
       Inl _ \<Rightarrow> (rejected before' 400 ''invalid_precondition'' '''', t, w)
     | Inr expected \<Rightarrow>
         (case ReadJSON media decode tokens MaxFileBytes r of
            Inl reply \<Rightarrow>
              ((reply, [\<lparr>au_Action = ''subscriptions.replace'', au_Outcome = ''rejected'', au_Before = Some before', au_After = None,
                au_Count = None, au_Code = ''invalid_body''\<rparr>]), t, w)
          | Inr None \<Rightarrow> (rejected before' 400 ''invalid_subscriptions'' ''subscriptions'', t, w)
          | Inr (Some spec) \<Rightarrow>
              (case table_Replace spec expected (Some save) (t, w) of
                 ((err, after), t, w) \<Rightarrow>
                   (case replace_reply before' err of
                      Some refusal \<Rightarrow> (refusal, t, w)
                    | None \<Rightarrow>
                        ((ReplacedReply (etag after) after,
                          [\<lparr>au_Action = ''subscriptions.replace'', au_Outcome = ''ok'', au_Before = Some before', au_After = Some after,
                            au_Count = Some (length spec), au_Code = ''''\<rparr>]), t, w)))))"

text \<open>A request at the server: the route the multiplexer chose, behind authentication.\<close>

datatype control_route = GetStatus | GetSubscriptions | PutSubscriptions

definition control_serve ::
  "(string \<Rightarrow> string option) \<Rightarrow> ('b list \<Rightarrow> (sub_spec option \<times> 'b list) option) \<Rightarrow> ('b list \<Rightarrow> bool) \<Rightarrow>
     control_server \<Rightarrow> control_settings \<Rightarrow> (state_error, 'w) commit \<Rightarrow> control_route \<Rightarrow> 'b request \<Rightarrow> subscription_table \<times> 'w \<Rightarrow>
     (reply \<times> audit list) \<times> subscription_table \<times> 'w" where
  "control_serve media decode tokens server settings save route r s =
     (if cs_token server \<noteq> [] \<and> \<not> authorized server r
      then ((ErrorReply 401 ''unauthenticated'' '''',
         [\<lparr>au_Action = ''auth'', au_Outcome = ''unauthenticated'', au_Before = None, au_After = None, au_Count = None, au_Code = ''''\<rparr>]), s)
      else case route of
        GetStatus \<Rightarrow> ((StatusReply, []), s)
      | GetSubscriptions \<Rightarrow> ((get_subscriptions settings (fst s), []), s)
      | PutSubscriptions \<Rightarrow> put_subscriptions media decode tokens settings save r s)"

section \<open>Facts: preconditions\<close>

lemma trim_left_id: "(\<And>w. w \<in> set spaces \<Longrightarrow> \<not> HasPrefix s w) \<Longrightarrow> trim_left s = s"
  by (subst trim_left.simps) (auto simp: find_None_iff split: option.split dest: find_SomeD)

lemma trim_right_id: "(\<And>w. w \<in> set spaces \<Longrightarrow> \<not> HasSuffix s w) \<Longrightarrow> trim_right s = s"
  by (subst trim_right.simps) (auto simp: find_None_iff split: option.split dest: find_SomeD)

lemma space_ends: "w \<in> set spaces \<Longrightarrow> hd w \<noteq> CHR 0x22 \<and> hd w \<noteq> CHR ''W'' \<and> last w \<noteq> CHR 0x22"
proof -
  have "list_all (\<lambda>w. hd w \<noteq> CHR 0x22 \<and> hd w \<noteq> CHR ''W'' \<and> last w \<noteq> CHR 0x22) spaces" by code_simp
  then show "w \<in> set spaces \<Longrightarrow> ?thesis" by (simp add: list_all_iff)
qed

lemma TrimSpace_quoted:
  assumes "s = c # u @ [CHR 0x22]" "c = CHR 0x22 \<or> c = CHR ''W''"
  shows "TrimSpace s = s"
proof -
  have "\<not> HasPrefix s w" if "w \<in> set spaces" for w
  proof
    assume "HasPrefix s w"
    then obtain t where "s = w @ t" by (auto simp: HasPrefix_iff)
    then have "hd w = c" using spaces_nonempty [OF that] assms(1) by (cases w) simp_all
    then show False using space_ends [OF that] assms(2) by simp
  qed
  moreover have "\<not> HasSuffix s w" if "w \<in> set spaces" for w
  proof
    assume "HasSuffix s w"
    then obtain t where "s = t @ w" unfolding HasSuffix_def by (metis append_take_drop_id)
    then have "last w = last s" using spaces_nonempty [OF that] by simp
    then show False using space_ends [OF that] assms(1) by simp
  qed
  ultimately show ?thesis by (simp add: TrimSpace_def trim_left_id trim_right_id)
qed

lemma digits_valid: "list_all is_digit s \<Longrightarrow> utf8_valid s"
proof (induction s)
  case (Cons c s)
  then have "rune_width (c # s) = 1"
    by (auto simp: rune_width_def byte_in_def is_digit_iff)
  with Cons show ?case by simp
qed simp

lemma Unquote_digits:
  assumes "list_all is_digit s"
  shows "Unquote (CHR 0x22 # s @ [CHR 0x22]) = Some s"
proof -
  have c: "c \<noteq> CHR 0x22 \<and> c \<noteq> CHR 0x5C \<and> c \<noteq> CHR 0x0A" if "c \<in> set s" for c
  proof -
    have "48 \<le> (of_char c :: nat) \<and> (of_char c :: nat) \<le> 57" using assms that by (simp add: list_all_iff is_digit_iff)
    then show ?thesis by auto
  qed
  have "takeWhile (\<lambda>c. c \<noteq> CHR 0x22) (s @ [CHR 0x22]) = s" "dropWhile (\<lambda>c. c \<noteq> CHR 0x22) (s @ [CHR 0x22]) = [CHR 0x22]"
    using c by (simp_all add: takeWhile_append2 dropWhile_append2)
  then show ?thesis using c digits_valid [OF assms] by (auto simp: Unquote_def Let_def)
qed

lemma ifMatch_etag: "ifMatch (etag r) = Inr (Some r)" "ifMatch (''W/'' @ etag r) = Inr (Some r)"
proof -
  have parse: "ParseUint64 (itoa (unat r)) = Some r" using ParseUint64_itoa [of "unat r"] unsigned_less [of r] by simp
  have unq: "Unquote (etag r) = Some (itoa (unat r))" unfolding etag_def by (rule Unquote_digits [OF itoa_digits])
  have trim: "TrimSpace (etag r) = etag r" "TrimSpace (''W/'' @ etag r) = ''W/'' @ etag r"
    using TrimSpace_quoted [of "etag r" "CHR 0x22" "itoa (unat r)"]
      TrimSpace_quoted [of "''W/'' @ etag r" "CHR ''W''" "CHR ''/'' # CHR 0x22 # itoa (unat r)"] by (simp_all add: etag_def)
  have "TrimPrefix (etag r) ''W/'' = etag r" by (simp add: TrimPrefix_def etag_def HasPrefix_iff)
  then show "ifMatch (etag r) = Inr (Some r)" using parse unq trim by (simp add: ifMatch_def Let_def) (simp add: etag_def)
  have "TrimPrefix (''W/'' @ etag r) ''W/'' = etag r" unfolding TrimPrefix_def by (simp add: HasPrefix_def)
  then show "ifMatch (''W/'' @ etag r) = Inr (Some r)" using parse unq trim by (simp add: ifMatch_def Let_def)
qed

section \<open>Facts: replacing through the API\<close>

lemma table_Replace_done:
  assumes "table_Replace spec expected (Some save) (t, w) = ((None, after), t', w')"
  shows "(expected = None \<or> expected = Some (Revision t)) \<and> after = Revision t + 1 \<and> table_Snapshot t' = (spec, after) \<and>
    save after spec w = (None, w')"
  using assms
  by (auto simp: table_Replace_def publish_def Let_def Revision_def table_Snapshot_def
      split: option.splits sum.splits if_splits prod.splits dest!: compile_table_Inr [THEN iffD1])

lemma table_Replace_refused:
  assumes "table_Replace spec expected (Some save) (t, w) = ((Some e, after), t', w')"
  shows "t' = t \<and> (w' = w \<or> (\<exists>e' rv. save rv spec w = (Some e', w')))"
  using assms
  by (auto simp: table_Replace_def publish_def Let_def compile_table_Inr split: option.splits sum.splits if_splits prod.splits)

lemma Save_done:
  assumes "Save marshal base ft rv spec d = (None, d')" "safe base C d"
  shows "read_name d' base = Some (marshal \<lparr>sts_Version = Version, sts_Revision = rv, sts_Subscriptions = spec\<rparr>)"
proof -
  obtain ds where "WriteState marshal base \<lparr>sts_Version = 0, sts_Revision = rv, sts_Subscriptions = spec\<rparr> ft d = (None, ds)" "d' = hd ds"
    using assms(1) by (auto simp: Save_def split: prod.splits)
  from WriteState_safe [OF assms(2) this(1)] this(2) show ?thesis by (simp add: Let_def)
qed

lemma Save_failed:
  assumes "Save marshal base ft rv spec d = (Some e, d')" "safe base C d"
  shows "read_name d' base = read_name d base"
proof -
  obtain ds where "WriteState marshal base \<lparr>sts_Version = 0, sts_Revision = rv, sts_Subscriptions = spec\<rparr> ft d = (Some e, ds)" "d' = hd ds"
    using assms(1) by (auto simp: Save_def split: prod.splits)
  from WriteState_safe [OF assms(2) this(1)] this(2) show ?thesis by simp
qed

definition is_replaced :: "reply \<Rightarrow> bool" where
  "is_replaced reply \<longleftrightarrow> (case reply of ReplacedReply _ _ \<Rightarrow> True | _ \<Rightarrow> False)"

lemma is_replaced_error [simp]: "\<not> is_replaced (ErrorReply s c f)"
  by (simp add: is_replaced_def)

lemma rejected_simps [simp]: "\<not> is_replaced (fst (rejected b s c f))" "length (snd (rejected b s c f)) = 1"
  by (simp_all add: rejected_def is_replaced_def)

lemma ReadJSON_refused: "ReadJSON media decode tokens limit r = Inl reply \<Longrightarrow> \<not> is_replaced reply"
  by (auto simp: ReadJSON_def is_replaced_def split: if_splits option.splits)

lemma ReadJSON_Inr: "ReadJSON media decode tokens limit r = Inr v \<Longrightarrow> \<exists>rest. decode (fst (rq_Body r)) = Some (v, rest) \<and> \<not> tokens rest"
  by (auto simp: ReadJSON_def split: if_splits option.splits)

text \<open>The two ways a request ends: it replaces the table, or it leaves it alone.\<close>

lemma put_subscriptions_cases:
  assumes "put_subscriptions media decode tokens settings save r (t, w) = ((reply, audits), t', w')"
  obtains (replaced) expected spec rest after where "reply = ReplacedReply (etag after) after" "length audits = 1"
      "ct_Source settings = ''api''" "ct_Store settings" "ifMatch (rq_IfMatch r) = Inr expected"
      "expected = None \<or> expected = Some (Revision t)" "decode (fst (rq_Body r)) = Some (Some spec, rest)" "\<not> tokens rest"
      "after = Revision t + 1" "table_Snapshot t' = (spec, after)" "save after spec w = (None, w')"
  | (refused) "\<not> is_replaced reply" "length audits = 1" "t' = t" "w' = w \<or> (\<exists>e rv spec. save rv spec w = (Some e, w'))"
proof (cases "\<exists>expected spec. ct_Source settings = ''api'' \<and> ct_Store settings \<and> ifMatch (rq_IfMatch r) = Inr expected \<and>
    ReadJSON media decode tokens MaxFileBytes r = Inr (Some spec)")
  case False
  have "\<not> is_replaced reply \<and> length audits = 1 \<and> t' = t \<and> w' = w"
  proof (cases "ct_Source settings = ''api'' \<and> ct_Store settings")
    case api: True
    show ?thesis
    proof (cases "ifMatch (rq_IfMatch r)")
      case (Inr expected)
      then show ?thesis using assms False api
        by (cases "ReadJSON media decode tokens MaxFileBytes r")
          (auto simp: put_subscriptions_def Let_def rejected_def dest: ReadJSON_refused split: option.splits)
    qed (use assms api in \<open>auto simp: put_subscriptions_def Let_def rejected_def\<close>)
  qed (use assms in \<open>auto simp: put_subscriptions_def Let_def rejected_def\<close>)
  then show thesis using refused by blast
next
  case True
  then obtain expected spec where api: "ct_Source settings = ''api''" "ct_Store settings" "ifMatch (rq_IfMatch r) = Inr expected"
    "ReadJSON media decode tokens MaxFileBytes r = Inr (Some spec)" by blast
  obtain rest where body: "decode (fst (rq_Body r)) = Some (Some spec, rest)" "\<not> tokens rest" using ReadJSON_Inr [OF api(4)] by blast
  obtain err after t1 w1 where R: "table_Replace spec expected (Some save) (t, w) = ((err, after), t1, w1)"
    by (metis prod.exhaust)
  have put: "put_subscriptions media decode tokens settings save r (t, w) =
      (case replace_reply (Revision t) err of
         Some refusal \<Rightarrow> (refusal, t1, w1)
       | None \<Rightarrow> ((ReplacedReply (etag after) after, [\<lparr>au_Action = ''subscriptions.replace'', au_Outcome = ''ok'',
           au_Before = Some (Revision t), au_After = Some after, au_Count = Some (length spec), au_Code = ''''\<rparr>]), t1, w1))"
    using api R by (simp add: put_subscriptions_def Let_def)
  show thesis
  proof (cases err)
    case None
    then have eq: "reply = ReplacedReply (etag after) after" "length audits = 1" "t' = t1" "w' = w1"
      using put assms by (auto simp: replace_reply_def)
    show thesis by (rule replaced [OF eq(1,2) api(1-3) _ body]) (use table_Replace_done [OF R [unfolded None]] eq in auto)
  next
    case (Some e)
    have "\<exists>b c d. replace_reply (Revision t) err = Some (rejected (Revision t) b c d)"
      using Some by (cases e) (auto simp: replace_reply_def)
    then obtain b c d where "replace_reply (Revision t) err = Some (rejected (Revision t) b c d)" by blast
    then have "(reply, audits) = rejected (Revision t) b c d" "t' = t1" "w' = w1" using put assms by auto
    then have "\<not> is_replaced reply" "length audits = 1" using rejected_simps [of "Revision t" b c d] by (metis fst_conv snd_conv)+
    then show thesis
      using refused table_Replace_refused [OF R [unfolded Some]] \<open>t' = t1\<close> \<open>w' = w1\<close> by blast
  qed
qed

text \<open>
  Why a replacement is refused, in the order the reasons count: whether it applies, the status, the
  code and the field of the reply, and the code in the audit record.
\<close>

definition sent_spec :: "('b list \<Rightarrow> (sub_spec option \<times> 'b list) option) \<Rightarrow> 'b request \<Rightarrow> sub_spec" where
  "sent_spec decode r = (case decode (fst (rq_Body r)) of Some (Some spec, _) \<Rightarrow> spec | _ \<Rightarrow> [])"

definition refused_field :: "subscription_table \<Rightarrow> sub_spec \<Rightarrow> string option" where
  "refused_field t spec =
     (case compile_table t spec (Revision t + 1) :: state_error table_error + snapshot of
        Inl (FieldRefused field _) \<Rightarrow> Some field
      | _ \<Rightarrow> None)"

definition put_refusals ::
  "(string \<Rightarrow> string option) \<Rightarrow> ('b list \<Rightarrow> (sub_spec option \<times> 'b list) option) \<Rightarrow> ('b list \<Rightarrow> bool) \<Rightarrow>
     control_settings \<Rightarrow> (state_error, 'w) commit \<Rightarrow> 'b request \<Rightarrow> subscription_table \<Rightarrow> 'w \<Rightarrow>
     (bool \<times> nat \<times> string \<times> string \<times> string) list" where
  "put_refusals media decode tokens settings save r t w =
     (let body = fst (rq_Body r); spec = sent_spec decode r; saved = fst (save (Revision t + 1) spec w) in
      [(ct_Source settings \<noteq> ''api'' \<or> \<not> ct_Store settings, 409, ''managed_by_file'', '''', ''managed_by_file''),
       (ifMatch (rq_IfMatch r) = Inl (), 400, ''invalid_precondition'', '''', ''invalid_precondition''),
       (media (rq_ContentType r) \<noteq> Some ''application/json'', 415, ''unsupported_media_type'', '''', ''invalid_body''),
       (length body > MaxFileBytes, 413, ''body_too_large'', '''', ''invalid_body''),
       (snd (rq_Body r), 400, ''unreadable_body'', '''', ''invalid_body''),
       (case decode body of None \<Rightarrow> True | Some (_, rest) \<Rightarrow> tokens rest, 400, ''invalid_json'', '''', ''invalid_body''),
       (map_option fst (decode body) = Some None, 400, ''invalid_subscriptions'', ''subscriptions'', ''invalid_subscriptions''),
       (ifMatch (rq_IfMatch r) \<notin> {Inr None, Inr (Some (Revision t))}, 412, ''revision_mismatch'', '''', ''revision_mismatch''),
       (refused_field t spec \<noteq> None, 400, ''invalid_subscriptions'', the (refused_field t spec), ''invalid_subscriptions''),
       (saved = Some StateTooLarge, 413, ''state_too_large'', '''', ''state_too_large''),
       (saved \<noteq> None, 500, ''state_not_saved'', '''', ''state_not_saved'')])"

lemma wrapped_error: "(case r of Inl e \<Rightarrow> Inl (h e) | Inr x \<Rightarrow> Inr (g x)) = Inl y \<longleftrightarrow> (\<exists>e. r = Inl e \<and> y = h e)"
  by (cases r) auto

lemma compile_subscription_error:
  assumes "compile_subscription known (i, s) acc = Inl e"
  shows "\<exists>f x. e = FieldRefused f x"
proof -
  obtain subs r where acc: "acc = (subs, r)" by (cases acc)
  have "\<exists>f x. e = FieldRefused f x" if "map_res (compile_pattern i) xs = Inl e" for xs
    using map_res_Inl_elem [OF that] by (auto simp: compile_pattern_def wrapped_error split: prod.splits)
  moreover have "\<exists>f x. e = FieldRefused f x" if "map_res (check_destination known i) xs = Inl e" for xs
    using map_res_Inl_elem [OF that] by (auto simp: check_destination_def split: prod.splits if_splits)
  ultimately show ?thesis using assms by (auto simp: acc compile_subscription_def bind_res_eq_Inl split: if_splits)
qed

lemma compile_table_error:
  assumes "compile_table t spec r = Inl e"
  shows "\<exists>f x. e = FieldRefused f x"
proof -
  have "\<exists>f x. e = FieldRefused f x"
    if "fold_res (compile_subscription known) (enumerate k spec) acc = Inl e" for known k acc
    using that
  proof (induction spec arbitrary: k acc)
    case (Cons s spec)
    then show ?case by (auto simp: bind_res_eq_Inl dest: compile_subscription_error)
  qed simp
  then show ?thesis using assms
    by (auto simp: compile_table_def bind_res_eq_Inl wrapped_error split: if_splits prod.splits simp del: enumerate_simps)
qed

lemma replace_outcome:
  assumes "table_Replace spec expected (Some (save :: (state_error, 'w) commit)) (t, w) = ((err, after), t', w')"
  shows "if expected \<notin> {None, Some (Revision t)} then (\<exists>r. err = Some (ErrRevisionMismatch r (Revision t))) \<and> t' = t \<and> w' = w
    else case refused_field t spec of
      Some f \<Rightarrow> (\<exists>x. err = Some (FieldRefused f x)) \<and> t' = t \<and> w' = w
    | None \<Rightarrow>
        (case save (Revision t + 1) spec w of
           (Some e, w1) \<Rightarrow> err = Some (Vetoed e) \<and> t' = t \<and> w' = w1
         | (None, w1) \<Rightarrow> err = None \<and> after = Revision t + 1 \<and> table_Snapshot t' = (spec, after) \<and> w' = w1)"
proof (cases "expected \<in> {None, Some (Revision t)}")
  case True
  then have pub: "publish spec (Some save) (t, w) = ((err, after), t', w')"
    using assms by (auto simp: table_Replace_def Revision_def Let_def)
  show ?thesis
  proof (cases "compile_table t spec (Revision t + 1) :: state_error table_error + snapshot")
    case (Inl e)
    then obtain f x where "e = FieldRefused f x" using compile_table_error by blast
    then show ?thesis using True Inl pub by (auto simp: refused_field_def publish_def Revision_def Let_def)
  next
    case (Inr sn)
    then have "sn_spec sn = spec" "sn_revision sn = Revision t + 1" by (auto dest!: compile_table_Inr [THEN iffD1])
    then show ?thesis using True Inr pub
      by (cases "save (Revision t + 1) spec w")
        (auto simp: refused_field_def publish_def Revision_def table_Snapshot_def Let_def split: option.splits)
  qed
next
  case False
  then show ?thesis using assms by (auto simp: table_Replace_def Revision_def Let_def split: option.splits if_splits)
qed

text \<open>The handler takes the first reason.\<close>

lemma put_first_reason:
  assumes "put_subscriptions media decode tokens settings save r (t, w) = ((reply, audits), t', w')"
  shows "case find fst (put_refusals media decode tokens settings save r t w) of
      Some (_, status', code, field, logged) \<Rightarrow>
        reply = ErrorReply status' code field \<and>
        audits = [\<lparr>au_Action = ''subscriptions.replace'', au_Outcome = (if status' \<in> {409, 412} then ''conflict'' else ''rejected''),
          au_Before = Some (Revision t), au_After = None, au_Count = None, au_Code = logged\<rparr>] \<and>
        t' = t \<and> (w' = w \<or> (\<exists>e. save (Revision t + 1) (sent_spec decode r) w = (Some e, w')))
    | None \<Rightarrow>
        (let spec = sent_spec decode r; after = Revision t + 1 in
         ct_Source settings = ''api'' \<and> ct_Store settings \<and> ifMatch (rq_IfMatch r) \<in> {Inr None, Inr (Some (Revision t))} \<and>
         (\<exists>rest. decode (fst (rq_Body r)) = Some (Some spec, rest) \<and> \<not> tokens rest) \<and>
         reply = ReplacedReply (etag after) after \<and>
         audits = [\<lparr>au_Action = ''subscriptions.replace'', au_Outcome = ''ok'', au_Before = Some (Revision t), au_After = Some after,
           au_Count = Some (length spec), au_Code = ''''\<rparr>] \<and>
         table_Snapshot t' = (spec, after) \<and> save after spec w = (None, w'))"
proof -
  define spec where "spec = sent_spec decode r"
  note defs = put_subscriptions_def put_refusals_def rejected_def outcomeFor_def Let_def
  show ?thesis
  proof (cases "ct_Source settings = ''api'' \<and> ct_Store settings")
    case False
    then show ?thesis using assms by (auto simp: defs)
  next
    case api: True
    show ?thesis
    proof (cases "ifMatch (rq_IfMatch r)")
      case (Inl u)
      then show ?thesis using assms api by (auto simp: defs)
    next
      case (Inr expected)
      note named = Inr
      show ?thesis
      proof (cases "ReadJSON media decode tokens MaxFileBytes r")
        case (Inl reply0)
        then have "put_subscriptions media decode tokens settings save r (t, w) = ((reply0, [\<lparr>au_Action = ''subscriptions.replace'',
            au_Outcome = ''rejected'', au_Before = Some (Revision t), au_After = None, au_Count = None, au_Code = ''invalid_body''\<rparr>]), t, w)"
          using api named by (simp add: put_subscriptions_def Let_def)
        with assms have put: "reply = reply0" "audits = [\<lparr>au_Action = ''subscriptions.replace'', au_Outcome = ''rejected'',
            au_Before = Some (Revision t), au_After = None, au_Count = None, au_Code = ''invalid_body''\<rparr>]" "t' = t" "w' = w"
          by (metis prod.inject)+
        from Inl consider "media (rq_ContentType r) \<noteq> Some ''application/json''" "reply0 = ErrorReply 415 ''unsupported_media_type'' []"
          | "media (rq_ContentType r) = Some ''application/json''" "length (fst (rq_Body r)) > MaxFileBytes"
            "reply0 = ErrorReply 413 ''body_too_large'' []"
          | "media (rq_ContentType r) = Some ''application/json''" "\<not> length (fst (rq_Body r)) > MaxFileBytes" "snd (rq_Body r)"
            "reply0 = ErrorReply 400 ''unreadable_body'' []"
          | "media (rq_ContentType r) = Some ''application/json''" "\<not> length (fst (rq_Body r)) > MaxFileBytes" "\<not> snd (rq_Body r)"
            "case decode (fst (rq_Body r)) of None \<Rightarrow> True | Some (_, rest) \<Rightarrow> tokens rest" "reply0 = ErrorReply 400 ''invalid_json'' []"
          by (auto simp: ReadJSON_def split: if_splits option.splits)
        then show ?thesis using api named put by cases (simp_all add: put_refusals_def Let_def)
      next
        case (Inr v)
        then obtain rest where body: "media (rq_ContentType r) = Some ''application/json''" "length (fst (rq_Body r)) \<le> MaxFileBytes"
          "\<not> snd (rq_Body r)" "decode (fst (rq_Body r)) = Some (v, rest)" "\<not> tokens rest"
          by (auto simp: ReadJSON_def split: if_splits option.splits)
        show ?thesis
        proof (cases v)
          case None
          then show ?thesis using assms api named Inr body by (auto simp: defs)
        next
          case (Some sp)
          then have v: "v = Some spec" using body by (simp add: spec_def sent_spec_def)
          have rules: "find fst (put_refusals media decode tokens settings save r t w) = find fst
             [(expected \<notin> {None, Some (Revision t)}, 412, ''revision_mismatch'', '''', ''revision_mismatch''),
              (refused_field t spec \<noteq> None, 400, ''invalid_subscriptions'', the (refused_field t spec), ''invalid_subscriptions''),
              (fst (save (Revision t + 1) spec w) = Some StateTooLarge, 413, ''state_too_large'', '''', ''state_too_large''),
              (fst (save (Revision t + 1) spec w) \<noteq> None, 500, ''state_not_saved'', '''', ''state_not_saved'')]"
            using api named body v by (simp add: put_refusals_def Let_def flip: spec_def)
          obtain err after t1 w1 where R: "table_Replace spec expected (Some save) (t, w) = ((err, after), t1, w1)"
            by (metis prod.exhaust)
          have put: "((reply, audits), t', w') =
              (case replace_reply (Revision t) err of
                 Some refusal \<Rightarrow> (refusal, t1, w1)
               | None \<Rightarrow> ((ReplacedReply (etag after) after, [\<lparr>au_Action = ''subscriptions.replace'', au_Outcome = ''ok'',
                   au_Before = Some (Revision t), au_After = Some after, au_Count = Some (length spec), au_Code = ''''\<rparr>]), t1, w1))"
            using assms api named Inr v R by (simp add: put_subscriptions_def Let_def)
          note reply_defs = replace_reply_def rejected_def outcomeFor_def Let_def
          note out = replace_outcome [OF R]
          show ?thesis
          proof (cases "expected \<in> {None, Some (Revision t)}")
            case False
            then show ?thesis using out put rules by (auto simp: reply_defs simp flip: spec_def)
          next
            case current: True
            show ?thesis
            proof (cases "refused_field t spec")
              case (Some f)
              then show ?thesis using out put rules current by (auto simp: reply_defs simp flip: spec_def)
            next
              case None
              then show ?thesis using out put rules current named body v api
                by (cases "save (Revision t + 1) spec w"; cases "fst (save (Revision t + 1) spec w)")
                  (auto simp: reply_defs simp flip: spec_def)
            qed
          qed
        qed
      qed
    qed
  qed
qed

section \<open>Sequences of requests\<close>

text \<open>Requests in the order the table's lock serves them, each with the behaviour of its save.\<close>

primrec put_all ::
  "(string \<Rightarrow> string option) \<Rightarrow> ('b list \<Rightarrow> (sub_spec option \<times> 'b list) option) \<Rightarrow> ('b list \<Rightarrow> bool) \<Rightarrow>
     control_settings \<Rightarrow> ((state_error, 'w) commit \<times> 'b request) list \<Rightarrow> subscription_table \<times> 'w \<Rightarrow>
     reply list \<times> subscription_table \<times> 'w" where
  "put_all media decode tokens settings [] s = ([], s)"
| "put_all media decode tokens settings (x # xs) s =
     (case put_subscriptions media decode tokens settings (fst x) (snd x) s of
        ((reply, _), s1) \<Rightarrow> (case put_all media decode tokens settings xs s1 of (replies, s2) \<Rightarrow> (reply # replies, s2)))"

abbreviation replaced_count :: "reply list \<Rightarrow> u64" where
  "replaced_count replies \<equiv> of_nat (length (filter is_replaced replies))"

lemma put_revision:
  assumes "put_subscriptions media decode tokens settings save r (t, w) = ((reply, audits), t', w')"
  shows "Revision t' = Revision t + (if is_replaced reply then 1 else 0)"
    and "is_replaced reply \<Longrightarrow> ifMatch (rq_IfMatch r) = Inr (Some v) \<Longrightarrow> v = Revision t"
  using assms by (auto elim!: put_subscriptions_cases simp: table_Snapshot_def Revision_def is_replaced_def)

lemma put_all_revision:
  assumes "put_all media decode tokens settings rs (t, w) = (replies, t', w')"
  shows "length replies = length rs" "Revision t' = Revision t + replaced_count replies"
    and "i < length rs \<Longrightarrow> is_replaced (replies ! i) \<Longrightarrow> ifMatch (rq_IfMatch (snd (rs ! i))) = Inr (Some v) \<Longrightarrow>
      v = Revision t + replaced_count (take i replies)"
proof -
  have "length replies = length rs \<and> Revision t' = Revision t + replaced_count replies \<and>
    (\<forall>i v. i < length rs \<longrightarrow> is_replaced (replies ! i) \<longrightarrow> ifMatch (rq_IfMatch (snd (rs ! i))) = Inr (Some v) \<longrightarrow>
      v = Revision t + replaced_count (take i replies))"
    using assms
  proof (induction rs arbitrary: t w replies)
    case (Cons x xs)
    obtain reply audits t1 w1 where one: "put_subscriptions media decode tokens settings (fst x) (snd x) (t, w) = ((reply, audits), t1, w1)"
      by (metis prod.exhaust)
    obtain others where "put_all media decode tokens settings xs (t1, w1) = (others, t', w')" "replies = reply # others"
      using Cons.prems by (auto simp: one split: prod.splits)
    with Cons.IH [OF this(1)] put_revision [OF one] show ?case
      by (auto simp: less_Suc_eq_0_disj add.assoc)
  qed simp
  then show "length replies = length rs" "Revision t' = Revision t + replaced_count replies"
    "i < length rs \<Longrightarrow> is_replaced (replies ! i) \<Longrightarrow> ifMatch (rq_IfMatch (snd (rs ! i))) = Inr (Some v) \<Longrightarrow>
      v = Revision t + replaced_count (take i replies)" by blast+
qed

lemma filter_take_less:
  assumes "i < j" "j \<le> length xs" "P (xs ! i)"
  shows "length (filter P (take i xs)) < length (filter P (take j xs))"
proof -
  have "take j xs = take i xs @ xs ! i # drop (Suc i) (take j xs)"
    using assms id_take_nth_drop [of i "take j xs"] by (simp add: min_def)
  then have "filter P (take j xs) = filter P (take i xs) @ xs ! i # filter P (drop (Suc i) (take j xs))"
    using assms(3) by (metis filter.simps(2) filter_append)
  then show ?thesis by simp
qed

section \<open>Properties\<close>

text \<open>
  C7. Compare and swap, with its reasons: a request is refused for the first of the eleven reasons of
  \<open>put_refusals\<close> that applies, with that reason's status, error code and field and one audit record
  that has its code (\<open>invalid_body\<close> for a body that cannot be read), the outcome \<open>conflict\<close> where the status
  is 409 or 412 and \<open>rejected\<close> elsewhere, and the revision before; the table and the file stay as they
  were. If none applies, it arrived in \<open>api\<close> mode and named no revision or the current one; then the
  table and the state file hold the subscriptions it sent under the next revision, the reply carries
  that revision and the entity tag the client can name in its next request, and the one audit record
  says \<open>ok\<close> with both revisions and the number of subscriptions.
\<close>

theorem put_compares_and_swaps:
  assumes "put_subscriptions media decode tokens settings (Save marshal base ft) r (t, d) = ((reply, audits), t', d')"
    and "safe base C d"
  shows "case find fst (put_refusals media decode tokens settings (Save marshal base ft) r t d) of
      Some (_, status', code, field, logged) \<Rightarrow>
        reply = ErrorReply status' code field \<and>
        audits = [\<lparr>au_Action = ''subscriptions.replace'', au_Outcome = (if status' \<in> {409, 412} then ''conflict'' else ''rejected''),
          au_Before = Some (Revision t), au_After = None, au_Count = None, au_Code = logged\<rparr>] \<and>
        t' = t \<and> read_name d' base = read_name d base
    | None \<Rightarrow>
        (let spec = sent_spec decode r; after = Revision t + 1 in
         ct_Source settings = ''api'' \<and> ct_Store settings \<and> ifMatch (rq_IfMatch r) \<in> {Inr None, Inr (Some (Revision t))} \<and>
         (\<exists>rest. decode (fst (rq_Body r)) = Some (Some spec, rest) \<and> \<not> tokens rest) \<and>
         reply = ReplacedReply (etag after) after \<and> ifMatch (etag after) = Inr (Some after) \<and>
         audits = [\<lparr>au_Action = ''subscriptions.replace'', au_Outcome = ''ok'', au_Before = Some (Revision t), au_After = Some after,
           au_Count = Some (length spec), au_Code = ''''\<rparr>] \<and>
         table_Snapshot t' = (spec, after) \<and>
         read_name d' base = Some (marshal \<lparr>sts_Version = Version, sts_Revision = after, sts_Subscriptions = spec\<rparr>))"
proof -
  note put = put_first_reason [OF assms(1)]
  show ?thesis
  proof (cases "find fst (put_refusals media decode tokens settings (Save marshal base ft) r t d)")
    case None
    then show ?thesis using put Save_done [OF _ assms(2)] by (auto simp: Let_def ifMatch_etag)
  next
    case (Some reason)
    obtain b status' code field logged where "reason = (b, status', code, field, logged)" by (rule prod_cases5)
    then show ?thesis using put Some Save_failed [OF _ assms(2)] by auto
  qed
qed

text \<open>
  C8. No lost updates: of the requests that name the same revision, at most one replaces the
  subscriptions, whatever other requests are served between them; and the revision counts the
  replacements.
\<close>

theorem no_lost_update:
  assumes "put_all media decode tokens settings rs (t, w) = (replies, t', w')" "length rs < 2 ^ 64"
    and "i < j" "j < length rs"
    and "ifMatch (rq_IfMatch (snd (rs ! i))) = Inr (Some v)" "ifMatch (rq_IfMatch (snd (rs ! j))) = Inr (Some v)"
  shows "\<not> (is_replaced (replies ! i) \<and> is_replaced (replies ! j)) \<and>
    unat (Revision t' - Revision t) = length (filter is_replaced replies)"
proof -
  note all = put_all_revision [OF assms(1)]
  have small: "length (filter is_replaced (take n replies)) < 2 ^ 64" for n
    using length_filter_le [of is_replaced "take n replies"] all(1) assms(2) by simp
  have "length (filter is_replaced replies) < 2 ^ 64" using small [of "length replies"] by simp
  then have count: "unat (Revision t' - Revision t) = length (filter is_replaced replies)"
    by (simp add: all(2) unat_of_nat_small)
  have False if both: "is_replaced (replies ! i)" "is_replaced (replies ! j)"
  proof -
    have "i < length rs" using assms(3,4) by simp
    have "replaced_count (take i replies) = replaced_count (take j replies)"
      using all(3) [OF \<open>i < length rs\<close> both(1) assms(5)] all(3) [OF assms(4) both(2) assms(6)] by simp
    then have "unat (replaced_count (take i replies)) = unat (replaced_count (take j replies))" by simp
    then have "length (filter is_replaced (take i replies)) = length (filter is_replaced (take j replies))"
      using small [of i] small [of j] by (simp add: unat_of_nat_small)
    moreover have "length (filter is_replaced (take i replies)) < length (filter is_replaced (take j replies))"
      by (rule filter_take_less) (use assms(3,4) all(1) both(1) in simp_all)
    ultimately show False by simp
  qed
  then show ?thesis using count by blast
qed

section \<open>Properties: connections\<close>

datatype limit_event = Accepting | Closing nat

definition limit_step :: "limit_event \<Rightarrow> control_server \<Rightarrow> control_server" where
  "limit_step e s = (case e of Accepting \<Rightarrow> snd (limit_Accept s) | Closing i \<Rightarrow> limit_Close i s)"

definition limit_inv :: "control_server \<Rightarrow> bool" where
  "limit_inv s \<longleftrightarrow> finite (cs_open s) \<and> cs_active s = int (card (cs_open s)) \<and> cs_active s \<le> cs_max s \<and> 1 \<le> cs_max s \<and>
     cs_max s \<le> 1024 \<and> (\<forall>i \<in> cs_open s. i < cs_accepted s)"

lemma NewControl_inv: "NewControl transport c = Inr s \<Longrightarrow> limit_inv s"
  by (auto simp: NewControl_def Let_def limit_inv_def split: if_splits)

lemma limit_step_inv:
  assumes "limit_inv s"
  shows "limit_inv (limit_step e s) \<and> cs_max (limit_step e s) = cs_max s"
proof (cases e)
  case (Closing i)
  have "int (card (cs_open s - {i})) = int (card (cs_open s)) - 1" if "finite (cs_open s)" "i \<in> cs_open s"
    using card_Suc_Diff1 [OF that] by linarith
  moreover note assms
  ultimately show ?thesis using Closing by (auto simp: limit_step_def limit_Close_def limit_inv_def)
qed (use assms in \<open>auto simp: limit_step_def limit_Accept_def limit_inv_def less_Suc_eq\<close>)

lemma limit_steps_inv: "limit_inv s \<Longrightarrow> limit_inv (fold limit_step es s) \<and> cs_max (fold limit_step es s) = cs_max s"
proof (induction es arbitrary: s)
  case (Cons e es)
  from Cons.IH [of "limit_step e s"] limit_step_inv [OF Cons.prems, of e] show ?case by simp
qed simp

text \<open>
  C40. Connections of the management API: whatever order connections arrive and close in, the counter
  is the number of open connections, closing one twice does not free two places, and no more are
  open than the configured number, which is between 1 and 1024; the next connection is refused
  exactly when that many are open.
\<close>

theorem control_connections_bounded:
  assumes "NewControl transport c = Inr s0" "s = fold limit_step es s0"
  shows "cs_active s = int (card (cs_open s)) \<and> int (card (cs_open s)) \<le> cs_max s \<and> 1 \<le> cs_max s \<and> cs_max s \<le> 1024 \<and>
    cs_max s = (if sc_MaxConns c = 0 then DefaultMaxConns else sc_MaxConns c) \<and>
    (fst (limit_Accept s) = None \<longleftrightarrow> int (card (cs_open s)) = cs_max s) \<and>
    limit_Close i (limit_Close i s) = limit_Close i s"
proof -
  have inv: "limit_inv s" "cs_max s = cs_max s0" using limit_steps_inv [OF NewControl_inv [OF assms(1)], of es] assms(2) by simp_all
  have "cs_max s0 = (if sc_MaxConns c = 0 then DefaultMaxConns else sc_MaxConns c)"
    using assms(1) by (auto simp: NewControl_def Let_def split: if_splits)
  then show ?thesis using inv by (auto simp: limit_inv_def limit_Accept_def limit_Close_def)
qed

section \<open>Witnesses\<close>

definition read_body :: "sub_spec option list \<Rightarrow> (sub_spec option \<times> sub_spec option list) option" where
  "read_body b = (case b of s # rest \<Rightarrow> Some (s, rest) | [] \<Rightarrow> None)"

definition put_request :: "u64 \<Rightarrow> sub_spec \<Rightarrow> sub_spec option request" where
  "put_request r spec = \<lparr>rq_ContentType = ''application/json'', rq_Authorization = '''', rq_IfMatch = etag r, rq_Body = ([Some spec], False)\<rparr>"

definition api_settings :: control_settings where
  "api_settings = \<lparr>ct_Source = ''api'', ct_Store = True\<rparr>"

definition put_example :: "(reply \<times> audit list) \<times> subscription_table \<times> subscription_state disk" where
  "put_example = put_subscriptions Some read_body (\<lambda>rest. rest \<noteq> []) api_settings (Save (\<lambda>s. [s]) ''state.json'' good_disk)
     (put_request 0 witness_spec) (NewSubscriptionTableWith [''erp''] CompileIndex, empty_disk)"

lemma put_example_replaced: "is_replaced (fst (fst put_example))"
  by code_simp

definition stale_example :: "(reply \<times> audit list) \<times> subscription_table \<times> subscription_state disk" where
  "stale_example = put_subscriptions Some read_body (\<lambda>rest. rest \<noteq> []) api_settings (Save (\<lambda>s. [s]) ''state.json'' good_disk)
     (put_request 7 witness_spec) (NewSubscriptionTableWith [''erp''] CompileIndex, empty_disk)"

lemma stale_reason:
  "find fst (put_refusals Some read_body (\<lambda>rest. rest \<noteq> []) api_settings (Save (\<lambda>s. [s]) ''state.json'' good_disk)
     (put_request 7 witness_spec) (NewSubscriptionTableWith [''erp''] CompileIndex) empty_disk) =
   Some (True, 412, ''revision_mismatch'', '''', ''revision_mismatch'')"
  by (simp add: put_refusals_def put_request_def api_settings_def read_body_def MaxFileBytes_def ifMatch_etag Revision_def
      NewSubscriptionTableWith_def Let_def)

lemma put_compares_and_swaps_witness:
  "fst (fst put_example) = ReplacedReply (etag 1) 1 \<and> map au_Outcome (snd (fst put_example)) = [''ok''] \<and>
   table_Snapshot (fst (snd put_example)) = (witness_spec, 1) \<and>
   read_name (snd (snd put_example)) ''state.json'' = Some [\<lparr>sts_Version = Version, sts_Revision = 1, sts_Subscriptions = witness_spec\<rparr>] \<and>
   fst (fst stale_example) = ErrorReply 412 ''revision_mismatch'' '''' \<and> map au_Outcome (snd (fst stale_example)) = [''conflict'']"
proof -
  have 0: "sent_spec read_body (put_request v witness_spec) = witness_spec" "Revision (NewSubscriptionTableWith [''erp''] CompileIndex) = 0" for v
    by (simp_all add: sent_spec_def put_request_def read_body_def NewSubscriptionTableWith_def Revision_def)
  note applied = put_compares_and_swaps [of Some read_body "\<lambda>rest. rest \<noteq> []" api_settings "\<lambda>s. [s]" "''state.json''" good_disk _
      "NewSubscriptionTableWith [''erp''] CompileIndex" empty_disk _ _ _ _ "{read_name empty_disk ''state.json''}"]
  note stored = applied [of "put_request 0 witness_spec" "fst (fst put_example)" "snd (fst put_example)" "fst (snd put_example)" "snd (snd put_example)"]
  note stale = applied [of "put_request 7 witness_spec" "fst (fst stale_example)" "snd (fst stale_example)" "fst (snd stale_example)" "snd (snd stale_example)"]
  have "fst (fst put_example) = ReplacedReply (etag 1) 1 \<and> map au_Outcome (snd (fst put_example)) = [''ok''] \<and>
    table_Snapshot (fst (snd put_example)) = (witness_spec, 1) \<and>
    read_name (snd (snd put_example)) ''state.json'' = Some [\<lparr>sts_Version = Version, sts_Revision = 1, sts_Subscriptions = witness_spec\<rparr>]"
    using stored [OF _ empty_disk_safe(1)] put_example_replaced
    by (auto simp: 0 Let_def is_replaced_def simp flip: put_example_def split: option.splits)
  moreover have "fst (fst stale_example) = ErrorReply 412 ''revision_mismatch'' '''' \<and> map au_Outcome (snd (fst stale_example)) = [''conflict'']"
    using stale [OF _ empty_disk_safe(1)] stale_reason by (simp flip: stale_example_def)
  ultimately show ?thesis by blast
qed

definition put_twice :: "reply list \<times> subscription_table \<times> unit" where
  "put_twice = put_all Some read_body (\<lambda>rest. rest \<noteq> []) api_settings
     [(\<lambda>_ _ w. (None, w), put_request 0 witness_spec), (\<lambda>_ _ w. (None, w), put_request 0 [])]
     (NewSubscriptionTableWith [''erp''] CompileIndex, ())"

lemma put_twice_first: "is_replaced (fst put_twice ! 0)"
  by code_simp

lemma no_lost_update_witness:
  "is_replaced (fst put_twice ! 0) \<and> \<not> is_replaced (fst put_twice ! 1)"
proof -
  have tag: "ifMatch (rq_IfMatch (put_request 0 spec)) = Inr (Some 0)" for spec by (simp add: put_request_def ifMatch_etag)
  obtain replies t' where run: "put_twice = (replies, t', ())" by (metis prod.exhaust unit.exhaust)
  note two = no_lost_update [OF run [unfolded put_twice_def], of 0 1 0]
  show ?thesis using two tag put_twice_first unfolding run by simp
qed

lemma control_connections_bounded_witness:
  "\<exists>s0. NewControl TransportUnix \<lparr>sc_Token = '''', sc_MaxConns = 1\<rparr> = Inr s0 \<and>
     int (card (cs_open (fold limit_step [Accepting, Accepting, Closing 0, Closing 0, Accepting] s0))) \<le> 1"
proof -
  obtain s0 where s0: "NewControl TransportUnix \<lparr>sc_Token = '''', sc_MaxConns = 1\<rparr> = Inr s0" by (simp add: NewControl_def)
  from control_connections_bounded [OF s0 refl, of "[Accepting, Accepting, Closing 0, Closing 0, Accepting]" 0]
  show ?thesis using s0 by auto
qed

end
