(* ===== verification/Config_File.thy ===== *)
theory Config_File
  imports Control
begin

text \<open>
  The configuration file, \<^verbatim>\<open>src/internal/config/config.go\<close>, and the secrets it names, \<^verbatim>\<open>secret.go\<close>. The TOML
  and JSON decoders, the environment and the file system are parameters. A file is what its
  metadata says before and after it is opened and what its handle yields. Of an error the model
  keeps which check failed, not the text.
\<close>

section \<open>Reading with a bound\<close>

text \<open>A reader is the bytes it yields and whether it then fails; the limiting reader stops one byte past the limit.\<close>

definition readAllBounded :: "nat \<Rightarrow> 'b list \<times> bool \<Rightarrow> 'b list option" where
  "readAllBounded limit = (\<lambda>(content, fails).
     let body = take (limit + 1) content in
     if fails \<and> length content \<le> limit then None
     else if length body > limit then None else Some body)"

lemma readAllBounded_Some:
  "readAllBounded limit r = Some body \<longleftrightarrow> \<not> snd r \<and> fst r = body \<and> length body \<le> limit"
  by (cases r) (auto simp: readAllBounded_def Let_def min_def)

section \<open>Secrets\<close>

definition MaxSecretBytes :: nat where "MaxSecretBytes = 4096"

datatype secret_error =
    InlineValue | EnvAndFile | NoSource | EnvUnset | NotStat | NotRegular | NotPrivate | SecretTooLarge
  | NotOpened | FileChanged | NotReadable | EmptySecret

datatype secret = Secret string

definition Reveal :: "secret \<Rightarrow> string" where
  "Reveal s = (case s of Secret value \<Rightarrow> value)"

definition redacted :: string where "redacted = ''[redacted]''"

text \<open>\<open>String\<close>, \<open>GoString\<close>, the value that is logged, and the two marshallers.\<close>

definition secret_String :: "secret \<Rightarrow> string" where "secret_String s = redacted"
definition secret_GoString :: "secret \<Rightarrow> string" where "secret_GoString s = redacted"
definition secret_LogValue :: "secret \<Rightarrow> string" where "secret_LogValue s = redacted"
definition secret_MarshalJSON :: "secret \<Rightarrow> string" where "secret_MarshalJSON s = CHR 0x22 # redacted @ [CHR 0x22]"
definition secret_MarshalText :: "secret \<Rightarrow> string" where "secret_MarshalText s = redacted"

record secret_source =
  ss_Env :: string
  ss_File :: string
  ss_Prefix :: string
  ss_Value :: "string option"

definition source_validate :: "secret_source \<Rightarrow> secret_error option" where
  "source_validate s =
     (if ss_Value s \<noteq> None then Some InlineValue
      else if ss_Env s \<noteq> [] \<and> ss_File s \<noteq> [] then Some EnvAndFile
      else if ss_Env s = [] \<and> ss_File s = [] then Some NoSource
      else None)"

record file_info =
  fi_Regular :: bool
  fi_Perm :: u16
  fi_Size :: int
  fi_Object :: nat \<comment> \<open>which file it is, for \<^verbatim>\<open>os.SameFile\<close>\<close>

definition checkSecretFile :: "string \<Rightarrow> file_info \<Rightarrow> secret_error option" where
  "checkSecretFile goos info =
     (if \<not> fi_Regular info then Some NotRegular
      else if goos \<noteq> ''windows'' \<and> fi_Perm info AND 63 \<noteq> 0 then Some NotPrivate
      else if fi_Size info > int MaxSecretBytes then Some SecretTooLarge
      else None)"

text \<open>What a path yields: its metadata, whether it opens, the metadata of the handle and its content.\<close>

record secret_file =
  sf_Stat :: "file_info option"
  sf_Opens :: bool
  sf_Handle :: "file_info option"
  sf_Body :: "string \<times> bool"

definition readSecretFile :: "string \<Rightarrow> secret_file \<Rightarrow> secret_error + string" where
  "readSecretFile goos f =
     (case sf_Stat f of
        None \<Rightarrow> Inl NotStat
      | Some before' \<Rightarrow>
          (case checkSecretFile goos before' of
             Some e \<Rightarrow> Inl e
           | None \<Rightarrow>
               if \<not> sf_Opens f then Inl NotOpened
               else case sf_Handle f of
                 None \<Rightarrow> Inl NotReadable
               | Some opened \<Rightarrow>
                   if fi_Object before' \<noteq> fi_Object opened then Inl FileChanged
                   else case checkSecretFile goos opened of
                     Some e \<Rightarrow> Inl e
                   | None \<Rightarrow>
                       (case readAllBounded MaxSecretBytes (sf_Body f) of
                          None \<Rightarrow> Inl NotReadable
                        | Some body \<Rightarrow>
                            (let body = TrimSuffix (TrimSuffix body [CHR 0x0A]) [CHR 0x0D]
                             in if length body = 0 then Inl EmptySecret else Inr body))))"

definition Resolve ::
  "string \<Rightarrow> (string \<Rightarrow> string option) \<Rightarrow> (string \<Rightarrow> secret_file) \<Rightarrow> secret_source \<Rightarrow> secret_error + secret" where
  "Resolve goos lookup files s =
     (case source_validate s of
        Some e \<Rightarrow> Inl e
      | None \<Rightarrow>
          if ss_Env s \<noteq> [] then
            (case lookup (ss_Env s) of
               None \<Rightarrow> Inl EnvUnset
             | Some v \<Rightarrow> if v = [] then Inl EnvUnset else Inr (Secret (ss_Prefix s @ v)))
          else bind_res (readSecretFile goos (files (ss_File s))) (\<lambda>v. Inr (Secret (ss_Prefix s @ v))))"

section \<open>The file\<close>

record control_section =
  co_Socket :: "string option"
  co_Address :: "string option"
  co_Token :: "secret_source option"

record store_section =
  so_Source :: "string option"
  so_StateFile :: "string option"

record 'f filter_adaptive =
  fa_Candidates :: "string list option"
  fa_SampleEvery :: "int option"
  fa_Warmup :: "int option"
  fa_Window :: "int option"
  fa_Hysteresis :: "'f option"
  fa_Cooldown :: "int option"
  fa_OverheadBudget :: "'f option"
  fa_Shadow :: "string option"
  fa_Experimental :: "bool option"

record 'f filter_section =
  fl_Mode :: "string option"
  fl_Matcher :: "string option"
  fl_Adaptive :: "'f filter_adaptive"

record reader_section =
  rd_Address :: "string option"
  rd_Source :: "string option"
  rd_ConnectTimeout :: "int option"
  rd_HandshakeTimeout :: "int option"
  rd_ReadTimeout :: "int option"
  rd_WriteTimeout :: "int option"
  rd_RetryMin :: "int option"
  rd_RetryMax :: "int option"
  rd_MaxRetries :: "int option"
  rd_MaxFrameBytes :: "u32 option"
  rd_MaxParameterBytes :: "u16 option"
  rd_MaxParameters :: "int option"

record runtime_section =
  rt_QueueCapacity :: "int option"
  rt_ConsumeTimeout :: "int option"
  rt_ShutdownTimeout :: "int option"

record report_section =
  rp_QueueCapacity :: "int option"
  rp_BatchEvents :: "int option"
  rp_BatchBytes :: "int option"
  rp_FlushInterval :: "int option"
  rp_RequestTimeout :: "int option"
  rp_MaxAttempts :: "int option"
  rp_BackoffBase :: "int option"
  rp_BackoffMax :: "int option"
  rp_RetryBudget :: "int option"

text \<open>The headers of a destination are a map; the list is in the order the loops visit it.\<close>

record file_destination =
  cd_Name :: string
  cd_URL :: string
  cd_Headers :: "(string \<times> secret_source) list"

record 'f config_file =
  cf_Version :: int
  cf_Reader :: reader_section
  cf_Telemetry :: "string option"
  cf_Runtime :: runtime_section
  cf_Report :: report_section
  cf_Control :: control_section
  cf_Store :: store_section
  cf_Filter :: "'f filter_section"
  cf_Destinations :: "file_destination list"
  cf_Subscriptions :: sub_spec

definition SubscriptionSource :: "'f config_file \<Rightarrow> string" where
  "SubscriptionSource f = (case so_Source (cf_Store f) of None \<Rightarrow> ''file'' | Some s \<Rightarrow> s)"

definition FilterMode :: "'f config_file \<Rightarrow> string" where
  "FilterMode f = (case fl_Mode (cf_Filter f) of None \<Rightarrow> ''single'' | Some s \<Rightarrow> s)"

definition FilterMatcher :: "'f config_file \<Rightarrow> string" where
  "FilterMatcher f = (case fl_Matcher (cf_Filter f) of None \<Rightarrow> ''index'' | Some s \<Rightarrow> s)"

definition adaptive_set :: "'f filter_adaptive \<Rightarrow> bool" where
  "adaptive_set a \<longleftrightarrow> fa_Candidates a \<noteq> None \<or> fa_SampleEvery a \<noteq> None \<or> fa_Warmup a \<noteq> None \<or> fa_Window a \<noteq> None \<or>
     fa_Hysteresis a \<noteq> None \<or> fa_Cooldown a \<noteq> None \<or> fa_OverheadBudget a \<noteq> None \<or> fa_Shadow a \<noteq> None \<or>
     fa_Experimental a \<noteq> None"

datatype file_error =
    BadVersion | DestinationName nat | DestinationURL nat | BadHeader nat string secret_error | SubscriptionInvalid
  | TwoListeners | BadToken secret_error | StateFileUnused | StateFileMissing | StateFileRelative | SubscriptionsListed
  | BadSource | BadMatcher | AdaptiveUnused | MatcherUnused | BadCandidate nat | BadShadow | BadMode

definition filter_validate :: "'f filter_section \<Rightarrow> string \<Rightarrow> string \<Rightarrow> file_error + unit" where
  "filter_validate flt mode matcher' =
     (if matcher' \<noteq> ''index'' \<and> matcher' \<noteq> ''linear'' then Inl BadMatcher
      else if mode = ''single'' then if adaptive_set (fl_Adaptive flt) then Inl AdaptiveUnused else Inr ()
      else if mode = ''adaptive'' then
        if fl_Matcher flt \<noteq> None then Inl MatcherUnused
        else
          bind_res (fold_res (\<lambda>(i, c) _. if c \<noteq> ''index'' \<and> c \<noteq> ''linear'' then Inl (BadCandidate i) else Inr ())
            (enumerate 0 (case fa_Candidates (fl_Adaptive flt) of None \<Rightarrow> [] | Some cs \<Rightarrow> cs)) ()) (\<lambda>_.
          case fa_Shadow (fl_Adaptive flt) of
            None \<Rightarrow> Inr ()
          | Some s \<Rightarrow> if s \<noteq> ''sampled'' \<and> s \<noteq> ''full'' then Inl BadShadow else Inr ())
      else Inl BadMode)"

definition destination_validate :: "nat \<times> file_destination \<Rightarrow> file_error + unit" where
  "destination_validate = (\<lambda>(i, d).
     if cd_Name d = [] then Inl (DestinationName i)
     else if cd_URL d = [] then Inl (DestinationURL i)
     else fold_res (\<lambda>(name, source) _. case source_validate source of Some e \<Rightarrow> Inl (BadHeader i name e) | None \<Rightarrow> Inr ())
       (cd_Headers d) ())"

definition store_validate :: "'f config_file \<Rightarrow> file_error + unit" where
  "store_validate f =
     (let source = SubscriptionSource f; state = so_StateFile (cf_Store f) in
      if source = ''file'' then if state \<noteq> None then Inl StateFileUnused else Inr ()
      else if source = ''api'' then
        (case state of
           None \<Rightarrow> Inl StateFileMissing
         | Some path \<Rightarrow>
             if path = [] then Inl StateFileMissing
             else if \<not> IsAbs path then Inl StateFileRelative
             else if length (cf_Subscriptions f) > 0 then Inl SubscriptionsListed
             else Inr ())
      else Inl BadSource)"

definition file_validate :: "'f config_file \<Rightarrow> file_error + unit" where
  "file_validate f =
     (if cf_Version f \<noteq> Version then Inl BadVersion
      else
        bind_res (fold_res (\<lambda>x _. destination_validate x) (enumerate 0 (cf_Destinations f)) ()) (\<lambda>_.
        if \<not> validateSubscriptions (cf_Subscriptions f) then Inl SubscriptionInvalid
        else if co_Socket (cf_Control f) \<noteq> None \<and> co_Address (cf_Control f) \<noteq> None then Inl TwoListeners
        else
          bind_res (case co_Token (cf_Control f) of
              None \<Rightarrow> Inr ()
            | Some s \<Rightarrow> (case source_validate s of Some e \<Rightarrow> Inl (BadToken e) | None \<Rightarrow> Inr ())) (\<lambda>_.
          bind_res (store_validate f) (\<lambda>_.
          filter_validate (cf_Filter f) (FilterMode f) (FilterMatcher f)))))"

datatype load_error = Unreadable | UnknownFormat | Undecodable | UnknownKeys | TrailingData | Refused file_error

text \<open>
  \<open>decode\<close>: \<open>toml\<close> yields a file and the keys it did not decode, \<open>json\<close> is the strict decoder with what
  it left unread, and \<open>tokens\<close> says whether a token follows there.
\<close>

definition decode_file ::
  "('b list \<Rightarrow> ('f config_file \<times> string list) option) \<Rightarrow> ('b list \<Rightarrow> ('f config_file \<times> 'b list) option) \<Rightarrow> ('b list \<Rightarrow> bool) \<Rightarrow>
     string \<Rightarrow> 'b list \<Rightarrow> load_error + 'f config_file" where
  "decode_file toml json tokens ext body =
     bind_res
       (if ext = ''.toml'' then
          (case toml body of
             None \<Rightarrow> Inl Undecodable
           | Some (f, undecoded) \<Rightarrow> if length undecoded > 0 then Inl UnknownKeys else Inr f)
        else if ext = ''.json'' then
          (case json body of
             None \<Rightarrow> Inl Undecodable
           | Some (f, rest) \<Rightarrow> if tokens rest then Inl TrailingData else Inr f)
        else Inl UnknownFormat)
       (\<lambda>f. case file_validate f of Inl e \<Rightarrow> Inl (Refused e) | Inr _ \<Rightarrow> Inr f)"

text \<open>\<^verbatim>\<open>filepath.Ext\<close>: what follows the last dot of the last element of a path, dot included.\<close>

definition Ext :: "string \<Rightarrow> string" where
  "Ext path =
     (let element = takeWhile (\<lambda>c. c \<noteq> CHR ''/'') (rev path); ext = takeWhile (\<lambda>c. c \<noteq> CHR ''.'') element
      in if length ext = length element then [] else CHR ''.'' # rev ext)"

text \<open>The content is \<open>None\<close> where the file does not open.\<close>

definition Load ::
  "('b list \<Rightarrow> ('f config_file \<times> string list) option) \<Rightarrow> ('b list \<Rightarrow> ('f config_file \<times> 'b list) option) \<Rightarrow> ('b list \<Rightarrow> bool) \<Rightarrow>
     string \<Rightarrow> ('b list \<times> bool) option \<Rightarrow> load_error + 'f config_file" where
  "Load toml json tokens path content =
     (case content of
        None \<Rightarrow> Inl Unreadable
      | Some r \<Rightarrow>
          (case readAllBounded MaxFileBytes r of
             None \<Rightarrow> Inl Unreadable
           | Some body \<Rightarrow> decode_file toml json tokens (map lower (Ext path)) body))"

section \<open>Facts\<close>

lemma TrimSuffix_char:
  obtains "TrimSuffix s [c] = s" | "s = TrimSuffix s [c] @ [c]"
proof (cases "HasSuffix s [c]")
  case True
  then have "drop (length s - 1) s = [c]" by (simp add: HasSuffix_def)
  then have "s = TrimSuffix s [c] @ [c]" using True append_take_drop_id [of "length s - 1" s] by (simp add: TrimSuffix_def)
  then show thesis by (rule that(2))
qed (simp add: TrimSuffix_def that(1))

text \<open>A secret from a file is its content without the end of its last line.\<close>

lemma trim_line_end:
  "\<exists>end' \<in> {[], [CHR 0x0A], [CHR 0x0D], [CHR 0x0D, CHR 0x0A]}. body = TrimSuffix (TrimSuffix body [CHR 0x0A]) [CHR 0x0D] @ end'"
proof -
  let ?line = "TrimSuffix body [CHR 0x0A]"
  consider "?line = body" | "body = ?line @ [CHR 0x0A]" by (rule TrimSuffix_char)
  moreover consider "TrimSuffix ?line [CHR 0x0D] = ?line" | "?line = TrimSuffix ?line [CHR 0x0D] @ [CHR 0x0D]" by (rule TrimSuffix_char)
  ultimately show ?thesis by (smt (verit) append.assoc append_Cons append_Nil append_Nil2 insertCI)
qed

definition private_file :: "string \<Rightarrow> file_info \<Rightarrow> bool" where
  "private_file goos info \<longleftrightarrow> fi_Regular info \<and> (goos = ''windows'' \<or> fi_Perm info AND 63 = 0) \<and> fi_Size info \<le> int MaxSecretBytes"

lemma checkSecretFile_None: "checkSecretFile goos info = None \<longleftrightarrow> private_file goos info"
  by (auto simp: checkSecretFile_def private_file_def)

lemma readSecretFile_Inr:
  assumes "readSecretFile goos f = Inr v"
  shows "v \<noteq> [] \<and> sf_Opens f \<and> (\<exists>before' opened. sf_Stat f = Some before' \<and> sf_Handle f = Some opened \<and>
    fi_Object before' = fi_Object opened \<and> private_file goos before' \<and> private_file goos opened) \<and>
    length (fst (sf_Body f)) \<le> MaxSecretBytes \<and> v = TrimSuffix (TrimSuffix (fst (sf_Body f)) [CHR 0x0A]) [CHR 0x0D]"
  using assms
  by (auto simp: readSecretFile_def Let_def checkSecretFile_None readAllBounded_Some split: option.splits if_splits)

lemma fold_res_unit: "fold_res (\<lambda>x _. f x) xs () = Inr () \<longleftrightarrow> list_all (\<lambda>x. f x = Inr ()) xs"
  by (induction xs) auto

text \<open>What a file that loads is known to satisfy.\<close>

definition file_wf :: "'f config_file \<Rightarrow> bool" where
  "file_wf f \<longleftrightarrow> cf_Version f = Version \<and> validateSubscriptions (cf_Subscriptions f) \<and>
     list_all (\<lambda>d. cd_Name d \<noteq> [] \<and> cd_URL d \<noteq> [] \<and> list_all (\<lambda>(_, s). source_validate s = None) (cd_Headers d)) (cf_Destinations f) \<and>
     (co_Socket (cf_Control f) = None \<or> co_Address (cf_Control f) = None) \<and>
     (\<forall>s. co_Token (cf_Control f) = Some s \<longrightarrow> source_validate s = None) \<and>
     (SubscriptionSource f = ''file'' \<and> so_StateFile (cf_Store f) = None \<or>
      SubscriptionSource f = ''api'' \<and> cf_Subscriptions f = [] \<and> (\<exists>path. so_StateFile (cf_Store f) = Some path \<and> IsAbs path)) \<and>
     FilterMatcher f \<in> {''index'', ''linear''} \<and>
     (FilterMode f = ''single'' \<and> \<not> adaptive_set (fl_Adaptive (cf_Filter f)) \<or>
      FilterMode f = ''adaptive'' \<and> fl_Matcher (cf_Filter f) = None \<and>
      (\<forall>cs. fa_Candidates (fl_Adaptive (cf_Filter f)) = Some cs \<longrightarrow> set cs \<subseteq> {''index'', ''linear''}) \<and>
      (\<forall>s. fa_Shadow (fl_Adaptive (cf_Filter f)) = Some s \<longrightarrow> s \<in> {''sampled'', ''full''}))"

lemma destination_validate_Inr:
  "destination_validate (i, d) = Inr () \<longleftrightarrow>
     cd_Name d \<noteq> [] \<and> cd_URL d \<noteq> [] \<and> list_all (\<lambda>(_, s). source_validate s = None) (cd_Headers d)"
proof -
  have "fold_res (\<lambda>(name, source) _. case source_validate source of Some e \<Rightarrow> Inl (BadHeader i name e) | None \<Rightarrow> Inr ()) hs () = Inr () \<longleftrightarrow>
      list_all (\<lambda>(_, s). source_validate s = None) hs" for hs
    by (induction hs) (auto split: option.splits)
  then show ?thesis by (simp add: destination_validate_def)
qed

lemma destinations_validate:
  "fold_res (\<lambda>x _. destination_validate x) (enumerate k ds) () = Inr () \<longleftrightarrow>
     list_all (\<lambda>d. cd_Name d \<noteq> [] \<and> cd_URL d \<noteq> [] \<and> list_all (\<lambda>(_, s). source_validate s = None) (cd_Headers d)) ds"
  by (induction ds arbitrary: k) (auto simp: destination_validate_Inr)

lemma candidates_validate:
  "fold_res (\<lambda>(i, c) _. if c \<noteq> ''index'' \<and> c \<noteq> ''linear'' then Inl (BadCandidate i) else Inr ()) (enumerate k cs) () = Inr () \<longleftrightarrow>
     set cs \<subseteq> {''index'', ''linear''}"
  by (induction cs arbitrary: k) auto

lemma filter_validate_Inr:
  "filter_validate flt mode m = Inr () \<longleftrightarrow> m \<in> {''index'', ''linear''} \<and>
     (mode = ''single'' \<and> \<not> adaptive_set (fl_Adaptive flt) \<or>
      mode = ''adaptive'' \<and> fl_Matcher flt = None \<and>
      (\<forall>cs. fa_Candidates (fl_Adaptive flt) = Some cs \<longrightarrow> set cs \<subseteq> {''index'', ''linear''}) \<and>
      (\<forall>s. fa_Shadow (fl_Adaptive flt) = Some s \<longrightarrow> s \<in> {''sampled'', ''full''}))"
proof (cases "mode = ''adaptive''")
  case True
  then show ?thesis
    by (cases "fa_Candidates (fl_Adaptive flt)"; cases "fa_Shadow (fl_Adaptive flt)")
      (auto simp: filter_validate_def candidates_validate simp del: enumerate_simps)
qed (auto simp: filter_validate_def)

lemma store_validate_Inr:
  "store_validate f = Inr () \<longleftrightarrow> SubscriptionSource f = ''file'' \<and> so_StateFile (cf_Store f) = None \<or>
     SubscriptionSource f = ''api'' \<and> cf_Subscriptions f = [] \<and> (\<exists>path. so_StateFile (cf_Store f) = Some path \<and> IsAbs path)"
  by (auto simp: store_validate_def Let_def IsAbs_def HasPrefix_def split: option.splits)

lemma file_validate_Inr: "file_validate f = Inr () \<longleftrightarrow> file_wf f"
  by (cases "co_Token (cf_Control f)")
    (auto simp: file_validate_def file_wf_def destinations_validate filter_validate_Inr store_validate_Inr
      split: option.splits simp del: enumerate_simps)

lemma decode_file_Inr:
  "decode_file toml json tokens ext body = Inr f \<longleftrightarrow>
     (ext = ''.toml'' \<and> toml body = Some (f, []) \<or> ext = ''.json'' \<and> (\<exists>rest. json body = Some (f, rest) \<and> \<not> tokens rest)) \<and> file_wf f"
proof -
  have "decode_file toml json tokens ext body = Inr f \<longleftrightarrow>
      (ext = ''.toml'' \<and> toml body = Some (f, []) \<or> ext = ''.json'' \<and> (\<exists>rest. json body = Some (f, rest) \<and> \<not> tokens rest)) \<and>
      file_validate f = Inr ()"
    by (auto simp: decode_file_def wrap_error_Inr split: option.splits prod.splits)
  then show ?thesis by (simp only: file_validate_Inr)
qed

section \<open>Properties\<close>

text \<open>
  C38. Secrets: a secret that resolves comes from exactly one source and is never empty behind its
  prefix. One from a file is the content of the very file that was checked, a regular file of at
  most 4096 bytes that only its owner may use, without the end of its last line; an inline value
  is always refused. No rendering of a secret depends on its value.
\<close>

theorem resolved_secret:
  assumes "Resolve goos lookup files s = Inr secret"
  shows "ss_Value s = None \<and> (ss_Env s = [] \<longleftrightarrow> ss_File s \<noteq> []) \<and>
    (\<exists>v. v \<noteq> [] \<and> Reveal secret = ss_Prefix s @ v \<and>
      (if ss_Env s \<noteq> [] then lookup (ss_Env s) = Some v
       else let f = files (ss_File s) in
         (\<exists>before' opened. sf_Stat f = Some before' \<and> sf_Handle f = Some opened \<and> fi_Object before' = fi_Object opened \<and>
           private_file goos before' \<and> private_file goos opened) \<and> length (fst (sf_Body f)) \<le> MaxSecretBytes \<and>
         (\<exists>end' \<in> {[], [CHR 0x0A], [CHR 0x0D], [CHR 0x0D, CHR 0x0A]}. fst (sf_Body f) = v @ end'))) \<and>
    (secret_String secret, secret_GoString secret, secret_LogValue secret, secret_MarshalText secret, secret_MarshalJSON secret) =
      (redacted, redacted, redacted, redacted, CHR 0x22 # redacted @ [CHR 0x22])"
proof -
  have valid: "source_validate s = None" using assms by (simp add: Resolve_def split: option.splits)
  then have one: "ss_Value s = None" "ss_Env s = [] \<longleftrightarrow> ss_File s \<noteq> []" by (auto simp: source_validate_def split: if_splits)
  have "\<exists>v. v \<noteq> [] \<and> Reveal secret = ss_Prefix s @ v \<and>
      (if ss_Env s \<noteq> [] then lookup (ss_Env s) = Some v else readSecretFile goos (files (ss_File s)) = Inr v)"
    using assms valid
    by (auto simp: Resolve_def Reveal_def split: option.splits if_splits dest: readSecretFile_Inr)
  then obtain v where v: "v \<noteq> []" "Reveal secret = ss_Prefix s @ v"
    "if ss_Env s \<noteq> [] then lookup (ss_Env s) = Some v else readSecretFile goos (files (ss_File s)) = Inr v" by blast
  show ?thesis
  proof (cases "ss_Env s = []")
    case True
    then have "readSecretFile goos (files (ss_File s)) = Inr v" using v(3) by simp
    from readSecretFile_Inr [OF this] trim_line_end [of "fst (sf_Body (files (ss_File s)))"]
    show ?thesis using one v(1,2) True
      by (simp add: Let_def secret_String_def secret_GoString_def secret_LogValue_def secret_MarshalText_def secret_MarshalJSON_def)
  next
    case False
    then show ?thesis using one v
      by (simp add: secret_String_def secret_GoString_def secret_LogValue_def secret_MarshalText_def secret_MarshalJSON_def)
  qed
qed

text \<open>
  C37. Files: a configuration file loads exactly when it is at most a megabyte, its decoder takes all of it without
  unknown keys or trailing data, and it is well formed: its version is supported, every destination
  has a name, an address and headers whose secrets name one source, at most one listener is set,
  subscriptions are either listed in the file or held by a state file with an absolute path, and
  the matcher it selects exists.
\<close>

theorem loaded_file_is_well_formed:
  "Load toml json tokens path content = Inr f \<longleftrightarrow>
     (\<exists>body. content = Some (body, False) \<and> length body \<le> MaxFileBytes \<and>
       (map lower (Ext path) = ''.toml'' \<and> toml body = Some (f, []) \<or>
        map lower (Ext path) = ''.json'' \<and> (\<exists>rest. json body = Some (f, rest) \<and> \<not> tokens rest))) \<and> file_wf f"
proof (cases content)
  case (Some r)
  show ?thesis
  proof (cases "readAllBounded MaxFileBytes r")
    case None
    then have "\<not> (\<not> snd r \<and> length (fst r) \<le> MaxFileBytes)" using readAllBounded_Some [of MaxFileBytes r "fst r"] by simp
    then show ?thesis using None Some by (simp add: Load_def) auto
  next
    case (Some body)
    then have "r = (body, False)" "length body \<le> MaxFileBytes" by (simp_all add: readAllBounded_Some prod_eq_iff)
    then show ?thesis using Some \<open>content = Some r\<close> by (simp add: Load_def decode_file_Inr)
  qed
qed (simp add: Load_def)

section \<open>Witnesses\<close>

lemma resolved_secret_witness:
  "let f = \<lparr>sf_Stat = Some \<lparr>fi_Regular = True, fi_Perm = 384, fi_Size = 4, fi_Object = 1\<rparr>, sf_Opens = True,
         sf_Handle = Some \<lparr>fi_Regular = True, fi_Perm = 384, fi_Size = 4, fi_Object = 1\<rparr>, sf_Body = (''key'' @ [CHR 0x0A], False)\<rparr>;
       s = \<lparr>ss_Env = [], ss_File = ''/run/key'', ss_Prefix = ''Bearer '', ss_Value = None\<rparr>
   in \<exists>secret. Resolve ''linux'' (\<lambda>_. None) (\<lambda>_. f) s = Inr secret \<and> Reveal secret = ''Bearer key'' \<and> secret_String secret = redacted"
proof -
  define f where "f = \<lparr>sf_Stat = Some \<lparr>fi_Regular = True, fi_Perm = 384, fi_Size = 4, fi_Object = 1\<rparr>, sf_Opens = True,
         sf_Handle = Some \<lparr>fi_Regular = True, fi_Perm = 384, fi_Size = 4, fi_Object = 1\<rparr>, sf_Body = (''key'' @ [CHR 0x0A], False)\<rparr>"
  define s where "s = \<lparr>ss_Env = [], ss_File = ''/run/key'', ss_Prefix = ''Bearer '', ss_Value = None\<rparr>"
  have r: "Resolve ''linux'' (\<lambda>_. None) (\<lambda>_. f) s = Inr (Secret ''Bearer key'')" 
    by (simp add: f_def s_def Resolve_def source_validate_def readSecretFile_def checkSecretFile_def readAllBounded_def
        MaxSecretBytes_def TrimSuffix_def HasSuffix_def Let_def)
  from resolved_secret [OF r] show ?thesis unfolding Let_def f_def [symmetric] s_def [symmetric]
    using r by (auto simp: Reveal_def)
qed

end
