(* ===== verification/Report.thy ===== *)
theory Report
  imports Report_Encode
begin

text \<open>
  Settings of the report dispatcher and the errors a destination answers with, from
  \<^verbatim>\<open>src/internal/report/report.go\<close> and the first part of \<^verbatim>\<open>src/internal/report/dispatcher.go\<close>.
  Durations are 64-bit nanosecond counts with Go's wrap-around written out.
\<close>

section \<open>Errors of a destination\<close>

text \<open>The chain of errors that \<^verbatim>\<open>errors.As\<close> searches from the outside in.\<close>

datatype deliver_error =
    PlainError
  | PermanentError deliver_error
  | RetryAfterError deliver_error (re_after: int)
  | WrappedError deliver_error

definition Permanent :: "deliver_error option \<Rightarrow> deliver_error option" where
  "Permanent err = map_option PermanentError err"

fun IsPermanent :: "deliver_error \<Rightarrow> bool" where
  "IsPermanent PlainError = False"
| "IsPermanent (PermanentError _) = True"
| "IsPermanent (RetryAfterError e _) = IsPermanent e"
| "IsPermanent (WrappedError e) = IsPermanent e"

definition RetryAfter :: "deliver_error option \<Rightarrow> int \<Rightarrow> deliver_error option" where
  "RetryAfter err wait = map_option (\<lambda>e. RetryAfterError e wait) err"

fun retryAfterHint :: "deliver_error \<Rightarrow> int option" where
  "retryAfterHint PlainError = None"
| "retryAfterHint (PermanentError e) = retryAfterHint e"
| "retryAfterHint (RetryAfterError _ wait) = Some wait"
| "retryAfterHint (WrappedError e) = retryAfterHint e"

section \<open>Settings\<close>

record report_config =
  QueueCapacity :: int
  BatchEvents :: int
  BatchBytes :: int
  FlushInterval :: int
  RequestTimeout :: int
  MaxAttempts :: int
  BackoffBase :: int
  BackoffMax :: int
  RetryBudget :: int

definition millisecond :: int where "millisecond = 1000000"
definition a_second :: int where "a_second = 1000 * millisecond"
definition an_hour :: int where "an_hour = 3600 * a_second"

lemmas durations = millisecond_def a_second_def an_hour_def

definition report_DefaultConfig :: report_config where
  "report_DefaultConfig = \<lparr>QueueCapacity = 10000, BatchEvents = 500, BatchBytes = 1048576,
     FlushInterval = a_second, RequestTimeout = 5 * a_second, MaxAttempts = 10,
     BackoffBase = 200 * millisecond, BackoffMax = 10 * a_second, RetryBudget = 30 * a_second\<rparr>"

datatype report_error = ErrConfig

definition report_Validate :: "report_config \<Rightarrow> report_error + unit" where
  "report_Validate c =
     (if QueueCapacity c < 1 \<or> QueueCapacity c > 1000000 then Inl ErrConfig
      else if BatchEvents c < 1 \<or> BatchEvents c > QueueCapacity c then Inl ErrConfig
      else if BatchBytes c < 1024 \<or> BatchBytes c > 67108864 then Inl ErrConfig
      else if FlushInterval c \<le> 0 \<or> RequestTimeout c \<le> 0 \<or> BackoffBase c \<le> 0 then Inl ErrConfig
      else if BackoffMax c < BackoffBase c then Inl ErrConfig
      else if MaxAttempts c < 1 \<or> MaxAttempts c > 100 then Inl ErrConfig
      else if RetryBudget c \<le> 0 \<or> RetryBudget c > an_hour then Inl ErrConfig
      else Inr ())"

text \<open>The pattern \<^verbatim>\<open>^[A-Za-z0-9][A-Za-z0-9_.-]{0,63}$\<close>.\<close>

definition alphanumeric :: "char \<Rightarrow> bool" where
  "alphanumeric c \<longleftrightarrow> c \<ge> CHR ''A'' \<and> c \<le> CHR ''Z'' \<or> c \<ge> CHR ''a'' \<and> c \<le> CHR ''z'' \<or> c \<ge> CHR ''0'' \<and> c \<le> CHR ''9''"

definition destinationName :: "string \<Rightarrow> bool" where
  "destinationName s =
     (case s of
        [] \<Rightarrow> False
      | c # cs \<Rightarrow> alphanumeric c \<and> length cs \<le> 63 \<and> list_all (\<lambda>c. alphanumeric c \<or> c \<in> set ''_.-'') cs)"

section \<open>Backoff\<close>

function report_backoff_loop :: "report_config \<Rightarrow> int \<Rightarrow> int \<Rightarrow> int \<Rightarrow> int" where
  "report_backoff_loop c attempt i wait =
     (if i < attempt \<and> wait < BackoffMax c then report_backoff_loop c attempt (i + 1) (wrap64 (wait * 2)) else wait)"
  by pat_completeness auto
termination by (relation "measure (\<lambda>(c, attempt, i, wait). nat (attempt - i))") auto

declare report_backoff_loop.simps [simp del]

definition report_backoff :: "report_config \<Rightarrow> int \<Rightarrow> int" where
  "report_backoff c attempt = min (report_backoff_loop c attempt 1 (BackoffBase c)) (BackoffMax c)"

text \<open>How long to wait after a failed attempt: the destination's hint, where it asks for more.\<close>

definition retry_wait :: "report_config \<Rightarrow> int \<Rightarrow> deliver_error \<Rightarrow> int" where
  "retry_wait c attempt e =
     (let wait = report_backoff c attempt in
      case retryAfterHint e of
        None \<Rightarrow> wait
      | Some hint \<Rightarrow> if hint > wait then min hint (BackoffMax c) else wait)"

section \<open>Facts\<close>

definition valid_report_config :: "report_config \<Rightarrow> bool" where
  "valid_report_config c \<longleftrightarrow> report_Validate c = Inr () \<and> is_int64 (BackoffMax c)"

lemma valid_report_configD:
  assumes "valid_report_config c"
  shows "1 \<le> QueueCapacity c" "1 \<le> BatchEvents c" "BatchEvents c \<le> QueueCapacity c" "1024 \<le> BatchBytes c"
    "0 < BackoffBase c" "BackoffBase c \<le> BackoffMax c" "is_int64 (BackoffMax c)" "1 \<le> MaxAttempts c"
    "0 < RetryBudget c" "RetryBudget c \<le> an_hour"
  using assms by (auto simp: valid_report_config_def report_Validate_def split: if_splits)

text \<open>
  As long as the doubled delays fit, or the maximum keeps them small, the loop computes the
  doubled base cut off at the maximum.
\<close>

lemma report_backoff_loop_eq:
  assumes "0 < wait" "wait * 2 ^ nat (attempt - i) < 2 ^ 63 \<or> BackoffMax c \<le> 2 ^ 62"
  shows "min (report_backoff_loop c attempt i wait) (BackoffMax c) = min (wait * 2 ^ nat (attempt - i)) (BackoffMax c)"
  using assms
proof (induction c attempt i wait rule: report_backoff_loop.induct)
  case (1 c attempt i wait)
  show ?case
  proof (cases "i < attempt \<and> wait < BackoffMax c")
    case False
    moreover have "wait \<le> wait * 2 ^ nat (attempt - i)" using "1.prems" by simp
    ultimately show ?thesis by (auto simp: report_backoff_loop.simps [of c attempt i wait])
  next
    case True
    then have pow: "nat (attempt - i) = Suc (nat (attempt - (i + 1)))" by linarith
    have "wait * 2 \<le> wait * 2 * 2 ^ nat (attempt - (i + 1))" using "1.prems"(1) by simp
    also have "\<dots> = wait * 2 ^ nat (attempt - i)" by (simp add: pow)
    finally have le: "wait * 2 \<le> wait * 2 ^ nat (attempt - i)" .
    from "1.prems"(2) have "wait * 2 < 2 ^ 63"
    proof
      assume "BackoffMax c \<le> 2 ^ 62"
      with True show ?thesis by simp
    qed (use le in linarith)
    then have "wrap64 (wait * 2) = wait * 2" using "1.prems"(1) by (intro wrap64_id) (simp add: is_int64_def)
    with "1.IH" [OF True] "1.prems" True pow show ?thesis
      by (simp add: report_backoff_loop.simps [of c attempt i wait])
  qed
qed

lemma report_backoff_eq:
  assumes "0 < BackoffBase c" "BackoffBase c * 2 ^ nat (attempt - 1) < 2 ^ 63 \<or> BackoffMax c \<le> 2 ^ 62"
  shows "report_backoff c attempt = min (BackoffBase c * 2 ^ nat (attempt - 1)) (BackoffMax c)"
  unfolding report_backoff_def using assms by (intro report_backoff_loop_eq)

lemma report_backoff_first: "BackoffBase c \<le> BackoffMax c \<Longrightarrow> report_backoff c 1 = BackoffBase c"
  by (simp add: report_backoff_def report_backoff_loop.simps [of c 1 1])

lemma retry_wait_bounds:
  assumes "report_backoff c attempt \<le> BackoffMax c"
  shows "report_backoff c attempt \<le> retry_wait c attempt e" "retry_wait c attempt e \<le> BackoffMax c"
  using assms by (auto simp: retry_wait_def Let_def split: option.splits)

end
