(* ===== verification/Dispatcher.thy ===== *)
theory Dispatcher
  imports Report "HOL-Library.Sublist"
begin

text \<open>
  The report dispatcher, \<^verbatim>\<open>src/internal/report/dispatcher.go\<close>, as a transition system. A lane is one
  destination with its queue, its counters, and the variables of its worker \<open>run\<close>: the batch in
  hand and where the worker is. The steps are the points at which the worker waits for the
  world: a case of its \<open>select\<close>, a delivery attempt that returns, a sleep that ends. What a
  destination answers, how much time has passed and when the flush timer fires are inputs of
  the steps. Counters are 64-bit words. The fields \<open>h_accepted\<close> and \<open>h_settled\<close> are history: no
  operation reads them.
\<close>

section \<open>Lanes\<close>

datatype outcome = Delivered | Failed | Undelivered

datatype kont = Loop | Append event string | Exit

datatype phase =
    Unstarted
  | Receiving
  | Attempting (ph_attempt: int) (ph_batch: batch) (ph_kont: kont)
  | Sleeping (ph_attempt: int) (ph_wait: int) (ph_batch: batch) (ph_kont: kont)
  | Finished

record lane =
  ln_name :: string
  ln_queue :: "event list"
  ln_dropping :: bool
  ln_enqueued :: u64
  ln_delivered :: u64
  ln_dropped :: u64
  ln_failed :: u64
  ln_undelivered :: u64
  ln_retries :: u64
  ln_hand :: "(event \<times> string) list"
  ln_size :: int
  ln_phase :: phase
  h_accepted :: "event list"
  h_settled :: "(event \<times> outcome) list"

definition envelope :: "string \<Rightarrow> int" where
  "envelope inst = int (batchEnvelope (inst @ '':0000000000''))"

definition batchID :: "string \<Rightarrow> u64 \<Rightarrow> string" where
  "batchID inst n = inst @ CHR '':'' # padded 10 (uint n)"

definition newLane :: "string \<Rightarrow> string \<Rightarrow> lane" where
  "newLane inst name = \<lparr>ln_name = name, ln_queue = [], ln_dropping = False, ln_enqueued = 0, ln_delivered = 0,
     ln_dropped = 0, ln_failed = 0, ln_undelivered = 0, ln_retries = 0, ln_hand = [], ln_size = envelope inst,
     ln_phase = Unstarted, h_accepted = [], h_settled = []\<rparr>"

definition settle :: "outcome \<Rightarrow> event list \<Rightarrow> lane \<Rightarrow> lane" where
  "settle result es l =
     (let n = of_nat (length es); l = l\<lparr>h_settled := h_settled l @ map (\<lambda>e. (e, result)) es\<rparr> in
      case result of
        Delivered \<Rightarrow> l\<lparr>ln_delivered := ln_delivered l + n\<rparr>
      | Failed \<Rightarrow> l\<lparr>ln_failed := ln_failed l + n\<rparr>
      | Undelivered \<Rightarrow> l\<lparr>ln_undelivered := ln_undelivered l + n\<rparr>)"

section \<open>The worker\<close>

text \<open>
  \<open>send\<close> with a batch in hand, up to its first attempt: \<open>deliver\<close> takes the next batch number. What
  \<open>run\<close> does when it returns is kept: go back to the loop, add the event that did not fit, or exit.
\<close>

definition begin_send :: "string \<Rightarrow> kont \<Rightarrow> u64 \<times> lane \<Rightarrow> u64 \<times> lane" where
  "begin_send inst k = (\<lambda>(n, l).
     let n = n + 1; i = batchID inst n;
         b = \<lparr>b_ID = i, b_Events = map fst (ln_hand l), b_body = encodeBatch i (map snd (ln_hand l))\<rparr>
     in (n, l\<lparr>ln_phase := Attempting 1 b k\<rparr>))"

definition append_event :: "report_config \<Rightarrow> string \<Rightarrow> event \<Rightarrow> string \<Rightarrow> u64 \<times> lane \<Rightarrow> u64 \<times> lane" where
  "append_event c inst e body = (\<lambda>(n, l).
     let l = l\<lparr>ln_hand := ln_hand l @ [(e, body)], ln_size := ln_size l + int (length body) + 1\<rparr> in
     if int (length (ln_hand l)) \<ge> BatchEvents c \<or> ln_size l \<ge> BatchBytes c then begin_send inst Loop (n, l)
     else (n, l\<lparr>ln_phase := Receiving\<rparr>))"

definition after_send :: "report_config \<Rightarrow> string \<Rightarrow> kont \<Rightarrow> u64 \<times> lane \<Rightarrow> u64 \<times> lane" where
  "after_send c inst k = (\<lambda>(n, l).
     let l = l\<lparr>ln_hand := [], ln_size := envelope inst\<rparr> in
     case k of
       Loop \<Rightarrow> (n, l\<lparr>ln_phase := Receiving\<rparr>)
     | Append e body \<Rightarrow> append_event c inst e body (n, l)
     | Exit \<Rightarrow> (n, l\<lparr>ln_phase := Finished\<rparr>))"

definition receive :: "report_config \<Rightarrow> string \<Rightarrow> event \<Rightarrow> event list \<Rightarrow> u64 \<times> lane \<Rightarrow> u64 \<times> lane" where
  "receive c inst e rest = (\<lambda>(n, l).
     let l = l\<lparr>ln_queue := rest\<rparr> in
     case encodeEvent e of
       Inl _ \<Rightarrow> (n, settle Failed [e] l)
     | Inr body \<Rightarrow>
         if ln_hand l \<noteq> [] \<and> ln_size l + int (length body) + 1 > BatchBytes c
         then begin_send inst (Append e body) (n, l)
         else append_event c inst e body (n, l))"

text \<open>\<open>deliver\<close>, from the return of an attempt: \<open>elapsed\<close> is the time since the first one began.\<close>

definition attempt_returned ::
  "report_config \<Rightarrow> string \<Rightarrow> bool \<Rightarrow> deliver_error option \<Rightarrow> int \<Rightarrow> int \<Rightarrow> batch \<Rightarrow> kont \<Rightarrow> u64 \<times> lane \<Rightarrow> u64 \<times> lane" where
  "attempt_returned c inst aborted err elapsed attempt b k = (\<lambda>(n, l).
     case err of
       None \<Rightarrow> after_send c inst k (n, settle Delivered (b_Events b) l)
     | Some e \<Rightarrow>
         if aborted then after_send c inst k (n, settle Undelivered (b_Events b) l)
         else let wait = retry_wait c attempt e in
           if IsPermanent e \<or> attempt \<ge> MaxAttempts c \<or> wrap64 (elapsed + wait) > RetryBudget c
           then after_send c inst k (n, settle Failed (b_Events b) l)
           else (n, l\<lparr>ln_retries := ln_retries l + 1, ln_phase := Sleeping attempt wait b k\<rparr>))"

definition sleep_returned ::
  "report_config \<Rightarrow> string \<Rightarrow> bool \<Rightarrow> int \<Rightarrow> batch \<Rightarrow> kont \<Rightarrow> u64 \<times> lane \<Rightarrow> u64 \<times> lane" where
  "sleep_returned c inst woke attempt b k = (\<lambda>(n, l).
     if woke then (n, l\<lparr>ln_phase := Attempting (attempt + 1) b k\<rparr>)
     else after_send c inst k (n, settle Undelivered (b_Events b) l))"

definition abandon :: "lane \<Rightarrow> lane" where
  "abandon l =
     (let l = settle Undelivered (map fst (ln_hand l)) l; l = settle Undelivered (ln_queue l) l
      in l\<lparr>ln_hand := [], ln_queue := [], ln_phase := Finished\<rparr>)"

text \<open>
  One step of a worker. The receive case is enabled while the queue has an event, its closed
  case once the queue is closed and empty, the timer case while a batch is open, and the abort
  case once the dispatcher is aborted; a sleep is only cut short by the abort.
\<close>

datatype action =
    Receive
  | QueueClosed
  | FlushDue
  | AbortDue
  | Returned "deliver_error option" int
  | Slept bool

definition worker_step ::
  "report_config \<Rightarrow> string \<Rightarrow> bool \<Rightarrow> bool \<Rightarrow> action \<Rightarrow> u64 \<times> lane \<Rightarrow> (u64 \<times> lane) option" where
  "worker_step c inst closed aborted a = (\<lambda>(n, l).
     case (a, ln_phase l) of
       (Receive, Receiving) \<Rightarrow> (case ln_queue l of [] \<Rightarrow> None | e # rest \<Rightarrow> Some (receive c inst e rest (n, l)))
     | (QueueClosed, Receiving) \<Rightarrow>
         if closed \<and> ln_queue l = [] then
           Some (if ln_hand l = [] then (n, l\<lparr>ln_phase := Finished\<rparr>) else begin_send inst Exit (n, l))
         else None
     | (FlushDue, Receiving) \<Rightarrow> if ln_hand l \<noteq> [] then Some (begin_send inst Loop (n, l)) else None
     | (AbortDue, Receiving) \<Rightarrow> if aborted then Some (n, abandon l) else None
     | (Returned err elapsed, Attempting attempt b k) \<Rightarrow>
         Some (attempt_returned c inst aborted err elapsed attempt b k (n, l))
     | (Slept woke, Sleeping attempt _ b k) \<Rightarrow>
         if woke \<or> aborted then Some (sleep_returned c inst woke attempt b k (n, l)) else None
     | _ \<Rightarrow> None)"

section \<open>The dispatcher\<close>

record destination =
  de_Name :: string
  de_HasReporter :: bool

record dispatcher =
  d_config :: report_config
  d_instance :: string
  d_lanes :: "lane list"
  d_batches :: u64
  d_started :: bool
  d_closed :: bool
  d_aborted :: bool

text \<open>The instance is the hexadecimal form of eight random bytes, an input here.\<close>

definition NewInstanceID :: "bytes \<Rightarrow> string" where
  "NewInstanceID random = hex_EncodeToString random"

definition NewDispatcher :: "report_config \<Rightarrow> destination list \<Rightarrow> bytes \<Rightarrow> report_error + dispatcher" where
  "NewDispatcher c dests random =
     bind_res (report_Validate c) (\<lambda>_.
     let inst = NewInstanceID random in
     bind_res (fold_res (\<lambda>dest lanes.
         if \<not> destinationName (de_Name dest) then Inl ErrConfig
         else if \<not> de_HasReporter dest then Inl ErrConfig
         else if list_ex (\<lambda>l. ln_name l = de_Name dest) lanes then Inl ErrConfig
         else Inr (lanes @ [newLane inst (de_Name dest)])) dests []) (\<lambda>lanes.
       Inr \<lparr>d_config = c, d_instance = inst, d_lanes = lanes, d_batches = 0, d_started = False,
            d_closed = False, d_aborted = False\<rparr>))"

definition Destinations :: "dispatcher \<Rightarrow> string list" where
  "Destinations d = map ln_name (d_lanes d)"

definition Start :: "dispatcher \<Rightarrow> dispatcher" where
  "Start d =
     (if d_started d \<or> d_closed d then d
      else d\<lparr>d_started := True, d_lanes := map (\<lambda>l. l\<lparr>ln_phase := Receiving\<rparr>) (d_lanes d)\<rparr>)"

definition enqueue_lane :: "report_config \<Rightarrow> bool \<Rightarrow> event \<Rightarrow> lane \<Rightarrow> bool \<times> lane" where
  "enqueue_lane c closed e l =
     (if closed then (False, l\<lparr>ln_dropped := ln_dropped l + 1\<rparr>)
      else if int (length (ln_queue l)) < QueueCapacity c
      then (True, l\<lparr>ln_queue := ln_queue l @ [e], h_accepted := h_accepted l @ [e],
                    ln_enqueued := ln_enqueued l + 1, ln_dropping := False\<rparr>)
      else (False, l\<lparr>ln_dropped := ln_dropped l + 1, ln_dropping := True\<rparr>))"

definition Enqueue :: "string \<Rightarrow> event \<Rightarrow> dispatcher \<Rightarrow> bool \<times> dispatcher" where
  "Enqueue name e d =
     (case find (\<lambda>l. ln_name l = name) (d_lanes d) of
        None \<Rightarrow> (False, d)
      | Some l \<Rightarrow>
          (fst (enqueue_lane (d_config d) (d_closed d) e l),
           d\<lparr>d_lanes := map (\<lambda>l. if ln_name l = name then snd (enqueue_lane (d_config d) (d_closed d) e l) else l)
               (d_lanes d)\<rparr>))"

text \<open>
  \<open>Close\<close> in three parts: it closes the queues; when its context ends before the workers do, it
  aborts; and once the workers are done, or were never started, it counts what is left.
\<close>

definition close_begin :: "dispatcher \<Rightarrow> dispatcher" where
  "close_begin d = d\<lparr>d_closed := True\<rparr>"

definition close_deadline :: "dispatcher \<Rightarrow> dispatcher" where
  "close_deadline d = d\<lparr>d_aborted := True\<rparr>"

definition close_ready :: "dispatcher \<Rightarrow> bool" where
  "close_ready d \<longleftrightarrow> d_closed d \<and> (d_started d \<longrightarrow> list_all (\<lambda>l. ln_phase l = Finished) (d_lanes d))"

definition close_finish :: "dispatcher \<Rightarrow> (string \<times> u64) list \<times> dispatcher" where
  "close_finish d =
     (let lanes = map (\<lambda>l. (settle Undelivered (ln_queue l) l)\<lparr>ln_queue := []\<rparr>) (d_lanes d)
      in (map (\<lambda>l. (ln_name l, ln_undelivered l)) (filter (\<lambda>l. ln_undelivered l > 0) lanes),
          d\<lparr>d_aborted := True, d_lanes := lanes\<rparr>))"

record lane_stats =
  st_Destination :: string
  st_Enqueued :: u64
  st_Delivered :: u64
  st_Dropped :: u64
  st_Failed :: u64
  st_Undelivered :: u64
  st_Retries :: u64
  st_QueueDepth :: int
  st_QueueCapacity :: int

definition dispatcher_Stats :: "dispatcher \<Rightarrow> lane_stats list" where
  "dispatcher_Stats d = map (\<lambda>l.
     \<lparr>st_Destination = ln_name l, st_Enqueued = ln_enqueued l, st_Delivered = ln_delivered l, st_Dropped = ln_dropped l,
      st_Failed = ln_failed l, st_Undelivered = ln_undelivered l, st_Retries = ln_retries l,
      st_QueueDepth = int (length (ln_queue l)), st_QueueCapacity = QueueCapacity (d_config d)\<rparr>) (d_lanes d)"

section \<open>Steps and reachable states\<close>

text \<open>The clock that measures a delivery is monotonic and does not run for a century and a half.\<close>

definition clock_ok :: "action \<Rightarrow> bool" where
  "clock_ok a = (case a of Returned _ elapsed \<Rightarrow> 0 \<le> elapsed \<and> elapsed < 2 ^ 62 | _ \<Rightarrow> True)"

inductive worker_moves :: "dispatcher \<Rightarrow> dispatcher \<Rightarrow> bool" where
  move: "i < length (d_lanes d) \<Longrightarrow> clock_ok a \<Longrightarrow>
    worker_step (d_config d) (d_instance d) (d_closed d) (d_aborted d) a (d_batches d, d_lanes d ! i) = Some (n, l) \<Longrightarrow>
    worker_moves d (d\<lparr>d_batches := n, d_lanes := (d_lanes d)[i := l]\<rparr>)"

inductive dispatcher_step :: "dispatcher \<Rightarrow> dispatcher \<Rightarrow> bool" where
  start: "dispatcher_step d (Start d)"
| enqueue: "dispatcher_step d (snd (Enqueue name e d))"
| worker: "worker_moves d d' \<Longrightarrow> dispatcher_step d d'"
| close: "dispatcher_step d (close_begin d)"
| deadline: "d_closed d \<Longrightarrow> dispatcher_step d (close_deadline d)"
| finish: "close_ready d \<Longrightarrow> dispatcher_step d (snd (close_finish d))"

inductive_cases worker_movesE: "worker_moves d d'"
inductive_cases dispatcher_stepE: "dispatcher_step d d'"

inductive reachable :: "dispatcher \<Rightarrow> bool" where
  new: "NewDispatcher c dests random = Inr d \<Longrightarrow> is_int64 (BackoffMax c) \<Longrightarrow> reachable d"
| next_state: "reachable d \<Longrightarrow> dispatcher_step d d' \<Longrightarrow> reachable d'"

end
