(* ===== verification/Http_Report.thy ===== *)
theory Http_Report
  imports Dispatcher
begin

text \<open>
  The HTTP destination of \<^verbatim>\<open>src/internal/report/httpreport/httpreport.go\<close>: which addresses it takes,
  and what the answer to a request means to the dispatcher. The address is given in the parts
  \<^verbatim>\<open>url.Parse\<close> yields; \<^verbatim>\<open>http.ParseTime\<close> is a parameter, nothing where it refuses the text.
\<close>

section \<open>Addresses\<close>

record parsed_url =
  url_Scheme :: string
  url_Host :: string
  url_Fragment :: string

datatype url_error = ErrURL

definition NewReporter :: "parsed_url option \<Rightarrow> url_error + parsed_url" where
  "NewReporter parsed =
     (case parsed of
        None \<Rightarrow> Inl ErrURL
      | Some u \<Rightarrow>
          if url_Scheme u \<noteq> ''http'' \<and> url_Scheme u \<noteq> ''https'' then Inl ErrURL
          else if url_Host u = [] then Inl ErrURL
          else if url_Fragment u \<noteq> [] then Inl ErrURL
          else Inr u)"

section \<open>Answers\<close>

text \<open>\<^verbatim>\<open>strconv.Atoi\<close>: an optional sign, then digits, within 64 bits.\<close>

definition Atoi :: "string \<Rightarrow> int option" where
  "Atoi s =
     (let (neg, ds) = (case s of
            [] \<Rightarrow> (False, [])
          | c # cs \<Rightarrow> if c = CHR ''-'' then (True, cs) else if c = CHR ''+'' then (False, cs) else (False, s));
          n = (if neg then - int (decimal ds) else int (decimal ds))
      in if ds = [] \<or> \<not> list_all is_digit ds then None else if is_int64 n then Some n else None)"

definition retryAfter :: "(string \<Rightarrow> instant option) \<Rightarrow> string \<Rightarrow> instant \<Rightarrow> int option" where
  "retryAfter ParseTime v now =
     (if v = [] then None
      else case Atoi v of
        Some seconds \<Rightarrow> if seconds < 0 then None else Some (wrap64 (seconds * a_second))
      | None \<Rightarrow> (case ParseTime v of Some date \<Rightarrow> Some (max (time_Sub date now) 0) | None \<Rightarrow> None))"

text \<open>What comes back from a request: a failure to send it, or a status with its Retry-After header.\<close>

datatype http_answer =
    NotBuilt
  | TransportError
  | Response int string

definition http_Deliver :: "(string \<Rightarrow> instant option) \<Rightarrow> instant \<Rightarrow> http_answer \<Rightarrow> deliver_error option" where
  "http_Deliver ParseTime now answer =
     (case answer of
        NotBuilt \<Rightarrow> Permanent (Some (WrappedError PlainError))
      | TransportError \<Rightarrow> Some (WrappedError PlainError)
      | Response status header \<Rightarrow>
          if status \<ge> 200 \<and> status < 300 then None
          else if status = 408 \<or> status = 425 \<or> status = 429 \<or> status \<ge> 500 then
            (case retryAfter ParseTime header now of
               Some wait \<Rightarrow> RetryAfter (Some PlainError) wait
             | None \<Rightarrow> Some PlainError)
          else Permanent (Some PlainError))"

section \<open>Facts\<close>

definition retryable :: "int \<Rightarrow> bool" where
  "retryable status \<longleftrightarrow> status = 408 \<or> status = 425 \<or> status = 429 \<or> status \<ge> 500"

lemma http_Deliver_permanent:
  "http_Deliver ParseTime now (Response status header) = Some e \<Longrightarrow> IsPermanent e \<longleftrightarrow> \<not> retryable status"
  by (auto simp: http_Deliver_def retryable_def Permanent_def RetryAfter_def split: if_splits option.splits)

lemma after_send_finished:
  "h_settled (snd (after_send c inst k (n, l))) = h_settled l \<and> ln_retries (snd (after_send c inst k (n, l))) = ln_retries l"
  by (simp add: after_send_def append_event_def begin_send_def Let_def split: kont.split)

section \<open>Properties\<close>

text \<open>
  What a status does to a batch: a 2xx answer settles every event of the batch as delivered;
  a redirect, or any other status that is not 408, 425, 429 or 5xx, fails the batch at once
  without a retry; and a retryable one never does either before the last attempt, except that
  the retry budget may end it.
\<close>

theorem status_decides:
  "let result = snd (attempt_returned c inst False (http_Deliver ParseTime now (Response status header))
        elapsed attempt b k (n, l)) in
   if 200 \<le> status \<and> status < 300
   then h_settled result = h_settled l @ map (\<lambda>e. (e, Delivered)) (b_Events b) \<and> ln_retries result = ln_retries l
   else if retryable status
   then h_settled result = h_settled l \<and> ln_retries result = ln_retries l + 1 \<or>
     h_settled result = h_settled l @ map (\<lambda>e. (e, Failed)) (b_Events b) \<and> ln_retries result = ln_retries l \<and>
     (MaxAttempts c \<le> attempt \<or>
      RetryBudget c < wrap64 (elapsed + retry_wait c attempt (the (http_Deliver ParseTime now (Response status header)))))
   else h_settled result = h_settled l @ map (\<lambda>e. (e, Failed)) (b_Events b) \<and> ln_retries result = ln_retries l"
proof -
  let ?r = "http_Deliver ParseTime now (Response status header)"
  have settled: "h_settled (settle r es l) = h_settled l @ map (\<lambda>e. (e, r)) es \<and> ln_retries (settle r es l) = ln_retries l" for r es
    by (simp add: settle_def Let_def split: outcome.split)
  show ?thesis
  proof (cases ?r)
    case None
    then have "200 \<le> status" "status < 300"
      by (auto simp: http_Deliver_def Permanent_def RetryAfter_def split: if_splits option.splits)
    then show ?thesis using None by (simp add: attempt_returned_def after_send_finished settled)
  next
    case (Some e)
    then have "\<not> (200 \<le> status \<and> status < 300)" by (auto simp: http_Deliver_def)
    moreover note http_Deliver_permanent [OF Some]
    ultimately show ?thesis using Some by (auto simp: attempt_returned_def after_send_finished settled Let_def)
  qed
qed

text \<open>
  A long delay in seconds wraps around: the header value 9223372037 asks for 292 years and is
  taken as a delay in the past, and 18446744074 asks for twice that and is taken as a third of
  a second, so neither lengthens the wait the way it asks to.
\<close>

theorem retry_after_wraps:
  "retryAfter ParseTime ''9223372037'' now = Some (- 9223372036709551616) \<and>
   retryAfter ParseTime ''18446744074'' now = Some 290448384"
proof -
  have "Atoi ''9223372037'' = Some 9223372037" "Atoi ''18446744074'' = Some 18446744074" by code_simp+
  then show ?thesis by (simp add: retryAfter_def durations wrap64_def)
qed

end
