(* ===== verification/Dispatcher_Inv.thy ===== *)
theory Dispatcher_Inv
  imports Dispatcher
begin

text \<open>
  What holds in every reachable state of the report dispatcher: where each accepted event is,
  how the counters add up, how large a batch can be, and how long a retry can wait.
\<close>

section \<open>The invariant of a lane\<close>

definition pending :: "lane \<Rightarrow> event list" where
  "pending l =
     (case ln_phase l of
        Attempting _ _ (Append e _) \<Rightarrow> [e]
      | Sleeping _ _ _ (Append e _) \<Rightarrow> [e]
      | _ \<Rightarrow> [])"

definition in_flight :: "lane \<Rightarrow> event list" where
  "in_flight l = map fst (ln_hand l) @ pending l @ ln_queue l"

definition outcomes :: "outcome \<Rightarrow> lane \<Rightarrow> u64" where
  "outcomes result l = of_nat (length (filter (\<lambda>(_, r). r = result) (h_settled l)))"

definition accounted :: "lane \<Rightarrow> bool" where
  "accounted l \<longleftrightarrow> h_accepted l = map fst (h_settled l) @ in_flight l \<and>
     ln_enqueued l = of_nat (length (h_accepted l)) \<and> ln_delivered l = outcomes Delivered l \<and>
     ln_failed l = outcomes Failed l \<and> ln_undelivered l = outcomes Undelivered l"

definition tally :: "string \<Rightarrow> (event \<times> string) list \<Rightarrow> int" where
  "tally inst h = envelope inst + int (sum_list (map (\<lambda>(_, body). length body + 1) h))"

definition hand_ok :: "report_config \<Rightarrow> string \<Rightarrow> lane \<Rightarrow> bool" where
  "hand_ok c inst l \<longleftrightarrow> (ln_phase l = Finished \<or> ln_size l = tally inst (ln_hand l)) \<and>
     (case ln_phase l of
        Unstarted \<Rightarrow> ln_hand l = []
      | Finished \<Rightarrow> ln_hand l = []
      | Receiving \<Rightarrow> int (length (ln_hand l)) < BatchEvents c \<and> (ln_hand l = [] \<or> ln_size l < BatchBytes c)
      | _ \<Rightarrow> ln_hand l \<noteq> [] \<and> int (length (ln_hand l)) \<le> BatchEvents c \<and>
          (length (ln_hand l) = 1 \<or> ln_size l \<le> BatchBytes c))"

definition batch_of :: "string \<Rightarrow> lane \<Rightarrow> batch \<Rightarrow> bool" where
  "batch_of inst l b \<longleftrightarrow> b_Events b = map fst (ln_hand l) \<and> b_body b = encodeBatch (b_ID b) (map snd (ln_hand l)) \<and>
     (\<exists>n. b_ID b = batchID inst n)"

text \<open>
  The check of the retry budget adds two durations, which wraps around for a maximum delay above
  146 years; the bound on the wait is claimed up to there.
\<close>

definition delivery_ok :: "report_config \<Rightarrow> string \<Rightarrow> lane \<Rightarrow> bool" where
  "delivery_ok c inst l =
     (case ln_phase l of
        Attempting attempt b _ \<Rightarrow> batch_of inst l b \<and> 1 \<le> attempt \<and> attempt \<le> MaxAttempts c
      | Sleeping attempt wait b _ \<Rightarrow> batch_of inst l b \<and> 1 \<le> attempt \<and> attempt < MaxAttempts c \<and>
          (BackoffMax c \<le> 2 ^ 62 \<longrightarrow> report_backoff c attempt \<le> wait \<and> wait \<le> BackoffMax c \<and> wait \<le> RetryBudget c)
      | _ \<Rightarrow> True)"

definition queue_ok :: "report_config \<Rightarrow> lane \<Rightarrow> bool" where
  "queue_ok c l \<longleftrightarrow> int (length (ln_queue l)) \<le> QueueCapacity c"

lemmas lane_inv_defs = accounted_def hand_ok_def delivery_ok_def queue_ok_def

section \<open>Facts: outcomes\<close>

lemma encodeEvent_ok: "\<exists>body. encodeEvent e = Inr body"
  by (simp add: encodeEvent_def)

lemma settle_simps [simp]:
  "ln_name (settle r es l) = ln_name l" "ln_queue (settle r es l) = ln_queue l" "ln_hand (settle r es l) = ln_hand l"
  "ln_size (settle r es l) = ln_size l" "ln_phase (settle r es l) = ln_phase l" "h_accepted (settle r es l) = h_accepted l"
  "ln_enqueued (settle r es l) = ln_enqueued l"
  "h_settled (settle r es l) = h_settled l @ map (\<lambda>e. (e, r)) es"
  by (simp_all add: settle_def Let_def split: outcome.splits)

lemma settle_counts:
  "ln_delivered l = outcomes Delivered l \<Longrightarrow> ln_delivered (settle r es l) = outcomes Delivered (settle r es l)"
  "ln_failed l = outcomes Failed l \<Longrightarrow> ln_failed (settle r es l) = outcomes Failed (settle r es l)"
  "ln_undelivered l = outcomes Undelivered l \<Longrightarrow> ln_undelivered (settle r es l) = outcomes Undelivered (settle r es l)"
  by (cases r; simp add: outcomes_def settle_def Let_def filter_map comp_def)+

lemma tally_simps [simp]:
  "tally inst [] = envelope inst"
  "tally inst (h @ [(e, body)]) = tally inst h + int (length body) + 1"
  by (simp_all add: tally_def)

section \<open>Facts: the operations of a worker\<close>

text \<open>
  \<open>good\<close> is the invariant where the worker is about to add an event or to wait again: the phase is
  whatever it was, only the batch in hand and the events behind it count.
\<close>

definition lane_inv :: "report_config \<Rightarrow> string \<Rightarrow> lane \<Rightarrow> bool" where
  "lane_inv c inst l \<longleftrightarrow> accounted l \<and> hand_ok c inst l \<and> delivery_ok c inst l \<and> queue_ok c l"

definition open_inv :: "report_config \<Rightarrow> string \<Rightarrow> event list \<Rightarrow> lane \<Rightarrow> bool" where
  "open_inv c inst pend l \<longleftrightarrow> h_accepted l = map fst (h_settled l) @ map fst (ln_hand l) @ pend @ ln_queue l \<and>
     ln_enqueued l = of_nat (length (h_accepted l)) \<and> ln_delivered l = outcomes Delivered l \<and>
     ln_failed l = outcomes Failed l \<and> ln_undelivered l = outcomes Undelivered l \<and>
     ln_size l = tally inst (ln_hand l) \<and> queue_ok c l"

lemma open_inv_lane:
  "lane_inv c inst l \<Longrightarrow> ln_phase l \<noteq> Finished \<Longrightarrow> open_inv c inst (pending l) l"
  by (simp add: lane_inv_def open_inv_def accounted_def in_flight_def hand_ok_def)

definition kont_pending :: "kont \<Rightarrow> event list" where
  "kont_pending k = (case k of Append e _ \<Rightarrow> [e] | _ \<Rightarrow> [])"

lemma begin_send_inv:
  assumes "valid_report_config c" "open_inv c inst (kont_pending k) l" "ln_hand l \<noteq> []"
    "int (length (ln_hand l)) \<le> BatchEvents c" "length (ln_hand l) = 1 \<or> ln_size l \<le> BatchBytes c"
  shows "lane_inv c inst (snd (begin_send inst k (n, l)))"
  using assms valid_report_configD(8) [OF assms(1)]
  by (auto simp: begin_send_def Let_def lane_inv_def open_inv_def lane_inv_defs in_flight_def pending_def kont_pending_def
      batch_of_def outcomes_def split: kont.splits)

lemma append_event_inv:
  assumes c: "valid_report_config c" and "open_inv c inst [e] l"
    "int (length (ln_hand l)) < BatchEvents c" "ln_hand l = [] \<or> ln_size l + int (length body) + 1 \<le> BatchBytes c"
  shows "lane_inv c inst (snd (append_event c inst e body (n, l)))"
proof -
  let ?l = "l\<lparr>ln_hand := ln_hand l @ [(e, body)], ln_size := ln_size l + int (length body) + 1\<rparr>"
  have o: "open_inv c inst (kont_pending Loop) ?l"
    using assms(2) by (auto simp: open_inv_def queue_ok_def outcomes_def kont_pending_def)
  have "lane_inv c inst (snd (begin_send inst Loop (n, ?l)))"
    using assms(3,4) by (intro begin_send_inv [OF c o]) auto
  moreover have "lane_inv c inst (?l\<lparr>ln_phase := Receiving\<rparr>)"
    if "\<not> (int (length (ln_hand ?l)) \<ge> BatchEvents c \<or> ln_size ?l \<ge> BatchBytes c)"
    using o that
    by (auto simp: open_inv_def lane_inv_def lane_inv_defs in_flight_def pending_def outcomes_def kont_pending_def)
  ultimately show ?thesis by (simp add: append_event_def Let_def)
qed

lemma after_send_inv:
  assumes c: "valid_report_config c"
    and o: "open_inv c inst (kont_pending k) (l\<lparr>ln_hand := [], ln_size := envelope inst\<rparr>)"
  shows "lane_inv c inst (snd (after_send c inst k (n, l)))"
proof (cases k)
  case (Append e body)
  then show ?thesis
    using append_event_inv [OF c, where l = "l\<lparr>ln_hand := [], ln_size := envelope inst\<rparr>"] o valid_report_configD(2) [OF c]
    by (simp add: after_send_def kont_pending_def Let_def)
next
  case Loop
  then show ?thesis
    using o valid_report_configD(2) [OF c]
    by (auto simp: after_send_def open_inv_def lane_inv_def lane_inv_defs in_flight_def pending_def outcomes_def
        kont_pending_def Let_def)
next
  case Exit
  then show ?thesis
    using o by (auto simp: after_send_def open_inv_def lane_inv_def lane_inv_defs in_flight_def pending_def outcomes_def
        kont_pending_def Let_def)
qed

text \<open>A batch that is settled leaves the hand.\<close>

lemma settle_hand:
  assumes "open_inv c inst pend l" "es = map fst (ln_hand l)"
  shows "open_inv c inst pend ((settle r es l)\<lparr>ln_hand := [], ln_size := envelope inst\<rparr>)"
proof -
  let ?l = "settle r es l"
  have counts: "ln_delivered ?l = outcomes Delivered ?l" "ln_failed ?l = outcomes Failed ?l"
    "ln_undelivered ?l = outcomes Undelivered ?l"
    using assms(1) by (auto simp: open_inv_def intro: settle_counts)
  have "open_inv c inst pend (?l\<lparr>ln_hand := [], ln_size := envelope inst\<rparr>) \<longleftrightarrow>
      h_accepted l = map fst (h_settled l @ map (\<lambda>e. (e, r)) es) @ pend @ ln_queue l \<and>
      ln_enqueued l = of_nat (length (h_accepted l)) \<and> queue_ok c l"
    using counts by (simp add: open_inv_def outcomes_def queue_ok_def)
  then show ?thesis using assms by (simp add: open_inv_def comp_def)
qed

lemma finish_send_inv:
  assumes "valid_report_config c" "open_inv c inst (kont_pending k) l" "b_Events b = map fst (ln_hand l)"
  shows "lane_inv c inst (snd (after_send c inst k (n, settle r (b_Events b) l)))"
  using assms by (intro after_send_inv settle_hand)

section \<open>Facts: every step of a worker keeps the invariant\<close>

lemma receive_inv:
  assumes c: "valid_report_config c" and l: "lane_inv c inst l" and p: "ln_phase l = Receiving" and q: "ln_queue l = e # rest"
  shows "lane_inv c inst (snd (receive c inst e rest (n, l)))"
proof -
  obtain body where body: "encodeEvent e = Inr body" using encodeEvent_ok by blast
  let ?l = "l\<lparr>ln_queue := rest\<rparr>"
  have o: "open_inv c inst [e] ?l" and h: "int (length (ln_hand l)) < BatchEvents c" "ln_hand l = [] \<or> ln_size l < BatchBytes c"
    using l p q by (auto simp: lane_inv_def lane_inv_defs open_inv_def in_flight_def pending_def outcomes_def)
  show ?thesis
  proof (cases "ln_hand l \<noteq> [] \<and> ln_size l + int (length body) + 1 > BatchBytes c")
    case True
    then have "lane_inv c inst (snd (begin_send inst (Append e body) (n, ?l)))"
      using o h by (intro begin_send_inv [OF c]) (auto simp: kont_pending_def)
    with True show ?thesis by (simp add: receive_def body Let_def)
  next
    case False
    then have "lane_inv c inst (snd (append_event c inst e body (n, ?l)))"
      using o h by (intro append_event_inv [OF c]) auto
    with False show ?thesis by (auto simp: receive_def body Let_def)
  qed
qed

lemma pending_kont:
  "ln_phase l = Attempting attempt b k \<Longrightarrow> pending l = kont_pending k"
  "ln_phase l = Sleeping attempt wait b k \<Longrightarrow> pending l = kont_pending k"
  "ln_phase l = Receiving \<Longrightarrow> pending l = []" "ln_phase l = Unstarted \<Longrightarrow> pending l = []"
  "ln_phase l = Finished \<Longrightarrow> pending l = []"
  by (simp_all add: pending_def kont_pending_def split: kont.splits)

lemma attempt_returned_inv:
  assumes c: "valid_report_config c" and l: "lane_inv c inst l" and p: "ln_phase l = Attempting attempt b k"
    and t: "0 \<le> elapsed" "elapsed < 2 ^ 62"
  shows "lane_inv c inst (snd (attempt_returned c inst aborted err elapsed attempt b k (n, l)))"
proof -
  have o: "open_inv c inst (kont_pending k) l" and b: "b_Events b = map fst (ln_hand l)"
    using open_inv_lane [OF l] l p by (auto simp: pending_kont lane_inv_def delivery_ok_def batch_of_def)
  note fin = finish_send_inv [OF c o b, of n]
  have dl: "delivery_ok c inst l" "hand_ok c inst l" "accounted l" "queue_ok c l"
    using l by (auto simp: lane_inv_def)
  have budget: "report_backoff c attempt \<le> retry_wait c attempt e \<and> retry_wait c attempt e \<le> BackoffMax c \<and>
      retry_wait c attempt e \<le> RetryBudget c"
    if stay: "\<not> wrap64 (elapsed + retry_wait c attempt e) > RetryBudget c" and m: "BackoffMax c \<le> 2 ^ 62" for e
  proof -
    let ?w = "retry_wait c attempt e"
    have eq: "report_backoff c attempt = min (BackoffBase c * 2 ^ nat (attempt - 1)) (BackoffMax c)"
      using m by (intro report_backoff_eq valid_report_configD(5) [OF c]) simp
    then have le: "report_backoff c attempt \<le> BackoffMax c" and pos: "0 < report_backoff c attempt"
      using valid_report_configD(5,6) [OF c] by simp_all
    note w = retry_wait_bounds [OF le, of e]
    have "wrap64 (elapsed + ?w) = elapsed + ?w" using t w pos m by (intro wrap64_id) (simp add: is_int64_def)
    with stay t w show ?thesis by linarith
  qed
  have sleep: "lane_inv c inst (l\<lparr>ln_retries := ln_retries l + 1, ln_phase := Sleeping attempt (retry_wait c attempt e) b k\<rparr>)"
    if stay: "\<not> (IsPermanent e \<or> attempt \<ge> MaxAttempts c \<or> wrap64 (elapsed + retry_wait c attempt e) > RetryBudget c)" for e
    using stay budget [of e] dl p
    by (auto simp: lane_inv_def lane_inv_defs in_flight_def pending_def outcomes_def batch_of_def split: kont.splits)
  show ?thesis using fin sleep by (auto simp: attempt_returned_def Let_def split: option.splits)
qed

lemma sleep_returned_inv:
  assumes c: "valid_report_config c" and l: "lane_inv c inst l" and p: "ln_phase l = Sleeping attempt wait b k"
  shows "lane_inv c inst (snd (sleep_returned c inst woke attempt b k (n, l)))"
proof -
  have o: "open_inv c inst (kont_pending k) l" and b: "b_Events b = map fst (ln_hand l)"
    using open_inv_lane [OF l] l p by (auto simp: pending_kont lane_inv_def delivery_ok_def batch_of_def)
  have "lane_inv c inst (l\<lparr>ln_phase := Attempting (attempt + 1) b k\<rparr>)"
    using l p
    by (auto simp: lane_inv_def lane_inv_defs in_flight_def pending_def outcomes_def batch_of_def split: kont.splits)
  with finish_send_inv [OF c o b, of n] show ?thesis by (auto simp: sleep_returned_def)
qed

lemma abandon_inv:
  assumes l: "lane_inv c inst l" and p: "ln_phase l = Receiving" and c: "valid_report_config c"
  shows "lane_inv c inst (abandon l)"
proof -
  let ?a = "settle Undelivered (map fst (ln_hand l)) l"
  let ?b = "settle Undelivered (ln_queue l) ?a"
  have "ln_delivered l = outcomes Delivered l" "ln_failed l = outcomes Failed l" "ln_undelivered l = outcomes Undelivered l"
    using l by (auto simp: lane_inv_def accounted_def)
  then have "ln_delivered ?b = outcomes Delivered ?b" "ln_failed ?b = outcomes Failed ?b"
    "ln_undelivered ?b = outcomes Undelivered ?b" by (intro settle_counts; simp)+
  moreover have "h_accepted l = map fst (h_settled l) @ map fst (ln_hand l) @ ln_queue l"
    "ln_enqueued l = of_nat (length (h_accepted l))"
    using l p by (auto simp: lane_inv_def accounted_def in_flight_def pending_kont)
  ultimately show ?thesis
    using valid_report_configD(1) [OF c]
    by (simp add: abandon_def Let_def lane_inv_def lane_inv_defs in_flight_def pending_def outcomes_def comp_def)
qed

text \<open>The steps that a worker can make.\<close>

lemma worker_stepE:
  assumes "worker_step c inst closed aborted a (n, l) = Some r"
  obtains (Receive) e rest where "a = Receive" "ln_phase l = Receiving" "ln_queue l = e # rest" "r = receive c inst e rest (n, l)"
    | (Drained) "a = QueueClosed" "ln_phase l = Receiving" "closed" "ln_queue l = []" "ln_hand l = []"
        "r = (n, l\<lparr>ln_phase := Finished\<rparr>)"
    | (Last) "a = QueueClosed" "ln_phase l = Receiving" "closed" "ln_queue l = []" "ln_hand l \<noteq> []"
        "r = begin_send inst Exit (n, l)"
    | (Flush) "a = FlushDue" "ln_phase l = Receiving" "ln_hand l \<noteq> []" "r = begin_send inst Loop (n, l)"
    | (Abort) "a = AbortDue" "ln_phase l = Receiving" "aborted" "r = (n, abandon l)"
    | (Returned) err elapsed attempt b k where "a = Returned err elapsed" "ln_phase l = Attempting attempt b k"
        "r = attempt_returned c inst aborted err elapsed attempt b k (n, l)"
    | (Slept) woke attempt wait b k where "a = Slept woke" "ln_phase l = Sleeping attempt wait b k" "woke \<or> aborted"
        "r = sleep_returned c inst woke attempt b k (n, l)"
  using assms
  by (cases a; cases "ln_phase l") (auto simp: worker_step_def split: if_splits list.splits)

lemma worker_step_inv:
  assumes c: "valid_report_config c" and l: "lane_inv c inst l" and t: "clock_ok a"
    and s: "worker_step c inst closed aborted a (n, l) = Some (n', l')"
  shows "lane_inv c inst l'"
proof -
  have closing: "lane_inv c inst (snd (begin_send inst k (n, l)))"
    if "ln_phase l = Receiving" "ln_hand l \<noteq> []" "kont_pending k = []" for k
    using that l open_inv_lane [OF l]
    by (intro begin_send_inv [OF c]) (auto simp: pending_kont lane_inv_def hand_ok_def)
  have empty: "lane_inv c inst (l\<lparr>ln_phase := Finished\<rparr>)" if "ln_phase l = Receiving" "ln_hand l = []"
    using that l by (auto simp: lane_inv_def lane_inv_defs in_flight_def pending_def outcomes_def)
  from s show ?thesis
  proof (cases rule: worker_stepE)
    case (Receive e rest)
    from receive_inv [OF c l Receive(2,3), where n = n] show ?thesis by (simp flip: Receive(4))
  next
    case Drained
    then show ?thesis using empty by simp
  next
    case Last
    from closing [of Exit] Last(2,5) show ?thesis by (simp add: kont_pending_def flip: Last(6))
  next
    case Flush
    from closing [of Loop] Flush(2,3) show ?thesis by (simp add: kont_pending_def flip: Flush(4))
  next
    case Abort
    then show ?thesis using abandon_inv [OF l Abort(2) c] by simp
  next
    case (Returned err elapsed attempt b k)
    from t Returned(1) have "0 \<le> elapsed" "elapsed < 2 ^ 62" by (simp_all add: clock_ok_def)
    from attempt_returned_inv [OF c l Returned(2) this, where n = n and aborted = aborted and err = err] show ?thesis by (simp flip: Returned(3))
  next
    case (Slept woke attempt wait b k)
    from sleep_returned_inv [OF c l Slept(2), where n = n and woke = woke] show ?thesis by (simp flip: Slept(4))
  qed
qed

section \<open>Facts: the dispatcher\<close>

definition dispatcher_inv :: "dispatcher \<Rightarrow> bool" where
  "dispatcher_inv d \<longleftrightarrow> valid_report_config (d_config d) \<and> distinct (map ln_name (d_lanes d)) \<and>
     list_all (lane_inv (d_config d) (d_instance d)) (d_lanes d) \<and>
     list_all (\<lambda>l. (ln_phase l = Unstarted) = (\<not> d_started d)) (d_lanes d)"

lemma newLane_inv: "valid_report_config c \<Longrightarrow> lane_inv c inst (newLane inst name)"
  using valid_report_configD(1) [of c]
  by (simp add: newLane_def lane_inv_def lane_inv_defs in_flight_def pending_def outcomes_def)

lemma new_lanes:
  assumes "fold_res (\<lambda>dest lanes.
         if \<not> destinationName (de_Name dest) then Inl ErrConfig
         else if \<not> de_HasReporter dest then Inl ErrConfig
         else if list_ex (\<lambda>l. ln_name l = de_Name dest) lanes then Inl ErrConfig
         else Inr (lanes @ [newLane inst (de_Name dest)])) dests lanes = Inr lanes'"
    "distinct (map ln_name lanes)"
  shows "lanes' = lanes @ map (\<lambda>dest. newLane inst (de_Name dest)) dests \<and> distinct (map ln_name lanes')"
  using assms
proof (induction dests arbitrary: lanes)
  case (Cons dest dests)
  then have "distinct (map ln_name (lanes @ [newLane inst (de_Name dest)]))"
    by (auto simp: list_ex_iff newLane_def split: if_splits)
  from Cons.IH [OF _ this] Cons.prems(1) show ?case by (auto simp del: map_append map_map split: if_splits)
qed simp

lemma NewDispatcher_inv:
  assumes "NewDispatcher c dests random = Inr d" "is_int64 (BackoffMax c)"
  shows "dispatcher_inv d"
proof -
  obtain u lanes where v: "report_Validate c = Inr u"
    and f: "fold_res (\<lambda>dest lanes.
         if \<not> destinationName (de_Name dest) then Inl ErrConfig
         else if \<not> de_HasReporter dest then Inl ErrConfig
         else if list_ex (\<lambda>l. ln_name l = de_Name dest) lanes then Inl ErrConfig
         else Inr (lanes @ [newLane (NewInstanceID random) (de_Name dest)])) dests [] = Inr lanes"
    and d: "d = \<lparr>d_config = c, d_instance = NewInstanceID random, d_lanes = lanes, d_batches = 0, d_started = False,
      d_closed = False, d_aborted = False\<rparr>"
    using assms(1) by (auto simp: NewDispatcher_def Let_def)
  have "valid_report_config c" using v assms(2) by (simp add: valid_report_config_def)
  with new_lanes [OF f] d show ?thesis
    by (auto simp: dispatcher_inv_def list_all_iff newLane_inv) (simp add: newLane_def)
qed

lemma Start_inv: "dispatcher_inv d \<Longrightarrow> dispatcher_inv (Start d)"
proof -
  assume d: "dispatcher_inv d"
  show ?thesis
  proof (cases "d_started d \<or> d_closed d")
    case False
    have "lane_inv (d_config d) (d_instance d) (l\<lparr>ln_phase := Receiving\<rparr>)" if "l \<in> set (d_lanes d)" for l
    proof -
      have "lane_inv (d_config d) (d_instance d) l" "ln_phase l = Unstarted" "valid_report_config (d_config d)"
        using d that False by (auto simp: dispatcher_inv_def list_all_iff)
      then show ?thesis using valid_report_configD(2) [of "d_config d"]
        by (auto simp: lane_inv_def lane_inv_defs in_flight_def pending_def outcomes_def)
    qed
    with d False show ?thesis by (auto simp: dispatcher_inv_def Start_def list_all_iff comp_def)
  qed (use d in \<open>simp add: Start_def\<close>)
qed

lemma enqueue_lane_inv:
  assumes "lane_inv c inst l"
  shows "lane_inv c inst (snd (enqueue_lane c closed e l))"
  using assms
  by (auto simp: enqueue_lane_def lane_inv_def lane_inv_defs in_flight_def pending_def outcomes_def batch_of_def
      split: phase.splits kont.splits)

lemma enqueue_lane_simps [simp]:
  "ln_name (snd (enqueue_lane c closed e l)) = ln_name l" "ln_phase (snd (enqueue_lane c closed e l)) = ln_phase l"
  by (simp_all add: enqueue_lane_def)

lemma Enqueue_inv: "dispatcher_inv d \<Longrightarrow> dispatcher_inv (snd (Enqueue name e d))"
proof -
  assume d: "dispatcher_inv d"
  show ?thesis
  proof (cases "find (\<lambda>l. ln_name l = name) (d_lanes d)")
    case (Some l)
    let ?lanes = "map (\<lambda>l. if ln_name l = name then snd (enqueue_lane (d_config d) (d_closed d) e l) else l) (d_lanes d)"
    have "map ln_name ?lanes = map ln_name (d_lanes d)" by simp
    with d have "distinct (map ln_name ?lanes)" unfolding dispatcher_inv_def by (simp only:)
    with d show ?thesis
      by (auto simp: dispatcher_inv_def Enqueue_def Some list_all_iff enqueue_lane_inv simp del: map_map)
  qed (use d in \<open>simp add: Enqueue_def\<close>)
qed

lemma worker_step_phase:
  assumes "worker_step c inst closed aborted a (n, l) = Some (n', l')"
  shows "ln_phase l \<noteq> Unstarted \<and> ln_phase l' \<noteq> Unstarted \<and> ln_name l' = ln_name l"
  using assms
  by (cases rule: worker_stepE)
    (auto simp: receive_def begin_send_def append_event_def after_send_def attempt_returned_def sleep_returned_def
      abandon_def Let_def split: sum.splits if_splits option.splits kont.splits)

lemma worker_moves_inv: "worker_moves d d' \<Longrightarrow> dispatcher_inv d \<Longrightarrow> dispatcher_inv d'"
proof (induction rule: worker_moves.induct)
  case (move i d a n l)
  let ?c = "d_config d" and ?inst = "d_instance d"
  have c: "valid_report_config ?c" and old: "lane_inv ?c ?inst (d_lanes d ! i)"
    using move by (auto simp: dispatcher_inv_def list_all_length)
  note ph = worker_step_phase [OF move(3)]
  have "map ln_name ((d_lanes d)[i := l]) = map ln_name (d_lanes d)"
    using ph move(1) by (metis list_update_id map_update)
  moreover have "set ((d_lanes d)[i := l]) \<subseteq> insert l (set (d_lanes d))" by (rule set_update_subset_insert)
  moreover have "d_started d" using ph move(1,4) by (auto simp: dispatcher_inv_def list_all_length)
  ultimately show ?case
    using move(4) ph worker_step_inv [OF c old move(2,3)] by (auto simp: dispatcher_inv_def list_all_iff)
qed

lemma close_finish_inv: "close_ready d \<Longrightarrow> dispatcher_inv d \<Longrightarrow> dispatcher_inv (snd (close_finish d))"
proof -
  assume r: "close_ready d" and d: "dispatcher_inv d"
  have "lane_inv (d_config d) (d_instance d) ((settle Undelivered (ln_queue l) l)\<lparr>ln_queue := []\<rparr>)"
    if "l \<in> set (d_lanes d)" for l
  proof -
    let ?b = "settle Undelivered (ln_queue l) l"
    have l: "lane_inv (d_config d) (d_instance d) l" "ln_phase l = Finished \<or> ln_phase l = Unstarted"
      "valid_report_config (d_config d)"
      using r d that by (auto simp: dispatcher_inv_def close_ready_def list_all_iff)
    then have "ln_delivered ?b = outcomes Delivered ?b" "ln_failed ?b = outcomes Failed ?b"
      "ln_undelivered ?b = outcomes Undelivered ?b"
      by (auto simp: lane_inv_def accounted_def intro: settle_counts)
    with l valid_report_configD(1) [OF l(3)] show ?thesis
      by (auto simp: lane_inv_def lane_inv_defs in_flight_def pending_def outcomes_def batch_of_def comp_def)
  qed
  with d show ?thesis by (auto simp: dispatcher_inv_def close_finish_def Let_def list_all_iff comp_def)
qed

lemma close_flags_inv [simp]:
  "dispatcher_inv (close_begin d) \<longleftrightarrow> dispatcher_inv d" "dispatcher_inv (close_deadline d) \<longleftrightarrow> dispatcher_inv d"
  by (simp_all add: close_begin_def close_deadline_def dispatcher_inv_def)

lemma dispatcher_step_inv: "dispatcher_step d d' \<Longrightarrow> dispatcher_inv d \<Longrightarrow> dispatcher_inv d'"
  by (induction rule: dispatcher_step.induct)
    (simp_all add: Start_inv Enqueue_inv worker_moves_inv close_finish_inv close_flags_inv)

lemma reachable_inv: "reachable d \<Longrightarrow> dispatcher_inv d"
  by (induction rule: reachable.induct) (auto intro: NewDispatcher_inv dispatcher_step_inv)

lemma reachable_lane: "reachable d \<Longrightarrow> l \<in> set (d_lanes d) \<Longrightarrow> lane_inv (d_config d) (d_instance d) l"
  using reachable_inv by (auto simp: dispatcher_inv_def list_all_iff)

end
