(* ===== verification/Processing.thy ===== *)
theory Processing
  imports Subscriptions Dispatcher_Inv Gs1_URI "HOL-Library.AList"
begin

text \<open>
  What happens to one observation, from \<^verbatim>\<open>src/internal/app/tagstrak\<close>: translation and its counters
  (\<^verbatim>\<open>translate.go\<close>), matching (\<^verbatim>\<open>match.go\<close>), routing and the event that is reported
  (\<^verbatim>\<open>deliver.go\<close>). A call works on one snapshot of the subscription table and enqueues at the
  dispatcher. Whether the caller's context has ended is an input, and logging is not modelled.
\<close>

section \<open>Routing\<close>

definition route_name :: "ID \<Rightarrow> string \<Rightarrow> string list \<times> (string \<Rightarrow> string list option) \<Rightarrow>
    string list \<times> (string \<Rightarrow> string list option)" where
  "route_name i name = (\<lambda>(order, byDestination).
     (if byDestination name = None then order @ [name] else order,
      byDestination(name \<mapsto> (case byDestination name of None \<Rightarrow> [] | Some is' \<Rightarrow> is') @ [i])))"

definition route :: "routes \<Rightarrow> ID list \<Rightarrow> string list \<times> (string \<Rightarrow> string list option)" where
  "route routes matched =
     fold (\<lambda>i. fold (route_name i) (case routes i of None \<Rightarrow> [] | Some ns \<Rightarrow> ns)) matched ([], Map.empty)"

section \<open>Events\<close>

definition EventOf :: "string \<Rightarrow> observation \<Rightarrow> translation \<Rightarrow> event" where
  "EventOf i obs tr =
     (let v = t_Identity tr in
      \<lparr>ev_ID = i, ev_Source = obs_source obs, ObservedAt = obs_seenAt obs, Subscriptions = [],
       ev_Scheme = enc_Scheme (t_Encoding tr), ev_EPC = tag_epc (obs_tag obs),
       ev_Identity = \<lparr>ri_Authority = Authority_String (v_authority v), ri_KeyType = KeyType_String (v_keyType v),
         ri_Components = fold (\<lambda>c. AList.update (ComponentName_String (c_name c)) (c_value c)) (v_components v) []\<rparr>,
       ev_PureIdentityURI = (case PureIdentityURI v of Inl _ \<Rightarrow> [] | Inr uri \<Rightarrow> uri)\<rparr>)"

section \<open>The processor\<close>

record processor =
  pr_delivery :: "dispatcher option"
  pr_instance :: string
  pr_sequence :: u64

datatype delivery_error = DeliveryRequired | NoSuchDestination string

text \<open>\<open>DeliverTo\<close> with the random bytes of its instance identifier.\<close>

definition DeliverTo ::
  "dispatcher option \<Rightarrow> bytes \<Rightarrow> subscription_table \<Rightarrow> processor \<Rightarrow> delivery_error + processor" where
  "DeliverTo delivery random t p =
     (case delivery of
        None \<Rightarrow> Inl DeliveryRequired
      | Some d \<Rightarrow>
          (case find (\<lambda>name. name \<notin> set (Destinations d)) (table_Destinations t) of
             Some name \<Rightarrow> Inl (NoSuchDestination name)
           | None \<Rightarrow> Inr (p\<lparr>pr_delivery := Some d, pr_instance := NewInstanceID random\<rparr>)))"

definition NewMatchingProcessor ::
  "(subscription_table \<Rightarrow> processor \<Rightarrow> delivery_error + processor) list \<Rightarrow> subscription_table \<Rightarrow>
     delivery_error + processor" where
  "NewMatchingProcessor opts t =
     fold_res (\<lambda>opt. opt t) opts \<lparr>pr_delivery = None, pr_instance = [], pr_sequence = 0\<rparr>"

text \<open>A call to a nil matcher panics.\<close>

datatype process_error = ContextEnded | NilMatcher

definition enqueue_events :: "event \<Rightarrow> (string \<Rightarrow> string list option) \<Rightarrow> string list \<Rightarrow> dispatcher \<Rightarrow> dispatcher" where
  "enqueue_events base byDestination =
     fold (\<lambda>name d. snd (Enqueue name
       (base\<lparr>Subscriptions := (case byDestination name of None \<Rightarrow> [] | Some is' \<Rightarrow> is')\<rparr>) d))"

definition Process ::
  "bool \<Rightarrow> observation \<Rightarrow> translation \<Rightarrow> snapshot \<Rightarrow> processor \<Rightarrow> process_error option \<times> processor" where
  "Process ended obs tr sn p =
     (if ended then (Some ContextEnded, p)
      else case sn_matcher sn of
        None \<Rightarrow> (Some NilMatcher, p)
      | Some m \<Rightarrow>
          let matched = mv_Match m (SubjectOf tr) [] in
          case pr_delivery p of
            None \<Rightarrow> (None, p)
          | Some d \<Rightarrow>
              if length matched = 0 then (None, p)
              else let (order, byDestination) = route (sn_routes sn) matched in
                if length order = 0 then (None, p)
                else let sequence = pr_sequence p + 1;
                         base = EventOf (pr_instance p @ CHR '':'' # itoa (unat sequence)) obs tr
                     in (None, p\<lparr>pr_sequence := sequence,
                               pr_delivery := Some (enqueue_events base byDestination order d)\<rparr>))"

section \<open>The consumer\<close>

definition TranslationInput :: "observation \<Rightarrow> tdt_input" where
  "TranslationInput obs =
     (let epc = tag_epc (obs_tag obs);
          inp = \<lparr>in_Bits = epc, in_BitLen = int (length epc) * 8, in_PC = 0, in_HasPC = False, in_AFI = 0, in_HasAFI = False\<rparr>;
          (pc, ok) = ProtocolControl obs
      in if ok then inp\<lparr>in_PC := pc, in_HasPC := True\<rparr> else inp)"

definition untranslatable :: "tdt_error \<Rightarrow> bool" where
  "untranslatable e \<longleftrightarrow>
     errors_Is e ErrUnknownHeader \<or> errors_Is e ErrUnsupportedScheme \<or> errors_Is e ErrUnrecognisedNonGS1 \<or>
     errors_Is e ErrAmbiguousEncoding \<or> errors_Is e ErrUnresolvedSemantics \<or> errors_Is e ErrXPCPresent \<or>
     errors_Is e ErrTdtLengthMismatch \<or> errors_Is e ErrUnknownPartition \<or> errors_Is e ErrReservedBits \<or>
     errors_Is e ErrFieldValue \<or> errors_Is e ErrTruncated"

record consumer =
  cn_translator :: translator
  cn_processor :: "processor option"
  cn_translated :: u64
  cn_untranslated :: u64

definition NewTranslatingConsumer :: "translator option \<Rightarrow> processor option \<Rightarrow> consumer" where
  "NewTranslatingConsumer t p =
     \<lparr>cn_translator = (case t of None \<Rightarrow> NewTranslator [] | Some t \<Rightarrow> t), cn_processor = p,
      cn_translated = 0, cn_untranslated = 0\<rparr>"

datatype consume_error = NotTranslated tdt_error | NotProcessed process_error

definition Consume :: "bool \<Rightarrow> observation \<Rightarrow> snapshot \<Rightarrow> consumer \<Rightarrow> consume_error option \<times> consumer" where
  "Consume ended obs sn c =
     (case Translate (cn_translator c) (TranslationInput obs) of
        Inl e \<Rightarrow>
          if untranslatable e then (None, c\<lparr>cn_untranslated := cn_untranslated c + 1\<rparr>)
          else (Some (NotTranslated e), c)
      | Inr tr \<Rightarrow>
          let c = c\<lparr>cn_translated := cn_translated c + 1\<rparr> in
          case cn_processor c of
            None \<Rightarrow> (None, c)
          | Some p \<Rightarrow>
              let (err, p) = Process ended obs tr sn p
              in (map_option NotProcessed err, c\<lparr>cn_processor := Some p\<rparr>))"

definition Counts :: "consumer \<Rightarrow> u64 \<times> u64" where
  "Counts c = (cn_translated c, cn_untranslated c)"

section \<open>Facts: what a refused tag is\<close>

lemma untranslatable_simps [simp]:
  "untranslatable ErrUnknownHeader" "untranslatable ErrUnsupportedScheme" "untranslatable ErrUnrecognisedNonGS1"
  "untranslatable ErrAmbiguousEncoding" "untranslatable ErrUnresolvedSemantics" "untranslatable ErrXPCPresent"
  "untranslatable ErrTdtLengthMismatch" "untranslatable ErrUnknownPartition" "untranslatable ErrReservedBits"
  "untranslatable ErrTruncated" "untranslatable (Field s f r v c)"
  "untranslatable (FieldError s f r v c (Some ErrTdtLengthMismatch))"
  by (simp_all add: untranslatable_def)

lemma input_extent_error: "input_extent inp = Inl e \<Longrightarrow> untranslatable e"
  by (auto simp: input_extent_def Let_def bind_res_eq_Inl split: if_splits)

lemma decoded_identity_ok:
  assumes "scheme_ok s" "opt \<in> set (sd_Options (sch_def s))" "length vs = length (BinaryFields opt)"
  shows "\<exists>v. New AuthorityGS1 (sch_keyType s) (drop (Suc 0) (components (TagFields opt) vs)) = Inr v"
proof -
  have ok: "option_ok s opt" using assms by (intro option_okD)
  obtain f fs where "BinaryFields opt = f # fs" "length fs = length (PureFields opt)"
    using field_names [OF ok] by metis
  then have "length (tl vs) = length (PureFields opt)" using assms(3) by simp
  then have "map c_name (components (PureFields opt) (tl vs)) = ComponentOrder (sch_keyType s)"
    using ok by (simp add: component_names option_ok_def)
  moreover have "componentOrder (sch_keyType s) = Some (ComponentOrder (sch_keyType s))"
    using assms(1) by (auto simp: scheme_ok_def ComponentOrder_def)
  ultimately have "is_ok (New AuthorityGS1 (sch_keyType s) (components (PureFields opt) (tl vs)))"
    by (simp add: is_ok_iff New_Inr)
  then show ?thesis using tag_fields_tail [OF ok, of vs] by (auto simp: is_ok_iff)
qed

lemma scheme_Decode_error:
  assumes "scheme_ok s" "scheme_Decode s bits n = Inl e"
  shows "untranslatable e"
proof -
  have new: "\<exists>v. New AuthorityGS1 (sch_keyType s) (drop (Suc 0) (components (TagFields opt) vs)) = Inr v"
    if "OptionByPartition (sch_def s) k = Some opt" "map_res f (BinaryFields opt) = Inr vs" for k opt f vs
    using that OptionByPartition_iff [OF assms(1)] map_res_length [OF that(2)]
    by (intro decoded_identity_ok [OF assms(1)]) auto
  show ?thesis
    using assms(2)
    by (auto simp: scheme_Decode_def Let_def bind_res_eq_Inl split: if_splits option.splits
        dest!: map_res_Inl_elem dest: new)
qed

lemma gs1_Decode_error: "gs1_Decode bits n = Inl e \<Longrightarrow> untranslatable e"
  by (auto simp: gs1_Decode_def byHeader_iff split: if_splits option.splits
      intro: scheme_Decode_error [OF schemes_ok])

lemma transport_New: "New a KeyTypeTransportUnit [\<lparr>c_name = DataIdentifier, c_value = x\<rparr>, \<lparr>c_name = ISOIdentifier, c_value = y\<rparr>] \<noteq> Inl e"
  by (simp add: New_def componentOrder_def)

lemma Interpret_error: "Interpret c t = Inl e \<Longrightarrow> untranslatable e"
  by (auto simp: Interpret_def bind_res_eq_Inl c_Scheme_def checkControls_def interpretTransportUnit_def
      checkISO15459Identity_def transport_New split: if_splits list.splits option.splits sum.splits)

lemma iso_Decode_error: "iso_Decode bits n afi = Inl e \<Longrightarrow> untranslatable e"
  by (auto simp: iso_Decode_def bind_res_eq_Inl Recognise_def c_Scheme_def decodeFor_def DecodeText_def Let_def split_beta
      split: if_splits option.splits Compaction.splits dest: Interpret_error)

lemma Translate_error: "Translate t inp = Inl e \<Longrightarrow> untranslatable e"
  by (cases "input_format t inp"; cases "fst (input_format t inp)")
    (auto simp: Translate_def bind_res_eq_Inl split: if_splits
      dest: input_extent_error gs1_Decode_error iso_Decode_error)

lemma Process_error:
  "fst (Process ended obs tr sn p) =
     (if ended then Some ContextEnded else if sn_matcher sn = None then Some NilMatcher else None)"
  by (auto simp: Process_def Let_def split_beta split: option.split)

section \<open>Facts: routing\<close>

text \<open>What is routed where, one pair for each mention of a destination, and the names in order of first mention.\<close>

definition hits :: "sub_spec \<Rightarrow> translation \<Rightarrow> (string \<times> ID) list" where
  "hits spec tr = concat (map (\<lambda>s. map (\<lambda>name. (name, cs_ID s)) (cs_Destinations s)) (subscribed spec tr))"

definition firsts :: "'a list \<Rightarrow> 'a list" where
  "firsts xs = rev (remdups (rev xs))"

definition ids_for :: "string \<Rightarrow> (string \<times> ID) list \<Rightarrow> ID list" where
  "ids_for name hs = map snd (filter (\<lambda>h. fst h = name) hs)"

lemma firsts_simps [simp]:
  "firsts [] = []" "firsts (xs @ [x]) = (if x \<in> set xs then firsts xs else firsts xs @ [x])"
  "set (firsts xs) = set xs" "distinct (firsts xs)"
  by (simp_all add: firsts_def)

lemma firsts_Nil [simp]: "firsts xs = [] \<longleftrightarrow> xs = []"
  using firsts_simps(3) [of xs] by (metis set_empty)

lemma ids_for_simps [simp]:
  "ids_for name [] = []" "ids_for name (hs @ [h]) = ids_for name hs @ (if fst h = name then [snd h] else [])"
  by (simp_all add: ids_for_def)

lemma route_hits:
  "fold (\<lambda>(name, i). route_name i name) hs ([], Map.empty) =
     (firsts (map fst hs), \<lambda>name. if name \<in> fst ` set hs then Some (ids_for name hs) else None)"
proof (induction hs rule: rev_induct)
  case (snoc h hs)
  have no: "ids_for (fst h) hs = []" if "fst h \<notin> fst ` set hs"
    using that by (simp add: ids_for_def filter_empty_conv image_iff) metis
  have "fold (\<lambda>(name, i). route_name i name) (hs @ [h]) ([], Map.empty) =
      route_name (snd h) (fst h) (fold (\<lambda>(name, i). route_name i name) hs ([], Map.empty))"
    by (simp add: split_beta)
  also note snoc.IH
  also have "route_name (snd h) (fst h) (firsts (map fst hs), \<lambda>name. if name \<in> fst ` set hs then Some (ids_for name hs) else None) =
      (firsts (map fst (hs @ [h])), \<lambda>name. if name \<in> fst ` set (hs @ [h]) then Some (ids_for name (hs @ [h])) else None)"
    by (auto simp: route_name_def no fun_eq_iff)
  finally show ?case .
qed (simp add: fun_eq_iff)

lemma route_routes_of:
  assumes "distinct (map cs_ID spec)"
  shows "route (routes_of spec) (map cs_ID (subscribed spec tr)) =
     fold (\<lambda>(name, i). route_name i name) (hits spec tr) ([], Map.empty)"
proof -
  have names: "(case routes_of spec (cs_ID s) of None \<Rightarrow> [] | Some ns \<Rightarrow> ns) = cs_Destinations s" if "s \<in> set spec" for s
    using routes_of_elem [OF assms that] by simp
  have "fold (\<lambda>i. fold (route_name i) (case routes_of spec i of None \<Rightarrow> [] | Some ns \<Rightarrow> ns)) (map cs_ID ss) st =
      fold (\<lambda>(name, i). route_name i name) (concat (map (\<lambda>s. map (\<lambda>name. (name, cs_ID s)) (cs_Destinations s)) ss)) st"
    if "set ss \<subseteq> set spec" for ss st
    using that by (induction ss arbitrary: st) (simp_all add: names fold_map comp_def)
  then show ?thesis by (simp add: route_def hits_def subscribed_def)
qed



definition report_to :: "event \<Rightarrow> (string \<times> ID) list \<Rightarrow> dispatcher \<Rightarrow> dispatcher" where
  "report_to base hs d = fold (\<lambda>name d. snd (Enqueue name (base\<lparr>Subscriptions := ids_for name hs\<rparr>) d)) (firsts (map fst hs)) d"

definition process_hits :: "observation \<Rightarrow> translation \<Rightarrow> (string \<times> ID) list \<Rightarrow> processor \<Rightarrow> processor" where
  "process_hits obs tr hs p =
     (case pr_delivery p of
        None \<Rightarrow> p
      | Some d \<Rightarrow>
          if hs = [] then p
          else p\<lparr>pr_sequence := pr_sequence p + 1,
                 pr_delivery := Some (report_to (EventOf (pr_instance p @ '':'' @ itoa (unat (pr_sequence p + 1))) obs tr) hs d)\<rparr>)"

context live_table
begin

lemma Process_hits:
  assumes "snapshot_ok t" "tb_newMatcher t = compile" "Translate trl inp = Inr tr"
  shows "Process False obs tr (tb_current t) p =
    (None, process_hits obs tr (hits (sn_spec (tb_current t)) tr) p)"
proof -
  let ?spec = "sn_spec (tb_current t)"
  obtain m where m: "sn_matcher (tb_current t) = Some m" "mv_Match m (SubjectOf tr) [] = map cs_ID (subscribed ?spec tr)"
    and r: "distinct (map cs_ID ?spec)" "sn_routes (tb_current t) = routes_of ?spec"
    by (rule snapshot_matches [OF assms])
  let ?hs = "hits ?spec tr"
  have route: "route (sn_routes (tb_current t)) (map cs_ID (subscribed ?spec tr)) =
      (firsts (map fst ?hs), \<lambda>name. if name \<in> fst ` set ?hs then Some (ids_for name ?hs) else None)"
    by (simp only: r(2) route_routes_of [OF r(1)] route_hits)
  have none: "?hs = []" if "subscribed ?spec tr = []" using that by (simp add: hits_def)
  have "fold (\<lambda>name d. snd (Enqueue name (base\<lparr>Subscriptions := (case (if name \<in> fst ` set ?hs then Some (ids_for name ?hs) else None) of
          None \<Rightarrow> [] | Some is' \<Rightarrow> is')\<rparr>) d)) (firsts (map fst ?hs)) d = report_to base ?hs d" for base d
    unfolding report_to_def by (rule fold_cong) auto
  then show ?thesis
    by (auto simp: Process_def process_hits_def m route none enqueue_events_def Let_def split: option.split)
qed

end

section \<open>Facts: a destination counts every event\<close>

definition offered :: "lane \<Rightarrow> u64" where
  "offered l = ln_enqueued l + ln_dropped l"

definition counted_once :: "string set \<Rightarrow> lane \<Rightarrow> lane \<Rightarrow> bool" where
  "counted_once ns l l' \<longleftrightarrow> ln_name l' = ln_name l \<and> offered l' = offered l + (if ln_name l \<in> ns then 1 else 0)"

lemma Enqueue_counts: "list_all2 (counted_once {name}) (d_lanes d) (d_lanes (snd (Enqueue name e d)))"
proof (cases "find (\<lambda>l. ln_name l = name) (d_lanes d)")
  case None
  then have "\<forall>l \<in> set (d_lanes d). ln_name l \<noteq> name" by (simp add: find_None_iff)
  with None show ?thesis by (simp add: Enqueue_def list_all2_conv_all_nth counted_once_def)
next
  case (Some l)
  have "counted_once {name} l (if ln_name l = name then snd (enqueue_lane c closed e l) else l)" for c closed l
    by (simp add: counted_once_def offered_def enqueue_lane_def)
  then show ?thesis by (simp add: Enqueue_def Some list_all2_conv_all_nth)
qed

lemma counted_once_eq:
  "counted_once ns = (\<lambda>l l'. ln_name l' = ln_name l \<and>
     ln_enqueued l' + ln_dropped l' = ln_enqueued l + ln_dropped l + (if ln_name l \<in> ns then 1 else 0))"
  by (intro ext) (simp add: counted_once_def offered_def)

lemma counted_once_trans:
  "counted_once A l l' \<Longrightarrow> counted_once B l' l'' \<Longrightarrow> A \<inter> B = {} \<Longrightarrow> counted_once (A \<union> B) l l''"
  by (auto simp: counted_once_def)

lemma enqueue_each_counts:
  "distinct ns \<Longrightarrow> list_all2 (counted_once (set ns)) (d_lanes d) (d_lanes (fold (\<lambda>name d. snd (Enqueue name (f name) d)) ns d))"
proof (induction ns arbitrary: d)
  case (Cons n ns)
  let ?d = "snd (Enqueue n (f n) d)"
  have "list_all2 (counted_once (set ns)) (d_lanes ?d) (d_lanes (fold (\<lambda>name d. snd (Enqueue name (f name) d)) ns ?d))"
    using Cons by simp
  with Enqueue_counts have "list_all2 (counted_once ({n} \<union> set ns)) (d_lanes d)
      (d_lanes (fold (\<lambda>name d. snd (Enqueue name (f name) d)) ns ?d))"
    by (rule list_all2_trans [rotated]) (use Cons.prems counted_once_trans [of "{n}" _ _ "set ns"] in auto)
  then show ?case by simp
qed (simp add: list_all2_conv_all_nth counted_once_def)

lemma report_to_counts: "list_all2 (counted_once (fst ` set hs)) (d_lanes d) (d_lanes (report_to base hs d))"
  using enqueue_each_counts [of "firsts (map fst hs)" d] by (simp add: report_to_def)

lemma DeliverTo_Inr:
  "NewMatchingProcessor [DeliverTo delivery random] t = Inr p \<longleftrightarrow>
     (\<exists>d. delivery = Some d \<and> set (tb_destinations t) \<subseteq> set (Destinations d) \<and>
        p = \<lparr>pr_delivery = Some d, pr_instance = NewInstanceID random, pr_sequence = 0\<rparr>)"
proof (cases delivery)
  case (Some d)
  show ?thesis
  proof (cases "find (\<lambda>name. name \<notin> set (Destinations d)) (table_Destinations t)")
    case None
    then have "set (tb_destinations t) \<subseteq> set (Destinations d)" by (auto simp: find_None_iff table_Destinations_def)
    then show ?thesis by (auto simp: NewMatchingProcessor_def DeliverTo_def Some None)
  next
    case (Some name)
    from find_SomeD [OF this] have "\<not> set (tb_destinations t) \<subseteq> set (Destinations d)"
      by (auto simp: table_Destinations_def)
    then show ?thesis using \<open>delivery = Some d\<close> Some by (auto simp: NewMatchingProcessor_def DeliverTo_def)
  qed
qed (simp add: NewMatchingProcessor_def DeliverTo_def)

section \<open>Properties\<close>

text \<open>
  C1. A tag reaches its subscribers: whatever replacements went before, processing a translated
  observation hands each destination one event that names, in the order of the specification,
  exactly the subscriptions that route to it and one of whose patterns the tag meets by the
  reference rule; destinations are served in the order of their first mention, events carry one
  identifier, and nothing is enqueued, and no identifier used, when there is nothing to report.
\<close>

theorem tag_reaches_subscribers:
  "case (compilers name, Translate trl (TranslationInput obs)) of
     (Some compile, Inr tr) \<Rightarrow>
       (let sn = tb_current (fst (table_run ops (NewSubscriptionTableWith dests compile, w)));
            hs = concat (map (\<lambda>s. map (\<lambda>dest. (dest, cs_ID s)) (cs_Destinations s)) (filter (meets tr) (sn_spec sn)));
            base = EventOf (pr_instance p @ '':'' @ itoa (unat (pr_sequence p + 1))) obs tr
        in Process False obs tr sn p =
             (None,
              case pr_delivery p of
                None \<Rightarrow> p
              | Some d \<Rightarrow>
                  if hs = [] then p
                  else p\<lparr>pr_sequence := pr_sequence p + 1,
                         pr_delivery := Some (fold (\<lambda>dest d. snd (Enqueue dest
                           (base\<lparr>Subscriptions := map snd (filter (\<lambda>h. fst h = dest) hs)\<rparr>) d))
                           (firsts (map fst hs)) d)\<rparr>))
   | _ \<Rightarrow> True"
proof (cases "compilers name")
  case (Some compile)
  note live = live_tables [OF Some]
  show ?thesis
  proof (cases "Translate trl (TranslationInput obs)")
    case (Inr tr)
    define tab where "tab = fst (table_run ops (NewSubscriptionTableWith dests compile, w))"
    have "snapshot_ok tab" "tb_newMatcher tab = compile"
      using table_run_ok [of "(NewSubscriptionTableWith dests compile, w)" ops] live_table.new_ok [OF live, of dests]
      by (simp_all add: tab_def) (simp add: NewSubscriptionTableWith_def)
    note eq = live_table.Process_hits [OF live this Inr, of obs p]
    show ?thesis
      unfolding Some Inr option.case sum.case prod.case Let_def eq [unfolded tab_def]
        process_hits_def hits_def subscribed_def report_to_def ids_for_def by (rule refl)
  qed (simp add: Some)
qed simp

text \<open>
  C14. No report is lost on the way to a queue: once a processor has been built for a table and a
  dispatcher, then after any replacements every destination a tag is reported to exists at the
  dispatcher, and processing raises the sum of accepted and dropped events by exactly one at
  each of them and leaves it as it was at every other, whether queues are full or closed.
\<close>

theorem reports_are_counted:
  "case compilers name of
     None \<Rightarrow> True
   | Some compile \<Rightarrow>
       (let new = NewSubscriptionTableWith dests compile; sn = tb_current (fst (table_run ops (new, w))) in
        case (NewMatchingProcessor [DeliverTo (Some d) random] new, Translate trl (TranslationInput obs)) of
          (Inr p, Inr tr) \<Rightarrow>
            (let hit = \<Union> (set (map (\<lambda>s. set (cs_Destinations s)) (filter (meets tr) (sn_spec sn)))) in
             hit \<subseteq> set (Destinations d) \<and>
             (case pr_delivery (snd (Process False obs tr sn p)) of
                None \<Rightarrow> False
              | Some d' \<Rightarrow> list_all2 (\<lambda>l l'. ln_name l' = ln_name l \<and>
                  ln_enqueued l' + ln_dropped l' = ln_enqueued l + ln_dropped l + (if ln_name l \<in> hit then 1 else 0))
                  (d_lanes d) (d_lanes d')))
        | _ \<Rightarrow> True)"
proof (cases "compilers name")
  case (Some compile)
  note live = live_tables [OF Some]
  let ?new = "NewSubscriptionTableWith dests compile"
  show ?thesis
  proof (cases "\<exists>p tr. NewMatchingProcessor [DeliverTo (Some d) random] ?new = Inr p \<and> Translate trl (TranslationInput obs) = Inr tr")
    case True
    then obtain p tr where p: "NewMatchingProcessor [DeliverTo (Some d) random] ?new = Inr p"
      and tr: "Translate trl (TranslationInput obs) = Inr tr" by blast
    define tab where "tab = fst (table_run ops (?new, w))"
    have tab: "snapshot_ok tab" "tb_newMatcher tab = compile" "tb_destinations tab = tb_destinations ?new"
      using table_run_ok [of "(?new, w)" ops] live_table.new_ok [OF live, of dests]
      by (simp_all add: tab_def) (simp_all add: NewSubscriptionTableWith_def)
    let ?spec = "sn_spec (tb_current tab)"
    let ?hs = "hits ?spec tr"
    have hit: "\<Union> (set (map (\<lambda>s. set (cs_Destinations s)) (filter (meets tr) ?spec))) = fst ` set ?hs"
      by (force simp: hits_def subscribed_def)
    have known: "set (tb_destinations tab) \<subseteq> set (Destinations d)" "pr_delivery p = Some d"
      using p by (auto simp: DeliverTo_Inr tab(3))
    have "list_all (spec_ok (tb_destinations tab)) ?spec" using tab(1) by (simp add: snapshot_ok_iff Let_def)
    then have "fst ` set ?hs \<subseteq> set (Destinations d)"
      using known by (fastforce simp: hits_def subscribed_def list_all_iff spec_ok_def)
    moreover have "list_all2 (counted_once (fst ` set ?hs)) (d_lanes d) (d_lanes (report_to base ?hs d))" for base
      by (rule report_to_counts)
    moreover have "list_all2 (counted_once {}) (d_lanes d) (d_lanes d)"
      by (simp add: list_all2_conv_all_nth counted_once_def)
    ultimately show ?thesis
      using live_table.Process_hits [OF live tab(1,2) tr, of obs p]
      unfolding Some option.case Let_def p tr prod.case sum.case tab_def [symmetric] hit
      by (simp add: process_hits_def known(2) counted_once_eq)
  qed (auto simp: Some Let_def split: sum.split)
qed simp

text \<open>
  C35. An observation never stops the consumer: whatever a reader reports, translation either
  succeeds or fails in a way that is counted and dropped, so the only error a consumer returns
  is its processor's; and each observation is counted exactly once, as translated when it has a
  translation and as untranslated when it has none.
\<close>

theorem observations_are_counted:
  "let (err, c') = Consume ended obs sn c; result = Translate (cn_translator c) (TranslationInput obs) in
   cn_translated c' = cn_translated c + (if is_ok result then 1 else 0) \<and>
   cn_untranslated c' = cn_untranslated c + (if is_ok result then 0 else 1) \<and>
   (case err of
      None \<Rightarrow> True
    | Some (NotTranslated _) \<Rightarrow> False
    | Some (NotProcessed e) \<Rightarrow> is_ok result \<and> cn_processor c \<noteq> None \<and> (e = ContextEnded \<longleftrightarrow> ended))"
  using Translate_error [of "cn_translator c" "TranslationInput obs"] Process_error [of ended obs _ sn]
  by (auto simp: Consume_def Let_def split_beta split: sum.splits option.splits)

end
