(* ===== verification/Filter_Adaptive.thy ===== *)
theory Filter_Adaptive
  imports Filter_Index
begin

text \<open>
  The adaptive matcher of \<^verbatim>\<open>src/internal/filter/adaptive.go\<close>: its settings, the switching
  policy (the controller) and the matcher that times candidates on sampled calls.
  \<^verbatim>\<open>float64\<close> is an arbitrary type with the
  operations the code applies to it; the clock is a function from the world to a reading and
  the next world. A sampled call runs under the matcher's lock and an unsampled one only
  reads the selection, so a run is a sequence of whole calls.
\<close>

section \<open>Settings\<close>

record 'f float_ops =
  f_of_int :: "int \<Rightarrow> 'f"
  f_mul :: "'f \<Rightarrow> 'f \<Rightarrow> 'f"
  f_sub :: "'f \<Rightarrow> 'f \<Rightarrow> 'f"
  f_le :: "'f \<Rightarrow> 'f \<Rightarrow> bool"
  f_less :: "'f \<Rightarrow> 'f \<Rightarrow> bool"
  f_isNaN :: "'f \<Rightarrow> bool"

record candidate =
  cand_Name :: string
  cand_Compile :: "compiler option"

record 'f adaptive_config =
  Candidates :: "candidate list"
  SampleEvery :: int
  Warmup :: int
  Window :: int
  Hysteresis :: 'f
  Cooldown :: int
  OverheadBudget :: 'f
  FullShadow :: bool
  Experimental :: bool

definition MaxCandidates :: nat where "MaxCandidates = 4"
definition MinSampleEvery :: int where "MinSampleEvery = 10"
definition MaxObservations :: int where "MaxObservations = 1000"

definition adaptive_validate :: "'f float_ops \<Rightarrow> 'f adaptive_config \<Rightarrow> filter_error + unit" where
  "adaptive_validate F c =
     (let n = length (Candidates c) in
      if n < 2 \<or> n > MaxCandidates then Inl ErrAdaptiveConfig
      else bind_res (fold_res (\<lambda>cand seen.
             if cand_Name cand = [] then Inl ErrAdaptiveConfig
             else if cand_Name cand \<in> set seen then Inl ErrAdaptiveConfig
             else if cand_Compile cand = None then Inl ErrAdaptiveConfig
             else Inr (cand_Name cand # seen)) (Candidates c) []) (\<lambda>_.
        if FullShadow c \<and> \<not> Experimental c then Inl ErrAdaptiveConfig
        else if \<not> FullShadow c \<and> SampleEvery c < MinSampleEvery then Inl ErrAdaptiveConfig
        else if list_ex (\<lambda>v. v < 1 \<or> v > MaxObservations) [Warmup c, Window c] then Inl ErrAdaptiveConfig
        else if Cooldown c < 0 then Inl ErrAdaptiveConfig
        else if f_isNaN F (Hysteresis c) \<or> f_less F (Hysteresis c) (f_of_int F 0) \<or>
                f_le F (f_of_int F 1) (Hysteresis c) then Inl ErrAdaptiveConfig
        else if \<not> FullShadow c \<and>
                (f_isNaN F (OverheadBudget c) \<or> f_le F (OverheadBudget c) (f_of_int F 0) \<or>
                 f_less F (f_of_int F 1) (OverheadBudget c)) then Inl ErrAdaptiveConfig
        else Inr ()))"

section \<open>The controller\<close>

record 'f controller =
  ctl_warmup :: int
  ctl_cooldown :: int
  ctl_hysteresis :: 'f
  ctl_selected :: nat
  ctl_switches :: u64
  ctl_sinceSwitch :: int
  ctl_counts :: "u64 list"
  ctl_rings :: "int list list"
  ctl_window :: nat \<comment> \<open>the capacity of every ring\<close>
  ctl_next :: "nat list"

definition newController :: "nat \<Rightarrow> 'f adaptive_config \<Rightarrow> 'f controller" where
  "newController n cfg =
     \<lparr>ctl_warmup = Warmup cfg, ctl_cooldown = Cooldown cfg, ctl_hysteresis = Hysteresis cfg,
      ctl_selected = 0, ctl_switches = 0, ctl_sinceSwitch = 0, ctl_counts = replicate n 0,
      ctl_rings = replicate n [], ctl_window = nat (Window cfg), ctl_next = replicate n 0\<rparr>"

definition observe :: "'f controller \<Rightarrow> nat \<Rightarrow> int \<Rightarrow> 'f controller" where
  "observe c candidate cost =
     (let c = c\<lparr>ctl_counts := (ctl_counts c)[candidate := ctl_counts c ! candidate + 1]\<rparr>;
          ring = ctl_rings c ! candidate
      in if length ring < ctl_window c
         then c\<lparr>ctl_rings := (ctl_rings c)[candidate := ring @ [cost]]\<rparr>
         else let i = ctl_next c ! candidate in
              c\<lparr>ctl_rings := (ctl_rings c)[candidate := ring[i := cost]],
                ctl_next := (ctl_next c)[candidate := (i + 1) mod length ring]\<rparr>)"

definition warm :: "'f controller \<Rightarrow> bool" where
  "warm c \<longleftrightarrow> list_all (\<lambda>n. \<not> n < of_int (ctl_warmup c)) (ctl_counts c)"

definition mean :: "'f controller \<Rightarrow> nat \<Rightarrow> int" where
  "mean c candidate =
     (let ring = ctl_rings c ! candidate in
      if length ring = 0 then 0
      else foldl (\<lambda>sum d. wrap64 (sum + d)) 0 ring sdiv int (length ring))"

definition cheapest :: "'f controller \<Rightarrow> nat" where
  "cheapest c = foldl (\<lambda>best cand. if mean c cand < mean c best then cand else best)
     (ctl_selected c) [0..<length (ctl_counts c)]"

definition decide :: "'f float_ops \<Rightarrow> 'f controller \<Rightarrow> (nat \<times> bool) \<times> 'f controller" where
  "decide F c0 =
     (let c = c0\<lparr>ctl_sinceSwitch := wrap64 (ctl_sinceSwitch c0 + 1)\<rparr> in
      if \<not> warm c then ((ctl_selected c, False), c)
      else if ctl_switches c > 0 \<and> ctl_sinceSwitch c \<le> ctl_cooldown c then ((ctl_selected c, False), c)
      else let best = cheapest c in
        if best = ctl_selected c \<or>
           f_le F (f_mul F (f_of_int F (mean c (ctl_selected c))) (f_sub F (f_of_int F 1) (ctl_hysteresis c)))
                  (f_of_int F (mean c best))
        then ((ctl_selected c, False), c)
        else ((best, True), c\<lparr>ctl_selected := best, ctl_switches := ctl_switches c + 1, ctl_sinceSwitch := 0\<rparr>))"

section \<open>The matcher\<close>

record 'f adaptive =
  a_names :: "string list"
  a_matchers :: "matcher_value list"
  a_every :: u64
  a_full :: bool
  a_budget :: 'f
  a_selected :: nat
  a_calls :: u64
  a_ctl :: "'f controller"
  a_nextShadow :: nat
  a_sampled :: u64
  a_skipped :: u64
  a_shadowTime :: int

definition CompileAdaptive ::
  "'f float_ops \<Rightarrow> subscription list \<Rightarrow> 'f adaptive_config \<Rightarrow> filter_error + 'f adaptive" where
  "CompileAdaptive F subscriptions cfg =
     bind_res (validate subscriptions) (\<lambda>_.
     bind_res (adaptive_validate F cfg) (\<lambda>_.
     bind_res (map_res (\<lambda>cand. case cand_Compile cand of None \<Rightarrow> Inl ErrAdaptiveConfig | Some f \<Rightarrow> f subscriptions)
         (Candidates cfg)) (\<lambda>ms.
     Inr \<lparr>a_names = map cand_Name (Candidates cfg), a_matchers = ms, a_every = of_int (SampleEvery cfg),
          a_full = FullShadow cfg, a_budget = OverheadBudget cfg, a_selected = 0, a_calls = 0,
          a_ctl = newController (length (Candidates cfg)) cfg, a_nextShadow = 0, a_sampled = 0,
          a_skipped = 0, a_shadowTime = 0\<rparr>)))"

definition timed ::
  "('w \<Rightarrow> int \<times> 'w) \<Rightarrow> 'f adaptive \<Rightarrow> nat \<Rightarrow> subject \<Rightarrow> ID list \<Rightarrow> bool \<Rightarrow> 'w \<Rightarrow> ID list \<times> 'f adaptive \<times> 'w" where
  "timed now a c s dst shadow w =
     (case now w of (start, w1) \<Rightarrow>
        let dst = mv_Match (a_matchers a ! c) s dst in
        case now w1 of (end', w2) \<Rightarrow>
          let cost = time_Sub end' start;
              a = a\<lparr>a_ctl := observe (a_ctl a) c cost\<rparr>;
              a = (if shadow then a\<lparr>a_shadowTime := wrap64 (a_shadowTime a + cost)\<rparr> else a)
          in (dst, a, w2))"

definition withinBudget :: "'f float_ops \<Rightarrow> 'f adaptive \<Rightarrow> nat \<Rightarrow> bool" where
  "withinBudget F a sel =
     (let estimated = f_mul F (f_of_int F (mean (a_ctl a) sel)) (f_of_int F (int (unat (a_calls a))))
      in f_le F (f_of_int F (a_shadowTime a)) (f_mul F (a_budget a) estimated))"

definition pickShadow :: "'f adaptive \<Rightarrow> nat \<Rightarrow> nat \<times> 'f adaptive" where
  "pickShadow a sel =
     (let n = length (a_matchers a);
          i = (a_nextShadow a + 1) mod n;
          i = (if i = sel then (i + 1) mod n else i)
      in (i, a\<lparr>a_nextShadow := i\<rparr>))"

definition run_shadows ::
  "('w \<Rightarrow> int \<times> 'w) \<Rightarrow> nat \<Rightarrow> nat option \<Rightarrow> subject \<Rightarrow> 'f adaptive \<Rightarrow> 'w \<Rightarrow> 'f adaptive \<times> 'w" where
  "run_shadows now sel shadow s a w =
     foldl (\<lambda>(a, w) c.
       if c \<noteq> sel \<and> (a_full a \<or> Some c = shadow)
       then (case timed now a c s [] True w of (_, a, w) \<Rightarrow> (a, w)) else (a, w))
       (a, w) [0..<length (a_matchers a)]"

definition sampled_Match ::
  "'f float_ops \<Rightarrow> ('w \<Rightarrow> int \<times> 'w) \<Rightarrow> 'f adaptive \<Rightarrow> subject \<Rightarrow> ID list \<Rightarrow> 'w \<Rightarrow> ID list \<times> 'f adaptive \<times> 'w" where
  "sampled_Match F now a s dst w =
     (let sel = ctl_selected (a_ctl a);
          (shadow, a) = (if a_full a \<or> \<not> warm (a_ctl a) \<or> withinBudget F a sel
                         then (case pickShadow a sel of (c, a) \<Rightarrow> (Some c, a))
                         else (None, a\<lparr>a_skipped := a_skipped a + 1\<rparr>));
          selectedFirst = (a_sampled a mod 2 = 0);
          a = a\<lparr>a_sampled := a_sampled a + 1\<rparr>;
          (dst, a, w) = (if selectedFirst then timed now a sel s dst False w else (dst, a, w));
          (a, w) = run_shadows now sel shadow s a w;
          (dst, a, w) = (if \<not> selectedFirst then timed now a sel s dst False w else (dst, a, w));
          ((nxt, switched), ctl) = decide F (a_ctl a);
          a = a\<lparr>a_ctl := ctl\<rparr>;
          a = (if switched then a\<lparr>a_selected := nxt\<rparr> else a)
      in (dst, a, w))"

definition adaptive_Match ::
  "'f float_ops \<Rightarrow> ('w \<Rightarrow> int \<times> 'w) \<Rightarrow> 'f adaptive \<Rightarrow> subject \<Rightarrow> ID list \<Rightarrow> 'w \<Rightarrow> ID list \<times> 'f adaptive \<times> 'w" where
  "adaptive_Match F now a s dst w =
     (let a = (if a_full a then a else a\<lparr>a_calls := a_calls a + 1\<rparr>) in
      if \<not> a_full a \<and> a_calls a mod a_every a \<noteq> 0
      then (mv_Match (a_matchers a ! a_selected a) s dst, a, w)
      else sampled_Match F now a s dst w)"

definition adaptive_Len :: "'f adaptive \<Rightarrow> nat" where
  "adaptive_Len a = mv_Len (a_matchers a ! 0)"

record candidate_stats =
  cs_Name :: string
  cs_Samples :: u64
  cs_MeanCost :: int

record adaptive_stats =
  st_Selected :: string
  st_Switches :: u64
  st_SampledCalls :: u64
  st_SkippedShadows :: u64
  st_ShadowTime :: int
  st_Candidates :: "candidate_stats list"

definition adaptive_Stats :: "'f adaptive \<Rightarrow> adaptive_stats" where
  "adaptive_Stats a =
     \<lparr>st_Selected = a_names a ! ctl_selected (a_ctl a), st_Switches = ctl_switches (a_ctl a),
      st_SampledCalls = a_sampled a, st_SkippedShadows = a_skipped a, st_ShadowTime = a_shadowTime a,
      st_Candidates = map (\<lambda>c. \<lparr>cs_Name = a_names a ! c, cs_Samples = ctl_counts (a_ctl a) ! c,
        cs_MeanCost = mean (a_ctl a) c\<rparr>) [0..<length (a_names a)]\<rparr>"

section \<open>Facts: the controller\<close>

definition ctl_ok :: "nat \<Rightarrow> 'f controller \<Rightarrow> bool" where
  "ctl_ok n c \<longleftrightarrow> ctl_selected c < n \<and> length (ctl_counts c) = n \<and> length (ctl_rings c) = n \<and>
     length (ctl_next c) = n \<and> (\<forall>r \<in> set (ctl_rings c). length r \<le> ctl_window c)"

lemma newController_ok: "0 < n \<Longrightarrow> ctl_ok n (newController n cfg)"
  by (simp add: ctl_ok_def newController_def)

lemma observe_selected [simp]: "ctl_selected (observe c i cost) = ctl_selected c"
  by (simp add: observe_def Let_def)

lemma observe_ok:
  assumes "ctl_ok n c" "i < n"
  shows "ctl_ok n (observe c i cost)"
proof -
  have "ctl_rings c ! i \<in> set (ctl_rings c)" using assms by (simp add: ctl_ok_def)
  then have "length (ctl_rings c ! i) \<le> ctl_window c" using assms(1) by (simp add: ctl_ok_def)
  with assms show ?thesis
    by (auto simp: ctl_ok_def observe_def Let_def dest!: subsetD [OF set_update_subset_insert])
qed

lemma foldl_cheapest:
  fixes m :: "nat \<Rightarrow> int"
  defines "f \<equiv> \<lambda>best cand. if m cand < m best then cand else best"
  shows "(foldl f b xs = b \<or> foldl f b xs \<in> set xs \<and> m (foldl f b xs) < m b) \<and>
    m (foldl f b xs) \<le> m b \<and> (\<forall>x \<in> set xs. m (foldl f b xs) \<le> m x)"
proof (induction xs arbitrary: b)
  case (Cons x xs)
  from Cons [of "f b x"] show ?case by (auto simp: f_def)
qed simp

lemma cheapest_props:
  "cheapest c = ctl_selected c \<or> cheapest c < length (ctl_counts c) \<and> mean c (cheapest c) < mean c (ctl_selected c)"
  "cand < length (ctl_counts c) \<Longrightarrow> mean c (cheapest c) \<le> mean c cand"
  using foldl_cheapest [of "mean c" "ctl_selected c" "[0..<length (ctl_counts c)]"]
  by (auto simp: cheapest_def)

lemma cheapest_since [simp]: "cheapest (c\<lparr>ctl_sinceSwitch := k\<rparr>) = cheapest c"
  "mean (c\<lparr>ctl_sinceSwitch := k\<rparr>) i = mean c i" "warm (c\<lparr>ctl_sinceSwitch := k\<rparr>) = warm c"
  by (simp_all add: cheapest_def mean_def warm_def cong: foldl_cong)

lemma decide_ok: "ctl_ok n c \<Longrightarrow> decide F c = ((nxt, sw), c') \<Longrightarrow> ctl_ok n c' \<and> ctl_selected c' = nxt \<and>
   (\<not> sw \<longrightarrow> nxt = ctl_selected c)"
  using cheapest_props(1) [of c] by (auto simp: decide_def Let_def ctl_ok_def split: if_splits)

section \<open>Facts: the matcher\<close>

definition adaptive_ok :: "subscription list \<Rightarrow> 'f adaptive \<Rightarrow> bool" where
  "adaptive_ok subs a \<longleftrightarrow> 2 \<le> length (a_matchers a) \<and> ctl_ok (length (a_matchers a)) (a_ctl a) \<and>
     a_selected a = ctl_selected (a_ctl a) \<and> length (a_names a) = length (a_matchers a) \<and>
     (\<forall>m \<in> set (a_matchers a). \<forall>s dst. mv_Match m s dst = dst @ matching subs s)"

lemma timed_ok:
  assumes "adaptive_ok subs a" "c < length (a_matchers a)" "timed now a c s dst shadow w = (dst', a', w')"
  shows "adaptive_ok subs a' \<and> dst' = dst @ matching subs s \<and> a_matchers a' = a_matchers a \<and>
    ctl_selected (a_ctl a') = ctl_selected (a_ctl a)"
  using assms observe_ok [of "length (a_matchers a)" "a_ctl a" c]
  by (auto simp: timed_def Let_def adaptive_ok_def split: prod.splits if_splits)

lemma timed_if:
  assumes "(if b then timed now a c s dst False w else (dst, a, w)) = (dst', a', w')"
    "adaptive_ok subs a" "c < length (a_matchers a)"
  shows "adaptive_ok subs a' \<and> dst' = (if b then dst @ matching subs s else dst) \<and> a_matchers a' = a_matchers a \<and>
    ctl_selected (a_ctl a') = ctl_selected (a_ctl a)"
proof (cases b)
  case True
  with assms(1) have "timed now a c s dst False w = (dst', a', w')" by simp
  from timed_ok [OF assms(2,3) this] True show ?thesis by simp
qed (use assms in simp)

lemma run_shadows_ok:
  assumes "adaptive_ok subs a" "run_shadows now sel shadow s a w = (a', w')"
  shows "adaptive_ok subs a' \<and> a_matchers a' = a_matchers a \<and> ctl_selected (a_ctl a') = ctl_selected (a_ctl a)"
proof -
  let ?step = "\<lambda>(a, w) c. if c \<noteq> sel \<and> (a_full a \<or> Some c = shadow)
       then (case timed now a c s [] True w of (_, a, w) \<Rightarrow> (a, w)) else (a, w)"
  have "adaptive_ok subs b' \<and> a_matchers b' = a_matchers b \<and> ctl_selected (a_ctl b') = ctl_selected (a_ctl b)"
    if "foldl ?step (b, v) cs = (b', v')" "adaptive_ok subs b" "\<forall>c \<in> set cs. c < length (a_matchers b)" for b v b' v' cs
    using that
  proof (induction cs arbitrary: b v)
    case (Cons c cs)
    obtain b1 v1 where st: "?step (b, v) c = (b1, v1)" by (cases "?step (b, v) c")
    with Cons.prems have "adaptive_ok subs b1 \<and> a_matchers b1 = a_matchers b \<and>
        ctl_selected (a_ctl b1) = ctl_selected (a_ctl b)"
      by (auto split: if_splits prod.splits dest: timed_ok)
    with Cons.IH [of b1 v1] Cons.prems st show ?case by simp
  qed simp
  from this [of a w "[0..<length (a_matchers a)]" a' w'] assms show ?thesis
    by (simp add: run_shadows_def)
qed

lemma adaptive_ok_fields [simp]:
  "adaptive_ok subs (a\<lparr>a_nextShadow := i\<rparr>) = adaptive_ok subs a"
  "adaptive_ok subs (a\<lparr>a_skipped := k\<rparr>) = adaptive_ok subs a"
  "adaptive_ok subs (a\<lparr>a_sampled := k\<rparr>) = adaptive_ok subs a"
  "adaptive_ok subs (a\<lparr>a_calls := k\<rparr>) = adaptive_ok subs a"
  by (simp_all add: adaptive_ok_def)

lemma sampled_Match_ok:
  assumes "adaptive_ok subs a" "sampled_Match F now a s dst w = (dst', a', w')"
  shows "dst' = dst @ matching subs s \<and> adaptive_ok subs a'"
proof -
  let ?sel = "ctl_selected (a_ctl a)"
  obtain shadow a1 where s1: "(if a_full a \<or> \<not> warm (a_ctl a) \<or> withinBudget F a ?sel
      then (case pickShadow a ?sel of (c, a) \<Rightarrow> (Some c, a)) else (None, a\<lparr>a_skipped := a_skipped a + 1\<rparr>)) = (shadow, a1)"
    by (rule prod.exhaust)
  have a1: "adaptive_ok subs a1" "a_matchers a1 = a_matchers a" "ctl_selected (a_ctl a1) = ?sel" "a_sampled a1 = a_sampled a"
    using s1 assms(1) by (auto simp: pickShadow_def Let_def split: if_splits)
  let ?first = "a_sampled a1 mod 2 = 0"
  let ?a2 = "a1\<lparr>a_sampled := a_sampled a1 + 1\<rparr>"
  have sel: "?sel < length (a_matchers a)" using assms(1) by (simp add: adaptive_ok_def ctl_ok_def)
  obtain d3 a3 w3 where s3: "(if ?first then timed now ?a2 ?sel s dst False w else (dst, ?a2, w)) = (d3, a3, w3)"
    by (rule prod_cases3)
  have a3: "adaptive_ok subs a3" "a_matchers a3 = a_matchers a" "ctl_selected (a_ctl a3) = ?sel"
    "d3 = (if ?first then dst @ matching subs s else dst)"
    using timed_if [OF s3, of subs] a1 sel by simp_all
  obtain a4 w4 where s4: "run_shadows now ?sel shadow s a3 w3 = (a4, w4)" by (rule prod.exhaust)
  from run_shadows_ok [OF a3(1) s4] a3 have a4: "adaptive_ok subs a4" "a_matchers a4 = a_matchers a"
    "ctl_selected (a_ctl a4) = ?sel" by auto
  obtain d5 a5 w5 where s5: "(if \<not> ?first then timed now a4 ?sel s d3 False w4 else (d3, a4, w4)) = (d5, a5, w5)"
    by (rule prod_cases3)
  have a5: "adaptive_ok subs a5" "d5 = dst @ matching subs s"
    using timed_if [OF s5 a4(1)] a4(2) a3(4) sel by (simp_all split: if_splits)
  obtain nxt sw ctl where s6: "decide F (a_ctl a5) = ((nxt, sw), ctl)" by (metis prod.exhaust)
  from a5(1) have "ctl_ok (length (a_matchers a5)) (a_ctl a5)" by (simp add: adaptive_ok_def)
  from decide_ok [OF this s6] a5(1)
  have "adaptive_ok subs (if sw then a5\<lparr>a_ctl := ctl, a_selected := nxt\<rparr> else a5\<lparr>a_ctl := ctl\<rparr>)"
    by (auto simp: adaptive_ok_def)
  moreover have "sampled_Match F now a s dst w =
      (d5, if sw then a5\<lparr>a_ctl := ctl, a_selected := nxt\<rparr> else a5\<lparr>a_ctl := ctl\<rparr>, w5)"
    by (simp only: sampled_Match_def Let_def s1 s3 s4 s5 s6 prod.case)
  ultimately show ?thesis using a5(2) assms(2) by simp
qed

lemma adaptive_Match_ok:
  assumes "adaptive_ok subs a" "adaptive_Match F now a s dst w = (dst', a', w')"
  shows "dst' = dst @ matching subs s \<and> adaptive_ok subs a'"
proof -
  let ?a = "if a_full a then a else a\<lparr>a_calls := a_calls a + 1\<rparr>"
  have ok: "adaptive_ok subs ?a" using assms(1) by simp
  then have "a_matchers ?a ! a_selected ?a \<in> set (a_matchers ?a)"
    by (auto simp: adaptive_ok_def ctl_ok_def)
  with ok have plain: "mv_Match (a_matchers ?a ! a_selected ?a) s dst = dst @ matching subs s"
    by (simp add: adaptive_ok_def)
  show ?thesis
    using assms(2) ok plain sampled_Match_ok [OF ok, of F now s dst w dst' a' w']
    by (auto simp: adaptive_Match_def Let_def split: if_splits)
qed

lemma validated_candidates:
  "adaptive_validate F cfg = Inr () \<Longrightarrow> 2 \<le> length (Candidates cfg)"
  by (auto simp: adaptive_validate_def Let_def split: if_splits)

lemma CompileAdaptive_ok:
  assumes "CompileAdaptive F subs cfg = Inr a"
    "\<forall>cand \<in> set (Candidates cfg). \<forall>f. cand_Compile cand = Some f \<longrightarrow> honours f subs"
  shows "adaptive_ok subs a"
proof -
  let ?build = "\<lambda>cand. case cand_Compile cand of None \<Rightarrow> Inl ErrAdaptiveConfig | Some f \<Rightarrow> f subs"
  from assms(1) obtain ms where ok: "adaptive_validate F cfg = Inr ()"
    and ms: "map_res ?build (Candidates cfg) = Inr ms"
    and a: "a = \<lparr>a_names = map cand_Name (Candidates cfg), a_matchers = ms, a_every = of_int (SampleEvery cfg),
          a_full = FullShadow cfg, a_budget = OverheadBudget cfg, a_selected = 0, a_calls = 0,
          a_ctl = newController (length (Candidates cfg)) cfg, a_nextShadow = 0, a_sampled = 0,
          a_skipped = 0, a_shadowTime = 0\<rparr>"
    by (auto simp: CompileAdaptive_def)
  have "mv_Match m s dst = dst @ matching subs s" if "m \<in> set ms" for m s dst
  proof -
    from map_res_Inr_elem [OF ms that] obtain cand where "cand \<in> set (Candidates cfg)" "?build cand = Inr m" by blast
    then obtain f where "cand_Compile cand = Some f" "f subs = Inr m" by (auto split: option.splits)
    with assms(2) \<open>cand \<in> set (Candidates cfg)\<close> show ?thesis by (auto simp: honours_def)
  qed
  then show ?thesis
    using validated_candidates [OF ok] map_res_length [OF ms]
    by (auto simp: adaptive_ok_def a newController_def ctl_ok_def)
qed

text \<open>A run of calls, each with its subject and the buffer it appends to.\<close>

fun adaptive_run ::
  "'f float_ops \<Rightarrow> ('w \<Rightarrow> int \<times> 'w) \<Rightarrow> 'f adaptive \<Rightarrow> (subject \<times> ID list) list \<Rightarrow> 'w \<Rightarrow> ID list list" where
  "adaptive_run F now a [] w = []"
| "adaptive_run F now a ((s, dst) # calls) w =
     (case adaptive_Match F now a s dst w of (dst', a', w') \<Rightarrow> dst' # adaptive_run F now a' calls w')"

lemma adaptive_run_ok:
  "adaptive_ok subs a \<Longrightarrow> adaptive_run F now a calls w = map (\<lambda>(s, dst). dst @ matching subs s) calls"
proof (induction calls arbitrary: a w)
  case (Cons call calls)
  obtain s dst where call: "call = (s, dst)" by (cases call)
  obtain dst' a' w' where st: "adaptive_Match F now a s dst w = (dst', a', w')" by (rule prod_cases3)
  from adaptive_Match_ok [OF Cons.prems st] Cons.IH [of a' w'] call st show ?case by simp
qed simp

section \<open>Properties\<close>

text \<open>
  C23. Adaptivity changes cost, never results: whatever the clock reads, whatever the floating
  point comparisons decide and whichever candidates it switches between, an adaptive matcher
  compiled over the package's own compilers answers every call of every run as the linear
  matcher of the same subscriptions does.
\<close>

theorem adaptive_equals_linear:
  assumes "CompileAdaptive F subs cfg = Inr a" "compileLinear subs = Inr m" "subs_wf subs"
    and "list_all (\<lambda>cand. cand_Compile cand \<in> {Some Compile, Some CompileIndex, Some CompileLinear}) (Candidates cfg)"
  shows "adaptive_run F now a calls w = map (\<lambda>(s, dst). linear_Match m s dst) calls"
proof -
  have "\<forall>cand \<in> set (Candidates cfg). \<forall>f. cand_Compile cand = Some f \<longrightarrow> honours f subs"
    using assms(3,4) Compile_honours CompileIndex_honours CompileLinear_honours
    by (auto simp: list_all_iff)
  from adaptive_run_ok [OF CompileAdaptive_ok [OF assms(1) this]] show ?thesis
    using linear.Match_compiled [OF assms(2,3)] by simp
qed

definition int_floats :: "int float_ops" where
  "int_floats = \<lparr>f_of_int = (\<lambda>i. i), f_mul = (*), f_sub = (-), f_le = (\<le>), f_less = (<), f_isNaN = (\<lambda>_. False)\<rparr>"

lemma adaptive_equals_linear_witness:
  "let cfg = \<lparr>Candidates = [\<lparr>cand_Name = ''index'', cand_Compile = Some CompileIndex\<rparr>,
          \<lparr>cand_Name = ''linear'', cand_Compile = Some CompileLinear\<rparr>],
        SampleEvery = 10, Warmup = 1, Window = 5, Hysteresis = 0, Cooldown = 0, OverheadBudget = 1,
        FullShadow = False, Experimental = False\<rparr>;
       star = (\<lambda>n. \<lparr>f_name = n, f_kind = FieldAny, f_text = [], f_lo = 0, f_hi = 0\<rparr>);
       subs = [\<lparr>sub_ID = ''a'', sub_Patterns = [\<lparr>p_level = LevelIdentity, p_authority = AuthorityGS1,
          p_keyType = KeyTypeSSCC, p_scheme = [], p_fields = [star GS1CompanyPrefix, star SerialReference],
          p_bits = None, p_text = []\<rparr>]\<rparr>];
       s = \<lparr>s_Identity = \<lparr>v_authority = AuthorityGS1, v_keyType = KeyTypeSSCC,
              v_components = [\<lparr>c_name = GS1CompanyPrefix, c_value = ''0614141''\<rparr>,
                \<lparr>c_name = SerialReference, c_value = ''1234567890''\<rparr>]\<rparr>,
            s_Scheme = ''sscc-96'', s_Fields = [], s_Bits = [], s_BitLen = 0\<rparr>
   in \<exists>a. CompileAdaptive int_floats subs cfg = Inr a \<and>
        adaptive_run int_floats (\<lambda>t. (t, t + 1)) a (replicate 12 (s, [])) 0 = replicate 12 [''a'']"
proof -
  let ?cfg = "\<lparr>Candidates = [\<lparr>cand_Name = ''index'', cand_Compile = Some CompileIndex\<rparr>,
          \<lparr>cand_Name = ''linear'', cand_Compile = Some CompileLinear\<rparr>],
        SampleEvery = 10, Warmup = 1, Window = 5, Hysteresis = 0, Cooldown = 0, OverheadBudget = 1,
        FullShadow = False, Experimental = False\<rparr> :: int adaptive_config"
  let ?star = "\<lambda>n. \<lparr>f_name = n, f_kind = FieldAny, f_text = [], f_lo = 0, f_hi = 0\<rparr>"
  let ?subs = "[\<lparr>sub_ID = ''a'', sub_Patterns = [\<lparr>p_level = LevelIdentity, p_authority = AuthorityGS1,
          p_keyType = KeyTypeSSCC, p_scheme = [], p_fields = [?star GS1CompanyPrefix, ?star SerialReference],
          p_bits = None, p_text = []\<rparr>]\<rparr>]"
  let ?s = "\<lparr>s_Identity = \<lparr>v_authority = AuthorityGS1, v_keyType = KeyTypeSSCC,
              v_components = [\<lparr>c_name = GS1CompanyPrefix, c_value = ''0614141''\<rparr>,
                \<lparr>c_name = SerialReference, c_value = ''1234567890''\<rparr>]\<rparr>,
            s_Scheme = ''sscc-96'', s_Fields = [], s_Bits = [], s_BitLen = 0\<rparr>"
  have "valid_subs ?subs"
    by (simp add: valid_subs_def MaxSubscriptions_def MaxPatternsPerSubscription_def p_IsZero_def)
  then have v: "validate ?subs = Inr ()" by (simp only: validate_iff)
  have cv: "adaptive_validate int_floats ?cfg = Inr ()"
    by (simp add: adaptive_validate_def Let_def MaxCandidates_def MinSampleEvery_def MaxObservations_def int_floats_def)
  from v obtain i where i: "compileIndex ?subs = Inr i" by (auto simp: compileIndex_def)
  from v obtain m where m: "compileLinear ?subs = Inr m" "linear_Match m ?s [] = [''a'']"
    by (simp add: compileLinear_def linear_Match_def matches_def MatchValue_def matchComponents_def match_field_def)
  from v cv i m(1) obtain a where a: "CompileAdaptive int_floats ?subs ?cfg = Inr a"
    by (simp add: CompileAdaptive_def CompileIndex_def CompileLinear_def)
  have "subs_wf ?subs" by (simp add: subs_wf_def bits_wf_def)
  from adaptive_equals_linear [OF a m(1) this, of "\<lambda>t. (t, t + 1)" "replicate 12 (?s, [])" 0] a m(2) show ?thesis
    by (simp add: Let_def)
qed

text \<open>
  The controller switches only on evidence: a decision that switches is taken when every
  candidate has finished its warmup and, after the first switch, more than \<open>Cooldown\<close>
  sampled calls since the last one; it selects a candidate whose mean cost is the lowest of
  all and strictly below the selected one's, by more than the hysteresis test allows. Any
  other decision keeps the selection.
\<close>

theorem decide_switches_on_evidence:
  "case decide F c of
     ((nxt, True), c') \<Rightarrow>
       warm c \<and> (ctl_switches c = 0 \<or> wrap64 (ctl_sinceSwitch c + 1) > ctl_cooldown c) \<and>
       nxt = ctl_selected c' \<and> mean c nxt < mean c (ctl_selected c) \<and>
       list_all (\<lambda>cand. mean c nxt \<le> mean c cand) [0..<length (ctl_counts c)] \<and>
       \<not> f_le F (f_mul F (f_of_int F (mean c (ctl_selected c))) (f_sub F (f_of_int F 1) (ctl_hysteresis c)))
           (f_of_int F (mean c nxt)) \<and>
       ctl_sinceSwitch c' = 0
   | ((nxt, False), c') \<Rightarrow>
       nxt = ctl_selected c \<and> ctl_selected c' = ctl_selected c \<and> ctl_switches c' = ctl_switches c"
  using cheapest_props(1) [of c] cheapest_props(2) [of _ c]
  by (auto simp: decide_def Let_def list_all_iff word_gt_0 split: if_splits)

end
