(* ===== verification/Configure.thy ===== *)
theory Configure
  imports Config_File Http_Report Processing Filter_Adaptive Reader
begin

text \<open>
  From a configuration file to a running pipeline, \<^verbatim>\<open>src/internal/app/tagstrak/configure.go\<close>, with the
  application's settings (\<^verbatim>\<open>Config\<close> of \<^verbatim>\<open>app.go\<close>). What the pipeline reads from outside (environment,
  secret files, the state file, \<^verbatim>\<open>url.Parse\<close>, random bytes, the floating-point constants) is one record.
\<close>

section \<open>Settings\<close>

record app_config =
  ap_Reader :: reader_config
  ap_QueueCapacity :: int
  ap_ConsumeTimeout :: int
  ap_ShutdownTimeout :: int
  ap_TelemetryAddress :: string
  ap_Control :: listen_config

definition app_DefaultConfig :: app_config where
  "app_DefaultConfig =
     \<lparr>ap_Reader = reader_DefaultConfig, ap_QueueCapacity = 128, ap_ConsumeTimeout = 5 * a_second,
      ap_ShutdownTimeout = 10 * a_second, ap_TelemetryAddress = ''127.0.0.1:8080'',
      ap_Control = \<lparr>lc_Socket = [], lc_Address = []\<rparr>\<rparr>"

datatype app_error = ReaderRefused | SettingRefused | ControlRefused listen_error

definition app_Validate ::
  "(string \<Rightarrow> int option) \<Rightarrow> (string \<Rightarrow> (string \<times> string) option) \<Rightarrow> (string \<Rightarrow> (bool \<times> string) option) \<Rightarrow>
     (string \<Rightarrow> string \<Rightarrow> string) \<Rightarrow> nat \<Rightarrow> app_config \<Rightarrow> app_error option" where
  "app_Validate port split ip join maxSocketPath c =
     (if \<not> reader_Validate port (ap_Reader c) then Some ReaderRefused
      else if ap_QueueCapacity c < 1 \<or> ap_QueueCapacity c > 100000 then Some SettingRefused
      else if ap_ConsumeTimeout c \<le> 0 then Some SettingRefused
      else if ap_ShutdownTimeout c \<le> 0 then Some SettingRefused
      else if split (ap_TelemetryAddress c) = None then Some SettingRefused
      else map_option ControlRefused (listen_Validate split ip join maxSocketPath (ap_Control c)))"

definition setString :: "string \<Rightarrow> string option \<Rightarrow> string" where
  "setString dst v = (case v of None \<Rightarrow> dst | Some x \<Rightarrow> x)"

definition setInt :: "int \<Rightarrow> int option \<Rightarrow> int" where
  "setInt dst v = (case v of None \<Rightarrow> dst | Some x \<Rightarrow> x)"

definition setDuration :: "int \<Rightarrow> int option \<Rightarrow> int" where
  "setDuration dst v = (case v of None \<Rightarrow> dst | Some x \<Rightarrow> x)"

definition ApplyFile :: "app_config \<Rightarrow> 'f config_file \<Rightarrow> app_config" where
  "ApplyFile c f =
     (let r = ap_Reader c; fr = cf_Reader f; rt = cf_Runtime f; co = cf_Control f; l = Limits r;
          limits = l\<lparr>maxFrameSize := (case rd_MaxFrameBytes fr of None \<Rightarrow> maxFrameSize l | Some v \<Rightarrow> v),
            maxParameterSize := (case rd_MaxParameterBytes fr of None \<Rightarrow> maxParameterSize l | Some v \<Rightarrow> v),
            maxParameters := setInt (maxParameters l) (rd_MaxParameters fr)\<rparr>
      in c\<lparr>ap_Reader := r\<lparr>Address := setString (Address r) (rd_Address fr), Source := setString (Source r) (rd_Source fr),
             ConnectTimeout := setDuration (ConnectTimeout r) (rd_ConnectTimeout fr),
             HandshakeTimeout := setDuration (HandshakeTimeout r) (rd_HandshakeTimeout fr),
             ReadTimeout := setDuration (ReadTimeout r) (rd_ReadTimeout fr),
             WriteTimeout := setDuration (WriteTimeout r) (rd_WriteTimeout fr),
             RetryMin := setDuration (RetryMin r) (rd_RetryMin fr), RetryMax := setDuration (RetryMax r) (rd_RetryMax fr),
             MaxRetries := setInt (MaxRetries r) (rd_MaxRetries fr), Limits := limits\<rparr>,
           ap_TelemetryAddress := setString (ap_TelemetryAddress c) (cf_Telemetry f),
           ap_Control := \<lparr>lc_Socket = setString (lc_Socket (ap_Control c)) (co_Socket co),
             lc_Address = setString (lc_Address (ap_Control c)) (co_Address co)\<rparr>,
           ap_QueueCapacity := setInt (ap_QueueCapacity c) (rt_QueueCapacity rt),
           ap_ConsumeTimeout := setDuration (ap_ConsumeTimeout c) (rt_ConsumeTimeout rt),
           ap_ShutdownTimeout := setDuration (ap_ShutdownTimeout c) (rt_ShutdownTimeout rt)\<rparr>)"

definition ReportConfig :: "'f config_file \<Rightarrow> report_config" where
  "ReportConfig f =
     (let c = report_DefaultConfig; r = cf_Report f in
      \<lparr>QueueCapacity = setInt (QueueCapacity c) (rp_QueueCapacity r), BatchEvents = setInt (BatchEvents c) (rp_BatchEvents r),
       BatchBytes = setInt (BatchBytes c) (rp_BatchBytes r), FlushInterval = setDuration (FlushInterval c) (rp_FlushInterval r),
       RequestTimeout = setDuration (RequestTimeout c) (rp_RequestTimeout r), MaxAttempts = setInt (MaxAttempts c) (rp_MaxAttempts r),
       BackoffBase = setDuration (BackoffBase c) (rp_BackoffBase r), BackoffMax = setDuration (BackoffMax c) (rp_BackoffMax r),
       RetryBudget = setDuration (RetryBudget c) (rp_RetryBudget r)\<rparr>)"

section \<open>The outside world\<close>

record ('f, 'b) surroundings =
  sr_goos :: string
  sr_lookup :: "string \<Rightarrow> string option"
  sr_files :: "string \<Rightarrow> secret_file"
  sr_parse :: "string \<Rightarrow> (parsed_url \<times> bool) option" \<comment> \<open>\<^verbatim>\<open>url.Parse\<close>, with whether there is user information\<close>
  sr_state :: "string \<Rightarrow> 'b read_result"
  sr_unmarshal :: "'b list \<Rightarrow> subscription_state option"
  sr_floats :: "'f float_ops"
  sr_hysteresis :: 'f \<comment> \<open>the literal 0.10\<close>
  sr_budget :: 'f \<comment> \<open>the literal 0.05\<close>
  sr_clock :: "nat \<Rightarrow> int" \<comment> \<open>the readings of a matcher's clock, \<^verbatim>\<open>time.Now\<close>\<close>
  sr_calls :: "subscription list \<Rightarrow> (subject \<times> ID list) list" \<comment> \<open>the calls a matcher has answered so far\<close>
  sr_dispatcher :: bytes
  sr_processor :: bytes

datatype pipeline_error =
    FilterField string | ControlRequired | NilStateFile | StateRefused state_error | TableRefused "unit table_error"
  | URLUser nat | HeaderName nat | HeaderSecret nat string secret_error | HeaderValue nat string | URLRefused nat
  | ReportRefused | TokenSecret secret_error | TokenUnused | DeliveryRefused delivery_error

section \<open>The matcher\<close>

definition DefaultAdaptiveConfig :: "('f, 'b) surroundings \<Rightarrow> candidate list \<Rightarrow> 'f adaptive_config" where
  "DefaultAdaptiveConfig w candidates =
     \<lparr>Candidates = candidates, SampleEvery = 100, Warmup = 20, Window = 50, Hysteresis = sr_hysteresis w, Cooldown = 500,
      OverheadBudget = sr_budget w, FullShadow = False, Experimental = False\<rparr>"

text \<open>
  The compiler of an adaptive configuration. The matcher it returns is an object with state: which
  candidate answers, what is timed and when it switches depend on the calls it has answered and on
  the clock. The value that stands for it answers the next call as \<open>adaptive_Match\<close> does in the state
  the object has reached, from its compilation, by the calls \<open>sr_calls\<close> names for its subscriptions under
  the clock's readings. Properties hold for every \<open>sr_calls\<close> and \<open>sr_clock\<close>, so for every moment.
\<close>

definition clock_now :: "(nat \<Rightarrow> int) \<Rightarrow> nat \<Rightarrow> int \<times> nat" where
  "clock_now clock k = (clock k, k + 1)"

fun adaptive_after ::
  "'f float_ops \<Rightarrow> ('w \<Rightarrow> int \<times> 'w) \<Rightarrow> 'f adaptive \<Rightarrow> (subject \<times> ID list) list \<Rightarrow> 'w \<Rightarrow> 'f adaptive \<times> 'w" where
  "adaptive_after F now a [] w = (a, w)"
| "adaptive_after F now a ((s, dst) # calls) w =
     (case adaptive_Match F now a s dst w of (_, a', w') \<Rightarrow> adaptive_after F now a' calls w')"

definition adaptive_Compiler :: "('f, 'b) surroundings \<Rightarrow> 'f adaptive_config \<Rightarrow> compiler" where
  "adaptive_Compiler w cfg subs =
     (case CompileAdaptive (sr_floats w) subs cfg of
        Inl e \<Rightarrow> Inl e
      | Inr a \<Rightarrow>
          let now = clock_now (sr_clock w); (a', k) = adaptive_after (sr_floats w) now a (sr_calls w subs) 0 in
          Inr \<lparr>mv_Match = (\<lambda>s dst. fst (adaptive_Match (sr_floats w) now a' s dst k)), mv_Len = adaptive_Len a'\<rparr>)"

definition adaptive_config_of :: "('f, 'b) surroundings \<Rightarrow> 'f filter_adaptive \<Rightarrow> pipeline_error + 'f adaptive_config" where
  "adaptive_config_of w a =
     (let cfg = (DefaultAdaptiveConfig w [])\<lparr>FullShadow := fa_Shadow a = Some ''full''\<rparr>;
          cand_names = (case fa_Candidates a of None \<Rightarrow> [''index'', ''linear''] | Some cs \<Rightarrow> cs) in
      bind_res (map_res (\<lambda>(i, name). case compilers name of
            None \<Rightarrow> Inl (FilterField (''filter.adaptive.candidates['' @ itoa i @ '']''))
          | Some compile \<Rightarrow> Inr \<lparr>cand_Name = name, cand_Compile = Some compile\<rparr>) (enumerate 0 cand_names)) (\<lambda>candidates.
      Inr (cfg\<lparr>Candidates := candidates, SampleEvery := setInt (SampleEvery cfg) (fa_SampleEvery a),
        Warmup := setInt (Warmup cfg) (fa_Warmup a), Window := setInt (Window cfg) (fa_Window a),
        Cooldown := setInt (Cooldown cfg) (fa_Cooldown a),
        Hysteresis := (case fa_Hysteresis a of None \<Rightarrow> Hysteresis cfg | Some v \<Rightarrow> v),
        OverheadBudget := (case fa_OverheadBudget a of None \<Rightarrow> OverheadBudget cfg | Some v \<Rightarrow> v),
        Experimental := (case fa_Experimental a of None \<Rightarrow> Experimental cfg | Some v \<Rightarrow> v)\<rparr>)))"

definition matcherCompiler :: "('f, 'b) surroundings \<Rightarrow> 'f config_file \<Rightarrow> pipeline_error + compiler" where
  "matcherCompiler w f =
     (if FilterMode f = ''single'' then
        (case compilers (FilterMatcher f) of None \<Rightarrow> Inl (FilterField ''filter.matcher'') | Some compile \<Rightarrow> Inr compile)
      else if FilterMode f = ''adaptive'' then
        bind_res (adaptive_config_of w (fl_Adaptive (cf_Filter f))) (\<lambda>cfg.
        case CompileAdaptive (sr_floats w) [] cfg of
          Inl _ \<Rightarrow> Inl (FilterField ''filter.adaptive'')
        | Inr _ \<Rightarrow> Inr (adaptive_Compiler w cfg))
      else Inl (FilterField ''filter.mode''))"

section \<open>Destinations\<close>

definition validHeaderName :: "string \<Rightarrow> bool" where
  "validHeaderName name \<longleftrightarrow> name \<noteq> [] \<and>
     list_all (\<lambda>c. CHR ''a'' \<le> c \<and> c \<le> CHR ''z'' \<or> CHR ''A'' \<le> c \<and> c \<le> CHR ''Z'' \<or> CHR ''0'' \<le> c \<and> c \<le> CHR ''9'' \<or>
       c \<in> set ''!#$%&*+-.^_|~'' \<or> c = CHR 0x27 \<or> c = CHR 0x60) name"

definition validHeaderValue :: "string \<Rightarrow> bool" where
  "validHeaderValue value \<longleftrightarrow> \<not> list_ex (\<lambda>c. of_char c < (0x20 :: nat) \<and> c \<noteq> CHR 0x09 \<or> c = CHR 0x7F) value"

text \<open>\<^verbatim>\<open>http.CanonicalHeaderKey\<close> of a valid name: the first letter and every one after a hyphen is upper case.\<close>

fun canonical_from :: "bool \<Rightarrow> string \<Rightarrow> string" where
  "canonical_from up [] = []"
| "canonical_from up (c # cs) =
     (if up then (if CHR ''a'' \<le> c \<and> c \<le> CHR ''z'' then char_of (of_char c - 32 :: nat) else c) else lower c) #
     canonical_from (c = CHR ''-'') cs"

definition CanonicalHeaderKey :: "string \<Rightarrow> string" where
  "CanonicalHeaderKey = canonical_from True"

record reporter =
  hr_URL :: parsed_url
  hr_Headers :: "(string \<times> secret) list"

definition build_header ::
  "('f, 'b) surroundings \<Rightarrow> nat \<Rightarrow> string \<times> secret_source \<Rightarrow> (string \<times> secret) list \<Rightarrow> pipeline_error + (string \<times> secret) list" where
  "build_header w i = (\<lambda>(name, source) headers.
     if \<not> validHeaderName name then Inl (HeaderName i)
     else case Resolve (sr_goos w) (sr_lookup w) (sr_files w) source of
       Inl e \<Rightarrow> Inl (HeaderSecret i name e)
     | Inr secret \<Rightarrow>
         if \<not> validHeaderValue (Reveal secret) then Inl (HeaderValue i name)
         else Inr (AList.update (CanonicalHeaderKey name) secret headers))"

definition build_destination ::
  "('f, 'b) surroundings \<Rightarrow> nat \<times> file_destination \<Rightarrow> pipeline_error + destination \<times> reporter" where
  "build_destination w = (\<lambda>(i, d).
     if map_option snd (sr_parse w (cd_URL d)) = Some True then Inl (URLUser i)
     else
       bind_res (fold_res (build_header w i) (cd_Headers d) []) (\<lambda>headers.
       case NewReporter (map_option fst (sr_parse w (cd_URL d))) of
         Inl _ \<Rightarrow> Inl (URLRefused i)
       | Inr u \<Rightarrow> Inr (\<lparr>de_Name = cd_Name d, de_HasReporter = True\<rparr>, \<lparr>hr_URL = u, hr_Headers = headers\<rparr>)))"

definition buildDestinations ::
  "('f, 'b) surroundings \<Rightarrow> file_destination list \<Rightarrow> pipeline_error + (destination \<times> reporter) list" where
  "buildDestinations w ds = map_res (build_destination w) (enumerate 0 ds)"

section \<open>The pipeline\<close>

text \<open>
  The dispatcher the processor enqueues to is the one the application starts and closes: one
  object in the code, the same value here.
\<close>

record assembly =
  as_Consumer :: consumer
  as_Delivery :: "dispatcher option"
  as_Reporters :: "reporter list"
  as_Control :: "(string \<times> control_settings) option"
  as_Subscriptions :: subscription_table
  as_Source :: string

text \<open>The table with its first subscriptions; reading a nil state file path panics.\<close>

definition pipeline_table ::
  "('f, 'b) surroundings \<Rightarrow> 'f config_file \<Rightarrow> app_config \<Rightarrow> compiler \<Rightarrow> pipeline_error + subscription_table" where
  "pipeline_table w f c compile =
     (let table = NewSubscriptionTableWith (map cd_Name (cf_Destinations f)) compile;
          load = (\<lambda>spec revision. case table_Load spec revision table of
            (Some e, _) \<Rightarrow> Inl (TableRefused e)
          | (None, t) \<Rightarrow> Inr t) in
      if SubscriptionSource f = ''api'' then
        if \<not> Enabled (ap_Control c) then Inl ControlRequired
        else case so_StateFile (cf_Store f) of
          None \<Rightarrow> Inl NilStateFile
        | Some path \<Rightarrow>
            (case LoadState (sr_unmarshal w) (sr_state w path) of
               Inl e \<Rightarrow> Inl (StateRefused e)
             | Inr state \<Rightarrow> load (sts_Subscriptions state) (sts_Revision state))
      else load (cf_Subscriptions f) 1)"

definition pipeline_delivery ::
  "('f, 'b) surroundings \<Rightarrow> 'f config_file \<Rightarrow> pipeline_error + dispatcher option \<times> reporter list" where
  "pipeline_delivery w f =
     (if length (cf_Destinations f) = 0 then Inr (None, [])
      else
        bind_res (buildDestinations w (cf_Destinations f)) (\<lambda>built.
        case NewDispatcher (ReportConfig f) (map fst built) (sr_dispatcher w) of
          Inl _ \<Rightarrow> Inl ReportRefused
        | Inr d \<Rightarrow> Inr (Some d, map snd built)))"

definition pipeline_control ::
  "('f, 'b) surroundings \<Rightarrow> 'f config_file \<Rightarrow> app_config \<Rightarrow> pipeline_error + (string \<times> control_settings) option" where
  "pipeline_control w f c =
     (if Enabled (ap_Control c) then
        bind_res
          (case co_Token (cf_Control f) of
             None \<Rightarrow> Inr []
           | Some s \<Rightarrow>
               (case Resolve (sr_goos w) (sr_lookup w) (sr_files w) s of
                  Inl e \<Rightarrow> Inl (TokenSecret e)
                | Inr secret \<Rightarrow> Inr (Reveal secret)))
          (\<lambda>token. Inr (Some (token, \<lparr>ct_Source = SubscriptionSource f, ct_Store = (SubscriptionSource f = ''api'')\<rparr>)))
      else if co_Token (cf_Control f) \<noteq> None then Inl TokenUnused
      else Inr None)"

definition Pipeline ::
  "('f, 'b) surroundings \<Rightarrow> 'f config_file \<Rightarrow> app_config \<Rightarrow> pipeline_error + assembly" where
  "Pipeline w f c =
     bind_res (matcherCompiler w f) (\<lambda>compile.
     bind_res (pipeline_table w f c compile) (\<lambda>table.
     bind_res (pipeline_delivery w f) (\<lambda>(delivery, reporters).
     bind_res (pipeline_control w f c) (\<lambda>control.
     case NewMatchingProcessor (case delivery of None \<Rightarrow> [] | Some d \<Rightarrow> [DeliverTo (Some d) (sr_processor w)]) table of
       Inl e \<Rightarrow> Inl (DeliveryRefused e)
     | Inr p \<Rightarrow>
         Inr \<lparr>as_Consumer = NewTranslatingConsumer (Some (NewTranslator [WithDefaultFormat FormatGS1])) (Some p),
              as_Delivery = delivery, as_Reporters = reporters, as_Control = control, as_Subscriptions = table,
              as_Source = SubscriptionSource f\<rparr>))))"

section \<open>Reloading\<close>

datatype reload_error = NotLoaded load_error | SourceChanged | NotReplaced "unit table_error"

definition reload_audit :: "string \<Rightarrow> u64 \<Rightarrow> u64 \<Rightarrow> nat \<Rightarrow> string \<Rightarrow> audit" where
  "reload_audit outcome before' after n code =
     \<lparr>au_Action = ''subscriptions.reload'', au_Outcome = outcome, au_Before = Some before', au_After = Some after,
      au_Count = Some n, au_Code = code\<rparr>"

definition ReloadFile ::
  "load_error + 'f config_file \<Rightarrow> subscription_table \<Rightarrow> reload_error option \<times> audit \<times> subscription_table" where
  "ReloadFile loaded t =
     (let before' = Revision t in
      case loaded of
        Inl e \<Rightarrow> (Some (NotLoaded e), reload_audit ''rejected'' before' before' 0 ''invalid_config'', t)
      | Inr f \<Rightarrow>
          if SubscriptionSource f \<noteq> ''file''
          then (Some SourceChanged, reload_audit ''rejected'' before' before' 0 ''source_changed'', t)
          else case table_Replace (cf_Subscriptions f) None None (t, ()) of
            ((Some e, _), t, _) \<Rightarrow> (Some (NotReplaced e), reload_audit ''rejected'' before' before' 0 ''invalid_subscriptions'', t)
          | ((None, after), t, _) \<Rightarrow> (None, reload_audit ''ok'' before' after (length (cf_Subscriptions f)) [], t))"

section \<open>Facts: the matcher\<close>

text \<open>The candidates of a configuration are compilers of the package.\<close>

definition package_candidates :: "'f adaptive_config \<Rightarrow> bool" where
  "package_candidates cfg \<longleftrightarrow> (\<forall>cand \<in> set (Candidates cfg). cand_Compile cand \<in> {Some CompileIndex, Some CompileLinear})"

lemma package_compiler:
  assumes "package_candidates cfg" "cand \<in> set (Candidates cfg)"
  obtains f where "cand_Compile cand = Some f" "live_table f"
  using assms index_table.live_table_axioms linear_table.live_table_axioms by (auto simp: package_candidates_def)

lemma live_honours: "live_table f \<Longrightarrow> subs_wf subs \<Longrightarrow> honours f subs"
  unfolding honours_def live_table_def by (auto dest: matcher.Match_compiled matcher.Len_compiled)

lemma package_honours:
  assumes "package_candidates cfg" "subs_wf subs"
  shows "\<forall>cand \<in> set (Candidates cfg). \<forall>f. cand_Compile cand = Some f \<longrightarrow> honours f subs"
  using assms live_honours by (auto elim!: package_compiler)

lemma CompileAdaptive_Inr:
  "CompileAdaptive F subs cfg = Inr a \<Longrightarrow> validate subs = Inr () \<and> adaptive_validate F cfg = Inr () \<and> a_selected a = 0 \<and>
     map_res (\<lambda>cand. case cand_Compile cand of None \<Rightarrow> Inl ErrAdaptiveConfig | Some f \<Rightarrow> f subs) (Candidates cfg) = Inr (a_matchers a)"
  by (auto simp: CompileAdaptive_def)

lemma candidates_package:
  assumes "map_res (\<lambda>(i, name). case compilers name of None \<Rightarrow> Inl (e i)
      | Some compile \<Rightarrow> Inr \<lparr>cand_Name = name, cand_Compile = Some compile\<rparr>) xs = Inr cs" "c \<in> set cs"
  shows "cand_Compile c \<in> {Some CompileIndex, Some CompileLinear}"
  using assms
proof (induction xs arbitrary: cs)
  case (Cons x xs)
  obtain i name where x: "x = (i, name)" by (cases x)
  then show ?case using Cons compilers_cases [of name] by (auto split: option.splits)
qed simp

lemma CompileAdaptive_error:
  assumes "package_candidates cfg" "adaptive_validate F cfg = Inr ()"
  shows "CompileAdaptive F subs cfg = Inl e \<longleftrightarrow> validate subs = Inl e"
proof (cases "validate subs")
  case (Inr u)
  have "is_ok (case cand_Compile cand of None \<Rightarrow> Inl ErrAdaptiveConfig | Some f \<Rightarrow> f subs)" if "cand \<in> set (Candidates cfg)" for cand
  proof -
    have "\<exists>f. cand_Compile cand = Some f \<and> live_table f" using package_compiler [OF assms(1) that] by metis
    then obtain f where f: "cand_Compile cand = Some f" "live_table f" by blast
    then have "is_ok (f subs)" using matcher.compile_ok [of f mv_Match mv_Len subs] Inr by (simp add: live_table_def flip: validate_iff)
    then show ?thesis using f(1) by simp
  qed
  then have "\<not> (\<exists>e. map_res (\<lambda>cand. case cand_Compile cand of None \<Rightarrow> Inl ErrAdaptiveConfig | Some f \<Rightarrow> f subs) (Candidates cfg) = Inl e)"
    by (auto dest!: map_res_Inl_elem simp: is_ok_iff_not)
  then show ?thesis using Inr assms(2) by (auto simp: CompileAdaptive_def bind_res_eq_Inl)
qed (simp add: CompileAdaptive_def)

lemma adaptive_first:
  assumes "CompileAdaptive F subs cfg = Inr a"
  shows "a_matchers a ! 0 \<in> set (a_matchers a)"
  using validated_candidates [of F cfg] CompileAdaptive_Inr [OF assms]
  by (intro nth_mem) (auto dest!: map_res_length)

lemma adaptive_Len:
  assumes "package_candidates cfg" "CompileAdaptive F subs cfg = Inr a"
  shows "adaptive_Len a = length subs"
proof -
  let ?build = "\<lambda>cand. case cand_Compile cand of None \<Rightarrow> Inl ErrAdaptiveConfig | Some f \<Rightarrow> f subs"
  have "map_res ?build (Candidates cfg) = Inr (a_matchers a)" using CompileAdaptive_Inr [OF assms(2)] by simp
  from map_res_Inr_elem [OF this adaptive_first [OF assms(2)]]
  obtain cand where cand: "cand \<in> set (Candidates cfg)" "?build cand = Inr (a_matchers a ! 0)" by blast
  obtain f where "cand_Compile cand = Some f" "live_table f" by (rule package_compiler [OF assms(1) cand(1)])
  then show ?thesis using cand(2) by (auto simp: adaptive_Len_def live_table_def dest: matcher.Len_compiled)
qed

text \<open>An adaptive compiler meets the contract of the table, so it may take the place of any other.\<close>

lemma timed_matchers: "timed now a c s dst shadow w = (dst', a', w') \<Longrightarrow> a_matchers a' = a_matchers a"
  by (auto simp: timed_def Let_def split: prod.splits if_splits)

lemma run_shadows_matchers: "a_matchers (fst (run_shadows now sel shadow s a w)) = a_matchers a"
proof -
  have "a_matchers (fst (foldl (\<lambda>(a, w) c. if c \<noteq> sel \<and> (a_full a \<or> Some c = shadow)
      then (case timed now a c s [] True w of (_, a, w) \<Rightarrow> (a, w)) else (a, w)) (a, w) cs)) = a_matchers a" for cs
    by (induction cs arbitrary: a w) (auto split: prod.split dest: timed_matchers)
  then show ?thesis by (simp add: run_shadows_def)
qed

lemma sampled_matchers:
  assumes "sampled_Match F now a s dst w = (dst', a', w')"
  shows "a_matchers a' = a_matchers a"
proof -
  define sel where "sel = ctl_selected (a_ctl a)"
  obtain shadow a1 where a1: "(if a_full a \<or> \<not> warm (a_ctl a) \<or> withinBudget F a sel
      then (case pickShadow a sel of (c, a) \<Rightarrow> (Some c, a)) else (None, a\<lparr>a_skipped := a_skipped a + 1\<rparr>)) = (shadow, a1)" by fastforce
  then have m1: "a_matchers a1 = a_matchers a" by (auto simp: pickShadow_def Let_def split: if_splits)
  define a2 where "a2 = a1\<lparr>a_sampled := a_sampled a1 + 1\<rparr>"
  obtain d3 a3 w3 where a3: "(if a_sampled a1 mod 2 = 0 then timed now a2 sel s dst False w else (dst, a2, w)) = (d3, a3, w3)"
    by (rule prod_cases3)
  then have m3: "a_matchers a3 = a_matchers a2" by (auto split: if_splits dest: timed_matchers)
  obtain a4 w4 where a4: "run_shadows now sel shadow s a3 w3 = (a4, w4)" by fastforce
  then have m4: "a_matchers a4 = a_matchers a3" using run_shadows_matchers [of now sel shadow s a3 w3] by simp
  obtain d5 a5 w5 where a5: "(if a_sampled a1 mod 2 \<noteq> 0 then timed now a4 sel s d3 False w4 else (d3, a4, w4)) = (d5, a5, w5)"
    by (rule prod_cases3)
  then have m5: "a_matchers a5 = a_matchers a4" by (auto split: if_splits dest: timed_matchers)
  obtain nxt sw ctl where d: "decide F (a_ctl a5) = ((nxt, sw), ctl)" by (metis prod.collapse)
  have "sampled_Match F now a s dst w =
      (d5, if sw then a5\<lparr>a_ctl := ctl, a_selected := nxt\<rparr> else a5\<lparr>a_ctl := ctl\<rparr>, w5)"
    using a1 a3 a4 a5 d by (simp only: sampled_Match_def Let_def sel_def [symmetric] a2_def [symmetric] prod.case)
  with assms have "a_matchers a' = a_matchers a5" by (auto split: if_splits)
  then show ?thesis using m1 m3 m4 m5 by (simp add: a2_def)
qed

lemma adaptive_Match_matchers:
  assumes "adaptive_Match F now a s dst w = (dst', a', w')"
  shows "a_matchers a' = a_matchers a"
proof -
  let ?a = "if a_full a then a else a\<lparr>a_calls := a_calls a + 1\<rparr>"
  have "a_matchers a' = a_matchers ?a"
    using assms sampled_matchers [of F now ?a s dst w dst' a' w'] by (auto simp: adaptive_Match_def Let_def split: if_splits)
  then show ?thesis by simp
qed

lemma adaptive_after_matchers: "a_matchers (fst (adaptive_after F now a calls w)) = a_matchers a"
proof (induction calls arbitrary: a w)
  case (Cons call calls)
  obtain s dst where call: "call = (s, dst)" by (cases call)
  obtain dst' a' w' where st: "adaptive_Match F now a s dst w = (dst', a', w')" by (rule prod_cases3)
  from adaptive_Match_matchers [OF st] Cons.IH [of a' w'] call st show ?case by simp
qed simp

lemma adaptive_after_ok: "adaptive_ok subs a \<Longrightarrow> adaptive_ok subs (fst (adaptive_after F now a calls w))"
proof (induction calls arbitrary: a w)
  case (Cons call calls)
  obtain s dst where call: "call = (s, dst)" by (cases call)
  obtain dst' a' w' where st: "adaptive_Match F now a s dst w = (dst', a', w')" by (rule prod_cases3)
  from adaptive_Match_ok [OF Cons.prems st] Cons.IH [of a' w'] call st show ?case by simp
qed simp

lemma adaptive_live:
  assumes "package_candidates cfg" "adaptive_validate (sr_floats w) cfg = Inr ()"
  shows "live_table (adaptive_Compiler w cfg)"
proof unfold_locales
  fix subs e
  show "adaptive_Compiler w cfg subs = Inl e \<longleftrightarrow> validate subs = Inl e"
    using CompileAdaptive_error [OF assms, of subs e] by (auto simp: adaptive_Compiler_def split_beta Let_def split: sum.splits)
next
  fix subs m s dst
  let ?now = "clock_now (sr_clock w)"
  assume m: "adaptive_Compiler w cfg subs = Inr m"
  then obtain a where a: "CompileAdaptive (sr_floats w) subs cfg = Inr a" by (auto simp: adaptive_Compiler_def split: sum.splits)
  obtain a' k where after: "adaptive_after (sr_floats w) ?now a (sr_calls w subs) 0 = (a', k)" by fastforce
  have m': "m = \<lparr>mv_Match = (\<lambda>s dst. fst (adaptive_Match (sr_floats w) ?now a' s dst k)), mv_Len = adaptive_Len a'\<rparr>"
    using m a after by (simp add: adaptive_Compiler_def Let_def)
  show "mv_Len m = length subs"
    using adaptive_Len [OF assms(1) a] m' adaptive_after_matchers [of "sr_floats w" ?now a "sr_calls w subs" 0] after
    by (simp add: adaptive_Len_def)
  assume "subs_wf subs"
  from CompileAdaptive_ok [OF a package_honours [OF assms(1) this]]
  have "adaptive_ok subs a'" using adaptive_after_ok [of subs a "sr_floats w" ?now "sr_calls w subs" 0] after by simp
  then show "mv_Match m s dst = dst @ matching subs s"
    using adaptive_Match_ok [of subs a' "sr_floats w" ?now s dst k] m'
    by (cases "adaptive_Match (sr_floats w) ?now a' s dst k") simp
qed

lemma adaptive_config_of_package:
  assumes "adaptive_config_of w a = Inr cfg"
  shows "package_candidates cfg"
  using assms by (auto simp: adaptive_config_of_def Let_def package_candidates_def dest!: candidates_package)

lemma matcherCompiler_live:
  assumes "matcherCompiler w f = Inr compile"
  shows "live_table compile"
proof (cases "FilterMode f = ''adaptive''")
  case True
  then obtain cfg a where "adaptive_config_of w (fl_Adaptive (cf_Filter f)) = Inr cfg" "CompileAdaptive (sr_floats w) [] cfg = Inr a"
    "compile = adaptive_Compiler w cfg"
    using assms by (auto simp: matcherCompiler_def wrap_error_Inr)
  then show ?thesis using adaptive_live adaptive_config_of_package CompileAdaptive_Inr by blast
next
  case False
  then show ?thesis using assms live_tables by (auto simp: matcherCompiler_def split: if_splits option.splits)
qed

section \<open>Facts: the parts of a pipeline\<close>

lemma setInt_same [simp]: "setInt (setInt x v) v = setInt x v" "setDuration (setDuration x v) v = setDuration x v"
  "setString (setString s u) u = setString s u"
  by (simp_all add: setInt_def setDuration_def setString_def split: option.splits)

lemma pipeline_table_ok:
  assumes "pipeline_table w f c compile = Inr t" "live_table compile"
  shows "snapshot_ok t \<and> tb_newMatcher t = compile \<and> set (tb_destinations t) = set (map cd_Name (cf_Destinations f))"
proof -
  let ?new = "NewSubscriptionTableWith (map cd_Name (cf_Destinations f)) compile"
  have "\<exists>spec r. (table_Load spec r ?new :: unit table_error option \<times> _) = (None, t)"
    using assms(1) by (auto simp: pipeline_table_def Let_def split: if_splits option.splits sum.splits prod.splits)
  then obtain spec r where load: "(table_Load spec r ?new :: unit table_error option \<times> _) = (None, t)" by blast
  have "snapshot_ok ?new" by (rule live_table.new_ok [OF assms(2)])
  then have "snapshot_ok (snd (table_Load spec r ?new :: unit table_error option \<times> _))" by (rule Load_ok)
  then have "snapshot_ok t" using load by simp
  moreover have "tb_newMatcher t = tb_newMatcher ?new \<and> tb_destinations t = tb_destinations ?new"
    using load by (auto simp: table_Load_def split: sum.splits)
  ultimately show ?thesis by (simp add: NewSubscriptionTableWith_def)
qed

lemma Load_snapshot:
  assumes "(table_Load spec r t0 :: unit table_error option \<times> _) = (None, t)"
  shows "table_Snapshot t = (spec, r)"
proof (cases "compile_table t0 spec r :: unit table_error + snapshot")
  case (Inr sn)
  then show ?thesis using assms by (auto simp: table_Load_def table_Snapshot_def dest!: compile_table_Inr [THEN iffD1])
qed (use assms in \<open>simp add: table_Load_def\<close>)

lemma pipeline_table_begins:
  assumes "pipeline_table w f c compile = Inr t"
  shows "if SubscriptionSource f = ''api''
    then \<exists>path state. so_StateFile (cf_Store f) = Some path \<and> LoadState (sr_unmarshal w) (sr_state w path) = Inr state \<and>
      table_Snapshot t = (sts_Subscriptions state, sts_Revision state)
    else table_Snapshot t = (cf_Subscriptions f, 1)"
  using assms
  by (auto simp: pipeline_table_def Let_def split: if_splits option.splits sum.splits prod.splits dest: Load_snapshot)

lemma matcherCompiler_selects:
  assumes "matcherCompiler w f = Inr compile"
  shows "FilterMode f = ''single'' \<and> compilers (FilterMatcher f) = Some compile \<or>
    FilterMode f = ''adaptive'' \<and> (\<exists>cfg. adaptive_config_of w (fl_Adaptive (cf_Filter f)) = Inr cfg \<and> compile = adaptive_Compiler w cfg)"
  using assms by (auto simp: matcherCompiler_def wrap_error_Inr split: if_splits option.splits)

lemma new_lanes_names:
  assumes "fold_res (\<lambda>dest lanes.
       if \<not> destinationName (de_Name dest) then Inl ErrConfig
       else if \<not> de_HasReporter dest then Inl ErrConfig
       else if list_ex (\<lambda>l. ln_name l = de_Name dest) lanes then Inl ErrConfig
       else Inr (lanes @ [newLane inst (de_Name dest)])) dests lanes0 = Inr lanes"
    and "distinct (map ln_name lanes0)"
  shows "map ln_name lanes = map ln_name lanes0 @ map de_Name dests \<and>
    distinct (map ln_name lanes0 @ map de_Name dests) \<and> list_all (destinationName \<circ> de_Name) dests"
  using assms
proof (induction dests arbitrary: lanes0)
  case (Cons d dests)
  let ?lanes = "lanes0 @ [newLane inst (de_Name d)]"
  have "de_Name d \<notin> ln_name ` set lanes0" using Cons.prems(1) by (auto simp: list_ex_iff image_iff split: if_splits)
  then have "map ln_name ?lanes = map ln_name lanes0 @ [de_Name d]" "distinct (map ln_name ?lanes)"
    using Cons.prems(2) by (simp_all add: newLane_def)
  moreover from this(2) have "map ln_name lanes = map ln_name ?lanes @ map de_Name dests \<and>
      distinct (map ln_name ?lanes @ map de_Name dests) \<and> list_all (destinationName \<circ> de_Name) dests"
    by (rule Cons.IH [rotated]) (use Cons.prems(1) in \<open>simp split: if_splits\<close>)
  moreover have "destinationName (de_Name d)" using Cons.prems(1) by (simp split: if_splits)
  ultimately show ?case by (auto simp: comp_def)
qed simp

lemma NewDispatcher_names:
  assumes "NewDispatcher c dests random = Inr d"
  shows "Destinations d = map de_Name dests \<and> distinct (Destinations d) \<and> list_all destinationName (Destinations d) \<and>
    d_config d = c \<and> report_Validate c = Inr ()"
proof -
  have "Destinations d = map de_Name dests \<and> distinct (Destinations d) \<and> list_all (destinationName \<circ> de_Name) dests \<and>
      d_config d = c \<and> report_Validate c = Inr ()"
    using assms new_lanes_names [of "NewInstanceID random" dests "[]"]
    by (auto simp: NewDispatcher_def Let_def Destinations_def)
  then show ?thesis by (auto simp: list.pred_map)
qed

lemma build_headers_valid:
  assumes "fold_res (build_header w i) hs headers = Inr headers'"
    and "list_all (\<lambda>(_, s). validHeaderValue (Reveal s)) headers"
  shows "list_all (\<lambda>(_, s). validHeaderValue (Reveal s)) headers'"
  using assms
proof (induction hs arbitrary: headers)
  case (Cons h hs)
  obtain name source where h: "h = (name, source)" by (cases h)
  obtain headers1 where st: "build_header w i (name, source) headers = Inr headers1"
    "fold_res (build_header w i) hs headers1 = Inr headers'"
    using Cons.prems(1) by (auto simp: h)
  from st(1) obtain s where "headers1 = AList.update (CanonicalHeaderKey name) s headers" "validHeaderValue (Reveal s)"
    by (auto simp: build_header_def split: if_splits sum.splits)
  moreover have "set (AList.update k v xs) \<subseteq> insert (k, v) (set xs)" for k v and xs :: "(string \<times> secret) list"
    by (induction xs) auto
  ultimately have "list_all (\<lambda>(_, s). validHeaderValue (Reveal s)) headers1"
    using Cons.prems(2) by (fastforce simp: list_all_iff)
  then show ?case using Cons.IH st(2) by blast
qed simp

definition header_values_ok :: "reporter \<Rightarrow> bool" where
  "header_values_ok r \<longleftrightarrow> list_all (\<lambda>(_, s). validHeaderValue (Reveal s)) (hr_Headers r)"

lemma build_destination_ok:
  assumes "build_destination w (i, d) = Inr x"
  shows "de_Name (fst x) = cd_Name d \<and> header_values_ok (snd x)"
  using assms build_headers_valid [of w i "cd_Headers d" "[]"]
  by (cases "NewReporter (map_option fst (sr_parse w (cd_URL d)))")
    (auto simp: build_destination_def header_values_ok_def split: if_splits)

lemma buildDestinations_ok:
  assumes "map_res (build_destination w) (enumerate k ds) = Inr built"
  shows "map de_Name (map fst built) = map cd_Name ds \<and> list_all header_values_ok (map snd built)"
  using assms
proof (induction ds arbitrary: k built)
  case (Cons d ds)
  from Cons.prems obtain x xs where x: "build_destination w (k, d) = Inr x" "built = x # xs"
    "map_res (build_destination w) (enumerate (Suc k) ds) = Inr xs" by auto
  from build_destination_ok [OF x(1)] Cons.IH [OF x(3)] x(2) show ?case by simp
qed simp

definition delivery_ok :: "'f config_file \<Rightarrow> dispatcher option \<Rightarrow> reporter list \<Rightarrow> bool" where
  "delivery_ok f delivery reporters \<longleftrightarrow>
     (case delivery of
        None \<Rightarrow> cf_Destinations f = []
      | Some d \<Rightarrow> Destinations d = map cd_Name (cf_Destinations f) \<and> distinct (Destinations d) \<and>
          list_all destinationName (Destinations d) \<and> d_config d = ReportConfig f \<and> report_Validate (ReportConfig f) = Inr ()) \<and>
     length reporters = length (cf_Destinations f) \<and> list_all header_values_ok reporters"

lemma pipeline_delivery_ok:
  assumes "pipeline_delivery w f = Inr (delivery, reporters)"
  shows "delivery_ok f delivery reporters"
proof (cases "cf_Destinations f = []")
  case False
  with assms obtain built d where b: "map_res (build_destination w) (enumerate 0 (cf_Destinations f)) = Inr built"
    "NewDispatcher (ReportConfig f) (map fst built) (sr_dispatcher w) = Inr d" "delivery = Some d" "reporters = map snd built"
    by (auto simp: pipeline_delivery_def buildDestinations_def wrap_error_Inr)
  have "length built = length (cf_Destinations f)" using map_res_length [OF b(1)] by simp
  with buildDestinations_ok [OF b(1)] NewDispatcher_names [OF b(2)] b(3,4) show ?thesis by (auto simp: delivery_ok_def)
qed (use assms in \<open>simp add: pipeline_delivery_def delivery_ok_def\<close>)

text \<open>A file that loads selects a matcher that exists.\<close>

lemma known_candidates:
  assumes "set cs \<subseteq> {''index'', ''linear''}"
  shows "is_ok (map_res (\<lambda>(i, name). case compilers name of None \<Rightarrow> Inl (h i)
      | Some compile \<Rightarrow> Inr \<lparr>cand_Name = name, cand_Compile = Some compile\<rparr>) (enumerate k cs))"
  using assms
proof (induction cs arbitrary: k)
  case (Cons name cs)
  then obtain compile where "compilers name = Some compile" by (auto simp: compilers_def)
  with Cons show ?case by (auto simp: is_ok_iff)
qed simp

lemma adaptive_config_of_wf:
  assumes "file_wf f" "FilterMode f = ''adaptive''"
  shows "is_ok (adaptive_config_of w (fl_Adaptive (cf_Filter f)))"
proof -
  let ?names = "case fa_Candidates (fl_Adaptive (cf_Filter f)) of None \<Rightarrow> [''index'', ''linear''] | Some cs \<Rightarrow> cs"
  have "set ?names \<subseteq> {''index'', ''linear''}" using assms by (auto simp: file_wf_def split: option.split)
  from known_candidates [OF this] show ?thesis by (auto simp: adaptive_config_of_def Let_def is_ok_iff)
qed

lemma matcherCompiler_wf:
  assumes "file_wf f" "matcherCompiler w f = Inl e"
  shows "e = FilterField ''filter.adaptive''"
proof (cases "FilterMode f = ''adaptive''")
  case True
  obtain cfg where "adaptive_config_of w (fl_Adaptive (cf_Filter f)) = Inr cfg"
    using adaptive_config_of_wf [OF assms(1) True, of w] by (auto simp: is_ok_iff)
  then show ?thesis using assms(2) True by (cases "CompileAdaptive (sr_floats w) [] cfg") (auto simp: matcherCompiler_def)
next
  case False
  then have "FilterMode f = ''single''" "FilterMatcher f \<in> {''index'', ''linear''}" using assms(1) by (auto simp: file_wf_def)
  then show ?thesis using assms(2) by (auto simp: matcherCompiler_def compilers_def split: option.splits if_splits)
qed

lemma pipeline_table_error:
  assumes "pipeline_table w f c compile = Inl e" "file_wf f"
  shows "e = ControlRequired \<or> (\<exists>x. e = StateRefused x) \<or> (\<exists>x. e = TableRefused x)"
  using assms
  by (auto simp: pipeline_table_def Let_def file_wf_def split: if_splits option.splits sum.splits prod.splits)

text \<open>Once its parts are built, a pipeline is.\<close>

lemma pipeline_processor:
  assumes "delivery_ok f delivery reporters" "set (tb_destinations t) = set (map cd_Name (cf_Destinations f))"
  obtains p where "NewMatchingProcessor (case delivery of None \<Rightarrow> [] | Some d \<Rightarrow> [DeliverTo (Some d) random]) t = Inr p"
    "pr_delivery p = delivery"
proof (cases delivery)
  case (Some d)
  then have "set (tb_destinations t) \<subseteq> set (Destinations d)" using assms by (simp add: delivery_ok_def)
  then show thesis using that Some DeliverTo_Inr [of "Some d" random t] by auto
qed (use that in \<open>simp add: NewMatchingProcessor_def\<close>)

definition assembly_ok :: "'f config_file \<Rightarrow> app_config \<Rightarrow> assembly \<Rightarrow> bool" where
  "assembly_ok f c a \<longleftrightarrow>
     delivery_ok f (as_Delivery a) (as_Reporters a) \<and>
     snapshot_ok (as_Subscriptions a) \<and> set (tb_destinations (as_Subscriptions a)) = set (map cd_Name (cf_Destinations f)) \<and>
     list_all (\<lambda>s. set (cs_Destinations s) \<subseteq> set (map cd_Name (cf_Destinations f))) (sn_spec (tb_current (as_Subscriptions a))) \<and>
     as_Source a = SubscriptionSource f \<and> (as_Source a = ''api'' \<longrightarrow> Enabled (ap_Control c)) \<and>
     (as_Control a \<noteq> None \<longleftrightarrow> Enabled (ap_Control c)) \<and>
     map_option pr_delivery (cn_processor (as_Consumer a)) = Some (as_Delivery a)"

lemma Pipeline_Inr:
  assumes "Pipeline w f c = Inr a"
  obtains compile p where "matcherCompiler w f = Inr compile" "pipeline_table w f c compile = Inr (as_Subscriptions a)"
    "pipeline_delivery w f = Inr (as_Delivery a, as_Reporters a)" "pipeline_control w f c = Inr (as_Control a)"
    "as_Consumer a = NewTranslatingConsumer (Some (NewTranslator [WithDefaultFormat FormatGS1])) (Some p)"
    "NewMatchingProcessor (case as_Delivery a of None \<Rightarrow> [] | Some d \<Rightarrow> [DeliverTo (Some d) (sr_processor w)]) (as_Subscriptions a) = Inr p"
    "as_Source a = SubscriptionSource f"
  using assms by (auto simp: Pipeline_def wrap_error_Inr split: prod.splits)

lemma Pipeline_ok:
  assumes "Pipeline w f c = Inr a"
  shows "assembly_ok f c a"
proof -
  from Pipeline_Inr [OF assms] obtain compile p where parts: "matcherCompiler w f = Inr compile"
    "pipeline_table w f c compile = Inr (as_Subscriptions a)" "pipeline_delivery w f = Inr (as_Delivery a, as_Reporters a)"
    "pipeline_control w f c = Inr (as_Control a)"
    "as_Consumer a = NewTranslatingConsumer (Some (NewTranslator [WithDefaultFormat FormatGS1])) (Some p)"
    "NewMatchingProcessor (case as_Delivery a of None \<Rightarrow> [] | Some d \<Rightarrow> [DeliverTo (Some d) (sr_processor w)]) (as_Subscriptions a) = Inr p"
    "as_Source a = SubscriptionSource f" by metis
  note t = pipeline_table_ok [OF parts(2) matcherCompiler_live [OF parts(1)]]
  note d = pipeline_delivery_ok [OF parts(3)]
  obtain p' where p': "NewMatchingProcessor (case as_Delivery a of None \<Rightarrow> [] | Some d \<Rightarrow> [DeliverTo (Some d) (sr_processor w)])
      (as_Subscriptions a) = Inr p'" "pr_delivery p' = as_Delivery a"
    using pipeline_processor [OF d, of "as_Subscriptions a" "sr_processor w"] t by metis
  have "as_Source a = ''api'' \<longrightarrow> Enabled (ap_Control c)" using parts(2,7) by (auto simp: pipeline_table_def Let_def split: if_splits)
  moreover have "as_Control a \<noteq> None \<longleftrightarrow> Enabled (ap_Control c)"
    using parts(4) by (cases "as_Control a") (auto simp: pipeline_control_def split: if_splits)
  moreover have "list_all (spec_ok (tb_destinations (as_Subscriptions a))) (sn_spec (tb_current (as_Subscriptions a)))"
    using t by (simp add: snapshot_ok_iff Let_def)
  then have "list_all (\<lambda>s. set (cs_Destinations s) \<subseteq> set (map cd_Name (cf_Destinations f))) (sn_spec (tb_current (as_Subscriptions a)))"
    using t by (auto simp: list_all_iff spec_ok_def)
  ultimately show ?thesis using t d p' parts(5-7) by (simp add: assembly_ok_def NewTranslatingConsumer_def)
qed

lemma Pipeline_error:
  assumes "Pipeline w f c = Inl e" "file_wf f"
  shows "e \<noteq> NilStateFile \<and> (\<forall>x. e \<noteq> DeliveryRefused x) \<and> (\<forall>x. e = FilterField x \<longrightarrow> x = ''filter.adaptive'')"
proof -
  let ?fine = "\<lambda>e. e \<noteq> NilStateFile \<and> (\<forall>x. e \<noteq> DeliveryRefused x) \<and> (\<forall>x. e = FilterField x \<longrightarrow> x = ''filter.adaptive'')"
  have header: "?fine e" if "build_header w i h headers = Inl e" for e i h headers
    using that by (auto simp: build_header_def split: prod.splits if_splits sum.splits)
  have headers: "?fine e" if "fold_res (build_header w i) hs headers = Inl e" for e i hs headers
    using that by (induction hs arbitrary: headers) (auto simp: bind_res_eq_Inl dest: header)
  have destination: "?fine e" if "build_destination w d = Inl e" for e d
    using that by (auto simp: build_destination_def bind_res_eq_Inl wrapped_error split: prod.splits if_splits dest: headers)
  have delivery: "?fine e" if "pipeline_delivery w f = Inl e" for e
    using that
    by (auto simp: pipeline_delivery_def buildDestinations_def bind_res_eq_Inl wrapped_error split: if_splits
        dest!: map_res_Inl_elem dest: destination)
  have control: "?fine e" if "pipeline_control w f c = Inl e" for e
    using that by (auto simp: pipeline_control_def bind_res_eq_Inl split: if_splits option.splits sum.splits)
  consider (matcher) "matcherCompiler w f = Inl e"
    | (table) compile where "matcherCompiler w f = Inr compile" "pipeline_table w f c compile = Inl e"
    | (delivery) "pipeline_delivery w f = Inl e" | (control) "pipeline_control w f c = Inl e"
    | (processor) compile t dl rs x where "matcherCompiler w f = Inr compile" "pipeline_table w f c compile = Inr t"
        "pipeline_delivery w f = Inr (dl, rs)"
        "NewMatchingProcessor (case dl of None \<Rightarrow> [] | Some d \<Rightarrow> [DeliverTo (Some d) (sr_processor w)]) t = Inl x"
    using assms(1) by (auto simp: Pipeline_def bind_res_eq_Inl wrapped_error split: prod.splits)
  then show ?thesis
  proof cases
    case matcher
    then show ?thesis using matcherCompiler_wf [OF assms(2)] by auto
  next
    case table
    then show ?thesis using pipeline_table_error [OF _ assms(2)] by blast
  next
    case processor
    then have "set (tb_destinations t) = set (map cd_Name (cf_Destinations f))"
      using pipeline_table_ok matcherCompiler_live by blast
    from pipeline_processor [OF pipeline_delivery_ok [OF processor(3)] this, of "sr_processor w"] processor(4)
    show ?thesis by auto
  qed (use delivery control in blast)+
qed

section \<open>Properties\<close>

text \<open>
  C9. A pipeline that is built is well formed, and a file that loads cannot fail for want of a part:
  the dispatcher has exactly one lane for every destination of the file, in order and under distinct
  valid names, with bounds that were validated; no header value can end its line; the table holds
  the snapshot its specification compiles to and routes only to lanes that exist; the processor
  enqueues to the dispatcher that is started and closed; there are control settings exactly when a
  listener is configured, and there is one whenever subscriptions are managed through it.
\<close>

theorem pipeline_is_well_formed:
  assumes "file_wf f"
  shows "case Pipeline w f c of
      Inl e \<Rightarrow> e \<noteq> NilStateFile \<and> (\<forall>x. e \<noteq> DeliveryRefused x) \<and> (\<forall>x. e = FilterField x \<longrightarrow> x = ''filter.adaptive'')
    | Inr a \<Rightarrow> assembly_ok f c a"
proof (cases "Pipeline w f c")
  case (Inl e)
  then show ?thesis using Pipeline_error [OF Inl assms] by auto
next
  case (Inr a)
  then show ?thesis using Pipeline_ok [OF Inr] by simp
qed

text \<open>
  C3. One table, whatever is configured: it starts with the subscriptions of the file under revision 1, or,
  where they are managed through the API, with those of the state file and its revision; and it
  compiles them with the matcher the file selects. After any loads and replacements, and after any
  calls an adaptive matcher has answered, whatever its clock read and however it switched, a tag that
  translates is reported to exactly the published subscriptions one of whose patterns it meets by
  the reference rule, in their order, and each of them is routed as its own specification says, to
  destinations of the file.
\<close>

theorem configured_table_matches:
  "case (Pipeline w f c, Translate tr inp) of
     (Inr a, Inr x) \<Rightarrow>
       (if SubscriptionSource f = ''api''
        then \<exists>path state. so_StateFile (cf_Store f) = Some path \<and> LoadState (sr_unmarshal w) (sr_state w path) = Inr state \<and>
          table_Snapshot (as_Subscriptions a) = (sts_Subscriptions state, sts_Revision state)
        else table_Snapshot (as_Subscriptions a) = (cf_Subscriptions f, 1)) \<and>
       (let t = fst (table_run ops (as_Subscriptions a, v)); sn = tb_current t in
        (FilterMode f = ''single'' \<and> compilers (FilterMatcher f) = Some (tb_newMatcher t) \<or>
         FilterMode f = ''adaptive'' \<and> (\<exists>cfg. adaptive_config_of w (fl_Adaptive (cf_Filter f)) = Inr cfg \<and>
           tb_newMatcher t = adaptive_Compiler w cfg)) \<and>
        (case sn_matcher sn of
           None \<Rightarrow> False
         | Some m \<Rightarrow> mv_Match m (SubjectOf x) [] = map cs_ID (filter (meets x) (sn_spec sn))) \<and>
        list_all (\<lambda>s. sn_routes sn (cs_ID s) = (if cs_Destinations s = [] then None else Some (cs_Destinations s)) \<and>
          set (cs_Destinations s) \<subseteq> set (map cd_Name (cf_Destinations f))) (sn_spec sn))
   | _ \<Rightarrow> True"
proof (cases "Pipeline w f c")
  case (Inr a)
  note pipeline = Inr
  from Pipeline_Inr [OF Inr] obtain compile where parts: "matcherCompiler w f = Inr compile"
    "pipeline_table w f c compile = Inr (as_Subscriptions a)" by metis
  note live = matcherCompiler_live [OF parts(1)]
  note new = pipeline_table_ok [OF parts(2) live]
  note begun = pipeline_table_begins [OF parts(2)]
  show ?thesis
  proof (cases "Translate tr inp")
    case (Inr x)
    define tab where "tab = fst (table_run ops (as_Subscriptions a, v))"
    have ok: "snapshot_ok tab" "tb_newMatcher tab = compile" "set (tb_destinations tab) = set (map cd_Name (cf_Destinations f))"
      using table_run_ok [of "(as_Subscriptions a, v)" ops] new by (simp_all add: tab_def)
    note selected = matcherCompiler_selects [OF parts(1)]
    obtain m where "sn_matcher (tb_current tab) = Some m"
      "mv_Match m (SubjectOf x) [] = map cs_ID (subscribed (sn_spec (tb_current tab)) x)"
      "distinct (map cs_ID (sn_spec (tb_current tab)))" "sn_routes (tb_current tab) = routes_of (sn_spec (tb_current tab))"
      "list_all (spec_ok (tb_destinations tab)) (sn_spec (tb_current tab))"
      by (rule live_table.snapshot_matches [OF live ok(1,2) Inr])
    then have "case sn_matcher (tb_current tab) of
           None \<Rightarrow> False
         | Some m \<Rightarrow> mv_Match m (SubjectOf x) [] = map cs_ID (filter (meets x) (sn_spec (tb_current tab)))"
      and "list_all (\<lambda>s. sn_routes (tb_current tab) (cs_ID s) = (if cs_Destinations s = [] then None else Some (cs_Destinations s)) \<and>
          set (cs_Destinations s) \<subseteq> set (map cd_Name (cf_Destinations f))) (sn_spec (tb_current tab))"
      using ok(3) by (simp_all add: subscribed_def) (auto simp: list_all_iff routes_of_elem spec_ok_def)
    then show ?thesis using begun selected
      by (simp only: pipeline Inr prod.case sum.case Let_def ok(2) simp_thms flip: tab_def)
  qed (simp add: pipeline)
qed simp

text \<open>
  C39. Reloading: a reload replaces the subscriptions by those of a file that loads, lists them itself and
  compiles, under the next revision; whatever else happens, the table stays as it was. Either way
  the audit record names the revision before and the one that is published afterwards.
\<close>

theorem reload_replaces_or_keeps:
  "case ReloadFile loaded t of (err, au, t') \<Rightarrow>
     au_Before au = Some (Revision t) \<and> au_After au = Some (Revision t') \<and>
     (case err of
        Some _ \<Rightarrow> t' = t \<and> au_Outcome au = ''rejected'' \<and> au_Code au \<noteq> []
      | None \<Rightarrow> au_Outcome au = ''ok'' \<and> (\<exists>f. loaded = Inr f \<and> SubscriptionSource f = ''file'' \<and>
          table_Snapshot t' = (cf_Subscriptions f, Revision t + 1) \<and> au_Count au = Some (length (cf_Subscriptions f)) \<and>
          list_all (spec_ok (tb_destinations t)) (cf_Subscriptions f)))"
proof (cases loaded)
  case (Inr f)
  then show ?thesis
    by (cases "compile_table t (cf_Subscriptions f) (Revision t + 1) :: unit table_error + snapshot")
      (auto simp: ReloadFile_def reload_audit_def Let_def table_Replace_def publish_def table_Snapshot_def Revision_def
        dest!: compile_table_Inr [THEN iffD1])
qed (simp add: ReloadFile_def reload_audit_def Let_def)

section \<open>Witnesses\<close>

definition example_file :: "int config_file" where
  "example_file =
     \<lparr>cf_Version = 1, cf_Reader = \<lparr>rd_Address = None, rd_Source = None, rd_ConnectTimeout = None, rd_HandshakeTimeout = None,
        rd_ReadTimeout = None, rd_WriteTimeout = None, rd_RetryMin = None, rd_RetryMax = None, rd_MaxRetries = None,
        rd_MaxFrameBytes = None, rd_MaxParameterBytes = None, rd_MaxParameters = None\<rparr>, cf_Telemetry = None,
      cf_Runtime = \<lparr>rt_QueueCapacity = None, rt_ConsumeTimeout = None, rt_ShutdownTimeout = None\<rparr>,
      cf_Report = \<lparr>rp_QueueCapacity = None, rp_BatchEvents = None, rp_BatchBytes = None, rp_FlushInterval = None,
        rp_RequestTimeout = None, rp_MaxAttempts = None, rp_BackoffBase = None, rp_BackoffMax = None, rp_RetryBudget = None\<rparr>,
      cf_Control = \<lparr>co_Socket = None, co_Address = None, co_Token = None\<rparr>, cf_Store = \<lparr>so_Source = None, so_StateFile = None\<rparr>,
      cf_Filter = \<lparr>fl_Mode = None, fl_Matcher = None, fl_Adaptive = \<lparr>fa_Candidates = None, fa_SampleEvery = None,
        fa_Warmup = None, fa_Window = None, fa_Hysteresis = None, fa_Cooldown = None, fa_OverheadBudget = None, fa_Shadow = None,
        fa_Experimental = None\<rparr>\<rparr>,
      cf_Destinations = [\<lparr>cd_Name = ''erp'', cd_URL = ''https://erp'', cd_Headers =
        [(''x-key'', \<lparr>ss_Env = ''KEY'', ss_File = [], ss_Prefix = ''Bearer '', ss_Value = None\<rparr>)]\<rparr>],
      cf_Subscriptions = witness_spec\<rparr>"

definition example_surroundings :: "(int, subscription_state) surroundings" where
  "example_surroundings =
     \<lparr>sr_goos = ''linux'', sr_lookup = (\<lambda>name. if name = ''KEY'' then Some ''secret'' else None),
      sr_files = (\<lambda>_. \<lparr>sf_Stat = None, sf_Opens = False, sf_Handle = None, sf_Body = ([], False)\<rparr>),
      sr_parse = (\<lambda>s. if s = ''https://erp'' then Some (\<lparr>url_Scheme = ''https'', url_Host = ''erp'', url_Fragment = []\<rparr>, False) else None),
      sr_state = (\<lambda>_. NotThere), sr_unmarshal = read_one, sr_floats = int_floats, sr_hysteresis = 0, sr_budget = 1,
      sr_clock = int, sr_calls = (\<lambda>_. []),
      sr_dispatcher = [1], sr_processor = [2]\<rparr>"

lemma example_pipeline: "is_ok (Pipeline example_surroundings example_file app_DefaultConfig)"
  by code_simp

lemma example_file_wf: "file_wf example_file"
  unfolding file_validate_Inr [symmetric]
  by (simp add: file_validate_def example_file_def destination_validate_def source_validate_def validateSubscriptions_def
      witness_spec_def store_validate_def SubscriptionSource_def filter_validate_def FilterMode_def FilterMatcher_def
      adaptive_set_def Version_def Let_def)

lemma pipeline_is_well_formed_witness:
  "\<exists>a d. Pipeline example_surroundings example_file app_DefaultConfig = Inr a \<and> as_Delivery a = Some d \<and>
     Destinations d = [''erp''] \<and> map cs_ID (sn_spec (tb_current (as_Subscriptions a))) \<noteq> [] \<and> assembly_ok example_file app_DefaultConfig a"
proof -
  obtain a where a: "Pipeline example_surroundings example_file app_DefaultConfig = Inr a"
    using example_pipeline by (auto simp: is_ok_iff)
  from pipeline_is_well_formed [OF example_file_wf, where w = example_surroundings and c = app_DefaultConfig] a
  have ok: "assembly_ok example_file app_DefaultConfig a" by simp
  then obtain d where "as_Delivery a = Some d" "Destinations d = [''erp'']"
    by (auto simp: assembly_ok_def delivery_ok_def example_file_def split: option.splits)
  moreover obtain compile where "pipeline_table example_surroundings example_file app_DefaultConfig compile = Inr (as_Subscriptions a)"
    using Pipeline_Inr [OF a] by metis
  then have "\<exists>t0. (table_Load witness_spec 1 t0 :: unit table_error option \<times> _) = (None, as_Subscriptions a)"
    by (auto simp: pipeline_table_def Let_def SubscriptionSource_def example_file_def split: prod.splits option.splits)
  then have "sn_spec (tb_current (as_Subscriptions a)) = witness_spec" using Load_snapshot by (metis fst_conv table_Snapshot_def)
  ultimately show ?thesis using a ok by (auto simp: witness_spec_def)
qed

text \<open>An adaptive pipeline can be built as well.\<close>

definition adaptive_file :: "int config_file" where
  "adaptive_file = example_file\<lparr>cf_Filter := (cf_Filter example_file)\<lparr>fl_Mode := Some ''adaptive''\<rparr>\<rparr>"

lemma adaptive_pipeline: "is_ok (Pipeline example_surroundings adaptive_file app_DefaultConfig)"
  by code_simp

end
