(* ===== verification/Dispatcher_Props.thy ===== *)
theory Dispatcher_Props
  imports Dispatcher_Inv
begin

text \<open>
  What the report dispatcher promises: no accepted event is lost silently or out of order, a
  batch and its retries stay within their bounds, and \<open>Close\<close> comes to an end with every event
  accounted for.
\<close>

section \<open>Facts: a bound on what a worker still has to do\<close>

definition delivery_cost :: "report_config \<Rightarrow> nat" where
  "delivery_cost c = 2 * nat (MaxAttempts c)"

definition kont_cost :: "report_config \<Rightarrow> kont \<Rightarrow> nat" where
  "kont_cost c k = (case k of Append _ _ \<Rightarrow> delivery_cost c | _ \<Rightarrow> 0)"

definition phase_cost :: "report_config \<Rightarrow> lane \<Rightarrow> nat" where
  "phase_cost c l =
     (case ln_phase l of
        Unstarted \<Rightarrow> 0
      | Finished \<Rightarrow> 0
      | Receiving \<Rightarrow> (if ln_hand l = [] then 0 else delivery_cost c) + 1
      | Attempting attempt _ k \<Rightarrow> 2 * nat (MaxAttempts c - attempt) + 2 + kont_cost c k
      | Sleeping attempt _ _ k \<Rightarrow> 2 * nat (MaxAttempts c - attempt) + 1 + kont_cost c k)"

definition lane_bound :: "report_config \<Rightarrow> lane \<Rightarrow> nat" where
  "lane_bound c l = length (ln_queue l) * (delivery_cost c + 1) + phase_cost c l"

definition drain_bound :: "dispatcher \<Rightarrow> nat" where
  "drain_bound d = sum_list (map (lane_bound (d_config d)) (d_lanes d))"

lemmas bound_defs = lane_bound_def phase_cost_def kont_cost_def delivery_cost_def

lemma lane_bound_at:
  "ln_phase l = Receiving \<Longrightarrow>
     lane_bound c l = length (ln_queue l) * (delivery_cost c + 1) + (if ln_hand l = [] then 0 else delivery_cost c) + 1"
  "ln_phase l = Attempting attempt b k \<Longrightarrow>
     lane_bound c l = length (ln_queue l) * (delivery_cost c + 1) + 2 * nat (MaxAttempts c - attempt) + 2 + kont_cost c k"
  "ln_phase l = Sleeping attempt wait b k \<Longrightarrow>
     lane_bound c l = length (ln_queue l) * (delivery_cost c + 1) + 2 * nat (MaxAttempts c - attempt) + 1 + kont_cost c k"
  "ln_phase l = Finished \<Longrightarrow> lane_bound c l = length (ln_queue l) * (delivery_cost c + 1)"
  by (simp_all add: lane_bound_def phase_cost_def)

lemma begin_send_bound:
  assumes "1 \<le> MaxAttempts c"
  shows "lane_bound c (snd (begin_send inst k (n, l))) = length (ln_queue l) * (delivery_cost c + 1) + delivery_cost c + kont_cost c k"
proof -
  have "2 * nat (MaxAttempts c - 1) + 2 = 2 * nat (MaxAttempts c)" using assms by linarith
  then show ?thesis by (simp add: begin_send_def Let_def lane_bound_def phase_cost_def delivery_cost_def)
qed

lemma append_event_bound:
  assumes "1 \<le> MaxAttempts c"
  shows "lane_bound c (snd (append_event c inst e body (n, l))) \<le> length (ln_queue l) * (delivery_cost c + 1) + delivery_cost c + 1"
  using begin_send_bound [OF assms, of inst Loop n] assms
  by (simp add: append_event_def Let_def) (simp add: bound_defs)

lemma after_send_bound:
  assumes "1 \<le> MaxAttempts c"
  shows "lane_bound c (snd (after_send c inst k (n, l))) \<le> length (ln_queue l) * (delivery_cost c + 1) + kont_cost c k + 1"
proof (cases k)
  case (Append e body)
  then show ?thesis
    using append_event_bound [OF assms, where l = "l\<lparr>ln_hand := [], ln_size := envelope inst\<rparr>"]
    by (simp add: after_send_def Let_def kont_cost_def)
qed (simp_all add: after_send_def Let_def kont_cost_def lane_bound_at)

lemma lane_bound_decreases:
  assumes c: "1 \<le> MaxAttempts c" and l: "delivery_ok c inst l"
    and s: "worker_step c inst closed aborted a (n, l) = Some (n', l')"
  shows "lane_bound c l' < lane_bound c l"
proof -
  note send = begin_send_bound [OF c, of inst]
  from s show ?thesis
  proof (cases rule: worker_stepE)
    case (Receive e rest)
    obtain body where body: "encodeEvent e = Inr body" using encodeEvent_ok by blast
    let ?l = "l\<lparr>ln_queue := rest\<rparr>"
    have before: "lane_bound c l = (length rest + 1) * (delivery_cost c + 1) + (if ln_hand l = [] then 0 else delivery_cost c) + 1"
      using Receive by (simp add: lane_bound_at)
    have l': "l' = snd (receive c inst e rest (n, l))" by (simp flip: Receive(4))
    show ?thesis
      using append_event_bound [OF c, of inst e body n ?l] send [of "Append e body" n ?l] before
      by (simp add: l' receive_def body Let_def kont_cost_def split: if_splits)
  next
    case Drained
    then show ?thesis by (simp add: lane_bound_at)
  next
    case Last
    have l': "l' = snd (begin_send inst Exit (n, l))" by (simp flip: Last(6))
    show ?thesis using Last(2,5) send [of Exit n l] by (simp add: l' lane_bound_at kont_cost_def)
  next
    case Flush
    have l': "l' = snd (begin_send inst Loop (n, l))" by (simp flip: Flush(4))
    show ?thesis using Flush(2,3) send [of Loop n l] by (simp add: l' lane_bound_at kont_cost_def)
  next
    case Abort
    then show ?thesis by (simp add: abandon_def Let_def lane_bound_at)
  next
    case (Returned err elapsed attempt b k)
    have l': "l' = snd (attempt_returned c inst aborted err elapsed attempt b k (n, l))" by (simp flip: Returned(3))
    have after: "lane_bound c (snd (after_send c inst k (n, settle r es l))) < lane_bound c l" for r es
      using after_send_bound [OF c, of inst k n "settle r es l"] Returned(2) by (simp add: lane_bound_at)
    show ?thesis using after Returned(2)
      by (auto simp: l' attempt_returned_def Let_def lane_bound_at split: option.splits)
  next
    case (Slept woke attempt wait b k)
    have l': "l' = snd (sleep_returned c inst woke attempt b k (n, l))" by (simp flip: Slept(4))
    have m: "attempt < MaxAttempts c" using l Slept(2) by (simp add: delivery_ok_def)
    have after: "lane_bound c (snd (after_send c inst k (n, settle r es l))) < lane_bound c l" for r es
      using after_send_bound [OF c, of inst k n "settle r es l"] Slept(2) m by (simp add: lane_bound_at)
    have "nat (MaxAttempts c - attempt) = nat (MaxAttempts c - (attempt + 1)) + 1" using m by linarith
    with after Slept(2) show ?thesis by (auto simp: l' sleep_returned_def lane_bound_at)
  qed
qed

section \<open>Facts: runs of the workers\<close>

lemma worker_moves_bound:
  assumes "worker_moves d d'" "dispatcher_inv d"
  shows "drain_bound d' < drain_bound d"
  using assms
proof (induction rule: worker_moves.induct)
  case (move i d a n l)
  let ?b = "lane_bound (d_config d)"
  have c: "1 \<le> MaxAttempts (d_config d)" and dl: "delivery_ok (d_config d) (d_instance d) (d_lanes d ! i)"
    using move(1,4) by (auto simp: dispatcher_inv_def list_all_length lane_inv_def intro: valid_report_configD(8))
  have less: "?b l < ?b (d_lanes d ! i)" by (rule lane_bound_decreases [OF c dl move(3)])
  have "sum_list (map ?b ((d_lanes d)[i := l])) = sum_list (map ?b (d_lanes d)) + ?b l - ?b (d_lanes d ! i)"
    using move(1) by (simp add: map_update sum_list_update)
  moreover have "?b (d_lanes d ! i) \<le> sum_list (map ?b (d_lanes d))"
    using move(1) by (intro member_le_sum_list) auto
  ultimately show ?case using less by (simp add: drain_bound_def)
qed

lemma worker_moves_flags: "worker_moves d d' \<Longrightarrow> d_closed d' = d_closed d \<and> d_started d' = d_started d \<and> d_config d' = d_config d"
  by (induction rule: worker_moves.induct) simp

lemma worker_enabled:
  assumes "dispatcher_inv d" "d_started d" "d_closed d" "l \<in> set (d_lanes d)" "ln_phase l \<noteq> Finished"
  shows "\<exists>d'. worker_moves d d'"
proof -
  from assms(4) obtain i where i: "i < length (d_lanes d)" "d_lanes d ! i = l" by (auto simp: in_set_conv_nth)
  have started: "ln_phase l \<noteq> Unstarted" using assms by (auto simp: dispatcher_inv_def list_all_iff)
  have "\<exists>a r. clock_ok a \<and>
      worker_step (d_config d) (d_instance d) (d_closed d) (d_aborted d) a (d_batches d, l) = Some r"
  proof (cases "ln_phase l")
    case Receiving
    show ?thesis
    proof (cases "ln_queue l")
      case Nil
      with Receiving assms(3) show ?thesis
        by (intro exI [of _ QueueClosed]) (auto simp: worker_step_def clock_ok_def)
    next
      case (Cons e rest)
      with Receiving show ?thesis by (intro exI [of _ Receive]) (auto simp: worker_step_def clock_ok_def)
    qed
  next
    case (Attempting attempt b k)
    then show ?thesis by (intro exI [of _ "Returned None 0"]) (auto simp: worker_step_def clock_ok_def)
  next
    case (Sleeping attempt wait b k)
    then show ?thesis by (intro exI [of _ "Slept True"]) (auto simp: worker_step_def clock_ok_def)
  qed (use assms(5) started in simp_all)
  then obtain a n l' where "clock_ok a"
    "worker_step (d_config d) (d_instance d) (d_closed d) (d_aborted d) a (d_batches d, l) = Some (n, l')" by auto
  from worker_moves.move [OF i(1) this(1) this(2) [folded i(2)]] show ?thesis by blast
qed

text \<open>A run of n worker steps uses up at least n of the bound.\<close>

lemma run_bound:
  "(worker_moves ^^ n) d d' \<Longrightarrow> dispatcher_inv d \<Longrightarrow>
     n + drain_bound d' \<le> drain_bound d \<and> dispatcher_inv d' \<and> d_closed d' = d_closed d \<and> d_started d' = d_started d"
proof (induction n arbitrary: d')
  case (Suc n)
  then obtain m where "(worker_moves ^^ n) d m" "worker_moves m d'" by auto
  with Suc worker_moves_bound [of m d'] worker_moves_inv [of m d'] worker_moves_flags [of m d'] show ?case by fastforce
qed simp

section \<open>Facts: batch identifiers\<close>

lemma json_escape_append: "list_all ascii s \<Longrightarrow> json_escape (s @ t) = json_escape s @ json_escape t"
  by (induction s) auto

lemma json_escape_digits: "list_all is_digit s \<Longrightarrow> json_escape s = s"
proof (induction s)
  case (Cons c s)
  then have "48 \<le> (of_char c :: nat)" "(of_char c :: nat) \<le> 57" by (auto simp: is_digit_iff)
  moreover from this have "json_char c = [c]" by (auto simp: json_char_def Let_def)
  ultimately show ?case using Cons by (simp add: ascii_def)
qed simp

lemma padded_digits: "0 \<le> n \<Longrightarrow> list_all is_digit (padded w n)"
  by (auto simp: padded_def Let_def itoa_digits list_all_iff is_digit_def) (metis itoa_digits list_all_iff is_digit_def)+

lemma length_padded: "0 \<le> n \<Longrightarrow> n < 10 ^ w \<Longrightarrow> 0 < w \<Longrightarrow> length (padded w n) = w"
proof -
  assume n: "0 \<le> n" "n < 10 ^ w" "0 < w"
  then have "nat n < 10 ^ w" by (metis nat_less_iff of_nat_numeral of_nat_power)
  from length_itoa_le [OF this n(3)] n show ?thesis by (simp add: padded_def Let_def)
qed

lemma length_json_ID:
  assumes "list_all ascii inst" "list_all is_digit ds"
  shows "length (json_string (inst @ CHR '':'' # ds)) = length (json_escape inst) + length ds + 3"
proof -
  have "json_char CHR '':'' = [CHR '':'']" by (simp add: json_char_def Let_def)
  then have "json_escape (CHR '':'' # ds) = CHR '':'' # ds" using json_escape_digits [OF assms(2)] by (simp add: ascii_def)
  then show ?thesis by (simp add: json_string_def json_escape_append [OF assms(1)])
qed

lemma envelope_batchID:
  assumes "list_all ascii inst" "uint n < 10 ^ 10"
  shows "batchEnvelope (batchID inst n) = batchEnvelope (inst @ '':0000000000'')"
proof -
  have "length (padded 10 (uint n)) = 10" using assms(2) by (intro length_padded) simp_all
  moreover have "list_all is_digit ''0000000000''" by (simp add: is_digit_def)
  ultimately have "length (json_string (batchID inst n)) = length (json_string (inst @ '':0000000000''))"
    using length_json_ID [OF assms(1), of "padded 10 (uint n)"] length_json_ID [OF assms(1), of "''0000000000''"]
    by (simp add: batchID_def padded_digits)
  then show ?thesis by (simp add: batchEnvelope_def encodeBatch_def)
qed

lemma dispatcher_step_instance: "dispatcher_step d d' \<Longrightarrow> d_instance d' = d_instance d"
  by (induction rule: dispatcher_step.induct)
    (auto simp: Start_def Enqueue_def close_begin_def close_deadline_def close_finish_def Let_def split: option.splits
      elim: worker_movesE)

lemma reachable_instance: "reachable d \<Longrightarrow> list_all ascii (d_instance d)"
proof (induction rule: reachable.induct)
  case (new c dests random d)
  have "list_all ascii hex_digits" "length hex_digits = 16" by code_simp+
  then have "k < 16 \<Longrightarrow> ascii (hex_digits ! k)" for k by (simp add: list_all_length)
  then have "list_all ascii (hex_of_byte b)" for b
    using hex_nibbles(1,2) [of b] by (simp add: hex_of_byte_def)
  then have "list_all ascii (NewInstanceID random)"
    by (induction random) (simp_all add: NewInstanceID_def hex_EncodeToString_def)
  with new show ?case by (auto simp: NewDispatcher_def Let_def)
qed (simp add: dispatcher_step_instance)

lemma lane_accounts:
  assumes "reachable d" "l \<in> set (d_lanes d)"
  shows "h_accepted l = map fst (h_settled l) @ in_flight l \<and>
    ln_enqueued l = ln_delivered l + ln_failed l + ln_undelivered l + of_nat (length (in_flight l))"
proof -
  have inv: "accounted l" using reachable_lane [OF assms] by (simp add: lane_inv_def)
  have "of_nat (length hs) = of_nat (length (filter (\<lambda>(_, r). r = Delivered) hs)) +
      of_nat (length (filter (\<lambda>(_, r). r = Failed) hs)) +
      (of_nat (length (filter (\<lambda>(_, r). r = Undelivered) hs)) :: u64)" for hs :: "(event \<times> outcome) list"
  proof (induction hs)
    case (Cons h hs)
    then show ?case by (cases "snd h") (auto simp: split_beta)
  qed simp
  from inv this [of "h_settled l"] show ?thesis by (simp add: accounted_def outcomes_def)
qed

section \<open>Properties\<close>

text \<open>
  C17. No event is lost silently or out of order: in every reachable state of the dispatcher, the
  events a destination accepted are exactly those settled, then those in the batch in hand,
  then the one waiting for it, then the queue, in the order they were accepted; the counters
  add up to the number enqueued; the delivered events are in order; the queue is bounded.
\<close>

theorem events_accounted:
  assumes "reachable d" "l \<in> set (d_lanes d)"
  shows "h_accepted l = map fst (h_settled l) @ in_flight l \<and>
    ln_enqueued l = ln_delivered l + ln_failed l + ln_undelivered l + of_nat (length (in_flight l)) \<and>
    subseq (map fst (filter (\<lambda>(_, r). r = Delivered) (h_settled l))) (h_accepted l) \<and>
    int (length (ln_queue l)) \<le> QueueCapacity (d_config d)"
proof -
  have "subseq (map fst (filter (\<lambda>(_, r). r = Delivered) (h_settled l))) (map fst (h_settled l))"
    by (rule subseq_map) (rule subseq_filter_left)
  then have "subseq (map fst (filter (\<lambda>(_, r). r = Delivered) (h_settled l))) (h_accepted l)"
    using lane_accounts [OF assms] by (metis list_emb_prefix)
  with lane_accounts [OF assms] reachable_lane [OF assms] show ?thesis by (simp add: lane_inv_def queue_ok_def)
qed

text \<open>A run that settles an event, for the witnesses: one destination, batches of one event.\<close>

definition one_by_one :: report_config where
  "one_by_one = report_DefaultConfig\<lparr>BatchEvents := 1\<rparr>"

definition example_event :: event where
  "example_event = \<lparr>ev_ID = ''i:1'', ev_Source = ''reader-1'', ObservedAt = 1, Subscriptions = [''s''], ev_Scheme = ''sscc-96'',
     ev_EPC = [0x31, 0x74], ev_Identity = \<lparr>ri_Authority = ''gs1'', ri_KeyType = ''sscc'', ri_Components = []\<rparr>,
     ev_PureIdentityURI = []\<rparr>"

definition example_start :: dispatcher where
  "example_start = \<lparr>d_config = one_by_one, d_instance = ''0001'', d_lanes = [(newLane ''0001'' ''a'')\<lparr>ln_phase := Receiving\<rparr>],
     d_batches = 0, d_started = True, d_closed = False, d_aborted = False\<rparr>"

lemma one_by_one_valid: "valid_report_config one_by_one"
  by (simp add: valid_report_config_def report_Validate_def one_by_one_def report_DefaultConfig_def durations is_int64_def)

definition example_new :: dispatcher where
  "example_new = example_start\<lparr>d_lanes := [newLane ''0001'' ''a''], d_started := False\<rparr>"

lemma example_new_reachable: "reachable example_new"
proof -
  have inst: "NewInstanceID [0x00, 0x01] = ''0001''" by code_simp
  have name: "destinationName ''a''" by code_simp
  have "NewDispatcher one_by_one [\<lparr>de_Name = ''a'', de_HasReporter = True\<rparr>] [0x00, 0x01] = Inr example_new"
    using one_by_one_valid
    by (simp add: NewDispatcher_def inst name valid_report_config_def Let_def example_new_def example_start_def)
  moreover have "is_int64 (BackoffMax one_by_one)" by (rule valid_report_configD [OF one_by_one_valid])
  ultimately show ?thesis by (rule reachable.new)
qed

lemma example_reachable: "reachable example_start"
  using reachable.next_state [OF example_new_reachable dispatcher_step.start]
  by (simp add: Start_def example_new_def example_start_def)

definition example_body :: string where
  "example_body = projr (encodeEvent example_event)"

definition example_batch :: batch where
  "example_batch = \<lparr>b_ID = batchID ''0001'' 1, b_Events = [example_event],
     b_body = encodeBatch (batchID ''0001'' 1) [example_body]\<rparr>"

definition example_with :: "lane \<Rightarrow> u64 \<Rightarrow> dispatcher" where
  "example_with l n = example_start\<lparr>d_lanes := [l], d_batches := n\<rparr>"

definition lane_accepted :: lane where
  "lane_accepted = (newLane ''0001'' ''a'')\<lparr>ln_phase := Receiving, ln_queue := [example_event],
     h_accepted := [example_event], ln_enqueued := 1\<rparr>"

definition lane_attempting :: lane where
  "lane_attempting = lane_accepted\<lparr>ln_queue := [], ln_hand := [(example_event, example_body)],
     ln_size := envelope ''0001'' + int (length example_body) + 1, ln_phase := Attempting 1 example_batch Loop\<rparr>"

definition lane_sleeping :: lane where
  "lane_sleeping = lane_attempting\<lparr>ln_retries := 1, ln_phase := Sleeping 1 (200 * millisecond) example_batch Loop\<rparr>"

definition lane_delivered :: lane where
  "lane_delivered = lane_attempting\<lparr>ln_delivered := 1, h_settled := [(example_event, Delivered)], ln_hand := [],
     ln_size := envelope ''0001'', ln_phase := Receiving\<rparr>"

lemmas example_lanes = lane_accepted_def lane_attempting_def lane_sleeping_def lane_delivered_def newLane_def

lemma one_by_one_fields [simp]:
  "QueueCapacity one_by_one = 10000" "BatchEvents one_by_one = 1" "MaxAttempts one_by_one = 10"
  "BackoffBase one_by_one = 200 * millisecond" "BackoffMax one_by_one = 10 * a_second" "RetryBudget one_by_one = 30 * a_second"
  by (simp_all add: one_by_one_def report_DefaultConfig_def)

lemma example_fields [simp]:
  "d_config (example_with l n) = one_by_one" "d_instance (example_with l n) = ''0001''" "d_lanes (example_with l n) = [l]"
  "d_batches (example_with l n) = n" "d_closed (example_with l n) = False" "d_aborted (example_with l n) = False"
  "d_started (example_with l n)"
  by (simp_all add: example_with_def example_start_def)

lemma example_move:
  assumes "reachable (example_with l n)" "clock_ok a" "worker_step one_by_one ''0001'' False False a (n, l) = Some (n', l')"
  shows "reachable (example_with l' n')"
proof -
  have "worker_moves (example_with l n) (example_with l' n')"
    using worker_moves.move [of 0 "example_with l n" a n' l'] assms(2,3) by (simp add: example_with_def example_start_def)
  from reachable.next_state [OF assms(1) dispatcher_step.worker [OF this]] show ?thesis .
qed

lemma example_run:
  "reachable (example_with lane_accepted 0)" "reachable (example_with lane_attempting 1)"
  "reachable (example_with lane_sleeping 1)" "reachable (example_with lane_delivered 1)"
proof -
  have "snd (Enqueue ''a'' example_event example_start) = example_with lane_accepted 0"
    by (simp add: Enqueue_def enqueue_lane_def example_start_def example_with_def example_lanes)
  with reachable.next_state [OF example_reachable dispatcher_step.enqueue]
  show accepted: "reachable (example_with lane_accepted 0)" by metis
  have body: "encodeEvent example_event = Inr example_body"
    using encodeEvent_ok [of example_event] by (auto simp: example_body_def)
  have "worker_step one_by_one ''0001'' False False Receive (0, lane_accepted) = Some (1, lane_attempting)"
    by (simp add: worker_step_def receive_def append_event_def begin_send_def body example_batch_def example_lanes Let_def)
  from example_move [OF accepted _ this] show attempting: "reachable (example_with lane_attempting 1)" by (simp add: clock_ok_def)
  have wait: "retry_wait one_by_one 1 PlainError = 200 * millisecond"
    using report_backoff_first [of one_by_one] by (simp add: retry_wait_def durations)
  have "wrap64 (200 * millisecond) = 200 * millisecond" by (simp add: durations is_int64_def)
  then have "worker_step one_by_one ''0001'' False False (Returned (Some PlainError) 0) (1, lane_attempting) = Some (1, lane_sleeping)"
    by (simp add: worker_step_def attempt_returned_def wait Let_def durations example_lanes)
  from example_move [OF attempting _ this] show "reachable (example_with lane_sleeping 1)" by (simp add: clock_ok_def)
  have "worker_step one_by_one ''0001'' False False (Returned None 0) (1, lane_attempting) = Some (1, lane_delivered)"
    by (simp add: worker_step_def attempt_returned_def after_send_def settle_def example_batch_def Let_def example_lanes)
  from example_move [OF attempting _ this] show "reachable (example_with lane_delivered 1)" by (simp add: clock_ok_def)
qed

theorem events_accounted_witness:
  "h_accepted lane_delivered = [example_event] \<and> in_flight lane_delivered = [] \<and>
   ln_enqueued lane_delivered = ln_delivered lane_delivered + ln_failed lane_delivered + ln_undelivered lane_delivered"
  using events_accounted [OF example_run(4), of lane_delivered]
  by (simp add: in_flight_def pending_def) (simp add: example_lanes)

text \<open>
  C20. What a destination is sent: every batch on its way has between one event and the configured
  number, its attempt is within the configured number, it carries the body of exactly its
  events under its own identifier, and unless it is a single event its body stays below the
  byte budget, as long as batch numbers have ten digits.
\<close>

theorem batch_within_bounds:
  assumes "reachable d" "l \<in> set (d_lanes d)" "ln_phase l = Attempting attempt b k"
  shows "1 \<le> attempt \<and> attempt \<le> MaxAttempts (d_config d) \<and> b_Events b \<noteq> [] \<and>
    int (length (b_Events b)) \<le> BatchEvents (d_config d) \<and>
    b_body b = encodeBatch (b_ID b) (map snd (ln_hand l)) \<and> b_Events b = map fst (ln_hand l) \<and>
    (\<exists>n. b_ID b = batchID (d_instance d) n \<and>
      (if uint n < 10 ^ 10 then length (b_Events b) = 1 \<or> int (length (b_body b)) < BatchBytes (d_config d) else True))"
proof -
  let ?c = "d_config d" and ?inst = "d_instance d"
  have l: "hand_ok ?c ?inst l" "delivery_ok ?c ?inst l"
    using reachable_lane [OF assms(1,2)] by (simp_all add: lane_inv_def)
  then have h: "ln_hand l \<noteq> []" "int (length (ln_hand l)) \<le> BatchEvents ?c"
    "length (ln_hand l) = 1 \<or> ln_size l \<le> BatchBytes ?c" "ln_size l = tally ?inst (ln_hand l)"
    and b: "batch_of ?inst l b" and a: "1 \<le> attempt" "attempt \<le> MaxAttempts ?c"
    using assms(3) by (auto simp: hand_ok_def delivery_ok_def)
  obtain n where n: "b_ID b = batchID ?inst n" using b by (auto simp: batch_of_def)
  have small: "int (length (b_body b)) < BatchBytes ?c" if "uint n < 10 ^ 10" "length (b_Events b) \<noteq> 1"
  proof -
    have "map snd (ln_hand l) \<noteq> []" using h(1) by simp
    note size = batch_size [OF this, of "b_ID b"]
    have "batchEnvelope (b_ID b) = batchEnvelope (?inst @ '':0000000000'')"
      unfolding n by (rule envelope_batchID [OF reachable_instance [OF assms(1)] that(1)])
    moreover have "sum_list (map (\<lambda>e. length e + 1) (map snd (ln_hand l))) = sum_list (map (\<lambda>(_, body). length body + 1) (ln_hand l))"
      by (rule arg_cong [where f = sum_list]) auto
    moreover have "b_body b = encodeBatch (b_ID b) (map snd (ln_hand l))" using b by (simp add: batch_of_def)
    ultimately have "int (length (b_body b)) + 1 = ln_size l"
      using size unfolding h(4) tally_def envelope_def by simp
    with h(3) that(2) b show ?thesis by (auto simp: batch_of_def)
  qed
  with h a b n show ?thesis by (auto simp: batch_of_def)
qed

theorem batch_within_bounds_witness:
  "int (length (b_Events example_batch)) \<le> 1 \<and> b_body example_batch = encodeBatch (b_ID example_batch) [example_body]"
  using batch_within_bounds [OF example_run(2), of lane_attempting 1 example_batch Loop]
  by (simp add: example_lanes)

text \<open>
  How long a retry waits: a worker that sleeps has attempts left, and its wait is at least the
  base delay doubled for each attempt before, cut off at the maximum, and at most that maximum
  and the retry budget. Above a maximum of 146 years the sum that checks the budget wraps.
\<close>

theorem retry_within_budget:
  assumes "reachable d" "l \<in> set (d_lanes d)" "ln_phase l = Sleeping attempt wait b k"
    "BackoffMax (d_config d) \<le> 2 ^ 62"
  shows "1 \<le> attempt \<and> attempt < MaxAttempts (d_config d) \<and>
    min (BackoffBase (d_config d) * 2 ^ nat (attempt - 1)) (BackoffMax (d_config d)) \<le> wait \<and>
    wait \<le> BackoffMax (d_config d) \<and> wait \<le> RetryBudget (d_config d)"
proof -
  have c: "valid_report_config (d_config d)" using reachable_inv [OF assms(1)] by (simp add: dispatcher_inv_def)
  have "report_backoff (d_config d) attempt =
      min (BackoffBase (d_config d) * 2 ^ nat (attempt - 1)) (BackoffMax (d_config d))"
    using assms(4) by (intro report_backoff_eq valid_report_configD(5) [OF c]) simp
  with reachable_lane [OF assms(1,2)] assms(3,4) show ?thesis by (simp add: lane_inv_def delivery_ok_def)
qed

theorem retry_within_budget_witness:
  "min (BackoffBase one_by_one * 2 ^ nat (1 - 1)) (BackoffMax one_by_one) \<le> 200 * millisecond \<and>
   200 * millisecond \<le> RetryBudget one_by_one"
  using retry_within_budget [OF example_run(3), of lane_sleeping 1 "200 * millisecond" example_batch Loop]
  by (simp add: example_lanes durations)

text \<open>
  Where the budget check fails: a configuration that \<open>Validate\<close> accepts, with the largest maximum
  delay, and a destination that asks for the longest wait. One nanosecond after the first
  attempt began the sum of the two durations is negative, so instead of giving the batch up,
  although the wait exceeds the budget, the worker goes to sleep for 292 years.
\<close>

theorem retry_budget_wraps:
  "let c = report_DefaultConfig\<lparr>BackoffMax := 2 ^ 63 - 1\<rparr>; hint = RetryAfterError PlainError (2 ^ 63 - 1) in
   report_Validate c = Inr () \<and>
   ln_phase (snd (attempt_returned c inst False (Some hint) 1 1 b k (n, l))) = Sleeping 1 (2 ^ 63 - 1) b k \<and>
   2 ^ 63 - 1 > RetryBudget c"
proof -
  let ?c = "report_DefaultConfig\<lparr>BackoffMax := 2 ^ 63 - 1\<rparr>" and ?e = "RetryAfterError PlainError (2 ^ 63 - 1)"
  have "report_backoff ?c 1 = 200 * millisecond"
    using report_backoff_first [of ?c] by (simp add: report_DefaultConfig_def durations)
  then have "retry_wait ?c 1 ?e = 2 ^ 63 - 1" by (simp add: retry_wait_def durations)
  moreover have "wrap64 (1 + (2 ^ 63 - 1)) = - (2 ^ 63)" by (simp add: wrap64_def)
  ultimately show ?thesis
    by (simp add: attempt_returned_def report_Validate_def report_DefaultConfig_def durations Let_def)
qed

text \<open>
  C19. \<open>Close\<close> comes to an end: once the dispatcher is closed, its workers can make only a bounded
  number of steps, whatever the destinations answer and however the steps interleave; and as
  long as a worker is not done it can make one, so they all finish.
\<close>

theorem close_drains:
  assumes "reachable d" "d_started d" "d_closed d" "(worker_moves ^^ n) d d'"
  shows "n \<le> drain_bound d \<and> (close_ready d' \<or> (\<exists>d''. worker_moves d' d''))"
proof -
  note run = run_bound [OF assms(4) reachable_inv [OF assms(1)]]
  have "\<exists>d''. worker_moves d' d''" if "\<not> close_ready d'"
  proof -
    have "\<exists>l \<in> set (d_lanes d'). ln_phase l \<noteq> Finished"
      using that run assms(2,3) by (auto simp: close_ready_def list_all_iff)
    then obtain l where "l \<in> set (d_lanes d')" "ln_phase l \<noteq> Finished" by blast
    with run assms(2,3) show ?thesis by (intro worker_enabled) auto
  qed
  with run show ?thesis by auto
qed

definition example_closed :: dispatcher where
  "example_closed = close_begin (example_with lane_delivered 1)"

theorem close_drains_witness:
  "drain_bound example_closed = 1 \<and> (\<exists>d'. worker_moves example_closed d')"
proof -
  have r: "reachable example_closed"
    unfolding example_closed_def by (rule reachable.next_state [OF example_run(4) dispatcher_step.close])
  have "d_started example_closed" "d_closed example_closed" "\<not> close_ready example_closed"
    by (simp_all add: example_closed_def close_begin_def close_ready_def) (simp add: lane_delivered_def)
  moreover have "drain_bound example_closed = 1"
    by (simp add: drain_bound_def example_closed_def close_begin_def lane_bound_def phase_cost_def) (simp add: example_lanes)
  ultimately show ?thesis using close_drains [OF r, of 0 example_closed] by simp
qed

text \<open>
  C18. What \<open>Close\<close> reports: after it, nothing is in flight at any destination, every accepted event is
  settled as delivered, failed or undelivered, in order, and the counters say how many;
  the error names exactly the destinations with undelivered events, with their counts.
\<close>

theorem close_settles_everything:
  assumes "reachable d" "close_ready d"
  shows "case close_finish d of (lost, d') \<Rightarrow>
    list_all (\<lambda>l. in_flight l = [] \<and> map fst (h_settled l) = h_accepted l \<and>
      ln_enqueued l = ln_delivered l + ln_failed l + ln_undelivered l) (d_lanes d') \<and>
    map ln_name (d_lanes d') = map ln_name (d_lanes d) \<and>
    lost = map (\<lambda>l. (ln_name l, ln_undelivered l)) (filter (\<lambda>l. ln_undelivered l > 0) (d_lanes d'))"
proof -
  obtain lost d' where f: "close_finish d = (lost, d')" by fastforce
  then have r: "reachable d'" using reachable.next_state [OF assms(1) dispatcher_step.finish [OF assms(2)]] by simp
  have lanes: "d_lanes d' = map (\<lambda>l. (settle Undelivered (ln_queue l) l)\<lparr>ln_queue := []\<rparr>) (d_lanes d)"
    and lost: "lost = map (\<lambda>l. (ln_name l, ln_undelivered l)) (filter (\<lambda>l. ln_undelivered l > 0) (d_lanes d'))"
    using f by (auto simp: close_finish_def Let_def)
  have "in_flight l = [] \<and> map fst (h_settled l) = h_accepted l \<and>
      ln_enqueued l = ln_delivered l + ln_failed l + ln_undelivered l" if l: "l \<in> set (d_lanes d')" for l
  proof -
    from l obtain m where m: "m \<in> set (d_lanes d)" "l = (settle Undelivered (ln_queue m) m)\<lparr>ln_queue := []\<rparr>"
      unfolding lanes by auto
    then have "ln_phase m = Finished \<or> ln_phase m = Unstarted"
      using assms reachable_inv [OF assms(1)] by (auto simp: close_ready_def dispatcher_inv_def list_all_iff)
    with m reachable_lane [OF r l] have "in_flight l = []"
      by (auto simp: in_flight_def pending_kont lane_inv_def hand_ok_def pending_def)
    with lane_accounts [OF r l] show ?thesis by simp
  qed
  moreover have "map ln_name (d_lanes d') = map ln_name (d_lanes d)" by (simp add: lanes comp_def)
  ultimately show ?thesis using lost by (simp add: f list_all_iff)
qed

theorem close_settles_everything_witness:
  "fst (close_finish (close_begin (snd (Enqueue ''a'' example_event example_new)))) = [(''a'', 1)]"
proof -
  let ?d = "close_begin (snd (Enqueue ''a'' example_event example_new))"
  have "reachable ?d"
    by (rule reachable.next_state [OF reachable.next_state [OF example_new_reachable dispatcher_step.enqueue] dispatcher_step.close])
  moreover have d: "?d = example_new\<lparr>d_lanes := [(newLane ''0001'' ''a'')\<lparr>ln_queue := [example_event],
      h_accepted := [example_event], ln_enqueued := 1\<rparr>], d_closed := True\<rparr>"
    by (simp add: Enqueue_def enqueue_lane_def close_begin_def example_new_def example_start_def newLane_def)
  moreover have "close_ready ?d" unfolding d by (simp add: close_ready_def example_new_def)
  ultimately have "case close_finish ?d of (lost, d') \<Rightarrow>
      lost = map (\<lambda>l. (ln_name l, ln_undelivered l)) (filter (\<lambda>l. ln_undelivered l > 0) (d_lanes d'))"
    using close_settles_everything [of ?d] by (simp add: split_beta)
  moreover have "d_lanes (snd (close_finish ?d)) = [(settle Undelivered [example_event] (newLane ''0001'' ''a''))\<lparr>
      h_accepted := [example_event], ln_enqueued := 1\<rparr>]"
    unfolding d by (simp add: close_finish_def settle_def Let_def newLane_def)
  ultimately show ?thesis by (simp add: split_beta) (simp add: settle_def newLane_def Let_def)
qed

end
