(* ===== verification/Application.thy ===== *)
theory Application
  imports Configure Reader_Session Dispatcher_Props
begin

text \<open>
  The running application, \<^verbatim>\<open>src/internal/app/tagstrak/app.go\<close>: the reader's session, the bounded queue of
  observations, the consumer that translates, matches and enqueues them, the dispatcher's workers,
  replacements of the subscriptions, and \<open>Run\<close>, which starts them, waits for the first of them to
  end, drains and closes. Every step is what one goroutine does between two waits; steps interleave
  freely. What \<^verbatim>\<open>status\<close> reports is \<^verbatim>\<open>telemetry.go\<close>. HTTP servers are the errors they end with.
\<close>

section \<open>State\<close>

datatype run_error =
    CallerCancelled
  | ListenFailed
  | ReaderEnded session_error
  | ConsumeFailed "consume_error option"
  | ConsumerStopped
  | ServerEnded
  | ErrDrainDeadline
  | ErrUndelivered "(string \<times> u64) list"

datatype consumer_place = Awaiting | Consuming observation | ConsumerDone "run_error option"

datatype main_place = NotStarted | Selecting | Draining | Joining | ClosingDelivery | StoppingServers | Returned

text \<open>
  \<open>rn_readerDone\<close> is the closed queue and the result in the channel; \<open>gh_consumed\<close> and \<open>gh_abandoned\<close> are
  history. The processor inside \<open>rn_data\<close> holds the dispatcher that \<open>Run\<close> starts and closes.
\<close>

record app =
  rn_config :: app_config
  rn_main :: main_place
  rn_cancelled :: bool
  rn_expired :: bool
  rn_session :: session
  rn_readerDone :: bool
  rn_readFinished :: bool
  rn_queue :: "observation list"
  rn_consumer :: consumer_place
  rn_consumeFinished :: bool
  rn_stopConsumer :: bool
  rn_timedOut :: bool
  rn_data :: consumer
  rn_table :: subscription_table
  rn_running :: bool
  rn_draining :: bool
  rn_consumerFailed :: bool
  rn_processed :: u64
  rn_abandoned :: u64
  rn_result :: "run_error list"
  gh_consumed :: "observation list"
  gh_abandoned :: "observation list"

definition app_delivery :: "app \<Rightarrow> dispatcher option" where
  "app_delivery s = Option.bind (cn_processor (rn_data s)) pr_delivery"

definition on_delivery :: "(dispatcher \<Rightarrow> dispatcher) \<Rightarrow> app \<Rightarrow> app" where
  "on_delivery f s = s\<lparr>rn_data := (rn_data s)\<lparr>cn_processor :=
     map_option (\<lambda>p. p\<lparr>pr_delivery := map_option f (pr_delivery p)\<rparr>) (cn_processor (rn_data s))\<rparr>\<rparr>"

section \<open>Construction\<close>

definition NewApp ::
  "(string \<Rightarrow> int option) \<Rightarrow> (string \<Rightarrow> (string \<times> string) option) \<Rightarrow> (string \<Rightarrow> (bool \<times> string) option) \<Rightarrow>
     (string \<Rightarrow> string \<Rightarrow> string) \<Rightarrow> nat \<Rightarrow> app_config \<Rightarrow> assembly \<Rightarrow> app_error + app" where
  "NewApp port split ip join maxSocketPath c a =
     (case app_Validate port split ip join maxSocketPath c of
        Some e \<Rightarrow> Inl e
      | None \<Rightarrow>
          (case NewSession port (ap_Reader c) of
             None \<Rightarrow> Inl ReaderRefused
           | Some session' \<Rightarrow>
               let s = \<lparr>rn_config = c, rn_main = NotStarted, rn_cancelled = False, rn_expired = False, rn_session = session', rn_readerDone = False,
                 rn_readFinished = False, rn_queue = [], rn_consumer = Awaiting, rn_consumeFinished = False,
                 rn_stopConsumer = False, rn_timedOut = False, rn_data = as_Consumer a, rn_table = as_Subscriptions a,
                 rn_running = False, rn_draining = False, rn_consumerFailed = False, rn_processed = 0, rn_abandoned = 0,
                 rn_result = [], gh_consumed = [], gh_abandoned = []\<rparr> in
               if \<not> Enabled (ap_Control c) then Inr s
               else case as_Control a of
                 None \<Rightarrow> Inl SettingRefused
               | Some (token, _) \<Rightarrow>
                   if lc_Address (ap_Control c) \<noteq> [] \<and> length token = 0 then Inl SettingRefused
                   else if length token > 0 \<and> length token < MinTokenBytes then Inl SettingRefused
                   else Inr s))"

section \<open>The goroutines\<close>

text \<open>
  \<open>Run\<close> up to its first wait, where \<open>listening\<close> says whether the listeners opened; and the end of the caller's
  context, by its deadline (\<open>expired\<close>) or by a cancellation. The reader's context is the caller's child, so it
  ends with the deadline's error only where that comes before any cancellation; \<open>rn_expired\<close> says it did.
\<close>

definition app_begin :: "bool \<Rightarrow> app \<Rightarrow> app" where
  "app_begin listening s =
     (if rn_cancelled s then s\<lparr>rn_main := Returned, rn_result := [CallerCancelled]\<rparr>
      else if \<not> listening then s\<lparr>rn_main := Returned, rn_result := [ListenFailed]\<rparr>
      else on_delivery Start (s\<lparr>rn_running := True, rn_main := Selecting\<rparr>))"

definition caller_cancels :: "bool \<Rightarrow> app \<Rightarrow> app" where
  "caller_cancels expired s = s\<lparr>rn_cancelled := True,
     rn_expired := (rn_expired s \<or> expired \<and> \<not> rn_cancelled s \<and> \<not> ss_cancelled (rn_session s)),
     rn_session := (if rn_running s then (rn_session s)\<lparr>ss_cancelled := True\<rparr> else rn_session s)\<rparr>"

text \<open>The session hands an observation over without waiting: it is taken where the queue has room.\<close>

definition app_room :: "app \<Rightarrow> bool" where
  "app_room s \<longleftrightarrow> int (length (rn_queue s)) < ap_QueueCapacity (rn_config s)"

definition hand_to_queue :: "session \<Rightarrow> app \<Rightarrow> app" where
  "hand_to_queue r s = s\<lparr>rn_session := r, rn_queue :=
     (case ss_place (rn_session s) of
        Handing (ob # _) \<Rightarrow> if app_room s then rn_queue s @ [ob] else rn_queue s
      | _ \<Rightarrow> rn_queue s)\<rparr>"

text \<open>
  The consumer's loop: the next observation or the end of the queue, its context, and the return of
  \<open>Consume\<close>, where the call's context had ended before the matching (\<open>over\<close>) or by the return (\<open>late\<close>).
\<close>

datatype consumer_event = Take | Stop | Return bool bool

definition consume_step :: "consumer_event \<Rightarrow> app \<Rightarrow> app option" where
  "consume_step a s =
     (case (a, rn_consumer s) of
        (Take, Awaiting) \<Rightarrow>
          (case rn_queue s of
             ob # rest \<Rightarrow> Some (s\<lparr>rn_consumer := Consuming ob, rn_queue := rest\<rparr>)
           | [] \<Rightarrow> if rn_readerDone s then Some (s\<lparr>rn_consumer := ConsumerDone None\<rparr>) else None)
      | (Stop, Awaiting) \<Rightarrow> if rn_stopConsumer s then Some (s\<lparr>rn_consumer := ConsumerDone (Some ConsumerStopped)\<rparr>) else None
      | (Return over late, Consuming ob) \<Rightarrow>
          (case Consume over ob (tb_current (rn_table s)) (rn_data s) of
             (err, data) \<Rightarrow>
               Some (if err = None \<and> \<not> late
                 then s\<lparr>rn_data := data, rn_processed := rn_processed s + 1, rn_consumer := Awaiting,
                        gh_consumed := gh_consumed s @ [ob]\<rparr>
                 else s\<lparr>rn_data := data, rn_consumerFailed := True, rn_abandoned := rn_abandoned s + 1,
                        rn_consumer := ConsumerDone (Some (ConsumeFailed err)), gh_abandoned := gh_abandoned s @ [ob]\<rparr>))
      | _ \<Rightarrow> None)"

text \<open>\<open>Run\<close>: the first end it sees, the drain under the shutdown timer, the join after it fires, and the closing.\<close>

datatype main_event =
    SeeCaller | SeeReader | SeeConsumer | SeeServer | DeadlineFires | DrainDone | DeliveryClosed | ServersStopped bool

definition drain :: "run_error list \<Rightarrow> app \<Rightarrow> app" where
  "drain errs s = s\<lparr>rn_result := errs, rn_draining := True, rn_session := (rn_session s)\<lparr>ss_cancelled := True\<rparr>, rn_main := Draining\<rparr>"

definition errors_of :: "run_error option \<Rightarrow> run_error list" where
  "errors_of r = (case r of None \<Rightarrow> [] | Some e \<Rightarrow> [e])"

definition both_finished :: "app \<Rightarrow> bool" where
  "both_finished s \<longleftrightarrow> rn_readFinished s \<and> rn_consumeFinished s"

definition drain_done :: "app \<Rightarrow> app" where
  "drain_done s = on_delivery close_begin
     (s\<lparr>rn_result := rn_result s @ (if rn_timedOut s then [ErrDrainDeadline] else []),
        rn_abandoned := rn_abandoned s + of_nat (length (rn_queue s)), gh_abandoned := gh_abandoned s @ rn_queue s,
        rn_queue := [], rn_main := ClosingDelivery\<rparr>)"

definition delivery_closed :: "app \<Rightarrow> app option" where
  "delivery_closed s =
     (case app_delivery s of
        None \<Rightarrow> Some (s\<lparr>rn_main := StoppingServers\<rparr>)
      | Some d \<Rightarrow>
          if close_ready d then
            (case close_finish d of (lost, d') \<Rightarrow>
               Some (on_delivery (\<lambda>_. d')
                 (s\<lparr>rn_main := StoppingServers, rn_result := rn_result s @ (if length lost > 0 then [ErrUndelivered lost] else [])\<rparr>)))
          else None)"

definition main_step :: "main_event \<Rightarrow> app \<Rightarrow> app option" where
  "main_step a s =
     (case (a, rn_main s) of
        (SeeCaller, Selecting) \<Rightarrow> if rn_cancelled s then Some (drain [CallerCancelled] s) else None
      | (SeeServer, Selecting) \<Rightarrow> Some (drain [ServerEnded] s)
      | (SeeReader, m) \<Rightarrow>
          (case ss_place (rn_session s) of
             Done e \<Rightarrow>
               if \<not> rn_readerDone s \<or> rn_readFinished s then None
               else if m = Selecting then Some (drain [ReaderEnded e] (s\<lparr>rn_readFinished := True\<rparr>))
               else if m = Draining then
                 Some (s\<lparr>rn_readFinished := True,
                   rn_result := rn_result s @ (if e = Reader_Session.ContextEnded \<and> \<not> rn_expired s then [] else [ReaderEnded e])\<rparr>)
               else if m = Joining then Some (s\<lparr>rn_readFinished := True\<rparr>)
               else None
           | _ \<Rightarrow> None)
      | (SeeConsumer, m) \<Rightarrow>
          (case rn_consumer s of
             ConsumerDone r \<Rightarrow>
               if rn_consumeFinished s then None
               else if m = Selecting then Some (drain (errors_of r) (s\<lparr>rn_consumeFinished := True\<rparr>))
               else if m = Draining then Some (s\<lparr>rn_consumeFinished := True, rn_result := rn_result s @ errors_of r\<rparr>)
               else if m = Joining \<and> rn_readFinished s then Some (s\<lparr>rn_consumeFinished := True\<rparr>)
               else None
           | _ \<Rightarrow> None)
      | (DeadlineFires, Draining) \<Rightarrow>
          if both_finished s then None else Some (s\<lparr>rn_timedOut := True, rn_stopConsumer := True, rn_main := Joining\<rparr>)
      | (DrainDone, Draining) \<Rightarrow> if both_finished s then Some (drain_done s) else None
      | (DrainDone, Joining) \<Rightarrow> if both_finished s then Some (drain_done s) else None
      | (DeliveryClosed, ClosingDelivery) \<Rightarrow> delivery_closed s
      | (ServersStopped failed, StoppingServers) \<Rightarrow>
          Some (s\<lparr>rn_running := False, rn_main := Returned, rn_result := rn_result s @ (if failed then [ServerEnded] else [])\<rparr>)
      | _ \<Rightarrow> None)"

section \<open>Steps and reachable states\<close>

definition reader_own :: "answer \<Rightarrow> bool" where
  "reader_own a \<longleftrightarrow> (case a of Taken _ \<Rightarrow> False | Cancelled \<Rightarrow> False | _ \<Rightarrow> True)"

inductive app_step :: "app \<Rightarrow> app \<Rightarrow> bool" where
  begins: "rn_main s = NotStarted \<Longrightarrow> app_step s (app_begin listening s)"
| cancels: "app_step s (caller_cancels expired s)"
| reads: "rn_running s \<Longrightarrow> reader_own a \<Longrightarrow> session_step a (rn_session s) = Some r \<Longrightarrow> app_step s (s\<lparr>rn_session := r\<rparr>)"
| hands: "rn_running s \<Longrightarrow> session_step (Taken (app_room s)) (rn_session s) = Some r \<Longrightarrow> app_step s (hand_to_queue r s)"
| reader_returns: "rn_running s \<Longrightarrow> ss_place (rn_session s) = Done e \<Longrightarrow> app_step s (s\<lparr>rn_readerDone := True\<rparr>)"
| consumes: "rn_running s \<Longrightarrow> consume_step a s = Some s' \<Longrightarrow> app_step s s'"
| runs: "main_step m s = Some s' \<Longrightarrow> app_step s s'"
| replaces: "app_step s (s\<lparr>rn_table := fst (snd (table_Replace spec expected (commit :: (unit, unit) commit option) (rn_table s, ())))\<rparr>)"
| delivers: "app_delivery s = Some d \<Longrightarrow> worker_moves d d' \<Longrightarrow> app_step s (on_delivery (\<lambda>_. d') s)"
| aborts: "rn_main s = ClosingDelivery \<Longrightarrow> app_step s (on_delivery close_deadline s)"

inductive_cases app_stepE: "app_step s s'"

text \<open>The application a configuration file describes, and what it can become.\<close>

inductive app_reachable :: "('f, 'b) surroundings \<Rightarrow> 'f config_file \<Rightarrow> app_config \<Rightarrow> app \<Rightarrow> bool" for w f c where
  new: "Pipeline w f c = Inr a \<Longrightarrow> is_int64 (BackoffMax (ReportConfig f)) \<Longrightarrow>
    NewApp port split ip join maxSocketPath c a = Inr s \<Longrightarrow> app_reachable w f c s"
| step: "app_reachable w f c s \<Longrightarrow> app_step s s' \<Longrightarrow> app_reachable w f c s'"

section \<open>Status\<close>

record app_status =
  st_Healthy :: bool
  st_Ready :: bool
  st_Draining :: bool
  st_Reader :: session_status
  st_Depth :: int
  st_Capacity :: int
  st_Processed :: u64
  st_Abandoned :: u64
  st_Translated :: u64
  st_Untranslatable :: u64
  st_Delivery :: "lane_stats list option"

definition Status :: "app \<Rightarrow> app_status" where
  "Status s =
     (let healthy = rn_running s; draining = rn_draining s; v = ss_status (rn_session s) in
      \<lparr>st_Healthy = healthy, st_Ready = (healthy \<and> \<not> draining \<and> \<not> rn_consumerFailed s \<and> Ready v), st_Draining = draining,
       st_Reader = v, st_Depth = int (length (rn_queue s)), st_Capacity = ap_QueueCapacity (rn_config s),
       st_Processed = rn_processed s, st_Abandoned = rn_abandoned s, st_Translated = fst (Counts (rn_data s)),
       st_Untranslatable = snd (Counts (rn_data s)), st_Delivery = map_option dispatcher_Stats (app_delivery s)\<rparr>)"

text \<open>The status codes of \<^verbatim>\<open>/healthz\<close> and \<^verbatim>\<open>/readyz\<close>.\<close>

definition health_code :: "string \<Rightarrow> app_status \<Rightarrow> nat" where
  "health_code path st =
     (if path = ''/healthz'' \<and> \<not> st_Healthy st \<or> path = ''/readyz'' \<and> \<not> st_Ready st then 503 else 200)"

section \<open>Facts: the reader and the delivery\<close>

lemma session_parts_frame [simp]:
  "h_out (goto p s) = h_out s" "h_out (transition st s) = h_out s" "h_out (update g s) = h_out s" "h_out (received m s) = h_out s"
  "h_out (sent m s) = h_out s" "h_out (acked s) = h_out s" "ss_cancelled (goto p s) = ss_cancelled s"
  "ss_cancelled (transition st s) = ss_cancelled s" "ss_cancelled (update g s) = ss_cancelled s"
  "ss_cancelled (received m s) = ss_cancelled s" "ss_cancelled (sent m s) = ss_cancelled s" "ss_cancelled (acked s) = ss_cancelled s"
  by (simp_all add: step_defs acked_def)

lemma session_tails_frame [simp]:
  "h_out (run_tail e s) = h_out s" "h_out (run_head s) = h_out s" "h_out (serve_head s) = h_out s"
  "h_out (hand_over obs s) = h_out s" "h_out (finish e s) = h_out s"
  "ss_cancelled (run_tail e s) = ss_cancelled s" "ss_cancelled (run_head s) = ss_cancelled s"
  "ss_cancelled (serve_head s) = ss_cancelled s" "ss_cancelled (hand_over obs s) = ss_cancelled s"
  "ss_cancelled (finish e s) = ss_cancelled s"
  by (simp_all add: run_tail_def run_head_def serve_head_def hand_over_def finish_def Let_def split: list.split)

lemma session_got_frame [simp]:
  "h_out (got_notification m s) = h_out s" "h_out (got_response m s) = h_out s" "h_out (got_message now m s) = h_out s"
  "ss_cancelled (got_notification m s) = ss_cancelled s" "ss_cancelled (got_response m s) = ss_cancelled s"
  "ss_cancelled (got_message now m s) = ss_cancelled s"
  by (simp_all add: got_notification_def got_response_def got_message_def Let_def split: sum.split)

lemma session_own_out:
  assumes "session_step a s = Some s'" "reader_own a"
  shows "h_out s' = h_out s \<and> ss_cancelled s' = ss_cancelled s \<and> (\<forall>e. ss_place s \<noteq> Done e)"
  using assms
  by (auto simp: session_step_def reader_own_def split: answer.splits place.splits option.splits sum.splits if_splits)

lemma session_taken:
  assumes "session_step (Taken ok) s = Some s'"
  obtains ob obs where "ss_place s = Handing (ob # obs)" "ss_cancelled s' = ss_cancelled s"
    "h_out s' = (if ok then h_out s @ [ob] else h_out s)"
proof -
  from assms obtain ob obs where "ss_place s = Handing (ob # obs)"
    by (auto simp: session_step_def split: place.splits list.splits)
  with assms that show thesis by (cases ok) (auto simp: session_step_def)
qed

lemma session_cancelled: "session_reachable s \<Longrightarrow> session_reachable (s\<lparr>ss_cancelled := True\<rparr>)"
  by (rule session_reachable.move) (auto intro!: session_move.intros [of Cancelled] simp: session_step_def)

lemma app_delivery_on [simp]: "app_delivery (on_delivery g s) = map_option g (app_delivery s)"
  by (cases "cn_processor (rn_data s)") (simp_all add: app_delivery_def on_delivery_def)

lemma on_delivery_frame [simp]:
  "rn_config (on_delivery g s) = rn_config s" "rn_main (on_delivery g s) = rn_main s" "rn_expired (on_delivery g s) = rn_expired s" "rn_cancelled (on_delivery g s) = rn_cancelled s"
  "rn_session (on_delivery g s) = rn_session s" "rn_readerDone (on_delivery g s) = rn_readerDone s"
  "rn_readFinished (on_delivery g s) = rn_readFinished s" "rn_queue (on_delivery g s) = rn_queue s"
  "rn_consumer (on_delivery g s) = rn_consumer s" "rn_consumeFinished (on_delivery g s) = rn_consumeFinished s"
  "rn_stopConsumer (on_delivery g s) = rn_stopConsumer s" "rn_timedOut (on_delivery g s) = rn_timedOut s"
  "rn_running (on_delivery g s) = rn_running s" "rn_draining (on_delivery g s) = rn_draining s"
  "rn_consumerFailed (on_delivery g s) = rn_consumerFailed s" "rn_processed (on_delivery g s) = rn_processed s"
  "rn_abandoned (on_delivery g s) = rn_abandoned s" "rn_result (on_delivery g s) = rn_result s"
  "gh_consumed (on_delivery g s) = gh_consumed s" "gh_abandoned (on_delivery g s) = gh_abandoned s"
  "rn_table (on_delivery g s) = rn_table s"
  by (simp_all add: on_delivery_def)

section \<open>The invariant: observations and phases\<close>

definition calling :: "app \<Rightarrow> observation list" where
  "calling s = (case rn_consumer s of Consuming ob \<Rightarrow> [ob] | _ \<Rightarrow> [])"

definition flow_inv :: "app \<Rightarrow> bool" where
  "flow_inv s \<longleftrightarrow> session_reachable (rn_session s) \<and>
     h_out (rn_session s) = gh_consumed s @ gh_abandoned s @ calling s @ rn_queue s \<and>
     rn_processed s = of_nat (length (gh_consumed s)) \<and> rn_abandoned s = of_nat (length (gh_abandoned s)) \<and>
     int (length (rn_queue s)) \<le> ap_QueueCapacity (rn_config s) \<and> 0 \<le> ap_QueueCapacity (rn_config s)"

definition idle :: "app \<Rightarrow> bool" where
  "idle s \<longleftrightarrow> \<not> rn_running s \<and> rn_queue s = [] \<and> rn_consumer s = Awaiting \<and> \<not> rn_draining s \<and> \<not> rn_readerDone s \<and>
     \<not> rn_readFinished s \<and> \<not> rn_consumeFinished s \<and> \<not> rn_timedOut s \<and> gh_consumed s = [] \<and> gh_abandoned s = []"

definition consumer_inv :: "app \<Rightarrow> bool" where
  "consumer_inv s \<longleftrightarrow>
     ((\<forall>r. rn_consumer s \<noteq> ConsumerDone r) \<longrightarrow> \<not> rn_consumerFailed s \<and> \<not> rn_consumeFinished s \<and> gh_abandoned s = []) \<and>
     (rn_consumer s = ConsumerDone None \<longrightarrow> rn_readerDone s \<and> rn_queue s = [] \<and> \<not> rn_consumerFailed s) \<and>
     (\<forall>e. rn_consumer s = ConsumerDone (Some e) \<longrightarrow>
        (if rn_consumerFailed s then \<exists>x. e = ConsumeFailed x else e = ConsumerStopped \<and> rn_timedOut s))"

definition phase_inv :: "app \<Rightarrow> bool" where
  "phase_inv s \<longleftrightarrow>
     (rn_readerDone s \<longrightarrow> (\<exists>e. ss_place (rn_session s) = Done e)) \<and> (rn_readFinished s \<longrightarrow> rn_readerDone s) \<and>
     rn_stopConsumer s = rn_timedOut s \<and> (rn_draining s \<longrightarrow> ss_cancelled (rn_session s)) \<and>
     (gh_abandoned s \<noteq> [] \<longrightarrow> rn_consumerFailed s \<or> rn_timedOut s)"

definition main_inv :: "app \<Rightarrow> bool" where
  "main_inv s \<longleftrightarrow>
     (case rn_main s of
        NotStarted \<Rightarrow> idle s \<and> rn_result s = []
      | Selecting \<Rightarrow> rn_running s \<and> \<not> rn_draining s \<and> \<not> rn_timedOut s \<and> \<not> rn_readFinished s \<and> \<not> rn_consumeFinished s
      | Draining \<Rightarrow> rn_running s \<and> rn_draining s \<and> \<not> rn_timedOut s
      | Joining \<Rightarrow> rn_running s \<and> rn_draining s \<and> rn_timedOut s
      | Returned \<Rightarrow> \<not> rn_running s \<and>
          (if rn_draining s then both_finished s \<and> rn_queue s = [] else idle s \<and> length (rn_result s) = 1)
      | _ \<Rightarrow> rn_running s \<and> rn_draining s \<and> both_finished s \<and> rn_queue s = [])"

definition run_inv :: "app \<Rightarrow> bool" where
  "run_inv s \<longleftrightarrow> flow_inv s \<and> consumer_inv s \<and> phase_inv s \<and> main_inv s"

lemmas run_inv_defs = run_inv_def flow_inv_def consumer_inv_def phase_inv_def calling_def

text \<open>What the invariant does not look at.\<close>

lemma main_inv_frame [simp]:
  "main_inv (s\<lparr>rn_data := d\<rparr>) = main_inv s" "main_inv (s\<lparr>rn_table := t\<rparr>) = main_inv s"
  "main_inv (s\<lparr>rn_cancelled := v\<rparr>) = main_inv s" "main_inv (s\<lparr>rn_expired := v\<rparr>) = main_inv s" "main_inv (s\<lparr>rn_session := r\<rparr>) = main_inv s"
  by (simp_all add: main_inv_def idle_def both_finished_def cong: main_place.case_cong)

lemma run_inv_frame [simp]:
  "run_inv (s\<lparr>rn_data := d\<rparr>) = run_inv s" "run_inv (s\<lparr>rn_table := t\<rparr>) = run_inv s"
  "run_inv (s\<lparr>rn_cancelled := v\<rparr>) = run_inv s" "run_inv (s\<lparr>rn_expired := v\<rparr>) = run_inv s" "run_inv (on_delivery g s) = run_inv s"
  by (simp_all add: run_inv_defs on_delivery_def)

lemma begin_inv: "run_inv s \<Longrightarrow> rn_main s = NotStarted \<Longrightarrow> run_inv (app_begin listening s)"
  by (auto simp: app_begin_def) (auto simp: run_inv_defs main_inv_def idle_def)

lemma session_swap_inv:
  assumes "run_inv s" "session_reachable r" "h_out r = h_out (rn_session s)" "ss_cancelled (rn_session s) \<longrightarrow> ss_cancelled r"
    "rn_readerDone s \<longrightarrow> (\<exists>e. ss_place r = Done e)"
  shows "run_inv (s\<lparr>rn_session := r\<rparr>)"
  using assms by (simp add: run_inv_defs)

lemma cancel_inv:
  assumes "run_inv s"
  shows "run_inv (caller_cancels expired s)"
proof -
  define r where "r = (if rn_running s then (rn_session s)\<lparr>ss_cancelled := True\<rparr> else rn_session s)"
  have "run_inv (s\<lparr>rn_session := r\<rparr>)"
    by (rule session_swap_inv [OF assms]) (use assms session_cancelled in \<open>auto simp: run_inv_defs r_def\<close>)
  then have "run_inv (s\<lparr>rn_session := r, rn_expired := v, rn_cancelled := True\<rparr>)" for v by (simp only: run_inv_frame)
  moreover have "\<exists>v. caller_cancels expired s = s\<lparr>rn_session := r, rn_expired := v, rn_cancelled := True\<rparr>"
    by (intro exI [of _ "rn_expired (caller_cancels expired s)"]) (simp add: caller_cancels_def r_def)
  ultimately show ?thesis by metis
qed

lemma read_inv:
  assumes "run_inv s" "reader_own a" "session_step a (rn_session s) = Some r"
  shows "run_inv (s\<lparr>rn_session := r\<rparr>)"
proof -
  have "session_reachable r" using assms by (auto simp: run_inv_defs intro: session_reachable.move session_move.intros)
  moreover have "\<not> rn_readerDone s" using assms(1) session_own_out [OF assms(3,2)] by (auto simp: run_inv_defs)
  ultimately show ?thesis using session_own_out [OF assms(3,2)] by (intro session_swap_inv [OF assms(1)]) auto
qed

text \<open>While the reader's session is not done, \<open>Run\<close> has not finished draining.\<close>

lemma reading_phase:
  assumes "run_inv s" "rn_running s" "\<not> rn_readFinished s \<or> \<not> rn_consumeFinished s"
  shows "rn_main s \<in> {Selecting, Draining, Joining}"
  using assms by (auto simp: run_inv_def main_inv_def idle_def both_finished_def split: main_place.splits)

lemma hand_inv:
  assumes "run_inv s" "rn_running s" "session_step (Taken (app_room s)) (rn_session s) = Some r"
  shows "run_inv (hand_to_queue r s)"
proof -
  have r: "session_reachable r" using assms by (auto simp: run_inv_defs intro: session_reachable.move session_move.intros)
  obtain ob obs where ob: "ss_place (rn_session s) = Handing (ob # obs)" "ss_cancelled r = ss_cancelled (rn_session s)"
    "h_out r = (if app_room s then h_out (rn_session s) @ [ob] else h_out (rn_session s))"
    by (rule session_taken [OF assms(3)])
  then have nd: "\<not> rn_readerDone s" using assms(1) by (auto simp: run_inv_defs)
  show ?thesis
  proof (cases "app_room s")
    case False
    have "run_inv (s\<lparr>rn_session := r\<rparr>)" using False ob nd r by (intro session_swap_inv [OF assms(1)]) simp_all
    then show ?thesis using False ob by (simp add: hand_to_queue_def)
  next
    case True
    have phase: "rn_main s \<in> {Selecting, Draining, Joining}" using reading_phase [OF assms(1,2)] nd assms(1) by (auto simp: run_inv_defs)
    have "main_inv (s\<lparr>rn_session := r, rn_queue := rn_queue s @ [ob]\<rparr>)"
      using assms(1) phase by (auto simp: run_inv_def main_inv_def)
    then have "run_inv (s\<lparr>rn_session := r, rn_queue := rn_queue s @ [ob]\<rparr>)"
      using assms(1) r ob nd True by (simp add: run_inv_defs app_room_def)
    then show ?thesis using True ob by (simp add: hand_to_queue_def)
  qed
qed

lemma reader_returns_inv:
  assumes "run_inv s" "rn_running s" "ss_place (rn_session s) = Done e"
  shows "run_inv (s\<lparr>rn_readerDone := True\<rparr>)"
proof -
  have "main_inv (s\<lparr>rn_readerDone := True\<rparr>)"
    using assms(1,2) by (auto simp: run_inv_def main_inv_def idle_def both_finished_def split: main_place.splits)
  then show ?thesis using assms by (simp add: run_inv_defs)
qed

lemma main_inv_kept:
  assumes "main_inv s" "rn_main s \<in> {Selecting, Draining, Joining}" "rn_main s' = rn_main s" "rn_running s' = rn_running s"
    "rn_draining s' = rn_draining s" "rn_timedOut s' = rn_timedOut s" "rn_readFinished s' = rn_readFinished s"
    "rn_consumeFinished s' = rn_consumeFinished s"
  shows "main_inv s'"
  using assms by (auto simp: main_inv_def)

lemma consume_frame:
  assumes "consume_step a s = Some s'"
  shows "rn_main s' = rn_main s" "rn_running s' = rn_running s" "rn_draining s' = rn_draining s" "rn_timedOut s' = rn_timedOut s"
    "rn_readFinished s' = rn_readFinished s" "rn_consumeFinished s' = rn_consumeFinished s" "\<forall>r. rn_consumer s \<noteq> ConsumerDone r"
  using assms by (auto simp: consume_step_def split: consumer_event.splits consumer_place.splits list.splits if_splits prod.splits)

lemma consume_inv:
  assumes inv: "run_inv s" and run: "rn_running s" and step: "consume_step a s = Some s'"
  shows "run_inv s'"
proof -
  note frame = consume_frame [OF step]
  then have "rn_main s \<in> {Selecting, Draining, Joining}" using reading_phase [OF inv run] inv by (auto simp: run_inv_defs)
  then have main: "main_inv s'" using main_inv_kept [of s s'] frame inv by (simp add: run_inv_def)
  show ?thesis
  proof (cases "rn_consumer s")
    case Awaiting
    then consider ob rest where "rn_queue s = ob # rest" "s' = s\<lparr>rn_consumer := Consuming ob, rn_queue := rest\<rparr>"
      | "rn_queue s = []" "rn_readerDone s" "s' = s\<lparr>rn_consumer := ConsumerDone None\<rparr>"
      | "rn_stopConsumer s" "s' = s\<lparr>rn_consumer := ConsumerDone (Some ConsumerStopped)\<rparr>"
      using step by (cases a) (auto simp: consume_step_def split: list.splits if_splits)
    then show ?thesis using Awaiting inv main by cases (simp_all add: run_inv_defs)
  next
    case (Consuming ob)
    then obtain over late where a: "a = Return over late" using step by (cases a) (auto simp: consume_step_def)
    obtain err data where c: "Consume over ob (tb_current (rn_table s)) (rn_data s) = (err, data)" by fastforce
    consider "s' = s\<lparr>rn_data := data, rn_processed := rn_processed s + 1, rn_consumer := Awaiting, gh_consumed := gh_consumed s @ [ob]\<rparr>"
      | "s' = s\<lparr>rn_data := data, rn_consumerFailed := True, rn_abandoned := rn_abandoned s + 1,
          rn_consumer := ConsumerDone (Some (ConsumeFailed err)), gh_abandoned := gh_abandoned s @ [ob]\<rparr>"
      using step Consuming c by (cases "err = None \<and> \<not> late") (auto simp: a consume_step_def)
    then show ?thesis using Consuming inv main by cases (simp_all add: run_inv_defs)
  qed (use frame in simp)
qed

lemma drain_inv:
  assumes "run_inv s" "rn_running s" "\<not> rn_timedOut s"
  shows "run_inv (drain errs s)"
  using assms session_cancelled [of "rn_session s"]
  by (auto simp: drain_def run_inv_defs main_inv_def)

lemma sees_reader:
  assumes "main_step SeeReader s = Some s'"
  shows "\<exists>e. ss_place (rn_session s) = Done e \<and> rn_readerDone s \<and>
     (rn_main s = Selecting \<and> s' = drain [ReaderEnded e] (s\<lparr>rn_readFinished := True\<rparr>) \<or>
      rn_main s = Draining \<and> s' = s\<lparr>rn_readFinished := True,
        rn_result := rn_result s @ (if e = Reader_Session.ContextEnded \<and> \<not> rn_expired s then [] else [ReaderEnded e])\<rparr> \<or>
      rn_main s = Joining \<and> s' = s\<lparr>rn_readFinished := True\<rparr>)"
proof -
  have "main_step SeeReader s = (case ss_place (rn_session s) of
      Done e \<Rightarrow>
        if \<not> rn_readerDone s \<or> rn_readFinished s then None
        else if rn_main s = Selecting then Some (drain [ReaderEnded e] (s\<lparr>rn_readFinished := True\<rparr>))
        else if rn_main s = Draining then
          Some (s\<lparr>rn_readFinished := True,
            rn_result := rn_result s @ (if e = Reader_Session.ContextEnded \<and> \<not> rn_expired s then [] else [ReaderEnded e])\<rparr>)
        else if rn_main s = Joining then Some (s\<lparr>rn_readFinished := True\<rparr>)
        else None
    | _ \<Rightarrow> None)" by (simp only: main_step_def prod.case main_event.case)
  with assms obtain e where "ss_place (rn_session s) = Done e" by (cases "ss_place (rn_session s)") simp_all
  moreover from this have "(if \<not> rn_readerDone s \<or> rn_readFinished s then None
      else if rn_main s = Selecting then Some (drain [ReaderEnded e] (s\<lparr>rn_readFinished := True\<rparr>))
      else if rn_main s = Draining then
        Some (s\<lparr>rn_readFinished := True,
          rn_result := rn_result s @ (if e = Reader_Session.ContextEnded \<and> \<not> rn_expired s then [] else [ReaderEnded e])\<rparr>)
      else if rn_main s = Joining then Some (s\<lparr>rn_readFinished := True\<rparr>)
      else None) = Some s'" using assms by (simp only: main_step_def prod.case main_event.case place.case)
  ultimately show ?thesis by (simp only: place.inject ex_simps simp_thms) (auto split: if_split_asm)
qed

lemma sees_consumer:
  assumes "main_step SeeConsumer s = Some s'"
  shows "\<exists>r. rn_consumer s = ConsumerDone r \<and>
     (rn_main s = Selecting \<and> s' = drain (errors_of r) (s\<lparr>rn_consumeFinished := True\<rparr>) \<or>
      rn_main s = Draining \<and> s' = s\<lparr>rn_consumeFinished := True, rn_result := rn_result s @ errors_of r\<rparr> \<or>
      rn_main s = Joining \<and> s' = s\<lparr>rn_consumeFinished := True\<rparr>)"
  using assms
  by (cases "rn_consumer s") (auto simp: main_step_def split: if_splits)

text \<open>The moves of \<open>Run\<close>, one by one.\<close>

lemma main_step_cases:
  assumes "main_step m s = Some s'"
  obtains (caller) "rn_main s = Selecting" "s' = drain [CallerCancelled] s"
  | (server) "rn_main s = Selecting" "s' = drain [ServerEnded] s"
  | (reader_first) e where "rn_main s = Selecting" "ss_place (rn_session s) = Done e" "rn_readerDone s"
      "s' = drain [ReaderEnded e] (s\<lparr>rn_readFinished := True\<rparr>)"
  | (reader) e where "rn_main s = Draining" "ss_place (rn_session s) = Done e" "rn_readerDone s" "s' = s\<lparr>rn_readFinished := True,
      rn_result := rn_result s @ (if e = Reader_Session.ContextEnded \<and> \<not> rn_expired s then [] else [ReaderEnded e])\<rparr>"
  | (reader_late) "rn_main s = Joining" "rn_readerDone s" "s' = s\<lparr>rn_readFinished := True\<rparr>"
  | (consumer_first) r where "rn_main s = Selecting" "rn_consumer s = ConsumerDone r"
      "s' = drain (errors_of r) (s\<lparr>rn_consumeFinished := True\<rparr>)"
  | (consumer) r where "rn_main s = Draining" "rn_consumer s = ConsumerDone r"
      "s' = s\<lparr>rn_consumeFinished := True, rn_result := rn_result s @ errors_of r\<rparr>"
  | (consumer_late) r where "rn_main s = Joining" "rn_consumer s = ConsumerDone r" "s' = s\<lparr>rn_consumeFinished := True\<rparr>"
  | (deadline) "rn_main s = Draining" "s' = s\<lparr>rn_timedOut := True, rn_stopConsumer := True, rn_main := Joining\<rparr>"
  | (drained) "rn_main s = Draining \<or> rn_main s = Joining" "both_finished s" "s' = drain_done s"
  | (closed) "rn_main s = ClosingDelivery" "delivery_closed s = Some s'"
  | (stopped) failed where "rn_main s = StoppingServers"
      "s' = s\<lparr>rn_running := False, rn_main := Returned, rn_result := rn_result s @ (if failed then [ServerEnded] else [])\<rparr>"
proof (cases m)
  case SeeCaller
  then show thesis using assms caller by (cases "rn_main s") (simp_all add: main_step_def split: if_splits)
next
  case SeeServer
  then show thesis using assms server by (cases "rn_main s") (simp_all add: main_step_def)
next
  case SeeReader
  with assms have "main_step SeeReader s = Some s'" by simp
  from sees_reader [OF this] obtain e where e: "ss_place (rn_session s) = Done e" "rn_readerDone s"
    and "rn_main s = Selecting \<and> s' = drain [ReaderEnded e] (s\<lparr>rn_readFinished := True\<rparr>) \<or>
      rn_main s = Draining \<and> s' = s\<lparr>rn_readFinished := True,
        rn_result := rn_result s @ (if e = Reader_Session.ContextEnded \<and> \<not> rn_expired s then [] else [ReaderEnded e])\<rparr> \<or>
      rn_main s = Joining \<and> s' = s\<lparr>rn_readFinished := True\<rparr>" by blast
  then show thesis
    by (elim disjE conjE) ((rule reader_first [OF _ e] reader [OF _ e] reader_late [OF _ e(2)]; assumption)+)
next
  case SeeConsumer
  with assms have "main_step SeeConsumer s = Some s'" by simp
  from sees_consumer [OF this] obtain r where r: "rn_consumer s = ConsumerDone r"
    and "rn_main s = Selecting \<and> s' = drain (errors_of r) (s\<lparr>rn_consumeFinished := True\<rparr>) \<or>
      rn_main s = Draining \<and> s' = s\<lparr>rn_consumeFinished := True, rn_result := rn_result s @ errors_of r\<rparr> \<or>
      rn_main s = Joining \<and> s' = s\<lparr>rn_consumeFinished := True\<rparr>" by blast
  then show thesis
    by (elim disjE conjE) ((rule consumer_first [OF _ r] consumer [OF _ r] consumer_late [OF _ r]; assumption)+)
next
  case DeadlineFires
  then show thesis using assms deadline by (cases "rn_main s") (simp_all add: main_step_def split: if_splits)
next
  case DrainDone
  then show thesis using assms drained by (cases "rn_main s") (simp_all add: main_step_def split: if_splits)
next
  case DeliveryClosed
  then show thesis using assms closed by (cases "rn_main s") (simp_all add: main_step_def)
next
  case (ServersStopped failed)
  then show thesis using assms stopped [of failed] by (cases "rn_main s") (simp_all add: main_step_def)
qed

lemma on_delivery_id: "on_delivery (\<lambda>d. d) t = t"
  by (simp add: on_delivery_def option.map_ident)

lemma delivery_closed_frame:
  assumes "delivery_closed s = Some s'"
  obtains errs g where "s' = on_delivery g (s\<lparr>rn_main := StoppingServers, rn_result := rn_result s @ errs\<rparr>)"
    "case app_delivery s of None \<Rightarrow> errs = [] | Some d \<Rightarrow> close_ready d \<and> g = (\<lambda>_. snd (close_finish d)) \<and>
      errs = (if fst (close_finish d) = [] then [] else [ErrUndelivered (fst (close_finish d))])"
proof (cases "app_delivery s")
  case None
  then show thesis using that [of "\<lambda>d. d" "[]"] assms by (simp add: delivery_closed_def on_delivery_id)
next
  case (Some d)
  then show thesis
    using that [of "\<lambda>_. snd (close_finish d)" "if fst (close_finish d) = [] then [] else [ErrUndelivered (fst (close_finish d))]"] assms
    by (auto simp: delivery_closed_def split: if_splits prod.splits)
qed

lemma main_step_inv:
  assumes inv: "run_inv s" and step: "main_step m s = Some s'"
  shows "run_inv s'"
  using step
proof (cases rule: main_step_cases)
  case caller
  then show ?thesis using inv drain_inv [OF inv] by (auto simp: run_inv_def main_inv_def)
next
  case server
  then show ?thesis using inv drain_inv [OF inv] by (auto simp: run_inv_def main_inv_def)
next
  case (reader_first e)
  then show ?thesis using inv session_cancelled [of "rn_session s"] by (auto simp: drain_def run_inv_defs main_inv_def)
next
  case (reader e)
  then show ?thesis using inv by (auto simp: run_inv_defs main_inv_def)
next
  case reader_late
  then show ?thesis using inv by (auto simp: run_inv_defs main_inv_def)
next
  case (consumer_first r)
  then show ?thesis using inv session_cancelled [of "rn_session s"] by (auto simp: drain_def run_inv_defs main_inv_def)
next
  case (consumer r)
  then show ?thesis using inv by (auto simp: run_inv_defs main_inv_def)
next
  case (consumer_late r)
  then show ?thesis using inv by (auto simp: run_inv_defs main_inv_def)
next
  case deadline
  then show ?thesis using inv by (auto simp: run_inv_defs main_inv_def)
next
  case drained
  have run: "rn_running s" "rn_draining s" using inv drained(1) by (auto simp: run_inv_def main_inv_def)
  have "\<exists>r. rn_consumer s = ConsumerDone r" using inv drained(2) by (auto simp: run_inv_defs both_finished_def)
  then obtain r where r: "rn_consumer s = ConsumerDone r" ..
  have lost: "rn_queue s \<noteq> [] \<longrightarrow> rn_consumerFailed s \<or> rn_timedOut s"
    using inv r by (cases r) (auto simp: run_inv_defs split: if_splits)
  show ?thesis using drained inv r run lost
    by (cases r) (auto simp: drain_done_def run_inv_defs main_inv_def both_finished_def split: if_splits)
next
  case closed
  from closed(2) obtain errs g where "s' = on_delivery g (s\<lparr>rn_main := StoppingServers, rn_result := rn_result s @ errs\<rparr>)"
    by (rule delivery_closed_frame)
  moreover have "run_inv (s\<lparr>rn_main := StoppingServers, rn_result := rn_result s @ errs\<rparr>)"
    using inv closed(1) by (auto simp: run_inv_defs main_inv_def both_finished_def)
  ultimately show ?thesis by simp
next
  case (stopped failed)
  then show ?thesis using inv by (auto simp: run_inv_defs main_inv_def both_finished_def)
qed

lemma app_step_inv:
  assumes "run_inv s" "app_step s s'"
  shows "run_inv s'"
  using assms(2)
proof (cases rule: app_step.cases)
  case (begins listening)
  then show ?thesis using begin_inv [OF assms(1)] by simp
next
  case cancels
  then show ?thesis using cancel_inv [OF assms(1)] by simp
next
  case (reads a r)
  then show ?thesis using read_inv [OF assms(1)] by simp
next
  case (hands r)
  then show ?thesis using hand_inv [OF assms(1)] by simp
next
  case (reader_returns e)
  then show ?thesis using reader_returns_inv [OF assms(1)] by simp
next
  case (consumes a)
  then show ?thesis using consume_inv [OF assms(1)] by simp
next
  case (runs m)
  then show ?thesis using main_step_inv [OF assms(1)] by simp
qed (use assms(1) in simp_all)

lemma NewApp_inv:
  assumes "NewApp port split ip join maxSocketPath c a = Inr s"
  shows "run_inv s \<and> rn_main s = NotStarted \<and> rn_config s = c \<and> rn_data s = as_Consumer a \<and> rn_table s = as_Subscriptions a"
proof -
  obtain session' where s: "NewSession port (ap_Reader c) = Some session'" "ap_QueueCapacity c \<ge> 1"
    "s = \<lparr>rn_config = c, rn_main = NotStarted, rn_cancelled = False, rn_expired = False, rn_session = session', rn_readerDone = False,
                 rn_readFinished = False, rn_queue = [], rn_consumer = Awaiting, rn_consumeFinished = False,
                 rn_stopConsumer = False, rn_timedOut = False, rn_data = as_Consumer a, rn_table = as_Subscriptions a,
                 rn_running = False, rn_draining = False, rn_consumerFailed = False, rn_processed = 0, rn_abandoned = 0,
                 rn_result = [], gh_consumed = [], gh_abandoned = []\<rparr>"
    using assms by (auto simp: NewApp_def app_Validate_def Let_def split: option.splits if_splits)
  then have "h_out session' = []" by (auto simp: NewSession_def split: if_splits)
  then show ?thesis using s(2) session_reachable.new [OF s(1)] by (simp add: s(3) run_inv_defs main_inv_def idle_def)
qed

lemma app_reachable_inv: "app_reachable w f c s \<Longrightarrow> run_inv s"
  by (induction rule: app_reachable.induct) (use NewApp_inv app_step_inv in blast)+

section \<open>The invariant: what Run returns\<close>

definition result_inv :: "app \<Rightarrow> bool" where
  "result_inv s \<longleftrightarrow>
     (rn_timedOut s \<longrightarrow> rn_main s = Joining \<or> ErrDrainDeadline \<in> set (rn_result s)) \<and>
     (\<forall>e. rn_consumeFinished s \<longrightarrow> \<not> rn_timedOut s \<longrightarrow> rn_consumer s = ConsumerDone (Some e) \<longrightarrow> e \<in> set (rn_result s)) \<and>
     (\<forall>e. rn_readFinished s \<longrightarrow> \<not> rn_timedOut s \<longrightarrow> ss_place (rn_session s) = Done e \<longrightarrow>
        e = Reader_Session.ContextEnded \<and> \<not> rn_expired s \<or> ReaderEnded e \<in> set (rn_result s))"

lemma result_inv_frame [simp]:
  "result_inv (s\<lparr>rn_table := t\<rparr>) = result_inv s" "result_inv (on_delivery g s) = result_inv s"
  "result_inv (s\<lparr>rn_readerDone := v\<rparr>) = result_inv s"
  by (simp_all add: result_inv_def)

lemma result_inv_session:
  assumes "result_inv s" "run_inv s" "\<And>e. ss_place (rn_session s) = Done e \<Longrightarrow> ss_place (rn_session s') = Done e"
    "rn_timedOut s' = rn_timedOut s" "rn_main s' = rn_main s" "rn_result s' = rn_result s"
    "rn_readFinished s \<longrightarrow> rn_expired s' = rn_expired s" "rn_consumeFinished s' = rn_consumeFinished s" "rn_consumer s' = rn_consumer s" "rn_readFinished s' = rn_readFinished s"
  shows "result_inv s'"
proof (cases "rn_readFinished s")
  case True
  then obtain e where "ss_place (rn_session s) = Done e" using assms(2) by (auto simp: run_inv_defs)
  with assms(3) have "ss_place (rn_session s') = ss_place (rn_session s)" by simp
  moreover have "rn_expired s' = rn_expired s" using True assms(7) by blast
  ultimately show ?thesis using assms(1,4-6,8-) by (simp only: result_inv_def)
next
  case False
  then show ?thesis using assms(1,4-) by (simp add: result_inv_def)
qed

lemma main_step_result:
  assumes inv: "run_inv s" and res: "result_inv s" and step: "main_step m s = Some s'"
  shows "result_inv s'"
proof -
  have phase: "rn_main s = Selecting \<or> rn_main s = Draining \<Longrightarrow> \<not> rn_timedOut s" "rn_main s = Joining \<Longrightarrow> rn_timedOut s"
    "rn_main s = Selecting \<Longrightarrow> \<not> rn_readFinished s \<and> \<not> rn_consumeFinished s"
    using inv by (auto simp: run_inv_def main_inv_def)
  from step show ?thesis
  proof (cases rule: main_step_cases)
    case (consumer_first r)
    then show ?thesis using phase res by (cases r) (auto simp: result_inv_def drain_def errors_of_def)
  next
    case (consumer r)
    then show ?thesis using phase res by (cases r) (auto simp: result_inv_def errors_of_def)
  next
    case closed
    from closed(2) obtain errs g where "s' = on_delivery g (s\<lparr>rn_main := StoppingServers, rn_result := rn_result s @ errs\<rparr>)"
      by (rule delivery_closed_frame)
    then show ?thesis using res closed(1) by (auto simp: result_inv_def)
  qed (use phase res in \<open>auto simp: result_inv_def drain_def drain_done_def\<close>)
qed

lemma app_step_result:
  assumes inv: "run_inv s" and res: "result_inv s" and step: "app_step s s'"
  shows "result_inv s'"
  using step
proof (cases rule: app_step.cases)
  case (begins listening)
  then have "idle s" using inv by (simp add: run_inv_def main_inv_def)
  then show ?thesis using begins by (auto simp: app_begin_def result_inv_def idle_def)
next
  case cancels
  have "rn_readFinished s \<longrightarrow> ss_cancelled (rn_session s)"
    using inv by (cases "rn_main s") (auto simp: run_inv_defs main_inv_def idle_def both_finished_def split: if_splits)
  then show ?thesis using cancels by (intro result_inv_session [OF res inv]) (simp_all add: caller_cancels_def)
next
  case (reads a r)
  then show ?thesis using session_own_out [OF reads(4,3)] by (intro result_inv_session [OF res inv]) simp_all
next
  case (hands r)
  then have "\<forall>e. ss_place (rn_session s) \<noteq> Done e" by (auto elim: session_taken)
  then show ?thesis using hands(1) by (intro result_inv_session [OF res inv]) (simp_all add: hand_to_queue_def)
next
  case (consumes a)
  have "\<not> rn_consumeFinished s" using consume_frame(7) [OF consumes(2)] inv by (simp add: run_inv_defs)
  moreover have "rn_session s' = rn_session s" "rn_result s' = rn_result s" "rn_expired s' = rn_expired s" using consumes(2)
    by (auto simp: consume_step_def split: consumer_event.splits consumer_place.splits list.splits if_splits prod.splits)
  ultimately show ?thesis using res consume_frame [OF consumes(2)] by (simp add: result_inv_def)
next
  case (runs m)
  then show ?thesis using main_step_result [OF inv res] by simp
qed (use res in simp_all)

section \<open>The invariant: why a session is cancelled\<close>

definition cause_inv :: "app \<Rightarrow> bool" where
  "cause_inv s \<longleftrightarrow>
     (ss_cancelled (rn_session s) \<longrightarrow> rn_cancelled s \<or> rn_draining s) \<and>
     (rn_draining s \<longrightarrow> CallerCancelled \<in> set (rn_result s) \<or> ServerEnded \<in> set (rn_result s) \<or>
        (\<exists>x. ConsumeFailed x \<in> set (rn_result s)) \<or> ReaderEnded Reader_Session.ContextEnded \<in> set (rn_result s) \<or>
        (\<exists>e. ss_place (rn_session s) = Done e \<and> e \<noteq> Reader_Session.ContextEnded) \<or>
        rn_cancelled s \<and> rn_consumer s = ConsumerDone None)"

lemma cause_inv_frame [simp]:
  "cause_inv (s\<lparr>rn_table := t\<rparr>) = cause_inv s" "cause_inv (on_delivery g s) = cause_inv s"
  "cause_inv (s\<lparr>rn_readerDone := v\<rparr>) = cause_inv s"
  by (simp_all add: cause_inv_def)

lemma cause_inv_session:
  assumes "cause_inv s" "\<And>e. ss_place (rn_session s) = Done e \<Longrightarrow> ss_place (rn_session s') = Done e"
    "rn_draining s' = rn_draining s" "rn_result s' = rn_result s" "rn_consumer s' = rn_consumer s"
    "rn_cancelled s \<longrightarrow> rn_cancelled s'" "ss_cancelled (rn_session s') \<longrightarrow> ss_cancelled (rn_session s) \<or> rn_cancelled s'"
  shows "cause_inv s'"
  using assms unfolding cause_inv_def by metis

lemma reader_cause:
  assumes "run_inv s" "cause_inv s" "\<not> rn_draining s" "ss_place (rn_session s) = Done Reader_Session.ContextEnded"
  shows "rn_cancelled s"
proof -
  have "session_inv (rn_session s)" using assms(1) session_reachable_inv by (simp add: run_inv_defs)
  then have "ss_cancelled (rn_session s)" using assms(4) by (simp add: session_inv_def place_inv_def ended_def Let_def)
  then show ?thesis using assms(2,3) by (simp add: cause_inv_def)
qed

lemma main_step_cause:
  assumes inv: "run_inv s" and cause: "cause_inv s" and step: "main_step m s = Some s'"
  shows "cause_inv s'"
proof -
  have selecting: "rn_main s = Selecting \<Longrightarrow> \<not> rn_draining s \<and> \<not> rn_timedOut s" using inv by (auto simp: run_inv_def main_inv_def)
  from step show ?thesis
  proof (cases rule: main_step_cases)
    case (reader_first e)
    then show ?thesis by (cases "e = Reader_Session.ContextEnded") (simp_all add: cause_inv_def drain_def)
  next
    case (consumer_first r)
    show ?thesis
    proof (cases r)
      case None
      then obtain e where "ss_place (rn_session s) = Done e" using inv consumer_first by (auto simp: run_inv_defs)
      then show ?thesis using reader_cause [OF inv cause] selecting consumer_first None
        by (cases "e = Reader_Session.ContextEnded") (simp_all add: cause_inv_def drain_def)
    next
      case (Some e)
      then have "\<exists>x. e = ConsumeFailed x" using inv selecting consumer_first by (auto simp: run_inv_defs split: if_splits)
      then show ?thesis using consumer_first Some by (auto simp: cause_inv_def drain_def errors_of_def)
    qed
  next
    case closed
    from closed(2) obtain errs g where "s' = on_delivery g (s\<lparr>rn_main := StoppingServers, rn_result := rn_result s @ errs\<rparr>)"
      by (rule delivery_closed_frame)
    then show ?thesis using cause by (auto simp: cause_inv_def)
  qed (use cause in \<open>auto simp: cause_inv_def drain_def drain_done_def\<close>)
qed

lemma app_step_cause:
  assumes inv: "run_inv s" and cause: "cause_inv s" and step: "app_step s s'"
  shows "cause_inv s'"
  using step
proof (cases rule: app_step.cases)
  case (begins listening)
  then have "\<not> rn_draining s" using inv by (simp add: run_inv_def main_inv_def idle_def)
  then show ?thesis using begins cause by (auto simp: app_begin_def cause_inv_def)
next
  case (cancels expired)
  then show ?thesis by (intro cause_inv_session [OF cause]) (simp_all add: caller_cancels_def)
next
  case (reads a r)
  then show ?thesis using session_own_out [OF reads(4,3)] by (intro cause_inv_session [OF cause]) simp_all
next
  case (hands r)
  from hands(3) obtain ob obs where "ss_place (rn_session s) = Handing (ob # obs)" "ss_cancelled r = ss_cancelled (rn_session s)"
    by (rule session_taken)
  then show ?thesis using hands(1) by (intro cause_inv_session [OF cause]) (simp_all add: hand_to_queue_def)
next
  case (consumes a)
  have "rn_session s' = rn_session s \<and> rn_result s' = rn_result s \<and> rn_cancelled s' = rn_cancelled s" using consumes(2)
    by (auto simp: consume_step_def split: consumer_event.splits consumer_place.splits list.splits if_splits prod.splits)
  then show ?thesis using cause consume_frame(3,7) [OF consumes(2)] by (auto simp: cause_inv_def)
next
  case (runs m)
  then show ?thesis using main_step_cause [OF inv cause] by simp
qed (use cause in simp_all)

lemma app_reachable_cause: "app_reachable w f c s \<Longrightarrow> cause_inv s"
proof (induction rule: app_reachable.induct)
  case (new a port split ip join maxSocketPath s)
  then have "\<not> rn_draining s \<and> \<not> ss_cancelled (rn_session s)"
    by (auto simp: NewApp_def NewSession_def Let_def split: option.splits if_splits)
  then show ?case by (simp add: cause_inv_def)
next
  case (step s s')
  then show ?case using app_step_cause app_reachable_inv by blast
qed

section \<open>The invariant: the delivery\<close>

definition quiet :: "dispatcher \<Rightarrow> bool" where
  "quiet d \<longleftrightarrow> list_all (\<lambda>l. ln_queue l = [] \<and> (ln_phase l = Finished \<or> ln_phase l = Unstarted)) (d_lanes d)"

definition undelivered :: "dispatcher \<Rightarrow> (string \<times> u64) list" where
  "undelivered d = map (\<lambda>l. (ln_name l, ln_undelivered l)) (filter (\<lambda>l. ln_undelivered l > 0) (d_lanes d))"

definition closed_out :: "dispatcher \<Rightarrow> run_error list \<Rightarrow> bool" where
  "closed_out d result \<longleftrightarrow> quiet d \<and> (undelivered d = [] \<or> ErrUndelivered (undelivered d) \<in> set result)"

definition delivery_inv :: "app \<Rightarrow> bool" where
  "delivery_inv s \<longleftrightarrow>
     (\<forall>d. app_delivery s = Some d \<longrightarrow> reachable d \<and>
        (case rn_main s of
           NotStarted \<Rightarrow> \<not> d_closed d
         | ClosingDelivery \<Rightarrow> d_started d \<and> d_closed d
         | StoppingServers \<Rightarrow> d_started d \<and> closed_out d (rn_result s)
         | Returned \<Rightarrow> rn_draining s \<longrightarrow> closed_out d (rn_result s)
         | _ \<Rightarrow> d_started d \<and> \<not> d_closed d))"

lemma app_delivery_frame [simp]:
  "app_delivery (s\<lparr>rn_session := r\<rparr>) = app_delivery s" "app_delivery (s\<lparr>rn_table := t\<rparr>) = app_delivery s"
  "app_delivery (s\<lparr>rn_readerDone := v\<rparr>) = app_delivery s" "app_delivery (s\<lparr>rn_readFinished := v\<rparr>) = app_delivery s"
  "app_delivery (s\<lparr>rn_consumeFinished := v\<rparr>) = app_delivery s" "app_delivery (s\<lparr>rn_result := x\<rparr>) = app_delivery s"
  "app_delivery (s\<lparr>rn_main := p\<rparr>) = app_delivery s" "app_delivery (s\<lparr>rn_running := v\<rparr>) = app_delivery s"
  "app_delivery (s\<lparr>rn_cancelled := v\<rparr>) = app_delivery s" "app_delivery (s\<lparr>rn_expired := v\<rparr>) = app_delivery s" "app_delivery (s\<lparr>rn_timedOut := v\<rparr>) = app_delivery s"
  "app_delivery (s\<lparr>rn_stopConsumer := v\<rparr>) = app_delivery s" "app_delivery (s\<lparr>rn_queue := q\<rparr>) = app_delivery s"
  "app_delivery (s\<lparr>rn_consumer := k\<rparr>) = app_delivery s" "app_delivery (s\<lparr>rn_draining := v\<rparr>) = app_delivery s"
  "app_delivery (s\<lparr>rn_abandoned := n\<rparr>) = app_delivery s" "app_delivery (s\<lparr>gh_abandoned := q\<rparr>) = app_delivery s"
  by (simp_all add: app_delivery_def)

lemma delivery_inv_cong:
  assumes "delivery_inv s" "app_delivery s' = app_delivery s" "rn_main s' = rn_main s" "rn_result s' = rn_result s"
    "rn_draining s' = rn_draining s"
  shows "delivery_inv s'"
  using assms by (simp only: delivery_inv_def)

text \<open>Processing enqueues, and does nothing else to the dispatcher.\<close>

lemma enqueue_events_reachable:
  "reachable d \<Longrightarrow> reachable (enqueue_events base f ns d) \<and> d_closed (enqueue_events base f ns d) = d_closed d \<and>
     d_started (enqueue_events base f ns d) = d_started d"
proof (induction ns arbitrary: d)
  case (Cons n ns)
  have "reachable (snd (Enqueue n e d))" for e using Cons.prems by (rule reachable.next_state) (rule dispatcher_step.enqueue)
  moreover have "d_closed (snd (Enqueue n e d)) = d_closed d \<and> d_started (snd (Enqueue n e d)) = d_started d" for e
    by (simp add: Enqueue_def split: option.split)
  ultimately show ?case using Cons.IH by (simp add: enqueue_events_def)
qed (simp add: enqueue_events_def)

lemma Process_delivery:
  assumes "Process over ob tr sn p = (err, p')"
  obtains "pr_delivery p' = pr_delivery p" | base f ns where "pr_delivery p' = map_option (enqueue_events base f ns) (pr_delivery p)"
  using assms by (auto simp: Process_def Let_def split: if_splits option.splits prod.splits)

lemma Consume_delivery:
  assumes "Consume over ob sn c = (err, c')" "Option.bind (cn_processor c') pr_delivery = Some d'"
  obtains "Option.bind (cn_processor c) pr_delivery = Some d'"
    | base f ns d where "Option.bind (cn_processor c) pr_delivery = Some d" "d' = enqueue_events base f ns d"
proof (cases "cn_processor c' = cn_processor c")
  case False
  then obtain tr p p' err' where p: "cn_processor c = Some p" "Process over ob tr sn p = (err', p')" "cn_processor c' = Some p'"
    using assms(1) by (auto simp: Consume_def Let_def split: sum.splits option.splits prod.splits if_splits)
  from p(2) show thesis by (rule Process_delivery) (use that p assms(2) in auto)
qed (use that assms(2) in simp)

lemma consume_delivery:
  assumes inv: "delivery_inv s" and main: "rn_main s \<in> {Selecting, Draining, Joining}" and step: "consume_step a s = Some s'"
  shows "delivery_inv s'"
proof (cases "rn_data s' = rn_data s")
  case True
  then have "app_delivery s' = app_delivery s" by (simp add: app_delivery_def)
  moreover have "rn_result s' = rn_result s" using step
    by (auto simp: consume_step_def split: consumer_event.splits consumer_place.splits list.splits if_splits prod.splits)
  ultimately show ?thesis using delivery_inv_cong [OF inv] consume_frame [OF step] by simp
next
  case False
  then obtain over ob err where c: "Consume over ob (tb_current (rn_table s)) (rn_data s) = (err, rn_data s')" using step
    by (auto simp: consume_step_def split: consumer_event.splits consumer_place.splits list.splits if_splits prod.splits)
  have "reachable d \<and> d_started d \<and> \<not> d_closed d" if "app_delivery s' = Some d" for d
  proof -
    have before: "reachable d \<and> d_started d \<and> \<not> d_closed d" if "app_delivery s = Some d" for d
      using inv main that by (auto simp: delivery_inv_def)
    from c \<open>app_delivery s' = Some d\<close> [unfolded app_delivery_def] show ?thesis
      by (rule Consume_delivery) (use before enqueue_events_reachable in \<open>auto simp flip: app_delivery_def\<close>)
  qed
  then show ?thesis using main consume_frame(1) [OF step] by (auto simp: delivery_inv_def)
qed

lemma close_finish_out:
  "close_ready d \<Longrightarrow> dispatcher_inv d \<Longrightarrow> quiet (snd (close_finish d)) \<and> fst (close_finish d) = undelivered (snd (close_finish d))"
  by (auto simp: close_finish_def quiet_def undelivered_def close_ready_def dispatcher_inv_def list_all_iff Let_def)

lemma quiet_stays: "quiet d \<Longrightarrow> \<not> worker_moves d d'"
proof
  assume "quiet d" "worker_moves d d'"
  from this(2) obtain i a r where i: "i < length (d_lanes d)"
    "worker_step (d_config d) (d_instance d) (d_closed d) (d_aborted d) a (d_batches d, d_lanes d ! i) = Some r"
    by (auto elim!: worker_movesE)
  then have "ln_phase (d_lanes d ! i) = Finished \<or> ln_phase (d_lanes d ! i) = Unstarted"
    using \<open>quiet d\<close> by (simp add: quiet_def list_all_length)
  then show False using i(2) by (cases a) (auto simp: worker_step_def)
qed

lemma delivery_drain: "delivery_inv s \<Longrightarrow> rn_main s = Selecting \<Longrightarrow> delivery_inv (drain errs s)"
  by (simp add: delivery_inv_def drain_def)

lemma app_delivery_drain [simp]:
  "app_delivery (drain errs s) = app_delivery s" "app_delivery (drain_done s) = map_option close_begin (app_delivery s)"
  by (simp_all add: drain_def drain_done_def)

lemma main_step_delivery:
  assumes run: "run_inv s" and inv: "delivery_inv s" and step: "main_step m s = Some s'"
  shows "delivery_inv s'"
  using step
proof (cases rule: main_step_cases)
  case drained
  then show ?thesis using inv
    by (auto simp: delivery_inv_def drain_done_def close_begin_def [symmetric]
        intro: reachable.next_state [OF _ dispatcher_step.close]) (simp_all add: close_begin_def)
next
  case closed
  from closed(2) obtain errs g where s': "s' = on_delivery g (s\<lparr>rn_main := StoppingServers, rn_result := rn_result s @ errs\<rparr>)"
    and g: "case app_delivery s of None \<Rightarrow> errs = [] | Some d \<Rightarrow> close_ready d \<and> g = (\<lambda>_. snd (close_finish d)) \<and>
      errs = (if fst (close_finish d) = [] then [] else [ErrUndelivered (fst (close_finish d))])"
    by (rule delivery_closed_frame)
  show ?thesis
  proof (cases "app_delivery s")
    case (Some d)
    then have d: "close_ready d" "g = (\<lambda>_. snd (close_finish d))" "reachable d" "d_started (snd (close_finish d))"
      "errs = (if fst (close_finish d) = [] then [] else [ErrUndelivered (fst (close_finish d))])"
      using g inv closed(1) by (simp_all add: delivery_inv_def) (simp add: close_finish_def Let_def)
    have "reachable (snd (close_finish d))" using d by (intro reachable.next_state [OF _ dispatcher_step.finish])
    with close_finish_out [OF d(1) reachable_inv [OF d(3)]] show ?thesis
      by (simp add: delivery_inv_def s' Some d(2,4) closed_out_def) (simp add: d(5))
  qed (simp add: delivery_inv_def s')
next
  case (stopped failed)
  have "rn_draining s" using run stopped by (simp add: run_inv_def main_inv_def)
  then show ?thesis using inv stopped by (auto simp: delivery_inv_def closed_out_def)
qed (use inv delivery_drain in \<open>simp_all add: delivery_inv_def drain_def\<close>)

lemma app_step_delivery:
  assumes run: "run_inv s" and inv: "delivery_inv s" and step: "app_step s s'"
  shows "delivery_inv s'"
  using step
proof (cases rule: app_step.cases)
  case (begins listening)
  moreover have "\<not> rn_draining s" using begins run by (simp add: run_inv_def main_inv_def idle_def)
  ultimately show ?thesis using inv
    by (auto simp: delivery_inv_def app_begin_def intro: reachable.next_state [OF _ dispatcher_step.start])
      (simp_all add: Start_def split: if_splits)
next
  case cancels
  then show ?thesis by (intro delivery_inv_cong [OF inv]) (simp_all add: caller_cancels_def)
next
  case (hands r)
  then show ?thesis by (intro delivery_inv_cong [OF inv]) (simp_all add: hand_to_queue_def)
next
  case (consumes a)
  have "\<not> rn_consumeFinished s" using consume_frame(7) [OF consumes(2)] run by (simp add: run_inv_defs)
  then have "rn_main s \<in> {Selecting, Draining, Joining}" using reading_phase [OF run consumes(1)] by simp
  then show ?thesis by (rule consume_delivery [OF inv _ consumes(2)])
next
  case (runs m)
  then show ?thesis using main_step_delivery [OF run inv] by simp
next
  case (delivers d d')
  then have "reachable d'" "d_closed d' = d_closed d" "d_started d' = d_started d" "\<not> quiet d"
    using inv worker_moves_flags [OF delivers(3)] quiet_stays
    by (auto simp: delivery_inv_def intro: reachable.next_state dispatcher_step.worker)
  then show ?thesis using inv delivers(1,2) by (auto simp: delivery_inv_def closed_out_def split: main_place.splits)
next
  case aborts
  then show ?thesis using inv
    by (auto simp: delivery_inv_def intro: reachable.next_state [OF _ dispatcher_step.deadline]) (simp_all add: close_deadline_def)
qed (use delivery_inv_cong [OF inv] in simp_all)

definition app_inv :: "app \<Rightarrow> bool" where
  "app_inv s \<longleftrightarrow> run_inv s \<and> result_inv s \<and> delivery_inv s"

lemma app_inv_step: "app_step s s' \<Longrightarrow> app_inv s \<Longrightarrow> app_inv s'"
  unfolding app_inv_def by (blast intro: app_step_inv app_step_result app_step_delivery)

lemma app_inv_steps: "app_step\<^sup>*\<^sup>* s s' \<Longrightarrow> app_inv s \<Longrightarrow> app_inv s'"
  by (induction rule: rtranclp_induct) (auto intro: app_inv_step)

lemma Pipeline_delivery:
  assumes "Pipeline w f c = Inr a" "is_int64 (BackoffMax (ReportConfig f))" "as_Delivery a = Some d"
  shows "reachable d \<and> \<not> d_closed d"
proof -
  from Pipeline_Inr [OF assms(1)] have "pipeline_delivery w f = Inr (Some d, as_Reporters a)" using assms(3) by metis
  then obtain built where "(case NewDispatcher (ReportConfig f) (map fst built) (sr_dispatcher w) of
      Inl _ \<Rightarrow> Inl ReportRefused | Inr d \<Rightarrow> Inr (Some d, map snd built)) = Inr (Some d, as_Reporters a)"
    by (auto simp: pipeline_delivery_def simp del: sum.case split: if_splits)
  then have n: "NewDispatcher (ReportConfig f) (map fst built) (sr_dispatcher w) = Inr d"
    by (cases "NewDispatcher (ReportConfig f) (map fst built) (sr_dispatcher w)") auto
  then have "\<not> d_closed d" by (auto simp: NewDispatcher_def Let_def)
  with reachable.new [OF n assms(2)] show ?thesis by simp
qed

lemma NewApp_app_inv:
  assumes "Pipeline w f c = Inr a" "is_int64 (BackoffMax (ReportConfig f))" "NewApp port split ip join maxSocketPath c a = Inr s"
  shows "app_inv s"
proof -
  note new = NewApp_inv [OF assms(3)]
  then have "idle s" by (auto simp: run_inv_def main_inv_def)
  with new have "result_inv s" by (simp add: result_inv_def idle_def)
  moreover have "app_delivery s = as_Delivery a"
    using new Pipeline_ok [OF assms(1)] by (auto simp: app_delivery_def assembly_ok_def)
  then have "delivery_inv s" using new Pipeline_delivery [OF assms(1,2)] by (simp add: delivery_inv_def)
  ultimately show ?thesis using new by (simp add: app_inv_def)
qed

lemma app_reachable_app_inv: "app_reachable w f c s \<Longrightarrow> app_inv s"
  by (induction rule: app_reachable.induct) (blast intro: NewApp_app_inv app_inv_step)+

text \<open>A lane whose worker is done and whose queue is empty has settled what it accepted.\<close>

lemma quiet_lane_settled:
  assumes "reachable d" "quiet d" "l \<in> set (d_lanes d)"
  shows "in_flight l = [] \<and> map fst (h_settled l) = h_accepted l \<and> ln_enqueued l = ln_delivered l + ln_failed l + ln_undelivered l"
proof -
  have "in_flight l = []" using assms reachable_lane [OF assms(1,3)]
    by (auto simp: quiet_def list_all_iff in_flight_def pending_kont lane_inv_def hand_ok_def pending_def)
  with lane_accounts [OF assms(1,3)] show ?thesis by simp
qed

section \<open>Facts: Run can always return\<close>

definition aside :: "app \<Rightarrow> app \<Rightarrow> bool" where
  "aside s s' \<longleftrightarrow> rn_main s' = rn_main s \<and> rn_running s' = rn_running s \<and> rn_readFinished s' = rn_readFinished s \<and>
     rn_consumeFinished s' = rn_consumeFinished s \<and> (ss_cancelled (rn_session s) \<longrightarrow> ss_cancelled (rn_session s'))"

lemma aside_trans: "aside s t \<Longrightarrow> aside t u \<Longrightarrow> aside s u"
  by (simp add: aside_def)

lemma cancelled_tail [simp]: "ss_cancelled r \<Longrightarrow> ss_place (run_tail e r) = Ending Reader_Session.ContextEnded"
  by (simp add: run_tail_def goto_def)

lemma cancelled_reader_moves:
  assumes "ss_cancelled r" "\<forall>obs. ss_place r \<noteq> Handing obs" "\<forall>e. ss_place r \<noteq> Done e"
  obtains a r' where "reader_own a" "session_step a r = Some r'" "(\<exists>e. ss_place r = Ending e \<and> ss_place r' = Done e) \<or>
    (\<forall>e. ss_place r \<noteq> Ending e) \<and> (\<exists>e. ss_place r' = Ending e)"
proof -
  let ?goal = "\<lambda>a. reader_own a \<and> (\<exists>r'. session_step a r = Some r' \<and> ((\<exists>e. ss_place r = Ending e \<and> ss_place r' = Done e) \<or>
    (\<forall>e. ss_place r \<noteq> Ending e) \<and> (\<exists>e. ss_place r' = Ending e)))"
  have "\<exists>a. ?goal a"
  proof (cases "ss_place r")
    case NotRun
    then have "?goal Begin" using assms(1) by (simp add: session_step_def reader_own_def run_head_def goto_def)
    then show ?thesis ..
  next
    case Dialing
    then have "?goal (Dialed (Some e))" for e using assms(1) by (simp add: session_step_def reader_own_def)
    then show ?thesis by blast
  next
    case Waiting
    then have "?goal ContextSeen" using assms(1) by (simp add: session_step_def reader_own_def goto_def)
    then show ?thesis ..
  next
    case (Ending e)
    then have "?goal Deferred" by (simp add: session_step_def reader_own_def finish_def goto_def Let_def)
    then show ?thesis ..
  next
    case (WriteAck i)
    then have "?goal (Wrote (Some e))" for e using assms(1) by (simp add: session_step_def reader_own_def)
    then show ?thesis by blast
  next
    case (WriteEarlyAck i)
    then have "?goal (Wrote (Some e))" for e using assms(1) by (simp add: session_step_def reader_own_def)
    then show ?thesis by blast
  next
    case WriteRequest
    then have "?goal (Wrote (Some e))" for e using assms(1) by (simp add: session_step_def reader_own_def)
    then show ?thesis by blast
  next
    case AwaitNotification
    then have "?goal (Read (Inl e) now)" for e now using assms(1) by (simp add: session_step_def reader_own_def)
    then show ?thesis by blast
  next
    case AwaitResponse
    then have "?goal (Read (Inl e) now)" for e now using assms(1) by (simp add: session_step_def reader_own_def)
    then show ?thesis by blast
  next
    case Reading
    then have "?goal (Read (Inl e) now)" for e now using assms(1) by (simp add: session_step_def reader_own_def)
    then show ?thesis by blast
  qed (use assms in auto)
  with that show thesis by blast
qed

lemma hands_on:
  assumes "rn_running s" "ss_cancelled (rn_session s)" "ss_place (rn_session s) = Handing (ob # obs)"
  shows "\<exists>s'. app_step s s' \<and> aside s s' \<and> (\<exists>e. ss_place (rn_session s') = Ending e)"
proof -
  define r where "r = (if app_room s
    then hand_over obs (update (\<lambda>v. v\<lparr>Observations := Observations v + 1\<rparr>) ((rn_session s)\<lparr>h_out := h_out (rn_session s) @ [ob]\<rparr>))
    else run_tail ErrBackpressure (update (\<lambda>v. v\<lparr>QueueOverflows := QueueOverflows v + 1\<rparr>) (rn_session s)))"
  have "session_step (Taken (app_room s)) (rn_session s) = Some r" using assms(3) by (simp add: session_step_def r_def)
  then have "app_step s (hand_to_queue r s)" by (rule app_step.hands [OF assms(1)])
  moreover have "ss_cancelled r" "\<exists>e. ss_place r = Ending e" using assms(2)
    by (auto simp: r_def hand_over_def serve_head_def update_def transition_def split: list.split)
  ultimately show ?thesis by (intro exI [of _ "hand_to_queue r s"]) (simp add: aside_def hand_to_queue_def)
qed

lemma reader_moves_on:
  assumes inv: "app_inv s" and run: "rn_running s" "ss_cancelled (rn_session s)" and busy: "\<forall>e. ss_place (rn_session s) \<noteq> Done e"
  shows "\<exists>s'. app_step s s' \<and> aside s s' \<and> ((\<exists>e. ss_place (rn_session s) = Ending e \<and> ss_place (rn_session s') = Done e) \<or>
    (\<exists>e. ss_place (rn_session s') = Ending e))"
proof (cases "\<exists>obs. ss_place (rn_session s) = Handing obs")
  case True
  have "session_inv (rn_session s)" using inv session_reachable_inv by (simp add: app_inv_def run_inv_defs)
  with True obtain ob obs where "ss_place (rn_session s) = Handing (ob # obs)"
    by (auto simp: session_inv_def place_inv_def Let_def neq_Nil_conv)
  from hands_on [OF run this] show ?thesis by blast
next
  case False
  then obtain a r' where r: "reader_own a" "session_step a (rn_session s) = Some r'"
    "(\<exists>e. ss_place (rn_session s) = Ending e \<and> ss_place r' = Done e) \<or> (\<exists>e. ss_place r' = Ending e)"
    using cancelled_reader_moves [OF run(2)] busy by metis
  then show ?thesis
    using app_step.reads [OF run(1) r(1,2)] session_own_out [OF r(2,1)] run
    by (intro exI [of _ "s\<lparr>rn_session := r'\<rparr>"]) (auto simp: aside_def)
qed

lemma reader_ends:
  assumes "app_inv s" "rn_running s" "ss_cancelled (rn_session s)"
  shows "\<exists>s'. app_step\<^sup>*\<^sup>* s s' \<and> aside s s' \<and> (\<exists>e. ss_place (rn_session s') = Done e)"
proof -
  have final: "\<exists>s'. app_step\<^sup>*\<^sup>* t s' \<and> aside t s' \<and> (\<exists>e. ss_place (rn_session s') = Done e)"
    if "app_inv t" "rn_running t" "ss_cancelled (rn_session t)" "ss_place (rn_session t) = Ending e" for t e
  proof -
    have "app_step t (t\<lparr>rn_session := finish e (rn_session t)\<rparr>)"
      by (rule app_step.reads [of _ Deferred]) (use that in \<open>simp_all add: reader_own_def session_step_def\<close>)
    then show ?thesis by (intro exI [of _ "t\<lparr>rn_session := finish e (rn_session t)\<rparr>"])
      (auto simp: aside_def finish_def goto_def Let_def transition_def update_def)
  qed
  show ?thesis
  proof (cases "\<exists>e. ss_place (rn_session s) = Done e")
    case False
    with reader_moves_on [OF assms] obtain t where t: "app_step s t" "aside s t"
      "(\<exists>e. ss_place (rn_session t) = Done e) \<or> (\<exists>e. ss_place (rn_session t) = Ending e)" by blast
    have *: "app_inv t" "rn_running t" "ss_cancelled (rn_session t)" using t(1,2) assms app_inv_step by (auto simp: aside_def)
    show ?thesis
    proof (cases "\<exists>e. ss_place (rn_session t) = Done e")
      case False
      then obtain e where "ss_place (rn_session t) = Ending e" using t(3) by blast
      from final [OF * this] t(1,2) show ?thesis by (meson aside_trans converse_rtranclp_into_rtranclp)
    qed (use t in blast)
  qed (auto simp: aside_def)
qed

lemma joining_reads:
  assumes "app_inv s" "rn_main s = Joining"
  shows "\<exists>s'. app_step\<^sup>*\<^sup>* s s' \<and> app_inv s' \<and> rn_main s' = Joining \<and> rn_readFinished s'"
proof (cases "rn_readFinished s")
  case False
  have run: "rn_running s" "ss_cancelled (rn_session s)" using assms by (auto simp: app_inv_def run_inv_defs main_inv_def)
  from reader_ends [OF assms(1) run] obtain t e where t: "app_step\<^sup>*\<^sup>* s t" "aside s t" "ss_place (rn_session t) = Done e" by blast
  have "app_step t (t\<lparr>rn_readerDone := True\<rparr>)" by (rule app_step.reader_returns [OF _ t(3)]) (use t run in \<open>simp add: aside_def\<close>)
  moreover have "main_step SeeReader (t\<lparr>rn_readerDone := True\<rparr>) = Some (t\<lparr>rn_readerDone := True, rn_readFinished := True\<rparr>)"
    using t False assms(2) by (simp add: main_step_def aside_def)
  then have "app_step (t\<lparr>rn_readerDone := True\<rparr>) (t\<lparr>rn_readerDone := True, rn_readFinished := True\<rparr>)" by (rule app_step.runs)
  ultimately have "app_step\<^sup>*\<^sup>* s (t\<lparr>rn_readerDone := True, rn_readFinished := True\<rparr>)" using t(1) by (meson rtranclp.rtrancl_into_rtrancl)
  then show ?thesis using app_inv_steps assms t(2) by (intro exI conjI) (assumption, blast, simp_all add: aside_def)
qed (use assms in blast)

lemma joining_consumes:
  assumes "app_inv s" "rn_main s = Joining" "rn_readFinished s"
  shows "\<exists>s'. app_step\<^sup>*\<^sup>* s s' \<and> app_inv s' \<and> rn_main s' = Joining \<and> both_finished s'"
proof (cases "rn_consumeFinished s")
  case False
  have run: "rn_running s" "rn_stopConsumer s" using assms by (auto simp: app_inv_def run_inv_defs main_inv_def)
  have "\<exists>t. app_step\<^sup>*\<^sup>* s t \<and> rn_main t = Joining \<and> rn_readFinished t \<and> \<not> rn_consumeFinished t \<and> (\<exists>r. rn_consumer t = ConsumerDone r)"
  proof (cases "rn_consumer s")
    case Awaiting
    then have "consume_step Stop s = Some (s\<lparr>rn_consumer := ConsumerDone (Some ConsumerStopped)\<rparr>)"
      using run by (simp add: consume_step_def)
    from app_step.consumes [OF run(1) this] show ?thesis using assms False by (intro exI conjI) (rule r_into_rtranclp, assumption, simp_all)
  next
    case (Consuming ob)
    then obtain t where t: "consume_step (Return True True) s = Some t" "\<exists>r. rn_consumer t = ConsumerDone r"
      by (cases "Consume True ob (tb_current (rn_table s)) (rn_data s)") (simp add: consume_step_def)
    from app_step.consumes [OF run(1) t(1)] show ?thesis using t(2) consume_frame [OF t(1)] assms False by (intro exI [of _ t]) auto
  qed (use assms False in blast)
  then obtain t r where t: "app_step\<^sup>*\<^sup>* s t" "rn_main t = Joining" "rn_readFinished t" "\<not> rn_consumeFinished t" "rn_consumer t = ConsumerDone r"
    by blast
  then have "main_step SeeConsumer t = Some (t\<lparr>rn_consumeFinished := True\<rparr>)" by (simp add: main_step_def)
  then have "app_step\<^sup>*\<^sup>* s (t\<lparr>rn_consumeFinished := True\<rparr>)" using t(1) app_step.runs by (meson rtranclp.rtrancl_into_rtrancl)
  then show ?thesis using app_inv_steps [OF _ assms(1)] t by (intro exI conjI) (assumption, blast, simp_all add: both_finished_def)
qed (use assms in \<open>auto simp: both_finished_def\<close>)

lemma delivery_closes:
  assumes "app_inv s" "rn_main s = ClosingDelivery" "app_delivery s = Some d"
  shows "\<exists>s'. app_step\<^sup>*\<^sup>* s s' \<and> rn_main s' = StoppingServers"
  using assms
proof (induction "drain_bound d" arbitrary: s d rule: less_induct)
  case less
  then have d: "reachable d" "d_started d" "d_closed d" by (auto simp: app_inv_def delivery_inv_def)
  show ?case
  proof (cases "close_ready d")
    case True
    then obtain t where "main_step DeliveryClosed s = Some t" "rn_main t = StoppingServers"
      using less.prems by (cases "close_finish d") (simp add: main_step_def delivery_closed_def)
    then show ?thesis using app_step.runs by blast
  next
    case False
    then obtain l where "l \<in> set (d_lanes d)" "ln_phase l \<noteq> Finished" using d by (auto simp: close_ready_def list_all_iff)
    from worker_enabled [OF reachable_inv [OF d(1)] d(2,3) this] obtain d' where d': "worker_moves d d'" ..
    let ?t = "on_delivery (\<lambda>_. d') s"
    have t: "app_step s ?t" using less.prems(3) d' by (rule app_step.delivers)
    have "drain_bound d' < drain_bound d" using run_bound [of 1 d d'] d' reachable_inv [OF d(1)] by (simp add: eq_OO)
    moreover have "app_inv ?t" using app_inv_step [OF t] less.prems by simp
    ultimately have "\<exists>s'. app_step\<^sup>*\<^sup>* ?t s' \<and> rn_main s' = StoppingServers"
      using less.prems by (intro less.hyps) simp_all
    then show ?thesis using t by (blast intro: converse_rtranclp_into_rtranclp)
  qed
qed

lemma stopping_returns:
  assumes "rn_main x = StoppingServers"
  shows "\<exists>s'. app_step\<^sup>*\<^sup>* x s' \<and> rn_main s' = main_place.Returned"
proof -
  let ?y = "x\<lparr>rn_running := False, rn_main := main_place.Returned, rn_result := rn_result x @ []\<rparr>"
  have "main_step (ServersStopped False) x = Some ?y" using assms by (simp add: main_step_def)
  then have "app_step x ?y" by (rule app_step.runs)
  then show ?thesis by (intro exI conjI) (rule r_into_rtranclp, assumption, simp)
qed

lemma closing_returns:
  assumes "app_inv v" "rn_main v = ClosingDelivery"
  shows "\<exists>s'. app_step\<^sup>*\<^sup>* v s' \<and> rn_main s' = main_place.Returned"
proof -
  have "\<exists>x. app_step\<^sup>*\<^sup>* v x \<and> rn_main x = StoppingServers"
  proof (cases "app_delivery v")
    case None
    then have "main_step DeliveryClosed v = Some (v\<lparr>rn_main := StoppingServers\<rparr>)"
      using assms(2) by (simp add: main_step_def delivery_closed_def)
    then show ?thesis using app_step.runs by (intro exI conjI) (rule r_into_rtranclp, blast, simp)
  next
    case (Some d)
    from delivery_closes [OF assms this] show ?thesis .
  qed
  then show ?thesis using stopping_returns by (meson rtranclp_trans)
qed

lemma finished_returns:
  assumes u: "app_inv u" "both_finished u" "rn_main u = Draining \<or> rn_main u = Joining"
  shows "\<exists>s'. app_step\<^sup>*\<^sup>* u s' \<and> rn_main s' = main_place.Returned"
proof -
  have "main_step DrainDone u = Some (drain_done u)" using u by (auto simp: main_step_def)
  then have v: "app_step u (drain_done u)" by (rule app_step.runs)
  then show ?thesis using closing_returns [OF app_inv_step [OF v u(1)]]
    by (auto simp: drain_done_def intro: converse_rtranclp_into_rtranclp)
qed

lemma joining_returns:
  assumes "app_inv s" "rn_main s = Joining"
  shows "\<exists>s'. app_step\<^sup>*\<^sup>* s s' \<and> rn_main s' = main_place.Returned"
proof -
  from joining_reads [OF assms] obtain t where t: "app_step\<^sup>*\<^sup>* s t" "app_inv t" "rn_main t = Joining" "rn_readFinished t" by blast
  from joining_consumes [OF t(2-)] obtain u where "app_step\<^sup>*\<^sup>* t u" "app_inv u" "rn_main u = Joining" "both_finished u" by blast
  with finished_returns [of u] t(1) show ?thesis by (meson rtranclp_trans)
qed

text \<open>Once \<open>Run\<close> is draining it goes on doing so: the flag is never cleared.\<close>

lemma draining_stays: "app_step s s' \<Longrightarrow> rn_draining s \<Longrightarrow> rn_main s \<noteq> NotStarted \<Longrightarrow> rn_draining s' \<and> rn_main s' \<noteq> NotStarted"
proof (induction rule: app_step.induct)
  case (consumes s a s')
  then show ?case using consume_frame [OF consumes(2)] by simp
next
  case (runs m s s')
  from runs(1) show ?case
  proof (cases rule: main_step_cases)
    case closed
    from closed(2) obtain errs g where "s' = on_delivery g (s\<lparr>rn_main := StoppingServers, rn_result := rn_result s @ errs\<rparr>)"
      by (rule delivery_closed_frame)
    then show ?thesis using runs by simp
  qed (use runs in \<open>auto simp: drain_def drain_done_def\<close>)
qed (auto simp: caller_cancels_def hand_to_queue_def)

lemma draining_stays_on: "app_step\<^sup>*\<^sup>* s s' \<Longrightarrow> rn_draining s \<Longrightarrow> rn_main s \<noteq> NotStarted \<Longrightarrow> rn_draining s' \<and> rn_main s' \<noteq> NotStarted"
  by (induction rule: rtranclp_induct) (use draining_stays in auto)

lemma draining_returns:
  assumes "app_inv s" "rn_main s = Draining"
  shows "\<exists>s'. app_step\<^sup>*\<^sup>* s s' \<and> rn_main s' = main_place.Returned"
proof (cases "both_finished s")
  case False
  let ?t = "s\<lparr>rn_timedOut := True, rn_stopConsumer := True, rn_main := Joining\<rparr>"
  have "main_step DeadlineFires s = Some ?t" using False assms(2) by (simp add: main_step_def)
  then have t: "app_step s ?t" by (rule app_step.runs)
  from joining_returns [OF app_inv_step [OF t assms(1)]] t show ?thesis
    by (auto intro: converse_rtranclp_into_rtranclp)
qed (use finished_returns assms in blast)

lemma selecting_returns:
  assumes "app_inv s" "rn_main s = Selecting"
  shows "\<exists>s'. app_step\<^sup>*\<^sup>* s s' \<and> rn_main s' = main_place.Returned \<and> rn_draining s'"
proof -
  have "main_step SeeServer s = Some (drain [ServerEnded] s)" using assms(2) by (simp add: main_step_def)
  then have t: "app_step s (drain [ServerEnded] s)" by (rule app_step.runs)
  then obtain s' where s': "app_step\<^sup>*\<^sup>* (drain [ServerEnded] s) s'" "rn_main s' = main_place.Returned"
    using draining_returns [OF app_inv_step [OF t assms(1)]] by (auto simp: drain_def)
  moreover from this have "rn_draining s'" using draining_stays_on by (simp add: drain_def)
  ultimately show ?thesis using t by (blast intro: converse_rtranclp_into_rtranclp)
qed

lemma returns_from:
  assumes inv: "app_inv s"
  shows "\<exists>s'. app_step\<^sup>*\<^sup>* s s' \<and> rn_main s' = main_place.Returned \<and> (rn_running s \<longrightarrow> rn_draining s')"
proof -
  have drained: ?thesis if "rn_draining s" "rn_main s \<noteq> NotStarted" "\<exists>s'. app_step\<^sup>*\<^sup>* s s' \<and> rn_main s' = main_place.Returned"
    using that draining_stays_on by blast
  have main: "main_inv s" using inv by (simp add: app_inv_def run_inv_def)
  show ?thesis
  proof (cases "rn_main s")
    case NotStarted
    have "app_step s (app_begin False s)" using NotStarted by (rule app_step.begins)
    then show ?thesis using main NotStarted
      by (intro exI [of _ "app_begin False s"]) (auto simp: app_begin_def main_inv_def idle_def)
  next
    case Selecting
    then show ?thesis using selecting_returns [OF inv] by blast
  next
    case Draining
    then show ?thesis using main draining_returns [OF inv] by (intro drained) (simp_all add: main_inv_def)
  next
    case Joining
    then show ?thesis using main joining_returns [OF inv] by (intro drained) (simp_all add: main_inv_def)
  next
    case ClosingDelivery
    then show ?thesis using main closing_returns [OF inv] by (intro drained) (simp_all add: main_inv_def)
  next
    case StoppingServers
    then show ?thesis using main stopping_returns by (intro drained) (simp_all add: main_inv_def)
  next
    case Returned
    then show ?thesis using main by (intro exI [of _ s]) (simp add: main_inv_def)
  qed
qed

lemma Status_fields [simp]:
  "st_Healthy (Status s) = rn_running s" "st_Reader (Status s) = ss_status (rn_session s)" "st_Depth (Status s) = int (length (rn_queue s))"
  "st_Capacity (Status s) = ap_QueueCapacity (rn_config s)" "st_Processed (Status s) = rn_processed s"
  "st_Abandoned (Status s) = rn_abandoned s"
  by (simp_all add: Status_def Let_def)

text \<open>What being ready means, where observations are, and while the delivery is open.\<close>

lemma ready_facts:
  assumes "run_inv s" "st_Ready (Status s)"
  shows "rn_main s = Selecting \<and> rn_abandoned s = 0 \<and> shaken (ss_config (rn_session s)) (h_conn (rn_session s))"
proof -
  have r: "rn_running s" "\<not> rn_draining s" "\<not> rn_consumerFailed s" "Ready (ss_status (rn_session s))"
    using assms(2) by (simp_all add: Status_def Let_def)
  then have main: "rn_main s = Selecting" "\<not> rn_timedOut s"
    using assms(1) by (cases "rn_main s"; simp add: run_inv_def main_inv_def idle_def)+
  have "session_inv (rn_session s)" using assms(1) session_reachable_inv by (simp add: run_inv_defs)
  then have "shaken (ss_config (rn_session s)) (h_conn (rn_session s))"
    using r(4) by (cases "ss_place (rn_session s)") (auto simp: session_inv_def status_inv_def place_inv_def Let_def)
  then show ?thesis using main r(3) assms(1) by (auto simp: run_inv_defs)
qed

lemma observations_flow:
  assumes "run_inv s"
  shows "Observations (ss_status (rn_session s)) = rn_processed s + rn_abandoned s +
    (case rn_consumer s of Consuming _ \<Rightarrow> 1 | _ \<Rightarrow> 0) + of_int (int (length (rn_queue s)))"
proof -
  have "session_inv (rn_session s)" using assms session_reachable_inv by (simp add: run_inv_defs)
  then have "Observations (ss_status (rn_session s)) = of_nat (length (h_out (rn_session s)))"
    by (simp add: session_inv_def status_inv_def)
  then show ?thesis using assms by (simp add: run_inv_defs split: consumer_place.split)
qed

lemma delivery_open:
  assumes "run_inv s" "delivery_inv s" "app_delivery s = Some d"
  shows "(rn_running s \<longrightarrow> d_started d) \<and>
    (d_closed d \<and> rn_running s \<longrightarrow> both_finished s \<and> ss_place (rn_session s) \<in> range Done \<and> rn_consumer s \<in> range ConsumerDone)"
proof -
  have "both_finished s \<longrightarrow> ss_place (rn_session s) \<in> range Done \<and> rn_consumer s \<in> range ConsumerDone"
    using assms(1) by (auto simp: run_inv_defs both_finished_def)
  moreover have "rn_running s \<longrightarrow> d_started d \<and> (d_closed d \<longrightarrow> both_finished s)"
    using assms by (cases "rn_main s") (auto simp: run_inv_def main_inv_def idle_def delivery_inv_def)
  ultimately show ?thesis by blast
qed

lemma app_reachable_steps: "app_step\<^sup>*\<^sup>* s s' \<Longrightarrow> app_reachable w f c s \<Longrightarrow> app_reachable w f c s'"
  by (induction rule: rtranclp_induct) (auto intro: app_reachable.step)

section \<open>Properties\<close>

text \<open>
  C2. A run accounts for everything: when \<open>Run\<close> returns after it was started, every observation its
  session decoded was either processed, or abandoned and counted, or given up by the session, in
  that order; the counters say how many. Observations are abandoned only if the result says that
  the drain deadline was exceeded or consuming failed. The session gives them up only if the result
  says that the queue was full or the deadline exceeded, or if the session was cancelled; then the
  result names what cancelled it, the end of the caller's context, a server or a failed consumer,
  but for one case: the caller cancelled, without a deadline, and the consumer had handled all it was
  handed before \<open>Run\<close> looked, when \<open>Run\<close> may return no error at all. And every
  report accepted for a destination is settled as delivered, failed or undelivered, with the
  undelivered ones of each destination in the result.
\<close>

theorem run_accounts_for_everything:
  assumes "app_reachable w f c s" "rn_main s = main_place.Returned" "rn_draining s"
  shows "(\<exists>lost. h_decoded (rn_session s) = gh_consumed s @ gh_abandoned s @ lost \<and>
      (lost = [] \<or> ReaderEnded ErrBackpressure \<in> set (rn_result s) \<or> ErrDrainDeadline \<in> set (rn_result s) \<or>
        ss_place (rn_session s) = Done Reader_Session.ContextEnded \<and>
        (CallerCancelled \<in> set (rn_result s) \<or> ReaderEnded Reader_Session.ContextEnded \<in> set (rn_result s) \<or>
          ServerEnded \<in> set (rn_result s) \<or> (\<exists>x. ConsumeFailed x \<in> set (rn_result s)) \<or>
          rn_cancelled s \<and> \<not> rn_expired s \<and> rn_consumer s = ConsumerDone None))) \<and>
    rn_processed s = of_nat (length (gh_consumed s)) \<and> rn_abandoned s = of_nat (length (gh_abandoned s)) \<and>
    (gh_abandoned s = [] \<or> ErrDrainDeadline \<in> set (rn_result s) \<or> (\<exists>x. ConsumeFailed x \<in> set (rn_result s))) \<and>
    (case app_delivery s of
       None \<Rightarrow> True
     | Some d \<Rightarrow>
         list_all (\<lambda>l. in_flight l = [] \<and> map fst (h_settled l) = h_accepted l \<and>
           ln_enqueued l = ln_delivered l + ln_failed l + ln_undelivered l) (d_lanes d) \<and>
         (let lost = map (\<lambda>l. (ln_name l, ln_undelivered l)) (filter (\<lambda>l. ln_undelivered l > 0) (d_lanes d))
          in lost = [] \<or> ErrUndelivered lost \<in> set (rn_result s)))"
proof -
  have inv: "run_inv s" "result_inv s" "delivery_inv s" using app_reachable_app_inv [OF assms(1)] by (simp_all add: app_inv_def)
  have finished: "rn_readFinished s" "rn_consumeFinished s" "rn_queue s = []"
    using inv(1) assms(2,3) by (simp_all add: run_inv_def main_inv_def both_finished_def)
  obtain e where e: "ss_place (rn_session s) = Done e" using inv(1) finished(1) by (auto simp: run_inv_defs)
  obtain r where r: "rn_consumer s = ConsumerDone r" using inv(1) finished(2) by (auto simp: run_inv_defs)
  have out: "h_out (rn_session s) = gh_consumed s @ gh_abandoned s" using inv(1) finished(3) r by (simp add: run_inv_defs)
  have "session_inv (rn_session s)" using inv(1) session_reachable_inv by (simp add: run_inv_defs)
  then have "ended e (rn_session s)" using e by (simp add: session_inv_def place_inv_def Let_def)
  moreover have late: "rn_timedOut s \<longrightarrow> ErrDrainDeadline \<in> set (rn_result s)" using inv(2) assms(2) by (simp add: result_inv_def)
  moreover have "\<not> rn_timedOut s \<longrightarrow> e = Reader_Session.ContextEnded \<and> \<not> rn_expired s \<or> ReaderEnded e \<in> set (rn_result s)"
    using inv(2) e finished(1) by (simp add: result_inv_def)
  ultimately have lost: "\<exists>lost. h_decoded (rn_session s) = h_out (rn_session s) @ lost \<and>
      (lost = [] \<or> ReaderEnded ErrBackpressure \<in> set (rn_result s) \<or> ErrDrainDeadline \<in> set (rn_result s) \<or>
        e = Reader_Session.ContextEnded \<and> (\<not> rn_expired s \<or> ReaderEnded Reader_Session.ContextEnded \<in> set (rn_result s)))"
    by (auto simp: ended_def)
  have cause: "CallerCancelled \<in> set (rn_result s) \<or> ServerEnded \<in> set (rn_result s) \<or> (\<exists>x. ConsumeFailed x \<in> set (rn_result s)) \<or>
      ReaderEnded Reader_Session.ContextEnded \<in> set (rn_result s) \<or> e \<noteq> Reader_Session.ContextEnded \<or>
      rn_cancelled s \<and> rn_consumer s = ConsumerDone None"
    using app_reachable_cause [OF assms(1)] assms(3) e by (auto simp: cause_inv_def)
  have abandoned: "gh_abandoned s = [] \<or> ErrDrainDeadline \<in> set (rn_result s) \<or> (\<exists>x. ConsumeFailed x \<in> set (rn_result s))"
    using inv r finished late by (cases r) (auto simp: run_inv_defs result_inv_def split: if_splits)
  have delivered: "list_all (\<lambda>l. in_flight l = [] \<and> map fst (h_settled l) = h_accepted l \<and>
        ln_enqueued l = ln_delivered l + ln_failed l + ln_undelivered l) (d_lanes d) \<and>
      (undelivered d = [] \<or> ErrUndelivered (undelivered d) \<in> set (rn_result s))" if "app_delivery s = Some d" for d
  proof -
    have "reachable d" "closed_out d (rn_result s)" using inv(3) that assms(2,3) by (simp_all add: delivery_inv_def)
    then show ?thesis using quiet_lane_settled [of d] by (simp add: closed_out_def list_all_iff)
  qed
  have given_up: "\<exists>lost. h_decoded (rn_session s) = gh_consumed s @ gh_abandoned s @ lost \<and>
      (lost = [] \<or> ReaderEnded ErrBackpressure \<in> set (rn_result s) \<or> ErrDrainDeadline \<in> set (rn_result s) \<or>
        ss_place (rn_session s) = Done Reader_Session.ContextEnded \<and>
        (CallerCancelled \<in> set (rn_result s) \<or> ReaderEnded Reader_Session.ContextEnded \<in> set (rn_result s) \<or>
          ServerEnded \<in> set (rn_result s) \<or> (\<exists>x. ConsumeFailed x \<in> set (rn_result s)) \<or>
          rn_cancelled s \<and> \<not> rn_expired s \<and> rn_consumer s = ConsumerDone None))"
    using lost cause e out by auto
  show ?thesis using given_up abandoned inv(1) delivered
    by (auto simp: run_inv_defs undelivered_def Let_def split: option.split)
qed

text \<open>
  C10. While the application lives: it serves \<open>/healthz\<close> with 200 exactly while \<open>Run\<close> runs, and is ready
  only before it drains, with a completed handshake and nothing abandoned; the queue's depth is
  between zero and its capacity; every observation the reader handed over is processed, abandoned,
  queued or with the consumer; and the delivery is started before anything is enqueued to it and
  closed only after reader and consumer have ended, so nothing is refused because of the shutdown.
\<close>

theorem running_app_is_consistent:
  assumes "app_reachable w f c s"
  shows "(health_code ''/healthz'' (Status s) = 200 \<longleftrightarrow> rn_main s \<notin> {NotStarted, main_place.Returned}) \<and>
    (health_code ''/readyz'' (Status s) = 200 \<longleftrightarrow> st_Ready (Status s)) \<and>
    (if st_Ready (Status s) then rn_main s = Selecting \<and> rn_abandoned s = 0 \<and> shaken (ss_config (rn_session s)) (h_conn (rn_session s))
     else True) \<and>
    0 \<le> st_Depth (Status s) \<and> st_Depth (Status s) \<le> st_Capacity (Status s) \<and>
    Observations (st_Reader (Status s)) = st_Processed (Status s) + st_Abandoned (Status s) +
      (case rn_consumer s of Consuming _ \<Rightarrow> 1 | _ \<Rightarrow> 0) + of_int (st_Depth (Status s)) \<and>
    (case app_delivery s of
       None \<Rightarrow> True
     | Some d \<Rightarrow>
         (if rn_running s then d_started d else True) \<and>
         (if d_closed d \<and> rn_running s then both_finished s \<and> ss_place (rn_session s) \<in> range Done \<and> rn_consumer s \<in> range ConsumerDone
          else True))"
proof -
  have inv: "run_inv s" "delivery_inv s" using app_reachable_app_inv [OF assms] by (simp_all add: app_inv_def)
  have "rn_running s \<longleftrightarrow> rn_main s \<notin> {NotStarted, main_place.Returned}"
    using inv(1) by (cases "rn_main s") (simp_all add: run_inv_def main_inv_def idle_def)
  then have "health_code ''/healthz'' (Status s) = 200 \<longleftrightarrow> rn_main s \<notin> {NotStarted, main_place.Returned}"
    "health_code ''/readyz'' (Status s) = 200 \<longleftrightarrow> st_Ready (Status s)" by (simp_all add: health_code_def)
  moreover have "if st_Ready (Status s) then rn_main s = Selecting \<and> rn_abandoned s = 0 \<and>
      shaken (ss_config (rn_session s)) (h_conn (rn_session s)) else True" using ready_facts [OF inv(1)] by simp
  moreover have "0 \<le> st_Depth (Status s)" "st_Depth (Status s) \<le> st_Capacity (Status s)" using inv(1) by (simp_all add: run_inv_defs)
  moreover have "Observations (st_Reader (Status s)) = st_Processed (Status s) + st_Abandoned (Status s) +
      (case rn_consumer s of Consuming _ \<Rightarrow> 1 | _ \<Rightarrow> 0) + of_int (st_Depth (Status s))"
    unfolding Status_fields by (rule observations_flow [OF inv(1)])
  moreover have "case app_delivery s of None \<Rightarrow> True | Some d \<Rightarrow>
      (if rn_running s then d_started d else True) \<and>
      (if d_closed d \<and> rn_running s then both_finished s \<and> ss_place (rn_session s) \<in> range Done \<and> rn_consumer s \<in> range ConsumerDone
       else True)" using delivery_open [OF inv] by (simp split: option.split)
  ultimately show ?thesis by (intro conjI)
qed

text \<open>
  C11. Shutting down cannot get stuck: from every state the application can reach there are steps to the
  return of \<open>Run\<close>, whatever the reader, the consumer and the destinations were doing; a run that
  had started returns through the drain.
\<close>

theorem run_can_return:
  assumes "app_reachable w f c s"
  shows "\<exists>s'. app_step\<^sup>*\<^sup>* s s' \<and> rn_main s' = main_place.Returned \<and> rn_running s' = False \<and>
    (if rn_running s then rn_draining s' else True)"
proof -
  note inv = app_reachable_app_inv [OF assms]
  from returns_from [OF inv] obtain s' where s': "app_step\<^sup>*\<^sup>* s s'" "rn_main s' = main_place.Returned"
    "rn_running s \<longrightarrow> rn_draining s'" by blast
  have "run_inv s'" using app_inv_steps [OF s'(1) inv] by (simp add: app_inv_def)
  then have "\<not> rn_running s'" using s'(2) by (simp add: run_inv_def main_inv_def)
  with s' show ?thesis by auto
qed

section \<open>Witnesses\<close>

lemma example_new_app:
  "\<exists>s. app_reachable example_surroundings example_file app_DefaultConfig s \<and> rn_main s = NotStarted \<and> \<not> rn_cancelled s \<and>
     rn_config s = app_DefaultConfig \<and> app_delivery s \<noteq> None"
proof -
  obtain a where a: "Pipeline example_surroundings example_file app_DefaultConfig = Inr a"
    using example_pipeline by (auto simp: is_ok_iff)
  define session' where "session' = the (NewSession (\<lambda>_. Some 5084) reader_DefaultConfig)"
  have valid: "reader_Validate (\<lambda>_. Some 5084) reader_DefaultConfig" by code_simp
  then have session': "NewSession (\<lambda>_. Some 5084) reader_DefaultConfig = Some session'"
    by (simp add: session'_def NewSession_def)
  have "\<exists>s. NewApp (\<lambda>_. Some 5084) (\<lambda>_. Some ([], [])) (\<lambda>_. None) (\<lambda>_ _. []) 100 app_DefaultConfig a = Inr s \<and> \<not> rn_cancelled s"
    using valid session'
    by (simp add: NewApp_def app_Validate_def app_DefaultConfig_def a_second_def millisecond_def listen_Validate_def Enabled_def Let_def)
  then obtain s where s: "NewApp (\<lambda>_. Some 5084) (\<lambda>_. Some ([], [])) (\<lambda>_. None) (\<lambda>_ _. []) 100 app_DefaultConfig a = Inr s"
    "\<not> rn_cancelled s" by blast
  have "is_int64 (BackoffMax (ReportConfig example_file))" by code_simp
  from app_reachable.new [OF a this s(1)] have r: "app_reachable example_surroundings example_file app_DefaultConfig s" .
  have ok: "assembly_ok example_file app_DefaultConfig a" by (rule Pipeline_ok [OF a])
  then have "as_Delivery a = None \<longrightarrow> cf_Destinations example_file = []"
    by (simp add: assembly_ok_def delivery_ok_def split: option.splits)
  then have "as_Delivery a \<noteq> None" by (simp add: example_file_def)
  then have "app_delivery s \<noteq> None" using NewApp_inv [OF s(1)] ok by (cases "cn_processor (as_Consumer a)") (simp_all add: app_delivery_def assembly_ok_def)
  with r s(2) NewApp_inv [OF s(1)] show ?thesis by blast
qed

lemma example_running_app:
  "\<exists>s. app_reachable example_surroundings example_file app_DefaultConfig s \<and> rn_main s = Selecting \<and> rn_running s \<and>
     app_delivery s \<noteq> None"
proof -
  obtain s where s: "app_reachable example_surroundings example_file app_DefaultConfig s" "rn_main s = NotStarted"
    "\<not> rn_cancelled s" "app_delivery s \<noteq> None" using example_new_app by blast
  have "app_reachable example_surroundings example_file app_DefaultConfig (app_begin True s)"
    using s(1,2) by (intro app_reachable.step [OF _ app_step.begins])
  then show ?thesis using s(3,4) by (intro exI [of _ "app_begin True s"]) (simp add: app_begin_def)
qed

text \<open>An application that delivers goes on delivering.\<close>

lemma Consume_delivers:
  assumes "Consume over ob sn c = (err, c')" "Option.bind (cn_processor c) pr_delivery \<noteq> None"
  shows "Option.bind (cn_processor c') pr_delivery \<noteq> None"
proof -
  obtain p where p: "cn_processor c = Some p" "pr_delivery p \<noteq> None" using assms(2) by (cases "cn_processor c") auto
  have "pr_delivery (snd (Process over ob tr sn p)) \<noteq> None" for tr
    by (cases "Process over ob tr sn p") (use p(2) in \<open>auto elim: Process_delivery\<close>)
  then show ?thesis using assms(1) p
    by (cases "Translate (cn_translator c) (TranslationInput ob)") (auto simp: Consume_def Let_def split_beta split: if_splits)
qed

lemma app_step_delivers: "app_step s s' \<Longrightarrow> app_delivery s \<noteq> None \<Longrightarrow> app_delivery s' \<noteq> None"
proof (induction rule: app_step.induct)
  case (consumes s a s')
  then show ?case
    by (auto simp: consume_step_def split: consumer_event.splits consumer_place.splits list.splits if_splits prod.splits)
      (auto simp: app_delivery_def dest: Consume_delivers)
next
  case (runs m s s')
  from runs(1) show ?case
  proof (cases rule: main_step_cases)
    case closed
    from closed(2) obtain errs g where "s' = on_delivery g (s\<lparr>rn_main := StoppingServers, rn_result := rn_result s @ errs\<rparr>)"
      by (rule delivery_closed_frame)
    then show ?thesis using runs by simp
  qed (use runs in simp_all)
qed (simp_all add: app_begin_def caller_cancels_def hand_to_queue_def)

lemma app_steps_deliver: "app_step\<^sup>*\<^sup>* s s' \<Longrightarrow> app_delivery s \<noteq> None \<Longrightarrow> app_delivery s' \<noteq> None"
  by (induction rule: rtranclp_induct) (use app_step_delivers in blast)+

theorem run_accounts_for_everything_witness:
  "\<exists>s d. app_reachable example_surroundings example_file app_DefaultConfig s \<and> rn_main s = main_place.Returned \<and> rn_draining s \<and>
     app_delivery s = Some d \<and> list_all (\<lambda>l. in_flight l = []) (d_lanes d)"
proof -
  obtain t where t: "app_reachable example_surroundings example_file app_DefaultConfig t" "rn_main t = Selecting"
    "app_delivery t \<noteq> None" using example_running_app by blast
  from selecting_returns [OF app_reachable_app_inv [OF t(1)] t(2)] obtain s where s: "app_step\<^sup>*\<^sup>* t s"
    "rn_main s = main_place.Returned" "rn_draining s" by blast
  obtain d where d: "app_delivery s = Some d" using app_steps_deliver [OF s(1) t(3)] by blast
  have r: "app_reachable example_surroundings example_file app_DefaultConfig s" by (rule app_reachable_steps [OF s(1) t(1)])
  from run_accounts_for_everything [OF this s(2,3)] have "list_all (\<lambda>l. in_flight l = []) (d_lanes d)"
    by (auto simp: d list_all_iff)
  with r s d show ?thesis by blast
qed

theorem running_app_is_consistent_witness:
  "\<exists>s. app_reachable example_surroundings example_file app_DefaultConfig s \<and> rn_main s = Selecting \<and> app_delivery s \<noteq> None \<and>
     health_code ''/healthz'' (Status s) = 200"
proof -
  obtain s where s: "app_reachable example_surroundings example_file app_DefaultConfig s" "rn_main s = Selecting"
    "app_delivery s \<noteq> None" using example_running_app by blast
  from running_app_is_consistent [OF s(1)] s(2) have "health_code ''/healthz'' (Status s) = 200" by simp
  with s show ?thesis by blast
qed

theorem run_can_return_witness:
  "\<exists>s s'. app_reachable example_surroundings example_file app_DefaultConfig s \<and> rn_main s = Selecting \<and>
     app_step\<^sup>*\<^sup>* s s' \<and> rn_main s' = main_place.Returned \<and> rn_draining s'"
proof -
  obtain s where s: "app_reachable example_surroundings example_file app_DefaultConfig s" "rn_main s = Selecting" "rn_running s"
    using example_running_app by blast
  with run_can_return [OF s(1)] show ?thesis by auto
qed

end
