(* ===== verification/Spec2Isabelle.thy ===== *)
theory Spec2Isabelle
  imports Gs1_URI Emulator_Server Reader_Emulator Application
begin

text \<open>
  A verification library for tagstrak, a tracker of RFID tags. The program connects to a reader over
  LLRP, translates the tags it reports into GS1 or ISO identities, matches them against
  subscriptions, and sends an event for every match to HTTP destinations; its subscriptions can be
  managed through a local API and survive restarts. A second program, the rig, emulates a reader. The
  code is Go, under \<^verbatim>\<open>src/\<close>. Names of the model are those of the code, with a prefix or a suffix where
  two packages use the same one.

  \<^bold>\<open>How the parts meet.\<close> The emulator (\<open>Emulator\<close>, \<open>Emulator_Session\<close>, \<open>Emulator_Server\<close>) writes LLRP frames
  (\<open>Llrp\<close>, \<open>Llrp_Report\<close>) that the reader session (\<open>Reader\<close>, \<open>Reader_Session\<close>) reads; it decodes
  observations (\<open>Inventory\<close>) and hands them to a bounded queue. One consumer takes them from there,
  translates each tag (\<open>Tdt\<close> over \<open>Gs1_Codec\<close> and \<open>Iso\<close>), matches it against the published snapshot
  (\<open>Subscriptions\<close>, whose matcher is one of \<open>Filters\<close>, \<open>Filter_Index\<close>, \<open>Filter_Adaptive\<close>) and enqueues events at
  the dispatcher (\<open>Processing\<close>, \<open>Dispatcher\<close>, \<open>Report_Encode\<close>). \<open>Config_File\<close> and \<open>Configure\<close> build all of it from a
  file; \<open>Control\<close> and \<open>State_Store\<close> replace and keep subscriptions; \<open>Application\<close> is the run of the whole.

  \<^bold>\<open>Conventions.\<close> A struct is a record, an enumeration a datatype, a fallible function returns a sum with the
  error on the left, machine integers are words (\<open>u8\<close> to \<open>u64\<close>) and Go's \<open>int\<close> and durations are integers,
  wrapped where the code can overflow them (\<open>Prelude\<close>). Go strings and byte strings are lists of
  characters and of bytes. Code that is not in the repository is a parameter: the TOML and JSON decoders, the
  media type parser, URL parsing, the file system's failures, clocks, random numbers and floating-point
  operations (\<open>float_ops\<close>, \<open>surroundings\<close>, \<open>faults\<close>). What the code prints through \<^verbatim>\<open>encoding/json\<close> is written
  out in \<open>Report_Encode\<close>, because batches are measured by it.

  \<^bold>\<open>Concurrency.\<close> A goroutine is a place in a state; a step runs from one point where it waits for the world to
  the next, and what it waits for is an input of the step. \<open>session_step\<close>, \<open>emu_step\<close>, \<open>worker_step\<close>, \<open>main_step\<close> and
  \<open>consume_step\<close> are such functions, and \<open>session_move\<close>, \<open>dispatcher_step\<close>, \<open>server_step\<close>, \<open>link_step\<close> and \<open>app_step\<close>
  the inductive relations that interleave them in any order. What no step reads, the history of what was
  read, decoded, accepted, settled, is kept in fields whose names begin with \<open>h_\<close> or \<open>gh_\<close>.

  \<^bold>\<open>The theories.\<close>

  \<^item> \<open>Prelude\<close>, \<open>Wire\<close>, \<open>Strconv\<close>, \<open>Tag_Bits\<close>: words on the wire, error results, the locale \<open>item_codec\<close> of formats whose
    items carry their length (interpreted for messages, parameters and identity keys), decimal text, bit
    fields (\<open>bitsAt\<close>, \<open>setBits\<close> of \<^verbatim>\<open>gs1epc/scheme.go\<close>).
  \<^item> \<open>Llrp\<close> (\<^verbatim>\<open>src/llrp/codec.go\<close>) and \<open>Llrp_Report\<close> (the rest of \<^verbatim>\<open>src/llrp\<close>): frames and parameters decode to
    what was encoded and to nothing else; \<open>DecodeReadEvents\<close> is characterised by what it refuses and, byte for
    byte, by the events it returns.
  \<^item> \<open>Inventory\<close>, \<open>Reader\<close>, \<open>Emulator\<close> (\<^verbatim>\<open>internal/inventory\<close>, \<^verbatim>\<open>reader\<close>, \<^verbatim>\<open>emulator\<close>): tags and their store, settings,
    the validation of messages, report framing, scenarios with their cursor.
  \<^item> \<open>Reader_Session\<close>, \<open>Emulator_Session\<close>, \<open>Emulator_Server\<close> (\<^verbatim>\<open>reader/session.go\<close>, \<^verbatim>\<open>emulator/session.go\<close>, \<^verbatim>\<open>server.go\<close>): the
    state machines, each with an invariant by place (\<open>session_inv\<close>, \<open>emu_inv\<close>, \<open>server_inv\<close>) that its steps preserve.
  \<^item> \<open>Reader_Emulator\<close>: the two sessions over one transport. Both sides apply the frame checks of \<open>ReadMessage\<close> and
    \<open>EncodeMessage\<close> under their own limits; tags cross whole, and nothing is refused if the reader's frame limit
    covers the emulator's.
  \<^item> \<open>Identity\<close>, \<open>Tdtcore\<close>, \<open>Tdtdef\<close> (\<^verbatim>\<open>internal/identity\<close>, \<^verbatim>\<open>tdt/tdtcore\<close>, \<^verbatim>\<open>tdt/tdtdef\<close>): identity values, bit patterns, encodings,
    the error classes and the generated scheme tables, entry by entry.
  \<^item> \<open>Gs1_Scheme\<close>, \<open>Gs1_Codec\<close>, \<open>Gs1_Roundtrip\<close>, \<open>Gs1_URI\<close>, \<open>Gs1_Pattern\<close> (\<^verbatim>\<open>tdt/gs1epc\<close>): the registry, decoding and encoding and
    that they invert each other, URIs both ways, and the bit test compiled from a pattern.
  \<^item> \<open>Iso_Registry\<close>, \<open>Iso\<close>, \<open>Iso_Text\<close>, \<open>Iso_Roundtrip\<close> (\<^verbatim>\<open>tdt/iso\<close>): the register of application family identifiers, six-bit
    text, payload rules, container codes, and the three stages composed and inverted.
  \<^item> \<open>Tdt\<close> (\<^verbatim>\<open>tdt/tdt.go\<close>): the choice of decoder by the protocol control word, and what a translated tag shares with it.
  \<^item> \<open>Filters\<close>, \<open>Filter_Index\<close>, \<open>Filter_Adaptive\<close> (\<^verbatim>\<open>internal/filter\<close>): the reference rule and the linear matcher; two tries
    proved equal to it through the locales \<open>matcher\<close> and \<open>path_store\<close>; the matcher that samples and switches between
    candidates.
  \<^item> \<open>Subscriptions\<close>, \<open>Processing\<close> (\<^verbatim>\<open>app/tagstrak/subscriptions.go\<close>, \<^verbatim>\<open>match.go\<close>, \<^verbatim>\<open>translate.go\<close>, \<^verbatim>\<open>deliver.go\<close>): the table behind the
    locale \<open>live_table\<close>, and what happens to one observation.
  \<^item> \<open>Report_Encode\<close>, \<open>Report\<close>, \<open>Dispatcher\<close>, \<open>Dispatcher_Inv\<close>, \<open>Dispatcher_Props\<close>, \<open>Http_Report\<close> (\<^verbatim>\<open>internal/report\<close>): the wire format,
    read back by a parser of JSON; lanes and workers with where every accepted event is; batches, retries and
    closing; addresses and answers of a destination.
  \<^item> \<open>State_Store\<close> (\<^verbatim>\<open>config/state.go\<close>): the state file over a file system that fails and loses what was not synced.
  \<^item> \<open>Control\<close> (\<^verbatim>\<open>internal/control\<close>, \<^verbatim>\<open>app/tagstrak/controlapi.go\<close>): listeners, authentication, request bodies, entity tags, and
    the handlers; \<open>put_refusals\<close> lists why a replacement is refused, in the order of the checks.
  \<^item> \<open>Config_File\<close>, \<open>Configure\<close> (\<^verbatim>\<open>internal/config\<close>, \<^verbatim>\<open>configure.go\<close>): loading, validation, secrets; settings over the defaults, the
    pipeline of a file, reloading.
  \<^item> \<open>Application\<close> (\<^verbatim>\<open>app.go\<close>, \<^verbatim>\<open>telemetry.go\<close>): start, serving, draining and return of \<open>Run\<close>, with status and health.

  \<^bold>\<open>What the lemmas show.\<close> Codecs and texts are inverted in both directions, with the exact set of inputs
  that are accepted. Optimised matchers and compiled bit tests equal the reference rule. State machines have one
  invariant per component, proved by rule induction over all interleavings; from it follow that nothing is
  lost or counted twice, bounds, and that what waits can always move. Configuration and control have their outcome on
  every branch, errors included. A property is marked by its number in the text before it.

  \<^bold>\<open>Bounds and fuel.\<close> Loops are structural recursion or come with a measure. Fuel is used where an input shrinks by an
  amount the equations do not show: a reader of JSON (\<open>read_value\<close>) and \<open>Unquote\<close> are given the length of their input,
  which is enough because every step takes a character. The drain of the dispatcher is bounded by
  \<open>drain_bound\<close>, computed from what is queued and the number of attempts.

  \<^bold>\<open>Conditions of the environment.\<close> A restart gives back a table if the text of its subscriptions is valid UTF-8
  (\<open>readable\<close>), because JSON replaces what is not; a crash keeps the old or the new table if the earlier replacements
  could sync the directory; a batch stays below its byte budget while batch numbers have ten digits, for the
  envelope is measured with ten; random numbers stay in the range asked for, and a source of them exists. These are
  hypotheses of the properties, and each has a witness in which they hold.

  \<^bold>\<open>Abstractions.\<close> \<open>Status\<close> takes its counters in one step, where the code loads them one after the other, and enqueueing
  counts an event in the step that queues it, so counters are never behind what they count. A replacement of
  subscriptions holds its lock throughout and is one step. The adaptive matcher behind the table answers from the
  state it has reached after an arbitrary sequence of calls (\<open>sr_calls\<close>, \<open>sr_clock\<close>). \<open>build_header\<close> visits the headers
  in the order of the file, where the code follows the order of a map. Of an error the model keeps its class, not
  its message. The JSON decoders of the configuration, the control API and the state file are parameters with
  no more known about them than the hypotheses say.

  \<^bold>\<open>Not modelled.\<close> Logging, metrics, flag parsing, signals, the sockets and TLS below \<^verbatim>\<open>net\<close> and \<^verbatim>\<open>net/http\<close>, permission bits
  other than the check of secrets, tag files (\<^verbatim>\<open>inventory/file.go\<close>), the rig's plumbing (\<^verbatim>\<open>app/rig\<close>), the generators and
  benchmarks, which do not run in the program.
\<close>

end
